(* ===== verification/Lwip_Prelude.thy ===== *)
theory Lwip_Prelude
  imports Main "HOL-Library.Word" "HOL-Library.Monad_Syntax"
begin

text \<open>
  The prelude of the development: the C integer types of \<^verbatim>\<open>lib_test/include/arch/cc.h\<close>
  as words, the error codes of \<^verbatim>\<open>lwip/src/include/lwip/err.h\<close>, the conventions for
  pointers and assertions, and the lemmas on numbers, words and lists that several
  components share.

  Conventions.
  \<^item> A pointer is a natural number, the address; \<open>NULL\<close> is \<open>0\<close>.
  \<^item> \<open>LWIP_ASSERT\<close> and \<open>LWIP_ERROR\<close> call \<open>LWIP_PLATFORM_ASSERT\<close>, which the port defines
    as \<open>abort()\<close>. An operation that contains assertions or dereferences pointers returns an
    option: \<open>None\<close> means that the program aborted, dereferenced a pointer to no live object
    or did not return; \<open>Some\<close> carries the result and the new state.
  \<^item> Sizes and lengths of type \<open>mem_size_t\<close> and \<open>u16_t\<close> that index memory are natural
    numbers; every place where C converts to 16 bits is written with \<open>u16\<close>, and every
    unsigned subtraction in \<open>size_t\<close> with \<open>usub64\<close>.
\<close>

unbundle bit_operations_syntax

named_theorems lwip_simps \<open>evaluation rules for the configuration constants and small helpers\<close>

type_synonym u8_t = "8 word"
type_synonym u16_t = "16 word"
type_synonym u32_t = "32 word"
type_synonym addr = nat

abbreviation (input) NULL :: addr where "NULL \<equiv> 0"

section \<open>Error codes\<close>

datatype err_t = ERR_OK | ERR_MEM | ERR_BUF | ERR_TIMEOUT | ERR_RTE | ERR_ABRT | ERR_RST
  | ERR_CLSD | ERR_CONN | ERR_VAL | ERR_ARG | ERR_USE | ERR_IF | ERR_ISCONN | ERR_INPROGRESS

fun err_code :: "err_t \<Rightarrow> int" where
  "err_code ERR_OK = 0"
| "err_code ERR_MEM = -1"
| "err_code ERR_BUF = -2"
| "err_code ERR_TIMEOUT = -3"
| "err_code ERR_RTE = -4"
| "err_code ERR_ABRT = -5"
| "err_code ERR_RST = -6"
| "err_code ERR_CLSD = -7"
| "err_code ERR_CONN = -8"
| "err_code ERR_VAL = -9"
| "err_code ERR_ARG = -10"
| "err_code ERR_USE = -11"
| "err_code ERR_IF = -12"
| "err_code ERR_ISCONN = -13"
| "err_code ERR_INPROGRESS = -14"

text \<open>C compares error codes as numbers; the order on the datatype is the order of the codes.\<close>

lemma err_code_inj: "err_code a = err_code b \<Longrightarrow> a = b"
  by (cases a; cases b) simp_all

instantiation err_t :: linorder
begin
definition "a \<le> b \<longleftrightarrow> err_code a \<le> err_code b"
definition "a < b \<longleftrightarrow> err_code a < err_code b"
instance
  by standard (auto simp: less_eq_err_t_def less_err_t_def intro: err_code_inj)
end

definition ERR_IS_FATAL :: "err_t \<Rightarrow> bool" where
  "ERR_IS_FATAL e \<longleftrightarrow> e < ERR_RTE"

section \<open>C arithmetic on natural numbers\<close>

definition u16 :: "nat \<Rightarrow> nat" where
  "u16 n = n mod 65536"

lemma u16_id [simp]: "n < 65536 \<Longrightarrow> u16 n = n"
  by (simp add: u16_def)

lemma u16_less [simp]: "u16 n < 65536"
  by (simp add: u16_def)

lemma u16_le [simp]: "u16 n \<le> n"
  by (simp add: u16_def)

definition usub64 :: "nat \<Rightarrow> nat \<Rightarrow> nat" where
  "usub64 a b = (if b \<le> a then a - b else a + 2 ^ 64 - b)"

lemma usub64_id [simp]: "b \<le> a \<Longrightarrow> usub64 a b = a - b"
  by (simp add: usub64_def)

definition usub16 :: "nat \<Rightarrow> nat \<Rightarrow> nat" where
  "usub16 a b = (a + 65536 - b mod 65536) mod 65536"

lemma usub16_id [simp]:
  assumes "b \<le> a" and "a < 65536"
  shows "usub16 a b = a - b"
proof -
  have "a + 65536 - b = (a - b) + 65536" using assms(1) by simp
  then have "(a + 65536 - b) mod 65536 = (a - b) mod 65536"
    by (metis mod_add_self2)
  then show ?thesis using assms by (simp add: usub16_def)
qed

text \<open>The range of a machine integer, with the bound as a numeral.\<close>

lemma unat_u8_less [simp]: "unat (w :: u8_t) < 256"
  using unsigned_less [of w] by simp

lemma unat_u16_less [simp]: "unat (w :: u16_t) < 65536"
  using unsigned_less [of w] by simp

lemma unat_u32_less [simp]: "unat (w :: u32_t) < 4294967296"
  using unsigned_less [of w] by simp

section \<open>Assertions\<close>

definition lwip_assert :: "bool \<Rightarrow> unit option" where
  "lwip_assert b = (if b then Some () else None)"

lemma lwip_assert_True [simp]: "lwip_assert True = Some ()"
  by (simp add: lwip_assert_def)

lemma lwip_assert_False [simp]: "lwip_assert False = None"
  by (simp add: lwip_assert_def)

lemma lwip_assert_Some [simp]: "lwip_assert b = Some u \<longleftrightarrow> b"
  by (simp add: lwip_assert_def)

lemma lwip_assert_bind [simp]: "Option.bind (lwip_assert b) f = (if b then f () else None)"
  by (simp add: lwip_assert_def)

end
