(* ===== verification/Inet.thy ===== *)
theory Inet
  imports Lwip_Prelude
begin

text \<open>
  The routines of \<^verbatim>\<open>lwip/src/core/ipv4/inet.c\<close>: byte swapping between host and network
  order for a little-endian host (\<open>BYTE_ORDER\<close> is \<open>LITTLE_ENDIAN\<close> and
  \<open>LWIP_PLATFORM_BYTESWAP\<close> is 0 in the port), the parser \<open>inet_aton\<close> of dotted addresses and
  the printer \<open>inet_ntoa\<close>.

  A C string is the list of its characters before the terminating NUL; reading at the end of
  the list gives NUL. The characters of the four parts are consumed left to right exactly as
  the pointer \<open>cp\<close> moves.
\<close>

section \<open>Byte order\<close>

definition htons :: "u16_t \<Rightarrow> u16_t" where
  "htons n = push_bit 8 (n AND 0xff) OR drop_bit 8 (n AND 0xff00)"

definition ntohs :: "u16_t \<Rightarrow> u16_t" where
  "ntohs n = htons n"

definition htonl :: "u32_t \<Rightarrow> u32_t" where
  "htonl n = push_bit 24 (n AND 0xff) OR push_bit 8 (n AND 0xff00)
     OR drop_bit 8 (n AND 0xff0000) OR drop_bit 24 (n AND 0xff000000)"

definition ntohl :: "u32_t \<Rightarrow> u32_t" where
  "ntohl n = htonl n"

section \<open>Character classes\<close>

definition in_range :: "char \<Rightarrow> char \<Rightarrow> char \<Rightarrow> bool" where
  "in_range c lo up \<longleftrightarrow> (of_char lo :: nat) \<le> of_char c \<and> (of_char c :: nat) \<le> of_char up"

definition isdigit :: "char \<Rightarrow> bool" where
  "isdigit c \<longleftrightarrow> in_range c (CHR ''0'') (CHR ''9'')"

definition isxdigit :: "char \<Rightarrow> bool" where
  "isxdigit c \<longleftrightarrow> isdigit c \<or> in_range c (CHR ''a'') (CHR ''f'') \<or> in_range c (CHR ''A'') (CHR ''F'')"

definition islower :: "char \<Rightarrow> bool" where
  "islower c \<longleftrightarrow> in_range c (CHR ''a'') (CHR ''z'')"

definition isspace :: "char \<Rightarrow> bool" where
  "isspace c \<longleftrightarrow> c = CHR '' '' \<or> c = CHR 0x0C \<or> c = CHR 0x0A \<or> c = CHR 0x0D \<or> c = CHR 0x09
     \<or> c = CHR 0x0B"

section \<open>inet\_aton and inet\_addr\<close>

definition cstr :: "string \<Rightarrow> char" where
  "cstr cp = (case cp of [] \<Rightarrow> CHR 0x00 | c # _ \<Rightarrow> c)"

fun aton_number :: "nat \<Rightarrow> u32_t \<Rightarrow> string \<Rightarrow> u32_t \<times> string" where
  "aton_number base val [] = (val, [])"
| "aton_number base val (c # cp) =
     (if isdigit c then aton_number base (val * of_nat base + of_nat (of_char c - of_char (CHR ''0''))) cp
      else if base = 16 \<and> isxdigit c then
        aton_number base (push_bit 4 val OR
          of_nat (of_char c + 10 - of_char (if islower c then CHR ''a'' else CHR ''A''))) cp
      else (val, c # cp))"

definition aton_base :: "string \<Rightarrow> nat \<times> string" where
  "aton_base cp =
     (if cstr cp = CHR ''0'' then
        (if cstr (tl cp) = CHR ''x'' \<or> cstr (tl cp) = CHR ''X'' then (16, tl (tl cp)) else (8, tl cp))
      else (10, cp))"

lemma aton_number_length: "length (snd (aton_number base val cp)) \<le> length cp"
  by (induction base val cp rule: aton_number.induct) auto

lemma aton_base_length: "length (snd (aton_base cp)) \<le> length cp"
  by (auto simp: aton_base_def intro: le_trans [of _ "length cp - 1"])

function aton_parts :: "u32_t list \<Rightarrow> string \<Rightarrow> (u32_t list \<times> u32_t \<times> char) option" where
  "aton_parts parts cp =
     (if \<not> isdigit (cstr cp) then None
      else
        let (base, cp1) = aton_base cp;
            (val, cp2) = aton_number base 0 cp1
        in if cstr cp2 = CHR ''.'' then
             (if length parts \<ge> 3 then None else aton_parts (parts @ [val]) (tl cp2))
           else Some (parts, val, cstr cp2))"
  by pat_completeness auto
termination
proof (relation "measure (\<lambda>(parts, cp). length cp)", goal_cases)
  case 1
  then show ?case by simp
next
  case (2 parts cp x base cp1 y val cp2)
  have "length cp1 \<le> length cp"
    using aton_base_length [of cp] 2(2,3) by (metis snd_conv)
  moreover have "length cp2 \<le> length cp1"
    using aton_number_length [of base 0 cp1] 2(4,5) by (metis snd_conv)
  moreover have "cp2 \<noteq> []"
    using 2(6) by (auto simp: cstr_def)
  ultimately show ?case by (cases cp2) auto
qed

declare aton_parts.simps [simp del]

definition inet_aton :: "string \<Rightarrow> u32_t option" where
  "inet_aton cp =
     (case aton_parts [] cp of
        None \<Rightarrow> None
      | Some (parts, val, c) \<Rightarrow>
          if c \<noteq> CHR 0x00 \<and> \<not> isspace c then None
          else
            (case parts of
               [] \<Rightarrow> Some (htonl val)
             | [p0] \<Rightarrow> if val > 0xffffff then None else Some (htonl (val OR push_bit 24 p0))
             | [p0, p1] \<Rightarrow> if val > 0xffff then None
                 else Some (htonl (val OR (push_bit 24 p0 OR push_bit 16 p1)))
             | [p0, p1, p2] \<Rightarrow> if val > 0xff then None
                 else Some (htonl (val OR (push_bit 24 p0 OR push_bit 16 p1 OR push_bit 8 p2)))
             | _ \<Rightarrow> Some (htonl val)))"

definition INADDR_NONE :: u32_t where
  "INADDR_NONE = 0xffffffff"

definition inet_addr :: "string \<Rightarrow> u32_t" where
  "inet_addr cp = (case inet_aton cp of Some a \<Rightarrow> a | None \<Rightarrow> INADDR_NONE)"

section \<open>inet\_ntoa\<close>

text \<open>The bytes of a 32-bit value in memory, lowest address first.\<close>

definition le_bytes :: "u32_t \<Rightarrow> nat list" where
  "le_bytes a = map (\<lambda>i. unat (drop_bit (8 * i) a AND 0xff)) [0, 1, 2, 3]"

text \<open>The \<open>do\<close> loop that fills \<open>inv\<close> with the digits of one byte, lowest digit first.\<close>

fun ntoa_inv :: "nat \<Rightarrow> string \<Rightarrow> string" where
  "ntoa_inv ap ds =
     (let ds' = ds @ [char_of (of_char (CHR ''0'') + ap mod 10 :: nat)]
      in if ap div 10 \<noteq> 0 then ntoa_inv (ap div 10) ds' else ds')"

declare ntoa_inv.simps [simp del]

text \<open>Each byte is followed by a dot; \<open>*--rp = 0\<close> replaces the last dot by the NUL.\<close>

definition inet_ntoa :: "u32_t \<Rightarrow> string" where
  "inet_ntoa a = butlast (concat (map (\<lambda>ap. rev (ntoa_inv ap []) @ ''.'') (le_bytes a)))"

section \<open>Byte order: lemmas\<close>

lemma or_eq_plus: "a AND b = 0 \<Longrightarrow> a OR b = a + b" for a b :: "'a::len word"
  using word_plus_and_or [of a b] by simp

lemma byte_masks16: "(0xff :: u16_t) = mask 8" "(0xff00 :: u16_t) = push_bit 8 (mask 8)"
  by (simp_all add: mask_eq_exp_minus_1 push_bit_eq_mult)

lemma byte_masks32: "(0xff :: u32_t) = mask 8" "(0xff00 :: u32_t) = push_bit 8 (mask 8)"
  "(0xff0000 :: u32_t) = push_bit 16 (mask 8)" "(0xff000000 :: u32_t) = push_bit 24 (mask 8)"
  by (simp_all add: mask_eq_exp_minus_1 push_bit_eq_mult)

lemma unat_htons: "unat (htons n) = unat n mod 256 * 256 + unat n div 256"
proof -
  have t: "n AND 0xff = take_bit 8 n"
    by (simp add: byte_masks16 take_bit_eq_mask)
  have d: "drop_bit 8 (n AND 0xff00) = drop_bit 8 n"
    by (rule bit_word_eqI) (auto simp: byte_masks16 bit_simps dest: bit_imp_le_length)
  have "push_bit 8 (take_bit 8 n) AND drop_bit 8 n = 0"
    by (rule bit_word_eqI) (auto simp: bit_simps dest: bit_imp_le_length)
  then have e: "htons n = push_bit 8 (take_bit 8 n) + drop_bit 8 n"
    unfolding htons_def d t by (rule or_eq_plus)
  have p: "unat (push_bit 8 (take_bit 8 n)) = unat n mod 256 * 256"
    by (simp add: push_bit_eq_mult take_bit_eq_mod unat_word_ariths unat_mod_distrib)
  have q: "unat (drop_bit 8 n) = unat n div 256"
    by (simp add: drop_bit_eq_div unat_div_distrib)
  have "unat n < 65536"
    by (rule unat_u16_less)
  then have "unat n mod 256 * 256 + unat n div 256 < 65536"
    by linarith
  then show ?thesis
    by (simp add: e unat_word_ariths p q)
qed

lemma htons_htons [simp]: "htons (htons n) = n"
proof -
  have "unat n div 256 < 256"
    using unat_u16_less [of n] by linarith
  then have "unat (htons (htons n)) = unat n"
    by (simp add: unat_htons)
  then show ?thesis
    by (simp add: word_unat_eq_iff)
qed

lemma bit_htonl:
  "bit (htonl n) i \<longleftrightarrow> (if i < 8 then bit n (i + 24) else if i < 16 then bit n (i + 8)
     else if i < 24 then bit n (i - 8) else if i < 32 then bit n (i - 24) else False)"
proof -
  consider "i < 8" | "8 \<le> i" "i < 16" | "16 \<le> i" "i < 24" | "24 \<le> i" "i < 32" | "32 \<le> i"
    by linarith
  then show ?thesis
    by cases (auto simp: htonl_def byte_masks32 bit_simps add.commute)
qed

lemma htonl_htonl [simp]: "htonl (htonl n) = n"
  by (rule bit_word_eqI) (auto simp: bit_htonl)

section \<open>Printing and parsing addresses\<close>

lemma of_char_digit [simp]: "d < 10 \<Longrightarrow> of_char (char_of (48 + d :: nat) :: char) = (48 + d :: nat)"
  by (simp add: of_char_of)

lemma isdigit_char_of: "d < 10 \<Longrightarrow> isdigit (char_of (48 + d :: nat))"
  by (simp add: isdigit_def in_range_def)

lemma aton_number_digit:
  "d < 10 \<Longrightarrow> aton_number base val (char_of (48 + d :: nat) # cp) =
     aton_number base (val * of_nat base + of_nat d) cp"
  by (simp add: isdigit_char_of)

lemma aton_number_stop:
  "\<not> isdigit (cstr cp) \<Longrightarrow> base \<noteq> 16 \<Longrightarrow> aton_number base val cp = (val, cp)"
  by (cases cp) (auto simp: cstr_def)

text \<open>The digits that \<open>inet_ntoa\<close> prints for one byte: no leading zero, at most three.\<close>

definition byte_digits :: "nat \<Rightarrow> nat list" where
  "byte_digits n = (if n < 10 then [n] else if n < 100 then [n div 10, n mod 10]
     else [n div 100, n div 10 mod 10, n mod 10])"

lemma ntoa_inv_byte:
  assumes "n < 256"
  shows "rev (ntoa_inv n []) = map (\<lambda>d. char_of (48 + d)) (byte_digits n)"
proof -
  consider "n < 10" | "10 \<le> n" "n < 100" | "100 \<le> n" "n < 256"
    using assms by linarith
  then show ?thesis
  proof cases
    case 3
    then have "n div 10 div 10 = n div 100" "n div 100 < 10" "n div 10 \<noteq> 0" "n div 100 \<noteq> 0"
      by (simp_all add: div_mult2_eq [symmetric] div_eq_0_iff)
    with 3 show ?thesis
      by (simp add: ntoa_inv.simps [of n] ntoa_inv.simps [of "n div 10"]
          ntoa_inv.simps [of "n div 100"] byte_digits_def)
  next
    case 2
    then show ?thesis
      by (simp add: ntoa_inv.simps [of n] ntoa_inv.simps [of "n div 10"] byte_digits_def
          div_eq_0_iff)
  qed (simp add: ntoa_inv.simps [of n] byte_digits_def)
qed

definition byte_str :: "nat \<Rightarrow> string" where
  "byte_str n = map (\<lambda>d. char_of (48 + d)) (byte_digits n)"

lemma char_of_digit_eq_0: "d < 10 \<Longrightarrow> char_of (48 + d :: nat) = CHR ''0'' \<longleftrightarrow> d = 0"
  by (simp add: char_of_eq_iff take_bit_eq_mod)

lemma aton_field:
  assumes "n < 256" and "\<not> isdigit (cstr rest)"
    and "cstr rest \<noteq> CHR ''x''" "cstr rest \<noteq> CHR ''X''"
  shows "isdigit (cstr (byte_str n @ rest))"
    and "aton_number (fst (aton_base (byte_str n @ rest))) 0 (snd (aton_base (byte_str n @ rest)))
           = (of_nat n, rest)"
proof -
  have d: "\<forall>d \<in> set (byte_digits n). d < 10"
    using assms(1) by (auto simp: byte_digits_def)
  have ne: "byte_digits n \<noteq> []"
    by (simp add: byte_digits_def)
  show "isdigit (cstr (byte_str n @ rest))"
    using d ne by (cases "byte_digits n") (auto simp: byte_str_def cstr_def isdigit_char_of)
  show "aton_number (fst (aton_base (byte_str n @ rest))) 0 (snd (aton_base (byte_str n @ rest)))
           = (of_nat n, rest)"
  proof (cases "n = 0")
    case True
    then have "byte_str n = ''0''"
      by (simp add: byte_str_def byte_digits_def char_of_digit_eq_0 [of 0, simplified])
    then show ?thesis
      using assms(2-) True by (simp add: aton_base_def cstr_def [of "_ # _"] aton_number_stop)
  next
    case False
    have hd: "hd (byte_digits n) \<noteq> 0"
      using False assms(1) by (auto simp: byte_digits_def div_eq_0_iff)
    have "aton_base (byte_str n @ rest) = (10, byte_str n @ rest)"
      using d ne hd
      by (cases "byte_digits n") (auto simp: byte_str_def aton_base_def cstr_def char_of_digit_eq_0)
    moreover have "aton_number 10 0 (byte_str n @ rest) = (of_nat n, rest)"
    proof -
      consider "n < 10" | "10 \<le> n" "n < 100" | "100 \<le> n" by linarith
      then show ?thesis
      proof cases
        case 1
        then show ?thesis
          using assms(2) by (simp add: byte_str_def byte_digits_def aton_number_digit aton_number_stop
              del: aton_number.simps)
      next
        case 2
        then have "(of_nat (n div 10) * 10 + of_nat (n mod 10) :: u32_t) = of_nat n"
          by (metis mult_div_mod_eq mult.commute of_nat_add of_nat_mult of_nat_numeral)
        with 2 show ?thesis
          using assms(2) by (simp add: byte_str_def byte_digits_def aton_number_digit aton_number_stop
              del: aton_number.simps)
      next
        case 3
        have "n div 10 div 10 = n div 100"
          by (simp add: div_mult2_eq [symmetric])
        then have "n div 10 = n div 100 * 10 + n div 10 mod 10"
          by (metis div_mult_mod_eq)
        then have "n = (n div 100 * 10 + n div 10 mod 10) * 10 + n mod 10"
          by simp
        then have "((of_nat (n div 100) * 10 + of_nat (n div 10 mod 10)) * 10 + of_nat (n mod 10) :: u32_t)
            = of_nat n"
          by (metis of_nat_add of_nat_mult of_nat_numeral)
        moreover have "n div 100 < 10"
          using assms(1) by simp
        ultimately show ?thesis
          using 3 assms(2) by (simp add: byte_str_def byte_digits_def aton_number_digit aton_number_stop
              del: aton_number.simps)
      qed
    qed
    ultimately show ?thesis by simp
  qed
qed

lemma aton_parts_dot:
  assumes "n < 256" and "length parts < 3"
  shows "aton_parts parts (byte_str n @ CHR ''.'' # rest) = aton_parts (parts @ [of_nat n]) rest"
  using aton_field [OF assms(1), of "CHR ''.'' # rest"] assms(2)
  by (subst aton_parts.simps)
    (simp add: cstr_def [of "_ # _"] isdigit_def in_range_def split_beta Let_def)

lemma aton_parts_end:
  assumes "n < 256"
  shows "aton_parts parts (byte_str n) = Some (parts, of_nat n, CHR 0x00)"
  using aton_field [OF assms, of "[]"]
  by (subst aton_parts.simps)
    (simp add: cstr_def [of "[]"] isdigit_def in_range_def split_beta Let_def)

lemma le_bytes_eq:
  "le_bytes a = [unat (a AND 0xff), unat (drop_bit 8 a AND 0xff), unat (drop_bit 16 a AND 0xff),
     unat (drop_bit 24 a AND 0xff)]"
  by (simp add: le_bytes_def)

lemma unat_and_ff_less: "unat (w AND 0xff :: u32_t) < 256"
  using word_and_le1 [of w "0xff"] by (simp add: word_le_nat_alt)

lemma inet_ntoa_eq:
  "inet_ntoa a = byte_str (unat (a AND 0xff)) @ CHR ''.'' # byte_str (unat (drop_bit 8 a AND 0xff))
     @ CHR ''.'' # byte_str (unat (drop_bit 16 a AND 0xff))
     @ CHR ''.'' # byte_str (unat (drop_bit 24 a AND 0xff))"
  by (simp add: inet_ntoa_def le_bytes_eq ntoa_inv_byte unat_and_ff_less byte_str_def butlast_append)

lemma htonl_eq_bytes:
  "(drop_bit 24 a AND 0xff) OR (push_bit 24 (a AND 0xff) OR push_bit 16 (drop_bit 8 a AND 0xff)
     OR push_bit 8 (drop_bit 16 a AND 0xff)) = htonl a"
proof (rule bit_word_eqI)
  fix i
  assume "i < LENGTH(32)"
  then consider "i < 8" | "8 \<le> i" "i < 16" | "16 \<le> i" "i < 24" | "24 \<le> i" "i < 32"
    by fastforce
  then show "bit ((drop_bit 24 a AND 0xff) OR (push_bit 24 (a AND 0xff) OR
      push_bit 16 (drop_bit 8 a AND 0xff) OR push_bit 8 (drop_bit 16 a AND 0xff))) i =
      bit (htonl a) i"
    by cases (auto simp: bit_htonl byte_masks32(1) bit_simps add.commute)
qed

text \<open>
  Claim C27. Printing an address with \<open>inet_ntoa\<close> and parsing the text with \<open>inet_aton\<close> gives
  the address back, for every 32-bit address.
\<close>

theorem inet_aton_ntoa: "inet_aton (inet_ntoa a) = Some a"
proof -
  have le: "(drop_bit 24 a AND 0xff :: u32_t) \<le> 0xff"
    by (rule word_and_le1)
  have parts: "aton_parts [] (inet_ntoa a) = Some ([a AND 0xff, drop_bit 8 a AND 0xff, drop_bit 16 a AND 0xff],
      drop_bit 24 a AND 0xff, CHR 0x00)"
    by (simp add: inet_ntoa_eq aton_parts_dot aton_parts_end unat_and_ff_less)
  show ?thesis
    unfolding inet_aton_def parts option.case prod.case list.case htonl_eq_bytes htonl_htonl
    using le by (simp add: not_less)
qed

text \<open>
  Claim C35. The text that \<open>inet_ntoa\<close> writes never overruns its static 16-byte buffer: it has
  between 7 and 15 characters before the NUL, and the digits of one byte never overrun the
  three-byte scratch array \<open>inv\<close>.
\<close>

theorem inet_ntoa_fits:
  "7 \<le> length (inet_ntoa a) \<and> length (inet_ntoa a) < 16
     \<and> list_all (\<lambda>b. length (ntoa_inv b []) \<le> 3) (le_bytes a)"
proof -
  have l: "1 \<le> length (byte_str n) \<and> length (byte_str n) \<le> 3" for n
    by (simp add: byte_str_def byte_digits_def)
  have "length (ntoa_inv n []) \<le> 3" if "n < 256" for n
    using ntoa_inv_byte [OF that] l [of n] by (metis byte_str_def length_rev)
  then have "list_all (\<lambda>b. length (ntoa_inv b []) \<le> 3) (le_bytes a)"
    by (simp add: le_bytes_eq unat_and_ff_less)
  moreover have "7 \<le> length (inet_ntoa a) \<and> length (inet_ntoa a) < 16"
    using l [of "unat (a AND 0xff)"] l [of "unat (drop_bit 8 a AND 0xff)"]
      l [of "unat (drop_bit 16 a AND 0xff)"] l [of "unat (drop_bit 24 a AND 0xff)"]
    by (simp add: inet_ntoa_eq)
  ultimately show ?thesis by blast
qed


end
