(* ===== verification/Allocator.thy ===== *)
theory Allocator
  imports Lwip_Prelude
begin

text \<open>
  The contract that the packet buffers rely on when they get memory from the heap of
  \<^verbatim>\<open>mem.c\<close> and from the pools of \<^verbatim>\<open>memp.c\<close>: a state with a set of live blocks, an operation
  that adds a block and one that removes it.

  \<open>live\<close> maps the address of a block to what the allocator knows of it, \<open>blk_size\<close> is the number
  of bytes it spans. The laws say that an allocation either fails and changes nothing or adds
  one fresh block that is large enough, that blocks never overlap, and that releasing a live
  block succeeds and removes exactly that block. The clients' lemmas follow once for both
  allocators.
\<close>

datatype ('r, 'k) alloc_op = Alloc 'r | Release addr

definition alloc_regions_disjoint :: "('k \<Rightarrow> nat) \<Rightarrow> (addr \<rightharpoonup> 'k) \<Rightarrow> bool" where
  "alloc_regions_disjoint sz L \<longleftrightarrow>
     (\<forall>p q a b. L p = Some a \<longrightarrow> L q = Some b \<longrightarrow> p \<noteq> q \<longrightarrow> p + sz a \<le> q \<or> q + sz b \<le> p)"

locale allocator =
  fixes invar :: "'h \<Rightarrow> bool"
    and live :: "'h \<Rightarrow> (addr \<rightharpoonup> 'k)"
    and blk_size :: "'k \<Rightarrow> nat"
    and request_ok :: "'r \<Rightarrow> bool"
    and request_size :: "'r \<Rightarrow> nat"
    and alloc :: "'h \<Rightarrow> 'r \<Rightarrow> (addr \<times> 'h) option"
    and release :: "'h \<Rightarrow> 'k \<Rightarrow> addr \<Rightarrow> 'h option"
  assumes alloc_total: "invar h \<Longrightarrow> request_ok r \<Longrightarrow> \<exists>p h'. alloc h r = Some (p, h')"
    and alloc_null: "invar h \<Longrightarrow> request_ok r \<Longrightarrow> alloc h r = Some (NULL, h') \<Longrightarrow> h' = h"
    and alloc_fresh: "invar h \<Longrightarrow> request_ok r \<Longrightarrow> alloc h r = Some (p, h') \<Longrightarrow> p \<noteq> NULL \<Longrightarrow>
      live h p = None \<and> invar h' \<and> (\<exists>k. request_size r \<le> blk_size k \<and> live h' = (live h)(p \<mapsto> k))"
    and live_disjoint: "invar h \<Longrightarrow> alloc_regions_disjoint blk_size (live h)"
    and live_nonnull: "invar h \<Longrightarrow> live h NULL = None"
    and release_live: "invar h \<Longrightarrow> live h p = Some k \<Longrightarrow>
      \<exists>h'. release h k p = Some h' \<and> invar h' \<and> live h' = (live h)(p := None)"
begin

text \<open>A new block overlaps no block that was live before.\<close>

lemma alloc_disjoint:
  assumes "invar h" "request_ok r" "alloc h r = Some (p, h')" "p \<noteq> NULL" "live h q = Some k"
  shows "q \<noteq> p \<and> (p + request_size r \<le> q \<or> q + blk_size k \<le> p)"
proof -
  obtain k' where n: "live h p = None" "invar h'" "request_size r \<le> blk_size k'" "live h' = (live h)(p \<mapsto> k')"
    using alloc_fresh [OF assms(1-4)] by blast
  then have "q \<noteq> p" "live h' p = Some k'" "live h' q = Some k"
    using assms(5) by auto
  then show ?thesis
    using live_disjoint [OF n(2)] n(3) unfolding alloc_regions_disjoint_def by fastforce
qed

text \<open>Releasing a block that was just allocated restores the set of live blocks.\<close>

lemma alloc_release:
  assumes "invar h" "request_ok r" "alloc h r = Some (p, h')" "p \<noteq> NULL"
  shows "\<exists>k h''. live h' p = Some k \<and> release h' k p = Some h'' \<and> invar h'' \<and> live h'' = live h"
proof -
  obtain k where n: "live h p = None" "invar h'" "live h' = (live h)(p \<mapsto> k)"
    using alloc_fresh [OF assms] by blast
  then have "live h' p = Some k" "(live h')(p := None) = live h"
    by auto
  then show ?thesis
    using release_live [OF n(2)] by metis
qed

text \<open>
  A client that only releases what is live is never aborted: a run of requests and releases,
  where a release of an address that is not live is skipped by the client.
\<close>

fun run :: "'h \<Rightarrow> ('r, 'k) alloc_op list \<Rightarrow> 'h option" where
  "run h [] = Some h"
| "run h (Alloc r # ops) = (case alloc h r of None \<Rightarrow> None | Some (p, h') \<Rightarrow> run h' ops)"
| "run h (Release p # ops) =
     (case live h p of None \<Rightarrow> run h ops
      | Some k \<Rightarrow> (case release h k p of None \<Rightarrow> None | Some h' \<Rightarrow> run h' ops))"

lemma run_safe:
  "invar h \<Longrightarrow> \<forall>r. Alloc r \<in> set ops \<longrightarrow> request_ok r \<Longrightarrow> \<exists>h'. run h ops = Some h' \<and> invar h'"
proof (induction h ops rule: run.induct)
  case (2 h r ops)
  have ok: "request_ok r" using 2(3) by simp
  obtain p h' where a: "alloc h r = Some (p, h')"
    using alloc_total [OF 2(2) ok] by blast
  have "invar h'"
    using alloc_null [OF 2(2) ok] alloc_fresh [OF 2(2) ok a] a 2(2) by (cases "p = NULL") auto
  then show ?case
    using 2(1) [OF a refl] 2(3) a by auto
next
  case (3 h p ops)
  then show ?case
    using release_live [OF 3(3)] by (fastforce split: option.splits)
qed simp

end

end
