(* ===== verification/Mem.thy ===== *)
theory Mem
  imports Allocator
begin

text \<open>
  The heap of \<^verbatim>\<open>lwip/src/core/mem.c\<close> (the variant built when \<open>MEM_USE_POOLS\<close> and
  \<open>MEM_LIBC_MALLOC\<close> are 0): a first-fit allocator over one array, whose blocks form a doubly
  linked list of \<open>struct mem\<close> headers.

  State. \<open>structs\<close> maps the index of a header in the array to its fields; \<open>lfree\<close> is the
  index of the lowest free block; \<open>ram\<close> is the address of the array, fixed by \<open>mem_init\<close> from
  the address the linker gives \<open>ram_heap\<close>. The header \<open>ram_end\<close> has index
  \<open>MEM_SIZE_ALIGNED\<close>. With \<open>NO_SYS\<close> the semaphore operations are empty macros, and with
  \<open>LWIP_STATS\<close> 0 the statistics are.

  Configuration (\<^verbatim>\<open>lib_test/lwipopts.h\<close>): \<open>MEM_ALIGNMENT\<close> 1, \<open>MEM_SIZE\<close> 16000, hence
  \<open>mem_size_t\<close> is 16 bits wide. \<open>sizeof(struct mem)\<close> is 6 (two 16-bit fields, one byte, one
  byte of padding).

  The theory shows that the operations implement an abstract list of blocks: the heap is
  tiled by the blocks without gaps, no two free blocks are adjacent, and no assertion fails.
\<close>

section \<open>Configuration\<close>

definition MEM_ALIGNMENT :: nat where
  "MEM_ALIGNMENT = 1"

definition LWIP_MEM_ALIGN_SIZE :: "nat \<Rightarrow> nat" where
  "LWIP_MEM_ALIGN_SIZE n = (n + MEM_ALIGNMENT - 1) div MEM_ALIGNMENT * MEM_ALIGNMENT"

definition LWIP_MEM_ALIGN :: "addr \<Rightarrow> addr" where
  "LWIP_MEM_ALIGN a = (a + MEM_ALIGNMENT - 1) div MEM_ALIGNMENT * MEM_ALIGNMENT"

definition MEM_SIZE :: nat where
  "MEM_SIZE = 16000"

definition MIN_SIZE :: nat where
  "MIN_SIZE = 12"

definition MIN_SIZE_ALIGNED :: nat where
  "MIN_SIZE_ALIGNED = LWIP_MEM_ALIGN_SIZE MIN_SIZE"

definition SIZEOF_STRUCT_MEM :: nat where
  "SIZEOF_STRUCT_MEM = LWIP_MEM_ALIGN_SIZE 6"

definition MEM_SIZE_ALIGNED :: nat where
  "MEM_SIZE_ALIGNED = LWIP_MEM_ALIGN_SIZE MEM_SIZE"

lemma mem_align [simp]: "LWIP_MEM_ALIGN_SIZE n = n" "LWIP_MEM_ALIGN a = a" "n mod MEM_ALIGNMENT = 0"
  by (simp_all add: LWIP_MEM_ALIGN_SIZE_def LWIP_MEM_ALIGN_def MEM_ALIGNMENT_def)

lemma mem_sizes [lwip_simps]:
  "MIN_SIZE_ALIGNED = 12" "SIZEOF_STRUCT_MEM = 6" "MEM_SIZE_ALIGNED = 16000"
  by (simp_all add: MIN_SIZE_ALIGNED_def SIZEOF_STRUCT_MEM_def MEM_SIZE_ALIGNED_def MIN_SIZE_def
      MEM_SIZE_def)

section \<open>State\<close>

record mem_struct =
  mem_next :: nat
  mem_prev :: nat
  mem_used :: bool

record heap =
  ram :: addr
  structs :: "nat \<rightharpoonup> mem_struct"
  lfree :: nat

definition set_next :: "heap \<Rightarrow> nat \<Rightarrow> nat \<Rightarrow> heap option" where
  "set_next h i v = do {
     m \<leftarrow> structs h i;
     Some (h\<lparr>structs := (structs h)(i \<mapsto> m\<lparr>mem_next := v\<rparr>)\<rparr>) }"

definition set_prev :: "heap \<Rightarrow> nat \<Rightarrow> nat \<Rightarrow> heap option" where
  "set_prev h i v = do {
     m \<leftarrow> structs h i;
     Some (h\<lparr>structs := (structs h)(i \<mapsto> m\<lparr>mem_prev := v\<rparr>)\<rparr>) }"

definition set_used :: "heap \<Rightarrow> nat \<Rightarrow> bool \<Rightarrow> heap option" where
  "set_used h i v = do {
     m \<leftarrow> structs h i;
     Some (h\<lparr>structs := (structs h)(i \<mapsto> m\<lparr>mem_used := v\<rparr>)\<rparr>) }"

section \<open>Operations\<close>

definition mem_init :: "addr \<Rightarrow> heap" where
  "mem_init ram_heap =
     \<lparr>ram = LWIP_MEM_ALIGN ram_heap,
      structs = [0 \<mapsto> \<lparr>mem_next = MEM_SIZE_ALIGNED, mem_prev = 0, mem_used = False\<rparr>,
                 MEM_SIZE_ALIGNED \<mapsto>
                   \<lparr>mem_next = MEM_SIZE_ALIGNED, mem_prev = MEM_SIZE_ALIGNED, mem_used = True\<rparr>],
      lfree = 0\<rparr>"

text \<open>The two halves of \<open>plug_holes\<close>: merge with the next block, merge with the previous one.\<close>

definition plug_forward :: "heap \<Rightarrow> nat \<Rightarrow> heap option" where
  "plug_forward h mem = do {
     m \<leftarrow> structs h mem;
     let nmem = mem_next m;
     nm \<leftarrow> structs h nmem;
     if mem \<noteq> nmem \<and> \<not> mem_used nm \<and> nmem \<noteq> MEM_SIZE_ALIGNED then do {
       let h = (if lfree h = nmem then h\<lparr>lfree := mem\<rparr> else h);
       h \<leftarrow> set_next h mem (mem_next nm);
       set_prev h (mem_next nm) (u16 mem) }
     else Some h }"

definition plug_backward :: "heap \<Rightarrow> nat \<Rightarrow> heap option" where
  "plug_backward h mem = do {
     m \<leftarrow> structs h mem;
     let pmem = mem_prev m;
     pm \<leftarrow> structs h pmem;
     if pmem \<noteq> mem \<and> \<not> mem_used pm then do {
       let h = (if lfree h = mem then h\<lparr>lfree := pmem\<rparr> else h);
       h \<leftarrow> set_next h pmem (mem_next m);
       set_prev h (mem_next m) (u16 pmem) }
     else Some h }"

definition plug_holes :: "heap \<Rightarrow> nat \<Rightarrow> heap option" where
  "plug_holes h mem = do {
     lwip_assert (mem < MEM_SIZE_ALIGNED);
     m \<leftarrow> structs h mem;
     lwip_assert (\<not> mem_used m);
     lwip_assert (mem_next m \<le> MEM_SIZE_ALIGNED);
     h \<leftarrow> plug_forward h mem;
     plug_backward h mem }"

definition mem_free :: "heap \<Rightarrow> addr \<Rightarrow> heap option" where
  "mem_free h rmem =
     (if rmem = NULL then Some h
      else do {
        lwip_assert (rmem mod MEM_ALIGNMENT = 0);
        lwip_assert (ram h \<le> rmem \<and> rmem < ram h + MEM_SIZE_ALIGNED);
        if rmem < ram h \<or> rmem \<ge> ram h + MEM_SIZE_ALIGNED then Some h
        else do {
          lwip_assert (ram h + SIZEOF_STRUCT_MEM \<le> rmem);
          let mem = rmem - SIZEOF_STRUCT_MEM - ram h;
          m \<leftarrow> structs h mem;
          lwip_assert (mem_used m);
          h \<leftarrow> set_used h mem False;
          let h = (if mem < lfree h then h\<lparr>lfree := mem\<rparr> else h);
          plug_holes h mem } })"

text \<open>
  The third assertion of \<open>mem_free\<close> above is not one of the source: it says that the header
  address does not precede the array, where the C code would read memory that holds no header.
\<close>

definition mem_realloc :: "heap \<Rightarrow> addr \<Rightarrow> nat \<Rightarrow> (addr \<times> heap) option" where
  "mem_realloc h rmem newsize =
     (let newsize = u16 (LWIP_MEM_ALIGN_SIZE newsize);
          newsize = (if newsize < MIN_SIZE_ALIGNED then MIN_SIZE_ALIGNED else newsize)
      in if newsize > MEM_SIZE_ALIGNED then Some (NULL, h)
         else do {
           lwip_assert (ram h \<le> rmem \<and> rmem < ram h + MEM_SIZE_ALIGNED);
           if rmem < ram h \<or> rmem \<ge> ram h + MEM_SIZE_ALIGNED then Some (rmem, h)
           else do {
             lwip_assert (ram h + SIZEOF_STRUCT_MEM \<le> rmem);
             let ptr = u16 (rmem - SIZEOF_STRUCT_MEM - ram h);
             m \<leftarrow> structs h ptr;
             let size = u16 (usub64 (usub64 (mem_next m) ptr) SIZEOF_STRUCT_MEM);
             lwip_assert (newsize \<le> size);
             if newsize > size then Some (NULL, h)
             else if newsize = size then Some (rmem, h)
             else do {
               m2 \<leftarrow> structs h (mem_next m);
               let ptr2 = u16 (ptr + SIZEOF_STRUCT_MEM + newsize);
               if \<not> mem_used m2 then do {
                 let h = (if lfree h = mem_next m then h\<lparr>lfree := ptr2\<rparr> else h);
                 let h = h\<lparr>structs := (structs h)
                   (ptr2 \<mapsto> \<lparr>mem_next = mem_next m2, mem_prev = ptr, mem_used = False\<rparr>)\<rparr>;
                 h \<leftarrow> set_next h ptr ptr2;
                 h \<leftarrow> (if mem_next m2 \<noteq> MEM_SIZE_ALIGNED then set_prev h (mem_next m2) ptr2
                      else Some h);
                 Some (rmem, h) }
               else if newsize + SIZEOF_STRUCT_MEM + MIN_SIZE_ALIGNED \<le> size then do {
                 let h = (if ptr2 < lfree h then h\<lparr>lfree := ptr2\<rparr> else h);
                 let h = h\<lparr>structs := (structs h)
                   (ptr2 \<mapsto> \<lparr>mem_next = mem_next m, mem_prev = ptr, mem_used = False\<rparr>)\<rparr>;
                 h \<leftarrow> set_next h ptr ptr2;
                 h \<leftarrow> (if mem_next m \<noteq> MEM_SIZE_ALIGNED then set_prev h (mem_next m) ptr2
                      else Some h);
                 Some (rmem, h) }
               else Some (rmem, h) } } })"

text \<open>The scan of \<open>mem_malloc\<close> for a free block that is big enough: \<open>Some None\<close> when it ends.\<close>

partial_function (option) mem_search :: "heap \<Rightarrow> nat \<Rightarrow> nat \<Rightarrow> nat option option" where
  "mem_search h sz ptr =
     (if ptr < MEM_SIZE_ALIGNED - sz then do {
        m \<leftarrow> structs h ptr;
        if \<not> mem_used m \<and> usub64 (mem_next m) (ptr + SIZEOF_STRUCT_MEM) \<ge> sz
        then Some (Some ptr)
        else mem_search h sz (mem_next m) }
      else Some None)"

text \<open>The loop that moves \<open>lfree\<close> to the next free block.\<close>

partial_function (option) lfree_advance :: "heap \<Rightarrow> nat \<Rightarrow> nat option" where
  "lfree_advance h p = do {
     m \<leftarrow> structs h p;
     if mem_used m \<and> p \<noteq> MEM_SIZE_ALIGNED then lfree_advance h (mem_next m) else Some p }"

declare mem_search.simps [code] lfree_advance.simps [code]

text \<open>What \<open>mem_malloc\<close> does to the block it found: split it, or take it whole.\<close>

definition mem_take :: "heap \<Rightarrow> nat \<Rightarrow> nat \<Rightarrow> heap option" where
  "mem_take h sz ptr = do {
     m \<leftarrow> structs h ptr;
     if usub64 (mem_next m) (ptr + SIZEOF_STRUCT_MEM) \<ge> sz + SIZEOF_STRUCT_MEM + MIN_SIZE_ALIGNED
     then do {
       let ptr2 = u16 (ptr + SIZEOF_STRUCT_MEM + sz);
       let h = h\<lparr>structs := (structs h)
         (ptr2 \<mapsto> \<lparr>mem_next = mem_next m, mem_prev = ptr, mem_used = False\<rparr>)\<rparr>;
       h \<leftarrow> set_next h ptr ptr2;
       h \<leftarrow> set_used h ptr True;
       if mem_next m \<noteq> MEM_SIZE_ALIGNED then set_prev h (mem_next m) ptr2 else Some h }
     else set_used h ptr True }"

definition mem_malloc :: "heap \<Rightarrow> nat \<Rightarrow> (addr \<times> heap) option" where
  "mem_malloc h sz =
     (if sz = 0 then Some (NULL, h)
      else
        let sz = u16 (LWIP_MEM_ALIGN_SIZE sz);
            sz = (if sz < MIN_SIZE_ALIGNED then MIN_SIZE_ALIGNED else sz)
        in if sz > MEM_SIZE_ALIGNED then Some (NULL, h)
           else do {
             r \<leftarrow> mem_search h sz (lfree h);
             case r of
               None \<Rightarrow> Some (NULL, h)
             | Some ptr \<Rightarrow> do {
                 h \<leftarrow> mem_take h sz ptr;
                 h \<leftarrow> (if ptr = lfree h then do {
                        l \<leftarrow> lfree_advance h (lfree h);
                        lm \<leftarrow> structs h l;
                        lwip_assert (l = MEM_SIZE_ALIGNED \<or> \<not> mem_used lm);
                        Some (h\<lparr>lfree := l\<rparr>) }
                      else Some h);
                 lwip_assert (ram h + ptr + SIZEOF_STRUCT_MEM + sz \<le> ram h + MEM_SIZE_ALIGNED);
                 lwip_assert ((ram h + ptr + SIZEOF_STRUCT_MEM) mod MEM_ALIGNMENT = 0);
                 lwip_assert ((ram h + ptr) mod MEM_ALIGNMENT = 0);
                 Some (ram h + ptr + SIZEOF_STRUCT_MEM, h) } })"


section \<open>The abstract heap: a list of blocks\<close>

text \<open>
  A block is its header index, the index of the next header and whether it is in use. The
  payload of \<open>(s, e, u)\<close> is the index range from \<open>s + SIZEOF_STRUCT_MEM\<close> up to \<open>e\<close>.
\<close>

type_synonym block = "nat \<times> nat \<times> bool"

fun find_fit :: "nat \<Rightarrow> block list \<Rightarrow> nat option" where
  "find_fit sz [] = None"
| "find_fit sz ((s, e, u) # bs) =
     (if \<not> u \<and> sz \<le> e - (s + SIZEOF_STRUCT_MEM) then Some s else find_fit sz bs)"

definition split_block :: "nat \<Rightarrow> nat \<Rightarrow> nat \<Rightarrow> block list" where
  "split_block sz s e =
     (if sz + SIZEOF_STRUCT_MEM + MIN_SIZE_ALIGNED \<le> e - (s + SIZEOF_STRUCT_MEM)
      then [(s, s + SIZEOF_STRUCT_MEM + sz, True), (s + SIZEOF_STRUCT_MEM + sz, e, False)]
      else [(s, e, True)])"

fun alloc_blocks :: "nat \<Rightarrow> block list \<Rightarrow> block list" where
  "alloc_blocks sz [] = []"
| "alloc_blocks sz ((s, e, u) # bs) =
     (if \<not> u \<and> sz \<le> e - (s + SIZEOF_STRUCT_MEM) then split_block sz s e @ bs
      else (s, e, u) # alloc_blocks sz bs)"

definition mark_free :: "nat \<Rightarrow> block list \<Rightarrow> block list" where
  "mark_free s bs = map (\<lambda>(s', e, u). (s', e, u \<and> s' \<noteq> s)) bs"

fun merge_free :: "block list \<Rightarrow> block list" where
  "merge_free ((s, e, u) # (s', e', u') # bs) =
     (if \<not> u \<and> \<not> u' then merge_free ((s, e', False) # bs)
      else (s, e, u) # merge_free ((s', e', u') # bs))"
| "merge_free bs = bs"

fun no_adjacent_free :: "block list \<Rightarrow> bool" where
  "no_adjacent_free ((s, e, u) # (s', e', u') # bs) =
     ((u \<or> u') \<and> no_adjacent_free ((s', e', u') # bs))"
| "no_adjacent_free bs = True"

abbreviation all_used :: "block list \<Rightarrow> bool" where
  "all_used bs \<equiv> list_all (\<lambda>b. snd (snd b)) bs"

fun first_free :: "block list \<Rightarrow> nat" where
  "first_free [] = MEM_SIZE_ALIGNED"
| "first_free ((s, e, u) # bs) = (if u then first_free bs else s)"

text \<open>The headers from \<open>p\<close>, reached from \<open>pv\<close>, form the blocks \<open>bs\<close> and lead to \<open>p'\<close>.\<close>

fun mem_seg :: "(nat \<rightharpoonup> mem_struct) \<Rightarrow> nat \<Rightarrow> nat \<Rightarrow> block list \<Rightarrow> nat \<Rightarrow> nat \<Rightarrow> bool" where
  "mem_seg S pv p [] pv' p' \<longleftrightarrow> pv' = pv \<and> p' = p"
| "mem_seg S pv p ((s, e, u) # bs) pv' p' \<longleftrightarrow>
     s = p \<and> S p = Some \<lparr>mem_next = e, mem_prev = pv, mem_used = u\<rparr>
     \<and> p + SIZEOF_STRUCT_MEM + MIN_SIZE_ALIGNED \<le> e \<and> mem_seg S p e bs pv' p'"

definition end_ok :: "(nat \<rightharpoonup> mem_struct) \<Rightarrow> bool" where
  "end_ok S \<longleftrightarrow> (\<exists>pv. S MEM_SIZE_ALIGNED =
     Some \<lparr>mem_next = MEM_SIZE_ALIGNED, mem_prev = pv, mem_used = True\<rparr>)"

definition heap_rep :: "heap \<Rightarrow> block list \<Rightarrow> bool" where
  "heap_rep h bs \<longleftrightarrow> (\<exists>pv. mem_seg (structs h) 0 0 bs pv MEM_SIZE_ALIGNED) \<and> end_ok (structs h)
     \<and> no_adjacent_free bs \<and> lfree h = first_free bs"

section \<open>Segments of the header list\<close>

lemma mem_seg_append:
  "mem_seg S pv p (xs @ ys) pv' p' \<longleftrightarrow> (\<exists>a b. mem_seg S pv p xs a b \<and> mem_seg S a b ys pv' p')"
  by (induction S pv p xs pv' p' rule: mem_seg.induct) auto

lemma mem_seg_le: "mem_seg S pv p bs pv' p' \<Longrightarrow> p \<le> p'"
  by (induction S pv p bs pv' p' rule: mem_seg.induct) auto

lemma mem_seg_bounds:
  "mem_seg S pv p bs pv' p' \<Longrightarrow> (s, e, u) \<in> set bs \<Longrightarrow>
     p \<le> s \<and> s + SIZEOF_STRUCT_MEM + MIN_SIZE_ALIGNED \<le> e \<and> e \<le> p'"
  by (induction S pv p bs pv' p' rule: mem_seg.induct) (auto dest: mem_seg_le)

lemma mem_seg_upd:
  "i < p \<or> p' \<le> i \<Longrightarrow> mem_seg (S(i := v)) pv p bs pv' p' = mem_seg S pv p bs pv' p'"
proof (induction bs arbitrary: pv p)
  case (Cons b bs)
  obtain s e u where b: "b = (s, e, u)" by (cases b)
  show ?case
  proof (cases "e \<le> p'")
    case True
    have "i < e \<or> p' \<le> i" if "p < e"
      using Cons.prems that by linarith
    then show ?thesis
      using Cons b True by (auto simp: lwip_simps)
  next
    case False
    then have "\<not> mem_seg S' p e bs pv' p'" for S'
      using mem_seg_le by blast
    then show ?thesis by (simp add: b)
  qed
qed simp

lemma mem_seg_nonempty: "mem_seg S pv p bs pv' p' \<Longrightarrow> (bs = []) = (p = p')"
  by (cases bs) (use mem_seg_bounds [of S pv p bs pv' p'] in \<open>fastforce simp: lwip_simps\<close>)+

text \<open>Redirecting the \<open>prev\<close> link of the first header of a segment.\<close>

lemma mem_seg_reprev:
  assumes "mem_seg S pv p bs pv' p'"
  shows "\<exists>pv''. mem_seg (if p = p' then S else S(p \<mapsto> (the (S p))\<lparr>mem_prev := q\<rparr>)) q p bs pv'' p'"
proof (cases bs)
  case Nil
  then show ?thesis using assms by simp
next
  case (Cons b cs)
  obtain s e u where b: "b = (s, e, u)" by (cases b)
  have "p < e" and seg: "mem_seg S p e cs pv' p'" and Sp: "S p = Some \<lparr>mem_next = e, mem_prev = pv, mem_used = u\<rparr>"
    and s: "s = p" "p + SIZEOF_STRUCT_MEM + MIN_SIZE_ALIGNED \<le> e"
    using assms Cons b by (auto simp: lwip_simps)
  have "p \<noteq> p'"
    using \<open>p < e\<close> mem_seg_le [OF seg] by simp
  moreover have "mem_seg (S(p \<mapsto> (the (S p))\<lparr>mem_prev := q\<rparr>)) p e cs pv' p'"
    using seg \<open>p < e\<close> by (simp add: mem_seg_upd)
  ultimately show ?thesis
    using Cons b s Sp by auto
qed

lemma mem_seg_split:
  assumes "mem_seg S pv p bs pv' p'" and "(s, e, u) \<in> set bs"
  obtains xs ys a where "bs = xs @ (s, e, u) # ys" "mem_seg S pv p xs a s"
    "S s = Some \<lparr>mem_next = e, mem_prev = a, mem_used = u\<rparr>"
    "s + SIZEOF_STRUCT_MEM + MIN_SIZE_ALIGNED \<le> e" "mem_seg S s e ys pv' p'"
proof -
  obtain xs ys where bs: "bs = xs @ (s, e, u) # ys"
    using assms(2) by (meson split_list)
  with assms(1) that show ?thesis
    by (auto simp: mem_seg_append)
qed

section \<open>The two loops\<close>

lemma find_fit_None_near_end:
  assumes "mem_seg S pv p bs pv' MEM_SIZE_ALIGNED" and "MEM_SIZE_ALIGNED - sz \<le> p" and "sz \<noteq> 0"
  shows "find_fit sz bs = None"
  using assms
proof (induction bs arbitrary: pv p)
  case (Cons b bs)
  obtain s e u where b: "b = (s, e, u)" by (cases b)
  have "mem_seg S p e bs pv' MEM_SIZE_ALIGNED" "p \<le> e"
    using Cons.prems b by auto
  with Cons.IH Cons.prems b mem_seg_le show ?case
    by (fastforce simp: lwip_simps)
qed simp

lemma mem_search_seg:
  assumes "mem_seg (structs h) pv p bs pv' MEM_SIZE_ALIGNED" and "sz \<noteq> 0"
  shows "mem_search h sz p = Some (find_fit sz bs)"
  using assms
proof (induction bs arbitrary: pv p)
  case Nil
  have "\<not> MEM_SIZE_ALIGNED < MEM_SIZE_ALIGNED - sz" by simp
  with Nil show ?case by (subst mem_search.simps) auto
next
  case (Cons b bs)
  obtain s e u where b: "b = (s, e, u)" by (cases b)
  show ?case
  proof (cases "p < MEM_SIZE_ALIGNED - sz")
    case True
    have "mem_search h sz e = Some (find_fit sz bs)"
      using Cons b by auto
    moreover have "p + SIZEOF_STRUCT_MEM \<le> e"
      using Cons.prems b by simp
    ultimately show ?thesis
      using Cons.prems True b by (subst mem_search.simps) auto
  next
    case False
    then show ?thesis
      using Cons.prems find_fit_None_near_end [OF Cons.prems(1)]
      by (subst mem_search.simps) auto
  qed
qed

lemma lfree_advance_seg:
  assumes "mem_seg (structs h) pv p bs pv' MEM_SIZE_ALIGNED" and "end_ok (structs h)"
  shows "lfree_advance h p = Some (first_free bs)"
  using assms
proof (induction bs arbitrary: pv p)
  case Nil
  then show ?case by (subst lfree_advance.simps) (auto simp: end_ok_def)
next
  case (Cons b bs)
  obtain s e u where b: "b = (s, e, u)" by (cases b)
  have "mem_seg (structs h) p e bs pv' MEM_SIZE_ALIGNED" "p < e"
    using Cons.prems b by (auto simp: lwip_simps)
  then have "p \<noteq> MEM_SIZE_ALIGNED"
    using mem_seg_le by fastforce
  then show ?case
    using Cons b by (subst lfree_advance.simps) auto
qed

lemma first_free_split:
  assumes "mem_seg S pv p bs pv' MEM_SIZE_ALIGNED"
  obtains xs ys a where "bs = xs @ ys" "all_used xs" "mem_seg S pv p xs a (first_free bs)"
    "mem_seg S a (first_free bs) ys pv' MEM_SIZE_ALIGNED"
  using assms
proof (induction bs arbitrary: pv p thesis)
  case Nil
  then show ?case by (intro Nil(1) [of "[]" "[]" pv]) auto
next
  case (Cons b bs)
  obtain s e u where b: "b = (s, e, u)" by (cases b)
  show ?case
  proof (cases u)
    case True
    have seg: "mem_seg S p e bs pv' MEM_SIZE_ALIGNED"
      using Cons.prems(2) b by simp
    obtain xs ys a where "bs = xs @ ys" "all_used xs" "mem_seg S p e xs a (first_free bs)"
        "mem_seg S a (first_free bs) ys pv' MEM_SIZE_ALIGNED"
      using Cons.IH [OF _ seg] by metis
    then show ?thesis
      using Cons.prems b True by (intro Cons.prems(1) [of "b # xs" ys a]) auto
  next
    case False
    then show ?thesis
      using Cons.prems b by (intro Cons.prems(1) [of "[]" "b # bs" pv]) auto
  qed
qed

lemma find_fit_skip_used: "all_used xs \<Longrightarrow> find_fit sz (xs @ ys) = find_fit sz ys"
  by (induction xs) auto

lemma mem_search_lfree:
  assumes "heap_rep h bs" and "sz \<noteq> 0"
  shows "mem_search h sz (lfree h) = Some (find_fit sz bs)"
proof -
  obtain pv where seg: "mem_seg (structs h) 0 0 bs pv MEM_SIZE_ALIGNED" and l: "lfree h = first_free bs"
    using assms(1) by (auto simp: heap_rep_def)
  obtain xs ys a where "bs = xs @ ys" "all_used xs"
      "mem_seg (structs h) a (first_free bs) ys pv MEM_SIZE_ALIGNED"
    using first_free_split [OF seg] by metis
  then show ?thesis
    using mem_search_seg [of h a "first_free bs" ys pv sz] assms(2) l
    by (simp add: find_fit_skip_used)
qed

section \<open>mem\_malloc\<close>

lemma find_fit_Some:
  assumes "find_fit sz bs = Some s"
  obtains xs e ys where "bs = xs @ (s, e, False) # ys" "sz \<le> e - (s + SIZEOF_STRUCT_MEM)"
    "alloc_blocks sz bs = xs @ split_block sz s e @ ys"
    "\<forall>(s', e', u) \<in> set xs. u \<or> e' - (s' + SIZEOF_STRUCT_MEM) < sz"
  using assms
proof (induction bs arbitrary: thesis)
  case (Cons b bs)
  obtain s' e' u where b: "b = (s', e', u)" by (cases b)
  show ?case
  proof (cases "\<not> u \<and> sz \<le> e' - (s' + SIZEOF_STRUCT_MEM)")
    case True
    then show ?thesis
      using Cons.prems b by (intro Cons.prems(1) [of "[]" e' bs]) auto
  next
    case False
    then have f: "find_fit sz bs = Some s"
      using Cons.prems(2) b by (auto split: if_splits)
    obtain xs e ys where "bs = xs @ (s, e, False) # ys" "sz \<le> e - (s + SIZEOF_STRUCT_MEM)"
        "alloc_blocks sz bs = xs @ split_block sz s e @ ys"
        "\<forall>(s', e', u) \<in> set xs. u \<or> e' - (s' + SIZEOF_STRUCT_MEM) < sz"
      using Cons.IH [OF _ f] by metis
    then show ?thesis
      using False b by (intro Cons.prems(1) [of "b # xs" e ys]) auto
  qed
qed simp

lemma find_fit_None_iff:
  "find_fit sz bs = None \<longleftrightarrow> (\<forall>(s, e, u) \<in> set bs. u \<or> e - (s + SIZEOF_STRUCT_MEM) < sz)"
  by (induction bs) (auto split: if_splits)

text \<open>\<open>mem_take\<close> turns the chosen free block into what \<open>split_block\<close> says.\<close>

lemma mem_take_rep:
  assumes seg1: "mem_seg (structs h) pv p xs a s"
    and S: "structs h s = Some \<lparr>mem_next = e, mem_prev = a, mem_used = False\<rparr>"
    and sz: "MIN_SIZE_ALIGNED \<le> sz" "sz \<le> e - (s + SIZEOF_STRUCT_MEM)" "s + SIZEOF_STRUCT_MEM + MIN_SIZE_ALIGNED \<le> e"
    and seg2: "mem_seg (structs h) s e ys pv' MEM_SIZE_ALIGNED" and e: "end_ok (structs h)"
  obtains S' pv'' where "mem_take h sz s = Some (h\<lparr>structs := S'\<rparr>)"
    "mem_seg S' pv p (xs @ split_block sz s e @ ys) pv'' MEM_SIZE_ALIGNED" "end_ok S'"
proof (cases "sz + SIZEOF_STRUCT_MEM + MIN_SIZE_ALIGNED \<le> e - (s + SIZEOF_STRUCT_MEM)")
  case True
  let ?p2 = "s + SIZEOF_STRUCT_MEM + sz"
  let ?S1 = "(structs h)(?p2 \<mapsto> \<lparr>mem_next = e, mem_prev = s, mem_used = False\<rparr>,
      s \<mapsto> \<lparr>mem_next = ?p2, mem_prev = a, mem_used = True\<rparr>)"
  let ?S2 = "if e = MEM_SIZE_ALIGNED then ?S1 else ?S1(e \<mapsto> (the (?S1 e))\<lparr>mem_prev := ?p2\<rparr>)"
  have le: "e \<le> MEM_SIZE_ALIGNED" by (rule mem_seg_le [OF seg2])
  have ord: "s < ?p2" "?p2 < e" "?p2 + SIZEOF_STRUCT_MEM + MIN_SIZE_ALIGNED \<le> e"
    "s + SIZEOF_STRUCT_MEM + MIN_SIZE_ALIGNED \<le> ?p2"
    using True sz by (auto simp: lwip_simps)
  have u: "u16 ?p2 = ?p2"
    using ord le by (simp add: lwip_simps)
  have Se: "structs h e \<noteq> None"
    using seg2 e by (cases ys) (auto simp: end_ok_def)
  have seg2': "mem_seg ?S1 s e ys pv' MEM_SIZE_ALIGNED"
    using seg2 ord by (simp add: mem_seg_upd)
  obtain pv'' where r: "mem_seg ?S2 ?p2 e ys pv'' MEM_SIZE_ALIGNED"
    using mem_seg_reprev [OF seg2', of ?p2] by auto
  have x: "mem_seg ?S2 pv p xs a s"
    using seg1 ord by (simp add: mem_seg_upd)
  have "mem_take h sz s = Some (h\<lparr>structs := ?S2\<rparr>)"
    using True S u ord Se
    by (auto simp: mem_take_def Let_def set_next_def set_used_def set_prev_def fun_upd_twist)
  moreover have "mem_seg ?S2 pv p (xs @ split_block sz s e @ ys) pv'' MEM_SIZE_ALIGNED"
    using True x r ord by (auto simp: mem_seg_append split_block_def)
  moreover have "end_ok ?S2"
    using e ord le by (auto simp: end_ok_def)
  ultimately show ?thesis by (rule that)
next
  case False
  let ?S1 = "(structs h)(s \<mapsto> \<lparr>mem_next = e, mem_prev = a, mem_used = True\<rparr>)"
  have lt: "s < e" "s < MEM_SIZE_ALIGNED"
    using sz mem_seg_le [OF seg2] by (auto simp: lwip_simps)
  have "mem_take h sz s = Some (h\<lparr>structs := ?S1\<rparr>)"
    using False S sz by (auto simp: mem_take_def set_used_def)
  moreover have "mem_seg ?S1 pv p (xs @ split_block sz s e @ ys) pv' MEM_SIZE_ALIGNED"
    using False seg1 seg2 lt sz by (auto simp: mem_seg_append split_block_def mem_seg_upd)
  moreover have "end_ok ?S1"
    using e lt by (auto simp: end_ok_def)
  ultimately show ?thesis by (rule that)
qed

lemma no_adjacent_free_append:
  "no_adjacent_free (xs @ ys) \<longleftrightarrow> no_adjacent_free xs \<and> no_adjacent_free ys
     \<and> (xs \<noteq> [] \<and> ys \<noteq> [] \<longrightarrow> snd (snd (last xs)) \<or> snd (snd (hd ys)))"
proof (induction xs rule: no_adjacent_free.induct, goal_cases)
  case (1 s e u s' e' u' bs)
  then show ?case by auto
next
  case (3 v)
  then show ?case by (cases v; cases ys) auto
qed auto

lemma no_adjacent_free_alloc:
  assumes "no_adjacent_free (xs @ (s, e, False) # ys)"
  shows "no_adjacent_free (xs @ split_block sz s e @ ys)"
  using assms by (cases ys) (auto simp: no_adjacent_free_append split_block_def)

lemma first_free_append:
  "first_free (xs @ ys) = (if all_used xs then first_free ys else first_free xs)"
  by (induction xs) auto

lemma not_all_used: "\<not> all_used xs \<Longrightarrow> \<exists>s e. (s, e, False) \<in> set xs"
  by (force simp: list_all_iff)

lemma first_free_in: "(s, e, False) \<in> set xs \<Longrightarrow> \<exists>e. (first_free xs, e, False) \<in> set xs"
  by (induction xs) auto

text \<open>The request that \<open>mem_malloc\<close> searches for.\<close>

definition request :: "nat \<Rightarrow> nat" where
  "request sz = max MIN_SIZE_ALIGNED sz"

lemma mem_malloc_unfold:
  assumes "0 < sz" and "sz < 65536"
  shows "mem_malloc h sz =
     (if request sz > MEM_SIZE_ALIGNED then Some (NULL, h)
      else do {
        r \<leftarrow> mem_search h (request sz) (lfree h);
        case r of
          None \<Rightarrow> Some (NULL, h)
        | Some ptr \<Rightarrow> do {
            h \<leftarrow> mem_take h (request sz) ptr;
            h \<leftarrow> (if ptr = lfree h then do {
                   l \<leftarrow> lfree_advance h (lfree h);
                   lm \<leftarrow> structs h l;
                   lwip_assert (l = MEM_SIZE_ALIGNED \<or> \<not> mem_used lm);
                   Some (h\<lparr>lfree := l\<rparr>) }
                 else Some h);
            lwip_assert (ram h + ptr + SIZEOF_STRUCT_MEM + request sz \<le> ram h + MEM_SIZE_ALIGNED);
            Some (ram h + ptr + SIZEOF_STRUCT_MEM, h) } })"
proof -
  have "request sz = (if sz < MIN_SIZE_ALIGNED then MIN_SIZE_ALIGNED else sz)"
    by (simp add: request_def)
  then show ?thesis
    using assms by (simp add: mem_malloc_def Let_def cong: if_cong)
qed

lemma find_fit_le:
  assumes "heap_rep h bs" and "find_fit n bs = Some s" and "n \<noteq> 0"
  shows "s + SIZEOF_STRUCT_MEM + n \<le> MEM_SIZE_ALIGNED"
proof -
  obtain pv where seg: "mem_seg (structs h) 0 0 bs pv MEM_SIZE_ALIGNED"
    using assms(1) by (auto simp: heap_rep_def)
  obtain xs e ys where "bs = xs @ (s, e, False) # ys" "n \<le> e - (s + SIZEOF_STRUCT_MEM)"
    using find_fit_Some [OF assms(2)] by metis
  then show ?thesis
    using mem_seg_bounds [OF seg, of s e False] assms(3) by auto
qed

lemma first_free_mem_seg:
  assumes "mem_seg S pv p bs pv' MEM_SIZE_ALIGNED" and "end_ok S"
  shows "\<exists>m. S (first_free bs) = Some m \<and> (first_free bs = MEM_SIZE_ALIGNED \<or> \<not> mem_used m)"
  using assms(1)
proof (induction bs arbitrary: pv p)
  case Nil
  then show ?case using assms(2) by (auto simp: end_ok_def)
qed auto

lemma mem_malloc_None:
  assumes "heap_rep h bs" "0 < sz" "sz < 65536" "find_fit (request sz) bs = None"
  shows "mem_malloc h sz = Some (NULL, h)"
proof -
  have "request sz \<noteq> 0" using assms by (simp add: request_def lwip_simps)
  then show ?thesis
    using assms by (simp add: mem_malloc_unfold mem_search_lfree)
qed

lemma mem_malloc_Some:
  assumes rep: "heap_rep h bs" and sz: "0 < sz" "sz < 65536" and fit: "find_fit (request sz) bs = Some s"
  shows "\<exists>h'. mem_malloc h sz = Some (ram h + s + SIZEOF_STRUCT_MEM, h') \<and> ram h' = ram h
    \<and> heap_rep h' (alloc_blocks (request sz) bs)"
proof -
  let ?n = "request sz"
  have n: "?n \<noteq> 0" "MIN_SIZE_ALIGNED \<le> ?n" by (auto simp: request_def lwip_simps)
  obtain pv where seg: "mem_seg (structs h) 0 0 bs pv MEM_SIZE_ALIGNED" and e: "end_ok (structs h)"
    and naf: "no_adjacent_free bs" and l: "lfree h = first_free bs"
    using rep by (auto simp: heap_rep_def)
  obtain xs ec ys where bs: "bs = xs @ (s, ec, False) # ys" and fits: "?n \<le> ec - (s + SIZEOF_STRUCT_MEM)"
    and al: "alloc_blocks ?n bs = xs @ split_block ?n s ec @ ys"
    using find_fit_Some [OF fit] by metis
  obtain a where seg1: "mem_seg (structs h) 0 0 xs a s"
    and S: "structs h s = Some \<lparr>mem_next = ec, mem_prev = a, mem_used = False\<rparr>"
    and se: "s + SIZEOF_STRUCT_MEM + MIN_SIZE_ALIGNED \<le> ec"
    and seg2: "mem_seg (structs h) s ec ys pv MEM_SIZE_ALIGNED"
    using seg by (auto simp: bs mem_seg_append)
  obtain S' pv'' where take: "mem_take h ?n s = Some (h\<lparr>structs := S'\<rparr>)"
    and seg': "mem_seg S' 0 0 (xs @ split_block ?n s ec @ ys) pv'' MEM_SIZE_ALIGNED" and e': "end_ok S'"
    using mem_take_rep [OF seg1 S n(2) fits se seg2 e] by metis
  let ?bs' = "xs @ split_block ?n s ec @ ys"
  have naf': "no_adjacent_free ?bs'"
    using naf no_adjacent_free_alloc by (simp add: bs)
  have le: "s + SIZEOF_STRUCT_MEM + ?n \<le> MEM_SIZE_ALIGNED"
    by (rule find_fit_le [OF rep fit n(1)])
  have srch: "mem_search h ?n (lfree h) = Some (Some s)"
    using mem_search_lfree [OF rep n(1)] fit by simp
  have sle: "\<forall>(s', e', u) \<in> set xs. s' < s"
    using mem_seg_bounds [OF seg1] by (fastforce simp: lwip_simps)
  show ?thesis
  proof (cases "s = lfree h")
    case True
    obtain b b' where "mem_seg S' b s (split_block ?n s ec @ ys) pv'' MEM_SIZE_ALIGNED"
      using seg' by (auto simp: mem_seg_append split_block_def split: if_splits)
    then have adv: "lfree_advance (h\<lparr>structs := S'\<rparr>) s = Some (first_free (split_block ?n s ec @ ys))"
      using lfree_advance_seg [of "h\<lparr>structs := S'\<rparr>"] e' by auto
    have used: "all_used xs"
    proof (rule ccontr)
      assume c: "\<not> ?thesis"
      then have "first_free xs = s"
        using True l by (simp add: bs first_free_append)
      moreover obtain s' e' where "(s', e', False) \<in> set xs"
        using not_all_used [OF c] by blast
      ultimately show False
        using first_free_in sle by fastforce
    qed
    have ff: "first_free ?bs' = first_free (split_block ?n s ec @ ys)"
      using used by (simp add: first_free_append)
    obtain m where "S' (first_free ?bs') = Some m" "first_free ?bs' = MEM_SIZE_ALIGNED \<or> \<not> mem_used m"
      using first_free_mem_seg [OF seg' e'] by blast
    then have "mem_malloc h sz = Some (ram h + s + SIZEOF_STRUCT_MEM,
        h\<lparr>structs := S', lfree := first_free ?bs'\<rparr>)"
      using True adv le srch take ff by (simp add: mem_malloc_unfold [OF sz])
    then show ?thesis
      using seg' e' naf' by (auto simp: heap_rep_def al)
  next
    case False
    then have "first_free ?bs' = lfree h"
      using l by (auto simp: bs first_free_append split: if_splits)
    moreover have "mem_malloc h sz = Some (ram h + s + SIZEOF_STRUCT_MEM, h\<lparr>structs := S'\<rparr>)"
      using False le srch take by (simp add: mem_malloc_unfold [OF sz])
    ultimately show ?thesis
      using seg' e' naf' by (auto simp: heap_rep_def al)
  qed
qed

section \<open>mem\_free and plug\_holes\<close>

definition merge_next :: "nat \<Rightarrow> nat \<Rightarrow> block list \<Rightarrow> block list" where
  "merge_next s e ys =
     (case ys of (s', e', False) # zs \<Rightarrow> (s, e', False) # zs | _ \<Rightarrow> (s, e, False) # ys)"

definition merge_prev :: "block list \<Rightarrow> nat \<Rightarrow> nat \<Rightarrow> block list \<Rightarrow> block list" where
  "merge_prev xs s e ys =
     (if xs \<noteq> [] \<and> \<not> snd (snd (last xs)) then butlast xs @ (fst (last xs), e, False) # ys
      else xs @ (s, e, False) # ys)"

lemma plug_forward_rep:
  assumes seg1: "mem_seg (structs h) pv p xs a s"
    and S: "structs h s = Some \<lparr>mem_next = e, mem_prev = a, mem_used = False\<rparr>"
    and se: "s + SIZEOF_STRUCT_MEM + MIN_SIZE_ALIGNED \<le> e"
    and seg2: "mem_seg (structs h) s e ys pv' MEM_SIZE_ALIGNED" and e: "end_ok (structs h)"
    and l: "lfree h \<le> s"
  obtains S' pv'' where "plug_forward h s = Some (h\<lparr>structs := S'\<rparr>)"
    "mem_seg S' pv p (xs @ merge_next s e ys) pv'' MEM_SIZE_ALIGNED" "end_ok S'"
proof (cases "\<exists>e2 zs. ys = (e, e2, False) # zs")
  case True
  then obtain e2 zs where ys: "ys = (e, e2, False) # zs" by blast
  have Se: "structs h e = Some \<lparr>mem_next = e2, mem_prev = s, mem_used = False\<rparr>"
    and ee: "e + SIZEOF_STRUCT_MEM + MIN_SIZE_ALIGNED \<le> e2"
    and seg3: "mem_seg (structs h) e e2 zs pv' MEM_SIZE_ALIGNED"
    using seg2 by (auto simp: ys)
  have ord: "s < e" "e < e2" "e2 \<le> MEM_SIZE_ALIGNED" "e \<noteq> MEM_SIZE_ALIGNED"
    using se ee mem_seg_le [OF seg3] by (auto simp: lwip_simps)
  have u: "u16 s = s"
    using ord by (simp add: lwip_simps)
  let ?S1 = "(structs h)(s \<mapsto> \<lparr>mem_next = e2, mem_prev = a, mem_used = False\<rparr>)"
  let ?S2 = "?S1(e2 \<mapsto> (the (?S1 e2))\<lparr>mem_prev := s\<rparr>)"
  have Se2: "structs h e2 \<noteq> None"
    using seg3 e by (cases zs) (auto simp: end_ok_def)
  have seg3': "mem_seg ?S1 e e2 zs pv' MEM_SIZE_ALIGNED"
    using seg3 ord by (simp add: mem_seg_upd)
  obtain pv'' where r: "mem_seg ?S2 s e2 zs pv'' MEM_SIZE_ALIGNED"
    using mem_seg_reprev [OF seg3', of s] mem_seg_upd [of MEM_SIZE_ALIGNED e2 MEM_SIZE_ALIGNED]
    by (cases "e2 = MEM_SIZE_ALIGNED") (fastforce simp: mem_seg_upd)+
  have x: "mem_seg ?S2 pv p xs a s"
    using seg1 ord by (simp add: mem_seg_upd)
  have "plug_forward h s = Some (h\<lparr>structs := ?S2\<rparr>)"
    using S Se Se2 ord u l by (auto simp: plug_forward_def Let_def set_next_def set_prev_def)
  moreover have "mem_seg ?S2 pv p (xs @ merge_next s e ys) pv'' MEM_SIZE_ALIGNED"
    using x r ord se ee by (auto simp: mem_seg_append merge_next_def ys)
  moreover have "end_ok ?S2"
    using e ord by (auto simp: end_ok_def)
  ultimately show ?thesis by (rule that)
next
  case False
  have m: "merge_next s e ys = (s, e, False) # ys"
    using False seg2 by (auto simp: merge_next_def split: list.splits bool.splits)
  obtain nm where nm: "structs h e = Some nm" "mem_used nm \<or> e = MEM_SIZE_ALIGNED"
    using False seg2 e by (cases ys) (auto simp: end_ok_def)
  have "plug_forward h s = Some (h\<lparr>structs := structs h\<rparr>)"
    using S nm by (auto simp: plug_forward_def Let_def)
  moreover have "mem_seg (structs h) pv p (xs @ merge_next s e ys) pv' MEM_SIZE_ALIGNED"
    using m seg1 S se seg2 by (auto simp: mem_seg_append)
  ultimately show ?thesis using e by (rule that)
qed

lemma mem_seg_last:
  assumes "mem_seg S pv p xs a s" and "xs \<noteq> []"
  obtains u where "last xs = (a, s, u)" "a < s" "S a \<noteq> None" "mem_used (the (S a)) = u"
    "\<exists>b. mem_seg S pv p (butlast xs) b a \<and> S a = Some \<lparr>mem_next = s, mem_prev = b, mem_used = u\<rparr>"
    "a + SIZEOF_STRUCT_MEM + MIN_SIZE_ALIGNED \<le> s"
proof -
  obtain zs s0 e0 u where xs: "xs = zs @ [(s0, e0, u)]"
    using assms(2) by (metis append_butlast_last_id prod_cases3)
  with assms(1) that show ?thesis
    by (auto simp: mem_seg_append lwip_simps)
qed

lemma plug_backward_rep:
  assumes seg1: "mem_seg (structs h) 0 0 xs a s"
    and S: "structs h s = Some \<lparr>mem_next = e, mem_prev = a, mem_used = False\<rparr>"
    and se: "s + SIZEOF_STRUCT_MEM + MIN_SIZE_ALIGNED \<le> e"
    and seg2: "mem_seg (structs h) s e ys pv' MEM_SIZE_ALIGNED" and e: "end_ok (structs h)"
    and l: "xs \<noteq> [] \<Longrightarrow> \<not> snd (snd (last xs)) \<Longrightarrow> lfree h \<noteq> s"
  obtains S' pv'' where "plug_backward h s = Some (h\<lparr>structs := S'\<rparr>)"
    "mem_seg S' 0 0 (merge_prev xs s e ys) pv'' MEM_SIZE_ALIGNED" "end_ok S'"
proof (cases "xs \<noteq> [] \<and> \<not> snd (snd (last xs))")
  case True
  then have ne: "xs \<noteq> []" by simp
  obtain u where lu: "last xs = (a, s, u)" and "a < s"
    and ex: "\<exists>b. mem_seg (structs h) 0 0 (butlast xs) b a
      \<and> structs h a = Some \<lparr>mem_next = s, mem_prev = b, mem_used = u\<rparr>"
    and as: "a + SIZEOF_STRUCT_MEM + MIN_SIZE_ALIGNED \<le> s"
    by (rule mem_seg_last [OF seg1 ne])
  have "\<not> u" using True lu by simp
  with lu ex obtain b where lx: "last xs = (a, s, False)"
    and seg0: "mem_seg (structs h) 0 0 (butlast xs) b a"
    and Sa: "structs h a = Some \<lparr>mem_next = s, mem_prev = b, mem_used = False\<rparr>"
    by auto
  have ord: "a < s" "s < e" "e \<le> MEM_SIZE_ALIGNED"
    using \<open>a < s\<close> se mem_seg_le [OF seg2] by (auto simp: lwip_simps)
  have u: "u16 a = a"
    using ord by (simp add: lwip_simps)
  let ?S1 = "(structs h)(a \<mapsto> \<lparr>mem_next = e, mem_prev = b, mem_used = False\<rparr>)"
  let ?S2 = "?S1(e \<mapsto> (the (?S1 e))\<lparr>mem_prev := a\<rparr>)"
  have Se: "structs h e \<noteq> None"
    using seg2 e by (cases ys) (auto simp: end_ok_def)
  have seg2': "mem_seg ?S1 s e ys pv' MEM_SIZE_ALIGNED"
    using seg2 ord by (simp add: mem_seg_upd)
  obtain pv'' where r: "mem_seg ?S2 a e ys pv'' MEM_SIZE_ALIGNED"
    using mem_seg_reprev [OF seg2', of a] mem_seg_upd [of MEM_SIZE_ALIGNED e MEM_SIZE_ALIGNED]
    by (cases "e = MEM_SIZE_ALIGNED") (fastforce simp: mem_seg_upd)+
  have x: "mem_seg ?S2 0 0 (butlast xs) b a"
    using seg0 ord by (simp add: mem_seg_upd)
  have "plug_backward h s = Some (h\<lparr>structs := ?S2\<rparr>)"
    using S Sa Se ord u l True by (auto simp: plug_backward_def Let_def set_next_def set_prev_def)
  moreover have "mem_seg ?S2 0 0 (merge_prev xs s e ys) pv'' MEM_SIZE_ALIGNED"
    using True x r ord se as by (auto simp: mem_seg_append merge_prev_def lx)
  moreover have "end_ok ?S2"
    using e ord by (auto simp: end_ok_def)
  ultimately show ?thesis by (rule that)
next
  case False
  have "a = s \<or> (\<exists>pm. structs h a = Some pm \<and> mem_used pm)"
  proof (cases "xs = []")
    case True
    then show ?thesis using seg1 by simp
  next
    case ne: False
    obtain u where "last xs = (a, s, u)" "structs h a \<noteq> None" "mem_used (the (structs h a)) = u"
      by (rule mem_seg_last [OF seg1 ne])
    then show ?thesis
      using False ne by auto
  qed
  then have "plug_backward h s = Some (h\<lparr>structs := structs h\<rparr>)"
    using S by (auto simp: plug_backward_def Let_def)
  moreover have "mem_seg (structs h) 0 0 (merge_prev xs s e ys) pv' MEM_SIZE_ALIGNED"
    using False seg1 S se seg2 by (auto simp: mem_seg_append merge_prev_def)
  ultimately show ?thesis using e by (rule that)
qed

lemma merge_free_id: "no_adjacent_free bs \<Longrightarrow> merge_free bs = bs"
  by (induction bs rule: no_adjacent_free.induct) auto

lemma no_adjacent_free_merge: "no_adjacent_free (merge_free bs)"
proof (induction bs rule: merge_free.induct)
  case (1 s e u s' e' u' bs)
  show ?case
  proof (cases "\<not> u \<and> \<not> u'")
    case False
    obtain e'' cs where "merge_free ((s', e', u') # bs) = (s', e'', u') # cs"
    proof -
      have "\<exists>e'' cs. merge_free ((s', e', u') # bs) = (s', e'', u') # cs" for e'
        by (induction bs arbitrary: e') auto
      then show ?thesis using that by blast
    qed
    with False 1 show ?thesis by auto
  qed (use 1 in auto)
qed auto

lemma first_free_merge: "first_free (merge_free bs) = first_free bs"
  by (induction bs rule: merge_free.induct) auto

lemma merge_free_append_used:
  "no_adjacent_free xs \<Longrightarrow> xs \<noteq> [] \<Longrightarrow> snd (snd (last xs)) \<Longrightarrow> merge_free (xs @ zs) = xs @ merge_free zs"
proof (induction xs rule: no_adjacent_free.induct, goal_cases)
  case (3 v)
  then show ?case by (cases v; cases zs) auto
qed auto

lemma merge_next_form:
  assumes "no_adjacent_free ys"
  obtains e' zs where "merge_next s e ys = (s, e', False) # zs"
    "merge_free ((s, e, False) # ys) = (s, e', False) # zs"
proof (cases ys)
  case Nil
  then show ?thesis using that by (simp add: merge_next_def)
next
  case (Cons b cs)
  obtain s1 e1 u1 where b: "b = (s1, e1, u1)" by (cases b)
  have "no_adjacent_free ((s, e1, False) # cs)" if "\<not> u1"
    using assms that by (cases cs) (auto simp: Cons b)
  then show ?thesis
    using assms that by (cases u1) (auto simp: Cons b merge_next_def merge_free_id)
qed

lemma merge_free_restart:
  "merge_free ((s, e, u) # ys) = (s, e', u') # zs \<Longrightarrow>
     merge_free ((s0, e, u) # ys) = (s0, e', u') # zs"
  by (induction ys arbitrary: e) (auto split: if_splits)

lemma merge_free_local:
  assumes naf: "no_adjacent_free (xs @ (s, e, True) # ys)"
    and m: "merge_free ((s, e, False) # ys) = (s, e', False) # zs"
  shows "merge_free (xs @ (s, e, False) # ys) = merge_prev xs s e' zs"
proof (cases "xs \<noteq> [] \<and> \<not> snd (snd (last xs))")
  case True
  then obtain ws s0 e0 where xs: "xs = ws @ [(s0, e0, False)]"
    by (cases xs rule: rev_cases) auto
  have ws: "no_adjacent_free ws" "ws \<noteq> [] \<Longrightarrow> snd (snd (last ws))"
    using naf by (auto simp: xs no_adjacent_free_append)
  have "merge_free ((s0, e0, False) # (s, e, False) # ys) = (s0, e', False) # zs"
    using merge_free_restart [OF m] by simp
  then show ?thesis
    using ws True by (cases "ws = []") (simp_all add: xs merge_prev_def merge_free_append_used)
next
  case False
  then show ?thesis
    using naf m by (cases "xs = []")
      (simp_all add: merge_prev_def merge_free_append_used no_adjacent_free_append)
qed

lemma plug_holes_rep:
  assumes seg1: "mem_seg (structs h) 0 0 xs a s"
    and S: "structs h s = Some \<lparr>mem_next = e, mem_prev = a, mem_used = False\<rparr>"
    and se: "s + SIZEOF_STRUCT_MEM + MIN_SIZE_ALIGNED \<le> e"
    and seg2: "mem_seg (structs h) s e ys pv' MEM_SIZE_ALIGNED" and e: "end_ok (structs h)"
    and l: "lfree h = first_free (xs @ (s, e, False) # ys)"
    and naf: "no_adjacent_free (xs @ (s, e, True) # ys)"
  shows "\<exists>h'. plug_holes h s = Some h' \<and> ram h' = ram h \<and> heap_rep h' (merge_free (xs @ (s, e, False) # ys))"
proof -
  have lt: "s < MEM_SIZE_ALIGNED" "e \<le> MEM_SIZE_ALIGNED"
    using se mem_seg_le [OF seg2] by (auto simp: lwip_simps)
  have below: "\<forall>(s', e', u) \<in> set xs. s' < s"
    using mem_seg_bounds [OF seg1] by (fastforce simp: lwip_simps)
  have lle: "lfree h \<le> s"
    using below first_free_in [of _ _ xs] not_all_used [of xs]
    by (fastforce simp: l first_free_append split: if_splits)
  obtain e' zs where mn: "merge_next s e ys = (s, e', False) # zs"
      "merge_free ((s, e, False) # ys) = (s, e', False) # zs"
    using naf by (metis merge_next_form no_adjacent_free_append no_adjacent_free.simps(3)
        append_Cons append_Nil)
  obtain S1 pv1 where f: "plug_forward h s = Some (h\<lparr>structs := S1\<rparr>)"
    and fseg: "mem_seg S1 0 0 (xs @ (s, e', False) # zs) pv1 MEM_SIZE_ALIGNED" and e1: "end_ok S1"
    using plug_forward_rep [OF seg1 S se seg2 e lle] mn(1) by metis
  obtain a1 where b: "mem_seg S1 0 0 xs a1 s"
      "S1 s = Some \<lparr>mem_next = e', mem_prev = a1, mem_used = False\<rparr>"
      "s + SIZEOF_STRUCT_MEM + MIN_SIZE_ALIGNED \<le> e'" "mem_seg S1 s e' zs pv1 MEM_SIZE_ALIGNED"
    using fseg by (auto simp: mem_seg_append)
  let ?h1 = "h\<lparr>structs := S1\<rparr>"
  have lb: "lfree ?h1 \<noteq> s" if ne: "xs \<noteq> []" and fr: "\<not> snd (snd (last xs))"
  proof -
    obtain s0 e0 where in0: "(s0, e0, False) \<in> set xs"
      using ne fr last_in_set [of xs] by (cases "last xs") auto
    then have "first_free xs < s"
      using first_free_in [OF in0] below by fastforce
    moreover have "\<not> all_used xs"
      using in0 by (force simp: list_all_iff)
    ultimately show ?thesis
      using l by (simp add: first_free_append)
  qed
  obtain S2 pv2 where "plug_backward ?h1 s = Some (?h1\<lparr>structs := S2\<rparr>)"
    "mem_seg S2 0 0 (merge_prev xs s e' zs) pv2 MEM_SIZE_ALIGNED" "end_ok S2"
    using plug_backward_rep [of ?h1 xs a1 s e' zs pv1] b e1 lb by auto
  moreover have "merge_prev xs s e' zs = merge_free (xs @ (s, e, False) # ys)"
    using merge_free_local [OF naf mn(2)] by simp
  ultimately show ?thesis
    using S f lt l by (auto simp: plug_holes_def heap_rep_def no_adjacent_free_merge first_free_merge)
qed

lemma mem_free_rep:
  assumes rep: "heap_rep h bs" and blk: "(s, e, True) \<in> set bs"
  shows "\<exists>h'. mem_free h (ram h + s + SIZEOF_STRUCT_MEM) = Some h' \<and> ram h' = ram h
    \<and> heap_rep h' (merge_free (mark_free s bs))"
proof -
  obtain pv where seg: "mem_seg (structs h) 0 0 bs pv MEM_SIZE_ALIGNED" and e: "end_ok (structs h)"
    and naf: "no_adjacent_free bs" and l: "lfree h = first_free bs"
    using rep by (auto simp: heap_rep_def)
  obtain xs ys a where bs: "bs = xs @ (s, e, True) # ys" and seg1: "mem_seg (structs h) 0 0 xs a s"
    and S: "structs h s = Some \<lparr>mem_next = e, mem_prev = a, mem_used = True\<rparr>"
    and se: "s + SIZEOF_STRUCT_MEM + MIN_SIZE_ALIGNED \<le> e"
    and seg2: "mem_seg (structs h) s e ys pv MEM_SIZE_ALIGNED"
    by (rule mem_seg_split [OF seg blk])
  have lt: "s < e" "e \<le> MEM_SIZE_ALIGNED"
    using se mem_seg_le [OF seg2] by (auto simp: lwip_simps)
  have below: "\<forall>(s', e', u) \<in> set xs. s' < s" and above: "\<forall>(s', e', u) \<in> set ys. s < s'"
    using mem_seg_bounds [OF seg1] mem_seg_bounds [OF seg2] lt by (fastforce simp: lwip_simps)+
  have mark: "mark_free s bs = xs @ (s, e, False) # ys"
    using below above by (force simp: bs mark_free_def intro!: map_idI)
  let ?S1 = "(structs h)(s \<mapsto> \<lparr>mem_next = e, mem_prev = a, mem_used = False\<rparr>)"
  let ?l = "first_free (xs @ (s, e, False) # ys)"
  have ll: "(if s < lfree h then s else lfree h) = ?l"
  proof (cases "all_used xs")
    case True
    have "s < first_free ys"
      using above lt first_free_in [of _ _ ys] first_free_append [of ys "[]"] not_all_used [of ys]
      by (cases "all_used ys") (fastforce split: if_splits)+
    with True l show ?thesis by (simp add: bs first_free_append)
  next
    case False
    then obtain s0 e0 where "(s0, e0, False) \<in> set xs"
      using not_all_used by blast
    then have "first_free xs < s"
      using first_free_in below by fastforce
    with False l show ?thesis by (simp add: bs first_free_append)
  qed
  let ?h1 = "h\<lparr>structs := ?S1, lfree := ?l\<rparr>"
  have "\<exists>h'. plug_holes ?h1 s = Some h' \<and> ram h' = ram ?h1
      \<and> heap_rep h' (merge_free (xs @ (s, e, False) # ys))"
    using seg1 seg2 se e lt naf
    by (intro plug_holes_rep [where a = a and pv' = pv]) (auto simp: mem_seg_upd bs end_ok_def)
  moreover have "mem_free h (ram h + s + SIZEOF_STRUCT_MEM) = plug_holes ?h1 s"
  proof -
    have "(if s < lfree h then h\<lparr>structs := ?S1, lfree := s\<rparr> else h\<lparr>structs := ?S1\<rparr>) = ?h1"
      using ll by auto
    then show ?thesis
      using S lt se by (auto simp: mem_free_def Let_def set_used_def lwip_simps)
  qed
  ultimately show ?thesis
    by (auto simp: mark)
qed

section \<open>mem\_realloc\<close>

definition shrink_tail :: "nat \<Rightarrow> nat \<Rightarrow> nat \<Rightarrow> block list \<Rightarrow> block list" where
  "shrink_tail n s e ys =
     (if n = e - s - SIZEOF_STRUCT_MEM then (s, e, True) # ys
      else (case ys of
        (s', e', False) # zs \<Rightarrow>
          (s, s + SIZEOF_STRUCT_MEM + n, True) # (s + SIZEOF_STRUCT_MEM + n, e', False) # zs
      | _ \<Rightarrow>
          if n + SIZEOF_STRUCT_MEM + MIN_SIZE_ALIGNED \<le> e - s - SIZEOF_STRUCT_MEM
          then (s, s + SIZEOF_STRUCT_MEM + n, True) # (s + SIZEOF_STRUCT_MEM + n, e, False) # ys
          else (s, e, True) # ys))"

fun shrink_blocks :: "nat \<Rightarrow> nat \<Rightarrow> block list \<Rightarrow> block list" where
  "shrink_blocks n s [] = []"
| "shrink_blocks n s ((s', e, u) # bs) =
     (if s' = s \<and> u then shrink_tail n s e bs else (s', e, u) # shrink_blocks n s bs)"

lemma shrink_blocks_append:
  "\<forall>(s', e', u') \<in> set xs. s' \<noteq> s \<Longrightarrow>
     shrink_blocks n s (xs @ (s, e, True) # ys) = xs @ shrink_tail n s e ys"
  by (induction xs) auto

text \<open>
  Installing a new free header \<open>p2\<close> between \<open>s\<close> and \<open>q\<close>: what both shrinking branches do to the
  header list.
\<close>

lemma install_header:
  assumes seg1: "mem_seg S 0 0 xs a s"
    and seg2: "mem_seg S r q ys pv' MEM_SIZE_ALIGNED" and e: "end_ok S"
    and ord: "s + SIZEOF_STRUCT_MEM + MIN_SIZE_ALIGNED \<le> p2" "p2 + SIZEOF_STRUCT_MEM + MIN_SIZE_ALIGNED \<le> q"
  obtains S' pv'' where
    "S' = (let S1 = S(p2 \<mapsto> \<lparr>mem_next = q, mem_prev = s, mem_used = False\<rparr>,
                     s \<mapsto> \<lparr>mem_next = p2, mem_prev = a, mem_used = True\<rparr>)
           in if q = MEM_SIZE_ALIGNED then S1 else S1(q \<mapsto> (the (S q))\<lparr>mem_prev := p2\<rparr>))"
    "mem_seg S' 0 0 (xs @ (s, p2, True) # (p2, q, False) # ys) pv'' MEM_SIZE_ALIGNED" "end_ok S'"
    "S q \<noteq> None"
proof -
  let ?S1 = "S(p2 \<mapsto> \<lparr>mem_next = q, mem_prev = s, mem_used = False\<rparr>,
      s \<mapsto> \<lparr>mem_next = p2, mem_prev = a, mem_used = True\<rparr>)"
  let ?S2 = "if q = MEM_SIZE_ALIGNED then ?S1 else ?S1(q \<mapsto> (the (?S1 q))\<lparr>mem_prev := p2\<rparr>)"
  have lt: "s < p2" "p2 < q" "q \<le> MEM_SIZE_ALIGNED"
    using ord mem_seg_le [OF seg2] by (auto simp: lwip_simps)
  have "mem_seg ?S1 r q ys pv' MEM_SIZE_ALIGNED"
    using seg2 lt by (simp add: mem_seg_upd)
  then obtain pv'' where r: "mem_seg ?S2 p2 q ys pv'' MEM_SIZE_ALIGNED"
    using mem_seg_reprev [of ?S1 r q ys pv' MEM_SIZE_ALIGNED p2] by auto
  have x: "mem_seg ?S2 0 0 xs a s"
    using seg1 lt by (simp add: mem_seg_upd)
  have "mem_seg ?S2 0 0 (xs @ (s, p2, True) # (p2, q, False) # ys) pv'' MEM_SIZE_ALIGNED"
    using x r ord lt by (auto simp: mem_seg_append)
  moreover have "end_ok ?S2"
    using e lt by (auto simp: end_ok_def)
  moreover have "S q \<noteq> None"
    using seg2 e by (cases ys) (auto simp: end_ok_def)
  ultimately show ?thesis
    using lt by (intro that [of ?S2 pv'']) (auto simp: Let_def)
qed

text \<open>\<open>mem_realloc\<close> on a used block that is at least as big as the new size.\<close>

lemma mem_realloc_unfold:
  fixes s n
  defines "p2 \<equiv> s + SIZEOF_STRUCT_MEM + request n"
  assumes S: "structs h s = Some \<lparr>mem_next = e, mem_prev = a, mem_used = True\<rparr>" "structs h e = Some m2"
    and se: "s + SIZEOF_STRUCT_MEM + MIN_SIZE_ALIGNED \<le> e" "e \<le> MEM_SIZE_ALIGNED"
    and n: "request n \<le> e - s - SIZEOF_STRUCT_MEM"
  shows "mem_realloc h (ram h + s + SIZEOF_STRUCT_MEM) n =
     (if request n = e - s - SIZEOF_STRUCT_MEM then Some (ram h + s + SIZEOF_STRUCT_MEM, h)
      else if \<not> mem_used m2 then do {
        let h = (if lfree h = e then h\<lparr>lfree := p2\<rparr> else h);
        let h = h\<lparr>structs := (structs h)
          (p2 \<mapsto> \<lparr>mem_next = mem_next m2, mem_prev = s, mem_used = False\<rparr>)\<rparr>;
        h \<leftarrow> set_next h s p2;
        h \<leftarrow> (if mem_next m2 \<noteq> MEM_SIZE_ALIGNED then set_prev h (mem_next m2) p2 else Some h);
        Some (ram h + s + SIZEOF_STRUCT_MEM, h) }
      else if request n + SIZEOF_STRUCT_MEM + MIN_SIZE_ALIGNED \<le> e - s - SIZEOF_STRUCT_MEM then do {
        let h = (if p2 < lfree h then h\<lparr>lfree := p2\<rparr> else h);
        let h = h\<lparr>structs := (structs h)
          (p2 \<mapsto> \<lparr>mem_next = e, mem_prev = s, mem_used = False\<rparr>)\<rparr>;
        h \<leftarrow> set_next h s p2;
        h \<leftarrow> (if e \<noteq> MEM_SIZE_ALIGNED then set_prev h e p2 else Some h);
        Some (ram h + s + SIZEOF_STRUCT_MEM, h) }
      else Some (ram h + s + SIZEOF_STRUCT_MEM, h))"
proof -
  have n': "n < 65536" "(if n < MIN_SIZE_ALIGNED then MIN_SIZE_ALIGNED else n) = request n"
    "request n \<le> MEM_SIZE_ALIGNED" "p2 \<le> e" "MIN_SIZE_ALIGNED \<le> request n"
    using n se by (auto simp: request_def p2_def lwip_simps)
  have small: "s < 65536" "e < 65536" "p2 < 65536" "s < e"
    using n' se by (auto simp: lwip_simps)
  show ?thesis
    using n n' small se S unfolding p2_def
    by (simp add: mem_realloc_def Let_def set_next_def set_prev_def cong: if_cong) (simp add: lwip_simps)
qed

lemma mem_realloc_into_free:
  fixes s n
  defines "p2 \<equiv> s + SIZEOF_STRUCT_MEM + request n"
  assumes seg1: "mem_seg (structs h) 0 0 xs a s" and e: "end_ok (structs h)"
    and S: "structs h s = Some \<lparr>mem_next = e, mem_prev = a, mem_used = True\<rparr>"
    and Se: "structs h e = Some \<lparr>mem_next = e2, mem_prev = s, mem_used = False\<rparr>"
    and seg3: "mem_seg (structs h) e e2 zs pv MEM_SIZE_ALIGNED"
    and ord: "p2 < e" "e + SIZEOF_STRUCT_MEM + MIN_SIZE_ALIGNED \<le> e2"
  shows "\<exists>S' pv'. mem_realloc h (ram h + s + SIZEOF_STRUCT_MEM) n =
      Some (ram h + s + SIZEOF_STRUCT_MEM, h\<lparr>structs := S', lfree := if lfree h = e then p2 else lfree h\<rparr>)
    \<and> mem_seg S' 0 0 (xs @ (s, p2, True) # (p2, e2, False) # zs) pv' MEM_SIZE_ALIGNED \<and> end_ok S'"
proof -
  have ord': "s + SIZEOF_STRUCT_MEM + MIN_SIZE_ALIGNED \<le> p2" "p2 + SIZEOF_STRUCT_MEM + MIN_SIZE_ALIGNED \<le> e2"
    "s + SIZEOF_STRUCT_MEM + MIN_SIZE_ALIGNED \<le> e" "e \<le> MEM_SIZE_ALIGNED"
    and n: "request n \<le> e - s - SIZEOF_STRUCT_MEM" "request n \<noteq> e - s - SIZEOF_STRUCT_MEM"
    and d: "s \<noteq> p2" "s \<noteq> e2" "p2 \<noteq> e2"
    using ord mem_seg_le [OF seg3] by (auto simp: p2_def request_def lwip_simps)
  obtain S' pv'' where S': "S' = (let S1 = (structs h)(p2 \<mapsto> \<lparr>mem_next = e2, mem_prev = s, mem_used = False\<rparr>,
        s \<mapsto> \<lparr>mem_next = p2, mem_prev = a, mem_used = True\<rparr>)
      in if e2 = MEM_SIZE_ALIGNED then S1 else S1(e2 \<mapsto> (the (structs h e2))\<lparr>mem_prev := p2\<rparr>))"
    and seg': "mem_seg S' 0 0 (xs @ (s, p2, True) # (p2, e2, False) # zs) pv'' MEM_SIZE_ALIGNED"
    and e': "end_ok S'" and Se2: "structs h e2 \<noteq> None"
    by (rule install_header [OF seg1 seg3 e ord'(1,2)])
  have "mem_realloc h (ram h + s + SIZEOF_STRUCT_MEM) n = Some (ram h + s + SIZEOF_STRUCT_MEM,
      h\<lparr>structs := S', lfree := if lfree h = e then p2 else lfree h\<rparr>)"
    using d S Se2 n(2)
    by (auto simp: mem_realloc_unfold [OF S Se ord'(3,4) n(1)] p2_def [symmetric] S' Let_def
        set_next_def set_prev_def)
  then show ?thesis using seg' e' by blast
qed

lemma mem_realloc_split:
  fixes s n
  defines "p2 \<equiv> s + SIZEOF_STRUCT_MEM + request n"
  assumes seg1: "mem_seg (structs h) 0 0 xs a s" and e: "end_ok (structs h)"
    and S: "structs h s = Some \<lparr>mem_next = e, mem_prev = a, mem_used = True\<rparr>"
    and Se: "structs h e = Some m2" "mem_used m2"
    and seg2: "mem_seg (structs h) s e ys pv MEM_SIZE_ALIGNED"
    and ord: "p2 + SIZEOF_STRUCT_MEM + MIN_SIZE_ALIGNED \<le> e"
  shows "\<exists>S' pv'. mem_realloc h (ram h + s + SIZEOF_STRUCT_MEM) n =
      Some (ram h + s + SIZEOF_STRUCT_MEM, h\<lparr>structs := S', lfree := if p2 < lfree h then p2 else lfree h\<rparr>)
    \<and> mem_seg S' 0 0 (xs @ (s, p2, True) # (p2, e, False) # ys) pv' MEM_SIZE_ALIGNED \<and> end_ok S'"
proof -
  have ord': "s + SIZEOF_STRUCT_MEM + MIN_SIZE_ALIGNED \<le> p2"
    "s + SIZEOF_STRUCT_MEM + MIN_SIZE_ALIGNED \<le> e" "e \<le> MEM_SIZE_ALIGNED"
    and n: "request n \<le> e - s - SIZEOF_STRUCT_MEM" "request n \<noteq> e - s - SIZEOF_STRUCT_MEM"
      "request n + SIZEOF_STRUCT_MEM + MIN_SIZE_ALIGNED \<le> e - s - SIZEOF_STRUCT_MEM"
    and d: "s \<noteq> p2" "s \<noteq> e" "p2 \<noteq> e"
    using ord mem_seg_le [OF seg2] by (auto simp: p2_def request_def lwip_simps)
  obtain S' pv'' where S': "S' = (let S1 = (structs h)(p2 \<mapsto> \<lparr>mem_next = e, mem_prev = s, mem_used = False\<rparr>,
        s \<mapsto> \<lparr>mem_next = p2, mem_prev = a, mem_used = True\<rparr>)
      in if e = MEM_SIZE_ALIGNED then S1 else S1(e \<mapsto> (the (structs h e))\<lparr>mem_prev := p2\<rparr>))"
    and seg': "mem_seg S' 0 0 (xs @ (s, p2, True) # (p2, e, False) # ys) pv'' MEM_SIZE_ALIGNED"
    and e': "end_ok S'"
    by (rule install_header [OF seg1 seg2 e ord'(1) ord])
  have "mem_realloc h (ram h + s + SIZEOF_STRUCT_MEM) n = Some (ram h + s + SIZEOF_STRUCT_MEM,
      h\<lparr>structs := S', lfree := if p2 < lfree h then p2 else lfree h\<rparr>)"
    using d S Se n(2,3)
    by (auto simp: mem_realloc_unfold [OF S Se(1) ord'(2,3) n(1)] p2_def [symmetric] S' Let_def
        set_next_def set_prev_def)
  then show ?thesis using seg' e' by blast
qed

lemma first_free_below:
  "\<not> all_used xs \<Longrightarrow> \<forall>(s', e', u) \<in> set xs. s' < s \<Longrightarrow> first_free xs < s"
  using not_all_used first_free_in by fastforce

lemma first_free_above:
  "\<forall>(s', e', u) \<in> set ys. e \<le> s' \<Longrightarrow> e \<le> MEM_SIZE_ALIGNED \<Longrightarrow> e \<le> first_free ys"
  by (induction ys) auto

lemma mem_realloc_rep:
  assumes rep: "heap_rep h bs" and blk: "(s, e, True) \<in> set bs"
    and n: "request n \<le> e - s - SIZEOF_STRUCT_MEM"
  shows "\<exists>h'. mem_realloc h (ram h + s + SIZEOF_STRUCT_MEM) n = Some (ram h + s + SIZEOF_STRUCT_MEM, h')
    \<and> ram h' = ram h \<and> heap_rep h' (shrink_blocks (request n) s bs)"
proof -
  obtain pv where seg: "mem_seg (structs h) 0 0 bs pv MEM_SIZE_ALIGNED" and e: "end_ok (structs h)"
    and naf: "no_adjacent_free bs" and l: "lfree h = first_free bs"
    using rep by (auto simp: heap_rep_def)
  obtain xs ys a where bs: "bs = xs @ (s, e, True) # ys" and seg1: "mem_seg (structs h) 0 0 xs a s"
    and S: "structs h s = Some \<lparr>mem_next = e, mem_prev = a, mem_used = True\<rparr>"
    and se: "s + SIZEOF_STRUCT_MEM + MIN_SIZE_ALIGNED \<le> e"
    and seg2: "mem_seg (structs h) s e ys pv MEM_SIZE_ALIGNED"
    by (rule mem_seg_split [OF seg blk])
  have le: "e \<le> MEM_SIZE_ALIGNED" "s < e"
    using se mem_seg_le [OF seg2] by (auto simp: lwip_simps)
  have below: "\<forall>(s', e', u) \<in> set xs. s' < s" and above: "\<forall>(s', e', u) \<in> set ys. e \<le> s'"
    using mem_seg_bounds [OF seg1] mem_seg_bounds [OF seg2] by (fastforce simp: lwip_simps)+
  have shr: "shrink_blocks (request n) s bs = xs @ shrink_tail (request n) s e ys"
    using below by (auto simp: bs intro!: shrink_blocks_append)
  note ff = first_free_append first_free_below [OF _ below] first_free_above [OF above le(1)] bs l
  obtain m2 where m2: "structs h e = Some m2"
    using seg2 e by (cases ys) (auto simp: end_ok_def)
  let ?p2 = "s + SIZEOF_STRUCT_MEM + request n"
  have "?p2 = e \<or> ?p2 < e"
    using n se by linarith
  then consider (free) e2 zs where "?p2 < e" "ys = (e, e2, False) # zs"
    | (split) "?p2 + SIZEOF_STRUCT_MEM + MIN_SIZE_ALIGNED \<le> e" "\<nexists>e2 zs. ys = (e, e2, False) # zs"
    | (same) "?p2 = e \<or> ?p2 < e \<and> \<not> ?p2 + SIZEOF_STRUCT_MEM + MIN_SIZE_ALIGNED \<le> e
        \<and> (\<nexists>e2 zs. ys = (e, e2, False) # zs)"
    by blast
  then show ?thesis
  proof cases
    case free
    then obtain S' pv' where "mem_realloc h (ram h + s + SIZEOF_STRUCT_MEM) n =
        Some (ram h + s + SIZEOF_STRUCT_MEM, h\<lparr>structs := S', lfree := if lfree h = e then ?p2 else lfree h\<rparr>)"
      "mem_seg S' 0 0 (xs @ (s, ?p2, True) # (?p2, e2, False) # zs) pv' MEM_SIZE_ALIGNED" "end_ok S'"
      using mem_realloc_into_free [OF seg1 e S, of e2 zs pv n] seg2 by auto
    moreover have "shrink_tail (request n) s e ys = (s, ?p2, True) # (?p2, e2, False) # zs"
      using free by (simp add: shrink_tail_def)
    moreover have "(if lfree h = e then ?p2 else lfree h) = first_free (xs @ (s, ?p2, True) # (?p2, e2, False) # zs)"
      using ff(2) le by (cases "all_used xs") (simp_all add: ff(1,4,5) free)
    ultimately show ?thesis
      unfolding shr heap_rep_def
      using naf by (cases zs) (auto simp: bs free no_adjacent_free_append)
  next
    case split
    have used: "mem_used m2" "ys \<noteq> [] \<Longrightarrow> snd (snd (hd ys))"
      using seg2 m2 e split(2) by (cases ys; auto simp: end_ok_def)+
    obtain S' pv' where "mem_realloc h (ram h + s + SIZEOF_STRUCT_MEM) n =
        Some (ram h + s + SIZEOF_STRUCT_MEM, h\<lparr>structs := S', lfree := if ?p2 < lfree h then ?p2 else lfree h\<rparr>)"
      "mem_seg S' 0 0 (xs @ (s, ?p2, True) # (?p2, e, False) # ys) pv' MEM_SIZE_ALIGNED" "end_ok S'"
      using mem_realloc_split [OF seg1 e S m2 used(1) seg2 split(1)] by blast
    moreover have "shrink_tail (request n) s e ys = (s, ?p2, True) # (?p2, e, False) # ys"
      using split used(2) by (cases ys) (auto simp: shrink_tail_def lwip_simps)
    moreover have "(if ?p2 < lfree h then ?p2 else lfree h) = first_free (xs @ (s, ?p2, True) # (?p2, e, False) # ys)"
      using ff(2,3) split(1) by (cases "all_used xs") (auto simp: ff(1,4,5) lwip_simps)
    ultimately show ?thesis
      unfolding shr heap_rep_def
      using naf used(2) by (cases ys) (auto simp: bs no_adjacent_free_append)
  next
    case same
    have "shrink_tail (request n) s e ys = (s, e, True) # ys"
      using same seg2 by (cases ys) (auto simp: shrink_tail_def lwip_simps split: bool.splits)
    moreover have "mem_used m2 \<or> request n = e - s - SIZEOF_STRUCT_MEM"
      using same seg2 m2 e by (cases ys) (auto simp: end_ok_def)
    moreover have "\<not> request n + SIZEOF_STRUCT_MEM + MIN_SIZE_ALIGNED \<le> e - s - SIZEOF_STRUCT_MEM"
      using same by (auto simp: lwip_simps)
    ultimately show ?thesis
      unfolding shr using rep by (auto simp: mem_realloc_unfold [OF S m2 se le(1) n] bs)
  qed
qed

section \<open>The invariant and the live blocks of a heap\<close>

text \<open>The blocks of a heap, read off its headers; the array index strictly grows along them.\<close>

fun walk :: "nat \<Rightarrow> (nat \<rightharpoonup> mem_struct) \<Rightarrow> nat \<Rightarrow> block list" where
  "walk 0 S p = []"
| "walk (Suc k) S p =
     (if p = MEM_SIZE_ALIGNED then []
      else case S p of None \<Rightarrow> []
        | Some m \<Rightarrow> (p, mem_next m, mem_used m) # walk k S (mem_next m))"

definition heap_blocks :: "heap \<Rightarrow> block list" where
  "heap_blocks h = walk MEM_SIZE_ALIGNED (structs h) 0"

definition mem_ok :: "heap \<Rightarrow> bool" where
  "mem_ok h \<longleftrightarrow> heap_rep h (heap_blocks h)"

definition used_regions :: "addr \<Rightarrow> block list \<Rightarrow> (addr \<times> nat) list" where
  "used_regions base bs =
     map (\<lambda>(s, e, u). (base + s + SIZEOF_STRUCT_MEM, e - s - SIZEOF_STRUCT_MEM))
       (filter (\<lambda>(s, e, u). u) bs)"

definition mem_live :: "heap \<Rightarrow> (addr \<rightharpoonup> nat)" where
  "mem_live h = map_of (used_regions (ram h) (heap_blocks h))"

lemma mem_seg_length: "mem_seg S pv p bs pv' p' \<Longrightarrow> p + length bs \<le> p'"
  by (induction S pv p bs pv' p' rule: mem_seg.induct) (auto simp: lwip_simps)

lemma walk_seg: "mem_seg S pv p bs pv' MEM_SIZE_ALIGNED \<Longrightarrow> length bs \<le> k \<Longrightarrow> walk k S p = bs"
proof (induction bs arbitrary: pv p k)
  case Nil
  then show ?case by (cases k) auto
next
  case (Cons b bs)
  obtain s e u where b: "b = (s, e, u)" by (cases b)
  obtain k' where k: "k = Suc k'" using Cons.prems(2) by (cases k) auto
  have "p \<noteq> MEM_SIZE_ALIGNED"
    using mem_seg_length [OF Cons.prems(1)] by simp
  then show ?case
    using Cons b k by auto
qed

lemma heap_blocks_eq: "heap_rep h bs \<Longrightarrow> heap_blocks h = bs"
  unfolding heap_rep_def heap_blocks_def using walk_seg mem_seg_length by fastforce

lemma heap_rep_ok: "heap_rep h bs \<Longrightarrow> mem_ok h"
  by (simp add: mem_ok_def heap_blocks_eq)

lemma mem_ok_bounds:
  assumes "mem_ok h" and "(s, e, u) \<in> set (heap_blocks h)"
  shows "s + SIZEOF_STRUCT_MEM + MIN_SIZE_ALIGNED \<le> e \<and> e \<le> MEM_SIZE_ALIGNED"
proof -
  obtain pv where "mem_seg (structs h) 0 0 (heap_blocks h) pv MEM_SIZE_ALIGNED"
    using assms(1) by (auto simp: mem_ok_def heap_rep_def)
  from mem_seg_bounds [OF this assms(2)] show ?thesis by simp
qed

text \<open>Blocks of a segment are ordered, so that their payloads do not overlap.\<close>

lemma mem_seg_sorted:
  assumes "mem_seg S pv p bs pv' p'"
    and "(s1, e1, u1) \<in> set bs" and "(s2, e2, u2) \<in> set bs"
  shows "(s1, e1, u1) = (s2, e2, u2) \<or> e1 \<le> s2 \<or> e2 \<le> s1"
  using assms
proof (induction S pv p bs pv' p' rule: mem_seg.induct)
  case (2 S pv p s e u bs pv' p')
  have seg: "mem_seg S p e bs pv' p'" using 2(2) by simp
  show ?case
    using 2 mem_seg_bounds [OF seg] by auto
qed simp

lemma used_regions_simps [simp]:
  "used_regions base [] = []"
  "used_regions base ((s, e, u) # bs) =
     (if u then (base + s + SIZEOF_STRUCT_MEM, e - s - SIZEOF_STRUCT_MEM) # used_regions base bs
      else used_regions base bs)"
  by (simp_all add: used_regions_def)

lemma distinct_used_regions:
  assumes "mem_seg S pv p bs pv' p'"
  shows "distinct (map fst (used_regions base bs))"
  using assms
proof (induction S pv p bs pv' p' rule: mem_seg.induct)
  case (2 S pv p s e u bs pv' p')
  have seg: "mem_seg S p e bs pv' p'" and "p < e" using 2(2) by (auto simp: lwip_simps)
  then have "base + p + SIZEOF_STRUCT_MEM \<notin> fst ` set (used_regions base bs)"
    using mem_seg_bounds [OF seg] by (fastforce simp: used_regions_def)
  then show ?case
    using 2 by auto
qed simp

lemma mem_live_iff:
  assumes "mem_ok h"
  shows "mem_live h p = Some sz \<longleftrightarrow> (\<exists>s e. (s, e, True) \<in> set (heap_blocks h)
    \<and> p = ram h + s + SIZEOF_STRUCT_MEM \<and> sz = e - s - SIZEOF_STRUCT_MEM)"
proof -
  obtain pv where seg: "mem_seg (structs h) 0 0 (heap_blocks h) pv MEM_SIZE_ALIGNED"
    using assms by (auto simp: mem_ok_def heap_rep_def)
  show ?thesis
    unfolding mem_live_def map_of_eq_Some_iff [OF distinct_used_regions [OF seg]]
    by (force simp: used_regions_def)
qed

lemma mem_live_eqI:
  assumes "heap_rep h bs" "heap_rep h' bs'" "ram h' = ram h"
    and "\<And>s e. (s, e, True) \<in> set bs' \<longleftrightarrow> P s e"
    and "\<And>p sz. L p = Some sz \<longleftrightarrow> (\<exists>s e. P s e \<and> p = ram h + s + SIZEOF_STRUCT_MEM \<and> sz = e - s - SIZEOF_STRUCT_MEM)"
  shows "mem_live h' = L"
proof
  fix p
  have "mem_live h' p = Some sz \<longleftrightarrow> L p = Some sz" for sz
    using assms mem_live_iff [OF heap_rep_ok [OF assms(2)]] heap_blocks_eq [OF assms(2)] by auto
  then show "mem_live h' p = L p"
    by (metis not_None_eq)
qed

lemma used_merge_free: "(s, e, True) \<in> set (merge_free bs) \<longleftrightarrow> (s, e, True) \<in> set bs"
  by (induction bs rule: merge_free.induct) auto

lemma used_mark_free: "(s', e, True) \<in> set (mark_free s bs) \<longleftrightarrow> (s', e, True) \<in> set bs \<and> s' \<noteq> s"
  by (force simp: mark_free_def)

section \<open>The heap as an allocator\<close>

lemma mem_ok_init: "mem_ok (mem_init base)"
proof -
  have "heap_rep (mem_init base) [(0, MEM_SIZE_ALIGNED, False)]"
    by (simp add: heap_rep_def mem_init_def end_ok_def lwip_simps)
  then show ?thesis by (rule heap_rep_ok)
qed

lemma mem_malloc_null:
  "mem_ok h \<Longrightarrow> 0 < n \<Longrightarrow> n < 65536 \<Longrightarrow> mem_malloc h n = Some (NULL, h') \<Longrightarrow>
     find_fit (request n) (heap_blocks h) = None \<and> h' = h"
  using mem_malloc_None [of h "heap_blocks h" n] mem_malloc_Some [of h "heap_blocks h" n]
  by (cases "find_fit (request n) (heap_blocks h)") (auto simp: mem_ok_def lwip_simps)

lemma mem_malloc_live:
  assumes ok: "mem_ok h" and n: "0 < n" "n < 65536"
    and m: "mem_malloc h n = Some (p, h')" "p \<noteq> NULL"
  shows "mem_ok h' \<and> ram h' = ram h \<and> mem_live h p = None
    \<and> (\<exists>k. request n \<le> k \<and> mem_live h' = (mem_live h)(p \<mapsto> k))"
proof -
  let ?bs = "heap_blocks h"
  have rep: "heap_rep h ?bs" using ok by (simp add: mem_ok_def)
  obtain s where fit: "find_fit (request n) ?bs = Some s"
    using m mem_malloc_None [OF rep n] by (cases "find_fit (request n) ?bs") auto
  have p: "p = ram h + s + SIZEOF_STRUCT_MEM" and ram: "ram h' = ram h"
    and rep': "heap_rep h' (alloc_blocks (request n) ?bs)"
    using mem_malloc_Some [OF rep n fit] m by auto
  obtain xs e ys where bs: "?bs = xs @ (s, e, False) # ys" and ge: "request n \<le> e - (s + SIZEOF_STRUCT_MEM)"
    and al: "alloc_blocks (request n) ?bs = xs @ split_block (request n) s e @ ys"
    using find_fit_Some [OF fit] by metis
  define e' where "e' = (if request n + SIZEOF_STRUCT_MEM + MIN_SIZE_ALIGNED \<le> e - (s + SIZEOF_STRUCT_MEM)
    then s + SIZEOF_STRUCT_MEM + request n else e)"
  have new: "(s', f, True) \<in> set (alloc_blocks (request n) ?bs) \<longleftrightarrow>
      (s', f, True) \<in> set ?bs \<or> (s' = s \<and> f = e')" for s' f
    unfolding al by (auto simp: bs split_block_def e'_def)
  obtain pv where seg: "mem_seg (structs h) 0 0 ?bs pv MEM_SIZE_ALIGNED"
    using rep by (auto simp: heap_rep_def)
  have s_free: "(s, f, True) \<notin> set ?bs" for f
    using mem_seg_sorted [OF seg, of s f True s e False] mem_seg_bounds [OF seg, of s f True]
      mem_seg_bounds [OF seg, of s e False]
    by (auto simp: bs lwip_simps)
  have fresh: "mem_live h p = None"
    using mem_live_iff [OF ok] s_free p by (metis add_right_cancel add_left_cancel not_None_eq)
  have k: "request n \<le> e' - s - SIZEOF_STRUCT_MEM"
    using ge by (auto simp: e'_def)
  have "mem_live h' = (mem_live h)(p \<mapsto> e' - s - SIZEOF_STRUCT_MEM)"
  proof (rule mem_live_eqI [OF rep rep' ram new])
    fix q sz
    show "((mem_live h)(p \<mapsto> e' - s - SIZEOF_STRUCT_MEM)) q = Some sz \<longleftrightarrow>
      (\<exists>s' f. ((s', f, True) \<in> set ?bs \<or> s' = s \<and> f = e') \<and> q = ram h + s' + SIZEOF_STRUCT_MEM
         \<and> sz = f - s' - SIZEOF_STRUCT_MEM)"
      using mem_live_iff [OF ok, of q sz] s_free p by auto
  qed
  then show ?thesis
    using heap_rep_ok [OF rep'] ram fresh k by blast
qed

lemma mem_live_disjoint:
  assumes "mem_ok h"
  shows "alloc_regions_disjoint (\<lambda>k. k) (mem_live h)"
  unfolding alloc_regions_disjoint_def
proof (intro allI impI)
  fix p q a b
  assume "mem_live h p = Some a" "mem_live h q = Some b" "p \<noteq> q"
  then obtain s e s' e' where
    "(s, e, True) \<in> set (heap_blocks h)" "p = ram h + s + SIZEOF_STRUCT_MEM" "a = e - s - SIZEOF_STRUCT_MEM"
    "(s', e', True) \<in> set (heap_blocks h)" "q = ram h + s' + SIZEOF_STRUCT_MEM" "b = e' - s' - SIZEOF_STRUCT_MEM"
    using mem_live_iff [OF assms] by auto
  moreover obtain pv where "mem_seg (structs h) 0 0 (heap_blocks h) pv MEM_SIZE_ALIGNED"
    using assms by (auto simp: mem_ok_def heap_rep_def)
  ultimately show "p + a \<le> q \<or> q + b \<le> p"
    using mem_seg_sorted [of "structs h" 0 0 "heap_blocks h" pv MEM_SIZE_ALIGNED s e True s' e' True]
      mem_ok_bounds [OF assms] \<open>p \<noteq> q\<close> by fastforce
qed

lemma mem_free_live:
  assumes ok: "mem_ok h" and l: "mem_live h p = Some k"
  shows "\<exists>h'. mem_free h p = Some h' \<and> mem_ok h' \<and> ram h' = ram h \<and> mem_live h' = (mem_live h)(p := None)"
proof -
  have rep: "heap_rep h (heap_blocks h)" using ok by (simp add: mem_ok_def)
  obtain s e where b: "(s, e, True) \<in> set (heap_blocks h)" "p = ram h + s + SIZEOF_STRUCT_MEM"
    using l mem_live_iff [OF ok] by auto
  obtain h' where h': "mem_free h p = Some h'" "ram h' = ram h"
    and rep': "heap_rep h' (merge_free (mark_free s (heap_blocks h)))"
    using mem_free_rep [OF rep b(1)] b(2) by auto
  have "mem_live h' = (mem_live h)(p := None)"
  proof (rule mem_live_eqI [OF rep rep' h'(2)])
    fix q sz
    show "((mem_live h)(p := None)) q = Some sz \<longleftrightarrow> (\<exists>s' f. ((s', f, True) \<in> set (heap_blocks h) \<and> s' \<noteq> s)
       \<and> q = ram h + s' + SIZEOF_STRUCT_MEM \<and> sz = f - s' - SIZEOF_STRUCT_MEM)"
      using mem_live_iff [OF ok, of q sz] b(2) by auto
  qed (simp add: used_merge_free used_mark_free)
  then show ?thesis
    using h' heap_rep_ok [OF rep'] by blast
qed

interpretation heap: allocator mem_ok mem_live "\<lambda>k. k" "\<lambda>n. 0 < n \<and> n < 65536" "\<lambda>n. n" mem_malloc
  "\<lambda>h k. mem_free h"
proof
  fix h n
  assume "mem_ok h" "0 < n \<and> n < (65536 :: nat)"
  then show "\<exists>p h'. mem_malloc h n = Some (p, h')"
    using mem_malloc_None [of h "heap_blocks h" n] mem_malloc_Some [of h "heap_blocks h" n]
    by (cases "find_fit (request n) (heap_blocks h)") (auto simp: mem_ok_def)
next
  fix h n h'
  assume "mem_ok h" "0 < n \<and> n < (65536 :: nat)" "mem_malloc h n = Some (NULL, h')"
  then show "h' = h" using mem_malloc_null by blast
next
  fix h n p h'
  assume "mem_ok h" "0 < n \<and> n < (65536 :: nat)" "mem_malloc h n = Some (p, h')" "p \<noteq> NULL"
  then show "mem_live h p = None \<and> mem_ok h' \<and> (\<exists>k. n \<le> k \<and> mem_live h' = (mem_live h)(p \<mapsto> k))"
    using mem_malloc_live [of h n p h'] by (auto simp: request_def)
next
  fix h
  assume ok: "mem_ok h"
  show "alloc_regions_disjoint (\<lambda>k. k) (mem_live h)" by (rule mem_live_disjoint [OF ok])
  show "mem_live h NULL = None"
    using mem_live_iff [OF ok, of NULL] by (auto simp: lwip_simps intro: option.exhaust)
next
  fix h p k
  assume "mem_ok h" "mem_live h p = Some k"
  then show "\<exists>h'. mem_free h p = Some h' \<and> mem_ok h' \<and> mem_live h' = (mem_live h)(p := None)"
    using mem_free_live by blast
qed


lemmas mem_eval = mem_malloc_def mem_init_def mem_sizes mem_search.simps lfree_advance.simps
  mem_take_def set_next_def set_used_def set_prev_def Let_def

lemma mem_malloc_example: "\<exists>h'. mem_malloc (mem_init 1000) 100 = Some (1006, h')"
  by (simp add: mem_eval)

lemma mem_live_example:
  "\<exists>h' k. mem_malloc (mem_init 1000) 100 = Some (1006, h') \<and> mem_ok h' \<and> mem_live h' 1006 = Some k \<and> 100 \<le> k"
proof -
  obtain h' where "mem_malloc (mem_init 1000) 100 = Some (1006, h')"
    using mem_malloc_example by blast
  then show ?thesis
    using mem_malloc_live [OF mem_ok_init [of 1000], of 100 1006 h'] by (auto simp: request_def)
qed

lemma shrink_tail_form:
  assumes "n \<le> e - s - SIZEOF_STRUCT_MEM" and "s + SIZEOF_STRUCT_MEM \<le> e"
  shows "\<exists>e' zs. s + SIZEOF_STRUCT_MEM + n \<le> e' \<and> e' \<le> e \<and> shrink_tail n s e ys = (s, e', True) # zs
    \<and> (\<forall>s' f. (s', f, True) \<in> set zs \<longleftrightarrow> (s', f, True) \<in> set ys)"
proof (cases ys)
  case Nil
  then show ?thesis using assms by (auto simp: shrink_tail_def)
next
  case (Cons b bs)
  then show ?thesis
    using assms by (cases b; cases "snd (snd b)") (auto simp: shrink_tail_def)
qed

text \<open>A heap with a free block of 100 bytes below a used and a large free one.\<close>

definition example_heap :: heap where
  "example_heap = \<lparr>ram = 1000,
     structs = [0 \<mapsto> \<lparr>mem_next = 106, mem_prev = 0, mem_used = False\<rparr>,
                106 \<mapsto> \<lparr>mem_next = 132, mem_prev = 0, mem_used = True\<rparr>,
                132 \<mapsto> \<lparr>mem_next = 16000, mem_prev = 106, mem_used = False\<rparr>,
                16000 \<mapsto> \<lparr>mem_next = 16000, mem_prev = 16000, mem_used = True\<rparr>],
     lfree = 0\<rparr>"

lemma example_heap_rep: "heap_rep example_heap [(0, 106, False), (106, 132, True), (132, 16000, False)]"
  by (simp add: heap_rep_def example_heap_def end_ok_def lwip_simps)

lemma example_heap_malloc: "\<exists>h'. mem_malloc example_heap 200 = Some (1138, h')"
  by (simp add: mem_eval example_heap_def)

lemma mem_realloc_live:
  assumes ok: "mem_ok h" and l: "mem_live h p = Some k" and n: "n \<le> k"
  shows "\<exists>h' k'. mem_realloc h p n = Some (p, h') \<and> mem_ok h' \<and> ram h' = ram h \<and> n \<le> k' \<and> k' \<le> k
    \<and> mem_live h' = (mem_live h)(p \<mapsto> k')"
proof -
  let ?bs = "heap_blocks h"
  have rep: "heap_rep h ?bs" using ok by (simp add: mem_ok_def)
  obtain s e where b: "(s, e, True) \<in> set ?bs" "p = ram h + s + SIZEOF_STRUCT_MEM" "k = e - s - SIZEOF_STRUCT_MEM"
    using l mem_live_iff [OF ok] by auto
  have r: "request n \<le> e - s - SIZEOF_STRUCT_MEM"
    using n b(3) mem_ok_bounds [OF ok b(1)] by (auto simp: request_def lwip_simps)
  obtain h' where h': "mem_realloc h p n = Some (p, h')" "ram h' = ram h"
    and rep': "heap_rep h' (shrink_blocks (request n) s ?bs)"
    using mem_realloc_rep [OF rep b(1) r] b(2) by auto
  obtain pv where seg: "mem_seg (structs h) 0 0 ?bs pv MEM_SIZE_ALIGNED"
    using rep by (auto simp: heap_rep_def)
  obtain xs ys where bs: "?bs = xs @ (s, e, True) # ys"
    using b(1) by (meson split_list)
  have uniq: "(s, f, u) \<in> set ?bs \<Longrightarrow> f = e \<and> u" for f u
    using mem_seg_sorted [OF seg b(1), of s f u] mem_seg_bounds [OF seg] b(1) by (fastforce simp: lwip_simps)
  have xs: "\<forall>(s', e', u') \<in> set xs. s' \<noteq> s"
    using seg mem_seg_bounds by (fastforce simp: bs mem_seg_append lwip_simps)
  obtain e' where e': "s + SIZEOF_STRUCT_MEM + request n \<le> e'" "e' \<le> e" and
    new: "\<And>s' f. (s', f, True) \<in> set (shrink_blocks (request n) s ?bs) \<longleftrightarrow>
      (s', f, True) \<in> set ?bs \<and> s' \<noteq> s \<or> s' = s \<and> f = e'"
  proof -
    have ys: "\<forall>(s', e', u') \<in> set ys. s' \<noteq> s"
      using seg mem_seg_bounds by (fastforce simp: bs mem_seg_append lwip_simps)
    have "s + SIZEOF_STRUCT_MEM \<le> e"
      using mem_ok_bounds [OF ok b(1)] by simp
    then obtain e' zs where "s + SIZEOF_STRUCT_MEM + request n \<le> e'" "e' \<le> e"
      "shrink_tail (request n) s e ys = (s, e', True) # zs" "\<forall>s' f. (s', f, True) \<in> set zs \<longleftrightarrow> (s', f, True) \<in> set ys"
      using shrink_tail_form [OF r] by metis
    then show ?thesis
      using xs ys by (intro that [of e']) (auto simp: bs shrink_blocks_append)
  qed
  have "mem_live h' = (mem_live h)(p \<mapsto> e' - s - SIZEOF_STRUCT_MEM)"
  proof (rule mem_live_eqI [OF rep rep' h'(2) new])
    fix q sz
    show "((mem_live h)(p \<mapsto> e' - s - SIZEOF_STRUCT_MEM)) q = Some sz \<longleftrightarrow>
      (\<exists>s' f. ((s', f, True) \<in> set ?bs \<and> s' \<noteq> s \<or> s' = s \<and> f = e') \<and> q = ram h + s' + SIZEOF_STRUCT_MEM
         \<and> sz = f - s' - SIZEOF_STRUCT_MEM)"
      using mem_live_iff [OF ok, of q sz] b(2) by auto
  qed
  moreover have "n \<le> e' - s - SIZEOF_STRUCT_MEM" "e' - s - SIZEOF_STRUCT_MEM \<le> k"
    using e' b(3) by (auto simp: request_def)
  ultimately show ?thesis
    using h' heap_rep_ok [OF rep'] by blast
qed

section \<open>Properties\<close>

text \<open>
  Claim C1. \<open>mem_malloc\<close> never aborts on a well-formed heap: it returns either \<open>NULL\<close>, with the
  heap unchanged and only when every free block is too small, or the address of a block that
  was not live, lies inside the array, has room for the request and overlaps no live block;
  the live blocks change by exactly this block and the heap stays well formed.
\<close>

theorem mem_malloc_correct:
  assumes "mem_ok h" and "0 < n" and "n < 65536"
  shows "\<exists>p h'. mem_malloc h n = Some (p, h') \<and> mem_ok h' \<and>
    (if p = NULL
     then h' = h \<and> list_all (\<lambda>(s, e, u). u \<or> e - (s + SIZEOF_STRUCT_MEM) < max MIN_SIZE_ALIGNED n) (heap_blocks h)
     else mem_live h p = None \<and> ram h < p \<and>
       (\<exists>k. n \<le> k \<and> p + k \<le> ram h + MEM_SIZE_ALIGNED \<and> mem_live h' = (mem_live h)(p \<mapsto> k)
         \<and> (\<forall>q k'. mem_live h q = Some k' \<longrightarrow> p + k \<le> q \<or> q + k' \<le> p)))"
proof -
  have n: "0 < n \<and> n < 65536" using assms by simp
  obtain p h' where m: "mem_malloc h n = Some (p, h')"
    using heap.alloc_total [OF assms(1) n] by blast
  show ?thesis
  proof (cases "p = NULL")
    case True
    then show ?thesis
      using mem_malloc_null [OF assms] m assms(1)
      by (auto simp: find_fit_None_iff request_def list_all_iff)
  next
    case False
    obtain k where l: "mem_ok h'" "ram h' = ram h" "mem_live h p = None" "request n \<le> k"
        "mem_live h' = (mem_live h)(p \<mapsto> k)"
      using mem_malloc_live [OF assms m False] by blast
    then have "mem_live h' p = Some k" by simp
    then have "ram h < p \<and> p + k \<le> ram h + MEM_SIZE_ALIGNED"
      using mem_live_iff [OF l(1)] mem_ok_bounds [OF l(1)] l(2) by (fastforce simp: lwip_simps)
    moreover have "p + k \<le> q \<or> q + k' \<le> p" if "mem_live h q = Some k'" for q k'
      using mem_live_disjoint [OF l(1)] that l(3,5) unfolding alloc_regions_disjoint_def
      by (metis fun_upd_def option.distinct(1))
    ultimately show ?thesis
      using False l m by (auto simp: request_def)
  qed
qed

theorem mem_malloc_correct_witness:
  "\<exists>p h'. mem_malloc (mem_init 1000) 100 = Some (p, h') \<and> mem_ok h'"
  using mem_malloc_correct [OF mem_ok_init [of 1000], of 100] by auto

text \<open>
  \<open>mem_malloc\<close> is first fit: every free block below the one it returns is too small
  for the request. (The search starts at \<open>lfree\<close>, not at the start of the array.)
\<close>

theorem mem_malloc_first_fit:
  assumes "mem_ok h" and "0 < n" and "n < 65536" and "mem_malloc h n = Some (p, h')" and "p \<noteq> NULL"
    and "(s, e, False) \<in> set (heap_blocks h)" and "ram h + s + SIZEOF_STRUCT_MEM < p"
  shows "e - (s + SIZEOF_STRUCT_MEM) < max MIN_SIZE_ALIGNED n"
proof -
  have rep: "heap_rep h (heap_blocks h)" using assms(1) by (simp add: mem_ok_def)
  then obtain pv where seg: "mem_seg (structs h) 0 0 (heap_blocks h) pv MEM_SIZE_ALIGNED"
    by (auto simp: heap_rep_def)
  obtain s' where fit: "find_fit (request n) (heap_blocks h) = Some s'"
    using mem_malloc_None [OF rep assms(2,3)] assms(4,5) by (cases "find_fit (request n) (heap_blocks h)") auto
  then have p: "p = ram h + s' + SIZEOF_STRUCT_MEM"
    using mem_malloc_Some [OF rep assms(2,3) fit] assms(4) by auto
  obtain xs e' ys where bs: "heap_blocks h = xs @ (s', e', False) # ys"
    and small: "\<forall>(s, e, u) \<in> set xs. u \<or> e - (s + SIZEOF_STRUCT_MEM) < request n"
    using find_fit_Some [OF fit] by metis
  have "s' \<le> t" if "(t, f, u) \<in> set ys" for t f u
    using seg mem_seg_bounds that by (fastforce simp: bs mem_seg_append)
  then have "(s, e, False) \<in> set xs"
    using assms(6,7) p by (fastforce simp: bs)
  then show ?thesis
    using small by (auto simp: request_def)
qed

theorem mem_malloc_first_fit_witness:
  "(0, 106, False) \<in> set (heap_blocks example_heap) \<and> 106 - (0 + SIZEOF_STRUCT_MEM) < max MIN_SIZE_ALIGNED 200"
proof -
  have b: "(0, 106, False) \<in> set (heap_blocks example_heap)"
    by (simp add: heap_blocks_eq [OF example_heap_rep])
  obtain h' where m: "mem_malloc example_heap 200 = Some (1138, h')"
    using example_heap_malloc by blast
  show ?thesis
    using mem_malloc_first_fit [OF heap_rep_ok [OF example_heap_rep] _ _ m _ b] b
    by (simp add: example_heap_def lwip_simps)
qed



text \<open>
  Claim C30. \<open>mem_realloc\<close> to a size that does not exceed the block's never aborts, keeps the
  block in place with at least the new size and at most the old one, and leaves every other
  live block alone.
\<close>

theorem mem_realloc_correct:
  assumes "mem_ok h" and "mem_live h p = Some k" and "n \<le> k"
  shows "\<exists>h' k'. mem_realloc h p n = Some (p, h') \<and> mem_ok h' \<and> n \<le> k' \<and> k' \<le> k
    \<and> mem_live h' = (mem_live h)(p \<mapsto> k')"
  using mem_realloc_live [OF assms] by blast

theorem mem_realloc_correct_witness:
  "\<exists>h p h'. mem_malloc (mem_init 1000) 100 = Some (p, h) \<and> mem_realloc h p 40 = Some (p, h')"
proof -
  obtain h k where h: "mem_malloc (mem_init 1000) 100 = Some (1006, h)" "mem_ok h" "mem_live h 1006 = Some k" "100 \<le> k"
    using mem_live_example by blast
  then show ?thesis
    using mem_realloc_correct [OF h(2,3), of 40] by force
qed

text \<open>
  Claim C29. From \<open>mem_init\<close>, no sequence of allocations (of 1 to 65535 bytes) and releases of
  live blocks ever aborts, and the heap is well formed at its end.
\<close>

theorem mem_run_safe:
  "\<forall>n. Alloc n \<in> set ops \<longrightarrow> 0 < n \<and> n < 65536 \<Longrightarrow>
     \<exists>h. heap.run (mem_init base) ops = Some h \<and> mem_ok h"
  using heap.run_safe [OF mem_ok_init [of base]] by blast

theorem mem_run_safe_witness:
  "\<exists>h. heap.run (mem_init 1000) [Alloc 100, Alloc 20, Release 1006, Alloc 12] = Some h \<and> mem_ok h"
  by (rule mem_run_safe) auto

text \<open>
  No memory is lost: when no block is live, the heap is one free block that spans the
  whole array, whatever allocations and releases led there.
\<close>

theorem mem_no_leak:
  assumes "mem_ok h" and "mem_live h = Map.empty"
  shows "heap_blocks h = [(0, MEM_SIZE_ALIGNED, False)]"
proof -
  obtain pv where seg: "mem_seg (structs h) 0 0 (heap_blocks h) pv MEM_SIZE_ALIGNED"
    and naf: "no_adjacent_free (heap_blocks h)"
    using assms(1) by (auto simp: mem_ok_def heap_rep_def)
  have nu: "(s, e, True) \<notin> set (heap_blocks h)" for s e
    using mem_live_iff [OF assms(1)] assms(2) by (metis option.distinct(1))
  obtain s e u bs where b: "heap_blocks h = (s, e, u) # bs"
    using seg by (cases "heap_blocks h") (auto simp: lwip_simps)
  have "bs = []"
    using naf nu unfolding b by (cases bs) fastforce+
  then show ?thesis
    using seg nu [of s e] unfolding b by auto
qed

theorem mem_no_leak_witness:
  "\<exists>p h h'. mem_malloc (mem_init 1000) 100 = Some (p, h) \<and> mem_free h p = Some h'
     \<and> heap_blocks h' = [(0, MEM_SIZE_ALIGNED, False)]"
proof -
  obtain h k where h: "mem_malloc (mem_init 1000) 100 = Some (1006, h)" "mem_ok h" "mem_live h 1006 = Some k"
    using mem_live_example by blast
  obtain h' where h': "mem_free h 1006 = Some h'" "mem_ok h'" "mem_live h' = (mem_live h)(1006 := None)"
    using mem_free_live [OF h(2,3)] by blast
  have "mem_live (mem_init 1000) = Map.empty"
    using heap_blocks_eq [of "mem_init 1000" "[(0, MEM_SIZE_ALIGNED, False)]"]
    by (simp add: mem_live_def heap_rep_def mem_init_def end_ok_def lwip_simps)
  then have "mem_live h' = Map.empty"
    using h' mem_malloc_live [OF mem_ok_init _ _ h(1)] h(3) by (auto simp: fun_eq_iff)
  then show ?thesis
    using h(1) h' mem_no_leak [OF h'(2)] by blast
qed


end
