(* ===== verification/Memp.thy ===== *)
theory Memp
  imports Allocator
begin

text \<open>
  The fixed-size pools of \<^verbatim>\<open>lwip/src/core/memp.c\<close> (built when \<open>MEMP_MEM_MALLOC\<close> and
  \<open>MEMP_OVERFLOW_CHECK\<close> are 0, so that \<open>MEMP_SIZE\<close> is 0): one array carved into elements, and per
  pool a linked list of the free ones.

  State. \<open>memp_tab\<close> is the head of each pool's free list; \<open>memp_next\<close> is the field \<open>next\<close> of the
  \<open>struct memp\<close> that overlays a free element. Once an element is handed out its memory belongs to
  the client, so the entry disappears: following it would be a use of a stale pointer.

  The pools are those of \<^verbatim>\<open>lwip/memp_std.h\<close> under \<^verbatim>\<open>lib_test/lwipopts.h\<close>. The element sizes are
  \<open>sizeof\<close> of C structures, a property of the compiler's ABI: they are the parameter \<open>sizes\<close>. The
  address of \<open>memp_memory\<close> is the parameter \<open>base\<close>.

  The theory shows that the pools implement the allocator contract: elements never overlap,
  not even across pools, and every element is either live or in the free list of its own pool.
\<close>

section \<open>Pools\<close>

datatype memp_t = MEMP_UDP_PCB | MEMP_TCP_PCB | MEMP_TCP_PCB_LISTEN | MEMP_TCP_SEG | MEMP_REASSDATA
  | MEMP_ARP_QUEUE | MEMP_PBUF | MEMP_PBUF_POOL | MEMP_MAX

fun memp_num :: "memp_t \<Rightarrow> nat" where
  "memp_num MEMP_UDP_PCB = 4"
| "memp_num MEMP_TCP_PCB = 2"
| "memp_num MEMP_TCP_PCB_LISTEN = 8"
| "memp_num MEMP_TCP_SEG = 16"
| "memp_num MEMP_REASSDATA = 5"
| "memp_num MEMP_ARP_QUEUE = 2"
| "memp_num MEMP_PBUF = 30"
| "memp_num MEMP_PBUF_POOL = 32"
| "memp_num MEMP_MAX = 0"

definition memp_pools :: "memp_t list" where
  "memp_pools = [MEMP_UDP_PCB, MEMP_TCP_PCB, MEMP_TCP_PCB_LISTEN, MEMP_TCP_SEG, MEMP_REASSDATA,
     MEMP_ARP_QUEUE, MEMP_PBUF, MEMP_PBUF_POOL]"

lemma set_memp_pools: "t \<in> set memp_pools \<longleftrightarrow> t \<noteq> MEMP_MAX"
  by (cases t) (simp_all add: memp_pools_def)

lemma distinct_memp_pools: "distinct memp_pools"
  by (simp add: memp_pools_def)

record memp_state =
  memp_tab :: "memp_t \<Rightarrow> addr"
  memp_next :: "addr \<rightharpoonup> addr"

section \<open>Operations\<close>

definition memp_push :: "memp_t \<Rightarrow> addr \<Rightarrow> memp_state \<Rightarrow> memp_state" where
  "memp_push t p m = m\<lparr>memp_tab := (memp_tab m)(t := p), memp_next := (memp_next m)(p \<mapsto> memp_tab m t)\<rparr>"

text \<open>The inner loop of \<open>memp_init\<close>: it pushes \<open>n\<close> elements and returns the next address.\<close>

fun memp_carve :: "nat \<Rightarrow> memp_t \<Rightarrow> nat \<Rightarrow> addr \<Rightarrow> memp_state \<Rightarrow> addr \<times> memp_state" where
  "memp_carve sz t 0 p m = (p, m)"
| "memp_carve sz t (Suc n) p m = memp_carve sz t n (p + sz) (memp_push t p m)"

fun memp_init_pools :: "(memp_t \<Rightarrow> nat) \<Rightarrow> memp_t list \<Rightarrow> addr \<Rightarrow> memp_state \<Rightarrow> memp_state" where
  "memp_init_pools sizes [] p m = m"
| "memp_init_pools sizes (t # ts) p m =
     (let (p', m') = memp_carve (sizes t) t (memp_num t) p (m\<lparr>memp_tab := (memp_tab m)(t := NULL)\<rparr>)
      in memp_init_pools sizes ts p' m')"

definition memp_init :: "(memp_t \<Rightarrow> nat) \<Rightarrow> addr \<Rightarrow> memp_state" where
  "memp_init sizes base =
     memp_init_pools sizes memp_pools base \<lparr>memp_tab = (\<lambda>_. NULL), memp_next = Map.empty\<rparr>"

definition memp_malloc :: "memp_state \<Rightarrow> memp_t \<Rightarrow> (addr \<times> memp_state) option" where
  "memp_malloc m t = do {
     lwip_assert (t \<noteq> MEMP_MAX);
     let p = memp_tab m t;
     if p \<noteq> NULL then do {
       n \<leftarrow> memp_next m p;
       Some (p, m\<lparr>memp_tab := (memp_tab m)(t := n), memp_next := (memp_next m)(p := None)\<rparr>)
     } else Some (NULL, m)
   }"

definition memp_free :: "memp_state \<Rightarrow> memp_t \<Rightarrow> addr \<Rightarrow> memp_state option" where
  "memp_free m t p = (if p = NULL then Some m
     else if t = MEMP_MAX then None
     else Some (memp_push t p m))"

text \<open>
  \<open>memp_sanity\<close>, the check built under \<open>MEMP_SANITY_CHECK\<close>. Its loops walk lists that may be
  cyclic, so they are partial functions: \<open>None\<close> is a walk that does not end or that follows a
  stale pointer.
\<close>

partial_function (option) sanity_inner :: "(addr \<rightharpoonup> addr) \<Rightarrow> addr \<Rightarrow> addr \<Rightarrow> int \<Rightarrow> bool option" where
  "sanity_inner nx m n c =
     (if n = NULL then Some True
      else if n = m \<and> c - 1 < 0 then Some False
      else Option.bind (nx n) (\<lambda>n'. sanity_inner nx m n' (if n = m then c - 1 else c)))"

partial_function (option) sanity_outer :: "(addr \<rightharpoonup> addr) \<Rightarrow> addr \<Rightarrow> addr \<Rightarrow> bool option" where
  "sanity_outer nx tab m =
     (if m = NULL then Some True
      else Option.bind (sanity_inner nx m tab 1)
        (\<lambda>ok. if ok then Option.bind (nx m) (\<lambda>m'. sanity_outer nx tab m') else Some False))"

declare sanity_inner.simps [code] sanity_outer.simps [code]

fun sanity_pools :: "memp_state \<Rightarrow> memp_t list \<Rightarrow> bool option" where
  "sanity_pools m [] = Some True"
| "sanity_pools m (t # ts) =
     Option.bind (sanity_outer (memp_next m) (memp_tab m t) (memp_tab m t))
       (\<lambda>ok. if ok then sanity_pools m ts else Some False)"

definition memp_sanity :: "memp_state \<Rightarrow> bool option" where
  "memp_sanity m = sanity_pools m memp_pools"

section \<open>Layout and invariant\<close>

text \<open>The elements that \<open>memp_init\<close> carves out of the array, with their pools.\<close>

fun memp_layout :: "(memp_t \<Rightarrow> nat) \<Rightarrow> memp_t list \<Rightarrow> addr \<Rightarrow> (addr \<times> memp_t) list" where
  "memp_layout sizes [] p = []"
| "memp_layout sizes (t # ts) p =
     map (\<lambda>j. (p + j * sizes t, t)) [0..<memp_num t] @ memp_layout sizes ts (p + memp_num t * sizes t)"

definition memp_slots :: "(memp_t \<Rightarrow> nat) \<Rightarrow> addr \<Rightarrow> (addr \<times> memp_t) list" where
  "memp_slots sizes base = memp_layout sizes memp_pools base"

fun memp_list :: "(addr \<rightharpoonup> addr) \<Rightarrow> addr \<Rightarrow> addr list \<Rightarrow> bool" where
  "memp_list nx a [] \<longleftrightarrow> a = NULL"
| "memp_list nx a (x # xs) \<longleftrightarrow> a = x \<and> x \<noteq> NULL \<and> (case nx x of None \<Rightarrow> False | Some n \<Rightarrow> memp_list nx n xs)"

fun memp_walk :: "(addr \<rightharpoonup> addr) \<Rightarrow> nat \<Rightarrow> addr \<Rightarrow> addr list" where
  "memp_walk nx 0 a = []"
| "memp_walk nx (Suc k) a = (if a = NULL then [] else a # (case nx a of None \<Rightarrow> [] | Some n \<Rightarrow> memp_walk nx k n))"

text \<open>The free elements of a pool; a list longer than the pool would be cyclic.\<close>

definition memp_frees :: "memp_state \<Rightarrow> memp_t \<Rightarrow> addr list" where
  "memp_frees m t = memp_walk (memp_next m) (memp_num t) (memp_tab m t)"

definition pool_ok :: "(memp_t \<Rightarrow> nat) \<Rightarrow> addr \<Rightarrow> memp_state \<Rightarrow> memp_t \<Rightarrow> bool" where
  "pool_ok sizes base m t \<longleftrightarrow> memp_list (memp_next m) (memp_tab m t) (memp_frees m t)
     \<and> distinct (memp_frees m t)
     \<and> list_all (\<lambda>p. (p, t) \<in> set (memp_slots sizes base)) (memp_frees m t)"

definition memp_ok :: "(memp_t \<Rightarrow> nat) \<Rightarrow> addr \<Rightarrow> memp_state \<Rightarrow> bool" where
  "memp_ok sizes base m \<longleftrightarrow> 0 < base \<and> list_all (\<lambda>t. 0 < sizes t \<and> pool_ok sizes base m t) memp_pools"

definition memp_live :: "(memp_t \<Rightarrow> nat) \<Rightarrow> addr \<Rightarrow> memp_state \<Rightarrow> (addr \<rightharpoonup> memp_t)" where
  "memp_live sizes base m p = (case map_of (memp_slots sizes base) p of None \<Rightarrow> None
     | Some t \<Rightarrow> if p \<in> set (memp_frees m t) then None else Some t)"

section \<open>The layout\<close>

lemma memp_layout_bounds:
  "(q, u) \<in> set (memp_layout sizes ts p) \<Longrightarrow>
     p \<le> q \<and> u \<in> set ts \<and> q + sizes u \<le> p + (\<Sum>t\<leftarrow>ts. memp_num t * sizes t)"
proof (induction ts arbitrary: p)
  case (Cons t ts)
  consider j where "j < memp_num t" "q = p + j * sizes t" "u = t"
    | "(q, u) \<in> set (memp_layout sizes ts (p + memp_num t * sizes t))"
    using Cons.prems by auto
  then show ?case
  proof cases
    case 1
    then have "j * sizes t + sizes t \<le> memp_num t * sizes t"
      using mult_le_mono1 [of "Suc j" "memp_num t" "sizes t"] by simp
    then show ?thesis using 1 by simp
  qed (use Cons.IH in fastforce)
qed simp

lemma sorted_memp_layout:
  "sorted_wrt (\<lambda>(p, t) (q, u). p + sizes t \<le> q) (memp_layout sizes ts p)"
proof (induction ts arbitrary: p)
  case (Cons t ts)
  have "sorted_wrt (\<lambda>(p, t) (q, u). p + sizes t \<le> q) (map (\<lambda>j. (p + j * sizes t, t)) [0..<memp_num t])"
  proof -
    have "p + i * sizes t + sizes t \<le> p + j * sizes t" if "i < j" for i j
      using mult_le_mono1 [of "Suc i" j "sizes t"] that by simp
    then show ?thesis by (simp add: sorted_wrt_iff_nth_less)
  qed
  moreover have "p + j * sizes t + sizes t \<le> q"
    if "j < memp_num t" "(q, u) \<in> set (memp_layout sizes ts (p + memp_num t * sizes t))" for j q u
    using memp_layout_bounds [OF that(2)] mult_le_mono1 [of "Suc j" "memp_num t" "sizes t"] that(1) by simp
  ultimately show ?case using Cons.IH by (auto simp: sorted_wrt_append)
qed simp

lemma memp_slots_disjoint:
  assumes "(p, t) \<in> set (memp_slots sizes base)" and "(q, u) \<in> set (memp_slots sizes base)"
    and "(p, t) \<noteq> (q, u)"
  shows "p + sizes t \<le> q \<or> q + sizes u \<le> p"
proof -
  let ?xs = "memp_slots sizes base"
  obtain i j where ij: "i < length ?xs" "?xs ! i = (p, t)" "j < length ?xs" "?xs ! j = (q, u)"
    using assms(1,2) by (metis in_set_conv_nth)
  then have "i \<noteq> j" using assms(3) by auto
  then show ?thesis
    using sorted_wrt_nth_less [OF sorted_memp_layout [of sizes memp_pools base]] ij
    unfolding memp_slots_def [symmetric] by (metis (no_types, lifting) case_prod_conv linorder_neqE_nat)
qed

lemma memp_slot_type:
  assumes "(p, t) \<in> set (memp_slots sizes base)" and "(p, u) \<in> set (memp_slots sizes base)"
    and "0 < sizes t" and "0 < sizes u"
  shows "t = u"
  using memp_slots_disjoint [OF assms(1,2)] assms(3,4) by fastforce

lemma memp_slot_bounds:
  assumes "(p, t) \<in> set (memp_slots sizes base)"
  shows "base \<le> p" and "t \<noteq> MEMP_MAX"
  using memp_layout_bounds assms set_memp_pools unfolding memp_slots_def by blast+

lemma length_slots_of: "length (filter (\<lambda>(p, u). u = t) (memp_slots sizes base)) = memp_num t"
proof -
  have "length (filter (\<lambda>(p, u). u = t) (memp_layout sizes ts a)) = (if t \<in> set ts then memp_num t else 0)"
    if "distinct ts" for ts a
    using that
  proof (induction ts arbitrary: a)
    case (Cons x ts)
    have "length (filter (\<lambda>(p, u). u = t) (map (\<lambda>j. (a + j * sizes x, x)) [0..<memp_num x]))
        = (if x = t then memp_num t else 0)"
      by (auto simp: filter_map comp_def)
    then show ?case using Cons by auto
  qed simp
  from this [OF distinct_memp_pools, of base] show ?thesis
    unfolding memp_slots_def by (cases t) (simp_all add: set_memp_pools)
qed

section \<open>Free lists\<close>

lemma memp_walk_list: "memp_list nx a xs \<Longrightarrow> length xs \<le> k \<Longrightarrow> memp_walk nx k a = xs"
proof (induction xs arbitrary: a k)
  case Nil
  then show ?case by (cases k) simp_all
next
  case (Cons x xs)
  then show ?case by (cases k) (auto split: option.splits)
qed

lemma memp_list_upd: "y \<notin> set xs \<Longrightarrow> memp_list (nx(y := v)) a xs = memp_list nx a xs"
  by (induction xs arbitrary: a) (auto split: option.splits)

lemma slots_length:
  assumes "distinct fs" and "list_all (\<lambda>p. (p, t) \<in> set (memp_slots sizes base)) fs"
  shows "length fs \<le> memp_num t"
proof -
  have "set fs \<subseteq> set (map fst (filter (\<lambda>(p, u). u = t) (memp_slots sizes base)))"
    using assms(2) by (force simp: list_all_iff)
  then have "length fs \<le> length (map fst (filter (\<lambda>(p, u). u = t) (memp_slots sizes base)))"
    using assms(1) by (metis List.finite_set card_length card_mono distinct_card order_trans)
  then show ?thesis by (simp add: length_slots_of)
qed

text \<open>The free list is determined by any list the heads and links describe.\<close>

lemma memp_frees_eq:
  assumes "memp_list (memp_next m) (memp_tab m t) fs" and "distinct fs"
    and "list_all (\<lambda>p. (p, t) \<in> set (memp_slots sizes base)) fs"
  shows "memp_frees m t = fs" and "pool_ok sizes base m t"
  using memp_walk_list [OF assms(1) slots_length [OF assms(2,3)]] assms
  by (simp_all add: memp_frees_def pool_ok_def)

lemma memp_okD:
  assumes "memp_ok sizes base m" and "t \<noteq> MEMP_MAX"
  shows "0 < sizes t" and "pool_ok sizes base m t"
  using assms set_memp_pools by (auto simp: memp_ok_def list_all_iff)

lemma memp_okI:
  assumes "0 < base" and "\<And>t. t \<noteq> MEMP_MAX \<Longrightarrow> 0 < sizes t" and "\<And>t. t \<noteq> MEMP_MAX \<Longrightarrow> pool_ok sizes base m t"
  shows "memp_ok sizes base m"
  using assms set_memp_pools by (auto simp: memp_ok_def list_all_iff)

lemma memp_slots_map_of:
  assumes "memp_ok sizes base m"
  shows "map_of (memp_slots sizes base) p = Some t \<longleftrightarrow> (p, t) \<in> set (memp_slots sizes base)"
proof
  assume s: "(p, t) \<in> set (memp_slots sizes base)"
  then have "map_of (memp_slots sizes base) p \<noteq> None"
    by (metis weak_map_of_SomeI option.distinct(1))
  then obtain u where u: "map_of (memp_slots sizes base) p = Some u" by blast
  have "t = u"
    using memp_slot_type [OF s map_of_SomeD [OF u]] memp_okD(1) [OF assms]
      memp_slot_bounds(2) [OF s] memp_slot_bounds(2) [OF map_of_SomeD [OF u]]
    by simp
  then show "map_of (memp_slots sizes base) p = Some t" using u by simp
qed (rule map_of_SomeD)

lemma memp_live_iff:
  assumes "memp_ok sizes base m"
  shows "memp_live sizes base m p = Some t \<longleftrightarrow> (p, t) \<in> set (memp_slots sizes base) \<and> p \<notin> set (memp_frees m t)"
  unfolding memp_live_def memp_slots_map_of [OF assms, symmetric] by (auto split: option.splits)

section \<open>Initialisation\<close>

lemma memp_push_simps [simp]:
  "memp_tab (memp_push t p m) = (memp_tab m)(t := p)"
  "memp_next (memp_push t p m) = (memp_next m)(p \<mapsto> memp_tab m t)"
  by (simp_all add: memp_push_def)

lemma memp_carve_addr: "fst (memp_carve sz t n p m) = p + n * sz"
  by (induction n arbitrary: p m) simp_all

lemma memp_carve_own:
  assumes "0 < sz" and "0 < p" and "memp_list (memp_next m) (memp_tab m t) fs" and "list_all (\<lambda>x. x < p) fs"
  shows "memp_list (memp_next (snd (memp_carve sz t n p m))) (memp_tab (snd (memp_carve sz t n p m)) t)
    (rev (map (\<lambda>j. p + j * sz) [0..<n]) @ fs)"
  using assms
proof (induction n arbitrary: p m fs)
  case (Suc n)
  have "p \<notin> set fs" using Suc.prems(4) by (auto simp: list_all_iff)
  then have "memp_list (memp_next (memp_push t p m)) (memp_tab (memp_push t p m) t) (p # fs)"
    using Suc.prems by (simp add: memp_list_upd)
  moreover have "list_all (\<lambda>x. x < p + sz) (p # fs)"
    using Suc.prems by (auto simp: list_all_iff)
  moreover have "map (\<lambda>j. p + j * sz) [0..<Suc n] = p # map (\<lambda>j. p + sz + j * sz) [0..<n]"
    by (simp add: upt_rec [of 0 "Suc n"] map_Suc_upt [symmetric] del: upt_Suc)
  ultimately show ?case
    using Suc.IH [OF Suc.prems(1) _, of "p + sz" "memp_push t p m" "p # fs"] Suc.prems(2)
    by (simp del: upt_Suc fun_upd_apply memp_list.simps(2) memp_push_simps)
qed simp

lemma memp_carve_other:
  assumes "u \<noteq> t" and "0 < sz" and "memp_list (memp_next m) (memp_tab m u) gs" and "list_all (\<lambda>x. x < p) gs"
  shows "memp_list (memp_next (snd (memp_carve sz t n p m))) (memp_tab (snd (memp_carve sz t n p m)) u) gs"
  using assms
proof (induction n arbitrary: p m)
  case (Suc n)
  have "p \<notin> set gs" using Suc.prems(4) by (auto simp: list_all_iff)
  then have "memp_list (memp_next (memp_push t p m)) (memp_tab (memp_push t p m) u) gs"
    using Suc.prems by (simp add: memp_list_upd)
  moreover have "list_all (\<lambda>x. x < p + sz) gs"
    using Suc.prems by (auto simp: list_all_iff)
  ultimately show ?case using Suc by simp
qed simp

definition layout_frees :: "(memp_t \<Rightarrow> nat) \<Rightarrow> memp_t list \<Rightarrow> addr \<Rightarrow> memp_t \<Rightarrow> addr list" where
  "layout_frees sizes ts p u = rev (map fst (filter (\<lambda>(q, t). t = u) (memp_layout sizes ts p)))"

lemma layout_frees_simps:
  "layout_frees sizes (t # ts) p u = layout_frees sizes ts (p + memp_num t * sizes t) u
     @ (if t = u then rev (map (\<lambda>j. p + j * sizes t) [0..<memp_num t]) else [])"
  "u \<notin> set ts \<Longrightarrow> layout_frees sizes ts p u = []"
  using memp_layout_bounds
  by (auto simp: layout_frees_def filter_map comp_def filter_empty_conv)

lemma memp_init_pools_list:
  assumes "distinct ts" and "0 < p" and "\<forall>t\<in>set ts. 0 < sizes t"
    and "\<And>u. u \<notin> set ts \<Longrightarrow> memp_list (memp_next m) (memp_tab m u) (gs u) \<and> list_all (\<lambda>x. x < p) (gs u)"
    and "\<And>u. u \<in> set ts \<Longrightarrow> gs u = []"
  shows "memp_list (memp_next (memp_init_pools sizes ts p m)) (memp_tab (memp_init_pools sizes ts p m) u)
    (layout_frees sizes ts p u @ gs u)"
  using assms
proof (induction ts arbitrary: p m gs)
  case Nil
  then show ?case by (simp add: layout_frees_simps)
next
  case (Cons t ts)
  let ?m = "m\<lparr>memp_tab := (memp_tab m)(t := NULL)\<rparr>"
  let ?m' = "snd (memp_carve (sizes t) t (memp_num t) p ?m)"
  let ?p' = "p + memp_num t * sizes t"
  let ?own = "rev (map (\<lambda>j. p + j * sizes t) [0..<memp_num t])"
  have pos: "0 < sizes t" using Cons.prems(3) by simp
  have "memp_list (memp_next ?m') (memp_tab ?m' t) (?own @ [])"
    using Cons.prems(2) by (intro memp_carve_own [OF pos]) simp_all
  moreover have "list_all (\<lambda>x. x < ?p') ?own"
    using pos by (auto simp: list_all_iff)
  moreover have "memp_list (memp_next ?m') (memp_tab ?m' v) (gs v) \<and> list_all (\<lambda>x. x < ?p') (gs v)"
    if "v \<notin> set (t # ts)" for v
    using that Cons.prems(4) [OF that] pos by (auto intro!: memp_carve_other simp: list_all_iff)
  ultimately have "memp_list (memp_next (memp_init_pools sizes ts ?p' ?m')) (memp_tab (memp_init_pools sizes ts ?p' ?m') u)
    (layout_frees sizes ts ?p' u @ (gs(t := ?own)) u)"
    using Cons.prems by (intro Cons.IH) auto
  moreover have "memp_init_pools sizes (t # ts) p m = memp_init_pools sizes ts ?p' ?m'"
    by (simp add: Let_def split_def memp_carve_addr)
  moreover have "layout_frees sizes (t # ts) p u @ gs u = layout_frees sizes ts ?p' u @ (gs(t := ?own)) u"
    using Cons.prems(5) [of t] by (simp add: layout_frees_simps(1))
  ultimately show ?case by simp
qed

lemma memp_init_ok:
  assumes "0 < base" and "\<And>t. t \<noteq> MEMP_MAX \<Longrightarrow> 0 < sizes t"
  shows "memp_ok sizes base (memp_init sizes base)" and "memp_live sizes base (memp_init sizes base) = Map.empty"
proof -
  let ?m = "memp_init sizes base" and ?fs = "layout_frees sizes memp_pools base"
  have "memp_list (memp_next ?m) (memp_tab ?m t) (?fs t @ [])" for t
    unfolding memp_init_def using assms
    by (intro memp_init_pools_list [where gs = "\<lambda>_. []"]) (auto simp: distinct_memp_pools set_memp_pools)
  moreover have "distinct (map fst (memp_layout sizes memp_pools base))"
  proof -
    have "sorted_wrt (<) (map fst (memp_layout sizes memp_pools base))"
      unfolding sorted_wrt_map
      by (rule sorted_wrt_mono_rel [OF _ sorted_memp_layout [of sizes]])
        (use memp_layout_bounds assms(2) set_memp_pools in fastforce)
    then show ?thesis by (simp add: strict_sorted_iff)
  qed
  then have "distinct (?fs t)" for t
    by (simp add: layout_frees_def distinct_map_filter)
  moreover have "set (?fs t) = {p. (p, t) \<in> set (memp_slots sizes base)}" for t
    by (force simp: layout_frees_def memp_slots_def)
  ultimately have "memp_frees ?m t = ?fs t" "pool_ok sizes base ?m t" "set (?fs t) = {p. (p, t) \<in> set (memp_slots sizes base)}" for t
    using memp_frees_eq [of ?m t "?fs t" sizes base] by (simp_all add: list_all_iff)
  then show "memp_ok sizes base ?m" "memp_live sizes base ?m = Map.empty"
    using memp_okI [OF assms] memp_live_iff [of sizes base ?m] by (fastforce intro: ext)+
qed

section \<open>The pools as an allocator\<close>

lemma memp_malloc_cases:
  assumes "memp_ok sizes base m" and "t \<noteq> MEMP_MAX"
  shows "memp_frees m t = [] \<Longrightarrow> memp_malloc m t = Some (NULL, m)"
    and "memp_frees m t = p # fs \<Longrightarrow> \<exists>m'. memp_malloc m t = Some (p, m') \<and> p \<noteq> NULL \<and> memp_ok sizes base m'
      \<and> memp_frees m' = (memp_frees m)(t := fs)"
proof -
  have l: "memp_list (memp_next m) (memp_tab m t) (memp_frees m t)"
    using memp_okD [OF assms] by (simp add: pool_ok_def)
  show "memp_frees m t = [] \<Longrightarrow> memp_malloc m t = Some (NULL, m)"
    using l assms(2) by (simp add: memp_malloc_def)
  assume fr: "memp_frees m t = p # fs"
  then obtain n where n: "memp_tab m t = p" "p \<noteq> NULL" "memp_next m p = Some n" "memp_list (memp_next m) n fs"
    using l by (auto split: option.splits)
  let ?m = "m\<lparr>memp_tab := (memp_tab m)(t := n), memp_next := (memp_next m)(p := None)\<rparr>"
  have fr': "memp_frees ?m u = ((memp_frees m)(t := fs)) u \<and> pool_ok sizes base ?m u" if u: "u \<noteq> MEMP_MAX" for u
  proof -
    let ?gs = "((memp_frees m)(t := fs)) u"
    have ok: "pool_ok sizes base m u" "pool_ok sizes base m t"
      using memp_okD(2) [OF assms(1)] u assms(2) by simp_all
    have "p \<notin> set ?gs"
    proof (cases "u = t")
      case True
      then show ?thesis using ok(2) fr by (simp add: pool_ok_def)
    next
      case False
      then show ?thesis
        using ok fr memp_slot_type [of p u sizes base t] memp_okD(1) [OF assms(1)] u assms(2)
        by (auto simp: pool_ok_def list_all_iff)
    qed
    then have "memp_list (memp_next ?m) (memp_tab ?m u) ?gs"
      using ok(1) n(4) by (simp add: pool_ok_def memp_list_upd)
    moreover have "distinct ?gs" "list_all (\<lambda>p. (p, u) \<in> set (memp_slots sizes base)) ?gs"
      using ok fr by (auto simp: pool_ok_def)
    ultimately show ?thesis
      using memp_frees_eq by blast
  qed
  then have "memp_frees ?m u = ((memp_frees m)(t := fs)) u" if "u \<noteq> MEMP_MAX" for u
    using that by blast
  moreover have "memp_frees x MEMP_MAX = []" for x
    by (simp add: memp_frees_def)
  ultimately have "memp_frees ?m u = ((memp_frees m)(t := fs)) u" for u
    using assms(2) by (cases "u = MEMP_MAX") simp_all
  then have "memp_frees ?m = (memp_frees m)(t := fs)"
    by (rule ext)
  moreover have "memp_ok sizes base ?m"
    using fr' memp_okD(1) [OF assms(1)] assms(1) by (intro memp_okI) (simp_all add: memp_ok_def)
  ultimately show "\<exists>m'. memp_malloc m t = Some (p, m') \<and> p \<noteq> NULL \<and> memp_ok sizes base m' \<and> memp_frees m' = (memp_frees m)(t := fs)"
    using n assms(2) by (simp add: memp_malloc_def)
qed
lemma memp_free_live:
  assumes "memp_ok sizes base m" and "memp_live sizes base m p = Some t"
  shows "memp_free m t p = Some (memp_push t p m)" and "memp_ok sizes base (memp_push t p m)"
    and "memp_frees (memp_push t p m) = (memp_frees m)(t := p # memp_frees m t)"
proof -
  let ?m = "memp_push t p m"
  have p: "(p, t) \<in> set (memp_slots sizes base)" "p \<notin> set (memp_frees m t)"
    using assms memp_live_iff by blast+
  have t: "t \<noteq> MEMP_MAX" and nn: "p \<noteq> NULL"
    using memp_slot_bounds [OF p(1)] assms(1) by (auto simp: memp_ok_def)
  show "memp_free m t p = Some ?m" using t nn by (simp add: memp_free_def)
  have fr: "memp_frees ?m u = ((memp_frees m)(t := p # memp_frees m t)) u \<and> pool_ok sizes base ?m u" if u: "u \<noteq> MEMP_MAX" for u
  proof -
    let ?gs = "((memp_frees m)(t := p # memp_frees m t)) u"
    have ok: "pool_ok sizes base m u" "pool_ok sizes base m t"
      using memp_okD(2) [OF assms(1)] u t by simp_all
    have "p \<notin> set (memp_frees m u)"
      using p ok memp_slot_type [of p u sizes base t] memp_okD(1) [OF assms(1)] u t
      by (cases "u = t") (auto simp: pool_ok_def list_all_iff)
    then have "memp_list (memp_next ?m) (memp_tab ?m u) ?gs" "distinct ?gs"
      using ok nn p(2) by (auto simp: pool_ok_def memp_list_upd)
    moreover have "list_all (\<lambda>p. (p, u) \<in> set (memp_slots sizes base)) ?gs"
      using ok p(1) by (simp add: pool_ok_def)
    ultimately show ?thesis
      using memp_frees_eq by blast
  qed
  then show "memp_ok sizes base ?m"
    using memp_okD(1) [OF assms(1)] assms(1) by (intro memp_okI) (simp_all add: memp_ok_def)
  have "memp_frees x MEMP_MAX = []" for x
    by (simp add: memp_frees_def)
  then have "memp_frees ?m u = ((memp_frees m)(t := p # memp_frees m t)) u" for u
    using t fr by (cases "u = MEMP_MAX") auto
  then show "memp_frees ?m = (memp_frees m)(t := p # memp_frees m t)"
    by (rule ext)
qed

lemma memp_live_eqI:
  assumes "memp_ok sizes base m" and "\<And>q t. L q = Some t \<longleftrightarrow> (q, t) \<in> set (memp_slots sizes base) \<and> q \<notin> set (memp_frees m t)"
  shows "memp_live sizes base m = L"
proof
  fix q
  have "memp_live sizes base m q = Some t \<longleftrightarrow> L q = Some t" for t
    using memp_live_iff [OF assms(1)] assms(2) by blast
  then show "memp_live sizes base m q = L q"
    by (metis option.exhaust)
qed

lemma memp_frees_slots:
  assumes "memp_ok sizes base m" and "p \<in> set (memp_frees m t)"
  shows "(p, t) \<in> set (memp_slots sizes base)" and "memp_live sizes base m p = None"
proof -
  have "t \<noteq> MEMP_MAX" using assms(2) by (auto simp: memp_frees_def)
  then show s: "(p, t) \<in> set (memp_slots sizes base)"
    using memp_okD(2) [OF assms(1)] assms(2) by (simp add: pool_ok_def list_all_iff)
  have "memp_live sizes base m p \<noteq> Some u" for u
    using memp_slots_map_of [OF assms(1), of p t] memp_slots_map_of [OF assms(1), of p u] s assms
    by (auto simp: memp_live_iff)
  then show "memp_live sizes base m p = None" by auto
qed

lemma memp_malloc_live:
  assumes "memp_ok sizes base m" and "memp_malloc m t = Some (p, m')" and "p \<noteq> NULL"
  shows "memp_ok sizes base m'" and "memp_live sizes base m p = None"
    and "memp_live sizes base m' = (memp_live sizes base m)(p \<mapsto> t)"
    and "memp_frees m' = (memp_frees m)(t := tl (memp_frees m t))"
proof -
  have t: "t \<noteq> MEMP_MAX" using assms(2) by (auto simp: memp_malloc_def split: if_splits)
  obtain fs where fs: "memp_frees m t = p # fs" and m': "memp_ok sizes base m'" "memp_frees m' = (memp_frees m)(t := fs)"
    using memp_malloc_cases [OF assms(1) t] assms(2,3) by (cases "memp_frees m t") fastforce+
  show "memp_ok sizes base m'" "memp_frees m' = (memp_frees m)(t := tl (memp_frees m t))"
    using m' fs by simp_all
  have p: "(p, t) \<in> set (memp_slots sizes base)" and n: "memp_live sizes base m p = None"
    using memp_frees_slots [OF assms(1), of p t] fs by simp_all
  have "p \<notin> set fs"
    using memp_okD(2) [OF assms(1) t] fs by (simp add: pool_ok_def)
  moreover have ty: "(p, u) \<in> set (memp_slots sizes base) \<longleftrightarrow> u = t" for u
    using memp_slots_map_of [OF assms(1)] p by (metis option.inject)
  moreover have "q \<noteq> p \<Longrightarrow> q \<in> set (memp_frees m' u) \<longleftrightarrow> q \<in> set (memp_frees m u)" for q u
    using fs m'(2) by simp
  ultimately have "((memp_live sizes base m)(p \<mapsto> t)) q = Some u \<longleftrightarrow>
      (q, u) \<in> set (memp_slots sizes base) \<and> q \<notin> set (memp_frees m' u)" for q u
    using m'(2) memp_live_iff [OF assms(1)] by (cases "q = p") auto
  then show "memp_live sizes base m' = (memp_live sizes base m)(p \<mapsto> t)"
    by (rule memp_live_eqI [OF m'(1)])
  show "memp_live sizes base m p = None" by (fact n)
qed

lemma memp_live_disjoint:
  "memp_ok sizes base m \<Longrightarrow> alloc_regions_disjoint sizes (memp_live sizes base m)"
  unfolding alloc_regions_disjoint_def by (metis memp_live_iff memp_slots_disjoint prod.inject)

lemma memp_free_live_map:
  assumes "memp_ok sizes base m" and "memp_live sizes base m p = Some t"
  shows "memp_live sizes base (memp_push t p m) = (memp_live sizes base m)(p := None)"
proof -
  have p: "(p, t) \<in> set (memp_slots sizes base)" using assms memp_live_iff by blast
  then have "(p, u) \<in> set (memp_slots sizes base) \<longleftrightarrow> u = t" for u
    using memp_slots_map_of [OF assms(1)] by (metis option.inject)
  moreover have "q \<noteq> p \<Longrightarrow> q \<in> set (memp_frees (memp_push t p m) u) \<longleftrightarrow> q \<in> set (memp_frees m u)" for q u
    unfolding memp_free_live(3) [OF assms] by simp
  moreover have "p \<in> set (memp_frees (memp_push t p m) t)"
    unfolding memp_free_live(3) [OF assms] by simp
  ultimately have "((memp_live sizes base m)(p := None)) q = Some u \<longleftrightarrow>
      (q, u) \<in> set (memp_slots sizes base) \<and> q \<notin> set (memp_frees (memp_push t p m) u)" for q u
    using memp_live_iff [OF assms(1)] by (cases "q = p") auto
  then show ?thesis
    by (rule memp_live_eqI [OF memp_free_live(2) [OF assms]])
qed

interpretation pool: allocator "memp_ok sizes base" "memp_live sizes base" sizes "\<lambda>t. t \<noteq> MEMP_MAX" sizes
  memp_malloc memp_free
  for sizes base
proof unfold_locales
  fix m :: memp_state and t p m'
  assume ok: "memp_ok sizes base m"
  show "t \<noteq> MEMP_MAX \<Longrightarrow> \<exists>p m'. memp_malloc m t = Some (p, m')"
    using memp_malloc_cases [OF ok, of t] by (cases "memp_frees m t") fastforce+
  show "t \<noteq> MEMP_MAX \<Longrightarrow> memp_malloc m t = Some (NULL, m') \<Longrightarrow> m' = m"
    using memp_malloc_cases [OF ok, of t] by (cases "memp_frees m t") fastforce+
  show "t \<noteq> MEMP_MAX \<Longrightarrow> memp_malloc m t = Some (p, m') \<Longrightarrow> p \<noteq> NULL \<Longrightarrow>
    memp_live sizes base m p = None \<and> memp_ok sizes base m' \<and>
    (\<exists>k. sizes t \<le> sizes k \<and> memp_live sizes base m' = (memp_live sizes base m)(p \<mapsto> k))"
    using memp_malloc_live [OF ok] by blast
  show "alloc_regions_disjoint sizes (memp_live sizes base m)"
    by (rule memp_live_disjoint [OF ok])
  have "base \<noteq> 0" using ok by (simp add: memp_ok_def)
  then show "memp_live sizes base m NULL = None"
    using memp_live_iff [OF ok, of NULL] memp_slot_bounds(1) [of NULL] by (metis le_zero_eq option.exhaust)
  fix k
  show "memp_live sizes base m p = Some k \<Longrightarrow>
    \<exists>m'. memp_free m k p = Some m' \<and> memp_ok sizes base m' \<and> memp_live sizes base m' = (memp_live sizes base m)(p := None)"
    using memp_free_live [OF ok] memp_free_live_map [OF ok] by blast
qed

section \<open>The cycle check\<close>

lemma sanity_inner_list:
  "memp_list nx n xs \<Longrightarrow> distinct xs \<Longrightarrow> 0 \<le> c \<Longrightarrow> (m \<in> set xs \<Longrightarrow> 1 \<le> c) \<Longrightarrow> sanity_inner nx m n c = Some True"
proof (induction xs arbitrary: n c)
  case (Cons x xs)
  then obtain n' where "n = x" "x \<noteq> NULL" "nx x = Some n'" "memp_list nx n' xs"
    by (auto split: option.splits)
  then show ?case using Cons by (subst sanity_inner.simps) auto
qed (simp add: sanity_inner.simps)

lemma sanity_outer_list:
  assumes "memp_list nx tab fs" and "distinct fs"
  shows "memp_list nx m xs \<Longrightarrow> set xs \<subseteq> set fs \<Longrightarrow> sanity_outer nx tab m = Some True"
proof (induction xs arbitrary: m)
  case (Cons x xs)
  then obtain n' where "m = x" "x \<noteq> NULL" "nx x = Some n'" "memp_list nx n' xs"
    by (auto split: option.splits)
  moreover have "sanity_inner nx x tab 1 = Some True"
    by (rule sanity_inner_list [OF assms]) simp_all
  ultimately show ?case using Cons by (subst sanity_outer.simps) simp
qed (simp add: sanity_outer.simps)

lemma sanity_inner_cycle:
  "memp_list nx a (xs @ p # ys) \<Longrightarrow> p \<notin> set xs \<Longrightarrow> sanity_inner (nx(p := v)) p a 0 = Some False"
proof (induction xs arbitrary: a)
  case (Cons x xs)
  then show ?case by (subst sanity_inner.simps) (auto split: option.splits simp del: fun_upd_apply simp: fun_upd_other)
qed (simp add: sanity_inner.simps)

lemma sanity_pools_detect:
  assumes "t \<in> set ts" and "sanity_outer (memp_next m) (memp_tab m t) (memp_tab m t) = Some False"
    and "\<And>u. u \<in> set ts \<Longrightarrow> u \<noteq> t \<Longrightarrow> sanity_outer (memp_next m) (memp_tab m u) (memp_tab m u) = Some True"
  shows "sanity_pools m ts = Some False"
  using assms
proof (induction ts)
  case (Cons u ts)
  then show ?case by (cases "u = t") simp_all
qed simp

lemma sanity_pools_all:
  "(\<And>u. u \<in> set ts \<Longrightarrow> sanity_outer (memp_next m) (memp_tab m u) (memp_tab m u) = Some True) \<Longrightarrow> sanity_pools m ts = Some True"
  by (induction ts) simp_all

lemma sanity_pool_ok:
  "pool_ok sizes base m t \<Longrightarrow> sanity_outer (memp_next m) (memp_tab m t) (memp_tab m t) = Some True"
  by (metis order_refl pool_ok_def sanity_outer_list)

lemma memp_double_free:
  assumes "memp_ok sizes base m" and "p \<in> set (memp_frees m t)"
  shows "memp_sanity (memp_push t p m) = Some False"
proof -
  let ?m = "memp_push t p m"
  have t: "t \<noteq> MEMP_MAX" using assms(2) by (auto simp: memp_frees_def)
  have ok: "pool_ok sizes base m u" if "u \<noteq> MEMP_MAX" for u
    using memp_okD(2) [OF assms(1) that] .
  obtain xs ys where xs: "memp_frees m t = xs @ p # ys" "p \<notin> set xs"
    using split_list_first [OF assms(2)] by blast
  have nn: "p \<noteq> NULL"
    using memp_slot_bounds(1) [OF memp_frees_slots(1) [OF assms]] assms(1) by (simp add: memp_ok_def)
  have "sanity_inner ((memp_next m)(p \<mapsto> memp_tab m t)) p (memp_tab m t) 0 = Some False"
    using ok [OF t] xs by (intro sanity_inner_cycle [where xs = xs and ys = ys]) (simp_all add: pool_ok_def)
  then have "sanity_inner (memp_next ?m) p p 1 = Some False"
    using nn by (subst sanity_inner.simps) simp
  then have "sanity_outer (memp_next ?m) (memp_tab ?m t) (memp_tab ?m t) = Some False"
    using nn by (subst sanity_outer.simps) simp
  moreover have "sanity_outer (memp_next ?m) (memp_tab ?m u) (memp_tab ?m u) = Some True"
    if u: "u \<noteq> MEMP_MAX" "u \<noteq> t" for u
  proof -
    have "p \<notin> set (memp_frees m u)"
      using memp_frees_slots(1) [OF assms] memp_frees_slots(1) [OF assms(1), of p u] u(2)
        memp_slots_map_of [OF assms(1)] by (metis option.inject)
    then have "memp_list (memp_next ?m) (memp_tab ?m u) (memp_frees m u)"
      using ok [OF u(1)] u(2) by (simp add: pool_ok_def memp_list_upd)
    then show ?thesis
      using ok [OF u(1)] sanity_outer_list by (meson order_refl pool_ok_def)
  qed
  ultimately show ?thesis
    unfolding memp_sanity_def using t by (intro sanity_pools_detect) (auto simp: set_memp_pools)
qed

lemma memp_sanity_ok: "memp_ok sizes base m \<Longrightarrow> memp_sanity m = Some True"
  unfolding memp_sanity_def using sanity_pool_ok memp_okD(2) set_memp_pools
  by (intro sanity_pools_all) blast

section \<open>Properties\<close>

lemma memp_exhausted:
  assumes "memp_ok sizes base m" and "memp_frees m t = []"
  shows "card {p. memp_live sizes base m p = Some t} = memp_num t"
proof -
  have "set (map fst (filter (\<lambda>(q, u). u = t) (memp_slots sizes base))) = {p. memp_live sizes base m p = Some t}"
    using memp_live_iff [OF assms(1)] assms(2) by force
  moreover have "distinct (map fst (filter (\<lambda>(q, u). u = t) (memp_slots sizes base)))"
  proof -
    have "sorted_wrt (<) (map fst (memp_slots sizes base))"
      unfolding sorted_wrt_map memp_slots_def
      by (rule sorted_wrt_mono_rel [OF _ sorted_memp_layout [of sizes]])
        (use memp_layout_bounds memp_okD(1) [OF assms(1)] set_memp_pools in fastforce)
    then show ?thesis by (simp add: strict_sorted_iff distinct_map_filter)
  qed
  ultimately show ?thesis
    by (metis distinct_card length_map length_slots_of)
qed

text \<open>
  Claim C19. \<open>memp_malloc\<close> on well-formed pools never aborts. It returns \<open>NULL\<close> only when every
  element of the pool is live, and then changes nothing; otherwise it returns an element of the
  pool that was not live and overlaps no live element of any pool, and the live elements change
  by exactly this one.
\<close>

theorem memp_malloc_correct:
  assumes "memp_ok sizes base m" and "t \<noteq> MEMP_MAX"
  shows "\<exists>p m'. memp_malloc m t = Some (p, m') \<and> memp_ok sizes base m' \<and>
    (if p = NULL then m' = m \<and> card {q. memp_live sizes base m q = Some t} = memp_num t
     else memp_live sizes base m p = None \<and> memp_live sizes base m' = (memp_live sizes base m)(p \<mapsto> t)
       \<and> (\<forall>q u. memp_live sizes base m q = Some u \<longrightarrow> p + sizes t \<le> q \<or> q + sizes u \<le> p))"
proof -
  obtain p m' where a: "memp_malloc m t = Some (p, m')"
    using pool.alloc_total [OF assms] by blast
  show ?thesis
  proof (cases "p = NULL")
    case True
    then have "memp_frees m t = []"
      using a memp_malloc_cases(2) [OF assms] by (cases "memp_frees m t") fastforce+
    then show ?thesis
      using a True pool.alloc_null [OF assms] assms(1) memp_exhausted [OF assms(1)] by simp
  next
    case False
    then show ?thesis
      using a memp_malloc_live [OF assms(1) a False] pool.alloc_disjoint [OF assms a False] by auto
  qed
qed

definition example_sizes :: "memp_t \<Rightarrow> nat" where
  "example_sizes t = (case t of MEMP_PBUF \<Rightarrow> 24 | MEMP_PBUF_POOL \<Rightarrow> 616 | _ \<Rightarrow> 64)"

lemma example_sizes_pos: "0 < example_sizes t"
  by (cases t) (simp_all add: example_sizes_def)

lemma example_memp_ok: "memp_ok example_sizes 20000 (memp_init example_sizes 20000)"
  by (rule memp_init_ok(1)) (simp_all add: example_sizes_pos)

theorem memp_malloc_correct_witness:
  "\<exists>p m. memp_malloc (memp_init example_sizes 20000) MEMP_ARP_QUEUE = Some (p, m) \<and> memp_ok example_sizes 20000 m"
  using memp_malloc_correct [OF example_memp_ok, of MEMP_ARP_QUEUE] by auto

text \<open>
  Claim C31. From \<open>memp_init\<close>, no sequence of requests to the pools and of releases of live elements
  ever aborts; the pools stay well formed, and the cycle check \<open>memp_sanity\<close> terminates and passes.
\<close>

theorem memp_run_safe:
  assumes "0 < base" and "\<And>t. t \<noteq> MEMP_MAX \<Longrightarrow> 0 < sizes t" and "Alloc MEMP_MAX \<notin> set ops"
  shows "\<exists>m. pool.run sizes base (memp_init sizes base) ops = Some m \<and> memp_ok sizes base m \<and> memp_sanity m = Some True"
proof -
  have "\<forall>t. Alloc t \<in> set ops \<longrightarrow> t \<noteq> MEMP_MAX" using assms(3) by auto
  moreover have "memp_ok sizes base (memp_init sizes base)"
    using memp_init_ok(1) [of base sizes] assms(1,2) by blast
  ultimately show ?thesis
    using pool.run_safe [of sizes base "memp_init sizes base" ops] memp_sanity_ok by blast
qed

theorem memp_run_safe_witness:
  "\<exists>m. pool.run example_sizes 20000 (memp_init example_sizes 20000) [Alloc MEMP_PBUF, Release 22560, Alloc MEMP_TCP_SEG] = Some m
     \<and> memp_ok example_sizes 20000 m \<and> memp_sanity m = Some True"
  by (rule memp_run_safe) (simp_all add: example_sizes_pos)

text \<open>
  Claim C32. \<open>memp_sanity\<close> detects every double free: when an element that is already in the free
  list is freed again, the check that follows terminates and fails, although the list has become
  cyclic.
\<close>

theorem memp_sanity_double_free:
  assumes "memp_ok sizes base m" and "p \<in> set (memp_frees m t)"
  shows "\<exists>m'. memp_free m t p = Some m' \<and> memp_sanity m' = Some False"
proof -
  have "memp_free m t p = Some (memp_push t p m)"
    using memp_slot_bounds [OF memp_frees_slots(1) [OF assms]] assms(1) by (auto simp: memp_free_def memp_ok_def)
  then show ?thesis using memp_double_free [OF assms] by simp
qed

theorem memp_sanity_double_free_witness:
  "\<exists>m'. memp_free (memp_init example_sizes 20000) MEMP_UDP_PCB 20064 = Some m' \<and> memp_sanity m' = Some False"
proof (rule memp_sanity_double_free [OF example_memp_ok])
  have "memp_live example_sizes 20000 (memp_init example_sizes 20000) = Map.empty"
    by (rule memp_init_ok(2)) (simp_all add: example_sizes_pos)
  moreover have "(20064, MEMP_UDP_PCB) \<in> set (memp_slots example_sizes 20000)"
    unfolding memp_slots_def memp_pools_def memp_layout.simps(2) set_append
    by (intro UnI1) (auto simp: example_sizes_def image_iff)
  ultimately show "20064 \<in> set (memp_frees (memp_init example_sizes 20000) MEMP_UDP_PCB)"
    using memp_live_iff [OF example_memp_ok, of 20064 MEMP_UDP_PCB] by simp
qed

end
