(* ===== verification/Pbuf.thy ===== *)
theory Pbuf
  imports Mem Memp
begin

text \<open>
  The packet buffers of \<^verbatim>\<open>lwip/src/core/pbuf.c\<close>: chains of \<open>struct pbuf\<close> whose memory comes
  from the heap (\<open>PBUF_RAM\<close>), from the pool of full buffers (\<open>PBUF_POOL\<close>) or from the pool of
  bare headers (\<open>PBUF_ROM\<close>, \<open>PBUF_REF\<close>), with a reference count per pbuf.

  State. \<open>ram_heap\<close> and \<open>memp\<close> are the two allocators; \<open>pbufs\<close> maps the address of every
  allocated pbuf to its fields, and an address that was freed is not in its domain, so that every use of
  a stale pointer is \<open>None\<close>; \<open>bytes\<close> is the memory the payload pointers point to. The record is
  extended by the components above, and the operations work on every extension.

  Loops over chains are partial functions: a walk that does not end is \<open>None\<close>, and each theorem
  about a chain shows that the walk returns. With \<open>NO_SYS\<close> the protection macros are empty and
  \<open>PBUF_POOL_IS_EMPTY\<close> expands to nothing.
\<close>

section \<open>Data\<close>

datatype pbuf_layer = PBUF_TRANSPORT | PBUF_IP | PBUF_LINK | PBUF_RAW

datatype pbuf_type = PBUF_RAM | PBUF_ROM | PBUF_REF | PBUF_POOL

record pbuf =
  pb_next :: addr
  payload :: addr
  tot_len :: nat
  len :: nat
  ptype :: pbuf_type
  flags :: u8_t
  ref :: nat

record net_state =
  ram_heap :: heap
  memp :: memp_state
  pbufs :: "addr \<rightharpoonup> pbuf"
  bytes :: "addr \<Rightarrow> u8_t"

definition PBUF_TRANSPORT_HLEN :: nat where "PBUF_TRANSPORT_HLEN = 20"
definition PBUF_IP_HLEN :: nat where "PBUF_IP_HLEN = 20"
definition PBUF_LINK_HLEN :: nat where "PBUF_LINK_HLEN = 16"

text \<open>\<open>sizeof(struct pbuf)\<close> with 64-bit pointers.\<close>

definition SIZEOF_STRUCT_PBUF :: nat where
  "SIZEOF_STRUCT_PBUF = LWIP_MEM_ALIGN_SIZE 24"

definition PBUF_POOL_BUFSIZE_ALIGNED :: nat where
  "PBUF_POOL_BUFSIZE_ALIGNED = LWIP_MEM_ALIGN_SIZE 592"

lemma pbuf_sizes [lwip_simps]:
  "PBUF_TRANSPORT_HLEN = 20" "PBUF_IP_HLEN = 20" "PBUF_LINK_HLEN = 16"
  "SIZEOF_STRUCT_PBUF = 24" "PBUF_POOL_BUFSIZE_ALIGNED = 592"
  by (simp_all add: PBUF_TRANSPORT_HLEN_def PBUF_IP_HLEN_def PBUF_LINK_HLEN_def
      SIZEOF_STRUCT_PBUF_def PBUF_POOL_BUFSIZE_ALIGNED_def)

fun layer_offset :: "pbuf_layer \<Rightarrow> nat" where
  "layer_offset PBUF_TRANSPORT = PBUF_TRANSPORT_HLEN + PBUF_IP_HLEN + PBUF_LINK_HLEN"
| "layer_offset PBUF_IP = PBUF_IP_HLEN + PBUF_LINK_HLEN"
| "layer_offset PBUF_LINK = PBUF_LINK_HLEN"
| "layer_offset PBUF_RAW = 0"

definition put_pbuf :: "addr \<Rightarrow> pbuf \<Rightarrow> 'a net_state_scheme \<Rightarrow> 'a net_state_scheme" where
  "put_pbuf p b s = s\<lparr>pbufs := (pbufs s)(p \<mapsto> b)\<rparr>"

definition mod_pbuf :: "addr \<Rightarrow> (pbuf \<Rightarrow> pbuf) \<Rightarrow> 'a net_state_scheme \<Rightarrow> 'a net_state_scheme option" where
  "mod_pbuf p f s = Option.bind (pbufs s p) (\<lambda>b. Some (put_pbuf p (f b) s))"

definition memcpy :: "addr \<Rightarrow> addr \<Rightarrow> nat \<Rightarrow> (addr \<Rightarrow> u8_t) \<Rightarrow> (addr \<Rightarrow> u8_t)" where
  "memcpy dst src n d = (\<lambda>x. if dst \<le> x \<and> x < dst + n then d (src + (x - dst)) else d x)"

section \<open>Releasing\<close>

text \<open>The memory of one pbuf goes back to where it came from.\<close>

definition pbuf_release :: "addr \<Rightarrow> pbuf_type \<Rightarrow> 'a net_state_scheme \<Rightarrow> 'a net_state_scheme option" where
  "pbuf_release p ty s = (let s' = s\<lparr>pbufs := (pbufs s)(p := None)\<rparr> in
     case ty of
       PBUF_POOL \<Rightarrow> do { m \<leftarrow> memp_free (memp s) MEMP_PBUF_POOL p; Some (s'\<lparr>memp := m\<rparr>) }
     | PBUF_ROM \<Rightarrow> do { m \<leftarrow> memp_free (memp s) MEMP_PBUF p; Some (s'\<lparr>memp := m\<rparr>) }
     | PBUF_REF \<Rightarrow> do { m \<leftarrow> memp_free (memp s) MEMP_PBUF p; Some (s'\<lparr>memp := m\<rparr>) }
     | PBUF_RAM \<Rightarrow> do { h \<leftarrow> mem_free (ram_heap s) p; Some (s'\<lparr>ram_heap := h\<rparr>) })"

partial_function (option) pbuf_free_loop :: "addr \<Rightarrow> nat \<Rightarrow> 'a net_state_scheme \<Rightarrow> (nat \<times> 'a net_state_scheme) option" where
  "pbuf_free_loop p count s =
     (if p = NULL then Some (count, s)
      else do {
        b \<leftarrow> pbufs s p;
        lwip_assert (0 < ref b);
        let s = put_pbuf p (b\<lparr>ref := ref b - 1\<rparr>) s;
        if ref b - 1 = 0 then do {
          s \<leftarrow> pbuf_release p (ptype b) s;
          pbuf_free_loop (pb_next b) ((count + 1) mod 256) s
        } else Some (count, s)
      })"

declare pbuf_free_loop.simps [code]

definition pbuf_free :: "addr \<Rightarrow> 'a net_state_scheme \<Rightarrow> (nat \<times> 'a net_state_scheme) option" where
  "pbuf_free p s = do {
     lwip_assert (p \<noteq> NULL);
     pbuf_free_loop p 0 s
   }"

section \<open>Allocation\<close>

text \<open>
  The loop of the \<open>PBUF_POOL\<close> case: \<open>p\<close> is the head, \<open>r\<close> the last pbuf so far and \<open>rem\<close> the
  length still to be allocated. The result says whether the chain is complete; when the pool is
  exhausted the chain so far is freed.
\<close>

function pbuf_alloc_tail :: "addr \<Rightarrow> addr \<Rightarrow> nat \<Rightarrow> 'a net_state_scheme \<Rightarrow> (bool \<times> 'a net_state_scheme) option" where
  "pbuf_alloc_tail p r rem s =
     (if rem = 0 then Some (True, s)
      else do {
        (q, m) \<leftarrow> memp_malloc (memp s) MEMP_PBUF_POOL;
        let s = s\<lparr>memp := m\<rparr>;
        if q = NULL then do {
          (n, s) \<leftarrow> pbuf_free p s;
          Some (False, s)
        } else do {
          lwip_assert (rem < 65535);
          let qlen = min rem PBUF_POOL_BUFSIZE_ALIGNED;
          let s = put_pbuf q \<lparr>pb_next = NULL, payload = q + SIZEOF_STRUCT_PBUF, tot_len = u16 rem, len = qlen,
                ptype = PBUF_POOL, flags = 0, ref = 1\<rparr> s;
          s \<leftarrow> mod_pbuf r (\<lambda>b. b\<lparr>pb_next := q\<rparr>) s;
          bp \<leftarrow> pbufs s p;
          lwip_assert (payload bp + len bp \<le> p + SIZEOF_STRUCT_PBUF + PBUF_POOL_BUFSIZE_ALIGNED);
          pbuf_alloc_tail p q (rem - qlen) s
        }
      })"
  by pat_completeness auto
termination
  by (relation "measure (\<lambda>(p, r, rem, s). rem)") (auto simp: lwip_simps)

definition pbuf_alloc :: "pbuf_layer \<Rightarrow> nat \<Rightarrow> pbuf_type \<Rightarrow> 'a net_state_scheme \<Rightarrow> (addr \<times> 'a net_state_scheme) option" where
  "pbuf_alloc layer n ty s = (let offset = layer_offset layer in
     case ty of
       PBUF_POOL \<Rightarrow> do {
         (p, m) \<leftarrow> memp_malloc (memp s) MEMP_PBUF_POOL;
         let s = s\<lparr>memp := m\<rparr>;
         if p = NULL then Some (NULL, s)
         else do {
           let pay = LWIP_MEM_ALIGN (p + (SIZEOF_STRUCT_PBUF + offset));
           lwip_assert (pay mod MEM_ALIGNMENT = 0);
           let plen = min n (PBUF_POOL_BUFSIZE_ALIGNED - LWIP_MEM_ALIGN_SIZE offset);
           lwip_assert (pay + plen \<le> p + SIZEOF_STRUCT_PBUF + PBUF_POOL_BUFSIZE_ALIGNED);
           lwip_assert (PBUF_POOL_BUFSIZE_ALIGNED - LWIP_MEM_ALIGN_SIZE offset > 0);
           let s = put_pbuf p \<lparr>pb_next = NULL, payload = pay, tot_len = n, len = plen,
                 ptype = PBUF_POOL, flags = 0, ref = 1\<rparr> s;
           (ok, s) \<leftarrow> pbuf_alloc_tail p p (n - plen) s;
           if \<not> ok then Some (NULL, s)
           else do {
             s \<leftarrow> mod_pbuf p (\<lambda>b. b\<lparr>ref := 1, flags := 0\<rparr>) s;
             Some (p, s)
           }
         }
       }
     | PBUF_RAM \<Rightarrow> do {
         (p, h) \<leftarrow> mem_malloc (ram_heap s) (u16 (LWIP_MEM_ALIGN_SIZE (SIZEOF_STRUCT_PBUF + offset) + LWIP_MEM_ALIGN_SIZE n));
         let s = s\<lparr>ram_heap := h\<rparr>;
         if p = NULL then Some (NULL, s)
         else do {
           let pay = LWIP_MEM_ALIGN (p + SIZEOF_STRUCT_PBUF + offset);
           lwip_assert (pay mod MEM_ALIGNMENT = 0);
           Some (p, put_pbuf p \<lparr>pb_next = NULL, payload = pay, tot_len = n, len = n,
                 ptype = PBUF_RAM, flags = 0, ref = 1\<rparr> s)
         }
       }
     | _ \<Rightarrow> do {
         (p, m) \<leftarrow> memp_malloc (memp s) MEMP_PBUF;
         let s = s\<lparr>memp := m\<rparr>;
         if p = NULL then Some (NULL, s)
         else Some (p, put_pbuf p \<lparr>pb_next = NULL, payload = NULL, tot_len = n, len = n,
                 ptype = ty, flags = 0, ref = 1\<rparr> s)
       })"

section \<open>Resizing\<close>

text \<open>
  The loop of \<open>pbuf_realloc\<close> that steps over the pbufs to keep; it returns the new last pbuf and
  the length it keeps. \<open>grow\<close> is negative, and \<open>tot_len\<close> is adjusted modulo \<open>2 ^ 16\<close>.
\<close>

definition add16 :: "nat \<Rightarrow> int \<Rightarrow> nat" where
  "add16 n i = nat ((int n + i) mod 65536)"

partial_function (option) pbuf_realloc_skip :: "addr \<Rightarrow> nat \<Rightarrow> int \<Rightarrow> 'a net_state_scheme \<Rightarrow> (addr \<times> nat \<times> 'a net_state_scheme) option" where
  "pbuf_realloc_skip q rem grow s = do {
     b \<leftarrow> pbufs s q;
     if rem > len b then do {
       lwip_assert (grow < 65535);
       let s = put_pbuf q (b\<lparr>tot_len := add16 (tot_len b) grow\<rparr>) s;
       lwip_assert (pb_next b \<noteq> NULL);
       pbuf_realloc_skip (pb_next b) (rem - len b) grow s
     } else Some (q, rem, s)
   }"

declare pbuf_realloc_skip.simps [code]

text \<open>Shrinking the memory of a \<open>PBUF_RAM\<close> pbuf, and freeing the pbufs behind the new last one.\<close>

definition realloc_ram :: "addr \<Rightarrow> pbuf \<Rightarrow> nat \<Rightarrow> 'a net_state_scheme \<Rightarrow> (addr \<times> 'a net_state_scheme) option" where
  "realloc_ram q b rem s =
     (if ptype b = PBUF_RAM \<and> rem \<noteq> len b then do {
        (q', h) \<leftarrow> mem_realloc (ram_heap s) q (u16 (usub64 (payload b) q + rem));
        lwip_assert (q' \<noteq> NULL);
        Some (q', s\<lparr>ram_heap := h\<rparr>)
      } else Some (q, s))"

definition realloc_free :: "addr \<Rightarrow> 'a net_state_scheme \<Rightarrow> 'a net_state_scheme option" where
  "realloc_free nxt s = (if nxt \<noteq> NULL then do { (n, s) \<leftarrow> pbuf_free nxt s; Some s } else Some s)"

definition pbuf_realloc :: "addr \<Rightarrow> nat \<Rightarrow> 'a net_state_scheme \<Rightarrow> 'a net_state_scheme option" where
  "pbuf_realloc p new_len s = do {
     lwip_assert (p \<noteq> NULL);
     b \<leftarrow> pbufs s p;
     if new_len \<ge> tot_len b then Some s
     else do {
       (q, rem, s) \<leftarrow> pbuf_realloc_skip p new_len (int new_len - int (tot_len b)) s;
       bq \<leftarrow> pbufs s q;
       (q, s) \<leftarrow> realloc_ram q bq rem s;
       s \<leftarrow> mod_pbuf q (\<lambda>b. b\<lparr>len := rem, tot_len := rem\<rparr>) s;
       bq \<leftarrow> pbufs s q;
       s \<leftarrow> realloc_free (pb_next bq) s;
       mod_pbuf q (\<lambda>b. b\<lparr>pb_next := NULL\<rparr>) s
     }
   }"

text \<open>\<open>True\<close> is the C result 1, failure.\<close>

definition pbuf_header :: "addr \<Rightarrow> int \<Rightarrow> 'a net_state_scheme \<Rightarrow> (bool \<times> 'a net_state_scheme) option" where
  "pbuf_header p inc s = do {
     lwip_assert (p \<noteq> NULL);
     if inc = 0 then Some (False, s)
     else do {
       b \<leftarrow> pbufs s p;
       lwip_assert (inc < 0 \<longrightarrow> nat (- inc) \<le> len b);
       let moved = nat (int (payload b) - inc);
       let b' = b\<lparr>payload := moved, len := add16 (len b) inc, tot_len := add16 (tot_len b) inc\<rparr>;
       if ptype b = PBUF_RAM \<or> ptype b = PBUF_POOL then
         (if moved < p + SIZEOF_STRUCT_PBUF then Some (True, s)
          else Some (False, put_pbuf p b' s))
       else if inc < 0 \<and> nat (- inc) \<le> len b then Some (False, put_pbuf p b' s)
       else Some (True, s)
     }
   }"

section \<open>Counting and linking\<close>

partial_function (option) pbuf_clen_loop :: "addr \<Rightarrow> nat \<Rightarrow> 'a net_state_scheme \<Rightarrow> nat option" where
  "pbuf_clen_loop p n s =
     (if p = NULL then Some n
      else Option.bind (pbufs s p) (\<lambda>b. pbuf_clen_loop (pb_next b) ((n + 1) mod 256) s))"

declare pbuf_clen_loop.simps [code]

definition pbuf_clen :: "addr \<Rightarrow> 'a net_state_scheme \<Rightarrow> nat option" where
  "pbuf_clen p s = pbuf_clen_loop p 0 s"

definition pbuf_ref :: "addr \<Rightarrow> 'a net_state_scheme \<Rightarrow> 'a net_state_scheme option" where
  "pbuf_ref p s = (if p \<noteq> NULL then mod_pbuf p (\<lambda>b. b\<lparr>ref := u16 (ref b + 1)\<rparr>) s else Some s)"

text \<open>The loop of \<open>pbuf_cat\<close>: it adds \<open>t->tot_len\<close> along the chain and returns the last pbuf.\<close>

partial_function (option) pbuf_cat_loop :: "addr \<Rightarrow> addr \<Rightarrow> 'a net_state_scheme \<Rightarrow> (addr \<times> 'a net_state_scheme) option" where
  "pbuf_cat_loop p t s = do {
     b \<leftarrow> pbufs s p;
     if pb_next b \<noteq> NULL then do {
       bt \<leftarrow> pbufs s t;
       pbuf_cat_loop (pb_next b) t (put_pbuf p (b\<lparr>tot_len := u16 (tot_len b + tot_len bt)\<rparr>) s)
     } else Some (p, s)
   }"

declare pbuf_cat_loop.simps [code]

definition pbuf_cat :: "addr \<Rightarrow> addr \<Rightarrow> 'a net_state_scheme \<Rightarrow> 'a net_state_scheme option" where
  "pbuf_cat h t s = do {
     lwip_assert (h \<noteq> NULL \<and> t \<noteq> NULL);
     (p, s) \<leftarrow> pbuf_cat_loop h t s;
     b \<leftarrow> pbufs s p;
     lwip_assert (tot_len b = len b);
     bt \<leftarrow> pbufs s t;
     Some (put_pbuf p (b\<lparr>tot_len := u16 (tot_len b + tot_len bt), pb_next := t\<rparr>) s)
   }"

definition pbuf_chain :: "addr \<Rightarrow> addr \<Rightarrow> 'a net_state_scheme \<Rightarrow> 'a net_state_scheme option" where
  "pbuf_chain h t s = do {
     s \<leftarrow> pbuf_cat h t s;
     pbuf_ref t s
   }"

definition pbuf_dechain :: "addr \<Rightarrow> 'a net_state_scheme \<Rightarrow> (addr \<times> 'a net_state_scheme) option" where
  "pbuf_dechain p s = do {
     b \<leftarrow> pbufs s p;
     let q = pb_next b;
     (tail_gone, s) \<leftarrow> (if q \<noteq> NULL then do {
         bq \<leftarrow> pbufs s q;
         lwip_assert (int (tot_len bq) = int (tot_len b) - int (len b));
         s \<leftarrow> mod_pbuf q (\<lambda>b'. b'\<lparr>tot_len := usub16 (tot_len b) (len b)\<rparr>) s;
         s \<leftarrow> mod_pbuf p (\<lambda>b. b\<lparr>pb_next := NULL, tot_len := len b\<rparr>) s;
         pbuf_free q s
       } else Some (1, s));
     b \<leftarrow> pbufs s p;
     lwip_assert (tot_len b = len b);
     Some (if tail_gone > 0 then NULL else q, s)
   }"

section \<open>Copying\<close>

text \<open>The check that the rest of a chain is not a queue of packets.\<close>

definition queue_check :: "addr \<Rightarrow> 'a net_state_scheme \<Rightarrow> unit option" where
  "queue_check p s = (if p \<noteq> NULL then do {
       b \<leftarrow> pbufs s p;
       lwip_assert (len b = tot_len b \<longrightarrow> pb_next b = NULL)
     } else Some ())"

text \<open>
  The loop of \<open>pbuf_copy\<close>. The assertions keep each offset within its pbuf, so the C
  differences are differences of naturals.
\<close>

partial_function (option) pbuf_copy_loop :: "addr \<Rightarrow> nat \<Rightarrow> addr \<Rightarrow> nat \<Rightarrow> 'a net_state_scheme \<Rightarrow> 'a net_state_scheme option" where
  "pbuf_copy_loop p_to offset_to p_from offset_from s = do {
     lwip_assert (p_to \<noteq> NULL);
     bt \<leftarrow> pbufs s p_to;
     bf \<leftarrow> pbufs s p_from;
     let n = (if len bt - offset_to \<ge> len bf - offset_from then len bf - offset_from else len bt - offset_to);
     let s = s\<lparr>bytes := memcpy (payload bt + offset_to) (payload bf + offset_from) n (bytes s)\<rparr>;
     lwip_assert (offset_to + n \<le> len bt);
     let (p_to, offset_to) = (if offset_to + n = len bt then (pb_next bt, 0) else (p_to, offset_to + n));
     lwip_assert (offset_from + n \<le> len bf);
     let (p_from, offset_from) = (if offset_from + n \<ge> len bf then (pb_next bf, 0) else (p_from, offset_from + n));
     queue_check p_from s;
     queue_check p_to s;
     if p_from \<noteq> NULL then pbuf_copy_loop p_to offset_to p_from offset_from s else Some s
   }"

declare pbuf_copy_loop.simps [code]

definition pbuf_copy :: "addr \<Rightarrow> addr \<Rightarrow> 'a net_state_scheme \<Rightarrow> (err_t \<times> 'a net_state_scheme) option" where
  "pbuf_copy p_to p_from s = do {
     lwip_assert (p_to \<noteq> NULL \<and> p_from \<noteq> NULL);
     bt \<leftarrow> pbufs s p_to;
     bf \<leftarrow> pbufs s p_from;
     lwip_assert (tot_len bt \<ge> tot_len bf);
     s \<leftarrow> pbuf_copy_loop p_to 0 p_from 0 s;
     Some (ERR_OK, s)
   }"

partial_function (option) copy_partial_loop ::
  "addr \<Rightarrow> addr \<Rightarrow> nat \<Rightarrow> nat \<Rightarrow> nat \<Rightarrow> 'a net_state_scheme \<Rightarrow> (nat \<times> 'a net_state_scheme) option" where
  "copy_partial_loop p dataptr left n offset s =
     (if n \<noteq> 0 \<and> p \<noteq> NULL then do {
        b \<leftarrow> pbufs s p;
        if offset \<noteq> 0 \<and> offset \<ge> len b then copy_partial_loop (pb_next b) dataptr left n (offset - len b) s
        else do {
          let k = min (len b - offset) n;
          let s = s\<lparr>bytes := memcpy (dataptr + left) (payload b + offset) k (bytes s)\<rparr>;
          copy_partial_loop (pb_next b) dataptr (u16 (left + k)) (n - k) 0 s
        }
      } else Some (left, s))"

declare copy_partial_loop.simps [code]

text \<open>The locals \<open>left\<close> and \<open>copied_total\<close> of the C function always agree: one variable here.\<close>

definition pbuf_copy_partial :: "addr \<Rightarrow> addr \<Rightarrow> nat \<Rightarrow> nat \<Rightarrow> 'a net_state_scheme \<Rightarrow> (nat \<times> 'a net_state_scheme) option" where
  "pbuf_copy_partial buf dataptr n offset s = do {
     lwip_assert (buf \<noteq> NULL);
     lwip_assert (dataptr \<noteq> NULL);
     copy_partial_loop buf dataptr 0 n offset s
   }"

partial_function (option) pbuf_take_loop :: "addr \<Rightarrow> addr \<Rightarrow> nat \<Rightarrow> nat \<Rightarrow> 'a net_state_scheme \<Rightarrow> (nat \<times> nat \<times> 'a net_state_scheme) option" where
  "pbuf_take_loop p dataptr todo copied s =
     (if todo \<noteq> 0 then do {
        lwip_assert (p \<noteq> NULL);
        b \<leftarrow> pbufs s p;
        let k = (if todo > len b then len b else todo);
        let s = s\<lparr>bytes := memcpy (payload b) (dataptr + copied) k (bytes s)\<rparr>;
        pbuf_take_loop (pb_next b) dataptr (todo - k) (copied + k) s
      } else Some (todo, copied, s))"

declare pbuf_take_loop.simps [code]

definition pbuf_take :: "addr \<Rightarrow> addr \<Rightarrow> nat \<Rightarrow> 'a net_state_scheme \<Rightarrow> (err_t \<times> 'a net_state_scheme) option" where
  "pbuf_take buf dataptr n s = do {
     lwip_assert (buf \<noteq> NULL);
     lwip_assert (dataptr \<noteq> NULL);
     b \<leftarrow> pbufs s buf;
     if tot_len b < n then Some (ERR_ARG, s)
     else do {
       (todo, copied, s) \<leftarrow> pbuf_take_loop buf dataptr n 0 s;
       lwip_assert (todo = 0 \<and> copied = n);
       Some (ERR_OK, s)
     }
   }"

definition pbuf_coalesce :: "addr \<Rightarrow> pbuf_layer \<Rightarrow> 'a net_state_scheme \<Rightarrow> (addr \<times> 'a net_state_scheme) option" where
  "pbuf_coalesce p layer s = do {
     b \<leftarrow> pbufs s p;
     if pb_next b = NULL then Some (p, s)
     else do {
       (q, s) \<leftarrow> pbuf_alloc layer (tot_len b) PBUF_RAM s;
       if q = NULL then Some (p, s)
       else do {
         (err, s) \<leftarrow> pbuf_copy q p s;
         lwip_assert (err = ERR_OK);
         (n, s) \<leftarrow> pbuf_free p s;
         Some (q, s)
       }
     }
   }"

section \<open>Chains\<close>

text \<open>
  \<open>pchain P p xs\<close>: following \<open>next\<close> from \<open>p\<close> visits exactly the live pbufs \<open>xs\<close> and ends at
  \<open>NULL\<close>. \<open>tots P xs k\<close>: each \<open>tot_len\<close> is the sum of the lengths from there on plus \<open>k\<close>;
  a packet is a chain with \<open>k = 0\<close>, the invariant stated in \<^verbatim>\<open>pbuf.h\<close>.
\<close>

fun pchain :: "(addr \<rightharpoonup> pbuf) \<Rightarrow> addr \<Rightarrow> addr list \<Rightarrow> bool" where
  "pchain P p [] \<longleftrightarrow> p = NULL"
| "pchain P p (x # xs) \<longleftrightarrow> p = x \<and> x \<noteq> NULL \<and> (case P x of None \<Rightarrow> False | Some b \<Rightarrow> pchain P (pb_next b) xs)"

fun pfield :: "(addr \<rightharpoonup> pbuf) \<Rightarrow> (pbuf \<Rightarrow> nat) \<Rightarrow> addr \<Rightarrow> nat" where
  "pfield P f x = (case P x of None \<Rightarrow> 0 | Some b \<Rightarrow> f b)"

definition plen :: "(addr \<rightharpoonup> pbuf) \<Rightarrow> addr list \<Rightarrow> nat" where
  "plen P xs = sum_list (map (pfield P len) xs)"

fun tots :: "(addr \<rightharpoonup> pbuf) \<Rightarrow> addr list \<Rightarrow> nat \<Rightarrow> bool" where
  "tots P [] k \<longleftrightarrow> True"
| "tots P (x # xs) k \<longleftrightarrow> pfield P tot_len x = plen P (x # xs) + k \<and> tots P xs k"

definition packet :: "(addr \<rightharpoonup> pbuf) \<Rightarrow> addr \<Rightarrow> addr list \<Rightarrow> bool" where
  "packet P p xs \<longleftrightarrow> xs \<noteq> [] \<and> pchain P p xs \<and> tots P xs 0 \<and> plen P xs < 65536"

definition pbuf_data :: "'a net_state_scheme \<Rightarrow> addr \<Rightarrow> u8_t list" where
  "pbuf_data s x = (case pbufs s x of None \<Rightarrow> [] | Some b \<Rightarrow> map (bytes s) [payload b..<payload b + len b])"

definition chain_data :: "'a net_state_scheme \<Rightarrow> addr list \<Rightarrow> u8_t list" where
  "chain_data s xs = concat (map (pbuf_data s) xs)"

lemma plen_simps [simp]:
  "plen P [] = 0" "plen P (x # xs) = pfield P len x + plen P xs" "plen P (xs @ ys) = plen P xs + plen P ys"
  by (simp_all add: plen_def)

lemma chain_data_simps [simp]:
  "chain_data s [] = []" "chain_data s (x # xs) = pbuf_data s x @ chain_data s xs"
  "chain_data s (xs @ ys) = chain_data s xs @ chain_data s ys"
  by (simp_all add: chain_data_def)

lemma length_pbuf_data [simp]: "length (pbuf_data s x) = pfield (pbufs s) len x"
  by (simp add: pbuf_data_def split: option.splits)

lemma length_chain_data [simp]: "length (chain_data s xs) = plen (pbufs s) xs"
  by (induction xs) simp_all

lemma pchain_ConsD:
  "pchain P p (x # xs) \<Longrightarrow> \<exists>b. p = x \<and> x \<noteq> NULL \<and> P x = Some b \<and> pchain P (pb_next b) xs"
  by (simp split: option.splits)

lemma pchain_live: "pchain P p xs \<Longrightarrow> x \<in> set xs \<Longrightarrow> x \<noteq> NULL \<and> (\<exists>b. P x = Some b)"
  by (induction xs arbitrary: p) (auto split: option.splits)

lemma pchain_upd_out: "x \<notin> set xs \<Longrightarrow> pchain (P(x := v)) p xs = pchain P p xs"
  by (induction xs arbitrary: p) (auto split: option.splits)

lemma plen_upd_out: "x \<notin> set xs \<Longrightarrow> plen (P(x := v)) xs = plen P xs"
  by (induction xs) auto

lemma tots_upd_out: "x \<notin> set xs \<Longrightarrow> tots (P(x := v)) xs k = tots P xs k"
  by (induction xs) (auto simp: plen_upd_out)

lemma pchain_unique: "pchain P p xs \<Longrightarrow> pchain P p ys \<Longrightarrow> xs = ys"
proof (induction xs arbitrary: p ys)
  case Nil
  then show ?case by (cases ys) simp_all
next
  case (Cons x xs)
  then show ?case by (cases ys) (auto split: option.splits)
qed

lemma pchain_suffix: "pchain P p (xs @ y # ys) \<Longrightarrow> pchain P y (y # ys)"
proof (induction xs arbitrary: p)
  case (Cons x xs)
  then show ?case using pchain_ConsD [of P p x "xs @ y # ys"] by auto
qed simp

lemma pchain_distinct: "pchain P p xs \<Longrightarrow> distinct xs"
proof (induction xs arbitrary: p)
  case (Cons x xs)
  from Cons.prems obtain b where b: "P x = Some b" "pchain P (pb_next b) xs" "pchain P x (x # xs)"
    by (auto split: option.splits)
  have "x \<notin> set xs"
  proof
    assume "x \<in> set xs"
    then obtain ys zs where xs: "xs = ys @ x # zs" by (meson split_list)
    then have "pchain P x (x # zs)" using b(2) pchain_suffix by blast
    then show False using pchain_unique [OF b(3)] xs by fastforce
  qed
  then show ?case using Cons.IH [OF b(2)] by simp
qed simp

text \<open>Chains and their sums depend only on the pbufs in them.\<close>

lemma pchain_cong: "(\<And>x. x \<in> set xs \<Longrightarrow> P x = Q x) \<Longrightarrow> pchain P p xs = pchain Q p xs"
  by (induction xs arbitrary: p) (auto split: option.splits)

lemma plen_cong: "(\<And>x. x \<in> set xs \<Longrightarrow> P x = Q x) \<Longrightarrow> plen P xs = plen Q xs"
  by (induction xs) auto

lemma tots_cong: "(\<And>x. x \<in> set xs \<Longrightarrow> P x = Q x) \<Longrightarrow> tots P xs k = tots Q xs k"
  by (induction xs) (auto simp: plen_cong [of _ P Q])

lemma packet_cong: "(\<And>x. x \<in> set xs \<Longrightarrow> P x = Q x) \<Longrightarrow> packet P p xs = packet Q p xs"
  by (simp add: packet_def pchain_cong [of xs P Q] plen_cong [of xs P Q] tots_cong [of xs P Q])

lemma packet_simps:
  "packet P p (x # xs) \<longleftrightarrow> p = x \<and> x \<noteq> NULL \<and> (\<exists>b. P x = Some b \<and> pchain P (pb_next b) xs
     \<and> tot_len b = len b + plen P xs \<and> tots P xs 0 \<and> tot_len b < 65536)"
  "\<not> packet P p []"
  by (auto simp: packet_def split: option.splits)

lemma packet_tail: "packet P p (x # xs) \<Longrightarrow> P x = Some b \<Longrightarrow> xs \<noteq> [] \<Longrightarrow> packet P (pb_next b) xs"
  by (auto simp: packet_def split: option.splits)

lemma chain_data_cong:
  "(\<And>x. x \<in> set xs \<Longrightarrow> pbuf_data s x = pbuf_data s' x) \<Longrightarrow> chain_data s xs = chain_data s' xs"
  by (induction xs) auto

lemma mod_pbuf_Some [simp]: "pbufs s p = Some b \<Longrightarrow> mod_pbuf p f s = Some (put_pbuf p (f b) s)"
  by (simp add: mod_pbuf_def)

lemma put_pbuf_simps [simp]:
  "pbufs (put_pbuf p b s) = (pbufs s)(p \<mapsto> b)" "ram_heap (put_pbuf p b s) = ram_heap s"
  "memp (put_pbuf p b s) = memp s" "bytes (put_pbuf p b s) = bytes s"
  "net_state.more (put_pbuf p b s) = net_state.more s"
  by (simp_all add: put_pbuf_def)

section \<open>Invariant\<close>

text \<open>
  \<open>net_ok\<close>: both allocators are well formed and lie in separate memory; every pbuf sits on a
  live block of the allocator its type names, and the payload of a \<open>PBUF_RAM\<close> or \<open>PBUF_POOL\<close>
  pbuf lies inside that block, behind the header.
\<close>

fun pbuf_room :: "(addr \<rightharpoonup> nat) \<Rightarrow> (addr \<rightharpoonup> memp_t) \<Rightarrow> addr \<Rightarrow> pbuf_type \<Rightarrow> nat option" where
  "pbuf_room hl pl p PBUF_RAM = hl p"
| "pbuf_room hl pl p PBUF_POOL = (if pl p = Some MEMP_PBUF_POOL then Some (SIZEOF_STRUCT_PBUF + PBUF_POOL_BUFSIZE_ALIGNED) else None)"
| "pbuf_room hl pl p _ = (if pl p = Some MEMP_PBUF then Some SIZEOF_STRUCT_PBUF else None)"

definition pbuf_ok :: "(addr \<rightharpoonup> nat) \<Rightarrow> (addr \<rightharpoonup> memp_t) \<Rightarrow> addr \<Rightarrow> pbuf \<Rightarrow> bool" where
  "pbuf_ok hl pl p b \<longleftrightarrow> 0 < ref b \<and> ref b < 65536 \<and> len b < 65536 \<and> tot_len b < 65536 \<and>
     (case pbuf_room hl pl p (ptype b) of None \<Rightarrow> False
      | Some k \<Rightarrow> ptype b = PBUF_RAM \<or> ptype b = PBUF_POOL \<longrightarrow>
          p + SIZEOF_STRUCT_PBUF \<le> payload b \<and> payload b + len b \<le> p + k)"

definition regions_apart :: "(memp_t \<Rightarrow> nat) \<Rightarrow> addr \<Rightarrow> addr \<Rightarrow> bool" where
  "regions_apart sizes base ramstart \<longleftrightarrow>
     ramstart + MEM_SIZE_ALIGNED \<le> base \<or> base + (\<Sum>t\<leftarrow>memp_pools. memp_num t * sizes t) \<le> ramstart"

definition net_ok :: "(memp_t \<Rightarrow> nat) \<Rightarrow> addr \<Rightarrow> 'a net_state_scheme \<Rightarrow> bool" where
  "net_ok sizes base s \<longleftrightarrow> mem_ok (ram_heap s) \<and> memp_ok sizes base (memp s)
     \<and> sizes MEMP_PBUF = SIZEOF_STRUCT_PBUF \<and> sizes MEMP_PBUF_POOL = SIZEOF_STRUCT_PBUF + PBUF_POOL_BUFSIZE_ALIGNED
     \<and> regions_apart sizes base (ram (ram_heap s))
     \<and> (\<forall>p b. pbufs s p = Some b \<longrightarrow> pbuf_ok (mem_live (ram_heap s)) (memp_live sizes base (memp s)) p b)"

lemma net_okD:
  assumes "net_ok sizes base s"
  shows "mem_ok (ram_heap s)" and "memp_ok sizes base (memp s)"
    and "pbufs s p = Some b \<Longrightarrow> pbuf_ok (mem_live (ram_heap s)) (memp_live sizes base (memp s)) p b"
  using assms by (simp_all add: net_ok_def)

lemma net_ok_put:
  assumes "net_ok sizes base s" and "pbuf_ok (mem_live (ram_heap s)) (memp_live sizes base (memp s)) p b"
  shows "net_ok sizes base (put_pbuf p b s)"
  using assms by (auto simp: net_ok_def)

section \<open>Releasing chains\<close>

text \<open>
  The pbufs a free deallocates are the longest prefix of the chain with reference count 1; the
  next one, if any, loses a reference.
\<close>

definition unshared :: "(addr \<rightharpoonup> pbuf) \<Rightarrow> addr list \<Rightarrow> addr list" where
  "unshared P xs = takeWhile (\<lambda>x. pfield P ref x = 1) xs"

fun free_map :: "(addr \<rightharpoonup> pbuf) \<Rightarrow> addr list \<Rightarrow> (addr \<rightharpoonup> pbuf)" where
  "free_map P [] = P"
| "free_map P (x # xs) = (case P x of None \<Rightarrow> P
     | Some b \<Rightarrow> if ref b = 1 then free_map (P(x := None)) xs else P(x \<mapsto> b\<lparr>ref := ref b - 1\<rparr>))"

definition on_heap :: "(addr \<rightharpoonup> pbuf) \<Rightarrow> addr list \<Rightarrow> addr set" where
  "on_heap P xs = {x \<in> set xs. \<exists>b. P x = Some b \<and> ptype b = PBUF_RAM}"

definition in_pool :: "(addr \<rightharpoonup> pbuf) \<Rightarrow> addr list \<Rightarrow> addr set" where
  "in_pool P xs = {x \<in> set xs. \<exists>b. P x = Some b \<and> ptype b \<noteq> PBUF_RAM}"

lemma unshared_upd_out: "x \<notin> set xs \<Longrightarrow> unshared (P(x := v)) xs = unshared P xs"
  unfolding unshared_def by (rule takeWhile_cong) auto

lemma on_heap_simps:
  "on_heap P [] = {}" "in_pool P [] = {}"
  "P x = Some b \<Longrightarrow> on_heap P (x # xs) = (if ptype b = PBUF_RAM then insert x (on_heap P xs) else on_heap P xs)"
  "P x = Some b \<Longrightarrow> in_pool P (x # xs) = (if ptype b = PBUF_RAM then in_pool P xs else insert x (in_pool P xs))"
  "y \<notin> set xs \<Longrightarrow> on_heap (P(y := v)) xs = on_heap P xs"
  "y \<notin> set xs \<Longrightarrow> in_pool (P(y := v)) xs = in_pool P xs"
  by (auto simp: on_heap_def in_pool_def)

lemma pbuf_ok_room:
  assumes "pbuf_ok hl pl p b"
  shows "ptype b = PBUF_RAM \<Longrightarrow> \<exists>k. hl p = Some k"
    and "ptype b \<noteq> PBUF_RAM \<Longrightarrow> pl p = Some (if ptype b = PBUF_POOL then MEMP_PBUF_POOL else MEMP_PBUF)"
  using assms by (cases "ptype b"; auto simp: pbuf_ok_def split: option.splits if_splits)+

lemma pbuf_ok_mono:
  assumes "pbuf_ok hl pl p b" and "ptype b = PBUF_RAM \<Longrightarrow> hl' p = hl p" and "ptype b \<noteq> PBUF_RAM \<Longrightarrow> pl' p = pl p"
  shows "pbuf_ok hl' pl' p b"
proof -
  have "pbuf_room hl' pl' p (ptype b) = pbuf_room hl pl p (ptype b)"
    using assms(2,3) by (cases "ptype b") auto
  then show ?thesis using assms(1) by (simp add: pbuf_ok_def)
qed

lemma restrict_map_UNIV [simp]: "m |` UNIV = m"
  by (simp add: restrict_map_def)

lemma net_okI:
  assumes "net_ok sizes base s" and "mem_ok (ram_heap s')" and "ram (ram_heap s') = ram (ram_heap s)"
    and "memp_ok sizes base (memp s')"
    and "\<And>p b. pbufs s' p = Some b \<Longrightarrow> pbuf_ok (mem_live (ram_heap s')) (memp_live sizes base (memp s')) p b"
  shows "net_ok sizes base s'"
  using assms by (simp add: net_ok_def)

lemma pbuf_release_ok:
  assumes "net_ok sizes base s" and "pbufs s p = Some b" and "p \<noteq> NULL"
  shows "\<exists>s'. pbuf_release p (ptype b) (put_pbuf p b' s) = Some s' \<and> net_ok sizes base s'
    \<and> pbufs s' = (pbufs s)(p := None) \<and> bytes s' = bytes s \<and> net_state.more s' = net_state.more s
    \<and> ram (ram_heap s') = ram (ram_heap s)
    \<and> mem_live (ram_heap s') = mem_live (ram_heap s) |` (- on_heap (pbufs s) [p])
    \<and> memp_live sizes base (memp s') = memp_live sizes base (memp s) |` (- in_pool (pbufs s) [p])"
proof -
  let ?hl = "mem_live (ram_heap s)" and ?pl = "memp_live sizes base (memp s)"
  let ?s = "(put_pbuf p b' s)\<lparr>pbufs := (pbufs s)(p := None)\<rparr>"
  note ok = net_okD [OF assms(1)]
  have b: "pbuf_ok ?hl ?pl p b" by (rule ok(3) [OF assms(2)])
  have others: "pbuf_ok ?hl ?pl q c \<and> q \<noteq> p" if "((pbufs s)(p := None)) q = Some c" for q c
    using that ok(3) by (auto split: if_splits)
  show ?thesis
  proof (cases "ptype b = PBUF_RAM")
    case True
    then obtain k where k: "?hl p = Some k" using pbuf_ok_room(1) [OF b] by blast
    obtain h where h: "mem_free (ram_heap s) p = Some h" "mem_ok h" "ram h = ram (ram_heap s)" "mem_live h = ?hl(p := None)"
      using mem_free_live [OF ok(1) k] by blast
    let ?s' = "?s\<lparr>ram_heap := h\<rparr>"
    have "net_ok sizes base ?s'"
    proof (rule net_okI [OF assms(1)])
      fix q c
      assume "pbufs ?s' q = Some c"
      then have "((pbufs s)(p := None)) q = Some c" by simp
      then have q: "pbuf_ok ?hl ?pl q c" "q \<noteq> p" by (rule conjunct1 [OF others], rule conjunct2 [OF others])
      show "pbuf_ok (mem_live (ram_heap ?s')) (memp_live sizes base (memp ?s')) q c"
        by (rule pbuf_ok_mono [OF q(1)]) (simp_all add: h(4) q(2))
    qed (use h ok in simp_all)
    moreover have "pbuf_release p (ptype b) (put_pbuf p b' s) = Some ?s'"
      using True h(1) by (simp add: pbuf_release_def put_pbuf_def fun_upd_idem)
    moreover have "on_heap (pbufs s) [p] = {p}" "in_pool (pbufs s) [p] = {}"
      using True assms(2) by (simp_all add: on_heap_simps)
    ultimately show ?thesis
      using h by (intro exI [of _ ?s'] conjI) (simp_all add: restrict_complement_singleton_eq)
  next
    case False
    let ?t = "if ptype b = PBUF_POOL then MEMP_PBUF_POOL else MEMP_PBUF"
    have k: "?pl p = Some ?t" using pbuf_ok_room(2) [OF b False] .
    obtain m where m: "memp_free (memp s) ?t p = Some m" "memp_ok sizes base m" "memp_live sizes base m = ?pl(p := None)"
      using pool.release_live [OF ok(2) k] by blast
    let ?s' = "?s\<lparr>memp := m\<rparr>"
    have "net_ok sizes base ?s'"
    proof (rule net_okI [OF assms(1)])
      fix q c
      assume "pbufs ?s' q = Some c"
      then have "((pbufs s)(p := None)) q = Some c" by simp
      then have q: "pbuf_ok ?hl ?pl q c" "q \<noteq> p" by (rule conjunct1 [OF others], rule conjunct2 [OF others])
      show "pbuf_ok (mem_live (ram_heap ?s')) (memp_live sizes base (memp ?s')) q c"
        by (rule pbuf_ok_mono [OF q(1)]) (simp_all add: m(3) q(2))
    qed (use m ok in simp_all)
    moreover have "pbuf_release p (ptype b) (put_pbuf p b' s) = Some ?s'"
      using False m(1) by (cases "ptype b") (simp_all add: pbuf_release_def put_pbuf_def)
    moreover have "on_heap (pbufs s) [p] = {}" "in_pool (pbufs s) [p] = {p}"
      using False assms(2) by (simp_all add: on_heap_simps)
    ultimately show ?thesis
      using m by (intro exI [of _ ?s'] conjI) (simp_all add: restrict_complement_singleton_eq)
  qed
qed

lemma pbuf_free_loop_chain:
  assumes "net_ok sizes base s" and "pchain (pbufs s) p xs" and "c < 256"
  shows "\<exists>s'. pbuf_free_loop p c s = Some ((c + length (unshared (pbufs s) xs)) mod 256, s')
    \<and> net_ok sizes base s' \<and> pbufs s' = free_map (pbufs s) xs \<and> bytes s' = bytes s
    \<and> net_state.more s' = net_state.more s \<and> ram (ram_heap s') = ram (ram_heap s)
    \<and> mem_live (ram_heap s') = mem_live (ram_heap s) |` (- on_heap (pbufs s) (unshared (pbufs s) xs))
    \<and> memp_live sizes base (memp s') = memp_live sizes base (memp s) |` (- in_pool (pbufs s) (unshared (pbufs s) xs))"
  using assms
proof (induction xs arbitrary: p c s)
  case Nil
  then show ?case
    by (simp add: pbuf_free_loop.simps unshared_def on_heap_simps)
next
  case (Cons x xs)
  then obtain b where b: "p = x" "x \<noteq> NULL" "pbufs s x = Some b" "pchain (pbufs s) (pb_next b) xs"
    using pchain_ConsD by meson
  have x: "x \<notin> set xs" using pchain_distinct [OF Cons.prems(2)] by simp
  note okb = net_okD(3) [OF Cons.prems(1) b(3)]
  then have r: "0 < ref b" by (simp add: pbuf_ok_def)
  show ?case
  proof (cases "ref b = 1")
    case True
    obtain s1 where s1: "pbuf_release x (ptype b) (put_pbuf x (b\<lparr>ref := 0\<rparr>) s) = Some s1" "net_ok sizes base s1"
      "pbufs s1 = (pbufs s)(x := None)" "bytes s1 = bytes s" "net_state.more s1 = net_state.more s" "ram (ram_heap s1) = ram (ram_heap s)"
      "mem_live (ram_heap s1) = mem_live (ram_heap s) |` (- on_heap (pbufs s) [x])"
      "memp_live sizes base (memp s1) = memp_live sizes base (memp s) |` (- in_pool (pbufs s) [x])"
      using pbuf_release_ok [OF Cons.prems(1) b(3,2)] by blast
    have us: "unshared (pbufs s) (x # xs) = x # unshared (pbufs s) xs" "unshared (pbufs s1) xs = unshared (pbufs s) xs"
      using True b(3) by (simp add: unshared_def) (simp only: s1(3) unshared_upd_out [OF x])
    have xu: "x \<notin> set (unshared (pbufs s) xs)" using x by (auto simp: unshared_def dest: set_takeWhileD)
    have "pchain (pbufs s1) (pb_next b) xs"
      using b(4) x s1(3) by (simp add: pchain_upd_out)
    then obtain s' where s': "pbuf_free_loop (pb_next b) ((c + 1) mod 256) s1 =
        Some (((c + 1) mod 256 + length (unshared (pbufs s1) xs)) mod 256, s')" "net_ok sizes base s'"
      "pbufs s' = free_map (pbufs s1) xs" "bytes s' = bytes s1" "net_state.more s' = net_state.more s1" "ram (ram_heap s') = ram (ram_heap s1)"
      "mem_live (ram_heap s') = mem_live (ram_heap s1) |` (- on_heap (pbufs s1) (unshared (pbufs s1) xs))"
      "memp_live sizes base (memp s') = memp_live sizes base (memp s1) |` (- in_pool (pbufs s1) (unshared (pbufs s1) xs))"
      using Cons.IH [OF s1(2), of "pb_next b" "(c + 1) mod 256"] by auto
    have run: "pbuf_free_loop p c s = Some ((c + length (unshared (pbufs s) (x # xs))) mod 256, s')"
      using b(1-3) r True s1(1) s'(1) us by (subst pbuf_free_loop.simps) (simp add: mod_simps)
    have "on_heap (pbufs s1) us = on_heap (pbufs s) us" "in_pool (pbufs s1) us = in_pool (pbufs s) us"
      if "us = unshared (pbufs s) xs" for us
      using xu that by (simp_all add: s1(3) on_heap_simps)
    note part = this [OF refl]
    have cons: "on_heap (pbufs s) (x # us) = on_heap (pbufs s) [x] \<union> on_heap (pbufs s) us"
      "in_pool (pbufs s) (x # us) = in_pool (pbufs s) [x] \<union> in_pool (pbufs s) us" for us
      by (auto simp: on_heap_def in_pool_def)
    have "pbufs s' = free_map (pbufs s) (x # xs)"
      using s'(3) s1(3) True b(3) by simp
    moreover have "mem_live (ram_heap s') = mem_live (ram_heap s) |` (- on_heap (pbufs s) (unshared (pbufs s) (x # xs)))"
      unfolding s'(7) s1(7) us part cons(1) [of "unshared (pbufs s) xs"] restrict_restrict Compl_Un ..
    moreover have "memp_live sizes base (memp s') = memp_live sizes base (memp s) |` (- in_pool (pbufs s) (unshared (pbufs s) (x # xs)))"
      unfolding s'(8) s1(8) us part cons(2) [of "unshared (pbufs s) xs"] restrict_restrict Compl_Un ..
    ultimately show ?thesis
      using run s'(2,4-6) s1(4-6) by simp
  next
    case False
    have "pbuf_ok (mem_live (ram_heap s)) (memp_live sizes base (memp s)) x (b\<lparr>ref := ref b - 1\<rparr>)"
      using okb False by (auto simp: pbuf_ok_def split: option.splits)
    then have "net_ok sizes base (put_pbuf x (b\<lparr>ref := ref b - 1\<rparr>) s)"
      by (rule net_ok_put [OF Cons.prems(1)])
    moreover have "ref b - 1 \<noteq> 0" using False r by simp
    then have "pbuf_free_loop p c s = Some (c, put_pbuf x (b\<lparr>ref := ref b - 1\<rparr>) s)"
      using b(1-3) r by (subst pbuf_free_loop.simps) simp
    moreover have "unshared (pbufs s) (x # xs) = []" using False b(3) by (simp add: unshared_def)
    ultimately show ?thesis
      using False b(3) Cons.prems(3)
      by (intro exI [of _ "put_pbuf x (b\<lparr>ref := ref b - 1\<rparr>) s"] conjI) (simp_all add: on_heap_simps fun_upd_def)
  qed
qed
text \<open>A chain whose pbufs all have one reference is freed whole.\<close>

definition sole :: "(addr \<rightharpoonup> pbuf) \<Rightarrow> addr list \<Rightarrow> bool" where
  "sole P xs \<longleftrightarrow> list_all (\<lambda>x. pfield P ref x = 1) xs"

lemma sole_unshared: "sole P xs \<Longrightarrow> unshared P xs = xs"
  by (simp add: sole_def unshared_def list_all_iff)

lemma sole_upd_out: "x \<notin> set xs \<Longrightarrow> sole (P(x := v)) xs = sole P xs"
  by (auto simp: sole_def list_all_iff)

lemma sole_free_map: "sole P xs \<Longrightarrow> distinct xs \<Longrightarrow> free_map P xs = P |` (- set xs)"
proof (induction xs arbitrary: P)
  case (Cons x xs)
  then obtain b where b: "P x = Some b" "ref b = 1" "sole P xs" "x \<notin> set xs" "distinct xs"
    by (auto simp: sole_def split: option.splits)
  have "free_map P (x # xs) = P(x := None) |` (- set xs)"
    using b(1,2) Cons.IH [OF sole_upd_out [THEN iffD2, OF b(4,3)] b(5), of None] by (simp del: fun_upd_apply)
  also have "\<dots> = P |` (- set (x # xs))"
    by (auto simp: restrict_map_def)
  finally show ?case .
qed simp

section \<open>Linking chains\<close>

lemma pchain_append:
  assumes "pchain P p xs" and "xs \<noteq> []" and "pchain P t ys" and "set xs \<inter> set ys = {}" and "pb_next b = t"
  shows "pchain (P(last xs \<mapsto> b)) p (xs @ ys)"
  using assms
proof (induction xs arbitrary: p)
  case (Cons x xs)
  obtain c where c: "p = x" "x \<noteq> NULL" "P x = Some c" "pchain P (pb_next c) xs"
    using pchain_ConsD [OF Cons.prems(1)] by blast
  show ?case
  proof (cases "xs = []")
    case True
    then have "pchain (P(x \<mapsto> b)) t ys" using Cons.prems(3,4) by (subst pchain_upd_out) simp_all
    then show ?thesis using c(1,2) True Cons.prems(5) by (simp del: fun_upd_apply add: fun_upd_same)
  next
    case False
    have "last xs \<noteq> x"
      using pchain_distinct [OF Cons.prems(1)] False by (auto dest: last_in_set)
    then show ?thesis
      using Cons.IH [OF c(4) False Cons.prems(3)] Cons.prems(4,5) c False by auto
  qed
qed simp

lemma plen_fields:
  "(\<And>x. x \<in> set xs \<Longrightarrow> pfield P len x = pfield Q len x) \<Longrightarrow> plen P xs = plen Q xs"
  by (induction xs) (simp_all del: pfield.simps)

lemma tots_fields:
  "(\<And>x. x \<in> set xs \<Longrightarrow> pfield P len x = pfield Q len x \<and> pfield P tot_len x = pfield Q tot_len x) \<Longrightarrow> tots P xs k = tots Q xs k"
  by (induction xs) (simp_all del: pfield.simps add: plen_fields [of _ P Q])

lemma tots_append: "tots P (xs @ ys) k \<longleftrightarrow> tots P xs (plen P ys + k) \<and> tots P ys k"
  by (induction xs) (auto simp del: pfield.simps)

section \<open>Fresh memory\<close>

lemma mem_live_bounds:
  assumes "mem_ok h" and "mem_live h p = Some k"
  shows "ram h < p" and "p + k \<le> ram h + MEM_SIZE_ALIGNED" and "0 < k"
  using assms mem_live_iff [OF assms(1), of p k] mem_ok_bounds [OF assms(1)] by (fastforce simp: lwip_simps)+

lemma memp_live_bounds:
  assumes "memp_ok sizes base m" and "(p, t) \<in> set (memp_slots sizes base)"
  shows "base \<le> p" and "p + sizes t \<le> base + (\<Sum>t\<leftarrow>memp_pools. memp_num t * sizes t)" and "0 < sizes t"
  using memp_layout_bounds [of p t sizes memp_pools base] memp_okD(1) [OF assms(1)] assms(2) set_memp_pools
  by (auto simp: memp_slots_def)

lemma heap_not_pool:
  assumes "net_ok sizes base s" and "mem_ok h" and "ram h = ram (ram_heap s)" and "mem_live h p = Some k"
  shows "(p, t) \<notin> set (memp_slots sizes base)"
proof
  assume s: "(p, t) \<in> set (memp_slots sizes base)"
  show False
    using memp_live_bounds [OF net_okD(2) [OF assms(1)] s] mem_live_bounds [OF assms(2,4)] assms(1,3)
    by (auto simp: net_ok_def regions_apart_def)
qed

lemma pool_fresh:
  assumes "net_ok sizes base s" and "memp_malloc (memp s) t = Some (q, m)" and "q \<noteq> NULL"
    and "t = MEMP_PBUF \<or> t = MEMP_PBUF_POOL"
  shows "pbufs s q = None" and "net_ok sizes base (s\<lparr>memp := m\<rparr>)"
    and "memp_live sizes base m = (memp_live sizes base (memp s))(q \<mapsto> t)" and "memp_live sizes base (memp s) q = None"
proof -
  note ok = net_okD [OF assms(1)]
  note m = memp_malloc_live [OF ok(2) assms(2,3)]
  show new: "memp_live sizes base m = (memp_live sizes base (memp s))(q \<mapsto> t)"
    and old: "memp_live sizes base (memp s) q = None" using m by simp_all
  have slot: "(q, t) \<in> set (memp_slots sizes base)"
    using memp_live_iff [OF m(1), of q t] new by simp
  show q: "pbufs s q = None"
  proof (cases "pbufs s q")
    case (Some b)
    have "mem_live (ram_heap s) q = None"
      using heap_not_pool [OF assms(1) ok(1) refl] slot by (cases "mem_live (ram_heap s) q") auto
    then show ?thesis
      using pbuf_ok_room [OF ok(3) [OF Some]] old by (cases "ptype b = PBUF_RAM") simp_all
  qed simp
  show "net_ok sizes base (s\<lparr>memp := m\<rparr>)"
  proof (rule net_okI [OF assms(1)])
    fix p b
    assume "pbufs (s\<lparr>memp := m\<rparr>) p = Some b"
    then have p: "pbufs s p = Some b" "p \<noteq> q" using q by auto
    show "pbuf_ok (mem_live (ram_heap (s\<lparr>memp := m\<rparr>))) (memp_live sizes base (memp (s\<lparr>memp := m\<rparr>))) p b"
      by (rule pbuf_ok_mono [OF ok(3) [OF p(1)]]) (simp_all add: new p(2))
  qed (use m(1) ok in simp_all)
qed

lemma heap_fresh:
  assumes "net_ok sizes base s" and "mem_malloc (ram_heap s) n = Some (q, h)" and "q \<noteq> NULL" and "0 < n" and "n < 65536"
  shows "pbufs s q = None" and "net_ok sizes base (s\<lparr>ram_heap := h\<rparr>)"
    and "\<exists>k. n \<le> k \<and> mem_live h = (mem_live (ram_heap s))(q \<mapsto> k)" and "ram h = ram (ram_heap s)"
    and "mem_live (ram_heap s) q = None"
proof -
  note ok = net_okD [OF assms(1)]
  obtain k where k: "mem_ok h" "ram h = ram (ram_heap s)" "mem_live (ram_heap s) q = None" "request n \<le> k"
    "mem_live h = (mem_live (ram_heap s))(q \<mapsto> k)"
    using mem_malloc_live [OF ok(1) assms(4,5,2,3)] by blast
  show "\<exists>k. n \<le> k \<and> mem_live h = (mem_live (ram_heap s))(q \<mapsto> k)"
    using k(4,5) by (auto simp: request_def)
  show "ram h = ram (ram_heap s)" "mem_live (ram_heap s) q = None" by fact+
  have "mem_live h q = Some k" by (simp add: k(5))
  note slot = heap_not_pool [OF assms(1) k(1,2) this]
  show q: "pbufs s q = None"
  proof (cases "pbufs s q")
    case (Some b)
    show ?thesis
      using pbuf_ok_room [OF ok(3) [OF Some]] k(3) slot memp_live_iff [OF ok(2), of q] by auto
  qed simp
  show "net_ok sizes base (s\<lparr>ram_heap := h\<rparr>)"
  proof (rule net_okI [OF assms(1)])
    fix p b
    assume "pbufs (s\<lparr>ram_heap := h\<rparr>) p = Some b"
    then have p: "pbufs s p = Some b" "p \<noteq> q" using q by auto
    show "pbuf_ok (mem_live (ram_heap (s\<lparr>ram_heap := h\<rparr>))) (memp_live sizes base (memp (s\<lparr>ram_heap := h\<rparr>))) p b"
      by (rule pbuf_ok_mono [OF ok(3) [OF p(1)]]) (simp_all add: k(5) p(2))
  qed (use k ok in simp_all)
qed

section \<open>Allocating chains\<close>

definition pool_kind :: "(addr \<rightharpoonup> pbuf) \<Rightarrow> pbuf_type \<Rightarrow> addr list \<Rightarrow> bool" where
  "pool_kind P ty xs \<longleftrightarrow> list_all (\<lambda>x. \<exists>b. P x = Some b \<and> ptype b = ty \<and> flags b = 0 \<and> ref b = 1) xs"

lemma pool_kind_sole: "pool_kind P ty xs \<Longrightarrow> sole P xs"
  by (auto simp: pool_kind_def sole_def list_all_iff)

lemma pool_kind_parts:
  "pool_kind P ty xs \<Longrightarrow> ty \<noteq> PBUF_RAM \<Longrightarrow> on_heap P xs = {} \<and> in_pool P xs = set xs"
  by (fastforce simp: pool_kind_def list_all_iff on_heap_def in_pool_def)

lemma pool_kind_cong: "(\<And>x. x \<in> set xs \<Longrightarrow> P x = Q x) \<Longrightarrow> pool_kind P ty xs = pool_kind Q ty xs"
  by (auto simp: pool_kind_def list_all_iff)

text \<open>Freeing a chain that nobody shares returns exactly its blocks.\<close>

lemma pbuf_free_sole:
  assumes "net_ok sizes base s" and "pchain (pbufs s) p xs" and "xs \<noteq> []" and "sole (pbufs s) xs"
  shows "\<exists>s'. pbuf_free p s = Some (length xs mod 256, s') \<and> net_ok sizes base s' \<and> pbufs s' = pbufs s |` (- set xs)
    \<and> bytes s' = bytes s \<and> net_state.more s' = net_state.more s \<and> ram (ram_heap s') = ram (ram_heap s)
    \<and> mem_live (ram_heap s') = mem_live (ram_heap s) |` (- on_heap (pbufs s) xs)
    \<and> memp_live sizes base (memp s') = memp_live sizes base (memp s) |` (- in_pool (pbufs s) xs)"
proof -
  have "p \<noteq> NULL" using assms(2,3) by (cases xs) auto
  then show ?thesis
    using pbuf_free_loop_chain [OF assms(1,2), of 0] sole_free_map [OF assms(4) pchain_distinct [OF assms(2)]]
    by (simp add: pbuf_free_def sole_unshared [OF assms(4)])
qed

text \<open>One round of the allocation loop: the new pbuf \<open>q\<close> goes behind the last one.\<close>

lemma alloc_link:
  assumes ok: "net_ok sizes base s" and ch: "pchain (pbufs s) p xs" "xs \<noteq> []" "tots (pbufs s) xs rem" "pool_kind (pbufs s) PBUF_POOL xs"
    and q: "memp_malloc (memp s) MEMP_PBUF_POOL = Some (q, m)" "q \<noteq> NULL" and rem: "0 < rem" "rem < 65535"
    and bq: "bq = \<lparr>pb_next = NULL, payload = q + SIZEOF_STRUCT_PBUF, tot_len = rem, len = min rem PBUF_POOL_BUFSIZE_ALIGNED,
        ptype = PBUF_POOL, flags = 0, ref = 1\<rparr>"
    and b: "pbufs s (last xs) = Some b"
    and s': "s' = put_pbuf (last xs) (b\<lparr>pb_next := q\<rparr>) (put_pbuf q bq (s\<lparr>memp := m\<rparr>))"
  shows "net_ok sizes base s'" and "pchain (pbufs s') p (xs @ [q])"
    and "tots (pbufs s') (xs @ [q]) (rem - min rem PBUF_POOL_BUFSIZE_ALIGNED)" and "pool_kind (pbufs s') PBUF_POOL (xs @ [q])"
    and "plen (pbufs s') xs = plen (pbufs s) xs" and "q \<notin> set xs" and "pbufs s q = None"
    and "memp_live sizes base m = (memp_live sizes base (memp s))(q \<mapsto> MEMP_PBUF_POOL)"
proof -
  note fr = pool_fresh [OF ok q disjI2 [OF refl]]
  show qn: "q \<notin> set xs" using fr(1) pchain_live [OF ch(1)] by force
  show "pbufs s q = None" "memp_live sizes base m = (memp_live sizes base (memp s))(q \<mapsto> MEMP_PBUF_POOL)" by fact+
  let ?r = "last xs"
  have r: "?r \<in> set xs" "?r \<noteq> q" using ch(2) qn by (auto dest: last_in_set)
  let ?s1 = "put_pbuf q bq (s\<lparr>memp := m\<rparr>)"
  have ok1: "net_ok sizes base ?s1"
  proof (rule net_ok_put [OF fr(2)])
    show "pbuf_ok (mem_live (ram_heap (s\<lparr>memp := m\<rparr>))) (memp_live sizes base (memp (s\<lparr>memp := m\<rparr>))) q bq"
      using rem by (simp add: pbuf_ok_def bq fr(3) lwip_simps)
  qed
  have "pbuf_ok (mem_live (ram_heap ?s1)) (memp_live sizes base (memp ?s1)) ?r b"
    using net_okD(3) [OF ok1, of ?r b] r(2) b by simp
  then have "pbuf_ok (mem_live (ram_heap ?s1)) (memp_live sizes base (memp ?s1)) ?r (b\<lparr>pb_next := q\<rparr>)"
    by (simp add: pbuf_ok_def split: option.splits)
  then show "net_ok sizes base s'" unfolding s' by (rule net_ok_put [OF ok1])
  have P: "pbufs s' = (pbufs ?s1)(?r \<mapsto> b\<lparr>pb_next := q\<rparr>)" "pbufs ?s1 = (pbufs s)(q \<mapsto> bq)" by (simp_all add: s')
  have "pchain (pbufs ?s1) p xs" unfolding P(2) using ch(1) qn by (simp only: pchain_upd_out not_False_eq_True)
  moreover have "pchain (pbufs ?s1) q [q]" using q(2) by (simp add: bq)
  ultimately show "pchain (pbufs s') p (xs @ [q])"
    unfolding P(1) by (rule pchain_append [OF _ ch(2)]) (use qn in simp_all)
  have same: "pfield (pbufs s') len x = pfield (pbufs s) len x \<and> pfield (pbufs s') tot_len x = pfield (pbufs s) tot_len x"
    if "x \<in> set xs" for x
    using that qn b by (auto simp: P)
  then show l: "plen (pbufs s') xs = plen (pbufs s) xs"
    by (intro plen_fields) simp
  have "tots (pbufs s') xs rem"
    using ch(3) tots_fields [of xs "pbufs s'" "pbufs s" rem] same by simp
  moreover have "pbufs s' q = Some bq" using r(2) by (simp add: P)
  ultimately show "tots (pbufs s') (xs @ [q]) (rem - min rem PBUF_POOL_BUFSIZE_ALIGNED)"
    by (simp add: tots_append bq min_def)
  show "pool_kind (pbufs s') PBUF_POOL (xs @ [q])"
    using ch(4) b r unfolding pool_kind_def list_all_iff by (auto simp: P bq)
qed

definition alloc_tail_post ::
  "(memp_t \<Rightarrow> nat) \<Rightarrow> addr \<Rightarrow> 'a net_state_scheme \<Rightarrow> addr \<Rightarrow> addr list \<Rightarrow> nat \<Rightarrow> bool \<Rightarrow> 'a net_state_scheme \<Rightarrow> bool" where
  "alloc_tail_post sizes base s p xs rem ok s' \<longleftrightarrow>
     (if ok then \<exists>ys. pchain (pbufs s') p (xs @ ys) \<and> tots (pbufs s') (xs @ ys) 0 \<and> plen (pbufs s') (xs @ ys) = plen (pbufs s) xs + rem
           \<and> pool_kind (pbufs s') PBUF_POOL (xs @ ys) \<and> (\<forall>y\<in>set ys. pbufs s y = None \<and> memp_live sizes base (memp s) y = None)
           \<and> (\<forall>x\<in>set xs. pfield (pbufs s') payload x = pfield (pbufs s) payload x)
           \<and> (\<forall>q. q \<notin> set (xs @ ys) \<longrightarrow> pbufs s' q = pbufs s q)
           \<and> memp_live sizes base (memp s') = (\<lambda>q. if q \<in> set ys then Some MEMP_PBUF_POOL else memp_live sizes base (memp s) q)
       else pbufs s' = pbufs s |` (- set xs) \<and> memp_live sizes base (memp s') = memp_live sizes base (memp s) |` (- set xs))"

lemma pbuf_alloc_tail_ok:
  assumes "net_ok sizes base s" and "pchain (pbufs s) p xs" and "xs \<noteq> []" and "r = last xs" and "tots (pbufs s) xs rem"
    and "rem < 65535" and "pool_kind (pbufs s) PBUF_POOL xs"
    and "pfield (pbufs s) payload p + pfield (pbufs s) len p \<le> p + SIZEOF_STRUCT_PBUF + PBUF_POOL_BUFSIZE_ALIGNED"
  shows "\<exists>ok s'. pbuf_alloc_tail p r rem s = Some (ok, s') \<and> net_ok sizes base s' \<and> bytes s' = bytes s
    \<and> net_state.more s' = net_state.more s \<and> ram (ram_heap s') = ram (ram_heap s) \<and> mem_live (ram_heap s') = mem_live (ram_heap s)
    \<and> alloc_tail_post sizes base s p xs rem ok s'"
  using assms
proof (induction rem arbitrary: s xs r rule: less_induct)
  case (less rem)
  note ok = less.prems(1)
  show ?case
  proof (cases "rem = 0")
    case True
    then have "alloc_tail_post sizes base s p xs rem True s"
      using less.prems by (auto simp: alloc_tail_post_def intro!: exI [of _ "[]"])
    then show ?thesis
      using True ok by (intro exI [of _ True] exI [of _ s]) simp
  next
    case False
    obtain q m where q: "memp_malloc (memp s) MEMP_PBUF_POOL = Some (q, m)"
      using pool.alloc_total [OF net_okD(2) [OF ok]] by fastforce
    show ?thesis
    proof (cases "q = NULL")
      case True
      then have "m = memp s" using pool.alloc_null [OF net_okD(2) [OF ok]] q by fastforce
      then have ss: "s\<lparr>memp := m\<rparr> = s" by simp
      obtain s' where s': "pbuf_free p s = Some (length xs mod 256, s')" "net_ok sizes base s'" "pbufs s' = pbufs s |` (- set xs)"
        "bytes s' = bytes s" "net_state.more s' = net_state.more s" "ram (ram_heap s') = ram (ram_heap s)"
        "mem_live (ram_heap s') = mem_live (ram_heap s)" "memp_live sizes base (memp s') = memp_live sizes base (memp s) |` (- set xs)"
        using pbuf_free_sole [OF ok less.prems(2,3) pool_kind_sole [OF less.prems(7)]] pool_kind_parts [OF less.prems(7)]
        by auto
      have "pbuf_alloc_tail p r rem s = Some (False, s')"
        using False q True ss s'(1) by (subst pbuf_alloc_tail.simps) simp
      then show ?thesis
        using s' by (intro exI [of _ False] exI [of _ s']) (simp add: alloc_tail_post_def)
    next
      case q0: False
      let ?k = "min rem PBUF_POOL_BUFSIZE_ALIGNED"
      obtain b where b: "pbufs s (last xs) = Some b"
        using pchain_live [OF less.prems(2) last_in_set [OF less.prems(3)]] by blast
      define bq where bq: "bq = \<lparr>pb_next = NULL, payload = q + SIZEOF_STRUCT_PBUF, tot_len = rem, len = ?k,
        ptype = PBUF_POOL, flags = 0, ref = 1\<rparr>"
      define s1 where s1: "s1 = put_pbuf (last xs) (b\<lparr>pb_next := q\<rparr>) (put_pbuf q bq (s\<lparr>memp := m\<rparr>))"
      have k: "0 < ?k" "rem - ?k < rem" using False by (auto simp: lwip_simps)
      note lk = alloc_link [OF ok less.prems(2,3,5,7) q q0 _ less.prems(6) bq b s1]
      have lk: "net_ok sizes base s1" "pchain (pbufs s1) p (xs @ [q])" "tots (pbufs s1) (xs @ [q]) (rem - ?k)"
        "pool_kind (pbufs s1) PBUF_POOL (xs @ [q])" "plen (pbufs s1) xs = plen (pbufs s) xs" "q \<notin> set xs" "pbufs s q = None"
        "memp_live sizes base m = (memp_live sizes base (memp s))(q \<mapsto> MEMP_PBUF_POOL)"
        using lk False by simp_all
      have pxs: "p \<in> set xs" using less.prems(2,3) by (cases xs) auto
      then obtain bp where bp: "pbufs s p = Some bp" using pchain_live [OF less.prems(2)] by blast
      have "p \<noteq> q" using pxs lk(6) by auto
      then have pay: "pfield (pbufs s1) payload p = payload bp \<and> pfield (pbufs s1) len p = len bp"
        using b bp by (auto simp: s1)
      then have pay': "pfield (pbufs s1) payload p + pfield (pbufs s1) len p \<le> p + SIZEOF_STRUCT_PBUF + PBUF_POOL_BUFSIZE_ALIGNED"
        using less.prems(8) bp by simp
      have rq: "last xs \<noteq> q" using lk(6) less.prems(3) by (auto dest: last_in_set)
      obtain bp1 where bp1: "pbufs s1 p = Some bp1" "payload bp1 + len bp1 \<le> p + SIZEOF_STRUCT_PBUF + PBUF_POOL_BUFSIZE_ALIGNED"
        using pay' pchain_live [OF lk(2), of p] pxs by auto
      have step: "pbuf_alloc_tail p r rem s = pbuf_alloc_tail p q (rem - ?k) s1"
        using False q q0 b rq bp1 less.prems(4,6) unfolding s1 bq
        by (subst pbuf_alloc_tail.simps) (simp del: pbuf_alloc_tail.simps fun_upd_apply add: fun_upd_same fun_upd_other Let_def)
      have "rem - ?k < 65535" using less.prems(6) by simp
      from less.IH [OF k(2) lk(1,2) _ _ lk(3) this lk(4) pay', of q]
      obtain ok s' where s': "pbuf_alloc_tail p q (rem - ?k) s1 = Some (ok, s')" "net_ok sizes base s'" "bytes s' = bytes s1"
        "net_state.more s' = net_state.more s1" "ram (ram_heap s') = ram (ram_heap s1)" "mem_live (ram_heap s') = mem_live (ram_heap s1)"
        and post: "alloc_tail_post sizes base s1 p (xs @ [q]) (rem - ?k) ok s'"
        by auto
      have q1: "pbufs s1 q = Some bq" using rq by (simp add: s1)
      have out: "pbufs s1 z = pbufs s z" if "z \<notin> set (xs @ [q])" for z
        using that less.prems(3) by (auto simp: s1)
      have lives: "memp_live sizes base (memp s1) = (memp_live sizes base (memp s))(q \<mapsto> MEMP_PBUF_POOL)"
        using lk(8) by (simp add: s1)
      show ?thesis
      proof (cases ok)
        case True
        obtain ys where ys: "pchain (pbufs s') p (xs @ q # ys)" "tots (pbufs s') (xs @ q # ys) 0"
          "plen (pbufs s') (xs @ q # ys) = plen (pbufs s1) (xs @ [q]) + (rem - ?k)"
          "pool_kind (pbufs s') PBUF_POOL (xs @ q # ys)" "\<forall>y\<in>set ys. pbufs s1 y = None \<and> memp_live sizes base (memp s1) y = None"
          "\<forall>z. z \<notin> set (xs @ q # ys) \<longrightarrow> pbufs s' z = pbufs s1 z"
          "memp_live sizes base (memp s') = (\<lambda>z. if z \<in> set ys then Some MEMP_PBUF_POOL else memp_live sizes base (memp s1) z)"
          "\<forall>x\<in>set xs. pfield (pbufs s') payload x = pfield (pbufs s1) payload x"
          using post True by (auto simp: alloc_tail_post_def)
        have "plen (pbufs s') (xs @ q # ys) = plen (pbufs s) xs + rem"
          using ys(3) lk(5) q1 k by (simp add: bq)
        moreover have "pbufs s y = None \<and> memp_live sizes base (memp s) y = None" if "y \<in> set (q # ys)" for y
        proof (cases "y = q")
          case True
          then show ?thesis using lk(7) pool_fresh(4) [OF ok q q0] by simp
        next
          case False
          then have "pbufs s1 y = None" "memp_live sizes base (memp s1) y = None" using that ys(5) by auto
          moreover from this(1) have "y \<notin> set (xs @ [q])" using pchain_live [OF lk(2)] by force
          ultimately show ?thesis using out [of y] lives False by simp
        qed
        moreover have "pfield (pbufs s') payload x = pfield (pbufs s) payload x" if "x \<in> set xs" for x
          using that ys(8) lk(6) b by (auto simp: s1)
        moreover have "\<forall>z. z \<notin> set (xs @ q # ys) \<longrightarrow> pbufs s' z = pbufs s z"
          using ys(6) out by simp
        moreover have "memp_live sizes base (memp s') = (\<lambda>z. if z \<in> set (q # ys) then Some MEMP_PBUF_POOL else memp_live sizes base (memp s) z)"
          unfolding ys(7) lives by auto
        ultimately have "alloc_tail_post sizes base s p xs rem True s'"
          unfolding alloc_tail_post_def if_True
          using ys(1,2,4) by (intro exI [of _ "q # ys"] conjI) blast+
        then show ?thesis
          using step s' True by (intro exI [of _ True] exI [of _ s']) (simp add: s1)
      next
        case False
        have "pbufs s1 |` (- set (xs @ [q])) = pbufs s |` (- set xs)"
          using lk(7) out by (intro ext) (auto simp: restrict_map_def)
        moreover have "memp_live sizes base (memp s1) |` (- set (xs @ [q])) = memp_live sizes base (memp s) |` (- set xs)"
          using pool_fresh(4) [OF ok q q0] unfolding lives by (intro ext) (auto simp: restrict_map_def)
        ultimately have "alloc_tail_post sizes base s p xs rem False s'"
          using post False by (simp add: alloc_tail_post_def)
        then show ?thesis
          using step s' False by (intro exI [of _ False] exI [of _ s']) (simp add: s1)
      qed
    qed
  qed
qed
text \<open>
  What \<open>pbuf_alloc\<close> promises: on failure nothing that is live changed; on success the result is a
  packet of the requested length made of pbufs that were not live before, with room for the
  headers of its layer in front of the payload, and removing its blocks from the live ones gives
  the live ones of before.
\<close>

definition alloc_post ::
  "(memp_t \<Rightarrow> nat) \<Rightarrow> addr \<Rightarrow> pbuf_layer \<Rightarrow> nat \<Rightarrow> pbuf_type \<Rightarrow> 'a net_state_scheme \<Rightarrow> addr \<Rightarrow> addr list \<Rightarrow> 'a net_state_scheme \<Rightarrow> bool" where
  "alloc_post sizes base layer n ty s p xs s' \<longleftrightarrow>
     (if p = NULL then xs = [] \<and> pbufs s' = pbufs s \<and> mem_live (ram_heap s') = mem_live (ram_heap s)
        \<and> memp_live sizes base (memp s') = memp_live sizes base (memp s)
      else packet (pbufs s') p xs \<and> plen (pbufs s') xs = n \<and> pool_kind (pbufs s') ty xs
        \<and> (\<forall>x\<in>set xs. pbufs s x = None) \<and> (\<forall>q. q \<notin> set xs \<longrightarrow> pbufs s' q = pbufs s q)
        \<and> (ty = PBUF_RAM \<or> ty = PBUF_POOL \<longrightarrow> pfield (pbufs s') payload p = p + SIZEOF_STRUCT_PBUF + layer_offset layer)
        \<and> (ty \<noteq> PBUF_POOL \<longrightarrow> xs = [p])
        \<and> mem_live (ram_heap s') |` (- on_heap (pbufs s') xs) = mem_live (ram_heap s)
        \<and> memp_live sizes base (memp s') |` (- in_pool (pbufs s') xs) = memp_live sizes base (memp s))"

lemma layer_offset_le: "layer_offset layer \<le> 56"
  by (cases layer) (simp_all add: lwip_simps)

lemma pbuf_alloc_single:
  assumes "pbuf_ok hl pl p b" and "s' = put_pbuf p b s1" and "net_ok sizes base s1"
    and "hl = mem_live (ram_heap s1)" and "pl = memp_live sizes base (memp s1)"
    and "b = \<lparr>pb_next = NULL, payload = pay, tot_len = n, len = n, ptype = ty, flags = 0, ref = 1\<rparr>" and "n < 65536" and "p \<noteq> NULL"
    and "pbufs s1 p = None"
  shows "net_ok sizes base s'" and "packet (pbufs s') p [p]" and "plen (pbufs s') [p] = n" and "pool_kind (pbufs s') ty [p]"
    and "\<forall>q. q \<notin> set [p] \<longrightarrow> pbufs s' q = pbufs s1 q"
    and "on_heap (pbufs s') [p] = (if ty = PBUF_RAM then {p} else {})" and "in_pool (pbufs s') [p] = (if ty = PBUF_RAM then {} else {p})"
    and "pfield (pbufs s') payload p = pay"
proof -
  show "net_ok sizes base s'" unfolding assms(2) using net_ok_put [OF assms(3)] assms(1,4,5) by simp
qed (use assms(2,6,7,8) in \<open>simp_all add: packet_simps pool_kind_def on_heap_simps\<close>)

lemma pbuf_alloc_ram:
  assumes ok: "net_ok sizes base s" and n: "SIZEOF_STRUCT_PBUF + layer_offset layer + n < 65536"
  shows "\<exists>p xs s'. pbuf_alloc layer n PBUF_RAM s = Some (p, s') \<and> net_ok sizes base s' \<and> bytes s' = bytes s
    \<and> net_state.more s' = net_state.more s \<and> ram (ram_heap s') = ram (ram_heap s) \<and> alloc_post sizes base layer n PBUF_RAM s p xs s'"
proof -
  let ?n = "SIZEOF_STRUCT_PBUF + layer_offset layer + n"
  have pos: "0 < ?n" by (simp add: lwip_simps)
  obtain p h where m: "mem_malloc (ram_heap s) ?n = Some (p, h)"
    using heap.alloc_total [OF net_okD(1) [OF ok]] n pos by blast
  show ?thesis
  proof (cases "p = NULL")
    case True
    then have "h = ram_heap s" using heap.alloc_null [OF net_okD(1) [OF ok]] n pos m by blast
    then have "pbuf_alloc layer n PBUF_RAM s = Some (NULL, s)"
      using m True n by (simp add: pbuf_alloc_def)
    then show ?thesis
      using ok by (intro exI [of _ NULL] exI [of _ "[]"] exI [of _ s]) (simp add: alloc_post_def)
  next
    case False
    note fr = heap_fresh [OF ok m False pos n]
    obtain k where k: "?n \<le> k" "mem_live h = (mem_live (ram_heap s))(p \<mapsto> k)" using fr(3) by blast
    define b where b: "b = \<lparr>pb_next = NULL, payload = p + SIZEOF_STRUCT_PBUF + layer_offset layer, tot_len = n, len = n,
      ptype = PBUF_RAM, flags = 0, ref = 1\<rparr>"
    let ?s1 = "s\<lparr>ram_heap := h\<rparr>"
    have bok: "pbuf_ok (mem_live h) (memp_live sizes base (memp s)) p b"
      using k n by (simp add: pbuf_ok_def b)
    have "n < 65536" using n by simp
    note sg = pbuf_alloc_single [OF bok refl fr(2) _ _ b this False]
    have "pbuf_alloc layer n PBUF_RAM s = Some (p, put_pbuf p b ?s1)"
      using m False n by (simp add: pbuf_alloc_def b)
    moreover have "alloc_post sizes base layer n PBUF_RAM s p [p] (put_pbuf p b ?s1)"
    proof -
      have "mem_live h |` (- {p}) = mem_live (ram_heap s)"
        using fr(5) by (simp add: k(2) restrict_complement_singleton_eq fun_upd_idem)
      then show ?thesis
        using sg fr(1) False unfolding alloc_post_def by simp
    qed
    ultimately show ?thesis
      using sg(1) fr(1,4) by (intro exI [of _ p] exI [of _ "[p]"] exI [of _ "put_pbuf p b ?s1"]) simp
  qed
qed

lemma pbuf_alloc_ref:
  assumes ok: "net_ok sizes base s" and n: "n < 65536" and ty: "ty = PBUF_ROM \<or> ty = PBUF_REF"
  shows "\<exists>p xs s'. pbuf_alloc layer n ty s = Some (p, s') \<and> net_ok sizes base s' \<and> bytes s' = bytes s
    \<and> net_state.more s' = net_state.more s \<and> ram (ram_heap s') = ram (ram_heap s) \<and> alloc_post sizes base layer n ty s p xs s'"
proof -
  obtain p m where m: "memp_malloc (memp s) MEMP_PBUF = Some (p, m)"
    using pool.alloc_total [OF net_okD(2) [OF ok]] by blast
  show ?thesis
  proof (cases "p = NULL")
    case True
    then have "m = memp s" using pool.alloc_null [OF net_okD(2) [OF ok]] m by blast
    then have "pbuf_alloc layer n ty s = Some (NULL, s)"
      using m True ty by (auto simp: pbuf_alloc_def)
    then show ?thesis
      using ok by (intro exI [of _ NULL] exI [of _ "[]"] exI [of _ s]) (simp add: alloc_post_def)
  next
    case False
    note fr = pool_fresh [OF ok m False disjI1 [OF refl]]
    define b where b: "b = \<lparr>pb_next = NULL, payload = NULL, tot_len = n, len = n, ptype = ty, flags = 0, ref = 1\<rparr>"
    let ?s1 = "s\<lparr>memp := m\<rparr>"
    have bok: "pbuf_ok (mem_live (ram_heap s)) (memp_live sizes base m) p b"
      using n ty by (auto simp: pbuf_ok_def b fr(3))
    note sg = pbuf_alloc_single [OF bok refl fr(2) _ _ b n False]
    have "pbuf_alloc layer n ty s = Some (p, put_pbuf p b ?s1)"
      using m False ty by (auto simp: pbuf_alloc_def b)
    moreover have "alloc_post sizes base layer n ty s p [p] (put_pbuf p b ?s1)"
    proof -
      have "memp_live sizes base m |` (- {p}) = memp_live sizes base (memp s)"
        using fr(4) by (simp add: fr(3) restrict_complement_singleton_eq fun_upd_idem)
      moreover have "ty \<noteq> PBUF_RAM" "ty \<noteq> PBUF_POOL" using ty by auto
      ultimately show ?thesis
        using sg fr(1) False unfolding alloc_post_def by simp
    qed
    ultimately show ?thesis
      using sg(1) fr(1) by (intro exI [of _ p] exI [of _ "[p]"] exI [of _ "put_pbuf p b ?s1"]) simp
  qed
qed

lemma pbuf_alloc_pool:
  assumes ok: "net_ok sizes base s" and n: "n < 65536"
  shows "\<exists>p xs s'. pbuf_alloc layer n PBUF_POOL s = Some (p, s') \<and> net_ok sizes base s' \<and> bytes s' = bytes s
    \<and> net_state.more s' = net_state.more s \<and> ram (ram_heap s') = ram (ram_heap s) \<and> alloc_post sizes base layer n PBUF_POOL s p xs s'"
proof -
  let ?o = "layer_offset layer"
  let ?k = "min n (PBUF_POOL_BUFSIZE_ALIGNED - ?o)"
  have o: "?o + ?k \<le> PBUF_POOL_BUFSIZE_ALIGNED" "0 < PBUF_POOL_BUFSIZE_ALIGNED - ?o"
    using layer_offset_le [of layer] by (auto simp: lwip_simps)
  obtain p m where m: "memp_malloc (memp s) MEMP_PBUF_POOL = Some (p, m)"
    using pool.alloc_total [OF net_okD(2) [OF ok]] by blast
  show ?thesis
  proof (cases "p = NULL")
    case True
    then have "m = memp s" using pool.alloc_null [OF net_okD(2) [OF ok]] m by blast
    then have "pbuf_alloc layer n PBUF_POOL s = Some (NULL, s)"
      using m True by (simp add: pbuf_alloc_def)
    then show ?thesis
      using ok by (intro exI [of _ NULL] exI [of _ "[]"] exI [of _ s]) (simp add: alloc_post_def)
  next
    case False
    note fr = pool_fresh [OF ok m False disjI2 [OF refl]]
    define b where b: "b = \<lparr>pb_next = NULL, payload = p + (SIZEOF_STRUCT_PBUF + ?o), tot_len = n, len = ?k,
      ptype = PBUF_POOL, flags = 0, ref = 1\<rparr>"
    define s1 where s1: "s1 = put_pbuf p b (s\<lparr>memp := m\<rparr>)"
    have "pbuf_ok (mem_live (ram_heap (s\<lparr>memp := m\<rparr>))) (memp_live sizes base (memp (s\<lparr>memp := m\<rparr>))) p b"
      using n o by (simp add: pbuf_ok_def b fr(3))
    then have ok1: "net_ok sizes base s1" unfolding s1 by (rule net_ok_put [OF fr(2)])
    have b1: "pbufs s1 p = Some b" by (simp add: s1)
    have out1: "pbufs s1 q = pbufs s q" if "q \<noteq> p" for q using that by (simp add: s1)
    have lives1: "memp_live sizes base (memp s1) = (memp_live sizes base (memp s))(p \<mapsto> MEMP_PBUF_POOL)"
      by (simp add: s1 fr(3))
    have "n - ?k < 65535" using n o(2) by (auto simp: min_def)
    moreover have "pchain (pbufs s1) p [p]" "tots (pbufs s1) [p] (n - ?k)" "pool_kind (pbufs s1) PBUF_POOL [p]"
      "pfield (pbufs s1) payload p + pfield (pbufs s1) len p \<le> p + SIZEOF_STRUCT_PBUF + PBUF_POOL_BUFSIZE_ALIGNED"
      using False b1 o(1) by (simp_all add: b pool_kind_def)
    ultimately obtain full s2 where s2: "pbuf_alloc_tail p p (n - ?k) s1 = Some (full, s2)" "net_ok sizes base s2" "bytes s2 = bytes s1"
      "net_state.more s2 = net_state.more s1" "ram (ram_heap s2) = ram (ram_heap s1)" "mem_live (ram_heap s2) = mem_live (ram_heap s1)"
      and post: "alloc_tail_post sizes base s1 p [p] (n - ?k) full s2"
      using pbuf_alloc_tail_ok [OF ok1, of p "[p]" p "n - ?k"] by auto
    have run: "pbuf_alloc layer n PBUF_POOL s = (if \<not> full then Some (NULL, s2)
        else Option.bind (mod_pbuf p (\<lambda>b. b\<lparr>ref := 1, flags := 0\<rparr>) s2) (\<lambda>s. Some (p, s)))"
      using m False o s2(1) unfolding s1 b
      by (simp add: pbuf_alloc_def Let_def del: pbuf_alloc_tail.simps)
    show ?thesis
    proof (cases full)
      case True
      obtain ys where ys: "pchain (pbufs s2) p (p # ys)" "tots (pbufs s2) (p # ys) 0" "plen (pbufs s2) (p # ys) = ?k + (n - ?k)"
        "pool_kind (pbufs s2) PBUF_POOL (p # ys)" "\<forall>y\<in>set ys. pbufs s1 y = None \<and> memp_live sizes base (memp s1) y = None" "\<forall>q. q \<notin> set (p # ys) \<longrightarrow> pbufs s2 q = pbufs s1 q"
        "memp_live sizes base (memp s2) = (\<lambda>q. if q \<in> set ys then Some MEMP_PBUF_POOL else memp_live sizes base (memp s1) q)"
        "pfield (pbufs s2) payload p = pfield (pbufs s1) payload p"
        using post True b1 by (auto simp: alloc_tail_post_def b)
      obtain c where c: "pbufs s2 p = Some c" "ref c = 1" "flags c = 0"
        using ys(4) by (auto simp: pool_kind_def)
      have "put_pbuf p (c\<lparr>ref := 1, flags := 0\<rparr>) s2 = s2"
      proof -
        have "c\<lparr>ref := 1, flags := 0\<rparr> = c" using c(2,3) by (cases c) simp
        then show ?thesis using c(1) by (simp add: put_pbuf_def fun_upd_idem)
      qed
      then have r: "pbuf_alloc layer n PBUF_POOL s = Some (p, s2)"
        using run True c(1) by simp
      have "\<forall>x\<in>set (p # ys). pbufs s x = None"
        using ys(5) b1 fr(1) out1 by (metis option.distinct(1) set_ConsD)
      moreover have "\<forall>q. q \<notin> set (p # ys) \<longrightarrow> pbufs s2 q = pbufs s q"
        using ys(6) out1 by simp
      moreover have "memp_live sizes base (memp s2) |` (- set (p # ys)) = memp_live sizes base (memp s)"
      proof -
        have "memp_live sizes base (memp s) y = None" if "y \<in> set (p # ys)" for y
          using that ys(5) fr(4) lives1 by (cases "y = p") (auto split: if_splits)
        then show ?thesis
          unfolding ys(7) lives1 by (intro ext) (simp add: restrict_map_def)
      qed
      moreover have "pfield (pbufs s2) payload p = p + SIZEOF_STRUCT_PBUF + ?o"
        using ys(8) b1 by (simp add: b)
      ultimately have "alloc_post sizes base layer n PBUF_POOL s p (p # ys) s2"
        using ys(1-4) n False s2(6) pool_kind_parts [OF ys(4)] unfolding alloc_post_def packet_def by (simp add: s1)
      then show ?thesis
        using r s2 by (intro exI [of _ p] exI [of _ "p # ys"] exI [of _ s2]) (simp add: s1)
    next
      case nf: False
      have "pbufs s2 = pbufs s"
        using post nf fr(1) out1 by (auto simp: alloc_tail_post_def restrict_map_def fun_eq_iff)
      moreover have "memp_live sizes base (memp s2) = memp_live sizes base (memp s)"
        using post nf fr(4) lives1 by (auto simp: alloc_tail_post_def restrict_map_def fun_eq_iff)
      ultimately have "alloc_post sizes base layer n PBUF_POOL s NULL [] s2"
        using s2(6) by (simp add: alloc_post_def s1)
      then show ?thesis
        using run nf s2 by (intro exI [of _ NULL] exI [of _ "[]"] exI [of _ s2]) (simp add: s1)
    qed
  qed
qed

lemma pbuf_alloc_ok:
  assumes "net_ok sizes base s" and "n < 65536" and "ty = PBUF_RAM \<Longrightarrow> SIZEOF_STRUCT_PBUF + layer_offset layer + n < 65536"
  shows "\<exists>p xs s'. pbuf_alloc layer n ty s = Some (p, s') \<and> net_ok sizes base s' \<and> bytes s' = bytes s
    \<and> net_state.more s' = net_state.more s \<and> ram (ram_heap s') = ram (ram_heap s) \<and> alloc_post sizes base layer n ty s p xs s'"
  using pbuf_alloc_ram [OF assms(1)] pbuf_alloc_ref [OF assms(1,2)] pbuf_alloc_pool [OF assms(1,2)] assms(3)
  by (cases ty) auto

section \<open>Header adjustment\<close>

lemma add16_simps:
  "n + k < 65536 \<Longrightarrow> add16 n (int k) = n + k" "k \<le> n \<Longrightarrow> n < 65536 \<Longrightarrow> add16 n (- int k) = n - k"
  by (simp_all add: add16_def nat_diff_distrib flip: of_nat_diff of_nat_add)

text \<open>Changing the head of a packet in front: only its own lengths and payload pointer differ.\<close>

lemma packet_put_head:
  assumes "packet P p (p # ys)" and "P p = Some b" and "pb_next b' = pb_next b"
    and "tot_len b' = len b' + plen P ys" and "tot_len b' < 65536"
  shows "packet (P(p \<mapsto> b')) p (p # ys)"
proof -
  have "distinct (p # ys)" using assms(1) pchain_distinct unfolding packet_def by blast
  then have "p \<notin> set ys" by simp
  then show ?thesis
    using assms by (auto simp: packet_simps pchain_upd_out plen_upd_out tots_upd_out simp del: fun_upd_apply simp: fun_upd_same)
qed

lemma packet_distinct: "packet P p xs \<Longrightarrow> distinct xs"
  using pchain_distinct unfolding packet_def by blast

lemma packet_head:
  assumes "packet P p xs"
  obtains b ys where "xs = p # ys" "P p = Some b" "tot_len b = len b + plen P ys" "tot_len b < 65536" "p \<notin> set ys" "p \<noteq> NULL"
proof -
  obtain x ys where x: "xs = x # ys" using assms by (cases xs) (auto simp: packet_def)
  have "distinct xs" using assms pchain_distinct unfolding packet_def by blast
  then show ?thesis using assms that unfolding x by (auto simp: packet_simps)
qed

lemma chain_data_put_out:
  "p \<notin> set ys \<Longrightarrow> chain_data (put_pbuf p b s) ys = chain_data s ys"
  by (rule chain_data_cong) (auto simp: pbuf_data_def split: option.splits)

lemma pbuf_header_hide:
  assumes ok: "net_ok sizes base s" and pk: "packet (pbufs s) p xs" and n: "0 < n" "n \<le> pfield (pbufs s) len p"
  shows "\<exists>b s'. pbufs s p = Some b \<and> pbuf_header p (- int n) s = Some (False, s')
    \<and> s' = put_pbuf p (b\<lparr>payload := payload b + n, len := len b - n, tot_len := tot_len b - n\<rparr>) s
    \<and> net_ok sizes base s' \<and> packet (pbufs s') p xs \<and> chain_data s' xs = drop n (chain_data s xs)"
proof -
  obtain b ys where b: "xs = p # ys" "pbufs s p = Some b" "tot_len b = len b + plen (pbufs s) ys" "tot_len b < 65536" "p \<notin> set ys" "p \<noteq> NULL"
    using packet_head [OF pk] by blast
  let ?b = "b\<lparr>payload := payload b + n, len := len b - n, tot_len := tot_len b - n\<rparr>"
  let ?s = "put_pbuf p ?b s"
  have nb: "n \<le> len b" using n(2) b(2) by simp
  note okb = net_okD(3) [OF ok b(2)]
  have "pbuf_ok (mem_live (ram_heap s)) (memp_live sizes base (memp s)) p ?b"
    using okb nb by (auto simp: pbuf_ok_def split: option.splits)
  then have "net_ok sizes base ?s" by (rule net_ok_put [OF ok])
  moreover have "packet (pbufs ?s) p xs"
    using packet_put_head [OF pk [unfolded b(1)] b(2), of ?b] b(1,3,4) nb by simp
  moreover have "pbuf_data ?s p = drop n (pbuf_data s p)"
    using nb b(2) by (simp add: pbuf_data_def drop_map)
  then have "chain_data ?s xs = drop n (chain_data s xs)"
    using b(1,2,5) nb by (simp add: chain_data_put_out)
  moreover have "pbuf_header p (- int n) s = Some (False, ?s)"
  proof -
    have "p + SIZEOF_STRUCT_PBUF \<le> payload b" if "ptype b = PBUF_RAM \<or> ptype b = PBUF_POOL"
      using okb that by (auto simp: pbuf_ok_def split: option.splits)
    moreover have "nat (int (payload b) + int n) = payload b + n" by simp
    ultimately show ?thesis
      using b(2-4,6) nb n(1) by (auto simp: pbuf_header_def Let_def add16_simps)
  qed
  ultimately show ?thesis using b(2) by blast
qed

lemma pbuf_header_reveal:
  assumes ok: "net_ok sizes base s" and pk: "packet (pbufs s) p xs" and n: "0 < n"
    and b: "pbufs s p = Some b" "ptype b = PBUF_RAM \<or> ptype b = PBUF_POOL" "tot_len b + n < 65536"
  shows "payload b < p + SIZEOF_STRUCT_PBUF + n \<Longrightarrow> pbuf_header p (int n) s = Some (True, s)"
    and "p + SIZEOF_STRUCT_PBUF + n \<le> payload b \<Longrightarrow>
      \<exists>s'. pbuf_header p (int n) s = Some (False, s')
    \<and> s' = put_pbuf p (b\<lparr>payload := payload b - n, len := len b + n, tot_len := tot_len b + n\<rparr>) s
    \<and> net_ok sizes base s' \<and> packet (pbufs s') p xs
    \<and> chain_data s' xs = map (bytes s) [payload b - n..<payload b] @ chain_data s xs"
proof -
  obtain ys where ys: "xs = p # ys" "tot_len b = len b + plen (pbufs s) ys" "p \<notin> set ys" "p \<noteq> NULL"
    using packet_head [OF pk] b(1) by (metis option.inject)
  show "payload b < p + SIZEOF_STRUCT_PBUF + n \<Longrightarrow> pbuf_header p (int n) s = Some (True, s)"
    using b ys(4) n by (auto simp: pbuf_header_def Let_def)
  assume room: "p + SIZEOF_STRUCT_PBUF + n \<le> payload b"
  let ?b = "b\<lparr>payload := payload b - n, len := len b + n, tot_len := tot_len b + n\<rparr>"
  let ?s = "put_pbuf p ?b s"
  have "pbuf_ok (mem_live (ram_heap s)) (memp_live sizes base (memp s)) p ?b"
    using net_okD(3) [OF ok b(1)] room b(3) ys(2) by (auto simp: pbuf_ok_def split: option.splits)
  then have "net_ok sizes base ?s" by (rule net_ok_put [OF ok])
  moreover have "packet (pbufs ?s) p xs"
    using packet_put_head [OF pk [unfolded ys(1)] b(1), of ?b] ys(1,2) b(3) by simp
  moreover have "pbuf_data ?s p = map (bytes s) [payload b - n..<payload b] @ pbuf_data s p"
  proof -
    have "[payload b - n..<payload b + len b] = [payload b - n..<payload b] @ [payload b..<payload b + len b]"
      using upt_add_eq_append [of "payload b - n" "payload b" "len b"] by simp
    then show ?thesis using room b(1) by (simp add: pbuf_data_def)
  qed
  then have "chain_data ?s xs = map (bytes s) [payload b - n..<payload b] @ chain_data s xs"
    using ys(1,3) by (simp add: chain_data_put_out)
  moreover have "pbuf_header p (int n) s = Some (False, ?s)"
  proof -
    have "nat (int (payload b) - int n) = payload b - n" by simp
    then show ?thesis
      using b ys(2,4) n room by (auto simp: pbuf_header_def Let_def add16_simps)
  qed
  ultimately show "\<exists>s'. pbuf_header p (int n) s = Some (False, s')
    \<and> s' = put_pbuf p (b\<lparr>payload := payload b - n, len := len b + n, tot_len := tot_len b + n\<rparr>) s
    \<and> net_ok sizes base s' \<and> packet (pbufs s') p xs
    \<and> chain_data s' xs = map (bytes s) [payload b - n..<payload b] @ chain_data s xs"
    by blast
qed

section \<open>Concatenation\<close>

text \<open>Adding a constant to the \<open>tot_len\<close> of some pbufs.\<close>

definition bump :: "(addr \<rightharpoonup> pbuf) \<Rightarrow> addr list \<Rightarrow> nat \<Rightarrow> (addr \<rightharpoonup> pbuf)" where
  "bump P xs k = (\<lambda>x. if x \<in> set xs then map_option (\<lambda>b. b\<lparr>tot_len := u16 (tot_len b + k)\<rparr>) (P x) else P x)"

lemma pbuf_cat_loop_chain:
  assumes "pchain (pbufs s) p xs" and "xs \<noteq> []" and "t \<notin> set xs" and "pbufs s t = Some bt"
  shows "pbuf_cat_loop p t s = Some (last xs, s\<lparr>pbufs := bump (pbufs s) (butlast xs) (tot_len bt)\<rparr>)"
  using assms
proof (induction xs arbitrary: p s)
  case (Cons x xs)
  obtain b where b: "p = x" "x \<noteq> NULL" "pbufs s x = Some b" "pchain (pbufs s) (pb_next b) xs"
    using pchain_ConsD [OF Cons.prems(1)] by blast
  have x: "x \<notin> set xs" using pchain_distinct [OF Cons.prems(1)] by simp
  show ?case
  proof (cases "xs = []")
    case True
    then show ?thesis using b by (subst pbuf_cat_loop.simps) (simp add: bump_def)
  next
    case False
    then have n: "pb_next b \<noteq> NULL" using b(4) by (cases xs) auto
    let ?b = "b\<lparr>tot_len := u16 (tot_len b + tot_len bt)\<rparr>"
    let ?s = "put_pbuf x ?b s"
    have "pchain (pbufs ?s) (pb_next b) xs" using b(4) x by (simp add: pchain_upd_out del: fun_upd_apply)
    then have "pbuf_cat_loop (pb_next b) t ?s = Some (last xs, ?s\<lparr>pbufs := bump (pbufs ?s) (butlast xs) (tot_len bt)\<rparr>)"
      using Cons.prems(3,4) False by (intro Cons.IH) (assumption | simp)+
    moreover have "bump (pbufs ?s) (butlast xs) (tot_len bt) = bump (pbufs s) (butlast (x # xs)) (tot_len bt)"
      using b(3) x False by (intro ext) (auto simp: bump_def dest: in_set_butlastD)
    moreover have "pbuf_cat_loop p t s = pbuf_cat_loop (pb_next b) t ?s"
      using b(1-3) n Cons.prems(4) by (subst pbuf_cat_loop.simps) simp
    ultimately show ?thesis using False by (simp add: put_pbuf_def)
  qed
qed simp


text \<open>
  The result of \<open>pbuf_cat\<close> as one update: all \<open>tot_len\<close> of the first chain grow, and its last pbuf
  points to the second.
\<close>

definition cat_map :: "(addr \<rightharpoonup> pbuf) \<Rightarrow> addr list \<Rightarrow> addr \<Rightarrow> nat \<Rightarrow> (addr \<rightharpoonup> pbuf)" where
  "cat_map P xs t k = (\<lambda>x. if x \<in> set xs
     then map_option (\<lambda>b. b\<lparr>tot_len := u16 (tot_len b + k), pb_next := if x = last xs then t else pb_next b\<rparr>) (P x)
     else P x)"

lemma cat_map_bump:
  "xs \<noteq> [] \<Longrightarrow> P (last xs) = Some b \<Longrightarrow>
     cat_map P xs t k = (bump P xs k)(last xs \<mapsto> b\<lparr>tot_len := u16 (tot_len b + k), pb_next := t\<rparr>)"
proof
  fix x
  assume "xs \<noteq> []" "P (last xs) = Some b"
  moreover have "c\<lparr>tot_len := u16 (tot_len c + k), pb_next := pb_next c\<rparr> = c\<lparr>tot_len := u16 (tot_len c + k)\<rparr>" for c
    by (cases c) simp
  ultimately show "cat_map P xs t k x = ((bump P xs k)(last xs \<mapsto> b\<lparr>tot_len := u16 (tot_len b + k), pb_next := t\<rparr>)) x"
    by (cases "P x") (auto simp: cat_map_def bump_def)
qed

lemma pbuf_cat_eq:
  assumes "packet (pbufs s) h xs" and "pbufs s t = Some bt" and "t \<notin> set xs" and "t \<noteq> NULL"
  shows "pbuf_cat h t s = Some (s\<lparr>pbufs := cat_map (pbufs s) xs t (tot_len bt)\<rparr>)"
proof -
  have ch: "pchain (pbufs s) h xs" "xs \<noteq> []" "tots (pbufs s) xs 0" using assms(1) by (simp_all add: packet_def)
  have h: "h \<noteq> NULL" using ch(1,2) by (cases xs) auto
  have d: "distinct xs" by (rule pchain_distinct [OF ch(1)])
  obtain b where b: "pbufs s (last xs) = Some b" using pchain_live [OF ch(1) last_in_set [OF ch(2)]] by blast
  have lst: "last xs \<notin> set (butlast xs)"
    using d ch(2) by (metis append_butlast_last_id distinct_butlast not_distinct_conv_prefix)
  have tl: "tot_len b = len b"
  proof -
    have "tots (pbufs s) (butlast xs @ [last xs]) 0" using ch(2,3) by simp
    then show ?thesis using b by (simp add: tots_append)
  qed
  let ?B = "bump (pbufs s) (butlast xs) (tot_len bt)"
  have B: "?B (last xs) = Some b" "?B t = Some bt"
    using lst b assms(2,3) by (auto simp: bump_def dest: in_set_butlastD)
  have "?B(last xs \<mapsto> b\<lparr>tot_len := u16 (tot_len b + tot_len bt), pb_next := t\<rparr>) = cat_map (pbufs s) xs t (tot_len bt)"
  proof -
    have "set xs = insert (last xs) (set (butlast xs))"
      using ch(2) by (metis append_butlast_last_id list.simps(15) rotate1.simps(2) set_rotate1)
    then show ?thesis using b ch(2) by (intro ext) (simp add: cat_map_bump bump_def)
  qed
  then show ?thesis
    using pbuf_cat_loop_chain [OF ch(1,2) assms(3,2)] h assms(4) B tl
    by (simp add: pbuf_cat_def put_pbuf_def)
qed

lemma cat_map_out: "x \<notin> set xs \<Longrightarrow> cat_map P xs t k x = P x"
  by (auto simp: cat_map_def bump_def split: option.splits)

lemma cat_map_in:
  "x \<in> set xs \<Longrightarrow> P x = Some b \<Longrightarrow> \<exists>c. cat_map P xs t k x = Some c \<and> len c = len b \<and> payload c = payload b
     \<and> tot_len c = u16 (tot_len b + k) \<and> ptype c = ptype b \<and> ref c = ref b \<and> flags c = flags b"
  by (auto simp: cat_map_def bump_def split: option.splits)

lemma tots_le: "tots P xs k \<Longrightarrow> x \<in> set xs \<Longrightarrow> pfield P tot_len x \<le> plen P xs + k"
  by (induction xs) (auto simp del: pfield.simps)

lemma cat_map_packet:
  assumes "packet P h xs" and "packet P t ys" and "set xs \<inter> set ys = {}" and "plen P xs + plen P ys < 65536"
  shows "packet (cat_map P xs t (plen P ys)) h (xs @ ys)"
proof -
  let ?k = "plen P ys" and ?C = "cat_map P xs t (plen P ys)"
  have x: "pchain P h xs" "xs \<noteq> []" "tots P xs 0" and y: "pchain P t ys" "tots P ys 0"
    using assms(1,2) by (simp_all add: packet_def)
  obtain b where b: "P (last xs) = Some b" using pchain_live [OF x(1) last_in_set [OF x(2)]] by blast
  have B: "pchain (bump P xs ?k) h zs = pchain P h zs" for zs h
  proof (induction zs arbitrary: h)
    case (Cons z zs)
    then show ?case by (auto simp: bump_def split: option.splits)
  qed simp
  have "pchain ?C h (xs @ ys)"
    using pchain_append [of "bump P xs ?k" h xs t ys "b\<lparr>tot_len := u16 (tot_len b + ?k), pb_next := t\<rparr>"] x(1,2) y(1) assms(3) b
    by (simp add: cat_map_bump B del: fun_upd_apply)
  moreover have fields: "pfield ?C len z = pfield P len z \<and> pfield ?C tot_len z = pfield P tot_len z + (if z \<in> set xs then ?k else 0)"
    if z: "z \<in> set (xs @ ys)" for z
  proof (cases "z \<in> set xs")
    case True
    obtain c where "P z = Some c" using pchain_live [OF x(1) True] by blast
    moreover have "pfield P tot_len z \<le> plen P xs" using tots_le [OF x(3) True] by simp
    ultimately show ?thesis
      using cat_map_in [OF True, of P c t ?k] True assms(4) by fastforce
  next
    case False
    then show ?thesis using cat_map_out [OF False] by simp
  qed
  have lens: "plen ?C xs = plen P xs" "plen ?C ys = plen P ys"
    using fields by (auto intro!: plen_fields simp del: pfield.simps)
  moreover have "tots ?C ys 0"
  proof -
    have "pfield ?C len z = pfield P len z \<and> pfield ?C tot_len z = pfield P tot_len z" if "z \<in> set ys" for z
      using fields [of z] that assms(3) by (auto simp del: pfield.simps)
    then show ?thesis using tots_fields [of ys ?C P 0] y(2) by blast
  qed
  moreover have "tots ?C xs ?k"
  proof -
    have "tots P zs 0 \<Longrightarrow> set zs \<subseteq> set xs \<Longrightarrow> tots ?C zs ?k \<and> plen ?C zs = plen P zs" for zs
    proof (induction zs)
      case (Cons z zs)
      then show ?case using fields [of z] by (auto simp del: pfield.simps)
    qed simp
    then show ?thesis using x(3) by blast
  qed
  ultimately show ?thesis
    using assms(4) x(2) by (simp add: packet_def tots_append)
qed

lemma cat_map_data:
  assumes "pchain (pbufs s) h xs" and "xs \<noteq> []"
  shows "pbuf_data (s\<lparr>pbufs := cat_map (pbufs s) xs t k\<rparr>) z = pbuf_data s z"
proof (cases "z \<in> set xs")
  case True
  obtain b where "pbufs s z = Some b" using pchain_live [OF assms(1) True] by blast
  then show ?thesis using cat_map_in [OF True, of "pbufs s" b t k] by (auto simp: pbuf_data_def)
next
  case False
  then show ?thesis using cat_map_out [OF False] by (simp add: pbuf_data_def split: option.splits)
qed

lemma pbuf_ok_same:
  "pbuf_ok hl pl p c \<Longrightarrow> ptype b = ptype c \<Longrightarrow> payload b = payload c \<Longrightarrow> len b = len c \<Longrightarrow> 0 < ref b \<Longrightarrow> ref b < 65536 \<Longrightarrow>
     tot_len b < 65536 \<Longrightarrow> pbuf_ok hl pl p b"
  by (simp add: pbuf_ok_def split: option.splits)

lemma pbuf_ok_ref: "pbuf_ok hl pl p b \<Longrightarrow> 0 < ref b \<and> ref b < 65536 \<and> tot_len b < 65536 \<and> len b < 65536"
  by (simp add: pbuf_ok_def)

lemma cat_map_ok:
  assumes "net_ok sizes base s" and "pchain (pbufs s) h xs" and "xs \<noteq> []"
  shows "net_ok sizes base (s\<lparr>pbufs := cat_map (pbufs s) xs t k\<rparr>)"
proof (rule net_okI [OF assms(1)])
  fix p b
  assume p: "pbufs (s\<lparr>pbufs := cat_map (pbufs s) xs t k\<rparr>) p = Some b"
  have "pbuf_ok (mem_live (ram_heap s)) (memp_live sizes base (memp s)) p b"
  proof (cases "p \<in> set xs")
    case True
    obtain c where c: "pbufs s p = Some c" using pchain_live [OF assms(2) True] by blast
    note okc = net_okD(3) [OF assms(1) c]
    show ?thesis
      by (rule pbuf_ok_same [OF okc]) (use cat_map_in [OF True, where P = "pbufs s" and b = c and t = t and k = k] c pbuf_ok_ref [OF okc] p in auto)
  next
    case False
    then show ?thesis using cat_map_out [OF False] net_okD(3) [OF assms(1)] p by simp
  qed
  then show "pbuf_ok (mem_live (ram_heap (s\<lparr>pbufs := cat_map (pbufs s) xs t k\<rparr>)))
      (memp_live sizes base (memp (s\<lparr>pbufs := cat_map (pbufs s) xs t k\<rparr>))) p b" by simp
qed (use net_okD(1,2) [OF assms(1)] in simp_all)


text \<open>\<open>pbuf_cat\<close> makes one packet of two.\<close>

lemma pbuf_cat_ok:
  assumes "net_ok sizes base s" and "packet (pbufs s) h xs" and "packet (pbufs s) t ys" and "set xs \<inter> set ys = {}"
    and "plen (pbufs s) xs + plen (pbufs s) ys < 65536"
  shows "\<exists>s'. pbuf_cat h t s = Some s' \<and> net_ok sizes base s' \<and> packet (pbufs s') h (xs @ ys)
    \<and> chain_data s' (xs @ ys) = chain_data s xs @ chain_data s ys
    \<and> s' = s\<lparr>pbufs := cat_map (pbufs s) xs t (plen (pbufs s) ys)\<rparr>"
proof -
  let ?s = "s\<lparr>pbufs := cat_map (pbufs s) xs t (plen (pbufs s) ys)\<rparr>"
  obtain bt ys' where bt: "ys = t # ys'" "pbufs s t = Some bt" "tot_len bt = len bt + plen (pbufs s) ys'" "t \<noteq> NULL"
    using packet_head [OF assms(3)] by blast
  have ch: "pchain (pbufs s) h xs" "xs \<noteq> []" using assms(2) by (simp_all add: packet_def)
  have "tot_len bt = plen (pbufs s) ys" using bt by simp
  then have "pbuf_cat h t s = Some ?s"
    using pbuf_cat_eq [OF assms(2) bt(2) _ bt(4)] assms(4) bt(1) by auto
  moreover have "chain_data ?s zs = chain_data s zs" for zs
    by (rule chain_data_cong) (rule cat_map_data [OF ch])
  ultimately show ?thesis
    using cat_map_ok [OF assms(1) ch] cat_map_packet [OF assms(2-5)] by simp
qed

lemma packet_upd_same:
  assumes "P x = Some b" and "pb_next b' = pb_next b" and "len b' = len b" and "tot_len b' = tot_len b"
  shows "packet (P(x \<mapsto> b')) p xs = packet P p xs"
proof -
  have same: "pfield (P(x \<mapsto> b')) f y = pfield P f y" if "f = len \<or> f = tot_len" for f y
    using that assms by auto
  have "pchain (P(x \<mapsto> b')) q zs = pchain P q zs" for q zs
    by (induction zs arbitrary: q) (use assms(1,2) in \<open>auto split: option.splits\<close>)
  moreover have "tots (P(x \<mapsto> b')) zs 0 = tots P zs 0" "plen (P(x \<mapsto> b')) zs = plen P zs" for zs
    using same by (auto intro!: tots_fields plen_fields simp del: pfield.simps)
  ultimately show ?thesis unfolding packet_def by (simp only:)
qed

text \<open>\<open>pbuf_chain\<close> followed by \<open>pbuf_dechain\<close> of the head gives the tail back and restores the state.\<close>

lemma pbuf_chain_dechain:
  assumes "net_ok sizes base s" and "packet (pbufs s) h [h]" and "packet (pbufs s) t ys" and "h \<notin> set ys"
    and "plen (pbufs s) [h] + plen (pbufs s) ys < 65536" and "pfield (pbufs s) ref t < 65535"
  shows "\<exists>s'. pbuf_chain h t s = Some s' \<and> net_ok sizes base s' \<and> packet (pbufs s') h (h # ys)
    \<and> chain_data s' (h # ys) = chain_data s (h # ys) \<and> pbuf_dechain h s' = Some (t, s)"
proof -
  obtain bh where bh: "pbufs s h = Some bh" "tot_len bh = len bh" "pb_next bh = NULL" "h \<noteq> NULL"
    using assms(2) by (auto simp: packet_simps)
  obtain bt ys' where bt: "ys = t # ys'" "pbufs s t = Some bt" "tot_len bt = len bt + plen (pbufs s) ys'" "t \<noteq> NULL" "tot_len bt < 65536"
    using packet_head [OF assms(3)] by blast
  have ht: "h \<noteq> t" "t \<notin> set ys'" using packet_distinct [OF assms(3)] assms(4) bt(1) by auto
  let ?s1 = "s\<lparr>pbufs := cat_map (pbufs s) [h] t (plen (pbufs s) ys)\<rparr>"
  have c: "pbuf_cat h t s = Some ?s1" "net_ok sizes base ?s1" "packet (pbufs ?s1) h (h # ys)"
    "chain_data ?s1 (h # ys) = chain_data s (h # ys)"
    using pbuf_cat_ok [OF assms(1-3)] assms(4,5) by auto
  have t1: "pbufs ?s1 t = Some bt" using ht bt(2) by (simp add: cat_map_def)
  have rf: "0 < ref bt" "ref bt < 65535" using net_okD(3) [OF assms(1) bt(2)] assms(6) bt(2) by (simp_all add: pbuf_ok_def)
  let ?bt = "bt\<lparr>ref := Suc (ref bt)\<rparr>"
  let ?s2 = "put_pbuf t ?bt ?s1"
  have ok2: "net_ok sizes base ?s2"
    by (rule net_ok_put [OF c(2) pbuf_ok_same [OF net_okD(3) [OF c(2) t1]]]) (use rf bt(5) in simp_all)
  have p2: "packet (pbufs ?s2) h (h # ys)"
    using packet_upd_same [of "pbufs ?s1" t bt ?bt h "h # ys"] t1 c(3) by (simp del: fun_upd_apply)
  have d2: "chain_data ?s2 (h # ys) = chain_data s (h # ys)"
  proof -
    have "chain_data ?s2 (h # ys) = chain_data ?s1 (h # ys)"
      by (rule chain_data_cong) (use t1 in \<open>auto simp: pbuf_data_def split: option.splits\<close>)
    then show ?thesis using c(4) by simp
  qed
  have "pbuf_chain h t s = Some ?s2"
    using c(1) t1 bt(4) rf by (simp add: pbuf_chain_def pbuf_ref_def)
  moreover have "pbuf_dechain h ?s2 = Some (t, s)"
  proof -
    let ?k = "plen (pbufs s) ys" and ?bh = "bh\<lparr>tot_len := len bh + plen (pbufs s) ys, pb_next := t\<rparr>"
    have k: "tot_len bt = ?k" "len bh + ?k < 65536" using bt(1-3) assms(5) bh(1) by simp_all
    have h2: "pbufs ?s2 h = Some ?bh" using ht(1) bh(1,2) k(2) by (simp add: cat_map_def)
    have t2: "pbufs ?s2 t = Some ?bt" by simp
    let ?s3 = "put_pbuf t ?bt ?s2" and ?s4 = "put_pbuf h (?bh\<lparr>pb_next := NULL, tot_len := len bh\<rparr>) (put_pbuf t ?bt ?s2)"
    have e: "?bt\<lparr>tot_len := ?k\<rparr> = ?bt" "?bh\<lparr>pb_next := NULL, tot_len := len bh\<rparr> = bh"
      by (cases bt, use k(1) in simp) (cases bh, use bh(2,3) in simp)
    have "pbuf_free t ?s4 = Some (0, put_pbuf t bt ?s4)"
      using bt(4) ht(1) rf(1) by (simp add: pbuf_free_def pbuf_free_loop.simps)
    moreover have "put_pbuf t bt ?s4 = s"
    proof -
      have "pbufs (put_pbuf t bt ?s4) = pbufs s"
        using bh(1) bt(2) ht(1) unfolding e(2) by (intro ext) (auto simp: cat_map_def)
      then show ?thesis by (simp add: put_pbuf_def)
    qed
    ultimately show ?thesis
      using h2 t2 bt(4) ht(1) k bh(1,2) by (simp add: pbuf_dechain_def Let_def e(1))
  qed
  ultimately show ?thesis using ok2 p2 d2 by blast
qed

section \<open>Shrinking\<close>

definition shift :: "(addr \<rightharpoonup> pbuf) \<Rightarrow> addr list \<Rightarrow> int \<Rightarrow> (addr \<rightharpoonup> pbuf)" where
  "shift P xs g = (\<lambda>x. if x \<in> set xs then map_option (\<lambda>b. b\<lparr>tot_len := add16 (tot_len b) g\<rparr>) (P x) else P x)"

lemma pchain_shift [simp]: "pchain (shift P as g) p xs = pchain P p xs"
  by (induction xs arbitrary: p) (auto simp: shift_def split: option.splits)

lemma plen_shift [simp]: "plen (shift P as g) xs = plen P xs"
  by (rule plen_fields) (simp add: shift_def split: option.splits)

lemma tots_shift:
  assumes "k' \<le> k"
  shows "tots P as k \<Longrightarrow> set as \<subseteq> set zs \<Longrightarrow> plen P as + k < 65536 \<Longrightarrow> (\<And>x. x \<in> set as \<Longrightarrow> P x \<noteq> None) \<Longrightarrow>
    tots (shift P zs (int k' - int k)) as k'"
proof (induction as)
  case (Cons x as)
  then obtain b where b: "P x = Some b" by fastforce
  have "add16 (tot_len b) (- int (k - k')) = tot_len b - (k - k')"
    using Cons.prems(1,3) b by (intro add16_simps(2)) simp_all
  then have "add16 (tot_len b) (int k' - int k) = plen P (x # as) + k'"
    using Cons.prems(1) b assms by (simp add: of_nat_diff)
  then have "pfield (shift P zs (int k' - int k)) tot_len x = plen P (x # as) + k'"
    "pfield (shift P zs (int k' - int k)) len x = pfield P len x"
    using Cons.prems(2) b by (simp_all add: shift_def)
  then show ?case using Cons by (simp del: pfield.simps)
qed simp

lemma pbuf_realloc_skip_chain:
  assumes "pchain (pbufs s) p xs" and "rem < plen (pbufs s) xs" and "g < 65535"
  shows "\<exists>as q bs. xs = as @ q # bs \<and> plen (pbufs s) as \<le> rem \<and> rem - plen (pbufs s) as \<le> pfield (pbufs s) len q
    \<and> pbuf_realloc_skip p rem g s = Some (q, rem - plen (pbufs s) as, s\<lparr>pbufs := shift (pbufs s) as g\<rparr>)
    \<and> plen (pbufs s) as \<le> rem - 1"
  using assms
proof (induction xs arbitrary: p rem s)
  case (Cons x xs)
  obtain b where b: "p = x" "x \<noteq> NULL" "pbufs s x = Some b" "pchain (pbufs s) (pb_next b) xs"
    using pchain_ConsD [OF Cons.prems(1)] by blast
  have x: "x \<notin> set xs" using pchain_distinct [OF Cons.prems(1)] by simp
  show ?case
  proof (cases "rem > len b")
    case False
    then have "pbuf_realloc_skip p rem g s = Some (x, rem, s)"
      using b by (subst pbuf_realloc_skip.simps) simp
    moreover have "shift (pbufs s) [] g = pbufs s" by (simp add: shift_def)
    ultimately show ?thesis
      using False b(3) by (intro exI [of _ "[]"] exI [of _ x] exI [of _ xs]) simp
  next
    case True
    let ?s = "put_pbuf x (b\<lparr>tot_len := add16 (tot_len b) g\<rparr>) s"
    have P: "pbufs ?s = shift (pbufs s) [x] g" using b(3) by (intro ext) (simp add: shift_def)
    have "rem - len b < plen (pbufs ?s) xs" using Cons.prems(2) True b(3) unfolding P plen_shift by simp
    moreover have "pchain (pbufs ?s) (pb_next b) xs" using b(4) unfolding P pchain_shift .
    ultimately obtain as q bs where ih: "xs = as @ q # bs" "plen (pbufs s) as \<le> rem - len b"
      "rem - len b - plen (pbufs s) as \<le> pfield (pbufs ?s) len q"
      "pbuf_realloc_skip (pb_next b) (rem - len b) g ?s = Some (q, rem - len b - plen (pbufs s) as, ?s\<lparr>pbufs := shift (pbufs ?s) as g\<rparr>)"
      "plen (pbufs s) as \<le> rem - len b - 1"
      using Cons.IH [of ?s "pb_next b" "rem - len b"] Cons.prems(3) unfolding P plen_shift by blast
    have "pb_next b \<noteq> NULL" using b(4) ih(1) pchain_live [OF b(4)] by (cases as) auto
    then have "pbuf_realloc_skip p rem g s = pbuf_realloc_skip (pb_next b) (rem - len b) g ?s"
      using b True Cons.prems(3) by (subst pbuf_realloc_skip.simps) simp
    moreover have "shift (pbufs ?s) as g = shift (pbufs s) (x # as) g"
      using x ih(1) unfolding P by (intro ext) (auto simp: shift_def)
    moreover have "pfield (pbufs ?s) len q = pfield (pbufs s) len q" unfolding P by (simp add: shift_def split: option.splits)
    moreover have "len b + plen (pbufs s) as \<le> rem" "len b + plen (pbufs s) as \<le> rem - 1" using ih(2,5) True by arith+
    ultimately show ?thesis
      using ih True b(3) by (intro exI [of _ "x # as"] exI [of _ q] exI [of _ bs]) (simp add: put_pbuf_def)
  qed
qed simp

lemma pchain_cut:
  "pchain P p (as @ q # bs) \<Longrightarrow> pb_next b' = NULL \<Longrightarrow> pchain (P(q \<mapsto> b')) p (as @ [q])"
proof (induction as arbitrary: p)
  case (Cons x as)
  obtain b where b: "p = x" "x \<noteq> NULL" "P x = Some b" "pchain P (pb_next b) (as @ q # bs)"
    using pchain_ConsD [of P p x "as @ q # bs"] Cons.prems(1) by auto
  have "x \<noteq> q" using pchain_distinct [OF Cons.prems(1)] by auto
  then show ?case using b Cons.IH [OF b(4) Cons.prems(2)] by (simp del: fun_upd_apply add: fun_upd_other)
qed (auto split: option.splits)

lemma free_map_out: "x \<notin> set xs \<Longrightarrow> free_map P xs x = P x"
  by (induction xs arbitrary: P) (auto split: option.splits)

lemma free_map_cong: "(\<And>y. y \<in> set xs \<Longrightarrow> P y = Q y) \<Longrightarrow> distinct xs \<Longrightarrow> x \<in> set xs \<Longrightarrow> free_map P xs x = free_map Q xs x"
proof (induction xs arbitrary: P Q)
  case (Cons y ys)
  have "free_map (P(y := None)) ys x = free_map (Q(y := None)) ys x"
  proof (cases "x = y")
    case True
    then show ?thesis using Cons.prems(2) by (simp add: free_map_out)
  next
    case False
    then show ?thesis using Cons.prems by (intro Cons.IH) auto
  qed
  then show ?case using Cons.prems by (auto split: option.splits)
qed simp

text \<open>The part of \<open>pbuf_realloc\<close> that shortens the new last pbuf, with its memory.\<close>

lemma realloc_last:
  assumes ok: "net_ok sizes base s" and b: "pbufs s q = Some b" and rem: "rem \<le> len b"
  shows "\<exists>h. realloc_ram q b rem s = Some (q, s\<lparr>ram_heap := h\<rparr>)
    \<and> net_ok sizes base (put_pbuf q (b\<lparr>len := rem, tot_len := rem\<rparr>) (s\<lparr>ram_heap := h\<rparr>))"
proof -
  let ?b = "b\<lparr>len := rem, tot_len := rem\<rparr>"
  note okb = net_okD(3) [OF ok b]
  show ?thesis
  proof (cases "ptype b = PBUF_RAM \<and> rem \<noteq> len b")
    case False
    have "pbuf_ok (mem_live (ram_heap s)) (memp_live sizes base (memp s)) q ?b"
      using okb rem by (auto simp: pbuf_ok_def split: option.splits)
    then show ?thesis
      using net_ok_put [OF ok] by (intro exI [of _ "ram_heap s"]) (simp only: realloc_ram_def if_not_P [OF False], simp)
  next
    case True
    then obtain k where k: "mem_live (ram_heap s) q = Some k" "q + SIZEOF_STRUCT_PBUF \<le> payload b" "payload b + len b \<le> q + k"
      using okb by (auto simp: pbuf_ok_def split: option.splits)
    let ?n = "payload b - q + rem"
    have n: "?n \<le> k" "?n < 65536"
      using k rem mem_live_bounds [OF net_okD(1) [OF ok] k(1)] by (simp_all add: lwip_simps)
    obtain h k' where h: "mem_realloc (ram_heap s) q ?n = Some (q, h)" "mem_ok h" "ram h = ram (ram_heap s)" "?n \<le> k'"
      "mem_live h = (mem_live (ram_heap s))(q \<mapsto> k')"
      using mem_realloc_live [OF net_okD(1) [OF ok] k(1) n(1)] by blast
    have nn: "q \<noteq> NULL" using heap.live_nonnull [OF net_okD(1) [OF ok]] k(1) by (cases "q = NULL") simp_all
    let ?s = "put_pbuf q ?b (s\<lparr>ram_heap := h\<rparr>)"
    have "net_ok sizes base ?s"
    proof (rule net_okI [OF ok])
      fix p c
      assume p: "pbufs ?s p = Some c"
      show "pbuf_ok (mem_live (ram_heap ?s)) (memp_live sizes base (memp ?s)) p c"
      proof (cases "p = q")
        case pq: True
        then show ?thesis
          using p okb True k(2) h(4,5) rem by (auto simp: pbuf_ok_def split: option.splits)
      next
        case False
        then show ?thesis
          using p by (intro pbuf_ok_mono [OF net_okD(3) [OF ok]]) (simp_all add: h(5))
      qed
    qed (use h net_okD(2) [OF ok] in simp_all)
    then show ?thesis
      using True k(2) n(2) h(1) nn by (intro exI [of _ h]) (simp add: realloc_ram_def)
  qed
qed


lemma pbuf_realloc_ok:
  assumes ok: "net_ok sizes base s" and pk: "packet (pbufs s) p xs" and n: "n < plen (pbufs s) xs"
  shows "\<exists>as q bs s'. xs = as @ q # bs \<and> pbuf_realloc p n s = Some s' \<and> net_ok sizes base s'
    \<and> packet (pbufs s') p (as @ [q]) \<and> plen (pbufs s') (as @ [q]) = n
    \<and> chain_data s' (as @ [q]) = take n (chain_data s xs)
    \<and> bytes s' = bytes s \<and> (\<forall>x. x \<notin> set xs \<longrightarrow> pbufs s' x = pbufs s x)
    \<and> (\<forall>x. x \<in> set bs \<longrightarrow> pbufs s' x = free_map (pbufs s) bs x)
    \<and> net_state.more s' = net_state.more s \<and> plen (pbufs s) as \<le> n - 1
    \<and> (\<forall>x\<in>set as. \<exists>c t. pbufs s x = Some c \<and> pbufs s' x = Some (c\<lparr>tot_len := t\<rparr>))
    \<and> (\<exists>c. pbufs s q = Some c \<and> n - plen (pbufs s) as \<le> len c \<and> pbufs s' q = Some (c\<lparr>len := n - plen (pbufs s) as, tot_len := n - plen (pbufs s) as, pb_next := NULL\<rparr>))
    \<and> (\<forall>r. r \<notin> in_pool (pbufs s) bs \<longrightarrow> memp_live sizes base (memp s') r = memp_live sizes base (memp s) r)"
proof -
  obtain b ys where b: "xs = p # ys" "pbufs s p = Some b" "tot_len b = len b + plen (pbufs s) ys" "p \<noteq> NULL"
    using packet_head [OF pk] by blast
  have ch: "pchain (pbufs s) p xs" "tots (pbufs s) xs 0" and small: "plen (pbufs s) xs < 65536" using pk by (simp_all add: packet_def)
  have T: "tot_len b = plen (pbufs s) xs" using b by simp
  define g where g: "g = int n - int (plen (pbufs s) xs)"
  have "g < 65535" using n g by simp
  then obtain as q bs where sp: "xs = as @ q # bs" "plen (pbufs s) as \<le> n" "n - plen (pbufs s) as \<le> pfield (pbufs s) len q"
    "pbuf_realloc_skip p n g s = Some (q, n - plen (pbufs s) as, s\<lparr>pbufs := shift (pbufs s) as g\<rparr>)" "plen (pbufs s) as \<le> n - 1"
    using pbuf_realloc_skip_chain [OF ch(1) n] by blast
  let ?rem = "n - plen (pbufs s) as"
  let ?s1 = "s\<lparr>pbufs := shift (pbufs s) as g\<rparr>"
  have d: "distinct xs" by (rule packet_distinct [OF pk])
  have q: "q \<notin> set as" "q \<notin> set bs" "set as \<inter> set bs = {}" using d sp(1) by auto
  obtain bq where bq: "pbufs s q = Some bq" "pchain (pbufs s) (pb_next bq) bs"
    using pchain_suffix [of "pbufs s" p as q bs] ch(1) sp(1) pchain_ConsD by meson
  have ok1: "net_ok sizes base ?s1"
  proof (rule net_okI [OF ok])
    fix x c
    assume x: "pbufs ?s1 x = Some c"
    then obtain c' where c': "pbufs s x = Some c'" "c = (if x \<in> set as then c'\<lparr>tot_len := add16 (tot_len c') g\<rparr> else c')"
      by (auto simp: shift_def split: if_splits)
    have "add16 t g < 65536" for t by (simp add: add16_def nat_less_iff)
    then show "pbuf_ok (mem_live (ram_heap ?s1)) (memp_live sizes base (memp ?s1)) x c"
      using net_okD(3) [OF ok c'(1)] pbuf_ok_ref [OF net_okD(3) [OF ok c'(1)]] c'(2)
      by (auto intro: pbuf_ok_same)
  qed (use net_okD(1,2) [OF ok] in simp_all)
  have bq1: "pbufs ?s1 q = Some bq" using bq(1) q(1) by (simp add: shift_def)
  have rem: "?rem \<le> len bq" using sp(3) bq(1) by simp
  let ?bq = "bq\<lparr>len := ?rem, tot_len := ?rem\<rparr>"
  from realloc_last [OF ok1 bq1 rem] obtain h where
    h: "realloc_ram q bq ?rem ?s1 = Some (q, ?s1\<lparr>ram_heap := h\<rparr>)"
    and ok2: "net_ok sizes base (put_pbuf q ?bq (?s1\<lparr>ram_heap := h\<rparr>))"
    by blast
  define s2 where s2: "s2 = put_pbuf q ?bq (?s1\<lparr>ram_heap := h\<rparr>)"
  have P2: "pbufs s2 = (shift (pbufs s) as g)(q \<mapsto> ?bq)" by (simp add: s2)
  have ch2: "pchain (pbufs s2) (pb_next bq) bs"
    unfolding P2 using bq(2) q(2) by (simp add: pchain_upd_out del: fun_upd_apply)
  obtain s3 where s3: "realloc_free (pb_next bq) s2 = Some s3"
    "net_ok sizes base s3" "pbufs s3 = free_map (pbufs s2) bs" "bytes s3 = bytes s2" "net_state.more s3 = net_state.more s2"
    "memp_live sizes base (memp s3) = memp_live sizes base (memp s2) |` (- in_pool (pbufs s2) (unshared (pbufs s2) bs))"
  proof (cases "pb_next bq = NULL")
    case True
    then have "bs = []" using ch2 by (cases bs) auto
    then show ?thesis using True ok2 by (intro that [of s2]) (simp_all add: s2 realloc_free_def unshared_def on_heap_simps restrict_map_UNIV)
  next
    case False
    then show ?thesis
      using pbuf_free_loop_chain [OF ok2 [folded s2] ch2, of 0] by (auto intro!: that simp: pbuf_free_def realloc_free_def)
  qed
  have q3: "pbufs s3 q = Some ?bq" using q(2) unfolding s3(3) by (simp add: free_map_out P2)
  let ?bn = "?bq\<lparr>pb_next := NULL\<rparr>"
  let ?s4 = "put_pbuf q ?bn s3"
  have run: "pbuf_realloc p n s = Some ?s4"
    using b(2,4) n T sp(4) h s3(1) q3 bq1 unfolding g s2 by (simp add: pbuf_realloc_def)
  have ok4: "net_ok sizes base ?s4"
    by (rule net_ok_put [OF s3(2) pbuf_ok_same [OF net_okD(3) [OF s3(2) q3]]])
      (use pbuf_ok_ref [OF net_okD(3) [OF s3(2) q3]] in simp_all)
  have P4: "pbufs ?s4 x = (if x = q then Some ?bn else shift (pbufs s) as g x)" if "x \<notin> set bs" for x
    using that unfolding put_pbuf_simps s3(3) by (simp add: free_map_out P2)
  let ?Q = "(shift (pbufs s) as g)(q \<mapsto> ?bn)"
  have PQ: "pbufs ?s4 x = ?Q x" if "x \<in> set (as @ [q])" for x
  proof -
    have "x \<notin> set bs" using that q by auto
    then show ?thesis using P4 [of x] by simp
  qed
  let ?k = "plen (pbufs s) (q # bs)"
  have gk: "g = int ?rem - int ?k" using g sp(1,2) by simp
  have lens: "plen ?Q as = plen (pbufs s) as" using q(1) by (simp add: plen_upd_out del: fun_upd_apply)
  have "tots ?Q as ?rem"
  proof -
    have "tots (pbufs s) as ?k" using ch(2) sp(1) by (simp add: tots_append)
    then have "tots (shift (pbufs s) as g) as ?rem"
      using sp(1) small rem bq(1) pchain_live [OF ch(1)] unfolding gk by (intro tots_shift) auto
    then show ?thesis using q(1) by (simp add: tots_upd_out del: fun_upd_apply)
  qed
  moreover have "pchain ?Q p (as @ [q])"
    using ch(1) sp(1) by (intro pchain_cut [where bs = bs]) simp_all
  ultimately have "packet ?Q p (as @ [q])" "plen ?Q (as @ [q]) = n"
    using small sp(1,2) n lens by (simp_all add: packet_def tots_append del: fun_upd_apply add: fun_upd_same)
  then have "packet (pbufs ?s4) p (as @ [q])" "plen (pbufs ?s4) (as @ [q]) = n"
    using packet_cong [of "as @ [q]" "pbufs ?s4" ?Q p, OF PQ] plen_cong [of "as @ [q]" "pbufs ?s4" ?Q, OF PQ] by (simp_all only:)
  moreover have "chain_data ?s4 (as @ [q]) = take n (chain_data s xs)"
  proof -
    have bys: "bytes ?s4 = bytes s" using s3(4) by (simp add: s2)
    have "pbuf_data ?s4 x = pbuf_data s x" if "x \<in> set as" for x
      using PQ [of x] that q(1) pchain_live [OF ch(1), of x] sp(1) unfolding pbuf_data_def bys
      by (auto simp: shift_def)
    then have "chain_data ?s4 as = chain_data s as" by (rule chain_data_cong)
    moreover have "pbuf_data ?s4 q = take ?rem (pbuf_data s q)"
      using PQ [of q] bq(1) rem unfolding pbuf_data_def bys by (simp add: take_map)
    ultimately show ?thesis using sp(1,2) rem bq(1) by simp
  qed
  moreover have "pbufs ?s4 x = pbufs s x" if "x \<notin> set xs" for x
    using P4 [of x] that sp(1) by (simp add: shift_def)
  moreover have "pbufs ?s4 x = free_map (pbufs s) bs x" if "x \<in> set bs" for x
  proof -
    have "pbufs s2 y = pbufs s y" if "y \<in> set bs" for y
      using that q by (auto simp: P2 shift_def)
    then show ?thesis using that q(2) free_map_cong [of bs "pbufs s2" "pbufs s" x] d sp(1) by (auto simp: s3(3))
  qed
  moreover have "net_state.more ?s4 = net_state.more s" using s3(5) by (simp add: s2 put_pbuf_def)
  moreover have "\<exists>c t. pbufs s x = Some c \<and> pbufs ?s4 x = Some (c\<lparr>tot_len := t\<rparr>)" if "x \<in> set as" for x
    using PQ [of x] that q(1) pchain_live [OF ch(1), of x] sp(1) by (auto simp: shift_def)
  moreover have "pbufs s q = Some bq" "pbufs ?s4 q = Some ?bn" using bq(1) by simp_all
  moreover have "memp_live sizes base (memp ?s4) r = memp_live sizes base (memp s) r" if "r \<notin> in_pool (pbufs s) bs" for r
  proof -
    have "pbufs s2 y = pbufs s y" if "y \<in> set bs" for y using that q by (auto simp: P2 shift_def)
    then have "in_pool (pbufs s2) (unshared (pbufs s2) bs) \<subseteq> in_pool (pbufs s) bs"
      using set_takeWhileD by (fastforce simp: in_pool_def unshared_def)
    then have "r \<notin> in_pool (pbufs s2) (unshared (pbufs s2) bs)" using that by blast
    then show ?thesis using s3(6) by (simp add: s2 put_pbuf_def)
  qed
  ultimately show ?thesis
    using sp(1,5) run ok4 s3(4) rem by (intro exI [of _ as] exI [of _ q] exI [of _ bs] exI [of _ ?s4]) (simp add: s2)
qed

section \<open>Copying\<close>

text \<open>\<open>poke a v d\<close> stores the bytes \<open>v\<close> at address \<open>a\<close>; \<open>peek\<close> reads a block.\<close>

definition poke :: "addr \<Rightarrow> u8_t list \<Rightarrow> (addr \<Rightarrow> u8_t) \<Rightarrow> (addr \<Rightarrow> u8_t)" where
  "poke a v d = (\<lambda>x. if a \<le> x \<and> x < a + length v then v ! (x - a) else d x)"

definition peek :: "(addr \<Rightarrow> u8_t) \<Rightarrow> addr \<Rightarrow> nat \<Rightarrow> u8_t list" where
  "peek d a n = map d [a..<a + n]"

lemma length_peek [simp]: "length (peek d a n) = n"
  by (simp add: peek_def)

lemma memcpy_poke: "memcpy dst src n d = poke dst (peek d src n) d"
  by (intro ext) (auto simp: memcpy_def poke_def peek_def)

lemma poke_Nil [simp]: "poke a [] d = d"
  by (intro ext) (auto simp: poke_def)

lemma poke_append: "poke (a + length u) v (poke a u d) = poke a (u @ v) d"
  by (intro ext) (auto simp: poke_def nth_append)

lemma peek_poke: "peek (poke a v d) a (length v) = v"
  by (intro nth_equalityI) (simp_all add: peek_def poke_def)

lemma peek_poke_apart: "a + length v \<le> b \<or> b + n \<le> a \<Longrightarrow> peek (poke a v d) b n = peek d b n"
  by (auto simp: peek_def poke_def)

lemma peek_add: "peek d a (m + n) = peek d a m @ peek d (a + m) n"
  using upt_add_eq_append [of a "a + m" n] by (simp add: peek_def add.assoc flip: map_append)

lemma take_peek: "n \<le> m \<Longrightarrow> take n (peek d a m) = peek d a n"
  by (simp add: peek_def take_map)

lemma drop_peek: "n \<le> m \<Longrightarrow> drop n (peek d a m) = peek d (a + n) (m - n)"
  by (simp add: peek_def drop_map)

lemma pbuf_data_peek: "pbufs s x = Some b \<Longrightarrow> pbuf_data s x = peek (bytes s) (payload b) (len b)"
  by (simp add: pbuf_data_def peek_def)

text \<open>A block of memory that none of the payloads of a chain overlaps.\<close>

definition clear_of :: "(addr \<rightharpoonup> pbuf) \<Rightarrow> addr list \<Rightarrow> addr \<Rightarrow> nat \<Rightarrow> bool" where
  "clear_of P xs a n \<longleftrightarrow> list_all (\<lambda>x. case P x of None \<Rightarrow> True
     | Some b \<Rightarrow> a + n \<le> payload b \<or> payload b + len b \<le> a) xs"

lemma clear_of_Cons:
  "P x = Some b \<Longrightarrow> clear_of P (x # xs) a n \<longleftrightarrow> (a + n \<le> payload b \<or> payload b + len b \<le> a) \<and> clear_of P xs a n"
  by (simp add: clear_of_def)

lemma chain_data_poke:
  "clear_of (pbufs s) xs a n \<Longrightarrow> a \<le> c \<Longrightarrow> c + length v \<le> a + n \<Longrightarrow>
     chain_data (s\<lparr>bytes := poke c v (bytes s)\<rparr>) xs = chain_data s xs"
proof (rule chain_data_cong)
  fix x
  assume cl: "clear_of (pbufs s) xs a n" "a \<le> c" "c + length v \<le> a + n" and x: "x \<in> set xs"
  show "pbuf_data (s\<lparr>bytes := poke c v (bytes s)\<rparr>) x = pbuf_data s x"
  proof (cases "pbufs s x")
    case (Some b)
    then have "a + n \<le> payload b \<or> payload b + len b \<le> a"
      using cl(1) x by (auto simp: clear_of_def list_all_iff)
    then have "peek (poke c v (bytes s)) (payload b) (len b) = peek (bytes s) (payload b) (len b)"
      using cl(2,3) by (intro peek_poke_apart) auto
    then show ?thesis
      using Some pbuf_data_peek [of s x b] pbuf_data_peek [of "s\<lparr>bytes := poke c v (bytes s)\<rparr>" x b] by simp
  qed (simp add: pbuf_data_def)
qed

text \<open>
  \<open>copy_partial_loop\<close> from any point of a chain: it stores the requested part of the remaining
  data behind what was stored before.
\<close>

lemma copy_partial_loop_chain:
  assumes "pchain (pbufs s) p xs" and "clear_of (pbufs s) xs d (left + n)" and "left + n < 65536"
  shows "copy_partial_loop p d left n off s =
    Some (left + length (take n (drop off (chain_data s xs))),
      s\<lparr>bytes := poke (d + left) (take n (drop off (chain_data s xs))) (bytes s)\<rparr>)"
  using assms
proof (induction xs arbitrary: p left n off s)
  case Nil
  then show ?case by (subst copy_partial_loop.simps) simp
next
  case (Cons x xs)
  obtain b where b: "p = x" "x \<noteq> NULL" "pbufs s x = Some b" "pchain (pbufs s) (pb_next b) xs"
    using pchain_ConsD [OF Cons.prems(1)] by blast
  have cl: "d + (left + n) \<le> payload b \<or> payload b + len b \<le> d" "clear_of (pbufs s) xs d (left + n)"
    using Cons.prems(2) clear_of_Cons [of "pbufs s" x b] b(3) by blast+
  show ?case
  proof (cases "n = 0")
    case True
    then show ?thesis by (subst copy_partial_loop.simps) simp
  next
    case n: False
    show ?thesis
    proof (cases "off \<noteq> 0 \<and> off \<ge> len b")
      case True
      have "copy_partial_loop p d left n off s = copy_partial_loop (pb_next b) d left n (off - len b) s"
        using b n True by (subst copy_partial_loop.simps) simp
      then show ?thesis
        using Cons.IH [OF b(4) cl(2) Cons.prems(3), of "off - len b"] True b(3) by simp
    next
      case False
      let ?k = "min (len b - off) n"
      let ?v = "peek (bytes s) (payload b + off) ?k"
      let ?s = "s\<lparr>bytes := poke (d + left) ?v (bytes s)\<rparr>"
      have off: "off \<le> len b" using False by (cases "off = 0") auto
      have "copy_partial_loop p d left n off s = copy_partial_loop (pb_next b) d (left + ?k) (n - ?k) 0 ?s"
        using b n False Cons.prems(3) by (subst copy_partial_loop.simps) (auto simp: Let_def memcpy_poke)
      also have "\<dots> = Some (left + ?k + length (take (n - ?k) (chain_data ?s xs)),
          ?s\<lparr>bytes := poke (d + (left + ?k)) (take (n - ?k) (chain_data ?s xs)) (bytes ?s)\<rparr>)"
      proof -
        have "left + ?k + (n - ?k) = left + n" by simp
        then show ?thesis
          using Cons.IH [of ?s "pb_next b" "left + ?k" "n - ?k" 0] b(4) cl(2) Cons.prems(3) by simp
      qed
      also have "chain_data ?s xs = chain_data s xs"
        using cl(2) by (rule chain_data_poke) simp_all
      also have "poke (d + (left + ?k)) (take (n - ?k) (chain_data s xs)) (bytes ?s)
          = poke (d + left) (?v @ take (n - ?k) (chain_data s xs)) (bytes s)"
        using poke_append [of "d + left" ?v "take (n - ?k) (chain_data s xs)" "bytes s"] by (simp add: add.assoc)
      also have "?v @ take (n - ?k) (chain_data s xs) = take n (drop off (chain_data s (x # xs)))"
      proof -
        have "drop off (chain_data s (x # xs)) = peek (bytes s) (payload b + off) (len b - off) @ chain_data s xs"
          using off b(3) by (simp add: pbuf_data_peek [OF b(3)] drop_peek)
        moreover have "take n (peek (bytes s) (payload b + off) (len b - off)) = ?v"
          by (cases "n \<le> len b - off") (simp_all add: take_peek)
        ultimately show ?thesis by (simp add: min_def)
      qed
      finally show ?thesis
        using off b(3) by (simp add: min_def)
    qed
  qed
qed

text \<open>Chains whose payloads do not overlap, and overwriting a part of a list.\<close>

fun apart :: "(addr \<rightharpoonup> pbuf) \<Rightarrow> addr list \<Rightarrow> bool" where
  "apart P [] \<longleftrightarrow> True"
| "apart P (x # xs) \<longleftrightarrow> (case P x of None \<Rightarrow> True | Some b \<Rightarrow> clear_of P xs (payload b) (len b)) \<and> apart P xs"

definition overlay :: "nat \<Rightarrow> 'b list \<Rightarrow> 'b list \<Rightarrow> 'b list" where
  "overlay i v xs = take i xs @ v @ drop (i + length v) xs"

lemma overlay_overlay:
  "i + length v + length w \<le> length xs \<Longrightarrow> overlay (i + length v) w (overlay i v xs) = overlay i (v @ w) xs"
  by (cases v) (auto simp: overlay_def min_def add.assoc add.commute [of "length w"])

lemma overlay_append1: "i + length v \<le> length xs \<Longrightarrow> overlay i v (xs @ ys) = overlay i v xs @ ys"
  by (simp add: overlay_def)

lemma overlay_append2: "i + length v = length xs \<Longrightarrow> overlay i (v @ w) (xs @ ys) = overlay i v xs @ overlay 0 w ys"
  by (simp add: overlay_def flip: add.assoc)

lemma length_overlay [simp]: "i + length v \<le> length xs \<Longrightarrow> length (overlay i v xs) = length xs"
  by (simp add: overlay_def)

definition unchanged_outside :: "(addr \<rightharpoonup> pbuf) \<Rightarrow> addr list \<Rightarrow> (addr \<Rightarrow> u8_t) \<Rightarrow> (addr \<Rightarrow> u8_t) \<Rightarrow> bool" where
  "unchanged_outside P xs d d' \<longleftrightarrow> (\<forall>c m. clear_of P xs c m \<longrightarrow> peek d' c m = peek d c m)"

lemma clear_of_sub: "clear_of P xs a n \<Longrightarrow> a \<le> c \<Longrightarrow> c + m \<le> a + n \<Longrightarrow> clear_of P xs c m"
  by (auto simp: clear_of_def list_all_iff split: option.splits)

text \<open>Storing bytes inside the payload of a pbuf.\<close>

lemma poke_payload:
  assumes "pbufs s x = Some b" and "i + length v \<le> len b" and "clear_of (pbufs s) xs (payload b) (len b)"
  defines "s' \<equiv> s\<lparr>bytes := poke (payload b + i) v (bytes s)\<rparr>"
  shows "pbuf_data s' x = overlay i v (pbuf_data s x)" and "chain_data s' xs = chain_data s xs"
    and "unchanged_outside (pbufs s) (x # xs) (bytes s) (bytes s')"
proof -
  let ?d = "bytes s" and ?d' = "poke (payload b + i) v (bytes s)"
  have "peek ?d' (payload b) (len b) = overlay i v (peek ?d (payload b) (len b))"
    using assms(2)
    by (intro nth_equalityI) (auto simp: peek_def poke_def overlay_def nth_append)
  then show "pbuf_data s' x = overlay i v (pbuf_data s x)"
    using assms(1) pbuf_data_peek [of s' x b] pbuf_data_peek [of s x b] by (simp add: s'_def)
  show "chain_data s' xs = chain_data s xs"
    unfolding s'_def using assms(2) by (intro chain_data_poke [OF assms(3)]) simp_all
  show "unchanged_outside (pbufs s) (x # xs) (bytes s) (bytes s')"
    using assms(1,2) by (auto simp: unchanged_outside_def clear_of_Cons s'_def intro!: peek_poke_apart)
qed

lemma pbuf_take_loop_chain:
  assumes "pchain (pbufs s) p xs" and "apart (pbufs s) xs" and "clear_of (pbufs s) xs (a + c) n" and "n \<le> plen (pbufs s) xs"
  shows "\<exists>d. pbuf_take_loop p a n c s = Some (0, c + n, s\<lparr>bytes := d\<rparr>)
    \<and> chain_data (s\<lparr>bytes := d\<rparr>) xs = overlay 0 (peek (bytes s) (a + c) n) (chain_data s xs)
    \<and> unchanged_outside (pbufs s) xs (bytes s) d"
  using assms
proof (induction xs arbitrary: p c n s)
  case Nil
  then show ?case
    by (subst pbuf_take_loop.simps) (auto simp: overlay_def peek_def unchanged_outside_def intro!: exI [of _ "bytes s"])
next
  case (Cons x xs)
  obtain b where b: "p = x" "x \<noteq> NULL" "pbufs s x = Some b" "pchain (pbufs s) (pb_next b) xs"
    using pchain_ConsD [OF Cons.prems(1)] by blast
  have ap: "clear_of (pbufs s) xs (payload b) (len b)" "apart (pbufs s) xs" using Cons.prems(2) b(3) by simp_all
  have cl: "a + c + n \<le> payload b \<or> payload b + len b \<le> a + c" "clear_of (pbufs s) xs (a + c) n"
    using Cons.prems(3) clear_of_Cons [of "pbufs s" x b] b(3) by blast+
  show ?case
  proof (cases "n = 0")
    case True
    then show ?thesis
      by (subst pbuf_take_loop.simps) (auto simp: overlay_def peek_def unchanged_outside_def intro!: exI [of _ "bytes s"])
  next
    case False
    let ?k = "min n (len b)"
    let ?v = "peek (bytes s) (a + c) ?k"
    let ?s = "s\<lparr>bytes := poke (payload b) ?v (bytes s)\<rparr>"
    note pk = poke_payload [OF b(3), of 0 ?v xs, simplified, OF ap(1)]
    have "n - ?k \<le> plen (pbufs s) xs" using Cons.prems(4) b(3) by (auto simp: min_def)
    moreover have "clear_of (pbufs s) xs (a + (c + ?k)) (n - ?k)"
      using clear_of_sub [OF cl(2), of "a + (c + ?k)" "n - ?k"] by simp
    ultimately obtain d where d: "pbuf_take_loop (pb_next b) a (n - ?k) (c + ?k) ?s = Some (0, c + ?k + (n - ?k), ?s\<lparr>bytes := d\<rparr>)"
      "chain_data (?s\<lparr>bytes := d\<rparr>) xs = overlay 0 (peek (bytes ?s) (a + (c + ?k)) (n - ?k)) (chain_data ?s xs)"
      "unchanged_outside (pbufs s) xs (bytes ?s) d"
      using Cons.IH [of ?s "pb_next b" "c + ?k" "n - ?k"] b(3,4) ap(2) by auto
    moreover have "pbuf_take_loop p a n c s = pbuf_take_loop (pb_next b) a (n - ?k) (c + ?k) ?s"
      using b False by (subst pbuf_take_loop.simps) (auto simp: Let_def memcpy_poke min_def)
    moreover have "peek (bytes ?s) (a + (c + ?k)) (n - ?k) = peek (bytes s) (a + (c + ?k)) (n - ?k)"
      using cl(1) by (simp, intro peek_poke_apart) auto
    moreover have "pbuf_data (s\<lparr>bytes := d\<rparr>) x = pbuf_data ?s x"
      using d(3) ap(1) b(3) pbuf_data_peek [of "s\<lparr>bytes := d\<rparr>" x b] pbuf_data_peek [of ?s x b]
      by (simp add: unchanged_outside_def)
    moreover have "overlay 0 (peek (bytes s) (a + c) n) (chain_data s (x # xs))
        = overlay 0 ?v (pbuf_data s x) @ overlay 0 (peek (bytes s) (a + (c + ?k)) (n - ?k)) (chain_data s xs)"
    proof (cases "n \<le> len b")
      case True
      then show ?thesis using b(3) by (simp add: overlay_def min_def peek_def)
    next
      case False
      have "peek (bytes s) (a + c) n = ?v @ peek (bytes s) (a + (c + ?k)) (n - ?k)"
        using peek_add [of "bytes s" "a + c" ?k "n - ?k"] by (simp add: add.assoc)
      moreover have "length ?v = length (pbuf_data s x)" using False b(3) by simp
      ultimately show ?thesis
        using overlay_append2 [of 0 ?v "pbuf_data s x" _ "chain_data s xs"] by simp
    qed
    moreover have "unchanged_outside (pbufs s) (x # xs) (bytes s) d"
      using d(3) pk(3) b(3) by (auto simp: unchanged_outside_def clear_of_Cons)
    ultimately show ?thesis
      using pk by (intro exI [of _ d]) simp
  qed
qed

text \<open>
  The loop of \<open>pbuf_copy\<close>, from any pair of positions. The pbufs of both chains are not empty: an
  empty one behind the end of the data trips the assertion against packet queues.
\<close>

definition filled :: "(addr \<rightharpoonup> pbuf) \<Rightarrow> addr list \<Rightarrow> bool" where
  "filled P xs \<longleftrightarrow> list_all (\<lambda>x. 0 < pfield P len x) xs"

definition sources_clear :: "(addr \<rightharpoonup> pbuf) \<Rightarrow> addr list \<Rightarrow> addr list \<Rightarrow> bool" where
  "sources_clear P ts fs \<longleftrightarrow> list_all (\<lambda>f. case P f of None \<Rightarrow> True | Some b \<Rightarrow> clear_of P ts (payload b) (len b)) fs"

lemma filled_plen: "filled P xs \<Longrightarrow> xs \<noteq> [] \<Longrightarrow> 0 < plen P xs"
  by (cases xs) (auto simp: filled_def simp del: pfield.simps)

lemma no_queue:
  assumes "pchain P p xs" and "tots P xs 0" and "filled P xs" and "xs \<noteq> []"
  shows "\<exists>b. P p = Some b \<and> (len b = tot_len b \<longrightarrow> pb_next b = NULL)"
proof -
  obtain x ys where x: "xs = x # ys" using assms(4) by (cases xs) auto
  obtain b where b: "p = x" "P x = Some b" "pchain P (pb_next b) ys"
    using pchain_ConsD [of P p x ys] assms(1) x by blast
  have "ys = []" if "len b = tot_len b"
    using that assms(2,3) b(2) x filled_plen [of P ys] by (cases "ys = []") (auto simp: filled_def)
  then show ?thesis using b by auto
qed

lemma sources_clear_data:
  assumes "sources_clear P ts fs" and "P = pbufs s" and "unchanged_outside P ts (bytes s) d"
  shows "chain_data (s\<lparr>bytes := d\<rparr>) fs = chain_data s fs"
proof (rule chain_data_cong)
  fix f
  assume f: "f \<in> set fs"
  show "pbuf_data (s\<lparr>bytes := d\<rparr>) f = pbuf_data s f"
  proof (cases "pbufs s f")
    case (Some b)
    then have "clear_of P ts (payload b) (len b)"
      using assms(1,2) f by (auto simp: sources_clear_def list_all_iff)
    then have "peek d (payload b) (len b) = peek (bytes s) (payload b) (len b)"
      using assms(3) by (simp add: unchanged_outside_def)
    then show ?thesis
      using Some pbuf_data_peek [of s f b] pbuf_data_peek [of "s\<lparr>bytes := d\<rparr>" f b] by simp
  qed (simp add: pbuf_data_def)
qed

lemma clear_of_mono: "clear_of P xs a n \<Longrightarrow> set ys \<subseteq> set xs \<Longrightarrow> clear_of P ys a n"
  by (auto simp: clear_of_def list_all_iff)

lemma sources_clear_mono:
  "sources_clear P ts fs \<Longrightarrow> set ts' \<subseteq> set ts \<Longrightarrow> set fs' \<subseteq> set fs \<Longrightarrow> sources_clear P ts' fs'"
  unfolding sources_clear_def list_all_iff by (auto simp: clear_of_mono split: option.splits) (metis clear_of_mono option.simps(5) subsetD)

lemma pbuf_copy_loop_chain:
  assumes "pchain (pbufs s) t ts" and "pchain (pbufs s) f fs" and "tots (pbufs s) ts 0" and "tots (pbufs s) fs 0"
    and "filled (pbufs s) ts" and "filled (pbufs s) fs" and "apart (pbufs s) ts" and "sources_clear (pbufs s) ts fs"
    and "fs \<noteq> []" and "ts \<noteq> []" and "ot < pfield (pbufs s) len t" and "fo < pfield (pbufs s) len f"
    and "plen (pbufs s) fs + ot \<le> plen (pbufs s) ts + fo"
  shows "\<exists>d. pbuf_copy_loop t ot f fo s = Some (s\<lparr>bytes := d\<rparr>)
    \<and> chain_data (s\<lparr>bytes := d\<rparr>) ts = overlay ot (drop fo (chain_data s fs)) (chain_data s ts)
    \<and> unchanged_outside (pbufs s) ts (bytes s) d"
  using assms
proof (induction "length ts + length fs" arbitrary: t ts ot f fs fo s rule: less_induct)
  case less
  obtain ts' where ts: "ts = t # ts'" using less.prems(1,10) by (cases ts) auto
  obtain fs' where fs: "fs = f # fs'" using less.prems(2,9) by (cases fs) auto
  obtain bt where bt: "t \<noteq> NULL" "pbufs s t = Some bt" "pchain (pbufs s) (pb_next bt) ts'"
    using pchain_ConsD [of "pbufs s" t t ts'] less.prems(1) ts by blast
  obtain bf where bf: "f \<noteq> NULL" "pbufs s f = Some bf" "pchain (pbufs s) (pb_next bf) fs'"
    using pchain_ConsD [of "pbufs s" f f fs'] less.prems(2) fs by blast
  have ot: "ot < len bt" and fo: "fo < len bf" using less.prems(11,12) bt(2) bf(2) by simp_all
  define n where n: "n = min (len bt - ot) (len bf - fo)"
  let ?v = "peek (bytes s) (payload bf + fo) n"
  define s1 where s1: "s1 = s\<lparr>bytes := poke (payload bt + ot) ?v (bytes s)\<rparr>"
  have P1: "pbufs s1 = pbufs s" by (simp add: s1)
  have ap: "clear_of (pbufs s) ts' (payload bt) (len bt)" "apart (pbufs s) ts'"
    using less.prems(7) bt(2) ts by simp_all
  have lv: "ot + length ?v \<le> len bt" using n ot by simp
  note pk = poke_payload [OF bt(2) lv ap(1), folded s1]
  have pk3: "unchanged_outside (pbufs s) ts (bytes s) (bytes s1)" using pk(3) ts by simp
  have vf: "?v = take n (drop fo (pbuf_data s f))"
    using n fo by (simp add: pbuf_data_peek [OF bf(2)] drop_peek take_peek)
  have more: "ts' \<noteq> []" if "ot + n = len bt" "fo + n < len bf \<or> fs' \<noteq> []"
  proof -
    have "0 < plen (pbufs s) fs'" if "fs' \<noteq> []"
      using that less.prems(6) fs filled_plen [of "pbufs s" fs'] by (simp add: filled_def)
    moreover have "fo + n \<le> len bf" using n fo by simp
    ultimately have "0 < plen (pbufs s) ts'"
      using that less.prems(13) ts fs bt(2) bf(2) by auto
    then show ?thesis by auto
  qed
  define t2 where t2: "t2 = (if ot + n = len bt then pb_next bt else t)"
  define o2 where o2: "o2 = (if ot + n = len bt then 0 else ot + n)"
  define f2 where f2: "f2 = (if fo + n = len bf then pb_next bf else f)"
  define p2 where p2: "p2 = (if fo + n = len bf then 0 else fo + n)"
  define ts2 where ts2: "ts2 = (if ot + n = len bt then ts' else ts)"
  define fs2 where fs2: "fs2 = (if fo + n = len bf then fs' else fs)"
  have ch2: "pchain (pbufs s) t2 ts2" "pchain (pbufs s) f2 fs2"
    using less.prems(1,2) bt(3) bf(3) by (simp_all add: t2 ts2 f2 fs2)
  have inv2: "tots (pbufs s) ts2 0" "tots (pbufs s) fs2 0" "filled (pbufs s) ts2" "filled (pbufs s) fs2" "apart (pbufs s) ts2"
    using less.prems(3-7) ap(2) by (simp_all add: ts2 fs2 ts fs filled_def)
  have sc2: "sources_clear (pbufs s) ts2 fs2"
    by (rule sources_clear_mono [OF less.prems(8)]) (auto simp: ts2 fs2 ts fs)
  have end2: "(f2 \<noteq> NULL) = (fs2 \<noteq> [])" "(t2 \<noteq> NULL) = (ts2 \<noteq> [])"
    using ch2 pchain_live by (cases fs2; cases ts2; auto)+
  have advance: "fo + n = len bf \<or> ot + n = len bt" using n ot fo by (auto simp: min_def)
  have step: "pbuf_copy_loop t ot f fo s = (if f2 \<noteq> NULL then pbuf_copy_loop t2 o2 f2 p2 s1 else Some s1)"
  proof -
    have chk: "queue_check q s1 = Some ()"
      if "pchain (pbufs s) q zs" "tots (pbufs s) zs 0" "filled (pbufs s) zs" for q zs
    proof (cases "zs = []")
      case True
      then show ?thesis using that(1) by (simp add: queue_check_def)
    next
      case False
      then show ?thesis using no_queue [OF that False] by (auto simp: queue_check_def P1)
    qed
    have nn: "(if len bf - fo \<le> len bt - ot then len bf - fo else len bt - ot) = n" by (simp add: n min_def)
    have ge: "len bf \<le> fo + n \<longleftrightarrow> fo + n = len bf" using n fo by auto
    have le: "ot + n \<le> len bt" "fo + n \<le> len bf" using n ot fo by auto
    have "(if len bf \<le> fo + n then (pb_next bf, 0) else (f, fo + n)) = (f2, p2)"
      "(if ot + n = len bt then (pb_next bt, 0) else (t, ot + n)) = (t2, o2)"
      by (simp_all add: ge t2 o2 f2 p2)
    then show ?thesis
      using bt(1,2) bf(2) le chk [OF ch2(1) inv2(1,3)] chk [OF ch2(2) inv2(2,4)]
      by (subst pbuf_copy_loop.simps) (simp only: Let_def nn memcpy_poke s1 [symmetric] lwip_assert_bind bind.bind_lunit prod.case if_True not_False_eq_True simp_thms)
  qed
  have w: "drop fo (chain_data s fs) = ?v @ drop p2 (chain_data s fs2)"
  proof (cases "fo + n = len bf")
    case True
    then show ?thesis using vf bf(2) fo by (simp add: fs2 p2 fs)
  next
    case False
    have "drop fo (chain_data s fs) = take n (drop fo (pbuf_data s f)) @ drop n (drop fo (pbuf_data s f)) @ chain_data s fs'"
      using fo bf(2) fs by (simp del: drop_drop add: append_take_drop_id flip: append_assoc)
    moreover have "fo + n < len bf" using False n fo by linarith
    ultimately show ?thesis
      using vf bf(2) by (simp add: fs2 p2 fs add.commute)
  qed
  have ts1: "chain_data s1 ts = overlay ot ?v (chain_data s ts)"
    using pk(1,2) lv bt(2) by (simp add: ts overlay_append1)
  show ?case
  proof (cases "fs2 = []")
    case True
    then have "drop fo (chain_data s fs) = ?v" using w by simp
    moreover have "s1 = s\<lparr>bytes := bytes s1\<rparr>" by (simp add: s1)
    ultimately show ?thesis
      using step True end2(1) ts1 pk3 by (intro exI [of _ "bytes s1"]) simp
  next
    case False
    have le: "fo + n \<le> len bf" "ot + n \<le> len bt" using n fo ot by linarith+
    have "fo + n < len bf \<or> fs' \<noteq> []"
      using False le(1) by (cases "fo + n = len bf") (simp_all add: fs2)
    then have tne: "ts2 \<noteq> []"
      using more by (simp add: ts2 ts)
    have lens: "o2 < pfield (pbufs s) len t2" "p2 < pfield (pbufs s) len f2"
    proof -
      have head: "0 < pfield (pbufs s) len q" if "pchain (pbufs s) q zs" "filled (pbufs s) zs" "zs \<noteq> []" for q zs
        using that by (cases zs) (auto simp: filled_def simp del: pfield.simps)
      show "o2 < pfield (pbufs s) len t2"
        using head [OF ch2(1) inv2(3) tne] le(2) bt(2) by (cases "ot + n = len bt") (simp_all add: o2 t2)
      show "p2 < pfield (pbufs s) len f2"
        using head [OF ch2(2) inv2(4) False] le(1) bf(2) by (cases "fo + n = len bf") (simp_all add: p2 f2)
    qed
    have room: "plen (pbufs s) fs2 + o2 \<le> plen (pbufs s) ts2 + p2"
      using less.prems(13) bt(2) bf(2) le by (simp add: ts2 fs2 ts fs o2 p2)
    have "length ts2 + length fs2 < length ts + length fs"
      using advance by (auto simp: ts2 fs2 ts fs)
    from less.hyps [OF this, of s1 t2 f2 o2 p2]
    obtain d where d: "pbuf_copy_loop t2 o2 f2 p2 s1 = Some (s1\<lparr>bytes := d\<rparr>)"
      "chain_data (s1\<lparr>bytes := d\<rparr>) ts2 = overlay o2 (drop p2 (chain_data s1 fs2)) (chain_data s1 ts2)"
      "unchanged_outside (pbufs s) ts2 (bytes s1) d"
      using ch2 inv2 sc2 False tne lens room unfolding P1 by blast
    have fs21: "chain_data s1 fs2 = chain_data s fs2"
    proof -
      have "sources_clear (pbufs s) ts fs2"
        by (rule sources_clear_mono [OF less.prems(8)]) (auto simp: fs2 fs)
      from sources_clear_data [OF this refl, of "bytes s1"] pk3 show ?thesis by (simp add: s1)
    qed
    have sd: "s1\<lparr>bytes := d\<rparr> = s\<lparr>bytes := d\<rparr>" by (simp add: s1)
    let ?w = "drop p2 (chain_data s fs2)"
    have "chain_data (s\<lparr>bytes := d\<rparr>) ts = overlay ot (?v @ ?w) (chain_data s ts)"
    proof (cases "ot + n = len bt")
      case True
      have "pbuf_data (s\<lparr>bytes := d\<rparr>) t = pbuf_data s1 t"
        using d(3) ap(1) True bt(2) pbuf_data_peek [of "s\<lparr>bytes := d\<rparr>" t bt] pbuf_data_peek [of s1 t bt] P1
        by (simp add: unchanged_outside_def ts2)
      then show ?thesis
        using d(2) pk True bt(2) fs21 overlay_append2 [of ot ?v "pbuf_data s t" ?w "chain_data s ts'"]
        unfolding sd by (simp add: ts2 o2 ts)
    next
      case nt: False
      have "ot + length ?v + length ?w \<le> length (chain_data s ts)"
      proof -
        have "p2 \<le> plen (pbufs s) fs2" using lens(2) ch2(2) False by (cases fs2) (auto simp del: pfield.simps)
        then show ?thesis using room nt by (simp add: ts2 o2)
      qed
      then show ?thesis
        using d(2) nt ts1 fs21 overlay_overlay [of ot ?v ?w "chain_data s ts"]
        unfolding sd by (simp add: ts2 o2)
    qed
    moreover have "unchanged_outside (pbufs s) ts (bytes s) d"
    proof -
      have "clear_of (pbufs s) ts c m \<Longrightarrow> clear_of (pbufs s) ts2 c m" for c m
        by (auto simp: ts2 ts clear_of_def)
      then show ?thesis using d(3) pk3 by (auto simp: unchanged_outside_def)
    qed
    ultimately show ?thesis
      using step d(1) False end2(1) w sd by (intro exI [of _ d]) simp
  qed
qed
section \<open>Payloads of different pbufs do not overlap\<close>

definition owned :: "(addr \<rightharpoonup> pbuf) \<Rightarrow> addr list \<Rightarrow> bool" where
  "owned P xs \<longleftrightarrow> list_all (\<lambda>x. case P x of None \<Rightarrow> False | Some b \<Rightarrow> ptype b = PBUF_RAM \<or> ptype b = PBUF_POOL) xs"

lemma owned_apart:
  assumes ok: "net_ok sizes base s" and b: "pbufs s x = Some b" "ptype b = PBUF_RAM \<or> ptype b = PBUF_POOL"
    and c: "pbufs s y = Some c" "ptype c = PBUF_RAM \<or> ptype c = PBUF_POOL" and "x \<noteq> y"
  shows "payload b + len b \<le> payload c \<or> payload c + len c \<le> payload b"
proof -
  let ?hl = "mem_live (ram_heap s)" and ?pl = "memp_live sizes base (memp s)"
  have room: "\<exists>k. pbuf_room ?hl ?pl z (ptype d) = Some k \<and> z + SIZEOF_STRUCT_PBUF \<le> payload d \<and> payload d + len d \<le> z + k"
    if "pbufs s z = Some d" "ptype d = PBUF_RAM \<or> ptype d = PBUF_POOL" for z d
    using net_okD(3) [OF ok that(1)] that(2) by (auto simp: pbuf_ok_def split: option.splits)
  obtain k where k: "pbuf_room ?hl ?pl x (ptype b) = Some k" "x + SIZEOF_STRUCT_PBUF \<le> payload b" "payload b + len b \<le> x + k"
    using room [OF b] by blast
  obtain m where m: "pbuf_room ?hl ?pl y (ptype c) = Some m" "y + SIZEOF_STRUCT_PBUF \<le> payload c" "payload c + len c \<le> y + m"
    using room [OF c] by blast
  have span: "x' + k' \<le> y' \<or> y' + m' \<le> x'"
    if "?hl x' = Some k'" "?pl y' = Some MEMP_PBUF_POOL" "m' = SIZEOF_STRUCT_PBUF + PBUF_POOL_BUFSIZE_ALIGNED" for x' k' y' m'
  proof -
    have "(y', MEMP_PBUF_POOL) \<in> set (memp_slots sizes base)" using memp_live_iff [OF net_okD(2) [OF ok]] that(2) by blast
    from memp_live_bounds [OF net_okD(2) [OF ok] this] mem_live_bounds [OF net_okD(1) [OF ok] that(1)] show ?thesis
      using ok that(3) by (auto simp: net_ok_def regions_apart_def)
  qed
  have "x + k \<le> y \<or> y + m \<le> x"
  proof (cases "ptype b = PBUF_RAM"; cases "ptype c = PBUF_RAM")
    assume "ptype b = PBUF_RAM" "ptype c = PBUF_RAM"
    then show ?thesis
      using heap.live_disjoint [OF net_okD(1) [OF ok]] k(1) m(1) assms(6) by (auto simp: alloc_regions_disjoint_def)
  next
    assume "ptype b = PBUF_RAM" "ptype c \<noteq> PBUF_RAM"
    then show ?thesis using span [of x k y m] k(1) m(1) c(2) by (auto split: if_splits)
  next
    assume "ptype b \<noteq> PBUF_RAM" "ptype c = PBUF_RAM"
    then show ?thesis using span [of y m x k] k(1) m(1) b(2) by (auto split: if_splits)
  next
    assume "ptype b \<noteq> PBUF_RAM" "ptype c \<noteq> PBUF_RAM"
    then have "?pl x = Some MEMP_PBUF_POOL" "?pl y = Some MEMP_PBUF_POOL" "k = sizes MEMP_PBUF_POOL" "m = sizes MEMP_PBUF_POOL"
      using k(1) m(1) b(2) c(2) ok by (auto simp: net_ok_def split: if_splits)
    then show ?thesis
      using memp_live_disjoint [OF net_okD(2) [OF ok]] assms(6) by (auto simp: alloc_regions_disjoint_def)
  qed
  then show ?thesis using k(2,3) m(2,3) by linarith
qed

lemma owned_clear:
  assumes "net_ok sizes base s" and "owned (pbufs s) (x # xs)" and "x \<notin> set xs" and "pbufs s x = Some b"
  shows "clear_of (pbufs s) xs (payload b) (len b)"
  unfolding clear_of_def list_all_iff
proof
  fix y
  assume y: "y \<in> set xs"
  then obtain c where c: "pbufs s y = Some c" "ptype c = PBUF_RAM \<or> ptype c = PBUF_POOL"
    using assms(2) by (force simp: owned_def list_all_iff split: option.splits)
  have "ptype b = PBUF_RAM \<or> ptype b = PBUF_POOL" "x \<noteq> y" using assms(2-4) y by (auto simp: owned_def)
  then show "case pbufs s y of None \<Rightarrow> True | Some c \<Rightarrow> payload b + len b \<le> payload c \<or> payload c + len c \<le> payload b"
    using owned_apart [OF assms(1,4) _ c] c(1) by simp
qed

lemma net_ok_apart:
  "net_ok sizes base s \<Longrightarrow> owned (pbufs s) xs \<Longrightarrow> distinct xs \<Longrightarrow> apart (pbufs s) xs"
proof (induction xs)
  case (Cons x xs)
  then show ?case
    using owned_clear [of sizes base s x xs] by (auto simp: owned_def split: option.splits)
qed simp

lemma net_ok_sources_clear:
  assumes "net_ok sizes base s" and "owned (pbufs s) ts" and "owned (pbufs s) fs" and "set ts \<inter> set fs = {}"
  shows "sources_clear (pbufs s) ts fs"
  unfolding sources_clear_def list_all_iff
proof
  fix f
  assume f: "f \<in> set fs"
  then obtain b where b: "pbufs s f = Some b" "owned (pbufs s) (f # ts)"
    using assms(2,3) by (force simp: owned_def list_all_iff split: option.splits)
  then show "case pbufs s f of None \<Rightarrow> True | Some b \<Rightarrow> clear_of (pbufs s) ts (payload b) (len b)"
    using owned_clear [OF assms(1) b(2) _ b(1)] f assms(4) by auto
qed

lemma net_ok_bytes: "net_ok sizes base s \<Longrightarrow> net_ok sizes base (s\<lparr>bytes := d\<rparr>)"
  by (simp add: net_ok_def)

lemma pbuf_copy_ok:
  assumes ok: "net_ok sizes base s" and t: "packet (pbufs s) t ts" "owned (pbufs s) ts" "filled (pbufs s) ts"
    and f: "packet (pbufs s) f fs" "owned (pbufs s) fs" "filled (pbufs s) fs"
    and d: "set ts \<inter> set fs = {}" and l: "plen (pbufs s) fs \<le> plen (pbufs s) ts"
  shows "\<exists>d. pbuf_copy t f s = Some (ERR_OK, s\<lparr>bytes := d\<rparr>)
    \<and> chain_data (s\<lparr>bytes := d\<rparr>) ts = chain_data s fs @ drop (plen (pbufs s) fs) (chain_data s ts)
    \<and> unchanged_outside (pbufs s) ts (bytes s) d"
proof -
  obtain bt ts' where bt: "ts = t # ts'" "pbufs s t = Some bt" "tot_len bt = len bt + plen (pbufs s) ts'" "t \<noteq> NULL"
    using packet_head [OF t(1)] by blast
  obtain bf fs' where bf: "fs = f # fs'" "pbufs s f = Some bf" "tot_len bf = len bf + plen (pbufs s) fs'" "f \<noteq> NULL"
    using packet_head [OF f(1)] by blast
  have "0 < pfield (pbufs s) len t" "0 < pfield (pbufs s) len f"
    using t(3) f(3) bt(1) bf(1) by (simp_all add: filled_def)
  then obtain d where "pbuf_copy_loop t 0 f 0 s = Some (s\<lparr>bytes := d\<rparr>)"
    "chain_data (s\<lparr>bytes := d\<rparr>) ts = overlay 0 (chain_data s fs) (chain_data s ts)" "unchanged_outside (pbufs s) ts (bytes s) d"
    using pbuf_copy_loop_chain [of s t ts f fs 0 0] t f l net_ok_apart [OF ok t(2) packet_distinct [OF t(1)]]
      net_ok_sources_clear [OF ok t(2) f(2) d] unfolding packet_def by auto
  then show ?thesis
    using bt bf l by (intro exI [of _ d]) (simp add: pbuf_copy_def overlay_def)
qed
text \<open>
  \<open>pbuf_coalesce\<close> either keeps the chain, when the heap has no room, or replaces it by one pbuf
  with the same bytes and drops a reference to the chain.
\<close>

lemma pbuf_coalesce_ok:
  assumes ok: "net_ok sizes base s" and pk: "packet (pbufs s) p xs" "owned (pbufs s) xs" "filled (pbufs s) xs" and more: "1 < length xs"
    and small: "SIZEOF_STRUCT_PBUF + layer_offset layer + plen (pbufs s) xs < 65536"
  shows "\<exists>q s'. pbuf_coalesce p layer s = Some (q, s') \<and> net_ok sizes base s' \<and>
    (if q = p then pbufs s' = pbufs s \<and> bytes s' = bytes s
     else pbufs s q = None \<and> packet (pbufs s') q [q] \<and> chain_data s' [q] = chain_data s xs
       \<and> (\<forall>x. x \<noteq> q \<longrightarrow> pbufs s' x = free_map (pbufs s) xs x))"
proof -
  obtain b ys where b: "xs = p # ys" "pbufs s p = Some b" "tot_len b = len b + plen (pbufs s) ys" "tot_len b < 65536" "p \<noteq> NULL"
    using packet_head [OF pk(1)] by blast
  have nx: "pb_next b \<noteq> NULL"
    using pk(1) b(1,2) more by (cases ys) (auto simp: packet_simps split: option.splits)
  have T: "tot_len b = plen (pbufs s) xs" using b by simp
  obtain q zs s1 where s1: "pbuf_alloc layer (tot_len b) PBUF_RAM s = Some (q, s1)" "net_ok sizes base s1" "bytes s1 = bytes s"
    and post: "alloc_post sizes base layer (tot_len b) PBUF_RAM s q zs s1"
    using pbuf_alloc_ok [OF ok b(4), of PBUF_RAM layer] small T by auto
  show ?thesis
  proof (cases "q = NULL")
    case True
    then show ?thesis
      using s1 post b(2) nx by (intro exI [of _ p] exI [of _ s1]) (simp add: pbuf_coalesce_def alloc_post_def)
  next
    case False
    have q: "zs = [q]" "packet (pbufs s1) q [q]" "plen (pbufs s1) [q] = plen (pbufs s) xs" "pool_kind (pbufs s1) PBUF_RAM [q]"
      "pbufs s q = None" and out: "\<And>x. x \<noteq> q \<Longrightarrow> pbufs s1 x = pbufs s x"
      using post False T by (auto simp: alloc_post_def)
    have qx: "q \<notin> set xs" using q(5) pk(1) pchain_live unfolding packet_def by force
    then have same: "\<And>x. x \<in> set xs \<Longrightarrow> pbufs s x = pbufs s1 x" using out by metis
    have pk1: "packet (pbufs s1) p xs" "plen (pbufs s1) xs = plen (pbufs s) xs"
      using packet_cong [of xs "pbufs s" "pbufs s1", OF same] plen_cong [of xs "pbufs s" "pbufs s1", OF same] pk(1) by simp_all
    have ow1: "owned (pbufs s1) xs" "filled (pbufs s1) xs"
      using pk(2,3) same by (simp_all add: owned_def filled_def list_all_iff)
    have dat1: "chain_data s1 xs = chain_data s xs"
      by (rule chain_data_cong) (use same s1(3) in \<open>auto simp: pbuf_data_def split: option.splits\<close>)
    have pos: "0 < plen (pbufs s) xs" using filled_plen [OF pk(3)] b(1) by simp
    have owq: "owned (pbufs s1) [q]" "filled (pbufs s1) [q]"
      using q(3,4) pos by (auto simp: owned_def filled_def pool_kind_def)
    obtain d where d: "pbuf_copy q p s1 = Some (ERR_OK, s1\<lparr>bytes := d\<rparr>)"
      "chain_data (s1\<lparr>bytes := d\<rparr>) [q] = chain_data s1 xs @ drop (plen (pbufs s1) xs) (chain_data s1 [q])"
      using pbuf_copy_ok [OF s1(2) q(2) owq pk1(1) ow1] qx q(3) pk1(2) by auto
    let ?s2 = "s1\<lparr>bytes := d\<rparr>"
    have d': "chain_data ?s2 [q] = chain_data s xs"
      using d(2) dat1 q(3) pk1(2) by simp
    have ch: "pchain (pbufs ?s2) p xs" using pk1(1) by (simp add: packet_def)
    obtain n s3 where s3: "pbuf_free p ?s2 = Some (n, s3)" "net_ok sizes base s3" "pbufs s3 = free_map (pbufs s1) xs" "bytes s3 = d"
      using pbuf_free_loop_chain [OF net_ok_bytes [OF s1(2)] ch, of 0] b(5) by (auto simp: pbuf_free_def)
    have q3: "pbufs s3 q = pbufs s1 q" using qx s3(3) by (simp add: free_map_out)
    have "packet (pbufs s3) q [q]" using packet_cong [of "[q]" "pbufs s3" "pbufs s1" q] q3 q(2) by simp
    moreover have "chain_data s3 [q] = chain_data s xs"
      using d' q3 s3(4) by (simp add: pbuf_data_def split: option.splits)
    moreover have "pbufs s3 x = free_map (pbufs s) xs x" if "x \<noteq> q" for x
    proof (cases "x \<in> set xs")
      case True
      show ?thesis unfolding s3(3) by (rule free_map_cong [OF same [symmetric] packet_distinct [OF pk(1)] True])
    next
      case False
      then show ?thesis unfolding s3(3) using out [OF that] by (simp add: free_map_out)
    qed
    moreover have "q \<noteq> p" using qx b(1) by auto
    ultimately show ?thesis
      using s1(1) d(1) s3(1,2) b(2) nx False q(5)
      by (intro exI [of _ q] exI [of _ s3]) (simp add: pbuf_coalesce_def)
  qed
qed

section \<open>Examples\<close>

definition example_net :: net_state where
  "example_net = \<lparr>ram_heap = mem_init 1000, memp = memp_init example_sizes 20000, pbufs = Map.empty, bytes = (\<lambda>_. 0)\<rparr>"

lemma example_net_ok: "net_ok example_sizes 20000 example_net"
  using mem_ok_init [of 1000] example_memp_ok
  by (simp add: net_ok_def example_net_def example_sizes_def regions_apart_def mem_init_def lwip_simps)

lemma example_ram:
  "\<exists>s :: net_state. pbuf_alloc PBUF_RAW 76 PBUF_RAM example_net = Some (1006, s) \<and> net_ok example_sizes 20000 s
     \<and> packet (pbufs s) 1006 [1006] \<and> plen (pbufs s) [1006] = 76 \<and> pool_kind (pbufs s) PBUF_RAM [1006]
     \<and> (\<forall>q. q \<noteq> 1006 \<longrightarrow> pbufs s q = None) \<and> memp s = memp example_net \<and> pfield (pbufs s) payload 1006 = 1030"
proof -
  obtain h where h: "mem_malloc (mem_init 1000) 100 = Some (1006, h)" using mem_malloc_example by blast
  then obtain s where s: "pbuf_alloc PBUF_RAW 76 PBUF_RAM example_net = Some (1006, s)" "memp s = memp example_net"
    by (simp add: pbuf_alloc_def example_net_def lwip_simps)
  then obtain xs where "net_ok example_sizes 20000 s" "alloc_post example_sizes 20000 PBUF_RAW 76 PBUF_RAM example_net 1006 xs s"
    using pbuf_alloc_ok [OF example_net_ok, of 76 PBUF_RAM PBUF_RAW] by (auto simp: lwip_simps)
  then show ?thesis
    using s by (auto simp: alloc_post_def example_net_def lwip_simps)
qed

text \<open>A pool that is not exhausted gives an element.\<close>

lemma pool_not_empty:
  assumes "memp_ok sizes base m" and "memp_live sizes base m = Map.empty" and "0 < memp_num t"
  shows "\<exists>p m'. memp_malloc m t = Some (p, m') \<and> p \<noteq> NULL"
proof (cases "memp_frees m t")
  case Nil
  then show ?thesis using memp_exhausted [OF assms(1)] assms(2,3) by fastforce
next
  case (Cons p fs)
  have "t \<noteq> MEMP_MAX" using assms(3) by auto
  then show ?thesis using memp_malloc_cases(2) [OF assms(1) _ Cons] by blast
qed

lemma example_pair:
  "\<exists>q (s :: net_state). net_ok example_sizes 20000 s \<and> packet (pbufs s) 1006 [1006] \<and> plen (pbufs s) [1006] = 76 \<and> pool_kind (pbufs s) PBUF_RAM [1006]
     \<and> packet (pbufs s) q [q] \<and> plen (pbufs s) [q] = 500 \<and> pool_kind (pbufs s) PBUF_POOL [q] \<and> q \<noteq> 1006"
proof -
  obtain s :: net_state where s: "net_ok example_sizes 20000 s" "packet (pbufs s) 1006 [1006]" "plen (pbufs s) [1006] = 76"
    "pool_kind (pbufs s) PBUF_RAM [1006]" "memp s = memp example_net"
    using example_ram by blast
  have "memp_live example_sizes 20000 (memp s) = Map.empty"
    unfolding s(5) example_net_def by (simp add: memp_init_ok(2) example_sizes_pos)
  then obtain q m where m: "memp_malloc (memp s) MEMP_PBUF_POOL = Some (q, m)" "q \<noteq> NULL"
    using pool_not_empty [OF net_okD(2) [OF s(1)], of MEMP_PBUF_POOL] by auto
  then obtain s' where s': "pbuf_alloc PBUF_RAW 500 PBUF_POOL s = Some (q, s')"
    by (simp add: pbuf_alloc_def lwip_simps)
  obtain xs where post: "net_ok example_sizes 20000 s'" "alloc_post example_sizes 20000 PBUF_RAW 500 PBUF_POOL s q xs s'"
    using pbuf_alloc_ok [OF s(1), of 500 PBUF_POOL PBUF_RAW] s' by auto
  have new: "packet (pbufs s') q xs" "plen (pbufs s') xs = 500" "pool_kind (pbufs s') PBUF_POOL xs" "\<forall>x\<in>set xs. pbufs s x = None"
    and out: "\<And>z. z \<notin> set xs \<Longrightarrow> pbufs s' z = pbufs s z"
    using post(2) m(2) by (auto simp: alloc_post_def)
  have one: "xs = [q]"
  proof -
    have "pb_next (the (pbufs s' q)) = NULL"
      using s' m by (auto simp: pbuf_alloc_def lwip_simps Let_def)
    then show ?thesis using new(1) by (cases xs) (auto simp: packet_simps elim: pchain.elims)
  qed
  have "1006 \<notin> set xs" using new(4) s(2) by (auto simp: packet_simps)
  then have "pbufs s' 1006 = pbufs s 1006" using out by simp
  then show ?thesis
    using post(1) new s(2-4) one \<open>1006 \<notin> set xs\<close> packet_cong [of "[1006]" "pbufs s'" "pbufs s" 1006]
    by (intro exI [of _ q] exI [of _ s']) (auto simp: pool_kind_def)
qed

section \<open>Properties\<close>

text \<open>
  Claim C3. \<open>pbuf_alloc\<close> never aborts on a well-formed state (for \<open>PBUF_RAM\<close>: when header, headroom and
  length fit 16 bits). Either it returns \<open>NULL\<close> and nothing that is live changed, also when the pool ran
  out in the middle of a chain; or it returns a packet of exactly the requested length whose pbufs
  were not live before, each with one reference and of the requested type, with the headroom of its
  layer, and the blocks it took are exactly the new live blocks. The invariant, which includes that every
  payload lies inside its block, is kept.
\<close>

theorem pbuf_alloc_correct:
  assumes "net_ok sizes base s" and "n < 65536" and "ty = PBUF_RAM \<Longrightarrow> SIZEOF_STRUCT_PBUF + layer_offset layer + n < 65536"
  shows "\<exists>p xs s'. pbuf_alloc layer n ty s = Some (p, s') \<and> net_ok sizes base s' \<and> bytes s' = bytes s
    \<and> net_state.more s' = net_state.more s \<and> alloc_post sizes base layer n ty s p xs s'"
  using pbuf_alloc_ok [OF assms] by blast

theorem pbuf_alloc_correct_witness:
  "\<exists>p s. pbuf_alloc PBUF_TRANSPORT 1500 PBUF_POOL example_net = Some (p, s) \<and> net_ok example_sizes 20000 s"
  using pbuf_alloc_correct [OF example_net_ok, of 1500 PBUF_POOL PBUF_TRANSPORT] by auto

lemma free_map_eq:
  "sole P us \<Longrightarrow> distinct (us @ zs) \<Longrightarrow> (zs \<noteq> [] \<Longrightarrow> pfield P ref (hd zs) > 1) \<Longrightarrow>
     free_map P (us @ zs) = (\<lambda>x. if x \<in> set us then None
       else if zs \<noteq> [] \<and> x = hd zs then map_option (\<lambda>b. b\<lparr>ref := ref b - 1\<rparr>) (P x) else P x)"
proof (induction us arbitrary: P)
  case Nil
  then show ?case by (cases zs) (auto split: option.splits)
next
  case (Cons u us)
  then obtain b where b: "P u = Some b" "ref b = 1" by (auto simp: sole_def split: option.splits)
  have d: "u \<notin> set us" "distinct (us @ zs)" using Cons.prems(2) by auto
  have so: "sole (P(u := None)) us" using Cons.prems(1) by (subst sole_upd_out [OF d(1)]) (simp add: sole_def)
  have hz: "zs \<noteq> [] \<Longrightarrow> pfield (P(u := None)) ref (hd zs) > 1"
    using Cons.prems(2,3) by (cases zs) auto
  note ih = Cons.IH [OF so d(2) hz]
  have "free_map P ((u # us) @ zs) = free_map (P(u := None)) (us @ zs)" using b by (simp del: fun_upd_apply)
  also note ih
  finally show ?case
    using Cons.prems(2) by (simp only:) (cases zs; auto simp: fun_eq_iff)
qed

text \<open>
  Claim C4. \<open>pbuf_free\<close> on a chain never aborts: it deallocates exactly the longest prefix of the chain whose
  pbufs have one reference, takes one reference from the next pbuf, if there is one, leaves every other
  pbuf alone and returns the number of deallocated pbufs (as an 8-bit value). The memory goes back
  to the allocator each pbuf came from.
\<close>

theorem pbuf_free_correct:
  assumes "net_ok sizes base s" and "pchain (pbufs s) p (us @ zs)" and "us @ zs \<noteq> []" and "sole (pbufs s) us"
    and "zs \<noteq> [] \<Longrightarrow> 1 < pfield (pbufs s) ref (hd zs)"
  shows "\<exists>s'. pbuf_free p s = Some (length us mod 256, s') \<and> net_ok sizes base s' \<and> bytes s' = bytes s
    \<and> pbufs s' = (\<lambda>x. if x \<in> set us then None
         else if zs \<noteq> [] \<and> x = hd zs then map_option (\<lambda>b. b\<lparr>ref := ref b - 1\<rparr>) (pbufs s x) else pbufs s x)
    \<and> mem_live (ram_heap s') = mem_live (ram_heap s) |` (- on_heap (pbufs s) us)
    \<and> memp_live sizes base (memp s') = memp_live sizes base (memp s) |` (- in_pool (pbufs s) us)"
proof -
  have u: "unshared (pbufs s) (us @ zs) = us"
    using assms(4,5) by (cases zs) (auto simp: unshared_def sole_def list_all_iff takeWhile_append simp del: pfield.simps)
  have p: "p \<noteq> NULL" using assms(2,3) by (cases "us @ zs") auto
  obtain s' where s': "pbuf_free_loop p 0 s = Some ((0 + length us) mod 256, s')" "net_ok sizes base s'" "pbufs s' = free_map (pbufs s) (us @ zs)"
    "bytes s' = bytes s" "mem_live (ram_heap s') = mem_live (ram_heap s) |` (- on_heap (pbufs s) us)"
    "memp_live sizes base (memp s') = memp_live sizes base (memp s) |` (- in_pool (pbufs s) us)"
    using pbuf_free_loop_chain [OF assms(1,2), of 0] unfolding u by auto
  then show ?thesis
    using free_map_eq [OF assms(4) pchain_distinct [OF assms(2)] assms(5)] p by (intro exI [of _ s']) (simp add: pbuf_free_def)
qed

theorem pbuf_free_correct_witness:
  "\<exists>s s' :: net_state. pbuf_alloc PBUF_RAW 76 PBUF_RAM example_net = Some (1006, s) \<and> pbuf_free 1006 s = Some (1, s') \<and> pbufs s' 1006 = None"
proof -
  obtain s :: net_state where s: "pbuf_alloc PBUF_RAW 76 PBUF_RAM example_net = Some (1006, s)" "net_ok example_sizes 20000 s"
    "packet (pbufs s) 1006 [1006]" "pool_kind (pbufs s) PBUF_RAM [1006]"
    using example_ram by blast
  then have "pchain (pbufs s) 1006 ([1006] @ [])" "sole (pbufs s) [1006]" by (simp_all add: packet_def pool_kind_sole)
  then show ?thesis
    using s(1) pbuf_free_correct [OF s(2), of 1006 "[1006]" "[]"] by auto
qed

text \<open>
  Claim C21. Hiding \<open>n\<close> bytes of header with \<open>pbuf_header\<close> drops exactly the first \<open>n\<close> bytes of the packet's
  data and keeps the packet well formed; revealing them again, where the type allows it, restores the
  state exactly.
\<close>

theorem pbuf_header_roundtrip:
  assumes "net_ok sizes base s" and "packet (pbufs s) p xs" and "0 < n" and "n \<le> pfield (pbufs s) len p"
  shows "\<exists>s'. pbuf_header p (- int n) s = Some (False, s') \<and> net_ok sizes base s' \<and> packet (pbufs s') p xs
    \<and> chain_data s' xs = drop n (chain_data s xs)
    \<and> pbuf_header p (int n) s' = (if owned (pbufs s) [p] then Some (False, s) else Some (True, s'))"
proof -
  obtain b s' where b: "pbufs s p = Some b" and s': "pbuf_header p (- int n) s = Some (False, s')"
    "s' = put_pbuf p (b\<lparr>payload := payload b + n, len := len b - n, tot_len := tot_len b - n\<rparr>) s"
    "net_ok sizes base s'" "packet (pbufs s') p xs" "chain_data s' xs = drop n (chain_data s xs)"
    using pbuf_header_hide [OF assms] by blast
  let ?b = "b\<lparr>payload := payload b + n, len := len b - n, tot_len := tot_len b - n\<rparr>"
  have nl: "n \<le> len b" using assms(4) b by simp
  have tl: "len b \<le> tot_len b" "tot_len b < 65536"
    using packet_head [OF assms(2)] b by (metis le_add1 option.inject)+
  have p0: "p \<noteq> NULL" using assms(2) packet_head by blast
  have b': "pbufs s' p = Some ?b" by (simp add: s'(2))
  have "pbuf_header p (int n) s' = (if owned (pbufs s) [p] then Some (False, s) else Some (True, s'))"
  proof (cases "ptype b = PBUF_RAM \<or> ptype b = PBUF_POOL")
    case True
    have "p + SIZEOF_STRUCT_PBUF + n \<le> payload ?b"
      using net_okD(3) [OF assms(1) b] True by (auto simp: pbuf_ok_def split: option.splits)
    then obtain s'' where s'': "pbuf_header p (int n) s' = Some (False, s'')"
      "s'' = put_pbuf p (?b\<lparr>payload := payload ?b - n, len := len ?b + n, tot_len := tot_len ?b + n\<rparr>) s'"
      using pbuf_header_reveal(2) [OF s'(3,4) assms(3) b'] True tl nl by auto
    have "?b\<lparr>payload := payload ?b - n, len := len ?b + n, tot_len := tot_len ?b + n\<rparr> = b"
      using nl tl by (cases b) simp
    then have "s'' = s" using b by (simp add: s''(2) s'(2) put_pbuf_def fun_upd_idem)
    then show ?thesis using s''(1) True b by (simp add: owned_def)
  next
    case False
    then show ?thesis using b b' p0 assms(3) by (simp add: pbuf_header_def owned_def Let_def)
  qed
  then show ?thesis using s' by blast
qed

theorem pbuf_header_roundtrip_witness:
  "\<exists>s s' :: net_state. packet (pbufs s) 1006 [1006] \<and> pbuf_header 1006 (- 20) s = Some (False, s') \<and> length (chain_data s' [1006]) = 56"
proof -
  obtain s :: net_state where s: "net_ok example_sizes 20000 s" "packet (pbufs s) 1006 [1006]" "plen (pbufs s) [1006] = 76"
    using example_ram by blast
  have l: "(20 :: nat) \<le> pfield (pbufs s) len 1006" using s(3) by simp
  obtain s' where s': "pbuf_header 1006 (- int 20) s = Some (False, s')" "chain_data s' [1006] = drop 20 (chain_data s [1006])"
    using pbuf_header_roundtrip [OF s(1,2) _ l] by fastforce
  then have "length (chain_data s' [1006]) = 56" using s(3) by (simp only: length_drop length_chain_data)
  then show ?thesis using s(2) s'(1) by auto
qed

text \<open>
  Claim C20. \<open>pbuf_cat\<close> of two packets whose total length fits 16 bits never aborts and makes one well-formed
  packet of them, with the bytes of the first followed by those of the second; no other pbuf
  changes.
\<close>

theorem pbuf_cat_correct:
  assumes "net_ok sizes base s" and "packet (pbufs s) h xs" and "packet (pbufs s) t ys" and "set xs \<inter> set ys = {}"
    and "plen (pbufs s) xs + plen (pbufs s) ys < 65536"
  shows "\<exists>s'. pbuf_cat h t s = Some s' \<and> net_ok sizes base s' \<and> packet (pbufs s') h (xs @ ys)
    \<and> chain_data s' (xs @ ys) = chain_data s xs @ chain_data s ys \<and> (\<forall>x. x \<notin> set xs \<longrightarrow> pbufs s' x = pbufs s x)"
  using pbuf_cat_ok [OF assms] cat_map_out by fastforce

theorem pbuf_cat_correct_witness:
  "\<exists>q (s :: net_state) s'. pbuf_cat 1006 q s = Some s' \<and> packet (pbufs s') 1006 [1006, q] \<and> length (chain_data s' [1006, q]) = 576"
proof -
  obtain q and s :: net_state where s: "net_ok example_sizes 20000 s" "packet (pbufs s) 1006 [1006]" "plen (pbufs s) [1006] = 76"
    "packet (pbufs s) q [q]" "plen (pbufs s) [q] = 500" "q \<noteq> 1006"
    using example_pair by blast
  obtain s' where s': "pbuf_cat 1006 q s = Some s'" "packet (pbufs s') 1006 ([1006] @ [q])"
    "chain_data s' ([1006] @ [q]) = chain_data s [1006] @ chain_data s [q]"
    using pbuf_cat_correct [OF s(1,2,4)] s(3,5,6) by auto
  then have "length (chain_data s' ([1006] @ [q])) = 576" using s(3,5) by (simp only: length_append length_chain_data)
  then show ?thesis using s' by auto
qed

text \<open>
  \<open>pbuf_chain\<close> of a single pbuf and a packet, followed by \<open>pbuf_dechain\<close> of that pbuf, hands the tail
  back and restores the state exactly: no reference is lost or gained.
\<close>

theorem pbuf_chain_dechain_roundtrip:
  assumes "net_ok sizes base s" and "packet (pbufs s) h [h]" and "packet (pbufs s) t ys" and "h \<notin> set ys"
    and "plen (pbufs s) [h] + plen (pbufs s) ys < 65536" and "pfield (pbufs s) ref t < 65535"
  shows "\<exists>s'. pbuf_chain h t s = Some s' \<and> net_ok sizes base s' \<and> packet (pbufs s') h (h # ys)
    \<and> chain_data s' (h # ys) = chain_data s (h # ys) \<and> pbuf_dechain h s' = Some (t, s)"
  by (rule pbuf_chain_dechain [OF assms])

theorem pbuf_chain_dechain_roundtrip_witness:
  "\<exists>q (s :: net_state) s'. pbuf_chain 1006 q s = Some s' \<and> pbuf_dechain 1006 s' = Some (q, s)"
proof -
  obtain q and s :: net_state where s: "net_ok example_sizes 20000 s" "packet (pbufs s) 1006 [1006]" "plen (pbufs s) [1006] = 76"
    "packet (pbufs s) q [q]" "plen (pbufs s) [q] = 500" "pool_kind (pbufs s) PBUF_POOL [q]" "q \<noteq> 1006"
    using example_pair by blast
  have "pfield (pbufs s) ref q < 65535" using s(6) by (auto simp: pool_kind_def)
  then show ?thesis
    using pbuf_chain_dechain_roundtrip [OF s(1,2,4)] s(3,5,7) by auto
qed

text \<open>
  Claim C22. \<open>pbuf_realloc\<close> to a smaller length never aborts: it leaves a well-formed packet that is a prefix of the
  chain and whose data are exactly the first \<open>n\<close> bytes, whatever the boundaries of the pbufs, and
  changes no pbuf outside the chain.
\<close>

theorem pbuf_realloc_correct:
  assumes "net_ok sizes base s" and "packet (pbufs s) p xs" and "n < plen (pbufs s) xs"
  shows "\<exists>zs s'. pbuf_realloc p n s = Some s' \<and> net_ok sizes base s' \<and> zs = take (length zs) xs
    \<and> packet (pbufs s') p zs \<and> chain_data s' zs = take n (chain_data s xs)
    \<and> (\<forall>x. x \<notin> set xs \<longrightarrow> pbufs s' x = pbufs s x)"
proof -
  obtain as q bs s' where "xs = as @ q # bs" "pbuf_realloc p n s = Some s'" "net_ok sizes base s'" "packet (pbufs s') p (as @ [q])"
    "chain_data s' (as @ [q]) = take n (chain_data s xs)" "\<forall>x. x \<notin> set xs \<longrightarrow> pbufs s' x = pbufs s x"
    using pbuf_realloc_ok [OF assms] by blast
  then show ?thesis by (intro exI [of _ "as @ [q]"] exI [of _ s']) simp
qed

theorem pbuf_realloc_correct_witness:
  "\<exists>(s :: net_state) zs s'. packet (pbufs s) 1006 [1006] \<and> pbuf_realloc 1006 30 s = Some s' \<and> length (chain_data s' zs) = 30"
proof -
  obtain s :: net_state where s: "net_ok example_sizes 20000 s" "packet (pbufs s) 1006 [1006]" "plen (pbufs s) [1006] = 76"
    using example_ram by blast
  have "30 < plen (pbufs s) [1006]" using s(3) by simp
  then obtain zs s' where s': "pbuf_realloc 1006 30 s = Some s'" "chain_data s' zs = take 30 (chain_data s [1006])"
    using pbuf_realloc_correct [OF s(1,2)] by blast
  then have "length (chain_data s' zs) = 30" using s(3) by (simp only: length_take length_chain_data)
  then show ?thesis using s(2) s'(1) by blast
qed

text \<open>
  Claim C23. \<open>pbuf_copy_partial\<close> copies exactly the requested slice of the packet's data, crossing pbuf boundaries
  as needed and cut at the end of the packet, to the application's buffer, returns its length and
  changes nothing else.
\<close>

theorem pbuf_copy_partial_correct:
  assumes "pchain (pbufs s) p xs" and "xs \<noteq> []" and "d \<noteq> NULL" and "n < 65536" and "clear_of (pbufs s) xs d n"
  shows "pbuf_copy_partial p d n off s =
    Some (length (take n (drop off (chain_data s xs))), s\<lparr>bytes := poke d (take n (drop off (chain_data s xs))) (bytes s)\<rparr>)"
proof -
  have "p \<noteq> NULL" using assms(1,2) by (cases xs) auto
  then show ?thesis
    using copy_partial_loop_chain [OF assms(1), of d 0 n off] assms(3-5) by (simp add: pbuf_copy_partial_def)
qed

theorem pbuf_copy_partial_correct_witness:
  "\<exists>(s :: net_state) s'. packet (pbufs s) 1006 [1006] \<and> pbuf_copy_partial 1006 50000 100 6 s = Some (70, s')"
proof -
  obtain s :: net_state where s: "net_ok example_sizes 20000 s" "packet (pbufs s) 1006 [1006]" "plen (pbufs s) [1006] = 76"
    "pfield (pbufs s) payload 1006 = 1030"
    using example_ram by blast
  then have "pchain (pbufs s) 1006 [1006]" "clear_of (pbufs s) [1006] 50000 100"
    by (auto simp: packet_def clear_of_def split: option.splits)
  moreover have "length (take 100 (drop 6 (chain_data s [1006]))) = 70"
    using s(3) by (simp only: length_take length_drop length_chain_data)
  ultimately show ?thesis
    using pbuf_copy_partial_correct [of s 1006 "[1006]" 50000 100 6] s(2) by auto
qed

text \<open>
  Claim C24. \<open>pbuf_take\<close> fails with \<open>ERR_ARG\<close> and changes nothing when the data do not fit; otherwise the packet's
  first \<open>n\<close> bytes become the application's data, the rest of the packet and all memory outside its
  payloads are unchanged, and \<open>pbuf_copy_partial\<close> reads the data back.
\<close>

theorem pbuf_take_correct:
  assumes "net_ok sizes base s" and "packet (pbufs s) p xs" and "owned (pbufs s) xs" and "a \<noteq> NULL" and "clear_of (pbufs s) xs a n"
  shows "\<exists>e d. pbuf_take p a n s = Some (e, s\<lparr>bytes := d\<rparr>) \<and>
    (if plen (pbufs s) xs < n then e = ERR_ARG \<and> d = bytes s
     else e = ERR_OK \<and> chain_data (s\<lparr>bytes := d\<rparr>) xs = peek (bytes s) a n @ drop n (chain_data s xs)
       \<and> unchanged_outside (pbufs s) xs (bytes s) d
       \<and> (\<forall>b. b \<noteq> NULL \<longrightarrow> clear_of (pbufs s) xs b n \<longrightarrow>
           (\<exists>s'. pbuf_copy_partial p b n 0 (s\<lparr>bytes := d\<rparr>) = Some (n, s') \<and> peek (bytes s') b n = peek (bytes s) a n)))"
proof -
  obtain c ys where c: "xs = p # ys" "pbufs s p = Some c" "tot_len c = len c + plen (pbufs s) ys" "p \<noteq> NULL" "tot_len c < 65536"
    using packet_head [OF assms(2)] by blast
  have T: "tot_len c = plen (pbufs s) xs" using c by simp
  have ch: "pchain (pbufs s) p xs" "xs \<noteq> []" using assms(2) by (simp_all add: packet_def)
  show ?thesis
  proof (cases "plen (pbufs s) xs < n")
    case True
    then show ?thesis
      using c(2,4) T assms(4) by (intro exI [of _ ERR_ARG] exI [of _ "bytes s"]) (simp add: pbuf_take_def)
  next
    case False
    obtain d where d: "pbuf_take_loop p a n 0 s = Some (0, n, s\<lparr>bytes := d\<rparr>)"
      "chain_data (s\<lparr>bytes := d\<rparr>) xs = overlay 0 (peek (bytes s) a n) (chain_data s xs)" "unchanged_outside (pbufs s) xs (bytes s) d"
      using pbuf_take_loop_chain [OF ch(1) net_ok_apart [OF assms(1,3) packet_distinct [OF assms(2)]], of a 0 n] assms(5) False by auto
    have data: "chain_data (s\<lparr>bytes := d\<rparr>) xs = peek (bytes s) a n @ drop n (chain_data s xs)"
      using d(2) by (simp add: overlay_def)
    have "\<exists>s'. pbuf_copy_partial p b n 0 (s\<lparr>bytes := d\<rparr>) = Some (n, s') \<and> peek (bytes s') b n = peek (bytes s) a n"
      if b: "b \<noteq> NULL" "clear_of (pbufs s) xs b n" for b
    proof -
      have "copy_partial_loop p b 0 n 0 (s\<lparr>bytes := d\<rparr>) =
          Some (n, (s\<lparr>bytes := d\<rparr>)\<lparr>bytes := poke b (peek (bytes s) a n) d\<rparr>)"
        using copy_partial_loop_chain [of "s\<lparr>bytes := d\<rparr>" p xs b 0 n 0] ch(1) b(2) False c(5) T data by simp
      then show ?thesis
        using b(1) c(4) peek_poke [of b "peek (bytes s) a n" d] by (simp add: pbuf_copy_partial_def)
    qed
    then show ?thesis
      using c(2,4) T assms(4) False d(1,3) data by (intro exI [of _ ERR_OK] exI [of _ d]) (simp add: pbuf_take_def)
  qed
qed

theorem pbuf_take_correct_witness:
  "\<exists>(s :: net_state) d. packet (pbufs s) 1006 [1006] \<and> pbuf_take 1006 50000 40 s = Some (ERR_OK, s\<lparr>bytes := d\<rparr>)"
proof -
  obtain s :: net_state where s: "net_ok example_sizes 20000 s" "packet (pbufs s) 1006 [1006]" "plen (pbufs s) [1006] = 76"
    "pfield (pbufs s) payload 1006 = 1030" "pool_kind (pbufs s) PBUF_RAM [1006]"
    using example_ram by blast
  then have "owned (pbufs s) [1006]" "clear_of (pbufs s) [1006] 50000 40"
    by (auto simp: pool_kind_def owned_def clear_of_def split: option.splits)
  then show ?thesis
    using pbuf_take_correct [OF s(1,2), of 50000 40] s(2,3) by auto
qed

text \<open>
  Claim C25. \<open>pbuf_copy\<close> of a packet into one that is at least as long, with no empty pbufs in either, never
  aborts, returns \<open>ERR_OK\<close>, and afterwards the target starts with the source's bytes whatever the
  boundaries of the two chains; the rest of the target and all memory outside it are unchanged.
\<close>

theorem pbuf_copy_correct:
  assumes "net_ok sizes base s" and "packet (pbufs s) t ts" and "owned (pbufs s) ts" and "filled (pbufs s) ts"
    and "packet (pbufs s) f fs" and "owned (pbufs s) fs" and "filled (pbufs s) fs"
    and "set ts \<inter> set fs = {}" and "plen (pbufs s) fs \<le> plen (pbufs s) ts"
  shows "\<exists>d. pbuf_copy t f s = Some (ERR_OK, s\<lparr>bytes := d\<rparr>)
    \<and> chain_data (s\<lparr>bytes := d\<rparr>) ts = chain_data s fs @ drop (plen (pbufs s) fs) (chain_data s ts)
    \<and> unchanged_outside (pbufs s) ts (bytes s) d"
  by (rule pbuf_copy_ok [OF assms])

theorem pbuf_copy_correct_witness:
  "\<exists>q (s :: net_state) d. pbuf_copy q 1006 s = Some (ERR_OK, s\<lparr>bytes := d\<rparr>) \<and> length (chain_data s [1006]) = 76"
proof -
  obtain q and s :: net_state where s: "net_ok example_sizes 20000 s" "packet (pbufs s) 1006 [1006]" "plen (pbufs s) [1006] = 76"
    "packet (pbufs s) q [q]" "plen (pbufs s) [q] = 500" "pool_kind (pbufs s) PBUF_POOL [q]" "q \<noteq> 1006" "pool_kind (pbufs s) PBUF_RAM [1006]"
    using example_pair by blast
  have "owned (pbufs s) [q]" "owned (pbufs s) [1006]" "filled (pbufs s) [q]" "filled (pbufs s) [1006]"
    using s(3,5,6,8) by (auto simp: pool_kind_def owned_def filled_def)
  moreover have "length (chain_data s [1006]) = 76" using s(3) by (simp only: length_chain_data)
  ultimately show ?thesis
    using pbuf_copy_correct [OF s(1,4) _ _ s(2)] s(3,5,7) by auto
qed

text \<open>
  Claim C38. \<open>pbuf_alloc\<close> computes the size of a \<open>PBUF_RAM\<close> pbuf in \<open>int\<close> and hands it to the 16-bit parameter of
  \<open>mem_malloc\<close>: a request for 65535 bytes at the transport layer gets a block of 79 bytes although
  the pbuf claims a payload of 65535, past the end of the heap.
\<close>

theorem pbuf_alloc_ram_wraps:
  "\<exists>s. pbuf_alloc PBUF_TRANSPORT 65535 PBUF_RAM example_net = Some (1006, s) \<and> pfield (pbufs s) len 1006 = 65535
     \<and> mem_live (ram_heap s) 1006 = Some 79"
proof -
  have rep: "heap_rep (mem_init 1000) [(0, MEM_SIZE_ALIGNED, False)]"
    by (simp add: heap_rep_def mem_init_def end_ok_def lwip_simps)
  have fit: "find_fit (request 79) [(0, MEM_SIZE_ALIGNED, False)] = Some 0"
    by (simp add: request_def lwip_simps)
  obtain h where h: "mem_malloc (mem_init 1000) 79 = Some (1006, h)" "ram h = 1000"
    "heap_rep h (alloc_blocks (request 79) [(0, MEM_SIZE_ALIGNED, False)])"
    using mem_malloc_Some [OF rep _ _ fit] by (auto simp: lwip_simps mem_init_def)
  have "alloc_blocks (request 79) [(0, MEM_SIZE_ALIGNED, False)] = [(0, 85, True), (85, 16000, False)]"
    by (simp add: request_def split_block_def lwip_simps)
  then have "mem_live h 1006 = Some 79"
    using heap_blocks_eq [OF h(3)] h(2) by (simp add: mem_live_def lwip_simps)
  then show ?thesis
    using h(1) by (simp add: pbuf_alloc_def example_net_def lwip_simps u16_def)
qed

end
