(* ===== verification/Inet_Chksum.thy ===== *)
theory Inet_Chksum
  imports Inet Pbuf
begin

text \<open>
  The Internet checksum of \<^verbatim>\<open>lwip/src/core/ipv4/inet_chksum.c\<close>: the three portable versions of
  \<open>lwip_standard_chksum\<close> (the build selects version 1; the other two differ in how they use
  alignment and wide loads), the checksum of a block of memory and of a pbuf chain, and the
  checksum with the TCP/UDP pseudo header.

  The accumulators keep their C width as words. The host is little endian
  (\<^verbatim>\<open>lib_test/include/arch/cc.h\<close>), which the wide loads \<open>ld16\<close> and \<open>ld32\<close> show.

  The specification is the one's complement sum of the bytes: a number is the sum modulo
  \<open>2 ^ 16 - 1\<close>, and zero only when every byte is. The theory shows that the three versions compute
  it, that the chain version does whatever the lengths of the pbufs, and that a checksum stored
  in the data makes the receiver's check come out zero.
\<close>

section \<open>Macros and loads\<close>

definition SWAP_BYTES_IN_WORD :: "u32_t \<Rightarrow> u32_t" where
  "SWAP_BYTES_IN_WORD w = (push_bit 8 (w AND 0xff)) OR (drop_bit 8 (w AND 0xff00))"

definition FOLD_U32T :: "u32_t \<Rightarrow> u32_t" where
  "FOLD_U32T u = drop_bit 16 u + (u AND 0x0000ffff)"

definition ld16 :: "(addr \<Rightarrow> u8_t) \<Rightarrow> addr \<Rightarrow> u16_t" where
  "ld16 d p = ucast (d p) OR push_bit 8 (ucast (d (p + 1)))"

definition ld32 :: "(addr \<Rightarrow> u8_t) \<Rightarrow> addr \<Rightarrow> u32_t" where
  "ld32 d p = ucast (ld16 d p) OR push_bit 16 (ucast (ld16 d (p + 2)))"

section \<open>Version 1\<close>

fun chksum1_loop :: "(addr \<Rightarrow> u8_t) \<Rightarrow> addr \<Rightarrow> nat \<Rightarrow> u32_t \<Rightarrow> u32_t" where
  "chksum1_loop d p n acc =
     (if n > 1 then
        (let src = push_bit 8 (ucast (d p)) :: u16_t;
             src = src OR ucast (d (p + 1))
         in chksum1_loop d (p + 2) (n - 2) (acc + ucast src))
      else if n > 0 then acc + ucast (push_bit 8 (ucast (d p)) :: u16_t)
      else acc)"

definition lwip_standard_chksum :: "(addr \<Rightarrow> u8_t) \<Rightarrow> addr \<Rightarrow> nat \<Rightarrow> u16_t" where
  "lwip_standard_chksum d p n =
     (let acc = chksum1_loop d p n 0;
          acc = drop_bit 16 acc + (acc AND 0x0000ffff);
          acc = (if acc AND 0xffff0000 \<noteq> 0 then drop_bit 16 acc + (acc AND 0x0000ffff) else acc)
      in htons (ucast acc))"

section \<open>Versions 2 and 3\<close>

text \<open>The loop over 16-bit words; it returns the sum, the address reached and the bytes left.\<close>

fun sum16_loop :: "(addr \<Rightarrow> u8_t) \<Rightarrow> addr \<Rightarrow> nat \<Rightarrow> u32_t \<Rightarrow> u32_t \<times> addr \<times> nat" where
  "sum16_loop d p n acc =
     (if n > 1 then sum16_loop d (p + 2) (n - 2) (acc + ucast (ld16 d p)) else (acc, p, n))"

definition set_low_byte :: "u16_t \<Rightarrow> u8_t \<Rightarrow> u16_t" where
  "set_low_byte t b = (t AND 0xff00) OR ucast b"

definition lwip_standard_chksum_2 :: "(addr \<Rightarrow> u8_t) \<Rightarrow> addr \<Rightarrow> nat \<Rightarrow> u16_t" where
  "lwip_standard_chksum_2 d p n =
     (let odd = p mod 2 = 1;
          (t, p, n) = (if odd \<and> n > 0 then (push_bit 8 (ucast (d p)), p + 1, n - 1) else (0 :: u16_t, p, n));
          (sum, p, n) = sum16_loop d p n 0;
          t = (if n > 0 then set_low_byte t (d p) else t);
          sum = sum + ucast t;
          sum = FOLD_U32T sum;
          sum = FOLD_U32T sum;
          sum = (if odd then SWAP_BYTES_IN_WORD sum else sum)
      in ucast sum)"

text \<open>The loop over pairs of 32-bit words, with the carry added back after each.\<close>

definition add_carry :: "u32_t \<Rightarrow> u32_t \<Rightarrow> u32_t" where
  "add_carry acc w = (let tmp = acc + w in if tmp < acc then tmp + 1 else tmp)"

fun sum32_loop :: "(addr \<Rightarrow> u8_t) \<Rightarrow> addr \<Rightarrow> nat \<Rightarrow> u32_t \<Rightarrow> u32_t \<times> addr \<times> nat" where
  "sum32_loop d p n acc =
     (if n > 7 then
        (let tmp = add_carry acc (ld32 d p);
             acc = add_carry tmp (ld32 d (p + 4))
         in sum32_loop d (p + 8) (n - 8) acc)
      else (acc, p, n))"

definition lwip_standard_chksum_3 :: "(addr \<Rightarrow> u8_t) \<Rightarrow> addr \<Rightarrow> nat \<Rightarrow> u16_t" where
  "lwip_standard_chksum_3 d p n =
     (let odd = p mod 2 = 1;
          (t, p, n) = (if odd \<and> n > 0 then (push_bit 8 (ucast (d p)), p + 1, n - 1) else (0 :: u16_t, p, n));
          (sum, p, n) = (if p mod 4 \<noteq> 0 \<and> n > 1 then (ucast (ld16 d p), p + 2, n - 2) else (0 :: u32_t, p, n));
          (sum, p, n) = sum32_loop d p n sum;
          sum = FOLD_U32T sum;
          (sum, p, n) = sum16_loop d p n sum;
          t = (if n > 0 then set_low_byte t (d p) else t);
          sum = sum + ucast t;
          sum = FOLD_U32T sum;
          sum = FOLD_U32T sum;
          sum = (if odd then SWAP_BYTES_IN_WORD sum else sum)
      in ucast sum)"

declare chksum1_loop.simps [simp del] sum16_loop.simps [simp del] sum32_loop.simps [simp del]

section \<open>Checksums of memory and of chains\<close>

definition inet_chksum :: "(addr \<Rightarrow> u8_t) \<Rightarrow> addr \<Rightarrow> nat \<Rightarrow> u16_t" where
  "inet_chksum d p n = NOT (lwip_standard_chksum d p n)"

text \<open>The loop over a chain that the chain functions share: it returns the accumulator and \<open>swapped\<close>.\<close>

partial_function (option) chksum_chain :: "addr \<Rightarrow> u32_t \<Rightarrow> bool \<Rightarrow> 'a net_state_scheme \<Rightarrow> (u32_t \<times> bool) option" where
  "chksum_chain q acc swapped s =
     (if q = NULL then Some (acc, swapped)
      else do {
        b \<leftarrow> pbufs s q;
        let acc = acc + ucast (lwip_standard_chksum (bytes s) (payload b) (len b));
        let acc = FOLD_U32T acc;
        let (acc, swapped) = (if len b mod 2 \<noteq> 0 then (SWAP_BYTES_IN_WORD acc, \<not> swapped) else (acc, swapped));
        chksum_chain (pb_next b) acc swapped s
      })"

declare chksum_chain.simps [code]

definition inet_chksum_pbuf :: "addr \<Rightarrow> 'a net_state_scheme \<Rightarrow> u16_t option" where
  "inet_chksum_pbuf p s = do {
     (acc, swapped) \<leftarrow> chksum_chain p 0 False s;
     let acc = (if swapped then SWAP_BYTES_IN_WORD acc else acc);
     Some (ucast (NOT (acc AND 0xffff)))
   }"

text \<open>The pseudo header is added at the end; the addresses are in network byte order.\<close>

definition pseudo_end :: "u32_t \<Rightarrow> bool \<Rightarrow> u32_t \<Rightarrow> u32_t \<Rightarrow> u8_t \<Rightarrow> u16_t \<Rightarrow> u16_t" where
  "pseudo_end acc swapped src dest proto proto_len =
     (let acc = (if swapped then SWAP_BYTES_IN_WORD acc else acc);
          acc = acc + (src AND 0xffff);
          acc = acc + (drop_bit 16 src AND 0xffff);
          acc = acc + (dest AND 0xffff);
          acc = acc + (drop_bit 16 dest AND 0xffff);
          acc = acc + ucast (htons (ucast proto));
          acc = acc + ucast (htons proto_len);
          acc = FOLD_U32T acc;
          acc = FOLD_U32T acc
      in ucast (NOT (acc AND 0xffff)))"

definition inet_chksum_pseudo :: "addr \<Rightarrow> u32_t \<Rightarrow> u32_t \<Rightarrow> u8_t \<Rightarrow> u16_t \<Rightarrow> 'a net_state_scheme \<Rightarrow> u16_t option" where
  "inet_chksum_pseudo p src dest proto proto_len s = do {
     (acc, swapped) \<leftarrow> chksum_chain p 0 False s;
     Some (pseudo_end acc swapped src dest proto proto_len)
   }"

partial_function (option) chksum_chain_partial ::
  "addr \<Rightarrow> nat \<Rightarrow> u32_t \<Rightarrow> bool \<Rightarrow> 'a net_state_scheme \<Rightarrow> (u32_t \<times> bool) option" where
  "chksum_chain_partial q chksum_len acc swapped s =
     (if q = NULL \<or> chksum_len = 0 then Some (acc, swapped)
      else do {
        b \<leftarrow> pbufs s q;
        let chklen = (if len b > chksum_len then chksum_len else len b);
        let acc = acc + ucast (lwip_standard_chksum (bytes s) (payload b) chklen);
        let chksum_len = chksum_len - chklen;
        lwip_assert (chksum_len < 0x7fff);
        let acc = FOLD_U32T acc;
        let (acc, swapped) = (if len b mod 2 \<noteq> 0 then (SWAP_BYTES_IN_WORD acc, \<not> swapped) else (acc, swapped));
        chksum_chain_partial (pb_next b) chksum_len acc swapped s
      })"

declare chksum_chain_partial.simps [code]

definition inet_chksum_pseudo_partial ::
  "addr \<Rightarrow> u32_t \<Rightarrow> u32_t \<Rightarrow> u8_t \<Rightarrow> u16_t \<Rightarrow> nat \<Rightarrow> 'a net_state_scheme \<Rightarrow> u16_t option" where
  "inet_chksum_pseudo_partial p src dest proto proto_len chksum_len s = do {
     (acc, swapped) \<leftarrow> chksum_chain_partial p chksum_len 0 False s;
     Some (pseudo_end acc swapped src dest proto proto_len)
   }"

section \<open>One's complement arithmetic\<close>

lemma unat_le: "unat (b :: u8_t) \<le> 255" "unat (w :: u16_t) \<le> 65535"
  using unat_u8_less [of b] unat_u16_less [of w] by linarith+

text \<open>
  \<open>ones_eq\<close>: two numbers with the same one's complement value. Folding, swapping and adding with
  carry preserve it, and a 16-bit number is determined by it.
\<close>

definition ones_eq :: "nat \<Rightarrow> nat \<Rightarrow> bool" where
  "ones_eq v w \<longleftrightarrow> v mod 65535 = w mod 65535 \<and> (v = 0 \<longleftrightarrow> w = 0)"

definition ones_rep :: "nat \<Rightarrow> nat" where
  "ones_rep v = (if v = 0 then 0 else if v mod 65535 = 0 then 65535 else v mod 65535)"

lemma ones_eq_refl [simp]: "ones_eq v v"
  by (simp add: ones_eq_def)

lemma ones_eq_sym: "ones_eq v w \<Longrightarrow> ones_eq w v"
  by (auto simp: ones_eq_def)

lemma ones_eq_trans [trans]: "ones_eq u v \<Longrightarrow> ones_eq v w \<Longrightarrow> ones_eq u w"
  by (auto simp: ones_eq_def)

lemma ones_eq_add: "ones_eq v w \<Longrightarrow> ones_eq x y \<Longrightarrow> ones_eq (v + x) (w + y)"
  unfolding ones_eq_def by (metis add_eq_0_iff_both_eq_0 mod_add_cong)

lemma ones_eq_mult: "ones_eq v w \<Longrightarrow> 0 < k \<Longrightarrow> ones_eq (k * v) (k * w)"
  unfolding ones_eq_def by (metis bot_nat_0.not_eq_extremum mod_mult_right_eq mult_eq_0_iff)

lemma ones_eq_carry: "ones_eq (65536 * v) v"
proof -
  have "65536 * v = v + v * 65535" by simp
  then have "(65536 * v) mod 65535 = v mod 65535" by (metis mod_mult_self1)
  then show ?thesis by (simp add: ones_eq_def)
qed

lemma ones_eq_fold: "ones_eq (v div 65536 + v mod 65536) v"
proof -
  have "ones_eq (v div 65536 + v mod 65536) (65536 * (v div 65536) + v mod 65536)"
    by (rule ones_eq_add [OF ones_eq_sym [OF ones_eq_carry] ones_eq_refl])
  then show ?thesis by simp
qed

lemma ones_eq_swap: "ones_eq (v div 256 + 256 * (v mod 256)) (256 * v)"
proof -
  have "ones_eq (v div 256 + 256 * (v mod 256)) (65536 * (v div 256) + 256 * (v mod 256))"
    by (rule ones_eq_add [OF ones_eq_sym [OF ones_eq_carry] ones_eq_refl])
  also have "65536 * (v div 256) + 256 * (v mod 256) = 256 * (256 * (v div 256) + v mod 256)"
    by (simp only: distrib_left mult.assoc [symmetric])
  also have "\<dots> = 256 * v" by (simp only: mult_div_mod_eq)
  finally show ?thesis .
qed

lemma ones_eq_rep:
  assumes "ones_eq v w" and "v \<le> 65535"
  shows "v = ones_rep w"
proof (cases "v < 65535")
  case True
  then show ?thesis using assms(1) by (auto simp: ones_eq_def ones_rep_def)
next
  case False
  then have "v = 65535" using assms(2) by simp
  then show ?thesis using assms(1) by (auto simp: ones_eq_def ones_rep_def)
qed

lemma ones_rep_eq: "ones_eq v w \<Longrightarrow> ones_rep v = ones_rep w"
  by (auto simp: ones_eq_def ones_rep_def)

lemma ones_eq_ones_rep: "ones_eq (ones_rep v) v" and ones_rep_le: "ones_rep v \<le> 65535"
  by (auto simp: ones_eq_def ones_rep_def)

section \<open>The specification\<close>

text \<open>The sum of the bytes as little-endian 16-bit words, a last odd byte being the low one.\<close>

fun bsum :: "u8_t list \<Rightarrow> nat" where
  "bsum [] = 0"
| "bsum [b] = unat b"
| "bsum (b # c # bs) = unat b + 256 * unat c + bsum bs"

lemma bsum_Cons: "ones_eq (unat b + 256 * bsum bs) (bsum (b # bs))"
proof (induction bs arbitrary: b rule: bsum.induct)
  case (3 c e bs)
  have "unat b + 256 * bsum (c # e # bs) = unat b + 256 * unat c + (65536 * unat e + 256 * bsum bs)"
    by simp
  also have "ones_eq \<dots> (unat b + 256 * unat c + (unat e + 256 * bsum bs))"
    by (intro ones_eq_add ones_eq_carry ones_eq_refl)
  also have "ones_eq \<dots> (unat b + 256 * unat c + bsum (e # bs))"
    by (intro ones_eq_add ones_eq_refl 3)
  finally show ?case by simp
qed simp_all

lemma bsum_append_even: "even (length xs) \<Longrightarrow> bsum (xs @ ys) = bsum xs + bsum ys"
  by (induction xs rule: bsum.induct) simp_all

lemma bsum_append_odd: "odd (length xs) \<Longrightarrow> ones_eq (bsum xs + 256 * bsum ys) (bsum (xs @ ys))"
proof (induction xs rule: bsum.induct)
  case (3 b c bs)
  then have "ones_eq (unat b + 256 * unat c + (bsum bs + 256 * bsum ys)) (unat b + 256 * unat c + bsum (bs @ ys))"
    by (intro ones_eq_add) simp_all
  then show ?case by (simp add: add.assoc)
qed (simp_all add: bsum_Cons)

lemma bsum_bound: "bsum xs \<le> 65535 * ((length xs + 1) div 2)"
proof (induction xs rule: bsum.induct)
  case (2 b)
  then show ?case using unat_le(1) [of b] by simp
next
  case (3 b c bs)
  then show ?case using unat_le(1) [of b] unat_le(1) [of c] by simp
qed simp

section \<open>Words\<close>

lemma unat_FOLD: "unat (FOLD_U32T u) = unat u div 65536 + unat u mod 65536"
proof -
  have m: "u AND 0xffff = take_bit 16 u" by (simp add: take_bit_eq_mask mask_eq_exp_minus_1)
  have d: "unat (drop_bit 16 u) = unat u div 65536" by (simp add: drop_bit_eq_div unat_div_distrib)
  have t: "unat (take_bit 16 u) = unat u mod 65536" by (simp add: take_bit_eq_mod unat_mod_distrib)
  have "unat u div 65536 < 65536" using unat_u32_less [of u] by linarith
  then show ?thesis
    unfolding FOLD_U32T_def m by (subst unat_word_ariths) (simp add: d t)
qed

lemma unat_SWAP:
  assumes "unat w < 65536"
  shows "unat (SWAP_BYTES_IN_WORD w) = unat w div 256 + 256 * (unat w mod 256)"
proof -
  have t: "w AND 0xff = take_bit 8 w" by (simp add: byte_masks32 take_bit_eq_mask)
  have w: "take_bit 16 w = w"
    by (rule word_unat_eq_iff [THEN iffD2]) (use assms in \<open>simp add: take_bit_eq_mod unat_mod_distrib\<close>)
  have d: "drop_bit 8 (w AND 0xff00) = drop_bit 8 w"
  proof -
    have "drop_bit 8 (w AND 0xff00) = drop_bit 8 (take_bit 16 w)"
      by (rule bit_word_eqI) (auto simp: byte_masks32 bit_simps)
    then show ?thesis by (simp only: w)
  qed
  have "push_bit 8 (take_bit 8 w) AND drop_bit 8 (take_bit 16 w) = 0"
    by (rule bit_word_eqI) (auto simp: bit_simps)
  then have e: "SWAP_BYTES_IN_WORD w = push_bit 8 (take_bit 8 w) + drop_bit 8 w"
    unfolding SWAP_BYTES_IN_WORD_def d t w by (rule or_eq_plus)
  have p: "unat (push_bit 8 (take_bit 8 w)) = 256 * (unat w mod 256)"
    by (simp add: push_bit_eq_mult take_bit_eq_mod unat_word_ariths unat_mod_distrib)
  have q: "unat (drop_bit 8 w) = unat w div 256" by (simp add: drop_bit_eq_div unat_div_distrib)
  have "unat w div 256 < 256" using assms by linarith
  moreover have "unat w mod 256 < 256" by simp
  ultimately show ?thesis
    unfolding e by (subst unat_word_ariths) (simp add: p q)
qed

lemma unat_bytes16: "unat (push_bit 8 (ucast b) OR ucast c :: u16_t) = 256 * unat b + unat c" for b c :: u8_t
proof -
  have "push_bit 8 (ucast b) AND (ucast c :: u16_t) = 0"
    by (rule bit_word_eqI) (auto simp: bit_simps dest: bit_imp_le_length)
  then have e: "push_bit 8 (ucast b) OR ucast c = (push_bit 8 (ucast b) + ucast c :: u16_t)" by (rule or_eq_plus)
  have p: "unat (push_bit 8 (ucast b) :: u16_t) = 256 * unat b"
    using unat_le(1) [of b] by (simp add: push_bit_eq_mult unat_word_ariths unsigned_ucast_eq take_bit_eq_mod)
  show ?thesis
    unfolding e using unat_le(1) [of b] unat_le(1) [of c]
    by (subst unat_word_ariths) (simp add: p unsigned_ucast_eq take_bit_eq_mod)
qed

lemma unat_byte_high: "unat (push_bit 8 (ucast b) :: u16_t) = 256 * unat b" for b :: u8_t
  using unat_bytes16 [of b 0] by simp

lemma unat_ld16: "unat (ld16 d p) = unat (d p) + 256 * unat (d (p + 1))"
  unfolding ld16_def using unat_bytes16 [of "d (p + 1)" "d p"] by (simp add: or.commute)

lemma unat_ucast16 [simp]: "unat (ucast w :: u32_t) = unat w" for w :: u16_t
  using unat_le(2) [of w] by (simp add: unsigned_ucast_eq take_bit_eq_mod)

lemma unat_ld32: "unat (ld32 d p) = unat (ld16 d p) + 65536 * unat (ld16 d (p + 2))"
proof -
  let ?a = "ld16 d p" and ?b = "ld16 d (p + 2)"
  have "(ucast ?a :: u32_t) AND push_bit 16 (ucast ?b) = 0"
    by (rule bit_word_eqI) (auto simp: bit_simps dest: bit_imp_le_length)
  then have e: "ld32 d p = ucast ?a + push_bit 16 (ucast ?b)"
    unfolding ld32_def by (rule or_eq_plus)
  have "unat (push_bit 16 (ucast ?b) :: u32_t) = 65536 * unat ?b"
    using unat_le(2) [of ?b] by (simp add: push_bit_eq_mult unat_word_ariths)
  then show ?thesis
    unfolding e using unat_le(2) [of ?a] unat_le(2) [of ?b] by (subst unat_word_ariths) simp
qed

lemma unat_set_low_byte:
  assumes "unat t mod 256 = 0"
  shows "unat (set_low_byte t b) = unat t + unat b"
proof -
  have t: "take_bit 8 t = 0"
    by (rule word_unat_eq_iff [THEN iffD2]) (use assms in \<open>simp add: take_bit_eq_mod unat_mod_distrib\<close>)
  have m: "t AND 0xff00 = t"
  proof (rule bit_word_eqI)
    fix n
    assume "n < LENGTH(16)"
    have "n < 8 \<Longrightarrow> \<not> bit t n" using t by (metis bit_0_eq bit_take_bit_iff bot_apply bot_bool_def)
    then show "bit (t AND 0xff00) n = bit t n"
      using \<open>n < LENGTH(16)\<close> by (cases "n < 8") (auto simp: byte_masks16 bit_simps)
  qed
  have "t AND ucast b = 0"
  proof (rule bit_word_eqI)
    fix n
    assume "n < LENGTH(16)"
    have "n < 8 \<Longrightarrow> \<not> bit t n" using t by (metis bit_0_eq bit_take_bit_iff bot_apply bot_bool_def)
    then show "bit (t AND ucast b) n = bit (0 :: u16_t) n"
      by (auto simp: bit_simps dest: bit_imp_le_length)
  qed
  then have e: "set_low_byte t b = t + ucast b"
    unfolding set_low_byte_def m by (rule or_eq_plus)
  have "unat t + unat b < 65536" using assms unat_u16_less [of t] unat_u8_less [of b] by presburger
  then show ?thesis
    unfolding e by (subst unat_word_ariths) (simp add: unsigned_ucast_eq take_bit_eq_mod)
qed

section \<open>The three versions compute the specification\<close>

lemma peek_simps: "peek d p 0 = []" "peek d p (Suc n) = d p # peek d (Suc p) n"
  by (simp_all add: peek_def upt_rec)

fun besum :: "u8_t list \<Rightarrow> nat" where
  "besum [] = 0"
| "besum [b] = 256 * unat b"
| "besum (b # c # bs) = 256 * unat b + unat c + besum bs"

lemma besum_bsum: "ones_eq (256 * besum xs) (bsum xs)"
proof (induction xs rule: besum.induct)
  case (2 b)
  show ?case using ones_eq_carry [of "unat b"] by simp
next
  case (3 b c bs)
  have "256 * besum (b # c # bs) = 65536 * unat b + 256 * unat c + 256 * besum bs" by simp
  also have "ones_eq \<dots> (unat b + 256 * unat c + bsum bs)"
    by (intro ones_eq_add ones_eq_carry ones_eq_refl 3)
  finally show ?case by simp
qed simp

lemma besum_bound: "besum xs \<le> 65535 * ((length xs + 1) div 2)"
proof (induction xs rule: besum.induct)
  case (2 b)
  then show ?case using unat_le(1) [of b] by simp
next
  case (3 b c bs)
  then show ?case using unat_le(1) [of b] unat_le(1) [of c] by simp
qed simp

lemma unat_add_ucast:
  "unat acc + unat w < 4294967296 \<Longrightarrow> unat (acc + ucast w) = unat acc + unat w" for acc :: u32_t and w :: u16_t
  by (subst unat_word_ariths) simp

lemma chksum1_loop_sum:
  "unat acc + besum (peek d p n) < 4294967296 \<Longrightarrow> unat (chksum1_loop d p n acc) = unat acc + besum (peek d p n)"
proof (induction d p n acc rule: chksum1_loop.induct)
  case (1 d p n acc)
  consider "n = 0" | "n = 1" | m where "n = Suc (Suc m)" by (metis One_nat_def not0_implies_Suc)
  then show ?case
  proof cases
    case 2
    then show ?thesis
      using 1(2) by (subst chksum1_loop.simps) (simp add: peek_simps unat_add_ucast unat_byte_high)
  next
    case 3
    let ?w = "push_bit 8 (ucast (d p)) OR ucast (d (p + 1)) :: u16_t"
    have w: "unat ?w = 256 * unat (d p) + unat (d (p + 1))" by (rule unat_bytes16)
    have e: "unat (acc + ucast ?w) = unat acc + unat ?w"
      using 1(2) 3 w by (intro unat_add_ucast) (simp add: peek_simps)
    have "unat (chksum1_loop d (p + 2) m (acc + ucast ?w)) = unat (acc + ucast ?w) + besum (peek d (p + 2) m)"
      using 1(1) [OF _ refl refl] 1(2) 3 e w by (simp add: peek_simps)
    then show ?thesis
      using 3 e w by (subst chksum1_loop.simps) (simp add: peek_simps)
  qed (simp add: chksum1_loop.simps peek_simps)
qed

lemma fold_once:
  assumes "x \<le> 131070"
  shows "x div 65536 + x mod 65536 \<le> (65535 :: nat)"
proof (cases "x < 65536")
  case False
  then have "x div 65536 = 1" "x mod 65536 = x - 65536" using assms by (simp_all add: mod_if div_if)
  then show ?thesis using assms by simp
qed simp

lemma fold_range:
  assumes "u < 4294967296"
  shows "u div 65536 + u mod 65536 \<le> (131070 :: nat)"
proof -
  have "u div 65536 < 65536" using assms by (simp add: less_mult_imp_div_less)
  moreover have "u mod 65536 < 65536" by simp
  ultimately show ?thesis by linarith
qed

lemmas fold_twice = fold_once [OF fold_range]

lemma high_mask32: "(0xffff0000 :: u32_t) = push_bit 16 (mask 16)"
  by (simp add: mask_eq_exp_minus_1 push_bit_eq_mult)

lemma and_high: "(u AND 0xffff0000 \<noteq> 0) \<longleftrightarrow> 65536 \<le> unat u" for u :: u32_t
proof -
  have "u AND push_bit 16 (mask 16) = push_bit 16 (drop_bit 16 u)"
    by (rule bit_word_eqI) (auto simp: bit_simps)
  moreover have "push_bit 16 (drop_bit 16 u) = 0 \<longleftrightarrow> drop_bit 16 u = 0"
  proof
    assume z: "push_bit 16 (drop_bit 16 u) = 0"
    show "drop_bit 16 u = 0"
    proof (rule bit_word_eqI)
      fix n
      assume "n < LENGTH(32)"
      have "bit (push_bit 16 (drop_bit 16 u)) (n + 16) = bit (0 :: u32_t) (n + 16)" by (simp only: z)
      then show "bit (drop_bit 16 u) n = bit (0 :: u32_t) n"
        by (auto simp: bit_simps add.commute dest: bit_imp_le_length)
    qed
  qed simp
  moreover have "drop_bit 16 u = 0 \<longleftrightarrow> unat u div 65536 = 0"
    by (simp add: drop_bit_eq_div word_unat_eq_iff unat_div_distrib)
  ultimately show ?thesis unfolding high_mask32 by (simp add: div_eq_0_iff not_less)
qed

text \<open>Finishing the accumulator of version 1.\<close>

lemma fold_cond:
  "(if (FOLD_U32T acc) AND 0xffff0000 \<noteq> 0 then FOLD_U32T (FOLD_U32T acc) else FOLD_U32T acc) = FOLD_U32T (FOLD_U32T acc)"
proof (cases "65536 \<le> unat (FOLD_U32T acc)")
  case False
  then have "unat (FOLD_U32T (FOLD_U32T acc)) = unat (FOLD_U32T acc)" by (simp add: unat_FOLD [of "FOLD_U32T acc"])
  then show ?thesis by (simp add: word_unat_eq_iff)
qed (simp only: and_high if_True)

lemma unat_FOLD_twice: "unat (FOLD_U32T (FOLD_U32T acc)) \<le> 65535"
  unfolding unat_FOLD by (rule fold_twice) simp

lemma ones_eq_FOLD: "ones_eq (unat (FOLD_U32T acc)) (unat acc)"
  unfolding unat_FOLD by (rule ones_eq_fold)

lemma ones_eq_FOLD_twice: "ones_eq (unat (FOLD_U32T (FOLD_U32T acc))) (unat acc)"
  by (rule ones_eq_trans [OF ones_eq_FOLD ones_eq_FOLD])

lemma unat_ucast_u16: "unat acc \<le> 65535 \<Longrightarrow> unat (ucast acc :: u16_t) = unat acc" for acc :: u32_t
  by (simp add: unsigned_ucast_eq take_bit_eq_mod)

lemma lwip_standard_chksum_spec:
  assumes "n < 65536"
  shows "unat (lwip_standard_chksum d p n) = ones_rep (bsum (peek d p n))"
proof -
  let ?acc = "chksum1_loop d p n 0"
  let ?f = "FOLD_U32T (FOLD_U32T ?acc)"
  have "besum (peek d p n) \<le> 65535 * ((n + 1) div 2)" using besum_bound [of "peek d p n"] by simp
  also have "\<dots> \<le> 65535 * 32768" using assms by (intro mult_le_mono2) simp
  finally have acc: "unat ?acc = besum (peek d p n)" by (subst chksum1_loop_sum) simp_all
  have e: "lwip_standard_chksum d p n = htons (ucast ?f)"
    using fold_cond [of ?acc] unfolding lwip_standard_chksum_def Let_def FOLD_U32T_def by (simp only:)
  have u: "unat (ucast ?f :: u16_t) = unat ?f" by (rule unat_ucast_u16 [OF unat_FOLD_twice])
  have "ones_eq (unat ?f div 256 + 256 * (unat ?f mod 256)) (256 * unat ?f)" by (rule ones_eq_swap)
  also have "ones_eq \<dots> (256 * unat ?acc)" by (rule ones_eq_mult [OF ones_eq_FOLD_twice]) simp
  also have "ones_eq \<dots> (bsum (peek d p n))" unfolding acc by (rule besum_bsum)
  finally have "ones_eq (unat (lwip_standard_chksum d p n)) (bsum (peek d p n))"
    unfolding e unat_htons u by (simp add: add.commute mult.commute)
  then show ?thesis by (rule ones_eq_rep) (rule unat_le(2))
qed

lemma sum16_loop_sum:
  "unat acc + bsum (peek d p (2 * (n div 2))) < 4294967296 \<Longrightarrow>
     \<exists>acc'. sum16_loop d p n acc = (acc', p + 2 * (n div 2), n mod 2) \<and> unat acc' = unat acc + bsum (peek d p (2 * (n div 2)))"
proof (induction d p n acc rule: sum16_loop.induct)
  case (1 d p n acc)
  show ?case
  proof (cases "n > 1")
    case True
    define m where "m = n - 2"
    have m: "n = Suc (Suc m)" using True by (simp add: m_def)
    have b: "bsum (peek d p (2 * (n div 2))) = unat (ld16 d p) + bsum (peek d (p + 2) (2 * (m div 2)))"
    proof -
      have "2 * (n div 2) = Suc (Suc (2 * (m div 2)))" using m by simp
      then show ?thesis by (simp only: peek_simps bsum.simps unat_ld16) simp
    qed
    have e: "unat (acc + ucast (ld16 d p)) = unat acc + unat (ld16 d p)"
      using 1(2) b by (intro unat_add_ucast) simp
    obtain acc' where "sum16_loop d (p + 2) m (acc + ucast (ld16 d p)) = (acc', p + 2 + 2 * (m div 2), m mod 2)"
      "unat acc' = unat (acc + ucast (ld16 d p)) + bsum (peek d (p + 2) (2 * (m div 2)))"
      using 1(1) [OF True] 1(2) m b e by auto
    then show ?thesis
      using True m b e by (subst sum16_loop.simps) simp
  next
    case False
    then have "n div 2 = 0" "n mod 2 = n" by (simp_all add: div_eq_0_iff)
    then show ?thesis using False by (subst sum16_loop.simps) (simp add: peek_simps)
  qed
qed

lemma add_carry_ones: "ones_eq (unat (add_carry acc w)) (unat acc + unat w)"
proof (cases "unat acc + unat w < 4294967296")
  case True
  then have "unat (acc + w) = unat acc + unat w" by (subst unat_word_ariths) simp
  then show ?thesis by (simp add: add_carry_def word_less_nat_alt)
next
  case False
  let ?x = "unat acc + unat w - 4294967296"
  have lt: "unat acc < 4294967296" "unat w < 4294967296" by (rule unat_u32_less)+
  have s: "unat (acc + w) = ?x"
  proof -
    have "(unat acc + unat w) mod 4294967296 = ?x mod 4294967296" using False by (simp add: le_mod_geq)
    also have "\<dots> = ?x" using lt by (intro mod_less) linarith
    finally show ?thesis by (subst unat_word_ariths) simp
  qed
  have "acc + w < acc" using False lt s unfolding word_less_nat_alt by linarith
  then have a: "add_carry acc w = acc + w + 1" by (simp add: add_carry_def)
  have u: "unat (acc + w + 1) = ?x + 1"
  proof -
    have "(?x + 1) mod 4294967296 = ?x + 1" using lt by (intro mod_less) linarith
    then show ?thesis using s by (subst unat_word_ariths) simp
  qed
  have "unat acc + unat w = (?x + 1) + 65537 * 65535" using False by simp
  then have "(unat acc + unat w) mod 65535 = (?x + 1) mod 65535" by (metis mod_mult_self1)
  then show ?thesis unfolding a u using False by (simp add: ones_eq_def) linarith
qed

lemma bsum_ld32: "ones_eq (unat (ld32 d p)) (bsum (peek d p 4))"
proof -
  have "unat (ld32 d p) = unat (ld16 d p) + 65536 * unat (ld16 d (p + 2))" by (rule unat_ld32)
  also have "ones_eq \<dots> (unat (ld16 d p) + unat (ld16 d (p + 2)))"
    by (intro ones_eq_add ones_eq_refl ones_eq_carry)
  finally show ?thesis by (simp add: unat_ld16 peek_simps numeral_eq_Suc)
qed

lemma sum32_loop_sum:
  "\<exists>acc'. sum32_loop d p n acc = (acc', p + 8 * (n div 8), n mod 8)
     \<and> ones_eq (unat acc') (unat acc + bsum (peek d p (8 * (n div 8))))"
proof (induction d p n acc rule: sum32_loop.induct)
  case (1 d p n acc)
  show ?case
  proof (cases "n > 7")
    case True
    let ?t = "add_carry acc (ld32 d p)"
    let ?a = "add_carry ?t (ld32 d (p + 4))"
    have n: "8 * (n div 8) = 4 + (4 + 8 * ((n - 8) div 8))" "n mod 8 = (n - 8) mod 8"
      using True by (simp_all add: div_if [of n] le_mod_geq)
    have b: "bsum (peek d p (8 * (n div 8))) = bsum (peek d p 4) + (bsum (peek d (p + 4) 4) + bsum (peek d (p + 8) (8 * ((n - 8) div 8))))"
      unfolding n(1) peek_add by (simp add: bsum_append_even add.assoc)
    have "ones_eq (unat ?a) (unat ?t + unat (ld32 d (p + 4)))" by (rule add_carry_ones)
    also have "ones_eq \<dots> ((unat acc + bsum (peek d p 4)) + bsum (peek d (p + 4) 4))"
      by (intro ones_eq_add bsum_ld32 ones_eq_trans [OF add_carry_ones] ones_eq_refl)
    finally have a: "ones_eq (unat ?a) (unat acc + bsum (peek d p 4) + bsum (peek d (p + 4) 4))" .
    obtain acc' where ih: "sum32_loop d (p + 8) (n - 8) ?a = (acc', p + 8 + 8 * ((n - 8) div 8), (n - 8) mod 8)"
      "ones_eq (unat acc') (unat ?a + bsum (peek d (p + 8) (8 * ((n - 8) div 8))))"
      using 1 [OF True refl refl] by blast
    have "ones_eq (unat acc') (unat acc + bsum (peek d p (8 * (n div 8))))"
      using ones_eq_trans [OF ih(2) ones_eq_add [OF a ones_eq_refl]] unfolding b by (simp add: add.assoc)
    then show ?thesis
      using True ih(1) n by (subst sum32_loop.simps) (simp add: Let_def)
  next
    case False
    then show ?thesis by (subst sum32_loop.simps) (simp add: peek_simps)
  qed
qed

text \<open>What versions 2 and 3 share: the odd byte at either end, the folds and the swap.\<close>

lemma sum16_tail:
  assumes "unat acc + bsum (peek d p n) < 4294967296" and "unat t mod 256 = 0"
    and "sum16_loop d p n acc = (sm, q, k)"
  shows "unat sm + unat (if k > 0 then set_low_byte t (d q) else t) = unat acc + unat t + bsum (peek d p n)"
proof -
  have n: "n = 2 * (n div 2) + n mod 2" by simp
  have "bsum (peek d p n) = bsum (peek d p (2 * (n div 2)) @ peek d (p + 2 * (n div 2)) (n mod 2))"
    by (subst n) (simp only: peek_add)
  then have b: "bsum (peek d p n) = bsum (peek d p (2 * (n div 2))) + bsum (peek d (p + 2 * (n div 2)) (n mod 2))"
    by (simp add: bsum_append_even)
  have "unat acc + bsum (peek d p (2 * (n div 2))) < 4294967296" using assms(1) b by linarith
  from sum16_loop_sum [OF this] assms(3)
  have r: "q = p + 2 * (n div 2)" "k = n mod 2" "unat sm = unat acc + bsum (peek d p (2 * (n div 2)))" by auto
  show ?thesis
  proof (cases "n mod 2 = 0")
    case True
    then show ?thesis using r b by (simp add: peek_simps)
  next
    case False
    then have "n mod 2 = Suc 0" by simp
    then show ?thesis using r b assms(2) by (simp add: peek_simps unat_set_low_byte)
  qed
qed

lemma chksum_finish:
  fixes sm :: u32_t and t :: u16_t
  assumes "unat sm + unat t < 4294967296"
  shows "unat (ucast (if sw then SWAP_BYTES_IN_WORD (FOLD_U32T (FOLD_U32T (sm + ucast t)))
                      else FOLD_U32T (FOLD_U32T (sm + ucast t))) :: u16_t)
           = ones_rep ((if sw then 256 else 1) * (unat sm + unat t))"
proof -
  let ?f = "FOLD_U32T (FOLD_U32T (sm + ucast t))"
  have f: "ones_eq (unat ?f) (unat sm + unat t)"
    using ones_eq_FOLD_twice [of "sm + ucast t"] unfolding unat_add_ucast [OF assms] .
  have le: "unat ?f \<le> 65535" by (rule unat_FOLD_twice)
  have m: "unat ?f mod 256 < 256" "unat ?f div 256 < 256" using le by simp_all
  show ?thesis
  proof (cases sw)
    case True
    have "unat (SWAP_BYTES_IN_WORD ?f) = unat ?f div 256 + 256 * (unat ?f mod 256)"
      using le by (intro unat_SWAP) simp
    moreover have "ones_eq (unat ?f div 256 + 256 * (unat ?f mod 256)) (256 * (unat sm + unat t))"
      by (rule ones_eq_trans [OF ones_eq_swap ones_eq_mult [OF f]]) simp
    moreover have "unat ?f div 256 + 256 * (unat ?f mod 256) \<le> 65535" using m by linarith
    ultimately show ?thesis using True by (simp add: unat_ucast_u16 ones_eq_rep)
  next
    case False
    then show ?thesis using f le by (simp add: unat_ucast_u16 ones_eq_rep)
  qed
qed

lemma odd_start:
  assumes "(if p mod 2 = 1 \<and> n > 0 then (push_bit 8 (ucast (d p)), p + 1, n - 1) else (0, p, n)) = (t, q, k)"
  shows "ones_eq ((if p mod 2 = 1 then 256 else 1) * (unat t + bsum (peek d q k))) (bsum (peek d p n))"
    and "unat (t :: u16_t) mod 256 = 0" and "k \<le> n"
proof -
  have "ones_eq ((if p mod 2 = 1 then 256 else 1) * (unat t + bsum (peek d q k))) (bsum (peek d p n))
      \<and> unat t mod 256 = 0 \<and> k \<le> n"
  proof (cases "p mod 2 = 1 \<and> n > 0")
    case True
    then have e: "t = push_bit 8 (ucast (d p))" "q = Suc p" "k = n - 1" using assms by simp_all
    have n: "peek d p n = d p # peek d q k" using True unfolding e(2,3) by (cases n) (simp_all only: peek_simps diff_Suc_1, simp)
    have t: "unat t = 256 * unat (d p)" unfolding e(1) by (rule unat_byte_high)
    have "256 * (unat t + bsum (peek d q k)) = 65536 * unat (d p) + 256 * bsum (peek d q k)"
      unfolding t by simp
    also have "ones_eq \<dots> (unat (d p) + 256 * bsum (peek d q k))"
      by (intro ones_eq_add ones_eq_carry ones_eq_refl)
    also have "ones_eq \<dots> (bsum (peek d p n))" unfolding n by (rule bsum_Cons)
    finally have "ones_eq (256 * (unat t + bsum (peek d q k))) (bsum (peek d p n))" .
    moreover have "k \<le> n" unfolding e(3) by simp
    ultimately show ?thesis using True t by simp
  next
    case False
    then have e: "t = 0" "q = p" "k = n" using assms by (simp_all only: if_False prod.inject)
    show ?thesis
    proof (cases "n = 0")
      case False
      with \<open>\<not> (p mod 2 = 1 \<and> n > 0)\<close> have "p mod 2 \<noteq> 1" by simp
      then show ?thesis unfolding e by simp
    qed (simp add: e peek_simps)
  qed
  then show "ones_eq ((if p mod 2 = 1 then 256 else 1) * (unat t + bsum (peek d q k))) (bsum (peek d p n))"
    and "unat t mod 256 = 0" and "k \<le> n" by blast+
qed

lemma bsum_peek_bound: "k < 65536 \<Longrightarrow> bsum (peek d q k) \<le> 2147450880"
proof -
  assume k: "k < 65536"
  have "bsum (peek d q k) \<le> 65535 * ((k + 1) div 2)" using bsum_bound [of "peek d q k"] by simp
  also have "\<dots> \<le> 65535 * 32768" using k by (intro mult_le_mono2) simp
  finally show ?thesis by simp
qed

lemma lwip_standard_chksum_2_spec:
  assumes "n < 65536"
  shows "unat (lwip_standard_chksum_2 d p n) = ones_rep (bsum (peek d p n))"
proof -
  obtain t q k where s: "(if p mod 2 = 1 \<and> n > 0 then (push_bit 8 (ucast (d p)), p + 1, n - 1) else (0 :: u16_t, p, n)) = (t, q, k)"
    by (metis prod_cases3)
  note st = odd_start [where d = d, OF s]
  obtain sm q' k' where l: "sum16_loop d q k 0 = (sm, q', k')" by (metis prod_cases3)
  let ?t = "if k' > 0 then set_low_byte t (d q') else t"
  have b: "bsum (peek d q k) \<le> 2147450880" using st(3) assms by (intro bsum_peek_bound) simp
  have v: "unat sm + unat ?t = unat t + bsum (peek d q k)"
    using sum16_tail [OF _ st(2) l] b by simp
  have "unat sm + unat ?t < 4294967296" unfolding v using b unat_le(2) [of t] by linarith
  note f = chksum_finish [OF this, of "p mod 2 = 1"]
  have "unat (lwip_standard_chksum_2 d p n) = ones_rep ((if p mod 2 = 1 then 256 else 1) * (unat t + bsum (peek d q k)))"
    using f unfolding v lwip_standard_chksum_2_def Let_def s l prod.case by (simp only:)
  then show ?thesis using ones_rep_eq [OF st(1)] by simp
qed

lemma lwip_standard_chksum_3_spec:
  assumes "n < 65536"
  shows "unat (lwip_standard_chksum_3 d p n) = ones_rep (bsum (peek d p n))"
proof -
  let ?c = "(if p mod 2 = 1 then 256 else 1) :: nat"
  obtain t q k where s: "(if p mod 2 = 1 \<and> n > 0 then (push_bit 8 (ucast (d p)), p + 1, n - 1) else (0 :: u16_t, p, n)) = (t, q, k)"
    by (metis prod_cases3)
  note st = odd_start [where d = d, OF s]
  obtain a1 q1 k1 where s1: "(if q mod 4 \<noteq> 0 \<and> k > 1 then (ucast (ld16 d q), q + 2, k - 2) else (0 :: u32_t, q, k)) = (a1, q1, k1)"
    by (metis prod_cases3)
  have b1: "bsum (peek d q k) = unat a1 + bsum (peek d q1 k1)"
  proof (cases "q mod 4 \<noteq> 0 \<and> k > 1")
    case True
    then have e: "a1 = ucast (ld16 d q)" "q1 = q + 2" "k1 = k - 2" using s1 by simp_all
    have k: "k = Suc (Suc k1)" using True e(3) by linarith
    show ?thesis unfolding k peek_simps bsum.simps e(1,2) unat_ucast16 unat_ld16 by simp
  next
    case False
    then have "a1 = 0" "q1 = q" "k1 = k" using s1 by (simp_all only: if_False prod.inject)
    then show ?thesis by simp
  qed
  obtain a2 where l2: "sum32_loop d q1 k1 a1 = (a2, q1 + 8 * (k1 div 8), k1 mod 8)"
    and o2: "ones_eq (unat a2) (unat a1 + bsum (peek d q1 (8 * (k1 div 8))))"
    using sum32_loop_sum by blast
  let ?q2 = "q1 + 8 * (k1 div 8)" and ?k2 = "k1 mod 8"
  have b2: "bsum (peek d q1 k1) = bsum (peek d q1 (8 * (k1 div 8))) + bsum (peek d ?q2 ?k2)"
    using peek_add [of d q1 "8 * (k1 div 8)" "k1 mod 8"] by (simp add: bsum_append_even)
  have o3: "ones_eq (unat (FOLD_U32T a2)) (unat a1 + bsum (peek d q1 (8 * (k1 div 8))))"
    by (rule ones_eq_trans [OF ones_eq_FOLD o2])
  obtain sm q3 k3 where l3: "sum16_loop d ?q2 ?k2 (FOLD_U32T a2) = (sm, q3, k3)" by (metis prod_cases3)
  let ?t = "if k3 > 0 then set_low_byte t (d q3) else t"
  have f2: "unat (FOLD_U32T a2) \<le> 131070"
    unfolding unat_FOLD by (rule fold_range) simp
  have b3: "bsum (peek d ?q2 ?k2) \<le> 2147450880" by (rule bsum_peek_bound) simp
  have v: "unat sm + unat ?t = unat (FOLD_U32T a2) + unat t + bsum (peek d ?q2 ?k2)"
    using f2 b3 by (intro sum16_tail [OF _ st(2) l3]) linarith
  have "unat sm + unat ?t < 4294967296" unfolding v using f2 b3 unat_le(2) [of t] by linarith
  note f = chksum_finish [OF this, of "p mod 2 = 1"]
  have "ones_eq (unat (FOLD_U32T a2) + (unat t + bsum (peek d ?q2 ?k2))) (unat a1 + bsum (peek d q1 (8 * (k1 div 8))) + (unat t + bsum (peek d ?q2 ?k2)))"
    by (rule ones_eq_add [OF o3 ones_eq_refl])
  then have "ones_eq (unat sm + unat ?t) (unat t + bsum (peek d q k))"
    unfolding v b1 b2 by (simp add: ac_simps)
  then have "ones_eq (?c * (unat sm + unat ?t)) (?c * (unat t + bsum (peek d q k)))" by (rule ones_eq_mult) simp
  from ones_rep_eq [OF ones_eq_trans [OF this st(1)]]
  show ?thesis
    using f unfolding lwip_standard_chksum_3_def Let_def s s1 l2 l3 prod.case by (simp only:)
qed

section \<open>Chains\<close>

lemma chksum_step:
  fixes acc :: u32_t and c :: u16_t
  assumes "unat acc \<le> 65535" and "ones_eq (unat acc) ((if sw then 256 else 1) * v)" and "unat c = ones_rep w"
  shows "unat (FOLD_U32T (acc + ucast c)) \<le> 65535"
    and "ones_eq (unat (FOLD_U32T (acc + ucast c))) ((if sw then 256 else 1) * (v + (if sw then 256 else 1) * w))"
proof -
  have u: "unat (acc + ucast c) = unat acc + unat c"
    using assms(1) unat_le(2) [of c] by (intro unat_add_ucast) linarith
  have "unat (acc + ucast c) \<le> 131070" unfolding u using assms(1) unat_le(2) [of c] by linarith
  then show "unat (FOLD_U32T (acc + ucast c)) \<le> 65535"
    unfolding unat_FOLD by (rule fold_once)
  have c: "ones_eq (unat c) w" unfolding assms(3) by (rule ones_eq_ones_rep)
  have "ones_eq (unat (FOLD_U32T (acc + ucast c))) (unat acc + unat c)" using ones_eq_FOLD u by metis
  also have "ones_eq \<dots> ((if sw then 256 else 1) * v + w)" by (rule ones_eq_add [OF assms(2) c])
  also have "ones_eq \<dots> ((if sw then 256 else 1) * (v + (if sw then 256 else 1) * w))"
    using ones_eq_add [OF ones_eq_refl [of "256 * v"] ones_eq_sym [OF ones_eq_carry [of w]]] by (simp add: distrib_left)
  finally show "ones_eq (unat (FOLD_U32T (acc + ucast c))) ((if sw then 256 else 1) * (v + (if sw then 256 else 1) * w))" .
qed

lemma SWAP_step:
  assumes "unat acc \<le> 65535" and "ones_eq (unat acc) ((if sw then 256 else 1) * v)"
  shows "unat (SWAP_BYTES_IN_WORD acc) \<le> 65535"
    and "ones_eq (unat (SWAP_BYTES_IN_WORD acc)) ((if \<not> sw then 256 else 1) * v)"
proof -
  have u: "unat (SWAP_BYTES_IN_WORD acc) = unat acc div 256 + 256 * (unat acc mod 256)"
    using assms(1) by (intro unat_SWAP) simp
  have "unat acc div 256 < 256" "unat acc mod 256 < 256" using assms(1) by simp_all
  then show "unat (SWAP_BYTES_IN_WORD acc) \<le> 65535" unfolding u by linarith
  have "ones_eq (unat (SWAP_BYTES_IN_WORD acc)) (256 * unat acc)" unfolding u by (rule ones_eq_swap)
  also have "ones_eq \<dots> (256 * ((if sw then 256 else 1) * v))" by (rule ones_eq_mult [OF assms(2)]) simp
  also have "ones_eq \<dots> ((if \<not> sw then 256 else 1) * v)" using ones_eq_carry [of v] by simp
  finally show "ones_eq (unat (SWAP_BYTES_IN_WORD acc)) ((if \<not> sw then 256 else 1) * v)" .
qed

lemma bsum_append: "ones_eq (bsum xs + (if odd (length xs) then 256 else 1) * bsum ys) (bsum (xs @ ys))"
  using bsum_append_odd [of xs ys] bsum_append_even [of xs ys] by (cases "odd (length xs)") simp_all

text \<open>\<open>sum_inv acc sw bs\<close>: the accumulator after the bytes \<open>bs\<close>; it is kept swapped while their number is odd.\<close>

definition sum_inv :: "u32_t \<Rightarrow> bool \<Rightarrow> u8_t list \<Rightarrow> bool" where
  "sum_inv acc sw bs \<longleftrightarrow> unat acc \<le> 65535 \<and> ones_eq (unat acc) ((if sw then 256 else 1) * bsum bs)"

lemma sum_inv_step:
  fixes c :: u16_t
  assumes "sum_inv acc sw bs" and "sw \<longleftrightarrow> odd (length bs)" and "unat c = ones_rep (bsum ys)"
  shows "sum_inv (FOLD_U32T (acc + ucast c)) sw (bs @ ys)"
proof -
  have a: "unat acc \<le> 65535" "ones_eq (unat acc) ((if sw then 256 else 1) * bsum bs)"
    using assms(1) by (simp_all add: sum_inv_def)
  have "ones_eq ((if sw then 256 else 1) * (bsum bs + (if sw then 256 else 1) * bsum ys)) ((if sw then 256 else 1) * bsum (bs @ ys))"
    using ones_eq_mult [OF bsum_append [of bs ys], of "if sw then 256 else 1"] unfolding assms(2) by simp
  then show ?thesis
    using chksum_step(1) [OF a assms(3)] ones_eq_trans [OF chksum_step(2) [OF a assms(3)]] unfolding sum_inv_def by blast
qed

lemma sum_inv_SWAP: "sum_inv acc sw bs \<Longrightarrow> sum_inv (SWAP_BYTES_IN_WORD acc) (\<not> sw) bs"
  unfolding sum_inv_def using SWAP_step by blast

lemma sum_inv_end:
  assumes "sum_inv acc sw bs"
  shows "unat (if sw then SWAP_BYTES_IN_WORD acc else acc) = ones_rep (bsum bs)"
proof -
  have "sum_inv (if sw then SWAP_BYTES_IN_WORD acc else acc) False bs"
    using assms sum_inv_SWAP [of acc True bs] by (cases sw) simp_all
  then show ?thesis by (intro ones_eq_rep) (simp_all add: sum_inv_def)
qed

definition lens_ok :: "(addr \<rightharpoonup> pbuf) \<Rightarrow> addr list \<Rightarrow> bool" where
  "lens_ok P xs \<longleftrightarrow> (\<forall>x \<in> set xs. pfield P len x < 65536)"

lemma chksum_chain_inv:
  assumes "pchain (pbufs s) q xs" and "lens_ok (pbufs s) xs" and "sum_inv acc sw bs" and "sw \<longleftrightarrow> odd (length bs)"
  shows "\<exists>acc' sw'. chksum_chain q acc sw s = Some (acc', sw') \<and> sum_inv acc' sw' (bs @ chain_data s xs)"
  using assms
proof (induction xs arbitrary: q acc sw bs)
  case Nil
  then show ?case by (subst chksum_chain.simps) simp
next
  case (Cons x xs)
  from Cons.prems(1) obtain b where b: "q = x" "x \<noteq> NULL" "pbufs s x = Some b" "pchain (pbufs s) (pb_next b) xs"
    by (auto split: option.splits)
  have l: "len b < 65536" using Cons.prems(2) b(3) by (simp add: lens_ok_def)
  let ?ys = "peek (bytes s) (payload b) (len b)"
  let ?acc = "FOLD_U32T (acc + ucast (lwip_standard_chksum (bytes s) (payload b) (len b)))"
  have i: "sum_inv ?acc sw (bs @ ?ys)"
    by (rule sum_inv_step [OF Cons.prems(3,4) lwip_standard_chksum_spec [OF l]])
  obtain acc2 sw2 where e: "(if len b mod 2 \<noteq> 0 then (SWAP_BYTES_IN_WORD ?acc, \<not> sw) else (?acc, sw)) = (acc2, sw2)" by fastforce
  have j: "sum_inv acc2 sw2 (bs @ ?ys)" using e i sum_inv_SWAP [OF i] by (cases "len b mod 2 = 0") simp_all
  have k: "sw2 \<longleftrightarrow> odd (length (bs @ ?ys))" using e Cons.prems(4) by (cases "len b mod 2 = 0") auto
  have "lens_ok (pbufs s) xs" using Cons.prems(2) by (simp add: lens_ok_def)
  from Cons.IH [OF b(4) this j k] obtain acc' sw' where
    "chksum_chain (pb_next b) acc2 sw2 s = Some (acc', sw')" "sum_inv acc' sw' (bs @ chain_data s (x # xs))"
    using b(3) by (auto simp: pbuf_data_peek)
  then show ?case using b e by (subst chksum_chain.simps) (simp add: Let_def)
qed

section \<open>The pseudo header\<close>

definition le16 :: "u16_t \<Rightarrow> u8_t list" where
  "le16 w = [ucast w, ucast (drop_bit 8 w)]"

definition le32 :: "u32_t \<Rightarrow> u8_t list" where
  "le32 w = [ucast w, ucast (drop_bit 8 w), ucast (drop_bit 16 w), ucast (drop_bit 24 w)]"

definition pseudo_header :: "u32_t \<Rightarrow> u32_t \<Rightarrow> u8_t \<Rightarrow> u16_t \<Rightarrow> u8_t list" where
  "pseudo_header src dest proto proto_len = le32 src @ le32 dest @ [0, proto] @ [ucast (drop_bit 8 proto_len), ucast proto_len]"

lemma length_pseudo_header [simp]: "length (pseudo_header src dest proto proto_len) = 12"
  by (simp add: pseudo_header_def le32_def)

lemma unat_ucast8: "unat (ucast w :: u8_t) = unat w mod 256" for w :: "'a :: len word"
  by (simp add: unsigned_ucast_eq take_bit_eq_mod)

lemma bsum_le16: "bsum (le16 w) = unat w"
proof -
  have "unat (drop_bit 8 w) = unat w div 256" by (simp add: drop_bit_eq_div unat_div_distrib)
  moreover have "unat w div 256 mod 256 = unat w div 256" using unat_le(2) [of w] by simp
  ultimately show ?thesis unfolding le16_def bsum.simps unat_ucast8 by simp
qed

lemma bsum_be16: "bsum [ucast (drop_bit 8 w), ucast w] = unat (htons w)"
proof -
  have "unat (drop_bit 8 w) = unat w div 256" by (simp add: drop_bit_eq_div unat_div_distrib)
  moreover have "unat w div 256 mod 256 = unat w div 256" using unat_le(2) [of w] by simp
  ultimately show ?thesis unfolding bsum.simps unat_ucast8 unat_htons by simp
qed

lemma low16: "u AND 0xffff = take_bit 16 u" for u :: u32_t
  by (simp add: take_bit_eq_mask mask_eq_exp_minus_1)

lemma bsum_le32: "bsum (le32 w) = unat (w AND 0xffff) + unat (drop_bit 16 w AND 0xffff)"
proof -
  have d: "unat (drop_bit k w) = unat w div 2 ^ k" for k unfolding unat_drop_bit_eq by (rule drop_bit_eq_div)
  have t: "unat (take_bit 16 u) = unat u mod 65536" for u :: u32_t by (simp add: take_bit_eq_mod unat_mod_distrib)
  have h: "n mod 256 + 256 * (n div 256 mod 256) = n mod 65536" for n :: nat
    using mod_mult2_eq [of n 256 256] by simp
  have "unat w div 65536 mod 256 + 256 * (unat w div 65536 div 256 mod 256) = unat w div 65536 mod 65536" by (rule h)
  then show ?thesis
    unfolding le32_def bsum.simps unat_ucast8 low16 t d using h [of "unat w"] by (simp add: div_mult2_eq [symmetric])
qed

lemma unat_add_le: "unat acc + unat w < 4294967296 \<Longrightarrow> unat (acc + w) = unat acc + unat w" for acc w :: u32_t
  by (subst unat_word_ariths) simp

lemma bsum_two: "bsum (x # y # zs) = bsum [x, y] + bsum zs"
  by simp

lemma bsum_pseudo_header:
  "bsum (pseudo_header src dest proto proto_len) =
     unat (src AND 0xffff) + unat (drop_bit 16 src AND 0xffff) + unat (dest AND 0xffff) + unat (drop_bit 16 dest AND 0xffff)
       + unat (htons (ucast proto)) + unat (htons proto_len)"
proof -
  have p: "unat (htons (ucast proto)) = bsum [0, proto]"
  proof -
    have "drop_bit 8 (ucast proto :: u16_t) = 0"
      by (rule bit_word_eqI) (auto simp: bit_simps dest: bit_imp_le_length)
    moreover have "ucast (ucast proto :: u16_t) = proto" by (rule bit_word_eqI) (auto simp: bit_simps)
    ultimately show ?thesis using bsum_be16 [of "ucast proto"] by simp
  qed
  have "bsum (pseudo_header src dest proto proto_len) = bsum (le32 src) + (bsum (le32 dest) + (bsum [0, proto] + bsum [ucast (drop_bit 8 proto_len), ucast proto_len]))"
    unfolding pseudo_header_def by (simp add: le32_def)
  then show ?thesis unfolding bsum_le32 bsum_be16 p by simp
qed

lemma ucast_not_low: "(ucast (NOT (acc AND 0xffff)) :: u16_t) = NOT (ucast acc)" for acc :: u32_t
  unfolding low16 by (rule bit_word_eqI) (auto simp: bit_simps)

lemma unat_ucast_of_nat: "(ucast w :: 'b :: len word) = of_nat (unat w)" for w :: "'a :: len word"
  by (simp add: unsigned_ucast_eq word_unat_eq_iff unat_of_nat take_bit_eq_mod)

lemma unat_foldl_add:
  "\<lbrakk>\<And>w. w \<in> set ws \<Longrightarrow> unat w \<le> 65535; unat b + 65535 * length ws < 4294967296\<rbrakk>
     \<Longrightarrow> unat (foldl (+) b ws) = unat b + sum_list (map unat ws)" for b :: u32_t
proof (induction ws arbitrary: b)
  case (Cons w ws)
  have w: "unat w \<le> 65535" using Cons.prems(1) by simp
  have l: "unat b + 65535 + 65535 * length ws < 4294967296" using Cons.prems(2) by simp
  have u: "unat (b + w) = unat b + unat w" using w l by (intro unat_add_le) linarith
  have "unat (foldl (+) (b + w) ws) = unat (b + w) + sum_list (map unat ws)"
    using Cons.prems(1) u w l by (intro Cons.IH) (simp, linarith)
  then show ?case using u by simp
qed simp

lemma pseudo_end_spec:
  assumes "sum_inv acc sw bs"
  shows "NOT (pseudo_end acc sw src dest proto proto_len) = of_nat (ones_rep (bsum (pseudo_header src dest proto proto_len @ bs)))"
proof -
  let ?a = "if sw then SWAP_BYTES_IN_WORD acc else acc"
  let ?h = "[src AND 0xffff, drop_bit 16 src AND 0xffff, dest AND 0xffff, drop_bit 16 dest AND 0xffff, ucast (htons (ucast proto)), ucast (htons proto_len)]"
  let ?s = "foldl (+) ?a ?h"
  have a: "unat ?a = ones_rep (bsum bs)" by (rule sum_inv_end [OF assms])
  have "unat w \<le> 65535" if "w \<in> set ?h" for w
  proof -
    have "unat (take_bit 16 u) \<le> 65535" for u :: u32_t by (simp add: take_bit_eq_mod unat_mod_distrib)
    then show ?thesis using that unat_le(2) by (auto simp: low16)
  qed
  moreover have "unat ?a + 65535 * length ?h < 4294967296" using a ones_rep_le [of "bsum bs"] by simp
  ultimately have s: "unat ?s = unat ?a + sum_list (map unat ?h)" by (intro unat_foldl_add) blast+
  have h: "sum_list (map unat ?h) = bsum (pseudo_header src dest proto proto_len)" unfolding bsum_pseudo_header by simp
  have "ones_eq (unat ?s) (bsum bs + bsum (pseudo_header src dest proto proto_len))"
    unfolding s a h by (rule ones_eq_add [OF ones_eq_ones_rep ones_eq_refl])
  then have "ones_eq (unat ?s) (bsum (pseudo_header src dest proto proto_len @ bs))"
    by (simp add: bsum_append_even add.commute)
  from ones_eq_trans [OF ones_eq_FOLD_twice this]
  have "unat (FOLD_U32T (FOLD_U32T ?s)) = ones_rep (bsum (pseudo_header src dest proto proto_len @ bs))"
    by (rule ones_eq_rep) (rule unat_FOLD_twice)
  moreover have "NOT (pseudo_end acc sw src dest proto proto_len) = ucast (FOLD_U32T (FOLD_U32T ?s))"
    unfolding pseudo_end_def Let_def ucast_not_low by simp
  ultimately show ?thesis by (simp only: unat_ucast_of_nat)
qed

lemma chksum_chain_partial_inv:
  assumes "pchain (pbufs s) q xs" and "lens_ok (pbufs s) xs" and "sum_inv acc sw bs" and "sw \<longleftrightarrow> odd (length bs)" and "n < 0x7fff"
  shows "\<exists>acc' sw'. chksum_chain_partial q n acc sw s = Some (acc', sw') \<and> sum_inv acc' sw' (bs @ take n (chain_data s xs))"
  using assms
proof (induction xs arbitrary: q n acc sw bs)
  case Nil
  then show ?case by (subst chksum_chain_partial.simps) simp
next
  case (Cons x xs)
  from Cons.prems(1) obtain b where b: "q = x" "x \<noteq> NULL" "pbufs s x = Some b" "pchain (pbufs s) (pb_next b) xs"
    by (auto split: option.splits)
  show ?case
  proof (cases "n = 0")
    case True
    then show ?thesis using Cons.prems(3) by (subst chksum_chain_partial.simps) simp
  next
    case False
    define k where "k = (if len b > n then n else len b)"
    have k: "k \<le> n" "k < 65536" "k \<le> len b" using Cons.prems(5) by (simp_all add: k_def)
    let ?ys = "peek (bytes s) (payload b) k"
    let ?acc = "FOLD_U32T (acc + ucast (lwip_standard_chksum (bytes s) (payload b) k))"
    have i: "sum_inv ?acc sw (bs @ ?ys)"
      by (rule sum_inv_step [OF Cons.prems(3,4) lwip_standard_chksum_spec [OF k(2)]])
    obtain acc2 sw2 where e: "(if len b mod 2 \<noteq> 0 then (SWAP_BYTES_IN_WORD ?acc, \<not> sw) else (?acc, sw)) = (acc2, sw2)" by fastforce
    have j: "sum_inv acc2 sw2 (bs @ ?ys)" using e i sum_inv_SWAP [OF i] by (cases "len b mod 2 = 0") simp_all
    have nk: "n - k < 0x7fff" using Cons.prems(5) by simp
    have step: "chksum_chain_partial q n acc sw s = chksum_chain_partial (pb_next b) (n - k) acc2 sw2 s"
      using False b(1-3) e nk by (subst chksum_chain_partial.simps) (auto simp: Let_def k_def [symmetric] split: if_splits)
    have data: "take n (chain_data s (x # xs)) = ?ys @ take (n - k) (chain_data s xs)"
      using b(3) by (simp add: pbuf_data_peek take_peek k_def)
    show ?thesis
    proof (cases "n - k = 0")
      case True
      then show ?thesis unfolding step data using j by (subst chksum_chain_partial.simps) simp
    next
      case False
      then have "k = len b" by (simp add: k_def split: if_splits)
      then have "sw2 \<longleftrightarrow> odd (length (bs @ ?ys))" using e Cons.prems(4) by (cases "len b mod 2 = 0") auto
      moreover have "lens_ok (pbufs s) xs" using Cons.prems(2) by (simp add: lens_ok_def)
      ultimately show ?thesis
        unfolding step data using Cons.IH [OF b(4) _ j, of "n - k"] Cons.prems(5) by simp
    qed
  qed
qed

lemma sum_inv_start [simp]: "sum_inv 0 False []"
  by (simp add: sum_inv_def)

lemma unat_not: "unat (NOT w) = 65535 - unat w" for w :: u16_t
proof -
  have "NOT w = - 1 - w" by (simp add: not_eq_complement)
  moreover have "w \<le> - 1" by simp
  ultimately show ?thesis by (simp only: unat_sub) (simp add: unsigned_minus_1_eq_mask mask_eq_exp_minus_1)
qed

lemma bsum_overlay:
  "even i \<Longrightarrow> i + 2 \<le> length xs \<Longrightarrow> xs ! i = 0 \<Longrightarrow> xs ! Suc i = 0 \<Longrightarrow> bsum (overlay i [a, b] xs) = bsum xs + unat a + 256 * unat b"
proof -
  assume a: "even i" "i + 2 \<le> length xs" "xs ! i = 0" "xs ! Suc i = 0"
  have "xs = take i xs @ [0, 0] @ drop (i + 2) xs"
    using a(2-4) by (metis Cons_nth_drop_Suc Suc_le_lessD add_2_eq_Suc' append_Cons append_Nil append_take_drop_id Suc_leD)
  then have "bsum xs = bsum (take i xs @ [0, 0] @ drop (i + 2) xs)" by simp
  also have "\<dots> = bsum (take i xs) + bsum (drop (i + 2) xs)" using a(1,2) by (simp add: bsum_append_even)
  finally show ?thesis using a(1,2) by (simp add: overlay_def bsum_append_even)
qed

lemma peek_poke_overlay:
  "i + length v \<le> n \<Longrightarrow> peek (poke (p + i) v d) p n = overlay i v (peek d p n)"
  by (rule nth_equalityI) (auto simp: overlay_def peek_def poke_def nth_append)

section \<open>Examples\<close>

definition example_chain :: net_state where
  "example_chain = example_net\<lparr>pbufs := [100 \<mapsto> \<lparr>pb_next = 200, payload = 300, tot_len = 5, len = 3, ptype = PBUF_REF, flags = 0, ref = 1\<rparr>,
     200 \<mapsto> \<lparr>pb_next = NULL, payload = 400, tot_len = 2, len = 2, ptype = PBUF_REF, flags = 0, ref = 1\<rparr>], bytes := of_nat\<rparr>"

lemma example_chain_simps:
  "pchain (pbufs example_chain) 100 [100, 200]" "lens_ok (pbufs example_chain) [100, 200]"
  "chain_data example_chain [100, 200] = [44, 45, 46, 144, 145]"
  by (simp_all add: example_chain_def lens_ok_def pbuf_data_def upt_rec)

section \<open>Properties\<close>

text \<open>
  Claim C9. The three implementations of the checksum agree on every block of fewer than 65536 bytes at every alignment,
  although they sum big-endian words, little-endian words and pairs of 32-bit words with carries:
  each returns the one's complement sum of the bytes.
\<close>

theorem chksum_versions_equal:
  assumes "n < 65536"
  shows "lwip_standard_chksum_2 d p n = lwip_standard_chksum d p n \<and> lwip_standard_chksum_3 d p n = lwip_standard_chksum d p n
    \<and> unat (lwip_standard_chksum d p n) = ones_rep (bsum (peek d p n))"
proof (intro conjI)
  show s: "unat (lwip_standard_chksum d p n) = ones_rep (bsum (peek d p n))" by (rule lwip_standard_chksum_spec [OF assms])
  have "unat (lwip_standard_chksum_2 d p n) = unat (lwip_standard_chksum d p n)"
    by (rule trans [OF lwip_standard_chksum_2_spec [OF assms] s [symmetric]])
  then show "lwip_standard_chksum_2 d p n = lwip_standard_chksum d p n" by (rule word_unat_eq_iff [THEN iffD2])
  have "unat (lwip_standard_chksum_3 d p n) = unat (lwip_standard_chksum d p n)"
    by (rule trans [OF lwip_standard_chksum_3_spec [OF assms] s [symmetric]])
  then show "lwip_standard_chksum_3 d p n = lwip_standard_chksum d p n" by (rule word_unat_eq_iff [THEN iffD2])
qed

theorem chksum_versions_equal_witness:
  "lwip_standard_chksum_3 (bytes example_chain) 301 1000 = lwip_standard_chksum (bytes example_chain) 301 1000"
  using chksum_versions_equal [of 1000] by simp

lemma inet_chksum_pbuf_ok:
  assumes "pchain (pbufs s) p xs" and "lens_ok (pbufs s) xs"
  shows "inet_chksum_pbuf p s = Some (NOT (of_nat (ones_rep (bsum (chain_data s xs)))))"
proof -
  obtain acc sw where c: "chksum_chain p 0 False s = Some (acc, sw)" "sum_inv acc sw (chain_data s xs)"
    using chksum_chain_inv [OF assms, of 0 False "[]"] by auto
  let ?a = "if sw then SWAP_BYTES_IN_WORD acc else acc"
  have "inet_chksum_pbuf p s = Some (NOT (ucast ?a))"
    by (simp only: inet_chksum_pbuf_def c(1) bind.bind_lunit prod.case Let_def ucast_not_low)
  then show ?thesis using sum_inv_end [OF c(2)] by (simp only: unat_ucast_of_nat)
qed

text \<open>
  Claim C25. \<open>inet_chksum_pbuf\<close> of a chain is the checksum of the concatenated data, whatever the lengths of the pbufs,
  odd ones included, and the walk returns.
\<close>

theorem inet_chksum_pbuf_correct:
  assumes "pchain (pbufs s) p xs" and "lens_ok (pbufs s) xs"
  shows "inet_chksum_pbuf p s = Some (NOT (of_nat (ones_rep (bsum (chain_data s xs)))))"
  by (rule inet_chksum_pbuf_ok [OF assms])

theorem inet_chksum_pbuf_correct_witness:
  "inet_chksum_pbuf 100 example_chain = Some (NOT (of_nat (ones_rep (bsum [44, 45, 46, 144, 145]))))"
  using inet_chksum_pbuf_correct [OF example_chain_simps(1,2)] unfolding example_chain_simps(3) .

lemma inet_chksum_pseudo_ok:
  assumes "pchain (pbufs s) p xs" and "lens_ok (pbufs s) xs" and "n < 0x7fff"
  shows "inet_chksum_pseudo_partial p src dest proto proto_len n s =
      Some (NOT (of_nat (ones_rep (bsum (pseudo_header src dest proto proto_len @ take n (chain_data s xs))))))
    \<and> inet_chksum_pseudo p src dest proto proto_len s =
      Some (NOT (of_nat (ones_rep (bsum (pseudo_header src dest proto proto_len @ chain_data s xs)))))"
proof (intro conjI)
  obtain acc sw where "chksum_chain_partial p n 0 False s = Some (acc, sw)" "sum_inv acc sw (take n (chain_data s xs))"
    using chksum_chain_partial_inv [OF assms(1,2) _ _ assms(3), of 0 False "[]"] by auto
  then show "inet_chksum_pseudo_partial p src dest proto proto_len n s =
      Some (NOT (of_nat (ones_rep (bsum (pseudo_header src dest proto proto_len @ take n (chain_data s xs))))))"
    by (simp add: inet_chksum_pseudo_partial_def pseudo_end_spec [symmetric])
  obtain acc sw where "chksum_chain p 0 False s = Some (acc, sw)" "sum_inv acc sw (chain_data s xs)"
    using chksum_chain_inv [OF assms(1,2), of 0 False "[]"] by auto
  then show "inet_chksum_pseudo p src dest proto proto_len s =
      Some (NOT (of_nat (ones_rep (bsum (pseudo_header src dest proto proto_len @ chain_data s xs)))))"
    by (simp add: inet_chksum_pseudo_def pseudo_end_spec [symmetric])
qed

text \<open>
  Claim C26. \<open>inet_chksum_pseudo_partial\<close> is the checksum of the pseudo header of the transport protocols (both addresses,
  a zero byte, the protocol and the length, in network byte order) followed by the first \<open>n\<close> bytes
  of the packet, also when the cut falls inside a pbuf, and \<open>inet_chksum_pseudo\<close> covers the whole packet.
\<close>

theorem inet_chksum_pseudo_correct:
  assumes "pchain (pbufs s) p xs" and "lens_ok (pbufs s) xs" and "n < 0x7fff"
  shows "inet_chksum_pseudo_partial p src dest proto proto_len n s =
      Some (NOT (of_nat (ones_rep (bsum (pseudo_header src dest proto proto_len @ take n (chain_data s xs))))))
    \<and> inet_chksum_pseudo p src dest proto proto_len s =
      Some (NOT (of_nat (ones_rep (bsum (pseudo_header src dest proto proto_len @ chain_data s xs)))))"
  by (rule inet_chksum_pseudo_ok [OF assms])

theorem inet_chksum_pseudo_correct_witness:
  "inet_chksum_pseudo_partial 100 0x0100007f 0x0200007f 17 5 4 example_chain =
     Some (NOT (of_nat (ones_rep (bsum (pseudo_header 0x0100007f 0x0200007f 17 5 @ [44, 45, 46, 144])))))"
  using inet_chksum_pseudo_correct [OF example_chain_simps(1,2), of 4] unfolding example_chain_simps(3) by simp

lemma inet_chksum_store:
  assumes "n < 65536" and "even i" and "i + 2 \<le> n" and "d (p + i) = 0" and "d (p + i + 1) = 0"
  shows "inet_chksum (poke (p + i) (le16 (inet_chksum d p n)) d) p n = 0"
proof -
  let ?c = "inet_chksum d p n" and ?S = "bsum (peek d p n)"
  have c: "unat ?c = 65535 - ones_rep ?S"
    unfolding inet_chksum_def using lwip_standard_chksum_spec [OF assms(1), of d p] by (simp only: unat_not)
  have "bsum (peek (poke (p + i) (le16 ?c) d) p n) = ?S + bsum (le16 ?c)"
  proof -
    have "peek d p n ! i = 0" "peek d p n ! Suc i = 0" using assms(3-5) by (simp_all add: peek_def)
    then show ?thesis using assms(2,3) by (simp add: le16_def peek_poke_overlay bsum_overlay)
  qed
  then have s: "bsum (peek (poke (p + i) (le16 ?c) d) p n) = ?S + (65535 - ones_rep ?S)" by (simp only: bsum_le16 c)
  have "ones_eq (?S + (65535 - ones_rep ?S)) (ones_rep ?S + (65535 - ones_rep ?S))"
    by (rule ones_eq_add [OF ones_eq_sym [OF ones_eq_ones_rep] ones_eq_refl])
  then have "ones_rep (?S + (65535 - ones_rep ?S)) = ones_rep 65535"
    using ones_rep_le [of ?S] by (metis ones_rep_eq le_add_diff_inverse)
  then have "unat (lwip_standard_chksum (poke (p + i) (le16 ?c) d) p n) = 65535"
    unfolding lwip_standard_chksum_spec [OF assms(1)] s by (simp add: ones_rep_def)
  then have "lwip_standard_chksum (poke (p + i) (le16 ?c) d) p n = - 1" by (simp add: word_unat_eq_iff unsigned_minus_1_eq_mask mask_eq_exp_minus_1)
  then show ?thesis by (simp add: inet_chksum_def)
qed

text \<open>
  Claim C20. A sender's checksum is accepted: when the checksum of a block whose checksum field (two bytes at an even offset)
  is zero is stored into that field, the receiver's \<open>inet_chksum\<close> over the block is zero.
\<close>

theorem inet_chksum_verifies:
  assumes "n < 65536" and "even i" and "i + 2 \<le> n" and "d (p + i) = 0" and "d (p + i + 1) = 0"
  shows "inet_chksum (poke (p + i) (le16 (inet_chksum d p n)) d) p n = 0"
  using inet_chksum_store [OF assms] .

theorem inet_chksum_verifies_witness:
  "inet_chksum (poke 310 (le16 (inet_chksum (\<lambda>a. if a = 300 then 69 else 0) 300 20)) (\<lambda>a. if a = 300 then 69 else 0)) 300 20 = 0"
  using inet_chksum_verifies [of 20 10 "\<lambda>a. if a = 300 then 69 else 0" 300] by simp

end
