(* ===== verification/Netif.thy ===== *)
theory Netif
  imports Inet Pbuf
begin

text \<open>
  Network interfaces: the structure and the list of \<^verbatim>\<open>lwip/src/core/netif.c\<close>, the address tests of
  \<^verbatim>\<open>lwip/src/core/ipv4/ip_addr.c\<close>, and the driver of the repository, \<^verbatim>\<open>lib_test/mintapif.c\<close>,
  which every interface of the bindings uses (\<open>netif->linkoutput\<close> is its \<open>low_level_output\<close>).

  State. \<open>netifs\<close> holds the structures by address; \<open>netif_list\<close> is the linked list, as the list of
  its addresses, so that the \<open>next\<close> fields are its order. \<open>tx\<close> is the sequence of frames written to the tap
  device, each with its interface; the frames read from it are arguments of \<open>low_level_input\<close>.

  Addresses are in network byte order, that is, the words the little-endian host loads.
\<close>

section \<open>State\<close>

record netif =
  nif_ip_addr :: u32_t
  nif_netmask :: u32_t
  nif_gw :: u32_t
  nif_mtu :: nat
  nif_hwaddr_len :: nat
  nif_hwaddr :: "u8_t list"
  nif_flags :: u8_t
  nif_name :: "u8_t \<times> u8_t"
  nif_num :: u8_t

record netif_state = net_state +
  netifs :: "addr \<rightharpoonup> netif"
  netif_list :: "addr list"
  netif_default :: addr
  tx :: "(addr \<times> u8_t list) list"

definition NETIF_FLAG_UP :: u8_t where "NETIF_FLAG_UP = 0x01"
definition NETIF_FLAG_BROADCAST :: u8_t where "NETIF_FLAG_BROADCAST = 0x02"
definition NETIF_FLAG_ETHARP :: u8_t where "NETIF_FLAG_ETHARP = 0x20"

definition put_netif :: "addr \<Rightarrow> netif \<Rightarrow> 'a netif_state_scheme \<Rightarrow> 'a netif_state_scheme" where
  "put_netif p n s = s\<lparr>netifs := (netifs s)(p \<mapsto> n)\<rparr>"

section \<open>Addresses\<close>

definition ip_addr_netcmp :: "u32_t \<Rightarrow> u32_t \<Rightarrow> u32_t \<Rightarrow> bool" where
  "ip_addr_netcmp addr1 addr2 m \<longleftrightarrow> addr1 AND m = addr2 AND m"

definition ip_addr_isany :: "u32_t \<Rightarrow> bool" where
  "ip_addr_isany a \<longleftrightarrow> a = 0"

definition ip_addr_ismulticast :: "u32_t \<Rightarrow> bool" where
  "ip_addr_ismulticast a \<longleftrightarrow> a AND ntohl 0xf0000000 = ntohl 0xe0000000"

definition ip4_addr2 :: "u32_t \<Rightarrow> u16_t" where "ip4_addr2 a = ucast (drop_bit 16 (ntohl a)) AND 0xff"
definition ip4_addr3 :: "u32_t \<Rightarrow> u16_t" where "ip4_addr3 a = ucast (drop_bit 8 (ntohl a)) AND 0xff"
definition ip4_addr4 :: "u32_t \<Rightarrow> u16_t" where "ip4_addr4 a = ucast (ntohl a) AND 0xff"

definition ip_addr_isbroadcast :: "u32_t \<Rightarrow> netif \<Rightarrow> bool" where
  "ip_addr_isbroadcast addr2test n =
     (if NOT addr2test = 0 \<or> addr2test = 0 then True
      else if nif_flags n AND NETIF_FLAG_BROADCAST = 0 then False
      else if addr2test = nif_ip_addr n then False
      else if ip_addr_netcmp addr2test (nif_ip_addr n) (nif_netmask n)
           \<and> addr2test AND NOT (nif_netmask n) = 0xffffffff AND NOT (nif_netmask n) then True
      else False)"

section \<open>The list of interfaces\<close>

text \<open>The loop of \<open>netif_remove\<close> behind the first element; \<open>None\<close> when the interface is not found.\<close>

fun netif_unlink :: "addr \<Rightarrow> addr list \<Rightarrow> addr list option" where
  "netif_unlink p [] = None"
| "netif_unlink p [x] = None"
| "netif_unlink p (x # y # ys) = (if y = p then Some (x # ys) else map_option ((#) x) (netif_unlink p (y # ys)))"

definition netif_set_default :: "addr \<Rightarrow> 'a netif_state_scheme \<Rightarrow> 'a netif_state_scheme" where
  "netif_set_default p s = s\<lparr>netif_default := p\<rparr>"

definition netif_remove :: "addr \<Rightarrow> 'a netif_state_scheme \<Rightarrow> 'a netif_state_scheme" where
  "netif_remove p s =
     (if p = NULL then s
      else case (if netif_list s \<noteq> [] \<and> hd (netif_list s) = p then Some (tl (netif_list s)) else netif_unlink p (netif_list s)) of
        None \<Rightarrow> s
      | Some l \<Rightarrow>
          (let s = s\<lparr>netif_list := l\<rparr> in if netif_default s = p then netif_set_default NULL s else s))"

text \<open>The first interface of a list that passes a test, \<open>NULL\<close> if none does.\<close>

fun netif_scan :: "(netif \<Rightarrow> bool) \<Rightarrow> addr list \<Rightarrow> 'a netif_state_scheme \<Rightarrow> addr option" where
  "netif_scan P [] s = Some NULL"
| "netif_scan P (p # ps) s = do {
     n \<leftarrow> netifs s p;
     if P n then Some p else netif_scan P ps s
   }"

definition netif_find :: "u8_t \<Rightarrow> u8_t \<Rightarrow> u8_t \<Rightarrow> 'a netif_state_scheme \<Rightarrow> addr option" where
  "netif_find name0 name1 name2 s =
     (let num = name2 - 48 in
      netif_scan (\<lambda>n. num = nif_num n \<and> name0 = fst (nif_name n) \<and> name1 = snd (nif_name n)) (netif_list s) s)"

definition netif_set_gw :: "addr \<Rightarrow> u32_t \<Rightarrow> 'a netif_state_scheme \<Rightarrow> 'a netif_state_scheme option" where
  "netif_set_gw p gw s = do { n \<leftarrow> netifs s p; Some (put_netif p (n\<lparr>nif_gw := gw\<rparr>) s) }"

definition netif_set_netmask :: "addr \<Rightarrow> u32_t \<Rightarrow> 'a netif_state_scheme \<Rightarrow> 'a netif_state_scheme option" where
  "netif_set_netmask p netmask s = do { n \<leftarrow> netifs s p; Some (put_netif p (n\<lparr>nif_netmask := netmask\<rparr>) s) }"

definition netif_is_up :: "netif \<Rightarrow> bool" where
  "netif_is_up n \<longleftrightarrow> nif_flags n AND NETIF_FLAG_UP \<noteq> 0"

definition netif_set_down :: "addr \<Rightarrow> 'a netif_state_scheme \<Rightarrow> 'a netif_state_scheme option" where
  "netif_set_down p s = do {
     n \<leftarrow> netifs s p;
     Some (if nif_flags n AND NETIF_FLAG_UP \<noteq> 0
           then put_netif p (n\<lparr>nif_flags := nif_flags n AND NOT NETIF_FLAG_UP\<rparr>) s else s)
   }"

section \<open>The driver\<close>

text \<open>
  The buffer of the driver has 1514 bytes; copying more is an overrun of the stack, and writing
  bytes that were not copied an uninitialised read. \<open>low_level_output\<close> ignores the result of \<open>write\<close>.
\<close>

partial_function (option) output_loop :: "addr \<Rightarrow> u8_t list \<Rightarrow> 'a net_state_scheme \<Rightarrow> u8_t list option" where
  "output_loop q buf s =
     (if q = NULL then Some buf
      else do {
        b \<leftarrow> pbufs s q;
        let buf = buf @ map (bytes s) [payload b..<payload b + len b];
        lwip_assert (length buf \<le> 1514);
        output_loop (pb_next b) buf s
      })"

declare output_loop.simps [code]

definition low_level_output :: "addr \<Rightarrow> addr \<Rightarrow> 'a netif_state_scheme \<Rightarrow> (err_t \<times> 'a netif_state_scheme) option" where
  "low_level_output netif p s = do {
     buf \<leftarrow> output_loop p [] s;
     b \<leftarrow> pbufs s p;
     lwip_assert (tot_len b \<le> length buf);
     Some (ERR_OK, s\<lparr>tx := tx s @ [(netif, take (tot_len b) buf)]\<rparr>)
   }"

partial_function (option) input_loop :: "addr \<Rightarrow> u8_t list \<Rightarrow> 'a net_state_scheme \<Rightarrow> 'a net_state_scheme option" where
  "input_loop q buf s =
     (if q = NULL then Some s
      else do {
        b \<leftarrow> pbufs s q;
        lwip_assert (len b \<le> length buf);
        input_loop (pb_next b) (drop (len b) buf) (s\<lparr>bytes := poke (payload b) (take (len b) buf) (bytes s)\<rparr>)
      })"

declare input_loop.simps [code]

text \<open>\<open>frame\<close> is what \<open>read\<close> delivers, at most the size of the buffer.\<close>

definition low_level_input :: "u8_t list \<Rightarrow> 'a net_state_scheme \<Rightarrow> (addr \<times> 'a net_state_scheme) option" where
  "low_level_input frame s = do {
     lwip_assert (length frame \<le> 1514);
     (p, s) \<leftarrow> pbuf_alloc PBUF_LINK (length frame) PBUF_POOL s;
     if p \<noteq> NULL then do { s \<leftarrow> input_loop p frame s; Some (p, s) } else Some (p, s)
   }"


section \<open>Correctness of the driver\<close>

lemma output_loop_chain:
  assumes "pchain (pbufs s) p xs" and "length buf + plen (pbufs s) xs \<le> 1514"
  shows "output_loop p buf s = Some (buf @ chain_data s xs)"
  using assms
proof (induction xs arbitrary: p buf)
  case Nil
  then show ?case by (subst output_loop.simps) simp
next
  case (Cons x xs)
  obtain b where b: "p = x" "x \<noteq> NULL" "pbufs s x = Some b" "pchain (pbufs s) (pb_next b) xs"
    using pchain_ConsD [OF Cons.prems(1)] by blast
  then show ?case
    using Cons.IH [OF b(4), of "buf @ pbuf_data s x"] Cons.prems(2)
    by (subst output_loop.simps) (simp add: Let_def pbuf_data_def)
qed

lemma low_level_output_ok:
  assumes "packet (pbufs s) p xs" and "plen (pbufs s) xs \<le> 1514"
  shows "low_level_output netif p s = Some (ERR_OK, s\<lparr>tx := tx s @ [(netif, chain_data s xs)]\<rparr>)"
proof -
  obtain b ys where b: "xs = p # ys" "pbufs s p = Some b" "tot_len b = len b + plen (pbufs s) ys"
    using packet_head [OF assms(1)] by blast
  then have t: "tot_len b = length (chain_data s xs)" by simp
  have "output_loop p [] s = Some (chain_data s xs)"
    using output_loop_chain [of s p xs "[]"] assms by (simp add: packet_def)
  then show ?thesis
    using b(2) t by (simp add: low_level_output_def)
qed

lemma input_loop_chain:
  assumes "pchain (pbufs s) p xs" and "apart (pbufs s) xs" and "length buf = plen (pbufs s) xs"
  shows "\<exists>d. input_loop p buf s = Some (s\<lparr>bytes := d\<rparr>) \<and> chain_data (s\<lparr>bytes := d\<rparr>) xs = buf
    \<and> unchanged_outside (pbufs s) xs (bytes s) d"
  using assms
proof (induction xs arbitrary: p buf s)
  case Nil
  then show ?case
    by (subst input_loop.simps) (auto simp: unchanged_outside_def intro!: exI [of _ "bytes s"])
next
  case (Cons x xs)
  obtain b where b: "p = x" "x \<noteq> NULL" "pbufs s x = Some b" "pchain (pbufs s) (pb_next b) xs"
    using pchain_ConsD [OF Cons.prems(1)] by blast
  have ap: "clear_of (pbufs s) xs (payload b) (len b)" "apart (pbufs s) xs" using Cons.prems(2) b(3) by simp_all
  have l: "length buf = len b + plen (pbufs s) xs" using Cons.prems(3) b(3) by simp
  let ?v = "take (len b) buf"
  let ?s = "s\<lparr>bytes := poke (payload b) ?v (bytes s)\<rparr>"
  have v: "length ?v = len b" using l by simp
  note pk = poke_payload [OF b(3), of 0 ?v xs, simplified, OF ap(1)]
  obtain d where d: "input_loop (pb_next b) (drop (len b) buf) ?s = Some (?s\<lparr>bytes := d\<rparr>)"
    "chain_data (?s\<lparr>bytes := d\<rparr>) xs = drop (len b) buf" "unchanged_outside (pbufs s) xs (bytes ?s) d"
    using Cons.IH [of ?s "pb_next b" "drop (len b) buf"] b(4) ap(2) l by auto
  have "input_loop p buf s = Some (s\<lparr>bytes := d\<rparr>)"
    using b d(1) l by (subst input_loop.simps) simp
  moreover have "pbuf_data (s\<lparr>bytes := d\<rparr>) x = ?v"
  proof -
    have "peek d (payload b) (len b) = peek (bytes ?s) (payload b) (len b)"
      using d(3) ap(1) by (simp add: unchanged_outside_def)
    also have "\<dots> = ?v" using peek_poke [of "payload b" ?v "bytes s"] v by simp
    finally show ?thesis using b(3) by (simp add: pbuf_data_peek)
  qed
  moreover have "unchanged_outside (pbufs s) (x # xs) (bytes s) d"
    using d(3) pk(3) b(3) by (auto simp: unchanged_outside_def clear_of_Cons)
  ultimately show ?case
    using d(2) by (intro exI [of _ d]) simp
qed

lemma pool_kind_owned: "pool_kind P ty xs \<Longrightarrow> ty = PBUF_RAM \<or> ty = PBUF_POOL \<Longrightarrow> owned P xs"
  by (auto simp: pool_kind_def owned_def list_all_iff split: option.splits)

lemma low_level_input_ok:
  assumes ok: "net_ok sizes base s" and len: "length frame \<le> 1514"
  shows "\<exists>p xs s1 s'. low_level_input frame s = Some (p, s') \<and> net_ok sizes base s' \<and> net_state.more s' = net_state.more s
    \<and> alloc_post sizes base PBUF_LINK (length frame) PBUF_POOL s p xs s1
    \<and> pbufs s' = pbufs s1 \<and> ram_heap s' = ram_heap s1 \<and> memp s' = memp s1
    \<and> (p \<noteq> NULL \<longrightarrow> chain_data s' xs = frame \<and> unchanged_outside (pbufs s1) xs (bytes s) (bytes s')) \<and> (p = NULL \<longrightarrow> bytes s' = bytes s)"
proof -
  obtain p xs s1 where a: "pbuf_alloc PBUF_LINK (length frame) PBUF_POOL s = Some (p, s1)" "net_ok sizes base s1" "bytes s1 = bytes s"
    "net_state.more s1 = net_state.more s" "alloc_post sizes base PBUF_LINK (length frame) PBUF_POOL s p xs s1"
    using pbuf_alloc_ok [OF ok, of "length frame" PBUF_POOL PBUF_LINK] len by auto
  show ?thesis
  proof (cases "p = NULL")
    case True
    then show ?thesis using a len by (intro exI [of _ p] exI [of _ xs] exI [of _ s1]) (simp add: low_level_input_def)
  next
    case False
    then have k: "packet (pbufs s1) p xs" "plen (pbufs s1) xs = length frame" "pool_kind (pbufs s1) PBUF_POOL xs"
      using a(5) by (simp_all add: alloc_post_def)
    have "apart (pbufs s1) xs"
      using net_ok_apart [OF a(2) pool_kind_owned [OF k(3)] packet_distinct [OF k(1)]] by simp
    then obtain d where "input_loop p frame s1 = Some (s1\<lparr>bytes := d\<rparr>)" "chain_data (s1\<lparr>bytes := d\<rparr>) xs = frame"
      "unchanged_outside (pbufs s1) xs (bytes s1) d"
      using input_loop_chain [of s1 p xs frame] k by (auto simp: packet_def)
    then show ?thesis
      using False a len net_ok_bytes [OF a(2), of d]
      by (intro exI [of _ p] exI [of _ xs] exI [of _ s1] exI [of _ "s1\<lparr>bytes := d\<rparr>"]) (simp add: low_level_input_def)
  qed
qed

section \<open>Headers in memory\<close>

text \<open>Stores that stay inside the block of \<open>n\<close> bytes at \<open>a\<close>.\<close>

definition writes_within :: "addr \<Rightarrow> nat \<Rightarrow> (addr \<Rightarrow> u8_t) \<Rightarrow> (addr \<Rightarrow> u8_t) \<Rightarrow> bool" where
  "writes_within a n d d' \<longleftrightarrow> (\<forall>x. x < a \<or> a + n \<le> x \<longrightarrow> d' x = d x)"

lemma writes_within_refl [simp]: "writes_within a n d d"
  by (simp add: writes_within_def)

lemma writes_within_trans: "writes_within a n d d' \<Longrightarrow> writes_within a n d' d'' \<Longrightarrow> writes_within a n d d''"
  by (simp add: writes_within_def)

lemma writes_within_mono: "writes_within a n d d' \<Longrightarrow> c \<le> a \<Longrightarrow> a + n \<le> c + m \<Longrightarrow> writes_within c m d d'"
  by (simp add: writes_within_def)

lemma writes_within_poke:
  "writes_within a n d d' \<Longrightarrow> a \<le> c \<Longrightarrow> c + length v \<le> a + n \<Longrightarrow> writes_within a n d (poke c v d')"
  by (simp add: writes_within_def poke_def)

lemma writes_within_peek: "writes_within a n d d' \<Longrightarrow> c + m \<le> a \<or> a + n \<le> c \<Longrightarrow> peek d' c m = peek d c m"
  by (auto simp: writes_within_def peek_def)

lemma peek_poke_same: "length v = n \<Longrightarrow> peek (poke a v d) a n = v"
  using peek_poke [of a v d] by simp

text \<open>The bytes of the pbufs other than \<open>p\<close> when only the payload of \<open>p\<close> is written.\<close>

lemma writes_within_outside:
  assumes "writes_within (payload b) (len b) d d'" and "P p = Some b"
  shows "unchanged_outside P [p] d d'"
  using assms by (auto simp: unchanged_outside_def clear_of_def intro: writes_within_peek)

text \<open>\<open>data_kept s s'\<close>: the bytes of every pbuf with memory of its own are unchanged.\<close>

definition data_kept :: "'a net_state_scheme \<Rightarrow> 'a net_state_scheme \<Rightarrow> bool" where
  "data_kept s s' \<longleftrightarrow> (\<forall>x b. pbufs s x = Some b \<longrightarrow> ptype b = PBUF_RAM \<or> ptype b = PBUF_POOL \<longrightarrow>
     peek (bytes s') (payload b) (len b) = peek (bytes s) (payload b) (len b))"

lemma data_kept_bytes: "bytes s' = bytes s \<Longrightarrow> data_kept s s'"
  by (simp add: data_kept_def)

lemma data_kept_fresh:
  assumes "net_ok sizes base s1" and "unchanged_outside (pbufs s1) [p] (bytes s) (bytes s')" and "owned (pbufs s1) [p]" and "pbufs s p = None"
    and "\<And>x. x \<noteq> p \<Longrightarrow> pbufs s1 x = pbufs s x"
  shows "data_kept s s'"
  unfolding data_kept_def
proof (intro allI impI)
  fix x b
  assume b: "pbufs s x = Some b" "ptype b = PBUF_RAM \<or> ptype b = PBUF_POOL"
  have x: "x \<noteq> p" using b(1) assms(4) by auto
  then have x: "x \<noteq> p" "pbufs s1 x = Some b" using b(1) assms(5) by simp_all
  have "owned (pbufs s1) [x, p]" using assms(3) x(2) b(2) by (simp add: owned_def)
  from owned_clear [OF assms(1) this _ x(2)] x(1) show "peek (bytes s') (payload b) (len b) = peek (bytes s) (payload b) (len b)"
    using assms(2) by (simp add: unchanged_outside_def)
qed

lemma data_kept_chain:
  assumes "data_kept s s'" and "\<And>x. x \<in> set xs \<Longrightarrow> pbufs s' x = pbufs s x" and "owned (pbufs s) xs"
  shows "chain_data s' xs = chain_data s xs"
proof (rule chain_data_cong)
  fix x
  assume x: "x \<in> set xs"
  then obtain b where "pbufs s x = Some b" "ptype b = PBUF_RAM \<or> ptype b = PBUF_POOL"
    using assms(3) by (force simp: owned_def list_all_iff split: option.splits)
  then show "pbuf_data s' x = pbuf_data s x"
    using assms(1,2) x unfolding data_kept_def by (auto simp: pbuf_data_peek)
qed
section \<open>Properties\<close>

text \<open>
  Claim C31. A frame of at most 1514 bytes that the driver reads becomes a packet with exactly its bytes, for
  any length and so across pbuf boundaries, and sending this packet writes exactly this frame; or there
  was no memory and nothing changed.
\<close>

theorem driver_roundtrip:
  fixes s :: netif_state
  assumes "net_ok sizes base s" and "length frame \<le> 1514"
  shows "\<exists>p s'. low_level_input frame s = Some (p, s') \<and> net_ok sizes base s' \<and> tx s' = tx s
    \<and> (if p = NULL then pbufs s' = pbufs s \<and> bytes s' = bytes s
       else pbufs s p = None \<and> low_level_output netif p s' = Some (ERR_OK, s'\<lparr>tx := tx s @ [(netif, frame)]\<rparr>))"
proof -
  obtain p xs s1 s' where i: "low_level_input frame s = Some (p, s')" "net_ok sizes base s'" "net_state.more s' = net_state.more s"
    "alloc_post sizes base PBUF_LINK (length frame) PBUF_POOL s p xs s1" "pbufs s' = pbufs s1"
    "p \<noteq> NULL \<longrightarrow> chain_data s' xs = frame" "p = NULL \<longrightarrow> bytes s' = bytes s"
    using low_level_input_ok [OF assms] by blast
  have t: "tx s' = tx s" using i(3) by (cases s; cases s') simp
  show ?thesis
  proof (cases "p = NULL")
    case True
    then show ?thesis using i t by (intro exI [of _ p] exI [of _ s']) (simp add: alloc_post_def)
  next
    case False
    then have k: "packet (pbufs s') p xs" "plen (pbufs s') xs = length frame" "\<forall>x\<in>set xs. pbufs s x = None" "chain_data s' xs = frame"
      using i(4-6) by (simp_all add: alloc_post_def)
    have "p \<in> set xs" by (rule packet_head [OF k(1)]) simp
    then show ?thesis using False i(1,2) t k low_level_output_ok [OF k(1), of netif] assms(2) by (intro exI [of _ p] exI [of _ s']) simp
  qed
qed

definition example_tap :: netif_state where
  "example_tap = \<lparr>ram_heap = mem_init 1000, memp = memp_init example_sizes 20000, pbufs = Map.empty, bytes = (\<lambda>_. 0),
     netifs = Map.empty, netif_list = [], netif_default = NULL, tx = []\<rparr>"

theorem driver_roundtrip_witness:
  "\<exists>p s'. low_level_input (replicate 1000 7) example_tap = Some (p, s') \<and> net_ok example_sizes 20000 s'"
proof -
  have "net_ok example_sizes 20000 example_tap"
    using example_net_ok by (simp add: net_ok_def example_tap_def example_net_def)
  from driver_roundtrip [OF this, of "replicate 1000 7" 1] show ?thesis by auto
qed

lemma netif_unlink_distinct:
  "distinct l \<Longrightarrow> netif_unlink p l = (if p \<in> set (tl l) then Some (filter (\<lambda>x. x \<noteq> p) l) else None)"
proof (induction p l rule: netif_unlink.induct)
  case (3 p x y ys)
  then show ?case by (auto intro!: filter_True [symmetric])
qed simp_all

text \<open>
  \<open>netif_remove\<close> takes exactly the given interface out of the list, keeps the order of the others, and it
  is the default interface no more; removing one that is not in the list changes nothing.
\<close>

theorem netif_remove_correct:
  fixes s :: netif_state
  assumes "distinct (netif_list s)" and "NULL \<notin> set (netif_list s)"
  shows "netif_list (netif_remove p s) = filter (\<lambda>x. x \<noteq> p) (netif_list s)
    \<and> netif_default (netif_remove p s) = (if p \<in> set (netif_list s) \<and> netif_default s = p then NULL else netif_default s)"
proof (cases "netif_list s")
  case Nil
  then show ?thesis by (simp add: netif_remove_def)
next
  case (Cons x l)
  have "filter (\<lambda>x. x \<noteq> p) l = l" if "p \<notin> set l" using that by (intro filter_True) auto
  then show ?thesis
    using Cons assms netif_unlink_distinct [of "x # l" p] by (auto simp: netif_remove_def netif_set_default_def Let_def)
qed

theorem netif_remove_correct_witness:
  "netif_list (netif_remove 2 (example_tap\<lparr>netif_list := [1, 2, 3], netif_default := 2\<rparr>)) = [1, 3]"
  using netif_remove_correct [of "example_tap\<lparr>netif_list := [1, 2, 3], netif_default := 2\<rparr>" 2] by simp

end
