(* ===== verification/Etharp.thy ===== *)
theory Etharp
  imports Inet_Chksum Netif
begin

text \<open>
  Address resolution, \<^verbatim>\<open>lwip/src/netif/etharp.c\<close> in this configuration (queueing on, ten table
  entries, no VLANs, no hardware address hints): the table, its timer, lookup with recycling of
  entries, the queues of packets that wait for an address, and the ARP messages.

  State. \<open>arp_table\<close> is the static array, \<open>etharp_cached_entry\<close> the index of the last lookup. The queue of
  an entry is the list of its elements in order, each the address of its \<open>etharp_q_entry\<close> (an element of
  the pool \<open>MEMP_ARP_QUEUE\<close>) and of its packet. The time stamp keeps its 8 bits. Arguments that the
  code passes as pointers to addresses are passed by value; the callees do not write to them.
\<close>

section \<open>State\<close>

datatype etharp_state = ETHARP_STATE_EMPTY | ETHARP_STATE_PENDING | ETHARP_STATE_STABLE

record etharp_entry =
  arp_q :: "(addr \<times> addr) list"
  arp_ipaddr :: u32_t
  arp_ethaddr :: "u8_t list"
  arp_state :: etharp_state
  arp_ctime :: u8_t
  arp_netif :: addr

record link_state = netif_state +
  arp_table :: "etharp_entry list"
  etharp_cached_entry :: nat

definition ARP_TABLE_SIZE :: nat where "ARP_TABLE_SIZE = 10"
definition ARP_MAXAGE :: u8_t where "ARP_MAXAGE = 240"
definition ARP_MAXPENDING :: u8_t where "ARP_MAXPENDING = 2"
definition ETHARP_HWADDR_LEN :: nat where "ETHARP_HWADDR_LEN = 6"
definition SIZEOF_ETH_HDR :: nat where "SIZEOF_ETH_HDR = 14"
definition SIZEOF_ETHARP_PACKET :: nat where "SIZEOF_ETHARP_PACKET = SIZEOF_ETH_HDR + 28"
definition ETHTYPE_ARP :: u16_t where "ETHTYPE_ARP = 0x0806"
definition ETHTYPE_IP :: u16_t where "ETHTYPE_IP = 0x0800"
definition ETHARP_TRY_HARD :: u8_t where "ETHARP_TRY_HARD = 1"
definition ETHARP_FIND_ONLY :: u8_t where "ETHARP_FIND_ONLY = 2"

lemmas etharp_consts = ARP_TABLE_SIZE_def ARP_MAXAGE_def ARP_MAXPENDING_def ETHARP_HWADDR_LEN_def SIZEOF_ETH_HDR_def
  SIZEOF_ETHARP_PACKET_def ETHARP_TRY_HARD_def ETHARP_FIND_ONLY_def

definition set_entry :: "nat \<Rightarrow> (etharp_entry \<Rightarrow> etharp_entry) \<Rightarrow> 'a link_state_scheme \<Rightarrow> 'a link_state_scheme" where
  "set_entry i f s = s\<lparr>arp_table := (arp_table s)[i := f (arp_table s ! i)]\<rparr>"

definition memp_release :: "memp_t \<Rightarrow> addr \<Rightarrow> 'a net_state_scheme \<Rightarrow> 'a net_state_scheme option" where
  "memp_release t p s = do { m \<leftarrow> memp_free (memp s) t p; Some (s\<lparr>memp := m\<rparr>) }"

section \<open>Timer\<close>

fun free_q_loop :: "(addr \<times> addr) list \<Rightarrow> 'a net_state_scheme \<Rightarrow> 'a net_state_scheme option" where
  "free_q_loop [] s = Some s"
| "free_q_loop ((r, p) # q) s = do {
     lwip_assert (p \<noteq> NULL);
     (n, s) \<leftarrow> pbuf_free p s;
     s \<leftarrow> memp_release MEMP_ARP_QUEUE r s;
     free_q_loop q s
   }"

definition free_etharp_q :: "(addr \<times> addr) list \<Rightarrow> 'a net_state_scheme \<Rightarrow> 'a net_state_scheme option" where
  "free_etharp_q q s = do {
     lwip_assert (q \<noteq> []);
     lwip_assert (snd (hd q) \<noteq> NULL);
     free_q_loop q s
   }"

definition etharp_expired :: "etharp_entry \<Rightarrow> bool" where
  "etharp_expired e \<longleftrightarrow> (arp_state e = ETHARP_STATE_STABLE \<and> arp_ctime e \<ge> ARP_MAXAGE)
     \<or> (arp_state e = ETHARP_STATE_PENDING \<and> arp_ctime e \<ge> ARP_MAXPENDING)"

text \<open>One round of the loop of \<open>etharp_tmr\<close>.\<close>

definition etharp_tmr_entry :: "nat \<Rightarrow> 'a link_state_scheme \<Rightarrow> 'a link_state_scheme option" where
  "etharp_tmr_entry i s = do {
     let s = set_entry i (\<lambda>e. e\<lparr>arp_ctime := arp_ctime e + 1\<rparr>) s;
     let e = arp_table s ! i;
     if etharp_expired e then do {
       s \<leftarrow> (if arp_q e \<noteq> [] then do {
               s \<leftarrow> free_etharp_q (arp_q e) s;
               Some (set_entry i (\<lambda>e. e\<lparr>arp_q := []\<rparr>) s)
             } else Some s);
       Some (set_entry i (\<lambda>e. e\<lparr>arp_state := ETHARP_STATE_EMPTY\<rparr>) s)
     } else Some s
   }"

fun etharp_tmr_loop :: "nat list \<Rightarrow> 'a link_state_scheme \<Rightarrow> 'a link_state_scheme option" where
  "etharp_tmr_loop [] s = Some s"
| "etharp_tmr_loop (i # is) s = do { s \<leftarrow> etharp_tmr_entry i s; etharp_tmr_loop is s }"

definition etharp_tmr :: "'a link_state_scheme \<Rightarrow> 'a link_state_scheme option" where
  "etharp_tmr s = etharp_tmr_loop [0..<ARP_TABLE_SIZE] s"

section \<open>Lookup\<close>

text \<open>The candidates the sweep of \<open>find_entry\<close> remembers; \<open>ARP_TABLE_SIZE\<close> means none.\<close>

record arp_scan =
  sc_empty :: nat
  sc_old_pending :: nat
  sc_age_pending :: u8_t
  sc_old_stable :: nat
  sc_age_stable :: u8_t
  sc_old_queue :: nat
  sc_age_queue :: u8_t

definition scan_init :: arp_scan where
  "scan_init = \<lparr>sc_empty = ARP_TABLE_SIZE, sc_old_pending = ARP_TABLE_SIZE, sc_age_pending = 0,
     sc_old_stable = ARP_TABLE_SIZE, sc_age_stable = 0, sc_old_queue = ARP_TABLE_SIZE, sc_age_queue = 0\<rparr>"

text \<open>The sweep over the entries from index \<open>i\<close>: \<open>Inl\<close> the matching index, \<open>Inr\<close> the candidates.\<close>

fun find_sweep :: "u32_t option \<Rightarrow> nat \<Rightarrow> etharp_entry list \<Rightarrow> arp_scan \<Rightarrow> nat + arp_scan" where
  "find_sweep ip i [] c = Inr c"
| "find_sweep ip i (e # es) c =
     (if sc_empty c = ARP_TABLE_SIZE \<and> arp_state e = ETHARP_STATE_EMPTY then find_sweep ip (i + 1) es (c\<lparr>sc_empty := i\<rparr>)
      else if arp_state e = ETHARP_STATE_PENDING then
        (if ip = Some (arp_ipaddr e) then Inl i
         else if arp_q e \<noteq> [] then
           find_sweep ip (i + 1) es (if arp_ctime e \<ge> sc_age_queue c then c\<lparr>sc_old_queue := i, sc_age_queue := arp_ctime e\<rparr> else c)
         else
           find_sweep ip (i + 1) es (if arp_ctime e \<ge> sc_age_pending c then c\<lparr>sc_old_pending := i, sc_age_pending := arp_ctime e\<rparr> else c))
      else if arp_state e = ETHARP_STATE_STABLE then
        (if ip = Some (arp_ipaddr e) then Inl i
         else find_sweep ip (i + 1) es (if arp_ctime e \<ge> sc_age_stable c then c\<lparr>sc_old_stable := i, sc_age_stable := arp_ctime e\<rparr> else c))
      else find_sweep ip (i + 1) es c)"

text \<open>The choice of the entry to recycle; the inner \<open>None\<close> when there is none.\<close>

definition find_select :: "arp_scan \<Rightarrow> 'a link_state_scheme \<Rightarrow> (nat option \<times> 'a link_state_scheme) option" where
  "find_select c s =
     (if sc_empty c < ARP_TABLE_SIZE then Some (Some (sc_empty c), s)
      else if sc_old_stable c < ARP_TABLE_SIZE then do {
        lwip_assert (arp_q (arp_table s ! sc_old_stable c) = []);
        Some (Some (sc_old_stable c), s)
      }
      else if sc_old_pending c < ARP_TABLE_SIZE then Some (Some (sc_old_pending c), s)
      else if sc_old_queue c < ARP_TABLE_SIZE then do {
        s \<leftarrow> free_etharp_q (arp_q (arp_table s ! sc_old_queue c)) s;
        Some (Some (sc_old_queue c), set_entry (sc_old_queue c) (\<lambda>e. e\<lparr>arp_q := []\<rparr>) s)
      }
      else Some (None, s))"

text \<open>The result is the index, or the error code that the code returns as a negative index.\<close>

definition find_entry :: "u32_t option \<Rightarrow> u8_t \<Rightarrow> 'a link_state_scheme \<Rightarrow> ((err_t + nat) \<times> 'a link_state_scheme) option" where
  "find_entry ipaddr fl s =
     (let cached = arp_table s ! etharp_cached_entry s in
      if ipaddr \<noteq> None \<and> arp_state cached = ETHARP_STATE_STABLE \<and> ipaddr = Some (arp_ipaddr cached)
      then Some (Inr (etharp_cached_entry s), s)
      else case find_sweep ipaddr 0 (arp_table s) scan_init of
        Inl i \<Rightarrow> Some (Inr i, s\<lparr>etharp_cached_entry := i\<rparr>)
      | Inr c \<Rightarrow>
          if (sc_empty c = ARP_TABLE_SIZE \<and> fl AND ETHARP_TRY_HARD = 0) \<or> fl AND ETHARP_FIND_ONLY \<noteq> 0 then Some (Inl ERR_MEM, s)
          else do {
            (sel, s) \<leftarrow> find_select c s;
            case sel of
              None \<Rightarrow> Some (Inl ERR_MEM, s)
            | Some i \<Rightarrow> do {
                lwip_assert (i < ARP_TABLE_SIZE);
                let s = set_entry i (\<lambda>e. e\<lparr>arp_state := ETHARP_STATE_EMPTY\<rparr>) s;
                let s = (case ipaddr of None \<Rightarrow> s | Some a \<Rightarrow> set_entry i (\<lambda>e. e\<lparr>arp_ipaddr := a\<rparr>) s);
                let s = set_entry i (\<lambda>e. e\<lparr>arp_ctime := 0\<rparr>) s;
                Some (Inr i, s\<lparr>etharp_cached_entry := i\<rparr>)
              }
          })"

section \<open>Sending and updating\<close>

definition etharp_send_ip :: "addr \<Rightarrow> addr \<Rightarrow> u8_t list \<Rightarrow> u8_t list \<Rightarrow> 'a netif_state_scheme \<Rightarrow> (err_t \<times> 'a netif_state_scheme) option" where
  "etharp_send_ip netif p src dst s = do {
     b \<leftarrow> pbufs s p;
     n \<leftarrow> netifs s netif;
     lwip_assert (nif_hwaddr_len n = ETHARP_HWADDR_LEN);
     let d = poke (payload b) (take ETHARP_HWADDR_LEN dst) (bytes s);
     let d = poke (payload b + 6) (take ETHARP_HWADDR_LEN src) d;
     let d = poke (payload b + 12) (le16 (htons ETHTYPE_IP)) d;
     low_level_output netif p (s\<lparr>bytes := d\<rparr>)
   }"

text \<open>The loop that sends the packets queued on entry \<open>i\<close>.\<close>

partial_function (option) arp_send_queue :: "addr \<Rightarrow> nat \<Rightarrow> u8_t list \<Rightarrow> 'a link_state_scheme \<Rightarrow> 'a link_state_scheme option" where
  "arp_send_queue netif i ethaddr s =
     (case arp_q (arp_table s ! i) of
        [] \<Rightarrow> Some s
      | (e, p) # q \<Rightarrow> do {
          let s = set_entry i (\<lambda>x. x\<lparr>arp_q := q\<rparr>) s;
          s \<leftarrow> memp_release MEMP_ARP_QUEUE e s;
          n \<leftarrow> netifs s netif;
          (r, s) \<leftarrow> etharp_send_ip netif p (nif_hwaddr n) ethaddr s;
          (c, s) \<leftarrow> pbuf_free p s;
          arp_send_queue netif i ethaddr s
        })"

declare arp_send_queue.simps [code]

definition update_arp_entry :: "addr \<Rightarrow> u32_t \<Rightarrow> u8_t list \<Rightarrow> u8_t \<Rightarrow> 'a link_state_scheme \<Rightarrow> (err_t \<times> 'a link_state_scheme) option" where
  "update_arp_entry netif ipaddr ethaddr fl s = do {
     n \<leftarrow> netifs s netif;
     lwip_assert (nif_hwaddr_len n = ETHARP_HWADDR_LEN);
     if ip_addr_isany ipaddr \<or> ip_addr_isbroadcast ipaddr n \<or> ip_addr_ismulticast ipaddr then Some (ERR_ARG, s)
     else do {
       (r, s) \<leftarrow> find_entry (Some ipaddr) fl s;
       case r of
         Inl e \<Rightarrow> Some (e, s)
       | Inr i \<Rightarrow> do {
           let s = set_entry i (\<lambda>e. e\<lparr>arp_state := ETHARP_STATE_STABLE, arp_netif := netif,
                arp_ethaddr := take ETHARP_HWADDR_LEN ethaddr, arp_ctime := 0\<rparr>) s;
           s \<leftarrow> arp_send_queue netif i ethaddr s;
           Some (ERR_OK, s)
         }
     }
   }"

definition etharp_find_addr :: "u32_t \<Rightarrow> 'a link_state_scheme \<Rightarrow> ((nat \<times> u8_t list \<times> u32_t) option \<times> 'a link_state_scheme) option" where
  "etharp_find_addr ipaddr s = do {
     (r, s) \<leftarrow> find_entry (Some ipaddr) ETHARP_FIND_ONLY s;
     case r of
       Inr i \<Rightarrow>
         (let e = arp_table s ! i in
          if arp_state e = ETHARP_STATE_STABLE then Some (Some (i, arp_ethaddr e, arp_ipaddr e), s) else Some (None, s))
     | Inl _ \<Rightarrow> Some (None, s)
   }"

definition etharp_ip_input :: "addr \<Rightarrow> addr \<Rightarrow> 'a link_state_scheme \<Rightarrow> 'a link_state_scheme option" where
  "etharp_ip_input netif p s = do {
     lwip_assert (netif \<noteq> NULL);
     b \<leftarrow> pbufs s p;
     n \<leftarrow> netifs s netif;
     let ethhdr = payload b;
     let iphdr = ethhdr + SIZEOF_ETH_HDR;
     let src = ld32 (bytes s) (iphdr + 12);
     if \<not> ip_addr_netcmp src (nif_ip_addr n) (nif_netmask n) then Some s
     else do {
       (e, s) \<leftarrow> update_arp_entry netif src (peek (bytes s) (ethhdr + 6) 6) 0 s;
       Some s
     }
   }"

section \<open>ARP messages\<close>

text \<open>The addresses of the fields of the ARP header, from the start of the frame.\<close>

definition arp_reply_bytes :: "addr \<Rightarrow> u32_t \<Rightarrow> u8_t list \<Rightarrow> (addr \<Rightarrow> u8_t) \<Rightarrow> (addr \<Rightarrow> u8_t)" where
  "arp_reply_bytes ethhdr ip ethaddr d =
     (let hdr = ethhdr + SIZEOF_ETH_HDR;
          d = poke (hdr + 6) (le16 (htons 2)) d;
          d = poke (hdr + 24) (peek d (hdr + 14) 4) d;
          d = poke (hdr + 14) (le32 ip) d;
          d = poke (hdr + 18) (peek d (hdr + 8) 6) d;
          d = poke ethhdr (peek d (hdr + 8) 6) d;
          d = poke (hdr + 8) (take ETHARP_HWADDR_LEN ethaddr) d
      in poke (ethhdr + 6) (take ETHARP_HWADDR_LEN ethaddr) d)"

definition etharp_arp_input :: "addr \<Rightarrow> u8_t list \<Rightarrow> addr \<Rightarrow> 'a link_state_scheme \<Rightarrow> 'a link_state_scheme option" where
  "etharp_arp_input netif ethaddr p s = do {
     lwip_assert (netif \<noteq> NULL);
     b \<leftarrow> pbufs s p;
     if len b < SIZEOF_ETHARP_PACKET then do { (c, s) \<leftarrow> pbuf_free p s; Some s }
     else do {
       let ethhdr = payload b;
       let hdr = ethhdr + SIZEOF_ETH_HDR;
       if ld16 (bytes s) hdr \<noteq> htons 1 \<or> ld16 (bytes s) (hdr + 4) \<noteq> htons 0x0604
         \<or> ld16 (bytes s) (hdr + 2) \<noteq> htons ETHTYPE_IP \<or> ld16 (bytes s) (ethhdr + 12) \<noteq> htons ETHTYPE_ARP
       then do { (c, s) \<leftarrow> pbuf_free p s; Some s }
       else do {
         let sipaddr = ld32 (bytes s) (hdr + 14);
         let dipaddr = ld32 (bytes s) (hdr + 24);
         n \<leftarrow> netifs s netif;
         let for_us = (if nif_ip_addr n = 0 then False else dipaddr = nif_ip_addr n);
         (e, s) \<leftarrow> update_arp_entry netif sipaddr (peek (bytes s) (hdr + 8) 6) (if for_us then ETHARP_TRY_HARD else 0) s;
         s \<leftarrow> (if htons (ld16 (bytes s) (hdr + 6)) = 1 \<and> for_us then do {
                 lwip_assert (nif_hwaddr_len n = ETHARP_HWADDR_LEN);
                 (r, s) \<leftarrow> low_level_output netif p (s\<lparr>bytes := arp_reply_bytes ethhdr (nif_ip_addr n) ethaddr (bytes s)\<rparr>);
                 Some s
               } else Some s);
         (c, s) \<leftarrow> pbuf_free p s;
         Some s
       }
     }
   }"

definition arp_packet_bytes ::
  "addr \<Rightarrow> u8_t list \<Rightarrow> u8_t list \<Rightarrow> u8_t list \<Rightarrow> u32_t \<Rightarrow> u8_t list \<Rightarrow> u32_t \<Rightarrow> u16_t \<Rightarrow> (addr \<Rightarrow> u8_t) \<Rightarrow> (addr \<Rightarrow> u8_t)" where
  "arp_packet_bytes ethhdr ethsrc ethdst hwsrc ipsrc hwdst ipdst opcode d =
     (let hdr = ethhdr + SIZEOF_ETH_HDR;
          d = poke (hdr + 6) (le16 (htons opcode)) d;
          d = poke (hdr + 8) (take ETHARP_HWADDR_LEN hwsrc) d;
          d = poke (hdr + 18) (take ETHARP_HWADDR_LEN hwdst) d;
          d = poke ethhdr (take ETHARP_HWADDR_LEN ethdst) d;
          d = poke (ethhdr + 6) (take ETHARP_HWADDR_LEN ethsrc) d;
          d = poke (hdr + 14) (le32 ipsrc) d;
          d = poke (hdr + 24) (le32 ipdst) d;
          d = poke hdr (le16 (htons 1)) d;
          d = poke (hdr + 2) (le16 (htons ETHTYPE_IP)) d;
          d = poke (hdr + 4) (le16 (htons 0x0604)) d
      in poke (ethhdr + 12) (le16 (htons ETHTYPE_ARP)) d)"

definition etharp_raw ::
  "addr \<Rightarrow> u8_t list \<Rightarrow> u8_t list \<Rightarrow> u8_t list \<Rightarrow> u32_t \<Rightarrow> u8_t list \<Rightarrow> u32_t \<Rightarrow> u16_t \<Rightarrow> 'a netif_state_scheme \<Rightarrow> (err_t \<times> 'a netif_state_scheme) option" where
  "etharp_raw netif ethsrc ethdst hwsrc ipsrc hwdst ipdst opcode s = do {
     (p, s) \<leftarrow> pbuf_alloc PBUF_RAW SIZEOF_ETHARP_PACKET PBUF_RAM s;
     if p = NULL then Some (ERR_MEM, s)
     else do {
       b \<leftarrow> pbufs s p;
       lwip_assert (len b \<ge> SIZEOF_ETHARP_PACKET);
       n \<leftarrow> netifs s netif;
       lwip_assert (nif_hwaddr_len n = ETHARP_HWADDR_LEN);
       let s = s\<lparr>bytes := arp_packet_bytes (payload b) ethsrc ethdst hwsrc ipsrc hwdst ipdst opcode (bytes s)\<rparr>;
       (result, s) \<leftarrow> low_level_output netif p s;
       (c, s) \<leftarrow> pbuf_free p s;
       Some (result, s)
     }
   }"

definition ethbroadcast :: "u8_t list" where "ethbroadcast = replicate 6 0xff"
definition ethzero :: "u8_t list" where "ethzero = replicate 6 0"

definition etharp_request :: "addr \<Rightarrow> u32_t \<Rightarrow> 'a netif_state_scheme \<Rightarrow> (err_t \<times> 'a netif_state_scheme) option" where
  "etharp_request netif ipaddr s = do {
     n \<leftarrow> netifs s netif;
     etharp_raw netif (nif_hwaddr n) ethbroadcast (nif_hwaddr n) (nif_ip_addr n) ethzero ipaddr 1 s
   }"

section \<open>Output\<close>

text \<open>The walk that decides whether a packet must be copied: the first pbuf that is not \<open>PBUF_ROM\<close>.\<close>

partial_function (option) query_copy_needed :: "addr \<Rightarrow> 'a net_state_scheme \<Rightarrow> addr option" where
  "query_copy_needed p s =
     (if p = NULL then Some NULL
      else do {
        b \<leftarrow> pbufs s p;
        lwip_assert (len b \<noteq> tot_len b \<or> pb_next b = NULL);
        if ptype b \<noteq> PBUF_ROM then Some p else query_copy_needed (pb_next b) s
      })"

declare query_copy_needed.simps [code]

text \<open>Taking over the packet \<open>q\<close> for a queue: a copy or a reference, \<open>NULL\<close> when there is no memory.\<close>

definition query_take_over :: "addr \<Rightarrow> 'a net_state_scheme \<Rightarrow> (addr \<times> 'a net_state_scheme) option" where
  "query_take_over q s = do {
     p \<leftarrow> query_copy_needed q s;
     if p \<noteq> NULL then do {
       b \<leftarrow> pbufs s p;
       (p, s) \<leftarrow> pbuf_alloc PBUF_RAW (tot_len b) PBUF_RAM s;
       if p \<noteq> NULL then do {
         (e, s) \<leftarrow> pbuf_copy p q s;
         if e \<noteq> ERR_OK then do { (c, s) \<leftarrow> pbuf_free p s; Some (NULL, s) } else Some (p, s)
       } else Some (NULL, s)
     } else do {
       s \<leftarrow> pbuf_ref q s;
       Some (q, s)
     }
   }"

text \<open>Queueing the packet \<open>q\<close> on entry \<open>i\<close>; \<open>result\<close> is the error code so far.\<close>

definition query_queue :: "nat \<Rightarrow> addr \<Rightarrow> err_t \<Rightarrow> 'a link_state_scheme \<Rightarrow> (err_t \<times> 'a link_state_scheme) option" where
  "query_queue i q result s = do {
     (p, s) \<leftarrow> query_take_over q s;
     if p \<noteq> NULL then do {
       (new_entry, m) \<leftarrow> memp_malloc (memp s) MEMP_ARP_QUEUE;
       let s = s\<lparr>memp := m\<rparr>;
       if new_entry \<noteq> NULL then Some (ERR_OK, set_entry i (\<lambda>e. e\<lparr>arp_q := arp_q e @ [(new_entry, p)]\<rparr>) s)
       else do { (c, s) \<leftarrow> pbuf_free p s; Some (result, s) }
     } else Some (result, s)
   }"

definition etharp_query :: "addr \<Rightarrow> u32_t \<Rightarrow> addr \<Rightarrow> 'a link_state_scheme \<Rightarrow> (err_t \<times> 'a link_state_scheme) option" where
  "etharp_query netif ipaddr q s = do {
     n \<leftarrow> netifs s netif;
     if ip_addr_isbroadcast ipaddr n \<or> ip_addr_ismulticast ipaddr \<or> ip_addr_isany ipaddr then Some (ERR_ARG, s)
     else do {
       (r, s) \<leftarrow> find_entry (Some ipaddr) ETHARP_TRY_HARD s;
       case r of
         Inl e \<Rightarrow> Some (e, s)
       | Inr i \<Rightarrow> do {
           let s = (if arp_state (arp_table s ! i) = ETHARP_STATE_EMPTY
                    then set_entry i (\<lambda>e. e\<lparr>arp_state := ETHARP_STATE_PENDING\<rparr>) s else s);
           lwip_assert (arp_state (arp_table s ! i) = ETHARP_STATE_PENDING \<or> arp_state (arp_table s ! i) = ETHARP_STATE_STABLE);
           (result, s) \<leftarrow> (if arp_state (arp_table s ! i) = ETHARP_STATE_PENDING \<or> q = NULL
                           then etharp_request netif ipaddr s else Some (ERR_MEM, s));
           if q \<noteq> NULL then
             (if arp_state (arp_table s ! i) = ETHARP_STATE_STABLE
              then etharp_send_ip netif q (nif_hwaddr n) (arp_ethaddr (arp_table s ! i)) s
              else if arp_state (arp_table s ! i) = ETHARP_STATE_PENDING then query_queue i q result s
              else Some (result, s))
           else Some (result, s)
         }
     }
   }"

definition mcast_ethaddr :: "u32_t \<Rightarrow> u8_t list" where
  "mcast_ethaddr a = [0x01, 0x00, 0x5e, ucast (ip4_addr2 a AND 0x7f), ucast (ip4_addr3 a), ucast (ip4_addr4 a)]"

definition etharp_output :: "addr \<Rightarrow> addr \<Rightarrow> u32_t \<Rightarrow> 'a link_state_scheme \<Rightarrow> (err_t \<times> 'a link_state_scheme) option" where
  "etharp_output netif q ipaddr s = do {
     (failed, s) \<leftarrow> pbuf_header q (int SIZEOF_ETH_HDR) s;
     if failed then Some (ERR_BUF, s)
     else do {
       n \<leftarrow> netifs s netif;
       if ip_addr_isbroadcast ipaddr n then etharp_send_ip netif q (nif_hwaddr n) ethbroadcast s
       else if ip_addr_ismulticast ipaddr then etharp_send_ip netif q (nif_hwaddr n) (mcast_ethaddr ipaddr) s
       else if \<not> ip_addr_netcmp ipaddr (nif_ip_addr n) (nif_netmask n) then
         (if nif_gw n \<noteq> 0 then etharp_query netif (nif_gw n) q s else Some (ERR_RTE, s))
       else etharp_query netif ipaddr q s
     }
   }"

text \<open>\<open>netif_set_up\<close> announces the address of an Ethernet interface (a gratuitous ARP request).\<close>

definition netif_set_up :: "addr \<Rightarrow> 'a netif_state_scheme \<Rightarrow> 'a netif_state_scheme option" where
  "netif_set_up p s = do {
     n \<leftarrow> netifs s p;
     if nif_flags n AND NETIF_FLAG_UP = 0 then do {
       let s = put_netif p (n\<lparr>nif_flags := nif_flags n OR NETIF_FLAG_UP\<rparr>) s;
       n \<leftarrow> netifs s p;
       if nif_flags n AND NETIF_FLAG_ETHARP \<noteq> 0 then do {
         (e, s) \<leftarrow> etharp_request p (nif_ip_addr n) s;
         Some s
       } else Some s
     } else Some s
   }"


section \<open>Memory of the queues\<close>

text \<open>What the operations on packet buffers leave alone, in the extended state.\<close>

lemma more_netif:
  fixes s s' :: "'a netif_state_scheme"
  assumes "net_state.more s' = net_state.more s"
  shows "netifs s' = netifs s" and "netif_list s' = netif_list s" and "netif_default s' = netif_default s" and "tx s' = tx s"
    and "netif_state.more s' = netif_state.more s"
  using assms by (cases s; cases s'; simp)+

lemma more_link:
  fixes s s' :: "'a link_state_scheme"
  assumes "net_state.more s' = net_state.more s"
  shows "arp_table s' = arp_table s" and "etharp_cached_entry s' = etharp_cached_entry s" and "link_state.more s' = link_state.more s"
  using assms by (cases s; cases s'; simp)+

text \<open>A packet on a queue: one pbuf on the heap, with one reference, that holds a whole frame.\<close>

definition queued_pbuf :: "(addr \<rightharpoonup> pbuf) \<Rightarrow> addr \<Rightarrow> bool" where
  "queued_pbuf P p \<longleftrightarrow> p \<noteq> NULL \<and> (case P p of None \<Rightarrow> False
     | Some b \<Rightarrow> pb_next b = NULL \<and> ref b = 1 \<and> tot_len b = len b \<and> ptype b = PBUF_RAM \<and> 14 \<le> len b \<and> len b \<le> 1514)"

definition queue_elem :: "(memp_t \<Rightarrow> nat) \<Rightarrow> addr \<Rightarrow> 'a net_state_scheme \<Rightarrow> addr \<times> addr \<Rightarrow> bool" where
  "queue_elem sizes base s = (\<lambda>(r, p). memp_live sizes base (memp s) r = Some MEMP_ARP_QUEUE \<and> queued_pbuf (pbufs s) p)"

lemma queued_packet: "queued_pbuf P p \<Longrightarrow> packet P p [p] \<and> sole P [p] \<and> on_heap P [p] = {p} \<and> in_pool P [p] = {} \<and> plen P [p] \<le> 1514"
  by (auto simp: queued_pbuf_def packet_simps sole_def on_heap_def in_pool_def split: option.splits)

lemma free_queued:
  assumes "net_ok sizes base s" and "queued_pbuf (pbufs s) p"
  shows "\<exists>s'. pbuf_free p s = Some (1, s') \<and> net_ok sizes base s' \<and> pbufs s' = (pbufs s)(p := None)
    \<and> bytes s' = bytes s \<and> net_state.more s' = net_state.more s
    \<and> memp_live sizes base (memp s') = memp_live sizes base (memp s)
    \<and> mem_live (ram_heap s') = (mem_live (ram_heap s))(p := None)"
proof -
  note q = queued_packet [OF assms(2)]
  have "pchain (pbufs s) p [p]" using q by (simp add: packet_def)
  from pbuf_free_sole [OF assms(1) this] q show ?thesis
    by (auto simp: restrict_complement_singleton_eq)
qed

lemma memp_release_ok:
  assumes "net_ok sizes base s" and "memp_live sizes base (memp s) r = Some t" and "t \<noteq> MEMP_PBUF" and "t \<noteq> MEMP_PBUF_POOL"
  shows "\<exists>m. memp_release t r s = Some (s\<lparr>memp := m\<rparr>) \<and> net_ok sizes base (s\<lparr>memp := m\<rparr>)
    \<and> memp_live sizes base m = (memp_live sizes base (memp s))(r := None)"
proof -
  note ok = net_okD [OF assms(1)]
  obtain m where m: "memp_free (memp s) t r = Some m" "memp_ok sizes base m" "memp_live sizes base m = (memp_live sizes base (memp s))(r := None)"
    using pool.release_live [OF ok(2) assms(2)] by blast
  have "net_ok sizes base (s\<lparr>memp := m\<rparr>)"
  proof (rule net_okI [OF assms(1)])
    fix p b
    assume "pbufs (s\<lparr>memp := m\<rparr>) p = Some b"
    then have b: "pbuf_ok (mem_live (ram_heap s)) (memp_live sizes base (memp s)) p b" using ok(3) by simp
    have "p \<noteq> r" if "ptype b \<noteq> PBUF_RAM" using pbuf_ok_room(2) [OF b that] assms(2-4) by (auto split: if_splits)
    then show "pbuf_ok (mem_live (ram_heap (s\<lparr>memp := m\<rparr>))) (memp_live sizes base (memp (s\<lparr>memp := m\<rparr>))) p b"
      by (intro pbuf_ok_mono [OF b]) (auto simp: m(3))
  qed (use m ok in simp_all)
  then show ?thesis using m by (intro exI [of _ m]) (simp add: memp_release_def)
qed

lemma memp_take_ok:
  assumes "net_ok sizes base s" and "t \<noteq> MEMP_MAX"
  shows "\<exists>p m. memp_malloc (memp s) t = Some (p, m) \<and> net_ok sizes base (s\<lparr>memp := m\<rparr>)
    \<and> (if p = NULL then m = memp s
       else memp_live sizes base (memp s) p = None \<and> memp_live sizes base m = (memp_live sizes base (memp s))(p \<mapsto> t))"
proof -
  note ok = net_okD [OF assms(1)]
  obtain p m where m: "memp_malloc (memp s) t = Some (p, m)" using pool.alloc_total [OF ok(2) assms(2)] by blast
  show ?thesis
  proof (cases "p = NULL")
    case True
    then have "m = memp s" using pool.alloc_null [OF ok(2) assms(2)] m by blast
    then show ?thesis using True m assms(1) by (intro exI [of _ p] exI [of _ m]) simp
  next
    case False
    note l = memp_malloc_live [OF ok(2) m False]
    have "net_ok sizes base (s\<lparr>memp := m\<rparr>)"
    proof (rule net_okI [OF assms(1)])
      fix x b
      assume "pbufs (s\<lparr>memp := m\<rparr>) x = Some b"
      then have b: "pbuf_ok (mem_live (ram_heap s)) (memp_live sizes base (memp s)) x b" using ok(3) by simp
      have "x \<noteq> p" if "ptype b \<noteq> PBUF_RAM" using pbuf_ok_room(2) [OF b that] l(2) by auto
      then show "pbuf_ok (mem_live (ram_heap (s\<lparr>memp := m\<rparr>))) (memp_live sizes base (memp (s\<lparr>memp := m\<rparr>))) x b"
        by (intro pbuf_ok_mono [OF b]) (auto simp: l(3))
    qed (use l ok in simp_all)
    then show ?thesis using False m l by (intro exI [of _ p] exI [of _ m]) simp
  qed
qed

lemma queue_elem_upd:
  "queue_elem sizes base s (r', p') \<Longrightarrow> pbufs s' p' = pbufs s p' \<Longrightarrow> memp_live sizes base (memp s') r' = memp_live sizes base (memp s) r'
     \<Longrightarrow> queue_elem sizes base s' (r', p')"
  by (simp add: queue_elem_def queued_pbuf_def)

text \<open>
  \<open>released sizes base q s s'\<close>: the packets and the elements of the queue \<open>q\<close>, and nothing else, were released;
  \<open>freed\<close>: and no byte of memory changed.
\<close>

definition released :: "(memp_t \<Rightarrow> nat) \<Rightarrow> addr \<Rightarrow> (addr \<times> addr) list \<Rightarrow> 'a net_state_scheme \<Rightarrow> 'a net_state_scheme \<Rightarrow> bool" where
  "released sizes base q s s' \<longleftrightarrow> net_ok sizes base s' \<and> pbufs s' = pbufs s |` (- snd ` set q)
     \<and> memp_live sizes base (memp s') = memp_live sizes base (memp s) |` (- fst ` set q)
     \<and> mem_live (ram_heap s') = mem_live (ram_heap s) |` (- snd ` set q)"

definition freed :: "(memp_t \<Rightarrow> nat) \<Rightarrow> addr \<Rightarrow> (addr \<times> addr) list \<Rightarrow> 'a net_state_scheme \<Rightarrow> 'a net_state_scheme \<Rightarrow> bool" where
  "freed sizes base q s s' \<longleftrightarrow> net_ok sizes base s' \<and> pbufs s' = pbufs s |` (- snd ` set q) \<and> bytes s' = bytes s
     \<and> memp_live sizes base (memp s') = memp_live sizes base (memp s) |` (- fst ` set q)
     \<and> mem_live (ram_heap s') = mem_live (ram_heap s) |` (- snd ` set q)"

lemma freed_released: "freed sizes base q s s' \<Longrightarrow> released sizes base q s s'"
  by (simp add: freed_def released_def)

lemma freed_Nil: "net_ok sizes base s \<Longrightarrow> freed sizes base [] s s"
  by (simp add: freed_def)

lemma free_q_loop_ok:
  assumes "net_ok sizes base s" and "distinct (map fst q)" and "distinct (map snd q)" and "list_all (queue_elem sizes base s) q"
  shows "\<exists>s'. free_q_loop q s = Some s' \<and> freed sizes base q s s' \<and> net_state.more s' = net_state.more s"
  using assms unfolding freed_def
proof (induction q arbitrary: s)
  case Nil
  then show ?case by simp
next
  case (Cons e q)
  obtain r p where e: "e = (r, p)" by (cases e)
  have qe: "memp_live sizes base (memp s) r = Some MEMP_ARP_QUEUE" "queued_pbuf (pbufs s) p" "list_all (queue_elem sizes base s) q"
    using Cons.prems(4) by (simp_all add: e queue_elem_def)
  have new: "r \<notin> fst ` set q" "p \<notin> snd ` set q" "distinct (map fst q)" "distinct (map snd q)" using Cons.prems(2,3) by (simp_all add: e)
  have p0: "p \<noteq> NULL" using qe(2) by (simp add: queued_pbuf_def)
  obtain s1 where s1: "pbuf_free p s = Some (1, s1)" "net_ok sizes base s1" "pbufs s1 = (pbufs s)(p := None)" "bytes s1 = bytes s"
    "net_state.more s1 = net_state.more s" "memp_live sizes base (memp s1) = memp_live sizes base (memp s)"
    "mem_live (ram_heap s1) = (mem_live (ram_heap s))(p := None)"
    using free_queued [OF Cons.prems(1) qe(2)] by blast
  obtain m where m: "memp_release MEMP_ARP_QUEUE r s1 = Some (s1\<lparr>memp := m\<rparr>)" "net_ok sizes base (s1\<lparr>memp := m\<rparr>)"
    "memp_live sizes base m = (memp_live sizes base (memp s))(r := None)"
    using memp_release_ok [OF s1(2), of r MEMP_ARP_QUEUE] qe(1) s1(6) by auto
  let ?s = "s1\<lparr>memp := m\<rparr>"
  have "list_all (queue_elem sizes base ?s) q"
    unfolding list_all_iff
  proof
    fix x
    assume x: "x \<in> set q"
    obtain r' p' where rp: "x = (r', p')" by (cases x)
    then have n: "r' \<noteq> r" "p' \<noteq> p" using x new(1,2) by force+
    have "queue_elem sizes base s (r', p')" using qe(3) x rp by (simp add: list_all_iff)
    then show "queue_elem sizes base ?s x"
      unfolding rp by (rule queue_elem_upd) (simp_all add: s1(3) m(3) n)
  qed
  from Cons.IH [OF m(2) new(3,4) this] obtain s' where s': "free_q_loop q ?s = Some s'" "net_ok sizes base s'"
    "pbufs s' = pbufs ?s |` (- snd ` set q)" "bytes s' = bytes ?s" "net_state.more s' = net_state.more ?s"
    "memp_live sizes base (memp s') = memp_live sizes base (memp ?s) |` (- fst ` set q)"
    "mem_live (ram_heap s') = mem_live (ram_heap ?s) |` (- snd ` set q)" by blast
  have "pbufs s' = pbufs s |` (- snd ` set (e # q))" "memp_live sizes base (memp s') = memp_live sizes base (memp s) |` (- fst ` set (e # q))"
    "mem_live (ram_heap s') = mem_live (ram_heap s) |` (- snd ` set (e # q))"
    unfolding s'(3,6,7) e by (auto simp: restrict_map_def s1(3,7) m(3))
  then show ?case
    using s' s1 m(1) p0 by (intro exI [of _ s']) (simp add: e)
qed

lemma free_etharp_q_ok:
  assumes "net_ok sizes base s" and "distinct (map fst q)" and "distinct (map snd q)" and "list_all (queue_elem sizes base s) q" and "q \<noteq> []"
  shows "\<exists>s'. free_etharp_q q s = Some s' \<and> freed sizes base q s s' \<and> net_state.more s' = net_state.more s"
proof -
  have "snd (hd q) \<noteq> NULL"
    using assms(4,5) by (cases q) (auto simp: queue_elem_def queued_pbuf_def)
  then show ?thesis
    using free_q_loop_ok [OF assms(1-4)] assms(5) by (simp add: free_etharp_q_def)
qed

section \<open>The sweep of the table\<close>

text \<open>
  \<open>cand_ok P T i old age\<close>: among the first \<open>i\<close> entries of \<open>T\<close> the candidate \<open>old\<close> is one of the oldest that satisfy \<open>P\<close>,
  and there is none when it is \<open>ARP_TABLE_SIZE\<close>.
\<close>

definition cand_ok :: "(etharp_entry \<Rightarrow> bool) \<Rightarrow> etharp_entry list \<Rightarrow> nat \<Rightarrow> nat \<Rightarrow> u8_t \<Rightarrow> bool" where
  "cand_ok P T i old age \<longleftrightarrow> (if old = ARP_TABLE_SIZE then age = 0 \<and> (\<forall>j<i. \<not> P (T ! j))
     else old < i \<and> P (T ! old) \<and> arp_ctime (T ! old) = age \<and> (\<forall>j<i. P (T ! j) \<longrightarrow> arp_ctime (T ! j) \<le> age))"

lemma cand_ok_step:
  assumes "cand_ok P T i old age" and "i < ARP_TABLE_SIZE"
  shows "P (T ! i) \<Longrightarrow> age \<le> arp_ctime (T ! i) \<Longrightarrow> cand_ok P T (Suc i) i (arp_ctime (T ! i))"
    and "P (T ! i) \<Longrightarrow> \<not> age \<le> arp_ctime (T ! i) \<Longrightarrow> cand_ok P T (Suc i) old age"
    and "\<not> P (T ! i) \<Longrightarrow> cand_ok P T (Suc i) old age"
  using assms by (auto simp: cand_ok_def less_Suc_eq split: if_splits intro: order.trans)

definition is_pending :: "etharp_entry \<Rightarrow> bool" where
  "is_pending e \<longleftrightarrow> arp_state e = ETHARP_STATE_PENDING \<and> arp_q e = []"

definition is_queueing :: "etharp_entry \<Rightarrow> bool" where
  "is_queueing e \<longleftrightarrow> arp_state e = ETHARP_STATE_PENDING \<and> arp_q e \<noteq> []"

definition is_stable :: "etharp_entry \<Rightarrow> bool" where
  "is_stable e \<longleftrightarrow> arp_state e = ETHARP_STATE_STABLE"

definition is_empty :: "etharp_entry \<Rightarrow> bool" where
  "is_empty e \<longleftrightarrow> arp_state e = ETHARP_STATE_EMPTY"

definition scan_ok :: "etharp_entry list \<Rightarrow> nat \<Rightarrow> arp_scan \<Rightarrow> bool" where
  "scan_ok T i c \<longleftrightarrow> (if sc_empty c = ARP_TABLE_SIZE then \<forall>j<i. \<not> is_empty (T ! j) else sc_empty c < i \<and> is_empty (T ! sc_empty c))
     \<and> cand_ok is_pending T i (sc_old_pending c) (sc_age_pending c)
     \<and> cand_ok is_stable T i (sc_old_stable c) (sc_age_stable c)
     \<and> cand_ok is_queueing T i (sc_old_queue c) (sc_age_queue c)"

lemma scan_ok_init: "scan_ok T 0 scan_init"
  by (simp add: scan_ok_def scan_init_def cand_ok_def)

definition matches :: "u32_t option \<Rightarrow> etharp_entry \<Rightarrow> bool" where
  "matches ip e \<longleftrightarrow> arp_state e \<noteq> ETHARP_STATE_EMPTY \<and> ip = Some (arp_ipaddr e)"

text \<open>What each round of the sweep does with the candidates.\<close>

definition scan_step :: "nat \<Rightarrow> etharp_entry \<Rightarrow> arp_scan \<Rightarrow> arp_scan" where
  "scan_step i e c =
     (if is_empty e then (if sc_empty c = ARP_TABLE_SIZE then c\<lparr>sc_empty := i\<rparr> else c)
      else if is_queueing e then (if arp_ctime e \<ge> sc_age_queue c then c\<lparr>sc_old_queue := i, sc_age_queue := arp_ctime e\<rparr> else c)
      else if is_pending e then (if arp_ctime e \<ge> sc_age_pending c then c\<lparr>sc_old_pending := i, sc_age_pending := arp_ctime e\<rparr> else c)
      else (if arp_ctime e \<ge> sc_age_stable c then c\<lparr>sc_old_stable := i, sc_age_stable := arp_ctime e\<rparr> else c))"

lemma find_sweep_Cons:
  "find_sweep ip i (e # es) c = (if matches ip e then Inl i else find_sweep ip (Suc i) es (scan_step i e c))"
  by (cases "arp_state e") (auto simp: matches_def scan_step_def is_empty_def is_queueing_def is_pending_def)

lemma scan_ok_step:
  assumes "scan_ok T i c" and "i < ARP_TABLE_SIZE" and "e = T ! i"
  shows "scan_ok T (Suc i) (scan_step i e c)"
proof -
  have c: "cand_ok is_pending T i (sc_old_pending c) (sc_age_pending c)" "cand_ok is_stable T i (sc_old_stable c) (sc_age_stable c)"
    "cand_ok is_queueing T i (sc_old_queue c) (sc_age_queue c)"
    using assms(1) by (simp_all add: scan_ok_def)
  have e: "if sc_empty c = ARP_TABLE_SIZE then \<forall>j<i. \<not> is_empty (T ! j) else sc_empty c < i \<and> is_empty (T ! sc_empty c)"
    using assms(1) by (simp add: scan_ok_def)
  note st = cand_ok_step [OF c(1) assms(2)] cand_ok_step [OF c(2) assms(2)] cand_ok_step [OF c(3) assms(2)]
  consider "is_empty e" "\<not> is_queueing e" "\<not> is_pending e" "\<not> is_stable e" | "is_queueing e" "\<not> is_empty e" "\<not> is_pending e" "\<not> is_stable e"
    | "is_pending e" "\<not> is_queueing e" "\<not> is_empty e" "\<not> is_stable e" | "is_stable e" "\<not> is_queueing e" "\<not> is_pending e" "\<not> is_empty e"
    by (cases "arp_state e") (auto simp: is_empty_def is_queueing_def is_pending_def is_stable_def)
  then show ?thesis
  proof cases
    case 1
    then show ?thesis using st e assms(2,3) by (auto simp: scan_ok_def scan_step_def less_Suc_eq)
  qed (use st e assms(2,3) in \<open>auto simp: scan_ok_def scan_step_def less_Suc_eq\<close>)
qed

lemma find_sweep_Inl:
  "find_sweep ip i es c = Inl k \<Longrightarrow> i \<le> k \<and> k < i + length es \<and> matches ip (es ! (k - i))"
proof (induction es arbitrary: i c)
  case (Cons e es)
  then show ?case
    by (cases "matches ip e") (auto simp: find_sweep_Cons nth_Cons' Suc_diff_le simp del: find_sweep.simps(2) dest!: Cons.IH)
qed simp

lemma find_sweep_Inr:
  "find_sweep ip i es c = Inr c' \<Longrightarrow> scan_ok T i c \<Longrightarrow> es = drop i T \<Longrightarrow> length T = ARP_TABLE_SIZE \<Longrightarrow> i \<le> ARP_TABLE_SIZE
     \<Longrightarrow> scan_ok T ARP_TABLE_SIZE c' \<and> (\<forall>e\<in>set es. \<not> matches ip e)"
proof (induction es arbitrary: i c)
  case Nil
  then have "i = ARP_TABLE_SIZE" by simp
  then show ?case using Nil by simp
next
  case (Cons e es)
  have i: "i < ARP_TABLE_SIZE" using Cons.prems(3,4) by (metis drop_all leI list.distinct(1))
  have d: "e = T ! i" "es = drop (Suc i) T"
    using trans [OF Cons.prems(3) Cons_nth_drop_Suc [of i T, symmetric]] Cons.prems(4) i by simp_all
  have m: "\<not> matches ip e" and s: "find_sweep ip (Suc i) es (scan_step i e c) = Inr c'"
    using Cons.prems(1) unfolding find_sweep_Cons by (simp_all split: if_splits)
  then show ?case
    using Cons.IH [OF s scan_ok_step [OF Cons.prems(2) i d(1)] d(2) Cons.prems(4)] i by simp
qed

section \<open>Invariant\<close>

text \<open>
  Packets wait only on pending entries; the time stamps are below their limits; no address has two
  entries; every element of a queue is a live pool element with a packet of its own.
\<close>

definition entry_ok :: "etharp_entry \<Rightarrow> bool" where
  "entry_ok e \<longleftrightarrow> (arp_state e \<noteq> ETHARP_STATE_PENDING \<longrightarrow> arp_q e = []) \<and> length (arp_ethaddr e) = 6
     \<and> (arp_state e = ETHARP_STATE_STABLE \<longrightarrow> arp_ctime e < ARP_MAXAGE) \<and> (arp_state e = ETHARP_STATE_PENDING \<longrightarrow> arp_ctime e < ARP_MAXPENDING)"

definition queued :: "etharp_entry list \<Rightarrow> (addr \<times> addr) list" where
  "queued T = concat (map arp_q T)"

definition known_ips :: "etharp_entry list \<Rightarrow> u32_t list" where
  "known_ips T = map arp_ipaddr (filter (\<lambda>e. \<not> is_empty e) T)"

definition arp_ok :: "(memp_t \<Rightarrow> nat) \<Rightarrow> addr \<Rightarrow> 'a link_state_scheme \<Rightarrow> bool" where
  "arp_ok sizes base s \<longleftrightarrow> length (arp_table s) = ARP_TABLE_SIZE \<and> etharp_cached_entry s < ARP_TABLE_SIZE
     \<and> list_all entry_ok (arp_table s) \<and> distinct (known_ips (arp_table s))
     \<and> distinct (map fst (queued (arp_table s))) \<and> distinct (map snd (queued (arp_table s)))
     \<and> list_all (queue_elem sizes base s) (queued (arp_table s))"

definition link_ok :: "(memp_t \<Rightarrow> nat) \<Rightarrow> addr \<Rightarrow> 'a link_state_scheme \<Rightarrow> bool" where
  "link_ok sizes base s \<longleftrightarrow> net_ok sizes base s \<and> arp_ok sizes base s"

lemma image_disjointI: "(\<And>x. x \<in> A \<Longrightarrow> f x \<notin> B) \<Longrightarrow> f ` A \<inter> B = {}"
  by auto

lemma table_split:
  assumes "i < length T"
  obtains A B where "T = A @ T ! i # B" "length A = i" "\<And>e. T[i := e] = A @ e # B"
  using assms id_take_nth_drop [OF assms] upd_conv_take_nth_drop [OF assms] by (metis length_take min.absorb4)

lemma queued_simps: "queued (A @ e # B) = queued A @ arp_q e @ queued B"
  by (simp add: queued_def)

lemma known_ips_simps: "known_ips (A @ e # B) = known_ips A @ (if is_empty e then [] else [arp_ipaddr e]) @ known_ips B"
  by (simp add: known_ips_def)

lemma known_ips_matches: "ip \<in> set (known_ips T) \<longleftrightarrow> (\<exists>e\<in>set T. matches (Some ip) e)"
  by (auto simp: known_ips_def matches_def is_empty_def)

lemma arp_okD:
  assumes "arp_ok sizes base s" and "i < ARP_TABLE_SIZE"
  shows "entry_ok (arp_table s ! i)" and "distinct (map fst (arp_q (arp_table s ! i)))" and "distinct (map snd (arp_q (arp_table s ! i)))"
    and "list_all (queue_elem sizes base s) (arp_q (arp_table s ! i))" and "i < length (arp_table s)"
proof -
  show i: "i < length (arp_table s)" using assms by (simp add: arp_ok_def)
  then show "entry_ok (arp_table s ! i)" using assms(1) by (simp add: arp_ok_def list_all_length)
  obtain A B where T: "arp_table s = A @ arp_table s ! i # B" using table_split [OF i] by metis
  have "queued (arp_table s) = queued A @ arp_q (arp_table s ! i) @ queued B" by (subst T) (rule queued_simps)
  then show "distinct (map fst (arp_q (arp_table s ! i)))" "distinct (map snd (arp_q (arp_table s ! i)))"
    "list_all (queue_elem sizes base s) (arp_q (arp_table s ! i))"
    using assms(1) by (simp_all add: arp_ok_def)
qed

text \<open>
  Replacing one entry. Its address stays unique when the entry is empty, had the address before or
  nobody has it; the elements of its queue are old ones or new to the table.
\<close>

lemma arp_ok_update:
  assumes ok: "arp_ok sizes base s" and i: "i < ARP_TABLE_SIZE" and T: "arp_table s' = (arp_table s)[i := e]"
    and c: "etharp_cached_entry s' < ARP_TABLE_SIZE" and e: "entry_ok e"
    and ip: "is_empty e \<or> matches (Some (arp_ipaddr e)) (arp_table s ! i) \<or> (\<forall>x\<in>set (arp_table s). \<not> matches (Some (arp_ipaddr e)) x)"
    and d: "distinct (map fst (arp_q e))" "distinct (map snd (arp_q e))"
    and q: "\<forall>x\<in>set (arp_q e). x \<in> set (arp_q (arp_table s ! i)) \<or> fst x \<notin> fst ` set (queued (arp_table s)) \<and> snd x \<notin> snd ` set (queued (arp_table s))"
    and l: "list_all (queue_elem sizes base s') (queued (arp_table s'))"
  shows "arp_ok sizes base s'"
proof -
  have il: "i < length (arp_table s)" using ok i by (simp add: arp_ok_def)
  obtain A B where AB: "arp_table s = A @ arp_table s ! i # B" "length A = i" "\<And>e. (arp_table s)[i := e] = A @ e # B"
    using table_split [OF il] by metis
  let ?e = "arp_table s ! i"
  have s': "arp_table s' = A @ e # B" unfolding T by (rule AB(3))
  have Q: "queued (arp_table s) = queued A @ arp_q ?e @ queued B" by (subst AB(1)) (rule queued_simps)
  have K: "known_ips (arp_table s) = known_ips A @ (if is_empty ?e then [] else [arp_ipaddr ?e]) @ known_ips B"
    by (subst AB(1)) (rule known_ips_simps)
  have ent: "list_all entry_ok A" "list_all entry_ok B" and len: "length (arp_table s) = ARP_TABLE_SIZE"
  proof -
    have "list_all entry_ok (A @ ?e # B)" using ok unfolding AB(1) [symmetric] by (simp add: arp_ok_def)
    then show "list_all entry_ok A" "list_all entry_ok B" by simp_all
    show "length (arp_table s) = ARP_TABLE_SIZE" using ok by (simp add: arp_ok_def)
  qed
  have da: "distinct (map fst (queued A @ arp_q ?e @ queued B))" "distinct (map snd (queued A @ arp_q ?e @ queued B))"
    "distinct (known_ips A @ (if is_empty ?e then [] else [arp_ipaddr ?e]) @ known_ips B)"
    using ok unfolding arp_ok_def Q K by blast+
  have dj: "fst ` set (arp_q ?e) \<inter> fst ` set (queued A) = {}" "fst ` set (arp_q ?e) \<inter> fst ` set (queued B) = {}"
    "snd ` set (arp_q ?e) \<inter> snd ` set (queued A) = {}" "snd ` set (arp_q ?e) \<inter> snd ` set (queued B) = {}"
    using da(1,2) by auto
  have q': "\<forall>x\<in>set (arp_q e). fst x \<notin> fst ` set (queued A) \<and> fst x \<notin> fst ` set (queued B)
      \<and> snd x \<notin> snd ` set (queued A) \<and> snd x \<notin> snd ` set (queued B)"
  proof
    fix x
    assume "x \<in> set (arp_q e)"
    then consider "x \<in> set (arp_q ?e)" | "fst x \<notin> fst ` set (queued (arp_table s))" "snd x \<notin> snd ` set (queued (arp_table s))"
      using q by blast
    then show "fst x \<notin> fst ` set (queued A) \<and> fst x \<notin> fst ` set (queued B) \<and> snd x \<notin> snd ` set (queued A) \<and> snd x \<notin> snd ` set (queued B)"
    proof cases
      case 1
      then have "fst x \<in> fst ` set (arp_q ?e)" "snd x \<in> snd ` set (arp_q ?e)" by simp_all
      then show ?thesis
        using disjoint_iff [THEN iffD1, OF dj(1)] disjoint_iff [THEN iffD1, OF dj(2)]
          disjoint_iff [THEN iffD1, OF dj(3)] disjoint_iff [THEN iffD1, OF dj(4)] by metis
    next
      case 2
      then show ?thesis unfolding Q by (simp add: image_Un)
    qed
  qed
  have ff: "fst ` set (arp_q e) \<inter> fst ` set (queued A) = {}" "fst ` set (arp_q e) \<inter> fst ` set (queued B) = {}"
    "snd ` set (arp_q e) \<inter> snd ` set (queued A) = {}" "snd ` set (arp_q e) \<inter> snd ` set (queued B) = {}"
    using q' by (intro image_disjointI, simp)+
  have "distinct (map fst (queued (arp_table s')))" "distinct (map snd (queued (arp_table s')))"
    unfolding s' queued_simps using da(1,2) ff d by (simp_all add: Int_commute Int_Un_distrib)
  moreover have "distinct (known_ips (arp_table s'))"
  proof (cases "is_empty e")
    case True
    then show ?thesis unfolding s' known_ips_simps using da(3) by auto
  next
    case False
    then have "arp_ipaddr e \<notin> set (known_ips A)" "arp_ipaddr e \<notin> set (known_ips B)"
      using ip da(3) known_ips_matches [of "arp_ipaddr e" "arp_table s"] unfolding K
      by (auto simp: matches_def is_empty_def split: if_splits)
    then show ?thesis unfolding s' known_ips_simps using False da(3) by auto
  qed
  ultimately show ?thesis
    using c l e ent len unfolding arp_ok_def s' by (simp add: AB(2)) (use AB in \<open>metis add_Suc_right length_Cons length_append\<close>)
qed

section \<open>Lookup keeps the invariant\<close>

lemma net_ok_same:
  "net_ok sizes base s \<Longrightarrow> ram_heap s' = ram_heap s \<Longrightarrow> memp s' = memp s \<Longrightarrow> pbufs s' = pbufs s \<Longrightarrow> net_ok sizes base s'"
  by (simp add: net_ok_def)

lemma set_entry_simps [simp]:
  "arp_table (set_entry i f s) = (arp_table s)[i := f (arp_table s ! i)]" "etharp_cached_entry (set_entry i f s) = etharp_cached_entry s"
  "ram_heap (set_entry i f s) = ram_heap s" "memp (set_entry i f s) = memp s" "pbufs (set_entry i f s) = pbufs s" "bytes (set_entry i f s) = bytes s"
  "netifs (set_entry i f s) = netifs s" "tx (set_entry i f s) = tx s" "netif_list (set_entry i f s) = netif_list s"
  "netif_default (set_entry i f s) = netif_default s" "link_state.more (set_entry i f s) = link_state.more s"
  by (simp_all add: set_entry_def)

text \<open>The parts of the state that resolving addresses never changes.\<close>

definition ext_same :: "'a link_state_scheme \<Rightarrow> 'a link_state_scheme \<Rightarrow> bool" where
  "ext_same s s' \<longleftrightarrow> netifs s' = netifs s \<and> netif_list s' = netif_list s \<and> netif_default s' = netif_default s
     \<and> link_state.more s' = link_state.more s"

lemma ext_same_refl [simp]: "ext_same s s"
  by (simp add: ext_same_def)

lemma ext_same_trans: "ext_same s s' \<Longrightarrow> ext_same s' s'' \<Longrightarrow> ext_same s s''"
  by (simp add: ext_same_def)

lemma ext_same_more: "net_state.more s' = net_state.more s \<Longrightarrow> ext_same s s'" for s s' :: "'a link_state_scheme"
  unfolding ext_same_def by (intro conjI) (rule more_netif more_link, assumption)+

lemma entry_no_queue: "arp_q e = [] \<Longrightarrow> e\<lparr>arp_q := []\<rparr> = e"
  by (cases e) simp

lemma distinct_keys_apart:
  assumes "distinct (map f (xs @ ys @ zs))" and "x \<in> set (xs @ zs)"
  shows "f x \<notin> f ` set ys"
proof -
  have "f x \<in> f ` set xs \<union> f ` set zs" using assms(2) by auto
  moreover have "f ` set ys \<inter> (f ` set xs \<union> f ` set zs) = {}" using assms(1) by (simp add: Int_Un_distrib Int_commute)
  ultimately show ?thesis by (meson disjoint_iff)
qed

lemma queue_elem_released:
  assumes "queue_elem sizes base s x" and "released sizes base q s s'" and "fst x \<notin> fst ` set q" and "snd x \<notin> snd ` set q"
  shows "queue_elem sizes base s' x"
  using assms by (auto simp: queue_elem_def released_def queued_pbuf_def restrict_map_def split: prod.splits)

text \<open>Emptying entry \<open>i\<close>, whose queue was released, and giving it other contents without a queue.\<close>

lemma link_ok_recycle:
  assumes ok: "link_ok sizes base s" and i: "i < ARP_TABLE_SIZE" and f: "released sizes base (arp_q (arp_table s ! i)) s s1"
    and s': "ram_heap s' = ram_heap s1" "memp s' = memp s1" "pbufs s' = pbufs s1"
    and T: "arp_table s' = (arp_table s)[i := e]" and c: "etharp_cached_entry s' < ARP_TABLE_SIZE"
    and e: "entry_ok e" "arp_q e = []"
    and ip: "is_empty e \<or> matches (Some (arp_ipaddr e)) (arp_table s ! i) \<or> (\<forall>x\<in>set (arp_table s). \<not> matches (Some (arp_ipaddr e)) x)"
  shows "link_ok sizes base s'"
proof -
  have arp: "arp_ok sizes base s" using ok by (simp add: link_ok_def)
  note il = arp_okD(5) [OF arp i]
  obtain A B where AB: "arp_table s = A @ arp_table s ! i # B" "\<And>e. (arp_table s)[i := e] = A @ e # B"
    using table_split [OF il] by metis
  have Q: "queued (arp_table s) = queued A @ arp_q (arp_table s ! i) @ queued B" by (subst AB(1)) (rule queued_simps)
  have Q': "queued (arp_table s') = queued A @ queued B" unfolding T AB(2) queued_simps e(2) by simp
  have d: "distinct (map fst (queued A @ arp_q (arp_table s ! i) @ queued B))" "distinct (map snd (queued A @ arp_q (arp_table s ! i) @ queued B))"
    "list_all (queue_elem sizes base s) (queued A @ arp_q (arp_table s ! i) @ queued B)"
    using arp unfolding arp_ok_def Q by blast+
  have l: "list_all (queue_elem sizes base s') (queued (arp_table s'))"
    unfolding Q' list_all_iff
  proof
    fix x
    assume x: "x \<in> set (queued A @ queued B)"
    have "queue_elem sizes base s x" using x d(3) by (auto simp: list_all_iff)
    then have "queue_elem sizes base s1 x"
      by (rule queue_elem_released [OF _ f distinct_keys_apart [OF d(1) x] distinct_keys_apart [OF d(2) x]])
    then show "queue_elem sizes base s' x" using s' by (simp add: queue_elem_def)
  qed
  have "arp_ok sizes base s'"
    by (rule arp_ok_update [OF arp i T c e(1) ip _ _ _ l]) (simp_all add: e(2))
  moreover have "net_ok sizes base s1" using f unfolding released_def by blast
  then have "net_ok sizes base s'" by (rule net_ok_same [OF _ s'])
  ultimately show ?thesis by (simp add: link_ok_def)
qed

text \<open>The preference of the code: an empty entry, else the oldest of the least important kind.\<close>

definition oldest :: "(etharp_entry \<Rightarrow> bool) \<Rightarrow> etharp_entry list \<Rightarrow> nat \<Rightarrow> bool" where
  "oldest P T i \<longleftrightarrow> P (T ! i) \<and> (\<forall>x\<in>set T. P x \<longrightarrow> arp_ctime x \<le> arp_ctime (T ! i))"

definition recycles :: "etharp_entry list \<Rightarrow> nat \<Rightarrow> bool" where
  "recycles T i \<longleftrightarrow> (if \<exists>x\<in>set T. is_empty x then is_empty (T ! i)
     else if \<exists>x\<in>set T. is_stable x then oldest is_stable T i
     else if \<exists>x\<in>set T. is_pending x then oldest is_pending T i
     else oldest is_queueing T i)"

lemma cand_ok_all:
  assumes "length T = ARP_TABLE_SIZE"
  shows "cand_ok P T ARP_TABLE_SIZE old age \<longleftrightarrow>
    (if old = ARP_TABLE_SIZE then age = 0 \<and> \<not> (\<exists>x\<in>set T. P x) else old < ARP_TABLE_SIZE \<and> arp_ctime (T ! old) = age \<and> oldest P T old)"
proof -
  have "(\<exists>x\<in>set T. Q x) \<longleftrightarrow> (\<exists>j<ARP_TABLE_SIZE. Q (T ! j))" "(\<forall>x\<in>set T. Q x) \<longleftrightarrow> (\<forall>j<ARP_TABLE_SIZE. Q (T ! j))" for Q
    unfolding assms [symmetric] by (auto simp: set_conv_nth)
  then show ?thesis by (auto simp: cand_ok_def oldest_def)
qed

lemma entry_kinds: "is_empty e \<or> is_stable e \<or> is_pending e \<or> is_queueing e"
  by (cases "arp_state e") (auto simp: is_empty_def is_stable_def is_pending_def is_queueing_def)

lemma find_select_ok:
  assumes ok: "link_ok sizes base s" and c: "scan_ok (arp_table s) ARP_TABLE_SIZE c"
  shows "\<exists>i s1. find_select c s = Some (Some i, s1) \<and> i < ARP_TABLE_SIZE \<and> recycles (arp_table s) i
    \<and> freed sizes base (arp_q (arp_table s ! i)) s s1
    \<and> arp_table s1 = (arp_table s)[i := (arp_table s ! i)\<lparr>arp_q := []\<rparr>] \<and> etharp_cached_entry s1 = etharp_cached_entry s
    \<and> ext_same s s1 \<and> tx s1 = tx s"
proof -
  let ?T = "arp_table s"
  have arp: "arp_ok sizes base s" and net: "net_ok sizes base s" using ok by (simp_all add: link_ok_def)
  have len: "length ?T = ARP_TABLE_SIZE" using arp by (simp add: arp_ok_def)
  have cs: "cand_ok is_pending ?T ARP_TABLE_SIZE (sc_old_pending c) (sc_age_pending c)" "cand_ok is_stable ?T ARP_TABLE_SIZE (sc_old_stable c) (sc_age_stable c)"
    "cand_ok is_queueing ?T ARP_TABLE_SIZE (sc_old_queue c) (sc_age_queue c)"
    and ce: "if sc_empty c = ARP_TABLE_SIZE then \<not> (\<exists>x\<in>set ?T. is_empty x) else sc_empty c < ARP_TABLE_SIZE \<and> is_empty (?T ! sc_empty c)"
    using c len by (auto simp: scan_ok_def in_set_conv_nth split: if_splits)
  note cs = cs [unfolded cand_ok_all [OF len]]
  have noq: "find_select c s = Some (Some i, s) \<Longrightarrow> i < ARP_TABLE_SIZE \<Longrightarrow> recycles ?T i \<Longrightarrow> arp_q (?T ! i) = [] \<Longrightarrow> ?thesis" for i
    using freed_Nil [OF net] len
    by (intro exI [of _ i] exI [of _ s] conjI) (simp_all add: entry_no_queue list_update_same_conv)
  have q0: "arp_q (?T ! i) = []" if "i < ARP_TABLE_SIZE" "is_empty (?T ! i) \<or> is_stable (?T ! i)" for i
    using arp_okD(1) [OF arp that(1)] that(2) by (auto simp: entry_ok_def is_empty_def is_stable_def)
  have ne: "?T \<noteq> []" using len by (auto simp: ARP_TABLE_SIZE_def)
  consider (empty) "sc_empty c < ARP_TABLE_SIZE" "is_empty (?T ! sc_empty c)"
    | (stable) "sc_empty c = ARP_TABLE_SIZE" "\<not> (\<exists>x\<in>set ?T. is_empty x)" "sc_old_stable c < ARP_TABLE_SIZE" "oldest is_stable ?T (sc_old_stable c)"
    | (pending) "sc_empty c = ARP_TABLE_SIZE" "\<not> (\<exists>x\<in>set ?T. is_empty x)" "sc_old_stable c = ARP_TABLE_SIZE" "\<not> (\<exists>x\<in>set ?T. is_stable x)"
        "sc_old_pending c < ARP_TABLE_SIZE" "oldest is_pending ?T (sc_old_pending c)"
    | (queue) "sc_empty c = ARP_TABLE_SIZE" "\<not> (\<exists>x\<in>set ?T. is_empty x)" "sc_old_stable c = ARP_TABLE_SIZE" "\<not> (\<exists>x\<in>set ?T. is_stable x)"
        "sc_old_pending c = ARP_TABLE_SIZE" "\<not> (\<exists>x\<in>set ?T. is_pending x)"
        "sc_old_queue c < ARP_TABLE_SIZE" "oldest is_queueing ?T (sc_old_queue c)"
    | (none) "\<not> (\<exists>x\<in>set ?T. is_empty x)" "\<not> (\<exists>x\<in>set ?T. is_stable x)" "\<not> (\<exists>x\<in>set ?T. is_pending x)" "\<not> (\<exists>x\<in>set ?T. is_queueing x)"
    using ce cs by (simp split: if_splits)
  then show ?thesis
  proof cases
    case empty
    then have "\<exists>x\<in>set ?T. is_empty x" using len by (metis nth_mem)
    then show ?thesis using empty by (intro noq [of "sc_empty c"]) (simp_all add: find_select_def recycles_def q0)
  next
    case stable
    then have s: "is_stable (?T ! sc_old_stable c)" by (simp add: oldest_def)
    then have "\<exists>x\<in>set ?T. is_stable x" using stable(3) len by (metis nth_mem)
    then show ?thesis using stable s by (intro noq [of "sc_old_stable c"]) (simp_all add: find_select_def recycles_def q0)
  next
    case pending
    then have s: "is_pending (?T ! sc_old_pending c)" by (simp add: oldest_def)
    then have "\<exists>x\<in>set ?T. is_pending x" using pending(5) len by (metis nth_mem)
    then show ?thesis using pending s by (intro noq [of "sc_old_pending c"]) (simp_all add: find_select_def recycles_def is_pending_def)
  next
    case queue
    let ?i = "sc_old_queue c"
    have "arp_q (?T ! ?i) \<noteq> []" using queue(8) by (simp add: oldest_def is_queueing_def)
    then obtain s1 where s1: "free_etharp_q (arp_q (?T ! ?i)) s = Some s1" "freed sizes base (arp_q (?T ! ?i)) s s1"
      "net_state.more s1 = net_state.more s"
      using free_etharp_q_ok [OF net arp_okD(2-4) [OF arp queue(7)]] by blast
    note m = more_netif [OF s1(3)] more_link [OF s1(3)]
    have "freed sizes base (arp_q (?T ! ?i)) s (set_entry ?i (\<lambda>e. e\<lparr>arp_q := []\<rparr>) s1)"
      using s1(2) net_ok_same [of sizes base s1 "set_entry ?i (\<lambda>e. e\<lparr>arp_q := []\<rparr>) s1"] by (simp add: freed_def)
    then show ?thesis
      using queue s1(1) m
      by (intro exI [of _ ?i] exI [of _ "set_entry ?i (\<lambda>e. e\<lparr>arp_q := []\<rparr>) s1"]) (simp add: find_select_def recycles_def ext_same_def)
  next
    case none
    then show ?thesis using ne entry_kinds by (metis list.set_sel(1))
  qed
qed

text \<open>
  \<open>find_entry\<close> with an address. A match is returned and nothing but the cache index changes. Without a match
  it fails, changing nothing, when it may only search or must not recycle and no entry is empty;
  else it hands out an entry that is empty now, with the queue it had released.
\<close>

definition fresh_entry :: "u32_t \<Rightarrow> etharp_entry \<Rightarrow> etharp_entry" where
  "fresh_entry a e = e\<lparr>arp_q := [], arp_state := ETHARP_STATE_EMPTY, arp_ipaddr := a, arp_ctime := 0\<rparr>"

definition find_post :: "(memp_t \<Rightarrow> nat) \<Rightarrow> addr \<Rightarrow> u32_t \<Rightarrow> u8_t \<Rightarrow> 'a link_state_scheme \<Rightarrow> err_t + nat \<Rightarrow> 'a link_state_scheme \<Rightarrow> bool" where
  "find_post sizes base a fl s r s' \<longleftrightarrow>
     (if \<exists>x\<in>set (arp_table s). matches (Some a) x
      then \<exists>i<ARP_TABLE_SIZE. r = Inr i \<and> matches (Some a) (arp_table s ! i) \<and> s' = s\<lparr>etharp_cached_entry := i\<rparr>
      else if fl AND ETHARP_FIND_ONLY \<noteq> 0 \<or> fl AND ETHARP_TRY_HARD = 0 \<and> \<not> (\<exists>x\<in>set (arp_table s). is_empty x)
      then r = Inl ERR_MEM \<and> s' = s
      else \<exists>i<ARP_TABLE_SIZE. r = Inr i \<and> recycles (arp_table s) i \<and> freed sizes base (arp_q (arp_table s ! i)) s s'
        \<and> arp_table s' = (arp_table s)[i := fresh_entry a (arp_table s ! i)] \<and> etharp_cached_entry s' = i)"

lemma find_entry_ok:
  assumes ok: "link_ok sizes base s"
  shows "\<exists>r s'. find_entry (Some a) fl s = Some (r, s') \<and> link_ok sizes base s' \<and> ext_same s s' \<and> tx s' = tx s
    \<and> find_post sizes base a fl s r s'"
proof -
  let ?T = "arp_table s"
  have arp: "arp_ok sizes base s" and net: "net_ok sizes base s" using ok by (simp_all add: link_ok_def)
  have len: "length ?T = ARP_TABLE_SIZE" and ci: "etharp_cached_entry s < ARP_TABLE_SIZE" using arp by (simp_all add: arp_ok_def)
  have match: "find_entry (Some a) fl s = Some (Inr i, s\<lparr>etharp_cached_entry := i\<rparr>) \<Longrightarrow> i < ARP_TABLE_SIZE \<Longrightarrow> matches (Some a) (?T ! i) \<Longrightarrow> ?thesis" for i
  proof -
    assume i: "find_entry (Some a) fl s = Some (Inr i, s\<lparr>etharp_cached_entry := i\<rparr>)" "i < ARP_TABLE_SIZE" "matches (Some a) (?T ! i)"
    have "\<exists>x\<in>set ?T. matches (Some a) x" using i(2,3) len by (metis nth_mem)
    moreover have "link_ok sizes base (s\<lparr>etharp_cached_entry := i\<rparr>)"
      using ok i(2) by (simp add: link_ok_def arp_ok_def net_ok_def queue_elem_def)
    ultimately show ?thesis
      using i by (intro exI [of _ "Inr i"] exI [of _ "s\<lparr>etharp_cached_entry := i\<rparr>"]) (auto simp: find_post_def ext_same_def)
  qed
  show ?thesis
  proof (cases "arp_state (?T ! etharp_cached_entry s) = ETHARP_STATE_STABLE \<and> a = arp_ipaddr (?T ! etharp_cached_entry s)")
    case True
    then show ?thesis using ci by (intro match [of "etharp_cached_entry s"]) (simp_all add: find_entry_def matches_def)
  next
    case False
    show ?thesis
    proof (cases "find_sweep (Some a) 0 ?T scan_init")
      case (Inl i)
      then have "find_entry (Some a) fl s = Some (Inr i, s\<lparr>etharp_cached_entry := i\<rparr>)" using False by (auto simp: find_entry_def Let_def)
      then show ?thesis using find_sweep_Inl [OF Inl] len by (intro match) auto
    next
      case (Inr c)
      then have c: "scan_ok ?T ARP_TABLE_SIZE c" and nm: "\<not> (\<exists>x\<in>set ?T. matches (Some a) x)"
        using find_sweep_Inr [OF Inr scan_ok_init] len by simp_all
      have em: "sc_empty c = ARP_TABLE_SIZE \<longleftrightarrow> \<not> (\<exists>x\<in>set ?T. is_empty x)"
        using c len by (auto simp: scan_ok_def set_conv_nth split: if_splits)
      show ?thesis
      proof (cases "fl AND ETHARP_FIND_ONLY \<noteq> 0 \<or> fl AND ETHARP_TRY_HARD = 0 \<and> \<not> (\<exists>x\<in>set ?T. is_empty x)")
        case True
        then have "find_entry (Some a) fl s = Some (Inl ERR_MEM, s)" using False Inr em by (auto simp: find_entry_def Let_def)
        then show ?thesis using ok nm True by (intro exI [of _ "Inl ERR_MEM"] exI [of _ s]) (simp add: find_post_def)
      next
        case go: False
        obtain i s1 where s1: "find_select c s = Some (Some i, s1)" "i < ARP_TABLE_SIZE" "recycles ?T i" "freed sizes base (arp_q (?T ! i)) s s1"
          "arp_table s1 = ?T[i := (?T ! i)\<lparr>arp_q := []\<rparr>]" "ext_same s s1" "tx s1 = tx s"
          using find_select_ok [OF ok c] by blast
        let ?s = "(set_entry i (\<lambda>e. e\<lparr>arp_ctime := 0\<rparr>) (set_entry i (\<lambda>e. e\<lparr>arp_ipaddr := a\<rparr>)
            (set_entry i (\<lambda>e. e\<lparr>arp_state := ETHARP_STATE_EMPTY\<rparr>) s1)))\<lparr>etharp_cached_entry := i\<rparr>"
        have run: "find_entry (Some a) fl s = Some (Inr i, ?s)"
          using False Inr em go s1(1,2) by (auto simp: find_entry_def Let_def)
        have T: "arp_table ?s = ?T[i := fresh_entry a (?T ! i)]"
          using s1(2,5) len by (simp add: fresh_entry_def)
        have fr: "freed sizes base (arp_q (?T ! i)) s ?s"
          using s1(4) net_ok_same [of sizes base s1 ?s] by (simp add: freed_def)
        have "entry_ok (fresh_entry a (?T ! i))"
          using arp_okD(1) [OF arp s1(2)] by (simp add: entry_ok_def fresh_entry_def)
        then have "link_ok sizes base ?s"
          using s1(2) by (intro link_ok_recycle [OF ok s1(2) freed_released [OF s1(4)] _ _ _ T]) (simp_all add: fresh_entry_def is_empty_def)
        then show ?thesis
          using run T fr s1(2,3,6,7) nm go by (intro exI [of _ "Inr i"] exI [of _ ?s]) (simp add: find_post_def ext_same_def)
      qed
    qed
  qed
qed

section \<open>The timer\<close>

text \<open>Changing an entry without its queue.\<close>

lemma link_ok_set:
  assumes ok: "link_ok sizes base s" and i: "i < ARP_TABLE_SIZE" and e: "entry_ok (f (arp_table s ! i))" "arp_q (f (arp_table s ! i)) = arp_q (arp_table s ! i)"
    and ip: "is_empty (f (arp_table s ! i)) \<or> matches (Some (arp_ipaddr (f (arp_table s ! i)))) (arp_table s ! i)
      \<or> (\<forall>x\<in>set (arp_table s). \<not> matches (Some (arp_ipaddr (f (arp_table s ! i)))) x)"
  shows "link_ok sizes base (set_entry i f s)"
proof -
  have arp: "arp_ok sizes base s" and net: "net_ok sizes base s" using ok by (simp_all add: link_ok_def)
  note d = arp_okD [OF arp i]
  obtain A B where AB: "arp_table s = A @ arp_table s ! i # B" "\<And>e. (arp_table s)[i := e] = A @ e # B"
    using table_split [OF d(5)] by metis
  have "queued (arp_table s) = queued A @ arp_q (arp_table s ! i) @ queued B" by (subst AB(1)) (rule queued_simps)
  then have "queued ((arp_table s)[i := f (arp_table s ! i)]) = queued (arp_table s)" unfolding AB(2) queued_simps e(2) by simp
  then have "list_all (queue_elem sizes base (set_entry i f s)) (queued (arp_table (set_entry i f s)))"
    using arp by (simp add: arp_ok_def queue_elem_def)
  then have "arp_ok sizes base (set_entry i f s)"
    using arp d e by (intro arp_ok_update [OF arp i _ _ e(1) ip]) (simp_all add: arp_ok_def)
  moreover have "net_ok sizes base (set_entry i f s)" by (rule net_ok_same [OF net]) simp_all
  ultimately show ?thesis by (simp add: link_ok_def)
qed

definition etharp_tick :: "etharp_entry \<Rightarrow> etharp_entry" where
  "etharp_tick e = (let e = e\<lparr>arp_ctime := arp_ctime e + 1\<rparr> in
     if etharp_expired e then e\<lparr>arp_q := [], arp_state := ETHARP_STATE_EMPTY\<rparr> else e)"

definition etharp_gone :: "etharp_entry \<Rightarrow> (addr \<times> addr) list" where
  "etharp_gone e = (if etharp_expired (e\<lparr>arp_ctime := arp_ctime e + 1\<rparr>) then arp_q e else [])"

lemma entry_ok_tick: "entry_ok e \<Longrightarrow> entry_ok (etharp_tick e)"
  by (auto simp: entry_ok_def etharp_tick_def etharp_expired_def Let_def)

lemma etharp_tmr_entry_ok:
  assumes ok: "link_ok sizes base s" and i: "i < ARP_TABLE_SIZE"
  shows "\<exists>s'. etharp_tmr_entry i s = Some s' \<and> link_ok sizes base s' \<and> ext_same s s' \<and> tx s' = tx s \<and> etharp_cached_entry s' = etharp_cached_entry s
    \<and> arp_table s' = (arp_table s)[i := etharp_tick (arp_table s ! i)] \<and> freed sizes base (etharp_gone (arp_table s ! i)) s s'"
proof -
  have arp: "arp_ok sizes base s" and net: "net_ok sizes base s" using ok by (simp_all add: link_ok_def)
  note d = arp_okD [OF arp i]
  let ?e = "arp_table s ! i"
  let ?f = "\<lambda>e. e\<lparr>arp_ctime := arp_ctime e + 1\<rparr> :: etharp_entry"
  let ?s = "set_entry i ?f s"
  have T: "arp_table ?s ! i = ?f ?e" using d(5) by simp
  have net1: "net_ok sizes base ?s" by (rule net_ok_same [OF net]) simp_all
  show ?thesis
  proof (cases "etharp_expired (?f ?e)")
    case False
    then have t: "etharp_tick ?e = ?f ?e" "etharp_gone ?e = []" by (simp_all add: etharp_tick_def etharp_gone_def)
    have "link_ok sizes base ?s"
    proof (rule link_ok_set [OF ok i])
      show "entry_ok (?f ?e)" using entry_ok_tick [OF d(1)] t(1) by simp
      show "is_empty (?f ?e) \<or> matches (Some (arp_ipaddr (?f ?e))) ?e \<or> (\<forall>x\<in>set (arp_table s). \<not> matches (Some (arp_ipaddr (?f ?e))) x)"
        by (auto simp: is_empty_def matches_def)
    qed simp
    moreover have "etharp_tmr_entry i s = Some ?s" using False T by (simp add: etharp_tmr_entry_def Let_def)
    moreover have "freed sizes base [] s ?s" using net1 by (simp add: freed_def)
    ultimately show ?thesis unfolding t by (intro exI [of _ ?s]) (simp add: ext_same_def)
  next
    case True
    then have t: "etharp_tick ?e = (?f ?e)\<lparr>arp_q := [], arp_state := ETHARP_STATE_EMPTY\<rparr>" "etharp_gone ?e = arp_q ?e"
      by (simp_all add: etharp_tick_def etharp_gone_def)
    let ?g = "\<lambda>s1. set_entry i (\<lambda>e. e\<lparr>arp_state := ETHARP_STATE_EMPTY\<rparr>) s1"
    have "\<exists>s1. (if arp_q ?e \<noteq> [] then do { s \<leftarrow> free_etharp_q (arp_q ?e) ?s; Some (set_entry i (\<lambda>e. e\<lparr>arp_q := []\<rparr>) s) } else Some ?s) = Some s1
        \<and> freed sizes base (arp_q ?e) s s1 \<and> ext_same s s1 \<and> tx s1 = tx s \<and> etharp_cached_entry s1 = etharp_cached_entry s
        \<and> arp_table s1 = (arp_table s)[i := (?f ?e)\<lparr>arp_q := []\<rparr>]"
    proof (cases "arp_q ?e = []")
      case True
      have E: "(?f ?e)\<lparr>arp_q := []\<rparr> = ?f ?e" using True by (intro entry_no_queue) simp
      show ?thesis unfolding E using True net1 by (simp add: freed_def ext_same_def)
    next
      case False
      have "list_all (queue_elem sizes base ?s) (arp_q ?e)" using d(4) by (simp add: queue_elem_def)
      then obtain s1 where s1: "free_etharp_q (arp_q ?e) ?s = Some s1" "freed sizes base (arp_q ?e) ?s s1" "net_state.more s1 = net_state.more ?s"
        using free_etharp_q_ok [OF net1 d(2,3) _ False] by blast
      note m = ext_same_more [OF s1(3)] more_link(1,2) [OF s1(3)] more_netif(4) [OF s1(3)]
      have "freed sizes base (arp_q ?e) s (set_entry i (\<lambda>e. e\<lparr>arp_q := []\<rparr>) s1)"
        using s1(2) net_ok_same [of sizes base s1 "set_entry i (\<lambda>e. e\<lparr>arp_q := []\<rparr>) s1"] by (simp add: freed_def)
      then show ?thesis
        using False s1(1) m d(5) by (intro exI [of _ "set_entry i (\<lambda>e. e\<lparr>arp_q := []\<rparr>) s1"]) (simp add: ext_same_def)
    qed
    then obtain s1 where s1: "(if arp_q ?e \<noteq> [] then do { s \<leftarrow> free_etharp_q (arp_q ?e) ?s; Some (set_entry i (\<lambda>e. e\<lparr>arp_q := []\<rparr>) s) } else Some ?s) = Some s1"
      "freed sizes base (arp_q ?e) s s1" "ext_same s s1" "tx s1 = tx s" "etharp_cached_entry s1 = etharp_cached_entry s"
      "arp_table s1 = (arp_table s)[i := (?f ?e)\<lparr>arp_q := []\<rparr>]" by blast
    have run: "etharp_tmr_entry i s = Some (?g s1)"
      using True T s1(1) by (cases "arp_q ?e = []") (auto simp: etharp_tmr_entry_def Let_def split: bind_splits)
    have T': "arp_table (?g s1) = (arp_table s)[i := etharp_tick ?e]" using d(5) by (simp add: s1(6) t)
    have "link_ok sizes base (?g s1)"
      using arp s1(5) entry_ok_tick [OF d(1)]
      by (intro link_ok_recycle [OF ok i freed_released [OF s1(2)] _ _ _ T']) (simp_all add: arp_ok_def t is_empty_def)
    moreover have "freed sizes base (arp_q ?e) s (?g s1)"
      using s1(2) net_ok_same [of sizes base s1 "?g s1"] by (simp add: freed_def)
    ultimately show ?thesis
      using run T' s1(3-5) unfolding t(2) by (intro exI [of _ "?g s1"]) (simp add: ext_same_def)
  qed
qed

lemma freed_trans:
  assumes "freed sizes base q s s1" and "freed sizes base q' s1 s2"
  shows "freed sizes base (q @ q') s s2"
  using assms by (simp add: freed_def image_Un Int_commute)

lemma etharp_tmr_loop_ok:
  assumes "link_ok sizes base s" and "distinct is" and "\<forall>i\<in>set is. i < ARP_TABLE_SIZE"
  shows "\<exists>s'. etharp_tmr_loop is s = Some s' \<and> link_ok sizes base s' \<and> ext_same s s' \<and> tx s' = tx s \<and> etharp_cached_entry s' = etharp_cached_entry s
    \<and> (\<forall>i<ARP_TABLE_SIZE. arp_table s' ! i = (if i \<in> set is then etharp_tick (arp_table s ! i) else arp_table s ! i))
    \<and> freed sizes base (concat (map (\<lambda>i. etharp_gone (arp_table s ! i)) is)) s s'"
  using assms
proof (induction "is" arbitrary: s)
  case Nil
  then show ?case by (simp add: freed_Nil link_ok_def)
next
  case (Cons i "is")
  have i: "i < ARP_TABLE_SIZE" using Cons.prems(3) by simp
  obtain s1 where s1: "etharp_tmr_entry i s = Some s1" "link_ok sizes base s1" "ext_same s s1" "tx s1 = tx s" "etharp_cached_entry s1 = etharp_cached_entry s"
    "arp_table s1 = (arp_table s)[i := etharp_tick (arp_table s ! i)]" "freed sizes base (etharp_gone (arp_table s ! i)) s s1"
    using etharp_tmr_entry_ok [OF Cons.prems(1) i] by blast
  have len: "length (arp_table s) = ARP_TABLE_SIZE" using Cons.prems(1) by (simp add: link_ok_def arp_ok_def)
  obtain s' where s': "etharp_tmr_loop is s1 = Some s'" "link_ok sizes base s'" "ext_same s1 s'" "tx s' = tx s1" "etharp_cached_entry s' = etharp_cached_entry s1"
    "\<forall>i<ARP_TABLE_SIZE. arp_table s' ! i = (if i \<in> set is then etharp_tick (arp_table s1 ! i) else arp_table s1 ! i)"
    "freed sizes base (concat (map (\<lambda>i. etharp_gone (arp_table s1 ! i)) is)) s1 s'"
    using Cons.IH [OF s1(2)] Cons.prems(2,3) by auto
  have g: "map (\<lambda>i. etharp_gone (arp_table s1 ! i)) is = map (\<lambda>i. etharp_gone (arp_table s ! i)) is"
    using Cons.prems(2) by (intro map_cong refl) (metis distinct.simps(2) nth_list_update_neq s1(6))
  have "freed sizes base (concat (map (\<lambda>i. etharp_gone (arp_table s ! i)) (i # is))) s s'"
    using freed_trans [OF s1(7) s'(7)] unfolding g by simp
  moreover have "\<forall>j<ARP_TABLE_SIZE. arp_table s' ! j = (if j \<in> set (i # is) then etharp_tick (arp_table s ! j) else arp_table s ! j)"
  proof (intro allI impI)
    fix j
    assume j: "j < ARP_TABLE_SIZE"
    show "arp_table s' ! j = (if j \<in> set (i # is) then etharp_tick (arp_table s ! j) else arp_table s ! j)"
    proof (cases "j = i")
      case True
      then show ?thesis using s'(6) j Cons.prems(2) len by (simp add: s1(6))
    next
      case False
      then have "arp_table s1 ! j = arp_table s ! j" by (simp add: s1(6))
      then show ?thesis using s'(6) j False by simp
    qed
  qed
  ultimately show ?case
    using s1(1,4,5) s'(1,2,4,5) ext_same_trans [OF s1(3) s'(3)] by (intro exI [of _ s']) simp
qed

lemma etharp_tmr_ok:
  assumes "link_ok sizes base s"
  shows "\<exists>s'. etharp_tmr s = Some s' \<and> link_ok sizes base s' \<and> ext_same s s' \<and> tx s' = tx s
    \<and> arp_table s' = map etharp_tick (arp_table s) \<and> freed sizes base (concat (map etharp_gone (arp_table s))) s s'"
proof -
  have len: "length (arp_table s) = ARP_TABLE_SIZE" using assms by (simp add: link_ok_def arp_ok_def)
  obtain s' where s': "etharp_tmr s = Some s'" "link_ok sizes base s'" "ext_same s s'" "tx s' = tx s"
    "\<forall>i<ARP_TABLE_SIZE. arp_table s' ! i = etharp_tick (arp_table s ! i)"
    "freed sizes base (concat (map (\<lambda>i. etharp_gone (arp_table s ! i)) [0..<ARP_TABLE_SIZE])) s s'"
    using etharp_tmr_loop_ok [OF assms, of "[0..<ARP_TABLE_SIZE]"] by (auto simp: etharp_tmr_def)
  have len': "length (arp_table s') = ARP_TABLE_SIZE" using s'(2) by (simp add: link_ok_def arp_ok_def)
  have "map (\<lambda>i. etharp_gone (arp_table s ! i)) [0..<ARP_TABLE_SIZE] = map etharp_gone (arp_table s)"
    unfolding len [symmetric] by (rule nth_equalityI) simp_all
  moreover have "arp_table s' = map etharp_tick (arp_table s)"
    using s'(5) len len' by (intro nth_equalityI) simp_all
  ultimately show ?thesis using s'(1-4,6) by auto
qed

section \<open>Sending frames\<close>

definition eth_header :: "u8_t list \<Rightarrow> u8_t list \<Rightarrow> u16_t \<Rightarrow> u8_t list" where
  "eth_header dst src ty = dst @ src @ le16 (htons ty)"

lemma length_le16 [simp]: "length (le16 w) = 2"
  by (simp add: le16_def)

lemma length_le32 [simp]: "length (le32 w) = 4"
  by (simp add: le32_def)

definition eth_netif :: "(addr \<rightharpoonup> netif) \<Rightarrow> addr \<Rightarrow> netif \<Rightarrow> bool" where
  "eth_netif N p n \<longleftrightarrow> N p = Some n \<and> p \<noteq> NULL \<and> nif_hwaddr_len n = 6 \<and> length (nif_hwaddr n) = 6"

lemma etharp_send_ip_ok:
  assumes ok: "net_ok sizes base s" and pk: "packet (pbufs s) p xs" "owned (pbufs s) xs" "plen (pbufs s) xs \<le> 1514" "14 \<le> pfield (pbufs s) len p"
    and n: "eth_netif (netifs s) netif n" and l: "length src = 6" "length dst = 6"
  shows "\<exists>d. etharp_send_ip netif p src dst s =
      Some (ERR_OK, s\<lparr>bytes := d, tx := tx s @ [(netif, eth_header dst src ETHTYPE_IP @ drop 14 (chain_data s xs))]\<rparr>)
    \<and> unchanged_outside (pbufs s) [p] (bytes s) d \<and> chain_data (s\<lparr>bytes := d\<rparr>) xs = eth_header dst src ETHTYPE_IP @ drop 14 (chain_data s xs)"
proof -
  obtain b ys where b: "xs = p # ys" "pbufs s p = Some b" "p \<notin> set ys" using packet_head [OF pk(1)] by blast
  let ?h = "eth_header dst src ETHTYPE_IP"
  let ?d = "poke (payload b) ?h (bytes s)"
  have lh: "length ?h = 14" "14 \<le> len b" using l pk(4) b(2) by (simp_all add: eth_header_def)
  have d: "poke (payload b + 12) (le16 (htons ETHTYPE_IP)) (poke (payload b + 6) src (poke (payload b) dst (bytes s))) = ?d"
    using poke_append [of "payload b" dst src "bytes s"] poke_append [of "payload b" "dst @ src" "le16 (htons ETHTYPE_IP)" "bytes s"] l
    by (simp add: eth_header_def)
  have cl: "clear_of (pbufs s) ys (payload b) (len b)" using owned_clear [OF ok _ b(3,2)] pk(2) b(1) by simp
  note pp = poke_payload [OF b(2), of 0 ?h ys, simplified, OF _ cl]
  have cd: "chain_data (s\<lparr>bytes := ?d\<rparr>) xs = ?h @ drop 14 (chain_data s xs)"
  proof -
    have "drop 14 (chain_data s xs) = drop 14 (pbuf_data s p) @ chain_data s ys" using lh(2) b(1,2) by simp
    then show ?thesis using pp(1,2) lh b(1) by (simp add: overlay_def)
  qed
  have un: "unchanged_outside (pbufs s) [p] (bytes s) ?d"
    using poke_payload(3) [OF b(2), of 0 ?h "[]"] lh by (simp add: clear_of_def)
  have "low_level_output netif p (s\<lparr>bytes := ?d\<rparr>) = Some (ERR_OK, s\<lparr>bytes := ?d, tx := tx s @ [(netif, ?h @ drop 14 (chain_data s xs))]\<rparr>)"
    using low_level_output_ok [of "s\<lparr>bytes := ?d\<rparr>" p xs netif] pk(1,3) by (simp add: cd)
  then show ?thesis
    using b(2) n l un cd unfolding etharp_send_ip_def by (intro exI [of _ ?d]) (simp add: eth_netif_def Let_def d etharp_consts)
qed

lemma queued_owned: "queued_pbuf P p \<Longrightarrow> owned P [p]"
  by (auto simp: queued_pbuf_def owned_def split: option.splits)

lemma queued_data_unchanged:
  assumes "net_ok sizes base s" and "queued_pbuf (pbufs s) p" and "queued_pbuf (pbufs s) p'" and "p \<noteq> p'"
    and "unchanged_outside (pbufs s) [p] (bytes s) d"
  shows "peek d (pfield (pbufs s) payload p') (pfield (pbufs s) len p') = pbuf_data s p'"
proof -
  obtain b' where b': "pbufs s p' = Some b'" using assms(3) by (auto simp: queued_pbuf_def split: option.splits)
  have "owned (pbufs s) [p', p]" using queued_owned [OF assms(2)] queued_owned [OF assms(3)] by (simp add: owned_def)
  then have "clear_of (pbufs s) [p] (payload b') (len b')" using owned_clear [OF assms(1) _ _ b'] assms(4) by simp
  then show ?thesis using assms(5) b' by (simp add: unchanged_outside_def pbuf_data_peek)
qed

definition queue_frames :: "addr \<Rightarrow> u8_t list \<Rightarrow> u8_t list \<Rightarrow> 'a net_state_scheme \<Rightarrow> (addr \<times> addr) list \<Rightarrow> (addr \<times> u8_t list) list" where
  "queue_frames netif dst src s q = map (\<lambda>(r, p). (netif, eth_header dst src ETHTYPE_IP @ drop 14 (pbuf_data s p))) q"

text \<open>\<open>sent sizes base q s s'\<close>: the queue \<open>q\<close> was released and only bytes of its packets changed.\<close>

definition sent :: "(memp_t \<Rightarrow> nat) \<Rightarrow> addr \<Rightarrow> (addr \<times> addr) list \<Rightarrow> 'a net_state_scheme \<Rightarrow> 'a net_state_scheme \<Rightarrow> bool" where
  "sent sizes base q s s' \<longleftrightarrow> released sizes base q s s' \<and> unchanged_outside (pbufs s) (map snd q) (bytes s) (bytes s')"

lemma unchanged_outside_refl [simp]: "unchanged_outside P xs d d"
  by (simp add: unchanged_outside_def)

lemma freed_sent: "freed sizes base q s s' \<Longrightarrow> sent sizes base q s s'"
  by (simp add: freed_def sent_def released_def)

lemma arp_send_step:
  fixes s :: "'a link_state_scheme"
  assumes ok: "net_ok sizes base s" and i: "i < length (arp_table s)" and q: "arp_q (arp_table s ! i) = (r, p) # q"
    and e: "queue_elem sizes base s (r, p)" and n: "eth_netif (netifs s) netif n" and l: "length ethaddr = 6"
  shows "\<exists>s'. arp_send_queue netif i ethaddr s = arp_send_queue netif i ethaddr s' \<and> net_ok sizes base s'
    \<and> arp_table s' = (arp_table s)[i := (arp_table s ! i)\<lparr>arp_q := q\<rparr>] \<and> etharp_cached_entry s' = etharp_cached_entry s \<and> ext_same s s'
    \<and> tx s' = tx s @ queue_frames netif ethaddr (nif_hwaddr n) s [(r, p)] \<and> pbufs s' = (pbufs s)(p := None)
    \<and> memp_live sizes base (memp s') = (memp_live sizes base (memp s))(r := None)
    \<and> mem_live (ram_heap s') = (mem_live (ram_heap s))(p := None)
    \<and> unchanged_outside (pbufs s) [p] (bytes s) (bytes s')"
proof -
  let ?s1 = "set_entry i (\<lambda>x. x\<lparr>arp_q := q\<rparr>) s"
  have e: "memp_live sizes base (memp s) r = Some MEMP_ARP_QUEUE" "queued_pbuf (pbufs s) p" using e by (simp_all add: queue_elem_def)
  have "net_ok sizes base ?s1" by (rule net_ok_same [OF ok]) simp_all
  then obtain m where m: "memp_release MEMP_ARP_QUEUE r ?s1 = Some (?s1\<lparr>memp := m\<rparr>)" "net_ok sizes base (?s1\<lparr>memp := m\<rparr>)"
    "memp_live sizes base m = (memp_live sizes base (memp s))(r := None)"
    using memp_release_ok [of sizes base ?s1 r MEMP_ARP_QUEUE] e(1) by auto
  let ?s2 = "?s1\<lparr>memp := m\<rparr>"
  obtain b where b: "pbufs s p = Some b" using e(2) by (auto simp: queued_pbuf_def split: option.splits)
  have pd: "pbuf_data ?s2 p = pbuf_data s p" using b by (simp add: pbuf_data_def)
  have l14: "14 \<le> pfield (pbufs s) len p" using e(2) by (auto simp: queued_pbuf_def split: option.splits)
  obtain d where d: "etharp_send_ip netif p (nif_hwaddr n) ethaddr ?s2 =
      Some (ERR_OK, ?s2\<lparr>bytes := d, tx := tx s @ [(netif, eth_header ethaddr (nif_hwaddr n) ETHTYPE_IP @ drop 14 (pbuf_data s p))]\<rparr>)"
    "unchanged_outside (pbufs s) [p] (bytes s) d"
    using etharp_send_ip_ok [OF m(2), of p "[p]" netif n "nif_hwaddr n" ethaddr] queued_packet [OF e(2)] queued_owned [OF e(2)] l14 n l
    by (auto simp: eth_netif_def pd)
  let ?s3 = "?s2\<lparr>bytes := d, tx := tx s @ [(netif, eth_header ethaddr (nif_hwaddr n) ETHTYPE_IP @ drop 14 (pbuf_data s p))]\<rparr>"
  have ok3: "net_ok sizes base ?s3" by (rule net_ok_same [OF m(2)]) simp_all
  then obtain s4 where s4: "pbuf_free p ?s3 = Some (1, s4)" "net_ok sizes base s4" "pbufs s4 = (pbufs ?s3)(p := None)" "bytes s4 = bytes ?s3"
    "net_state.more s4 = net_state.more ?s3" "memp_live sizes base (memp s4) = memp_live sizes base (memp ?s3)"
    "mem_live (ram_heap s4) = (mem_live (ram_heap ?s3))(p := None)"
    using free_queued [OF ok3, of p] e(2) by auto
  note x = more_netif(4) [OF s4(5)] more_link(1,2) [OF s4(5)] ext_same_more [OF s4(5)]
  have "arp_send_queue netif i ethaddr s = arp_send_queue netif i ethaddr s4"
    using q m(1) d(1) s4(1) n by (subst arp_send_queue.simps) (simp add: eth_netif_def Let_def)
  moreover have "ext_same s s4" using x(4) by (simp add: ext_same_def)
  ultimately show ?thesis
    using s4 x m(3) d(2) by (intro exI [of _ s4]) (simp add: queue_frames_def)
qed

lemma arp_send_queue_ok:
  fixes s :: "'a link_state_scheme"
  assumes "net_ok sizes base s" and "i < length (arp_table s)" and "arp_q (arp_table s ! i) = q"
    and "distinct (map fst q)" and "distinct (map snd q)" and "list_all (queue_elem sizes base s) q"
    and "eth_netif (netifs s) netif n" and "length ethaddr = 6"
  shows "\<exists>s'. arp_send_queue netif i ethaddr s = Some s' \<and> sent sizes base q s s'
    \<and> arp_table s' = (arp_table s)[i := (arp_table s ! i)\<lparr>arp_q := []\<rparr>] \<and> etharp_cached_entry s' = etharp_cached_entry s \<and> ext_same s s'
    \<and> tx s' = tx s @ queue_frames netif ethaddr (nif_hwaddr n) s q"
  using assms
proof (induction q arbitrary: s)
  case Nil
  then have "(arp_table s)[i := (arp_table s ! i)\<lparr>arp_q := []\<rparr>] = arp_table s" by (simp add: entry_no_queue list_update_same_conv)
  then show ?case
    using Nil by (subst arp_send_queue.simps) (simp add: sent_def released_def queue_frames_def)
next
  case (Cons x q)
  obtain r p where x: "x = (r, p)" by (cases x)
  have e: "queue_elem sizes base s (r, p)" "list_all (queue_elem sizes base s) q" using Cons.prems(6) x by simp_all
  obtain s1 where s1: "arp_send_queue netif i ethaddr s = arp_send_queue netif i ethaddr s1" "net_ok sizes base s1"
    "arp_table s1 = (arp_table s)[i := (arp_table s ! i)\<lparr>arp_q := q\<rparr>]" "etharp_cached_entry s1 = etharp_cached_entry s" "ext_same s s1"
    "tx s1 = tx s @ queue_frames netif ethaddr (nif_hwaddr n) s [(r, p)]" "pbufs s1 = (pbufs s)(p := None)"
    "memp_live sizes base (memp s1) = (memp_live sizes base (memp s))(r := None)"
    "mem_live (ram_heap s1) = (mem_live (ram_heap s))(p := None)" "unchanged_outside (pbufs s) [p] (bytes s) (bytes s1)"
    using arp_send_step [OF Cons.prems(1,2) Cons.prems(3) [unfolded x] e(1) Cons.prems(7,8)] by blast
  have new: "r \<notin> fst ` set q" "p \<notin> snd ` set q" "distinct (map fst q)" "distinct (map snd q)" using Cons.prems(4,5) by (simp_all add: x)
  have ne: "r' \<noteq> r" "p' \<noteq> p" if "(r', p') \<in> set q" for r' p' using that new(1,2) by force+
  have q1: "list_all (queue_elem sizes base s1) q"
    unfolding list_all_iff
  proof
    fix y
    assume y: "y \<in> set q"
    obtain r' p' where rp: "y = (r', p')" by (cases y)
    have "queue_elem sizes base s (r', p')" using e(2) y rp by (simp add: list_all_iff)
    then show "queue_elem sizes base s1 y" unfolding rp by (rule queue_elem_upd) (use ne [of r' p'] y rp in \<open>simp_all add: s1(7,8)\<close>)
  qed
  have q': "arp_q (arp_table s1 ! i) = q" "i < length (arp_table s1)" using Cons.prems(2) by (simp_all add: s1(3))
  have n1: "eth_netif (netifs s1) netif n" using Cons.prems(7) s1(5) by (simp add: ext_same_def)
  obtain s' where s': "arp_send_queue netif i ethaddr s1 = Some s'" "sent sizes base q s1 s'"
    "arp_table s' = (arp_table s1)[i := (arp_table s1 ! i)\<lparr>arp_q := []\<rparr>]" "etharp_cached_entry s' = etharp_cached_entry s1" "ext_same s1 s'"
    "tx s' = tx s1 @ queue_frames netif ethaddr (nif_hwaddr n) s1 q"
    using Cons.IH [OF s1(2) q'(2,1) new(3,4) q1 n1 Cons.prems(8)] by blast
  have data: "pbuf_data s1 p' = pbuf_data s p'" if y: "(r', p') \<in> set q" for r' p'
  proof -
    have qp: "queued_pbuf (pbufs s) p" "queued_pbuf (pbufs s) p'" using e y by (auto simp: queue_elem_def list_all_iff)
    obtain b' where "pbufs s p' = Some b'" using qp(2) by (auto simp: queued_pbuf_def split: option.splits)
    then show ?thesis
      using queued_data_unchanged [OF Cons.prems(1) qp ne(2) [OF y, symmetric] s1(10)] ne(2) [OF y] by (simp add: pbuf_data_peek s1(7))
  qed
  have "queue_frames netif ethaddr (nif_hwaddr n) s1 q = queue_frames netif ethaddr (nif_hwaddr n) s q"
    unfolding queue_frames_def by (rule map_cong [OF refl]) (auto simp: data)
  then have tx: "tx s' = tx s @ queue_frames netif ethaddr (nif_hwaddr n) s (x # q)"
    using s'(6) s1(6) by (simp add: queue_frames_def x)
  have "clear_of (pbufs s1) (map snd q) c k" if "clear_of (pbufs s) (map snd (x # q)) c k" for c k
    using that new(2) unfolding clear_of_def list_all_iff by (auto simp: x s1(7))
  then have un: "unchanged_outside (pbufs s) (map snd (x # q)) (bytes s) (bytes s')"
    using s1(10) s'(2) by (auto simp: sent_def unchanged_outside_def x clear_of_def)
  have "sent sizes base (x # q) s s'"
    using s'(2) un unfolding sent_def released_def s1(7-9) by (auto simp: x restrict_map_def)
  then show ?case
    using s1 s'(1,3-5) tx ext_same_trans [OF s1(5) s'(5)] Cons.prems(2) by (intro exI [of _ s']) simp
qed

section \<open>Updating the table\<close>

definition non_unicast :: "u32_t \<Rightarrow> netif \<Rightarrow> bool" where
  "non_unicast a n \<longleftrightarrow> ip_addr_isany a \<or> ip_addr_isbroadcast a n \<or> ip_addr_ismulticast a"

definition known :: "u32_t \<Rightarrow> etharp_entry list \<Rightarrow> bool" where
  "known a T \<longleftrightarrow> (\<exists>x\<in>set T. matches (Some a) x)"

definition resolved_entry :: "addr \<Rightarrow> u32_t \<Rightarrow> u8_t list \<Rightarrow> etharp_entry" where
  "resolved_entry netif a ethaddr =
     \<lparr>arp_q = [], arp_ipaddr = a, arp_ethaddr = ethaddr, arp_state = ETHARP_STATE_STABLE, arp_ctime = 0, arp_netif = netif\<rparr>"

definition update_post ::
  "(memp_t \<Rightarrow> nat) \<Rightarrow> addr \<Rightarrow> addr \<Rightarrow> netif \<Rightarrow> u32_t \<Rightarrow> u8_t list \<Rightarrow> u8_t \<Rightarrow> 'a link_state_scheme \<Rightarrow> err_t \<Rightarrow> 'a link_state_scheme \<Rightarrow> bool" where
  "update_post sizes base netif n a ethaddr fl s e s' \<longleftrightarrow>
     (if non_unicast a n then e = ERR_ARG \<and> s' = s
      else if \<not> known a (arp_table s) \<and> fl AND ETHARP_TRY_HARD = 0 \<and> \<not> (\<exists>x\<in>set (arp_table s). is_empty x) then e = ERR_MEM \<and> s' = s
      else e = ERR_OK \<and> (\<exists>i<ARP_TABLE_SIZE. arp_table s' = (arp_table s)[i := resolved_entry netif a ethaddr]
        \<and> sent sizes base (arp_q (arp_table s ! i)) s s'
        \<and> (if known a (arp_table s)
           then matches (Some a) (arp_table s ! i) \<and> tx s' = tx s @ queue_frames netif ethaddr (nif_hwaddr n) s (arp_q (arp_table s ! i))
           else recycles (arp_table s) i \<and> tx s' = tx s)))"

lemma update_entry_send:
  fixes s :: "'a link_state_scheme"
  assumes net: "net_ok sizes base s" and i: "i < length (arp_table s)" and q: "distinct (map fst (arp_q (arp_table s ! i)))" "distinct (map snd (arp_q (arp_table s ! i)))"
    "list_all (queue_elem sizes base s) (arp_q (arp_table s ! i))"
    and n: "eth_netif (netifs s) netif n" and l: "length ethaddr = 6"
  shows "\<exists>s'. arp_send_queue netif i ethaddr
      (set_entry i (\<lambda>e. e\<lparr>arp_state := ETHARP_STATE_STABLE, arp_netif := netif, arp_ethaddr := take ETHARP_HWADDR_LEN ethaddr, arp_ctime := 0\<rparr>) s) = Some s'
    \<and> arp_table s' = (arp_table s)[i := resolved_entry netif (arp_ipaddr (arp_table s ! i)) ethaddr]
    \<and> etharp_cached_entry s' = etharp_cached_entry s \<and> ext_same s s' \<and> sent sizes base (arp_q (arp_table s ! i)) s s'
    \<and> tx s' = tx s @ queue_frames netif ethaddr (nif_hwaddr n) s (arp_q (arp_table s ! i))"
proof -
  let ?e = "arp_table s ! i"
  let ?s = "set_entry i (\<lambda>e. e\<lparr>arp_state := ETHARP_STATE_STABLE, arp_netif := netif, arp_ethaddr := take ETHARP_HWADDR_LEN ethaddr, arp_ctime := 0\<rparr>) s"
  have "net_ok sizes base ?s" by (rule net_ok_same [OF net]) simp_all
  moreover have "list_all (queue_elem sizes base ?s) (arp_q ?e)" using q(3) by (simp add: queue_elem_def)
  ultimately obtain s' where s': "arp_send_queue netif i ethaddr ?s = Some s'" "sent sizes base (arp_q ?e) ?s s'"
    "arp_table s' = (arp_table ?s)[i := (arp_table ?s ! i)\<lparr>arp_q := []\<rparr>]" "etharp_cached_entry s' = etharp_cached_entry ?s" "ext_same ?s s'"
    "tx s' = tx ?s @ queue_frames netif ethaddr (nif_hwaddr n) ?s (arp_q ?e)"
    using arp_send_queue_ok [of sizes base ?s i "arp_q ?e" netif n ethaddr] i q(1,2) n l by auto
  have "queue_frames netif ethaddr (nif_hwaddr n) ?s (arp_q ?e) = queue_frames netif ethaddr (nif_hwaddr n) s (arp_q ?e)"
    by (simp add: queue_frames_def pbuf_data_def cong: option.case_cong)
  moreover have "(arp_table ?s ! i)\<lparr>arp_q := []\<rparr> = resolved_entry netif (arp_ipaddr ?e) ethaddr"
    using i l by (simp add: resolved_entry_def etharp_consts)
  ultimately show ?thesis
    using s' by (intro exI [of _ s']) (simp add: ext_same_def sent_def released_def)
qed

lemma known_entry: "known a T \<longleftrightarrow> (\<exists>i<length T. matches (Some a) (T ! i))"
  by (auto simp: known_def set_conv_nth)

lemma entry_ok_resolved: "length ethaddr = 6 \<Longrightarrow> entry_ok (resolved_entry netif a ethaddr)"
  by (simp add: entry_ok_def resolved_entry_def etharp_consts)

lemma update_arp_entry_ok:
  fixes s :: "'a link_state_scheme"
  assumes ok: "link_ok sizes base s" and n: "eth_netif (netifs s) netif n" and l: "length ethaddr = 6" and fl: "fl AND ETHARP_FIND_ONLY = 0"
  shows "\<exists>e s'. update_arp_entry netif a ethaddr fl s = Some (e, s') \<and> link_ok sizes base s' \<and> ext_same s s'
    \<and> update_post sizes base netif n a ethaddr fl s e s'"
proof (cases "non_unicast a n")
  case True
  then show ?thesis
    using n ok by (simp add: update_arp_entry_def eth_netif_def etharp_consts non_unicast_def update_post_def)
next
  case uni: False
  let ?T = "arp_table s"
  obtain r s1 where r: "find_entry (Some a) fl s = Some (r, s1)" "link_ok sizes base s1" "ext_same s s1" "tx s1 = tx s" "find_post sizes base a fl s r s1"
    using find_entry_ok [OF ok, of a fl] by blast
  have run: "update_arp_entry netif a ethaddr fl s = (case r of Inl e \<Rightarrow> Some (e, s1)
      | Inr i \<Rightarrow> do { s \<leftarrow> arp_send_queue netif i ethaddr (set_entry i (\<lambda>e. e\<lparr>arp_state := ETHARP_STATE_STABLE, arp_netif := netif,
                arp_ethaddr := take ETHARP_HWADDR_LEN ethaddr, arp_ctime := 0\<rparr>) s1); Some (ERR_OK, s) })"
    using n uni r(1) by (simp add: update_arp_entry_def eth_netif_def etharp_consts non_unicast_def split: sum.split)
  have n1: "eth_netif (netifs s1) netif n" using n r(3) by (simp add: ext_same_def)
  have arp: "arp_ok sizes base s" "arp_ok sizes base s1" and net1: "net_ok sizes base s1" using ok r(2) by (simp_all add: link_ok_def)
  show ?thesis
  proof (cases r)
    case (Inl e)
    then have "e = ERR_MEM" "s1 = s" "\<not> known a ?T" "fl AND ETHARP_TRY_HARD = 0" "\<not> (\<exists>x\<in>set ?T. is_empty x)"
      using r(5) fl unfolding find_post_def known_def by (auto split: if_splits)
    then show ?thesis using Inl run ok uni by (simp add: update_post_def)
  next
    case (Inr i)
    have i: "i < ARP_TABLE_SIZE" and q: "\<not> (\<not> known a ?T \<and> fl AND ETHARP_TRY_HARD = 0 \<and> \<not> (\<exists>x\<in>set ?T. is_empty x))"
      using r(5) Inr unfolding find_post_def known_def by (auto split: if_splits)
    note d = arp_okD [OF arp(2) i]
    obtain s' where s': "arp_send_queue netif i ethaddr (set_entry i (\<lambda>e. e\<lparr>arp_state := ETHARP_STATE_STABLE, arp_netif := netif,
                arp_ethaddr := take ETHARP_HWADDR_LEN ethaddr, arp_ctime := 0\<rparr>) s1) = Some s'"
      "arp_table s' = (arp_table s1)[i := resolved_entry netif (arp_ipaddr (arp_table s1 ! i)) ethaddr]"
      "etharp_cached_entry s' = etharp_cached_entry s1" "ext_same s1 s'" "sent sizes base (arp_q (arp_table s1 ! i)) s1 s'"
      "tx s' = tx s1 @ queue_frames netif ethaddr (nif_hwaddr n) s1 (arp_q (arp_table s1 ! i))"
      using update_entry_send [OF net1 d(5,2-4) n1 l] by blast
    have ip: "arp_ipaddr (arp_table s1 ! i) = a"
      using r(5) Inr d(5) unfolding find_post_def by (auto simp: matches_def fresh_entry_def split: if_splits)
    have T: "arp_table s' = ?T[i := resolved_entry netif a ethaddr]"
      using r(5) Inr unfolding s'(2) ip find_post_def by (auto split: if_splits)
    have snt: "sent sizes base (arp_q (?T ! i)) s s' \<and> (if known a ?T
           then matches (Some a) (?T ! i) \<and> tx s' = tx s @ queue_frames netif ethaddr (nif_hwaddr n) s (arp_q (?T ! i))
           else recycles ?T i \<and> tx s' = tx s)"
    proof (cases "known a ?T")
      case True
      then have "s1 = s\<lparr>etharp_cached_entry := i\<rparr>" "matches (Some a) (?T ! i)" using r(5) Inr unfolding find_post_def known_def by auto
      moreover have "queue_frames netif ethaddr (nif_hwaddr n) (s\<lparr>etharp_cached_entry := i\<rparr>) q = queue_frames netif ethaddr (nif_hwaddr n) s q" for q
        by (simp add: queue_frames_def pbuf_data_def cong: option.case_cong)
      ultimately show ?thesis using True s'(5,6) by (simp add: sent_def released_def)
    next
      case False
      then have f: "recycles ?T i" "freed sizes base (arp_q (?T ! i)) s s1" "arp_table s1 = ?T[i := fresh_entry a (?T ! i)]"
        using r(5) Inr unfolding find_post_def known_def by (auto split: if_splits)
      then have "arp_q (arp_table s1 ! i) = []" using d(5) by (simp add: fresh_entry_def)
      then have "sent sizes base [] s1 s'" "tx s' = tx s1" using s'(5,6) by (simp_all add: queue_frames_def)
      then have "sent sizes base (arp_q (?T ! i)) s s'"
        using f(2) by (simp add: sent_def released_def freed_def unchanged_outside_def clear_of_def)
      then show ?thesis using False f(1) \<open>tx s' = tx s1\<close> r(4) by simp
    qed
    have "link_ok sizes base s'"
    proof (rule link_ok_recycle [OF ok i _ refl refl refl T])
      show "released sizes base (arp_q (?T ! i)) s s'" using snt by (simp add: sent_def)
      show "etharp_cached_entry s' < ARP_TABLE_SIZE" using s'(3) arp(2) by (simp add: arp_ok_def)
      show "entry_ok (resolved_entry netif a ethaddr)" by (rule entry_ok_resolved [OF l])
      show "is_empty (resolved_entry netif a ethaddr) \<or> matches (Some (arp_ipaddr (resolved_entry netif a ethaddr))) (?T ! i)
          \<or> (\<forall>x\<in>set ?T. \<not> matches (Some (arp_ipaddr (resolved_entry netif a ethaddr))) x)"
        using snt by (auto simp: resolved_entry_def known_def split: if_splits)
    qed (simp add: resolved_entry_def)
    then show ?thesis
      using run Inr s'(1) uni q T snt i ext_same_trans [OF r(3) s'(4)]
      by (intro exI [of _ ERR_OK] exI [of _ s']) (auto simp: update_post_def)
  qed
qed
end
