(* ===== verification/Etharp_Correct.thy ===== *)
theory Etharp_Correct
  imports Etharp
begin

text \<open>
  Correctness of the operations of \<^verbatim>\<open>lwip/src/netif/etharp.c\<close> that send: ARP requests and replies,
  the resolution of an address for an outgoing packet with its queue, and the properties of the whole component.
\<close>

section \<open>ARP requests\<close>

definition arp_frame :: "u8_t list \<Rightarrow> u8_t list \<Rightarrow> u16_t \<Rightarrow> u8_t list \<Rightarrow> u32_t \<Rightarrow> u8_t list \<Rightarrow> u32_t \<Rightarrow> u8_t list" where
  "arp_frame ethdst ethsrc opcode hwsrc ipsrc hwdst ipdst =
     eth_header ethdst ethsrc ETHTYPE_ARP @ le16 (htons 1) @ le16 (htons ETHTYPE_IP) @ le16 (htons 0x0604) @ le16 (htons opcode)
       @ hwsrc @ le32 ipsrc @ hwdst @ le32 ipdst"

lemma peek_poke_at: "c = a \<Longrightarrow> length v = n \<Longrightarrow> peek (poke c v d) a n = v"
  using peek_poke_same by simp

lemma peek_frame:
  "peek d a 42 = peek d a 6 @ peek d (a + 6) 6 @ peek d (a + 12) 2 @ peek d (a + 14) 2 @ peek d (a + 16) 2 @ peek d (a + 18) 2
     @ peek d (a + 20) 2 @ peek d (a + 22) 6 @ peek d (a + 28) 4 @ peek d (a + 32) 6 @ peek d (a + 38) 4"
proof -
  have "peek d a (6 + (6 + (2 + (2 + (2 + (2 + (2 + (6 + (4 + (6 + 4)))))))))) = peek d a 6 @ peek d (a + 6) 6 @ peek d (a + 12) 2 @ peek d (a + 14) 2
     @ peek d (a + 16) 2 @ peek d (a + 18) 2 @ peek d (a + 20) 2 @ peek d (a + 22) 6 @ peek d (a + 28) 4 @ peek d (a + 32) 6 @ peek d (a + 38) 4"
    unfolding peek_add by (simp add: ac_simps)
  then show ?thesis by simp
qed

lemma arp_packet_bytes_frame:
  assumes "length ethsrc = 6" and "length ethdst = 6" and "length hwsrc = 6" and "length hwdst = 6"
  shows "peek (arp_packet_bytes a ethsrc ethdst hwsrc ipsrc hwdst ipdst opcode d) a 42 = arp_frame ethdst ethsrc opcode hwsrc ipsrc hwdst ipdst"
    and "writes_within a 42 d (arp_packet_bytes a ethsrc ethdst hwsrc ipsrc hwdst ipdst opcode d)"
  using assms unfolding peek_frame arp_packet_bytes_def Let_def arp_frame_def eth_header_def
  by (simp_all add: etharp_consts peek_poke_apart peek_poke_at writes_within_poke)

lemma fresh_alloc_ram:
  assumes "net_ok sizes base s" and "24 + layer_offset layer + k < 65536"
  shows "\<exists>p s1. pbuf_alloc layer k PBUF_RAM s = Some (p, s1) \<and> net_ok sizes base s1 \<and> bytes s1 = bytes s \<and> net_state.more s1 = net_state.more s
    \<and> memp_live sizes base (memp s1) = memp_live sizes base (memp s)
    \<and> (if p = NULL then pbufs s1 = pbufs s \<and> mem_live (ram_heap s1) = mem_live (ram_heap s)
       else packet (pbufs s1) p [p] \<and> plen (pbufs s1) [p] = k \<and> pool_kind (pbufs s1) PBUF_RAM [p] \<and> pbufs s p = None
        \<and> (\<forall>x. x \<noteq> p \<longrightarrow> pbufs s1 x = pbufs s x) \<and> mem_live (ram_heap s1) |` (- {p}) = mem_live (ram_heap s)
        \<and> pfield (pbufs s1) payload p = p + (24 + layer_offset layer))"
proof -
  obtain p xs s1 where a: "pbuf_alloc layer k PBUF_RAM s = Some (p, s1)" "net_ok sizes base s1" "bytes s1 = bytes s" "net_state.more s1 = net_state.more s"
    "alloc_post sizes base layer k PBUF_RAM s p xs s1"
    using pbuf_alloc_ok [OF assms(1), of k PBUF_RAM layer] assms(2) by (auto simp: lwip_simps)
  have "on_heap (pbufs s1) [p] = {p} \<and> in_pool (pbufs s1) [p] = {}" if "pool_kind (pbufs s1) PBUF_RAM [p]"
    using that by (auto simp: pool_kind_def on_heap_def in_pool_def)
  then show ?thesis
    using a by (intro exI [of _ p] exI [of _ s1]) (auto simp: alloc_post_def lwip_simps)
qed

text \<open>Freeing a pbuf that was just allocated on the heap.\<close>

lemma free_fresh_ram:
  assumes "net_ok sizes base s1" and "packet (pbufs s1) p [p]" and "pool_kind (pbufs s1) PBUF_RAM [p]"
  shows "\<exists>s'. pbuf_free p s1 = Some (1, s') \<and> net_ok sizes base s' \<and> pbufs s' = (pbufs s1)(p := None) \<and> bytes s' = bytes s1
    \<and> net_state.more s' = net_state.more s1 \<and> memp_live sizes base (memp s') = memp_live sizes base (memp s1)
    \<and> mem_live (ram_heap s') = mem_live (ram_heap s1) |` (- {p})"
proof -
  have "on_heap (pbufs s1) [p] = {p}" "in_pool (pbufs s1) [p] = {}" using assms(3) by (auto simp: pool_kind_def on_heap_def in_pool_def)
  then show ?thesis
    using pbuf_free_sole [OF assms(1), of p "[p]"] assms(2) pool_kind_sole [OF assms(3)] by (auto simp: packet_def restrict_complement_singleton_eq)
qed

definition tx_only :: "'a link_state_scheme \<Rightarrow> 'a link_state_scheme \<Rightarrow> bool" where
  "tx_only s s' \<longleftrightarrow> ext_same s s' \<and> arp_table s' = arp_table s \<and> etharp_cached_entry s' = etharp_cached_entry s"

definition same_memory :: "(memp_t \<Rightarrow> nat) \<Rightarrow> addr \<Rightarrow> 'a net_state_scheme \<Rightarrow> 'a net_state_scheme \<Rightarrow> bool" where
  "same_memory sizes base s s' \<longleftrightarrow> net_ok sizes base s' \<and> pbufs s' = pbufs s \<and> data_kept s s'
     \<and> memp_live sizes base (memp s') = memp_live sizes base (memp s) \<and> mem_live (ram_heap s') = mem_live (ram_heap s)"

lemma etharp_request_ok:
  fixes s :: "'a link_state_scheme"
  assumes ok: "net_ok sizes base s" and n: "eth_netif (netifs s) netif n"
  shows "\<exists>e s'. etharp_request netif a s = Some (e, s') \<and> same_memory sizes base s s' \<and> tx_only s s'
    \<and> (e = ERR_MEM \<and> tx s' = tx s
       \<or> e = ERR_OK \<and> tx s' = tx s @ [(netif, arp_frame ethbroadcast (nif_hwaddr n) 1 (nif_hwaddr n) (nif_ip_addr n) ethzero a)])"
proof -
  let ?hw = "nif_hwaddr n"
  obtain p s1 where a: "pbuf_alloc PBUF_RAW 42 PBUF_RAM s = Some (p, s1)" "net_ok sizes base s1" "bytes s1 = bytes s" "net_state.more s1 = net_state.more s"
    "memp_live sizes base (memp s1) = memp_live sizes base (memp s)" and
    a': "if p = NULL then pbufs s1 = pbufs s \<and> mem_live (ram_heap s1) = mem_live (ram_heap s)
       else packet (pbufs s1) p [p] \<and> plen (pbufs s1) [p] = 42 \<and> pool_kind (pbufs s1) PBUF_RAM [p] \<and> pbufs s p = None
        \<and> (\<forall>x. x \<noteq> p \<longrightarrow> pbufs s1 x = pbufs s x) \<and> mem_live (ram_heap s1) |` (- {p}) = mem_live (ram_heap s)"
    using fresh_alloc_ram [OF ok, of PBUF_RAW 42] by (fastforce simp: lwip_simps split: if_splits)
  note m = more_netif [OF a(4)] more_link [OF a(4)]
  have run: "etharp_request netif a s = etharp_raw netif ?hw ethbroadcast ?hw (nif_ip_addr n) ethzero a 1 s"
    using n by (simp add: etharp_request_def eth_netif_def)
  show ?thesis
  proof (cases "p = NULL")
    case True
    then show ?thesis
      using a a' m run by (intro exI [of _ ERR_MEM] exI [of _ s1])
        (simp add: etharp_raw_def etharp_consts same_memory_def tx_only_def ext_same_def data_kept_bytes)
  next
    case False
    then have k: "packet (pbufs s1) p [p]" "plen (pbufs s1) [p] = 42" "pool_kind (pbufs s1) PBUF_RAM [p]" "pbufs s p = None"
      "\<And>x. x \<noteq> p \<Longrightarrow> pbufs s1 x = pbufs s x" "mem_live (ram_heap s1) |` (- {p}) = mem_live (ram_heap s)" using a' by auto
    obtain b where b: "pbufs s1 p = Some b" "len b = 42" using k(1,2) by (auto simp: packet_simps)
    let ?d = "arp_packet_bytes (payload b) ?hw ethbroadcast ?hw (nif_ip_addr n) ethzero a 1 (bytes s1)"
    let ?f = "arp_frame ethbroadcast ?hw 1 ?hw (nif_ip_addr n) ethzero a"
    note fr = arp_packet_bytes_frame [where ethsrc = ?hw and ethdst = ethbroadcast and hwsrc = ?hw and hwdst = ethzero and a = "payload b"
        and ipsrc = "nif_ip_addr n" and ipdst = a and opcode = 1 and d = "bytes s1"]
    have l: "length ?hw = 6" "length ethbroadcast = 6" "length ethzero = 6" using n by (simp_all add: eth_netif_def ethbroadcast_def ethzero_def)
    have cd: "chain_data (s1\<lparr>bytes := ?d\<rparr>) [p] = ?f" using fr(1) l b by (simp add: pbuf_data_peek)
    let ?s2 = "s1\<lparr>bytes := ?d, tx := tx s1 @ [(netif, ?f)]\<rparr>"
    have out: "low_level_output netif p (s1\<lparr>bytes := ?d\<rparr>) = Some (ERR_OK, ?s2)"
      using low_level_output_ok [of "s1\<lparr>bytes := ?d\<rparr>" p "[p]" netif] k(1,2) cd by simp
    have ok2: "net_ok sizes base ?s2" by (rule net_ok_same [OF a(2)]) simp_all
    obtain s3 where s3: "pbuf_free p ?s2 = Some (1, s3)" "net_ok sizes base s3" "pbufs s3 = (pbufs ?s2)(p := None)" "bytes s3 = bytes ?s2"
      "net_state.more s3 = net_state.more ?s2" "memp_live sizes base (memp s3) = memp_live sizes base (memp ?s2)"
      "mem_live (ram_heap s3) = mem_live (ram_heap ?s2) |` (- {p})"
      using free_fresh_ram [OF ok2, of p] k(1,3) by auto
    note m3 = more_netif [OF s3(5)] more_link [OF s3(5)]
    have "pbufs s3 = pbufs s" using s3(3) k(4,5) by (auto simp: fun_eq_iff)
    moreover have "data_kept s s3"
    proof (rule data_kept_fresh [OF a(2) _ pool_kind_owned [OF k(3)] k(4,5)])
      show "unchanged_outside (pbufs s1) [p] (bytes s) (bytes s3)"
        using fr(2) l b a(3) s3(4) by (intro writes_within_outside [of b]) simp_all
    qed simp_all
    moreover have "etharp_raw netif ?hw ethbroadcast ?hw (nif_ip_addr n) ethzero a 1 s = Some (ERR_OK, s3)"
      using a(1) False b out s3(1) n m by (simp add: etharp_raw_def etharp_consts eth_netif_def Let_def)
    ultimately show ?thesis
      using run s3 m m3 a(5) k(6) by (intro exI [of _ ERR_OK] exI [of _ s3]) (simp add: same_memory_def tx_only_def ext_same_def)
  qed
qed


section \<open>Queueing a packet\<close>

lemma query_copy_needed_owned:
  assumes "packet (pbufs s) q xs" and "owned (pbufs s) xs" and "filled (pbufs s) xs"
  shows "query_copy_needed q s = Some q"
proof -
  obtain b ys where b: "xs = q # ys" "pbufs s q = Some b" "tot_len b = len b + plen (pbufs s) ys" "q \<noteq> NULL"
    using packet_head [OF assms(1)] by blast
  have "len b \<noteq> tot_len b \<or> pb_next b = NULL"
  proof (cases "ys = []")
    case True
    then show ?thesis using assms(1) b by (auto simp: packet_simps)
  next
    case False
    then have "0 < plen (pbufs s) ys" using filled_plen [of "pbufs s" ys] assms(3) b(1) by (simp add: filled_def)
    then show ?thesis using b(3) by simp
  qed
  moreover have "ptype b \<noteq> PBUF_ROM" using assms(2) b(1,2) by (auto simp: owned_def)
  ultimately show ?thesis using b(2,4) by (subst query_copy_needed.simps) simp
qed

definition copy_post :: "(memp_t \<Rightarrow> nat) \<Rightarrow> addr \<Rightarrow> u8_t list \<Rightarrow> 'a net_state_scheme \<Rightarrow> addr \<Rightarrow> 'a net_state_scheme \<Rightarrow> bool" where
  "copy_post sizes base v s p s' \<longleftrightarrow> net_ok sizes base s' \<and> net_state.more s' = net_state.more s \<and> data_kept s s'
     \<and> memp_live sizes base (memp s') = memp_live sizes base (memp s)
     \<and> (if p = NULL then pbufs s' = pbufs s \<and> mem_live (ram_heap s') = mem_live (ram_heap s)
        else packet (pbufs s') p [p] \<and> pool_kind (pbufs s') PBUF_RAM [p] \<and> pbuf_data s' p = v \<and> pbufs s p = None
          \<and> (\<forall>x. x \<noteq> p \<longrightarrow> pbufs s' x = pbufs s x) \<and> mem_live (ram_heap s') |` (- {p}) = mem_live (ram_heap s))"

lemma query_take_over_ok:
  assumes ok: "net_ok sizes base s" and pk: "packet (pbufs s) q xs" "owned (pbufs s) xs" "filled (pbufs s) xs" "plen (pbufs s) xs \<le> 1514"
  shows "\<exists>p s'. query_take_over q s = Some (p, s') \<and> copy_post sizes base (chain_data s xs) s p s'"
proof -
  obtain b ys where b: "xs = q # ys" "pbufs s q = Some b" "tot_len b = len b + plen (pbufs s) ys" "q \<noteq> NULL"
    using packet_head [OF pk(1)] by blast
  have tl: "tot_len b = plen (pbufs s) xs" using b by simp
  have pos: "0 < plen (pbufs s) xs" using filled_plen [OF pk(3)] b(1) by simp
  obtain p s1 where a: "pbuf_alloc PBUF_RAW (tot_len b) PBUF_RAM s = Some (p, s1)" "net_ok sizes base s1" "bytes s1 = bytes s" "net_state.more s1 = net_state.more s"
    "memp_live sizes base (memp s1) = memp_live sizes base (memp s)" and
    a': "if p = NULL then pbufs s1 = pbufs s \<and> mem_live (ram_heap s1) = mem_live (ram_heap s)
       else packet (pbufs s1) p [p] \<and> plen (pbufs s1) [p] = tot_len b \<and> pool_kind (pbufs s1) PBUF_RAM [p] \<and> pbufs s p = None
        \<and> (\<forall>x. x \<noteq> p \<longrightarrow> pbufs s1 x = pbufs s x) \<and> mem_live (ram_heap s1) |` (- {p}) = mem_live (ram_heap s)"
    using fresh_alloc_ram [OF ok, of PBUF_RAW "tot_len b"] tl pk(4) by (fastforce simp: lwip_simps split: if_splits)
  have run: "query_take_over q s = (if p \<noteq> NULL then do {
         (e, s) \<leftarrow> pbuf_copy p q s1;
         if e \<noteq> ERR_OK then do { (c, s) \<leftarrow> pbuf_free p s; Some (NULL, s) } else Some (p, s)
       } else Some (NULL, s1))"
    using query_copy_needed_owned [OF pk(1-3)] b a(1) by (simp add: query_take_over_def)
  show ?thesis
  proof (cases "p = NULL")
    case True
    then show ?thesis using run a a' by (intro exI [of _ NULL] exI [of _ s1]) (simp add: copy_post_def data_kept_bytes)
  next
    case False
    then have k: "packet (pbufs s1) p [p]" "plen (pbufs s1) [p] = tot_len b" "pool_kind (pbufs s1) PBUF_RAM [p]" "pbufs s p = None"
      "\<And>x. x \<noteq> p \<Longrightarrow> pbufs s1 x = pbufs s x" "mem_live (ram_heap s1) |` (- {p}) = mem_live (ram_heap s)" using a' by auto
    have np: "p \<notin> set xs" using pk(2) k(4) by (auto simp: owned_def list_all_iff)
    then have same: "\<And>x. x \<in> set xs \<Longrightarrow> pbufs s1 x = pbufs s x" using k(5) by metis
    have f1: "packet (pbufs s1) q xs" "owned (pbufs s1) xs" "filled (pbufs s1) xs" "plen (pbufs s1) xs = plen (pbufs s) xs"
      using pk same packet_cong [of xs "pbufs s1" "pbufs s"] plen_cong [of xs "pbufs s1" "pbufs s"]
      by (auto simp: owned_def filled_def list_all_iff)
    have cd: "chain_data s1 xs = chain_data s xs"
      by (rule chain_data_cong) (simp add: pbuf_data_def same a(3) split: option.split)
    have "filled (pbufs s1) [p]" using k(2) pos tl by (simp add: filled_def)
    then obtain d where d: "pbuf_copy p q s1 = Some (ERR_OK, s1\<lparr>bytes := d\<rparr>)"
      "chain_data (s1\<lparr>bytes := d\<rparr>) [p] = chain_data s1 xs @ drop (plen (pbufs s1) xs) (chain_data s1 [p])"
      "unchanged_outside (pbufs s1) [p] (bytes s1) d"
      using pbuf_copy_ok [OF a(2) k(1) pool_kind_owned [OF k(3)] _ f1(1-3)] np k(2) f1(4) tl by auto
    have len: "length (chain_data s1 [p]) \<le> plen (pbufs s1) xs" using k(2) f1(4) tl unfolding length_chain_data by simp
    have "chain_data (s1\<lparr>bytes := d\<rparr>) [p] = chain_data s xs" unfolding d(2) cd drop_all [OF len] by simp
    then have pd: "pbuf_data (s1\<lparr>bytes := d\<rparr>) p = chain_data s xs" by simp
    have "data_kept s (s1\<lparr>bytes := d\<rparr>)"
      using d(3) a(3) by (intro data_kept_fresh [OF a(2) _ pool_kind_owned [OF k(3)] k(4,5)]) simp_all
    then show ?thesis
      using run False d(1) pd k a net_ok_bytes [OF a(2), of d]
      by (intro exI [of _ p] exI [of _ "s1\<lparr>bytes := d\<rparr>"]) (simp add: copy_post_def)
  qed
qed

text \<open>
  The result of queueing: no memory, and then nothing changed; or the packet's bytes are on the queue
  of entry \<open>i\<close>, behind the ones that were there.
\<close>

definition queue_post :: "(memp_t \<Rightarrow> nat) \<Rightarrow> addr \<Rightarrow> nat \<Rightarrow> u8_t list \<Rightarrow> err_t \<Rightarrow> 'a link_state_scheme \<Rightarrow> err_t \<Rightarrow> 'a link_state_scheme \<Rightarrow> bool" where
  "queue_post sizes base i v result s e s' \<longleftrightarrow>
     (e = result \<and> same_memory sizes base s s' \<and> arp_table s' = arp_table s)
     \<or> (e = ERR_OK \<and> (\<exists>r p. arp_table s' = (arp_table s)[i := (arp_table s ! i)\<lparr>arp_q := arp_q (arp_table s ! i) @ [(r, p)]\<rparr>]
          \<and> pbufs s p = None \<and> pbuf_data s' p = v \<and> (\<forall>x. x \<noteq> p \<longrightarrow> pbufs s' x = pbufs s x) \<and> data_kept s s'))"

lemma link_ok_enqueue:
  fixes s s1 :: "'a link_state_scheme"
  assumes ok: "link_ok sizes base s" and i: "i < ARP_TABLE_SIZE" "arp_state (arp_table s ! i) = ETHARP_STATE_PENDING"
    and net: "net_ok sizes base s1" and qp: "queued_pbuf (pbufs s1) p" and p: "pbufs s p = None" "\<forall>x. x \<noteq> p \<longrightarrow> pbufs s1 x = pbufs s x"
    and r: "memp_live sizes base (memp s) r = None" "memp_live sizes base (memp s1) = (memp_live sizes base (memp s))(r \<mapsto> MEMP_ARP_QUEUE)"
    and x: "arp_table s1 = arp_table s" "etharp_cached_entry s1 = etharp_cached_entry s"
  shows "link_ok sizes base (set_entry i (\<lambda>e. e\<lparr>arp_q := arp_q e @ [(r, p)]\<rparr>) s1)" (is "link_ok sizes base ?s")
proof -
  have arp: "arp_ok sizes base s" using ok by (simp add: link_ok_def)
  note d = arp_okD [OF arp i(1)]
  let ?T = "arp_table s"
  have le: "list_all (queue_elem sizes base s) (queued ?T)" using arp by (simp add: arp_ok_def)
  have nr: "fst y \<noteq> r" "snd y \<noteq> p" if "y \<in> set (queued ?T)" for y
    using le that r(1) p(1) by (auto simp: list_all_iff queue_elem_def queued_pbuf_def)
  obtain A B where AB: "?T = A @ ?T ! i # B" "\<And>e. ?T[i := e] = A @ e # B" using table_split [OF d(5)] by metis
  have Q: "queued ?T = queued A @ arp_q (?T ! i) @ queued B" by (subst AB(1)) (rule queued_simps)
  have Q': "queued (arp_table ?s) = queued A @ (arp_q (?T ! i) @ [(r, p)]) @ queued B"
    unfolding set_entry_simps(1) x(1) AB(2) queued_simps by simp
  have old: "queue_elem sizes base ?s y" if y: "y \<in> set (queued ?T)" for y
  proof -
    obtain r' p' where y': "y = (r', p')" by (cases y)
    have "queue_elem sizes base s (r', p')" using le y y' by (simp add: list_all_iff)
    then show ?thesis unfolding y' by (rule queue_elem_upd) (use nr [OF y] y' p(2) r(2) in simp_all)
  qed
  have "queue_elem sizes base ?s (r, p)" using qp r(2) by (simp add: queue_elem_def)
  then have l: "list_all (queue_elem sizes base ?s) (queued (arp_table ?s))"
    unfolding Q' using old unfolding Q by (auto simp: list_all_iff)
  have fr: "r \<notin> fst ` set (queued ?T)" "p \<notin> snd ` set (queued ?T)" using nr by blast+
  then have fr': "r \<notin> fst ` set (arp_q (?T ! i))" "p \<notin> snd ` set (arp_q (?T ! i))" unfolding Q by (simp_all add: image_Un)
  have "arp_ok sizes base ?s"
  proof (rule arp_ok_update [OF arp i(1), where e = "(?T ! i)\<lparr>arp_q := arp_q (?T ! i) @ [(r, p)]\<rparr>"])
    show "entry_ok ((?T ! i)\<lparr>arp_q := arp_q (?T ! i) @ [(r, p)]\<rparr>)" using d(1) i(2) by (simp add: entry_ok_def)
    show "etharp_cached_entry ?s < ARP_TABLE_SIZE" using arp x(2) by (simp add: arp_ok_def)
    show "\<forall>y\<in>set (arp_q ((?T ! i)\<lparr>arp_q := arp_q (?T ! i) @ [(r, p)]\<rparr>)).
       y \<in> set (arp_q (?T ! i)) \<or> fst y \<notin> fst ` set (queued ?T) \<and> snd y \<notin> snd ` set (queued ?T)"
      using fr by auto
  qed (use d fr' x i(2) l in \<open>simp_all add: matches_def\<close>)
  moreover have "net_ok sizes base ?s" by (rule net_ok_same [OF net]) simp_all
  ultimately show ?thesis by (simp add: link_ok_def)
qed

lemma query_queue_ok:
  fixes s :: "'a link_state_scheme"
  assumes ok: "link_ok sizes base s" and i: "i < ARP_TABLE_SIZE" "arp_state (arp_table s ! i) = ETHARP_STATE_PENDING"
    and pk: "packet (pbufs s) q xs" "owned (pbufs s) xs" "filled (pbufs s) xs" "plen (pbufs s) xs \<le> 1514" "14 \<le> plen (pbufs s) xs"
  shows "\<exists>e s'. query_queue i q result s = Some (e, s') \<and> link_ok sizes base s' \<and> ext_same s s' \<and> tx s' = tx s
    \<and> queue_post sizes base i (chain_data s xs) result s e s'"
proof -
  have net: "net_ok sizes base s" and arp: "arp_ok sizes base s" using ok by (simp_all add: link_ok_def)
  obtain p s1 where c: "query_take_over q s = Some (p, s1)" "copy_post sizes base (chain_data s xs) s p s1"
    using query_take_over_ok [OF net pk(1-4)] by blast
  have c1: "net_ok sizes base s1" "net_state.more s1 = net_state.more s" "data_kept s s1" "memp_live sizes base (memp s1) = memp_live sizes base (memp s)"
    using c(2) by (simp_all add: copy_post_def)
  note m1 = more_netif(4) [OF c1(2)] more_link(1,2) [OF c1(2)] ext_same_more [OF c1(2)]
  have unchanged: "link_ok sizes base s' \<and> queue_post sizes base i (chain_data s xs) result s result s'"
    if "same_memory sizes base s s'" "arp_table s' = arp_table s" "etharp_cached_entry s' = etharp_cached_entry s" for s' :: "'a link_state_scheme"
    using that arp by (auto simp: link_ok_def same_memory_def arp_ok_def queue_elem_def queue_post_def)
  show ?thesis
  proof (cases "p = NULL")
    case True
    then have "same_memory sizes base s s1" using c(2) by (simp add: same_memory_def copy_post_def)
    note nt = unchanged [OF this m1(2,3)]
    have "query_queue i q result s = Some (result, s1)" using True c(1) by (simp add: query_queue_def)
    then show ?thesis using nt m1(1,4) by blast
  next
    case False
    then have k: "packet (pbufs s1) p [p]" "pool_kind (pbufs s1) PBUF_RAM [p]" "pbuf_data s1 p = chain_data s xs" "pbufs s p = None"
      "\<forall>x. x \<noteq> p \<longrightarrow> pbufs s1 x = pbufs s x" "mem_live (ram_heap s1) |` (- {p}) = mem_live (ram_heap s)"
      using c(2) by (simp_all add: copy_post_def)
    obtain r m where m: "memp_malloc (memp s1) MEMP_ARP_QUEUE = Some (r, m)" "net_ok sizes base (s1\<lparr>memp := m\<rparr>)"
      "if r = NULL then m = memp s1 else memp_live sizes base (memp s1) r = None \<and> memp_live sizes base m = (memp_live sizes base (memp s1))(r \<mapsto> MEMP_ARP_QUEUE)"
      using memp_take_ok [OF c1(1), of MEMP_ARP_QUEUE] by auto
    show ?thesis
    proof (cases "r = NULL")
      case True
      then have ms: "s1\<lparr>memp := m\<rparr> = s1" using m(3) by simp
      obtain s2 where s2: "pbuf_free p s1 = Some (1, s2)" "net_ok sizes base s2" "pbufs s2 = (pbufs s1)(p := None)" "bytes s2 = bytes s1"
        "net_state.more s2 = net_state.more s1" "memp_live sizes base (memp s2) = memp_live sizes base (memp s1)"
        "mem_live (ram_heap s2) = mem_live (ram_heap s1) |` (- {p})"
        using free_fresh_ram [OF c1(1) k(1,2)] by blast
      note m2 = more_netif(4) [OF s2(5)] more_link(1,2) [OF s2(5)] ext_same_more [OF s2(5)]
      have "pbufs s2 = pbufs s" using s2(3) k(4,5) by (auto simp: fun_eq_iff)
      then have "same_memory sizes base s s2" using s2 c1(3,4) k(6) by (simp add: same_memory_def data_kept_def)
      note nt = unchanged [OF this trans [OF m2(2) m1(2)] trans [OF m2(3) m1(3)]]
      have "query_queue i q result s = Some (result, s2)" using False True c(1) m(1) ms s2(1) by (simp add: query_queue_def)
      then show ?thesis using nt ext_same_trans [OF m1(4) m2(4)] trans [OF m2(1) m1(1)] by blast
    next
      case nr: False
      let ?s1 = "s1\<lparr>memp := m\<rparr>"
      let ?s = "set_entry i (\<lambda>e. e\<lparr>arp_q := arp_q e @ [(r, p)]\<rparr>) ?s1"
      obtain b where b: "pbufs s1 p = Some b" "pb_next b = NULL" "tot_len b = len b" "ref b = 1" "ptype b = PBUF_RAM" "p \<noteq> NULL"
        using k(1,2) by (auto simp: packet_simps pool_kind_def)
      have "len b = plen (pbufs s) xs" using k(3) b(1) length_pbuf_data [of s1 p] length_chain_data [of s xs] by simp
      then have qp: "queued_pbuf (pbufs ?s1) p" using b pk(4,5) by (simp add: queued_pbuf_def)
      have lk: "link_ok sizes base ?s"
        using m nr c1(4) k(4,5) m1 by (intro link_ok_enqueue [OF ok i m(2) qp]) simp_all
      have pd: "pbuf_data ?s p = chain_data s xs" using k(3) b(1) by (simp add: pbuf_data_peek)
      have run: "query_queue i q result s = Some (ERR_OK, ?s)" using False nr c(1) m(1) by (simp add: query_queue_def)
      have "queue_post sizes base i (chain_data s xs) result s ERR_OK ?s"
        using k(4,5) pd c1(3) m1(2) by (auto simp: queue_post_def data_kept_def)
      moreover have "ext_same s ?s" using m1(4) by (simp add: ext_same_def)
      ultimately show ?thesis using run lk m1(1) by (intro exI [of _ ERR_OK] exI [of _ ?s]) simp
    qed
  qed
qed

section \<open>Resolving an address for a packet\<close>

lemma link_ok_same_memory:
  assumes "link_ok sizes base s" and "same_memory sizes base s s'" and "arp_table s' = arp_table s" and "etharp_cached_entry s' = etharp_cached_entry s"
  shows "link_ok sizes base s'"
  using assms by (auto simp: link_ok_def arp_ok_def same_memory_def queue_elem_def)

text \<open>A packet that can be sent: pbufs with memory of their own, none of them empty, no longer than a frame.\<close>

definition sendable :: "(addr \<rightharpoonup> pbuf) \<Rightarrow> addr \<Rightarrow> addr list \<Rightarrow> bool" where
  "sendable P q xs \<longleftrightarrow> packet P q xs \<and> owned P xs \<and> filled P xs \<and> plen P xs \<le> 1514 \<and> 14 \<le> pfield P len q"

lemma sendable_cong: "(\<And>x. x \<in> set xs \<Longrightarrow> P x = Q x) \<Longrightarrow> sendable P q xs = sendable Q q xs"
proof -
  assume *: "\<And>x. x \<in> set xs \<Longrightarrow> P x = Q x"
  have "packet P q xs = packet Q q xs" by (rule packet_cong [OF *])
  moreover have "plen P xs = plen Q xs" by (rule plen_cong [OF *])
  moreover have "owned P xs = owned Q xs" "filled P xs = filled Q xs" using * by (auto simp: owned_def filled_def list_all_iff)
  moreover have "packet P q xs \<Longrightarrow> P q = Q q" using * by (elim packet_head) simp
  ultimately show ?thesis by (auto simp: sendable_def)
qed

lemma sendable_plen: "sendable P q xs \<Longrightarrow> 14 \<le> plen P xs"
  by (auto simp: sendable_def elim!: packet_head)


text \<open>
  \<open>link_frame K s s'\<close>: what a step leaves of the packets that are not on a queue. They are still there, not on
  a queue, and with memory of their own they keep their bytes, except the ones in \<open>K\<close>.
\<close>

definition held :: "'a link_state_scheme \<Rightarrow> addr set" where
  "held s = snd ` set (queued (arp_table s))"

definition link_frame :: "addr set \<Rightarrow> 'a link_state_scheme \<Rightarrow> 'a link_state_scheme \<Rightarrow> bool" where
  "link_frame K s s' \<longleftrightarrow> (\<forall>x b. pbufs s x = Some b \<longrightarrow> x \<notin> held s \<longrightarrow> pbufs s' x = Some b \<and> x \<notin> held s'
     \<and> (x \<notin> K \<longrightarrow> ptype b = PBUF_RAM \<or> ptype b = PBUF_POOL \<longrightarrow> peek (bytes s') (payload b) (len b) = peek (bytes s) (payload b) (len b)))"

lemma link_frame_refl [simp]: "link_frame K s s"
  by (simp add: link_frame_def)

lemma link_frame_trans: "link_frame K s s' \<Longrightarrow> link_frame L s' s'' \<Longrightarrow> link_frame (K \<union> L) s s''"
  unfolding link_frame_def by (metis UnCI)

lemma link_frame_mono: "link_frame K s s' \<Longrightarrow> K \<subseteq> L \<Longrightarrow> link_frame L s s'"
  by (auto simp: link_frame_def)

lemma link_frame_same_memory: "same_memory sizes base s s' \<Longrightarrow> arp_table s' = arp_table s \<Longrightarrow> link_frame {} s s'"
  by (auto simp: link_frame_def same_memory_def data_kept_def held_def)

lemma link_frame_pbufs:
  assumes "link_frame K s s'" and "owned (pbufs s) xs" and "set xs \<inter> held s = {}" and "x \<in> set xs"
  shows "pbufs s' x = pbufs s x \<and> x \<notin> held s'"
proof -
  obtain b where "pbufs s x = Some b" using assms(2,4) by (force simp: owned_def list_all_iff split: option.splits)
  then show ?thesis using assms(1,3,4) by (auto simp: link_frame_def)
qed

lemma link_frame_owned:
  assumes "link_frame K s s'" and "owned (pbufs s) xs" and "set xs \<inter> held s = {}"
  shows "set xs \<inter> held s' = {}" and "owned (pbufs s') xs" and "set xs \<inter> K = {} \<Longrightarrow> chain_data s' xs = chain_data s xs"
proof -
  note f = link_frame_pbufs [OF assms]
  show "set xs \<inter> held s' = {}" "owned (pbufs s') xs" using f assms(2) by (auto simp: owned_def list_all_iff)
  assume K: "set xs \<inter> K = {}"
  show "chain_data s' xs = chain_data s xs"
  proof (rule chain_data_cong)
    fix x
    assume x: "x \<in> set xs"
    then obtain b where "pbufs s x = Some b" "ptype b = PBUF_RAM \<or> ptype b = PBUF_POOL"
      using assms(2) by (force simp: owned_def list_all_iff split: option.splits)
    then show "pbuf_data s' x = pbuf_data s x"
      using f [OF x] K x assms(1,3) unfolding link_frame_def by (auto simp: pbuf_data_peek)
  qed
qed

lemma queued_update: "i < length T \<Longrightarrow> set (queued (T[i := e])) \<subseteq> set (queued T) \<union> set (arp_q e)"
  using set_update_subset_insert [of T i e] by (auto simp: queued_def)

lemma queued_entry: "i < length T \<Longrightarrow> set (arp_q (T ! i)) \<subseteq> set (queued T)"
  by (auto simp: queued_def intro!: bexI [of _ "T ! i"])

text \<open>Releasing the queue of entry \<open>i\<close>, with stores to its packets only.\<close>

lemma link_frame_sent:
  assumes net: "net_ok sizes base s" and q: "list_all (queue_elem sizes base s) (arp_q (arp_table s ! i))" and i: "i < length (arp_table s)"
    and snt: "sent sizes base (arp_q (arp_table s ! i)) s s'"
    and T: "arp_table s' = (arp_table s)[i := e]" "arp_q e = []"
  shows "link_frame {} s s'"
  unfolding link_frame_def
proof (intro allI impI)
  let ?q = "arp_q (arp_table s ! i)"
  fix x b
  assume b: "pbufs s x = Some b" "x \<notin> held s"
  have nx: "x \<notin> snd ` set ?q" using b(2) queued_entry [OF i] by (auto simp: held_def)
  have "set (queued (arp_table s')) \<subseteq> set (queued (arp_table s))" using queued_update [OF i, of e] T by simp
  then have "x \<notin> held s'" using b(2) by (auto simp: held_def)
  moreover have "pbufs s' x = Some b" using snt b(1) nx by (simp add: sent_def released_def)
  moreover have "peek (bytes s') (payload b) (len b) = peek (bytes s) (payload b) (len b)" if o: "ptype b = PBUF_RAM \<or> ptype b = PBUF_POOL"
  proof -
    have "owned (pbufs s) (x # map snd ?q)"
      using o b(1) q by (auto simp: owned_def list_all_iff queue_elem_def queued_pbuf_def split: option.splits)
    then have "clear_of (pbufs s) (map snd ?q) (payload b) (len b)" using owned_clear [OF net _ _ b(1)] nx by simp
    then show ?thesis using snt by (simp add: sent_def unchanged_outside_def)
  qed
  ultimately show "pbufs s' x = Some b \<and> x \<notin> held s' \<and> (x \<notin> {} \<longrightarrow> ptype b = PBUF_RAM \<or> ptype b = PBUF_POOL \<longrightarrow>
      peek (bytes s') (payload b) (len b) = peek (bytes s) (payload b) (len b))"
    by simp
qed

text \<open>What \<open>find_entry\<close> with \<open>ETHARP_TRY_HARD\<close> leaves for a query: the entry of the address, made pending if it is new.\<close>

lemma query_find:
  fixes s :: "'a link_state_scheme"
  assumes ok: "link_ok sizes base s"
  shows "\<exists>i s1. find_entry (Some a) ETHARP_TRY_HARD s = Some (Inr i, s1) \<and> i < ARP_TABLE_SIZE
    \<and> (let s2 = (if arp_state (arp_table s1 ! i) = ETHARP_STATE_EMPTY then set_entry i (\<lambda>e. e\<lparr>arp_state := ETHARP_STATE_PENDING\<rparr>) s1 else s1)
       in link_ok sizes base s2 \<and> ext_same s s2 \<and> tx s2 = tx s \<and> bytes s2 = bytes s \<and> link_frame {} s s2
        \<and> arp_ipaddr (arp_table s2 ! i) = a \<and> (\<forall>j. j \<noteq> i \<longrightarrow> arp_table s2 ! j = arp_table s ! j)
        \<and> (if known a (arp_table s) then arp_table s2 = arp_table s \<and> pbufs s2 = pbufs s \<and> arp_state (arp_table s ! i) \<noteq> ETHARP_STATE_EMPTY
           else recycles (arp_table s) i \<and> arp_state (arp_table s2 ! i) = ETHARP_STATE_PENDING \<and> arp_q (arp_table s2 ! i) = []))"
proof -
  let ?T = "arp_table s"
  have arp: "arp_ok sizes base s" using ok by (simp add: link_ok_def)
  obtain r s1 where r: "find_entry (Some a) ETHARP_TRY_HARD s = Some (r, s1)" "link_ok sizes base s1" "ext_same s s1" "tx s1 = tx s"
    "find_post sizes base a ETHARP_TRY_HARD s r s1"
    using find_entry_ok [OF ok, of a ETHARP_TRY_HARD] by blast
  have fl: "ETHARP_TRY_HARD AND ETHARP_FIND_ONLY = 0" "ETHARP_TRY_HARD AND ETHARP_TRY_HARD \<noteq> 0" by (simp_all add: etharp_consts)
  show ?thesis
  proof (cases "known a ?T")
    case True
    then obtain i where i: "i < ARP_TABLE_SIZE" "r = Inr i" "matches (Some a) (?T ! i)" "s1 = s\<lparr>etharp_cached_entry := i\<rparr>"
      using r(5) unfolding find_post_def known_def by auto
    then have st: "arp_state (arp_table s1 ! i) \<noteq> ETHARP_STATE_EMPTY" "arp_ipaddr (?T ! i) = a" by (simp_all add: matches_def)
    then show ?thesis
      using r i True by (intro exI [of _ i] exI [of _ s1]) (simp add: link_frame_def held_def)
  next
    case False
    then obtain i where i: "i < ARP_TABLE_SIZE" "r = Inr i" "freed sizes base (arp_q (?T ! i)) s s1"
      "arp_table s1 = ?T[i := fresh_entry a (?T ! i)]" "recycles ?T i"
      using r(5) fl unfolding find_post_def known_def by (auto split: if_splits)
    have il: "i < length ?T" using arp_okD(5) [OF arp i(1)] .
    let ?s2 = "set_entry i (\<lambda>e. e\<lparr>arp_state := ETHARP_STATE_PENDING\<rparr>) s1"
    have e: "arp_table s1 ! i = fresh_entry a (?T ! i)" using il by (simp add: i(4))
    then have st: "arp_state (arp_table s1 ! i) = ETHARP_STATE_EMPTY" by (simp add: fresh_entry_def)
    have nm: "\<not> matches (Some a) x" if x: "x \<in> set (arp_table s1)" for x
    proof -
      have "x = fresh_entry a (?T ! i) \<or> x \<in> set ?T" using x set_update_subset_insert [of ?T i] unfolding i(4) by blast
      moreover have "\<not> matches (Some a) (fresh_entry a (?T ! i))" by (simp add: fresh_entry_def matches_def)
      moreover have "\<not> matches (Some a) x" if "x \<in> set ?T" using that False by (auto simp: known_def)
      ultimately show ?thesis by metis
    qed
    have "link_ok sizes base ?s2"
    proof (rule link_ok_set [OF r(2) i(1)])
      show "entry_ok ((arp_table s1 ! i)\<lparr>arp_state := ETHARP_STATE_PENDING\<rparr>)"
        using arp_okD(1) [OF arp i(1)] unfolding e by (simp add: entry_ok_def fresh_entry_def etharp_consts)
    qed (use nm in \<open>simp_all add: e fresh_entry_def\<close>)
    moreover have "link_frame {} s ?s2"
    proof (rule link_frame_sent [OF _ arp_okD(4) [OF arp i(1)] il])
      show "sent sizes base (arp_q (?T ! i)) s ?s2"
        using i(3) net_ok_same [of sizes base s1 ?s2] by (intro freed_sent) (simp add: freed_def)
      show "arp_table ?s2 = ?T[i := (fresh_entry a (?T ! i))\<lparr>arp_state := ETHARP_STATE_PENDING\<rparr>]" using il by (simp add: i(4))
    qed (use ok in \<open>simp_all add: link_ok_def fresh_entry_def\<close>)
    ultimately show ?thesis
      using r i(1-3,5) False st e il
      by (intro exI [of _ i] exI [of _ s1]) (auto simp: Let_def ext_same_def freed_def fresh_entry_def i(4))
  qed
qed

lemma queue_post_frame:
  assumes "queue_post sizes base i v result s e s'" and i: "i < length (arp_table s)"
  shows "link_frame {} s s'"
proof -
  consider "same_memory sizes base s s'" "arp_table s' = arp_table s"
    | r p where "arp_table s' = (arp_table s)[i := (arp_table s ! i)\<lparr>arp_q := arp_q (arp_table s ! i) @ [(r, p)]\<rparr>]"
      "pbufs s p = None" "\<forall>x. x \<noteq> p \<longrightarrow> pbufs s' x = pbufs s x" "data_kept s s'"
    using assms(1) unfolding queue_post_def by blast
  then show ?thesis
  proof cases
    case 1
    then show ?thesis by (rule link_frame_same_memory)
  next
    case 2
    let ?e = "(arp_table s ! i)\<lparr>arp_q := arp_q (arp_table s ! i) @ [(r, p)]\<rparr>"
    have "set (arp_q ?e) \<subseteq> set (queued (arp_table s)) \<union> {(r, p)}" using queued_entry [OF i] by auto
    then have "set (queued (arp_table s')) \<subseteq> set (queued (arp_table s)) \<union> {(r, p)}" using queued_update [OF i, of ?e] 2(1) by auto
    then have "held s' \<subseteq> held s \<union> {p}" by (auto simp: held_def)
    moreover have "pbufs s x = Some b \<Longrightarrow> x \<noteq> p" for x b using 2(2) by auto
    ultimately show ?thesis using 2(3,4) unfolding link_frame_def data_kept_def by auto
  qed
qed

text \<open>
  \<open>etharp_query\<close> for the packet \<open>q\<close> with the frame \<open>v\<close>. With a stable entry the packet is sent now. Else the
  entry of the address is pending, a request was broadcast (or there was no memory for it, \<open>req\<close>), and the
  packet waits behind the others or, without memory, is dropped and the result is the one of the request.
\<close>

definition query_post :: "addr \<Rightarrow> netif \<Rightarrow> u32_t \<Rightarrow> u8_t list \<Rightarrow> 'a link_state_scheme \<Rightarrow> err_t \<Rightarrow> 'a link_state_scheme \<Rightarrow> bool" where
  "query_post netif n a v s e s' \<longleftrightarrow>
     (if non_unicast a n then e = ERR_ARG \<and> s' = s
      else \<exists>i<ARP_TABLE_SIZE. (if known a (arp_table s) then matches (Some a) (arp_table s ! i) else recycles (arp_table s) i)
        \<and> (\<forall>j. j \<noteq> i \<longrightarrow> arp_table s' ! j = arp_table s ! j)
        \<and> (if known a (arp_table s) \<and> arp_state (arp_table s ! i) = ETHARP_STATE_STABLE
           then e = ERR_OK \<and> arp_table s' = arp_table s
             \<and> tx s' = tx s @ [(netif, eth_header (arp_ethaddr (arp_table s ! i)) (nif_hwaddr n) ETHTYPE_IP @ drop 14 v)]
           else arp_ipaddr (arp_table s' ! i) = a \<and> arp_state (arp_table s' ! i) = ETHARP_STATE_PENDING
             \<and> (\<exists>req waiting. (req = ERR_MEM \<and> tx s' = tx s
                  \<or> req = ERR_OK \<and> tx s' = tx s @ [(netif, arp_frame ethbroadcast (nif_hwaddr n) 1 (nif_hwaddr n) (nif_ip_addr n) ethzero a)])
                \<and> waiting = (if known a (arp_table s) then arp_q (arp_table s ! i) else [])
                \<and> (e = req \<and> arp_q (arp_table s' ! i) = waiting
                   \<or> e = ERR_OK \<and> (\<exists>r p. arp_q (arp_table s' ! i) = waiting @ [(r, p)] \<and> pbuf_data s' p = v)))))"

lemma query_send_stable:
  fixes s :: "'a link_state_scheme"
  assumes ok: "link_ok sizes base s" and pk: "sendable (pbufs s) q xs" and n: "eth_netif (netifs s) netif n"
    and xs: "set xs \<inter> held s = {}" and dst: "length dst = 6"
  shows "\<exists>s'. etharp_send_ip netif q (nif_hwaddr n) dst s = Some (ERR_OK, s') \<and> link_ok sizes base s' \<and> ext_same s s' \<and> arp_table s' = arp_table s
    \<and> tx s' = tx s @ [(netif, eth_header dst (nif_hwaddr n) ETHTYPE_IP @ drop 14 (chain_data s xs))] \<and> link_frame {q} s s'"
proof -
  have net: "net_ok sizes base s" and arp: "arp_ok sizes base s" using ok by (simp_all add: link_ok_def)
  have p: "packet (pbufs s) q xs" "owned (pbufs s) xs" "plen (pbufs s) xs \<le> 1514" "14 \<le> pfield (pbufs s) len q" using pk by (simp_all add: sendable_def)
  have hw: "length (nif_hwaddr n) = 6" using n by (simp add: eth_netif_def)
  obtain d where d: "etharp_send_ip netif q (nif_hwaddr n) dst s =
      Some (ERR_OK, s\<lparr>bytes := d, tx := tx s @ [(netif, eth_header dst (nif_hwaddr n) ETHTYPE_IP @ drop 14 (chain_data s xs))]\<rparr>)"
    "unchanged_outside (pbufs s) [q] (bytes s) d"
    using etharp_send_ip_ok [OF net p n hw dst] by blast
  let ?s = "s\<lparr>bytes := d, tx := tx s @ [(netif, eth_header dst (nif_hwaddr n) ETHTYPE_IP @ drop 14 (chain_data s xs))]\<rparr>"
  have "net_ok sizes base ?s" by (rule net_ok_same [OF net_ok_bytes [OF net, of d]]) simp_all
  then have "link_ok sizes base ?s" using arp by (simp add: link_ok_def arp_ok_def queue_elem_def)
  moreover have "link_frame {q} s ?s"
    unfolding link_frame_def
  proof (intro allI impI conjI)
    fix x b
    assume b: "pbufs s x = Some b" "x \<notin> held s"
    then show "pbufs ?s x = Some b" "x \<notin> held ?s" by (simp_all add: held_def)
    assume o: "x \<notin> {q}" "ptype b = PBUF_RAM \<or> ptype b = PBUF_POOL"
    have "q \<in> set xs" by (rule packet_head [OF p(1)]) simp
    then have "owned (pbufs s) [x, q]" using p(2) b(1) o(2) by (auto simp: owned_def list_all_iff)
    then have "clear_of (pbufs s) [q] (payload b) (len b)" using owned_clear [OF net _ _ b(1)] o(1) by simp
    then show "peek (bytes ?s) (payload b) (len b) = peek (bytes s) (payload b) (len b)" using d(2) by (simp add: unchanged_outside_def)
  qed
  ultimately show ?thesis using d(1) by (intro exI [of _ ?s]) (simp add: ext_same_def)
qed

lemma sendable_owned: "sendable P q xs \<Longrightarrow> owned P xs"
  by (simp add: sendable_def)

lemma sendable_frame:
  assumes "link_frame K s s'" and "sendable (pbufs s) q xs" and "set xs \<inter> held s = {}"
  shows "sendable (pbufs s') q xs"
  using sendable_cong [of xs "pbufs s'" "pbufs s"] link_frame_pbufs [OF assms(1) sendable_owned [OF assms(2)] assms(3)] assms(2) by auto

lemma query_pending:
  fixes s :: "'a link_state_scheme"
  assumes ok: "link_ok sizes base s" and i: "i < ARP_TABLE_SIZE" "arp_state (arp_table s ! i) = ETHARP_STATE_PENDING"
    and pk: "sendable (pbufs s) q xs" "set xs \<inter> held s = {}" and n: "eth_netif (netifs s) netif n"
  shows "\<exists>req s1 e s'. etharp_request netif a s = Some (req, s1) \<and> query_queue i q req s1 = Some (e, s')
    \<and> tx_only s s1 \<and> link_ok sizes base s' \<and> ext_same s s' \<and> link_frame {} s s' \<and> (\<forall>j. j \<noteq> i \<longrightarrow> arp_table s' ! j = arp_table s ! j)
    \<and> arp_ipaddr (arp_table s' ! i) = arp_ipaddr (arp_table s ! i) \<and> arp_state (arp_table s' ! i) = ETHARP_STATE_PENDING
    \<and> (req = ERR_MEM \<and> tx s' = tx s
       \<or> req = ERR_OK \<and> tx s' = tx s @ [(netif, arp_frame ethbroadcast (nif_hwaddr n) 1 (nif_hwaddr n) (nif_ip_addr n) ethzero a)])
    \<and> (e = req \<and> arp_q (arp_table s' ! i) = arp_q (arp_table s ! i)
       \<or> e = ERR_OK \<and> (\<exists>r p. arp_q (arp_table s' ! i) = arp_q (arp_table s ! i) @ [(r, p)] \<and> pbuf_data s' p = chain_data s xs))"
proof -
  obtain req s1 where r: "etharp_request netif a s = Some (req, s1)" "same_memory sizes base s s1" "tx_only s s1"
    "req = ERR_MEM \<and> tx s1 = tx s
       \<or> req = ERR_OK \<and> tx s1 = tx s @ [(netif, arp_frame ethbroadcast (nif_hwaddr n) 1 (nif_hwaddr n) (nif_ip_addr n) ethzero a)]"
    using etharp_request_ok [of sizes base s netif n a] ok n by (auto simp: link_ok_def)
  have T: "arp_table s1 = arp_table s" "etharp_cached_entry s1 = etharp_cached_entry s" "ext_same s s1" using r(3) by (simp_all add: tx_only_def)
  have ok1: "link_ok sizes base s1" by (rule link_ok_same_memory [OF ok r(2) T(1,2)])
  have il: "i < length (arp_table s)" using ok i(1) by (simp add: link_ok_def arp_ok_def)
  have fr: "link_frame {} s s1" by (rule link_frame_same_memory [OF r(2) T(1)])
  have pk1: "sendable (pbufs s1) q xs" using pk(1) r(2) by (simp add: same_memory_def)
  have cd: "chain_data s1 xs = chain_data s xs" using link_frame_owned(3) [OF fr sendable_owned [OF pk(1)] pk(2)] by simp
  obtain e s' where q: "query_queue i q req s1 = Some (e, s')" "link_ok sizes base s'" "ext_same s1 s'" "tx s' = tx s1"
    "queue_post sizes base i (chain_data s1 xs) req s1 e s'"
    using query_queue_ok [OF ok1 i(1), of q xs req] i(2) T(1) pk1 sendable_plen [OF pk1] by (auto simp: sendable_def)
  have "link_frame {} s s'" using link_frame_trans [OF fr queue_post_frame [OF q(5)]] il T(1) by simp
  moreover have "(\<forall>j. j \<noteq> i \<longrightarrow> arp_table s' ! j = arp_table s ! j) \<and> arp_ipaddr (arp_table s' ! i) = arp_ipaddr (arp_table s ! i)
    \<and> arp_state (arp_table s' ! i) = ETHARP_STATE_PENDING"
    using q(5) T(1) i(2) il unfolding queue_post_def by auto
  moreover have "e = req \<and> arp_q (arp_table s' ! i) = arp_q (arp_table s ! i)
       \<or> e = ERR_OK \<and> (\<exists>r p. arp_q (arp_table s' ! i) = arp_q (arp_table s ! i) @ [(r, p)] \<and> pbuf_data s' p = chain_data s xs)"
    using q(5) T(1) il unfolding queue_post_def cd by auto
  ultimately show ?thesis
    using r(1,3,4) q(1,2,4) ext_same_trans [OF T(3) q(3)] by metis
qed

lemma etharp_query_ok:
  fixes s :: "'a link_state_scheme"
  assumes ok: "link_ok sizes base s" and pk: "sendable (pbufs s) q xs" "set xs \<inter> held s = {}" and n: "eth_netif (netifs s) netif n"
  shows "\<exists>e s'. etharp_query netif a q s = Some (e, s') \<and> link_ok sizes base s' \<and> ext_same s s' \<and> link_frame {q} s s'
    \<and> query_post netif n a (chain_data s xs) s e s'"
proof (cases "non_unicast a n")
  case True
  then show ?thesis
    using n ok by (simp add: etharp_query_def eth_netif_def non_unicast_def query_post_def disj_ac)
next
  case uni: False
  let ?T = "arp_table s"
  obtain i s1 where f: "find_entry (Some a) ETHARP_TRY_HARD s = Some (Inr i, s1)" "i < ARP_TABLE_SIZE" and
    f': "let s2 = (if arp_state (arp_table s1 ! i) = ETHARP_STATE_EMPTY then set_entry i (\<lambda>e. e\<lparr>arp_state := ETHARP_STATE_PENDING\<rparr>) s1 else s1)
       in link_ok sizes base s2 \<and> ext_same s s2 \<and> tx s2 = tx s \<and> bytes s2 = bytes s \<and> link_frame {} s s2
        \<and> arp_ipaddr (arp_table s2 ! i) = a \<and> (\<forall>j. j \<noteq> i \<longrightarrow> arp_table s2 ! j = arp_table s ! j)
        \<and> (if known a (arp_table s) then arp_table s2 = arp_table s \<and> pbufs s2 = pbufs s \<and> arp_state (arp_table s ! i) \<noteq> ETHARP_STATE_EMPTY
           else recycles (arp_table s) i \<and> arp_state (arp_table s2 ! i) = ETHARP_STATE_PENDING \<and> arp_q (arp_table s2 ! i) = [])"
    using query_find [OF ok, of a] by blast
  define s2 where "s2 = (if arp_state (arp_table s1 ! i) = ETHARP_STATE_EMPTY then set_entry i (\<lambda>e. e\<lparr>arp_state := ETHARP_STATE_PENDING\<rparr>) s1 else s1)"
  have s2: "link_ok sizes base s2" "ext_same s s2" "tx s2 = tx s" "bytes s2 = bytes s" "link_frame {} s s2" "arp_ipaddr (arp_table s2 ! i) = a"
    "\<forall>j. j \<noteq> i \<longrightarrow> arp_table s2 ! j = ?T ! j"
    "if known a ?T then arp_table s2 = ?T \<and> pbufs s2 = pbufs s \<and> arp_state (?T ! i) \<noteq> ETHARP_STATE_EMPTY
       else recycles ?T i \<and> arp_state (arp_table s2 ! i) = ETHARP_STATE_PENDING \<and> arp_q (arp_table s2 ! i) = []"
    using f' unfolding Let_def s2_def [symmetric] by blast+
  have n2: "eth_netif (netifs s2) netif n" "netifs s netif = Some n" using n s2(2) by (simp_all add: ext_same_def eth_netif_def)
  note fo = link_frame_owned [OF s2(5) sendable_owned [OF pk(1)] pk(2)]
  have pk2: "sendable (pbufs s2) q xs" "set xs \<inter> held s2 = {}" "chain_data s2 xs = chain_data s xs"
    using sendable_frame [OF s2(5) pk] fo by simp_all
  have q0: "q \<noteq> NULL" using pk(1) by (auto simp: sendable_def elim: packet_head)
  have st: "arp_state (arp_table s2 ! i) = ETHARP_STATE_PENDING \<or> arp_state (arp_table s2 ! i) = ETHARP_STATE_STABLE"
    using s2(8) by (cases "arp_state (arp_table s2 ! i)") (auto split: if_splits)
  have run: "etharp_query netif a q s = (if arp_state (arp_table s2 ! i) = ETHARP_STATE_STABLE
      then etharp_send_ip netif q (nif_hwaddr n) (arp_ethaddr (arp_table s2 ! i)) s2
      else do { (result, s) \<leftarrow> etharp_request netif a s2;
             if arp_state (arp_table s ! i) = ETHARP_STATE_STABLE
              then etharp_send_ip netif q (nif_hwaddr n) (arp_ethaddr (arp_table s ! i)) s
              else if arp_state (arp_table s ! i) = ETHARP_STATE_PENDING then query_queue i q result s
              else Some (result, s) })"
    using uni f(1) n2(2) q0 st unfolding etharp_query_def non_unicast_def by (auto simp: s2_def [symmetric] Let_def)
  show ?thesis
  proof (cases "arp_state (arp_table s2 ! i) = ETHARP_STATE_STABLE")
    case True
    then have k: "known a ?T" "arp_table s2 = ?T" using s2(8) by (auto split: if_splits)
    have l: "length (arp_ethaddr (arp_table s2 ! i)) = 6" using arp_okD(1) [of sizes base s2 i] s2(1) f(2) by (simp add: link_ok_def entry_ok_def)
    obtain s' where "etharp_send_ip netif q (nif_hwaddr n) (arp_ethaddr (arp_table s2 ! i)) s2 = Some (ERR_OK, s')" "link_ok sizes base s'"
      "ext_same s2 s'" "arp_table s' = arp_table s2" "tx s' = tx s2 @ [(netif, eth_header (arp_ethaddr (arp_table s2 ! i)) (nif_hwaddr n) ETHTYPE_IP @ drop 14 (chain_data s2 xs))]"
      "link_frame {q} s2 s'"
      using query_send_stable [OF s2(1) pk2(1) n2(1) pk2(2) l] by blast
    then show ?thesis
      using run True uni k s2(2,3,6) pk2(3) f(2) ext_same_trans [OF s2(2)] link_frame_trans [OF s2(5)]
      by (intro exI [of _ ERR_OK] exI [of _ s']) (auto simp: query_post_def matches_def)
  next
    case False
    then have pe: "arp_state (arp_table s2 ! i) = ETHARP_STATE_PENDING" using st by simp
    obtain req s3 e s' where p: "etharp_request netif a s2 = Some (req, s3)" "query_queue i q req s3 = Some (e, s')" "tx_only s2 s3"
      "link_ok sizes base s'" "ext_same s2 s'" "link_frame {} s2 s'" "\<forall>j. j \<noteq> i \<longrightarrow> arp_table s' ! j = arp_table s2 ! j"
      "arp_ipaddr (arp_table s' ! i) = arp_ipaddr (arp_table s2 ! i)" "arp_state (arp_table s' ! i) = ETHARP_STATE_PENDING"
      "req = ERR_MEM \<and> tx s' = tx s2
       \<or> req = ERR_OK \<and> tx s' = tx s2 @ [(netif, arp_frame ethbroadcast (nif_hwaddr n) 1 (nif_hwaddr n) (nif_ip_addr n) ethzero a)]"
      "e = req \<and> arp_q (arp_table s' ! i) = arp_q (arp_table s2 ! i)
       \<or> e = ERR_OK \<and> (\<exists>r p. arp_q (arp_table s' ! i) = arp_q (arp_table s2 ! i) @ [(r, p)] \<and> pbuf_data s' p = chain_data s2 xs)"
      using query_pending [OF s2(1) f(2) pe pk2(1,2) n2(1), of a] by blast
    have "etharp_query netif a q s = Some (e, s')" using run pe p(1-3) by (simp add: tx_only_def)
    moreover have "link_frame {q} s s'" using link_frame_mono [OF link_frame_trans [OF s2(5) p(6)]] by simp
    moreover have "query_post netif n a (chain_data s xs) s e s'"
    proof -
      have w: "arp_q (arp_table s2 ! i) = (if known a ?T then arp_q (?T ! i) else [])" using s2(8) by simp
      have m: "if known a ?T then matches (Some a) (?T ! i) else recycles ?T i" using s2(6,8) by (auto simp: matches_def split: if_splits)
      have ns: "\<not> (known a ?T \<and> arp_state (?T ! i) = ETHARP_STATE_STABLE)" using s2(8) pe by auto
      have o: "\<forall>j. j \<noteq> i \<longrightarrow> arp_table s' ! j = ?T ! j" using p(7) s2(7) by simp
      show ?thesis
        using uni m ns o p(8-11) s2(3,6) f(2) unfolding query_post_def w pk2(3) by auto
    qed
    ultimately show ?thesis using p(4) ext_same_trans [OF s2(2) p(5)] by blast
  qed
qed

section \<open>Output\<close>

definition next_hop :: "netif \<Rightarrow> u32_t \<Rightarrow> u32_t option" where
  "next_hop n a = (if ip_addr_netcmp a (nif_ip_addr n) (nif_netmask n) then Some a else if nif_gw n \<noteq> 0 then Some (nif_gw n) else None)"

text \<open>
  \<open>etharp_output\<close> with room for the header: \<open>v\<close> is the frame, \<open>s\<close> the state with the header revealed.
\<close>

definition output_post :: "addr \<Rightarrow> netif \<Rightarrow> u32_t \<Rightarrow> u8_t list \<Rightarrow> 'a link_state_scheme \<Rightarrow> err_t \<Rightarrow> 'a link_state_scheme \<Rightarrow> bool" where
  "output_post netif n a v s e s' \<longleftrightarrow>
     (if ip_addr_isbroadcast a n \<or> ip_addr_ismulticast a
      then e = ERR_OK \<and> arp_table s' = arp_table s
        \<and> tx s' = tx s @ [(netif, eth_header (if ip_addr_isbroadcast a n then ethbroadcast else mcast_ethaddr a) (nif_hwaddr n) ETHTYPE_IP @ drop 14 v)]
      else case next_hop n a of None \<Rightarrow> e = ERR_RTE \<and> s' = s | Some h \<Rightarrow> query_post netif n h v s e s')"

definition reveal :: "addr \<Rightarrow> pbuf \<Rightarrow> nat \<Rightarrow> 'a net_state_scheme \<Rightarrow> 'a net_state_scheme" where
  "reveal q b n s = put_pbuf q (b\<lparr>payload := payload b - n, len := len b + n, tot_len := tot_len b + n\<rparr>) s"

lemma reveal_simps [simp]:
  "pbufs (reveal q b n s) = (pbufs s)(q \<mapsto> b\<lparr>payload := payload b - n, len := len b + n, tot_len := tot_len b + n\<rparr>)"
  "bytes (reveal q b n s) = bytes s" "memp (reveal q b n s) = memp s" "ram_heap (reveal q b n s) = ram_heap s"
  by (simp_all add: reveal_def)

lemma reveal_ext [simp]: "net_state.more (reveal q b n s) = net_state.more s"
  by (simp add: reveal_def put_pbuf_def)

lemma sendable_reveal:
  assumes ok: "net_ok sizes base s" and pk: "packet (pbufs s) q xs" "owned (pbufs s) xs" "filled (pbufs s) xs" "plen (pbufs s) xs \<le> 1500"
    and b: "pbufs s q = Some b" and room: "q + SIZEOF_STRUCT_PBUF + 14 \<le> payload b"
  shows "pbuf_header q 14 s = Some (False, reveal q b 14 s)" and "net_ok sizes base (reveal q b 14 s)"
    and "sendable (pbufs (reveal q b 14 s)) q xs" and "drop 14 (chain_data (reveal q b 14 s) xs) = chain_data s xs"
proof -
  obtain ys where ys: "xs = q # ys" "tot_len b = len b + plen (pbufs s) ys" "q \<notin> set ys" using packet_head [OF pk(1)] b by (metis option.inject)
  have ty: "ptype b = PBUF_RAM \<or> ptype b = PBUF_POOL" using pk(2) ys(1) b by (simp add: owned_def)
  obtain s' where s': "pbuf_header q (int 14) s = Some (False, s')" "s' = reveal q b 14 s" "net_ok sizes base s'" "packet (pbufs s') q xs"
    "chain_data s' xs = map (bytes s) [payload b - 14..<payload b] @ chain_data s xs"
    using pbuf_header_reveal(2) [OF ok pk(1) _ b ty, of 14] room pk(4) ys b by (auto simp: reveal_def)
  show "pbuf_header q 14 s = Some (False, reveal q b 14 s)" "net_ok sizes base (reveal q b 14 s)" using s'(1-3) by simp_all
  show "drop 14 (chain_data (reveal q b 14 s) xs) = chain_data s xs" using s'(2,5) room by simp
  have "owned (pbufs s') xs" "filled (pbufs s') xs" using pk(2,3) ty s'(2) b by (auto simp: owned_def filled_def list_all_iff ys(1))
  moreover have "plen (pbufs s') xs = plen (pbufs s) xs + 14" using ys b by (simp add: s'(2) plen_upd_out)
  ultimately show "sendable (pbufs (reveal q b 14 s)) q xs" using s'(2,4) pk(4) by (simp add: sendable_def)
qed

lemma link_ok_reveal:
  assumes "link_ok sizes base s" and "net_ok sizes base (reveal q b n s)" and "q \<notin> held s"
  shows "link_ok sizes base (reveal q b n s)" and "held (reveal q b n s) = held s" and "ext_same s (reveal q b n s)"
    and "arp_table (reveal q b n s) = arp_table s" and "tx (reveal q b n s) = tx s"
proof -
  note m = more_netif [OF reveal_ext] more_link [OF reveal_ext]
  show "ext_same s (reveal q b n s)" by (rule ext_same_more) simp
  show T: "arp_table (reveal q b n s) = arp_table s" "tx (reveal q b n s) = tx s" by (rule m)+
  show "held (reveal q b n s) = held s" by (simp add: held_def T)
  have ce: "etharp_cached_entry (reveal q b n s) = etharp_cached_entry s" by (rule m)
  have arp: "arp_ok sizes base s" using assms(1) by (simp add: link_ok_def)
  have "list_all (queue_elem sizes base (reveal q b n s)) (queued (arp_table s))"
    unfolding list_all_iff
  proof
    fix y
    assume y: "y \<in> set (queued (arp_table s))"
    obtain r p where rp: "y = (r, p)" by (cases y)
    have "p \<noteq> q" using assms(3) y rp by (force simp: held_def)
    moreover have "queue_elem sizes base s (r, p)" using arp y rp by (simp add: arp_ok_def list_all_iff)
    ultimately show "queue_elem sizes base (reveal q b n s) y" unfolding rp using queue_elem_upd [of sizes base s r p "reveal q b n s"] by simp
  qed
  then show "link_ok sizes base (reveal q b n s)" using assms(2) arp by (simp add: link_ok_def arp_ok_def T ce)
qed

lemma etharp_output_no_room:
  assumes ok: "net_ok sizes base s" and pk: "packet (pbufs s) q xs" "owned (pbufs s) xs" "plen (pbufs s) xs \<le> 1500"
    and b: "pbufs s q = Some b" and room: "payload b < q + SIZEOF_STRUCT_PBUF + 14"
  shows "etharp_output netif q a s = Some (ERR_BUF, s)"
proof -
  obtain ys where ys: "xs = q # ys" "tot_len b = len b + plen (pbufs s) ys" using packet_head [OF pk(1)] b by (metis option.inject)
  have "ptype b = PBUF_RAM \<or> ptype b = PBUF_POOL" using pk(2) ys(1) b by (simp add: owned_def)
  then have "pbuf_header q (int 14) s = Some (True, s)"
    using pbuf_header_reveal(1) [OF ok pk(1) _ b, of 14] room pk(3) ys b by simp
  then show ?thesis by (simp add: etharp_output_def etharp_consts)
qed

lemma etharp_output_ok:
  fixes s :: "'a link_state_scheme"
  assumes ok: "link_ok sizes base s" and pk: "packet (pbufs s) q xs" "owned (pbufs s) xs" "filled (pbufs s) xs" "plen (pbufs s) xs \<le> 1500"
    and xs: "set xs \<inter> held s = {}" and n: "eth_netif (netifs s) netif n"
    and b: "pbufs s q = Some b" and room: "q + SIZEOF_STRUCT_PBUF + 14 \<le> payload b"
  shows "\<exists>e s'. etharp_output netif q a s = Some (e, s') \<and> link_ok sizes base s' \<and> ext_same s s' \<and> link_frame {q} (reveal q b 14 s) s'
    \<and> output_post netif n a (chain_data (reveal q b 14 s) xs) (reveal q b 14 s) e s'"
proof -
  let ?s = "reveal q b 14 s"
  note hd = sendable_reveal [OF _ pk b room]
  have net: "net_ok sizes base s" using ok by (simp add: link_ok_def)
  have q: "q \<in> set xs" by (rule packet_head [OF pk(1)]) simp
  then have "q \<notin> held s" using xs by auto
  note lr = link_ok_reveal [OF ok hd(2) [OF net] this]
  have n1: "eth_netif (netifs ?s) netif n" and ns: "netifs ?s netif = Some n" using n lr(3) by (simp_all add: ext_same_def eth_netif_def)
  have xs1: "set xs \<inter> held ?s = {}" using xs lr(2) by simp
  have run: "etharp_output netif q a s =
      (if ip_addr_isbroadcast a n then etharp_send_ip netif q (nif_hwaddr n) ethbroadcast ?s
       else if ip_addr_ismulticast a then etharp_send_ip netif q (nif_hwaddr n) (mcast_ethaddr a) ?s
       else case next_hop n a of None \<Rightarrow> Some (ERR_RTE, ?s) | Some h \<Rightarrow> etharp_query netif h q ?s)"
    using hd(1) [OF net] ns by (simp add: etharp_output_def etharp_consts next_hop_def)
  show ?thesis
  proof (cases "ip_addr_isbroadcast a n \<or> ip_addr_ismulticast a")
    case True
    let ?dst = "if ip_addr_isbroadcast a n then ethbroadcast else mcast_ethaddr a"
    have "length ?dst = 6" by (simp add: ethbroadcast_def mcast_ethaddr_def)
    from query_send_stable [OF lr(1) hd(3) [OF net] n1 xs1 this] obtain s' where
      "etharp_send_ip netif q (nif_hwaddr n) ?dst ?s = Some (ERR_OK, s')" "link_ok sizes base s'" "ext_same ?s s'" "arp_table s' = arp_table ?s"
      "tx s' = tx ?s @ [(netif, eth_header ?dst (nif_hwaddr n) ETHTYPE_IP @ drop 14 (chain_data ?s xs))]" "link_frame {q} ?s s'" by blast
    then show ?thesis
      using run True ext_same_trans [OF lr(3)] by (intro exI [of _ ERR_OK] exI [of _ s']) (auto simp: output_post_def)
  next
    case False
    show ?thesis
    proof (cases "next_hop n a")
      case None
      then show ?thesis using run False lr(1,3) by (intro exI [of _ ERR_RTE] exI [of _ ?s]) (simp add: output_post_def)
    next
      case (Some h)
      then show ?thesis
        using run False etharp_query_ok [OF lr(1) hd(3) [OF net] xs1 n1, of h] ext_same_trans [OF lr(3)] by (auto simp: output_post_def)
    qed
  qed
qed

section \<open>Uniqueness and bounds\<close>

lemma matches_unique:
  assumes "arp_ok sizes base s" and "i < ARP_TABLE_SIZE" "j < ARP_TABLE_SIZE" and "matches (Some a) (arp_table s ! i)" "matches (Some a) (arp_table s ! j)"
  shows "i = j"
proof (rule ccontr)
  assume ne: "i \<noteq> j"
  let ?T = "arp_table s"
  have il: "i < length ?T" and jl: "j < length ?T" using assms(1-3) by (simp_all add: arp_ok_def)
  obtain A B where T: "?T = A @ ?T ! i # B" "length A = i" using table_split [OF il] by metis
  have "?T ! j \<in> set A \<union> set B"
  proof (cases "j < i")
    case True
    then show ?thesis by (subst T(1)) (simp add: nth_append T(2))
  next
    case False
    then have "?T ! j = B ! (j - Suc i)" using ne by (subst T(1)) (simp add: nth_append T(2) nth_Cons')
    moreover have "length ?T = Suc (i + length B)" by (subst T(1)) (simp add: T(2))
    ultimately show ?thesis using False ne jl by simp
  qed
  then have "a \<in> set (known_ips A) \<union> set (known_ips B)" using assms(5) by (auto simp: known_ips_matches)
  moreover have "known_ips ?T = known_ips A @ [a] @ known_ips B"
    using assms(4) by (subst T(1)) (auto simp: known_ips_simps matches_def is_empty_def)
  ultimately show False using assms(1) by (auto simp: arp_ok_def)
qed

lemma queued_bound:
  assumes "link_ok sizes base s"
  shows "length (queued (arp_table s)) \<le> memp_num MEMP_ARP_QUEUE"
proof -
  let ?Q = "queued (arp_table s)" and ?S = "filter (\<lambda>(p, u). u = MEMP_ARP_QUEUE) (memp_slots sizes base)"
  have ok: "memp_ok sizes base (memp s)" "arp_ok sizes base s" using assms net_okD(2) by (auto simp: link_ok_def)
  have "fst x \<in> set (map fst ?S)" if "x \<in> set ?Q" for x
  proof -
    have "memp_live sizes base (memp s) (fst x) = Some MEMP_ARP_QUEUE"
      using ok(2) that by (auto simp: arp_ok_def list_all_iff queue_elem_def)
    then show ?thesis using memp_live_iff [OF ok(1)] by force
  qed
  then have "set (map fst ?Q) \<subseteq> set (map fst ?S)" by auto
  then have "card (set (map fst ?Q)) \<le> card (set (map fst ?S))" by (intro card_mono) simp_all
  moreover have "card (set (map fst ?Q)) = length ?Q" using ok(2) distinct_card [of "map fst ?Q"] by (simp add: arp_ok_def)
  moreover have "card (set (map fst ?S)) \<le> memp_num MEMP_ARP_QUEUE"
    using card_length [of "map fst ?S"] length_slots_of [of MEMP_ARP_QUEUE sizes base] by simp
  ultimately show ?thesis by simp
qed

lemma length_queued_update:
  assumes "i < length T" and "length T' = length T" and "\<forall>j. j \<noteq> i \<longrightarrow> T' ! j = T ! j"
  shows "length (queued T') + length (arp_q (T ! i)) = length (queued T) + length (arp_q (T' ! i))"
proof -
  obtain A B where T: "T = A @ T ! i # B" "\<And>e. T[i := e] = A @ e # B" using table_split [OF assms(1)] by metis
  have "T' = T[i := T' ! i]" using assms by (intro nth_equalityI) (auto simp: nth_list_update)
  then have "queued T' = queued A @ arp_q (T' ! i) @ queued B" unfolding T(2) by (metis queued_simps)
  moreover have "queued T = queued A @ arp_q (T ! i) @ queued B" by (subst T(1)) (rule queued_simps)
  ultimately show ?thesis by simp
qed

section \<open>An example\<close>

definition example_netif :: netif where
  "example_netif = \<lparr>nif_ip_addr = 0x0100000a, nif_netmask = 0x00ffffff, nif_gw = 0xfe00000a, nif_mtu = 1500, nif_hwaddr_len = 6,
     nif_hwaddr = [2, 0, 0, 0, 0, 1], nif_flags = 0x23, nif_name = (116, 112), nif_num = 0\<rparr>"

definition empty_entry :: etharp_entry where
  "empty_entry = \<lparr>arp_q = [], arp_ipaddr = 0, arp_ethaddr = ethzero, arp_state = ETHARP_STATE_EMPTY, arp_ctime = 0, arp_netif = NULL\<rparr>"

definition example_link :: link_state where
  "example_link = \<lparr>ram_heap = mem_init 1000, memp = memp_init example_sizes 20000, pbufs = Map.empty, bytes = (\<lambda>_. 0),
     netifs = [5000 \<mapsto> example_netif], netif_list = [5000], netif_default = 5000, tx = [],
     arp_table = replicate 10 empty_entry, etharp_cached_entry = 0\<rparr>"

lemma example_link_ok: "link_ok example_sizes 20000 example_link" and example_eth_netif: "eth_netif (netifs example_link) 5000 example_netif"
proof -
  have "net_ok example_sizes 20000 example_link"
    by (rule net_ok_same [OF example_net_ok]) (simp_all add: example_link_def example_net_def)
  moreover have "arp_ok example_sizes 20000 example_link"
    by (simp add: arp_ok_def example_link_def empty_entry_def entry_ok_def queued_def known_ips_def is_empty_def etharp_consts ethzero_def list_all_iff)
  ultimately show "link_ok example_sizes 20000 example_link" by (simp add: link_ok_def)
  show "eth_netif (netifs example_link) 5000 example_netif" by (simp add: eth_netif_def example_link_def example_netif_def)
qed

lemma example_unicast: "\<not> non_unicast 0x0200000a example_netif"
  by (simp add: non_unicast_def ip_addr_isany_def ip_addr_isbroadcast_def ip_addr_ismulticast_def example_netif_def NETIF_FLAG_BROADCAST_def ip_addr_netcmp_def
      ntohl_def htonl_def)

text \<open>An allocation on the heap whose blocks are known.\<close>

lemma pbuf_alloc_ram_blocks:
  assumes "heap_rep (ram_heap s) bs" and "find_fit (request (24 + layer_offset layer + k)) bs = Some a" and "24 + layer_offset layer + k < 65536"
  shows "\<exists>s'. pbuf_alloc layer k PBUF_RAM s = Some (ram (ram_heap s) + a + SIZEOF_STRUCT_MEM, s') \<and> ram (ram_heap s') = ram (ram_heap s)
    \<and> heap_rep (ram_heap s') (alloc_blocks (request (24 + layer_offset layer + k)) bs) \<and> memp s' = memp s"
proof -
  obtain h where h: "mem_malloc (ram_heap s) (24 + layer_offset layer + k) = Some (ram (ram_heap s) + a + SIZEOF_STRUCT_MEM, h)"
    "ram h = ram (ram_heap s)" "heap_rep h (alloc_blocks (request (24 + layer_offset layer + k)) bs)"
    using mem_malloc_Some [OF assms(1) _ assms(3,2)] by auto
  moreover have "u16 (24 + layer_offset layer + k) = 24 + layer_offset layer + k" using assms(3) by (simp add: u16_def)
  ultimately show ?thesis by (simp add: pbuf_alloc_def lwip_simps Let_def MEM_ALIGNMENT_def)
qed

lemma example_enqueue:
  fixes s :: "'a link_state_scheme"
  assumes ok: "link_ok sizes base s" and i: "arp_state (arp_table s ! 0) = ETHARP_STATE_PENDING" and h: "heap_rep (ram_heap s) bs" "find_fit 44 bs = Some a"
    and m: "card {x. memp_live sizes base (memp s) x = Some MEMP_ARP_QUEUE} < 2"
  shows "\<exists>r p s'. link_ok sizes base s' \<and> arp_table s' = (arp_table s)[0 := (arp_table s ! 0)\<lparr>arp_q := arp_q (arp_table s ! 0) @ [(r, p)]\<rparr>]
    \<and> ext_same s s' \<and> heap_rep (ram_heap s') (alloc_blocks 44 bs) \<and> ram (ram_heap s') = ram (ram_heap s)
    \<and> memp_live sizes base (memp s) r = None \<and> memp_live sizes base (memp s') = (memp_live sizes base (memp s))(r \<mapsto> MEMP_ARP_QUEUE)"
proof -
  have net: "net_ok sizes base s" using ok by (simp add: link_ok_def)
  obtain p s1 where p: "pbuf_alloc PBUF_RAW 20 PBUF_RAM s = Some (p, s1)" "p \<noteq> NULL" "heap_rep (ram_heap s1) (alloc_blocks 44 bs)"
    "ram (ram_heap s1) = ram (ram_heap s)" "memp s1 = memp s"
    using pbuf_alloc_ram_blocks [of s bs PBUF_RAW 20 a] h by (auto simp: lwip_simps request_def)
  then have q: "net_ok sizes base s1" "net_state.more s1 = net_state.more s" "packet (pbufs s1) p [p]" "plen (pbufs s1) [p] = 20"
    "pool_kind (pbufs s1) PBUF_RAM [p]" "pbufs s p = None" "\<forall>x. x \<noteq> p \<longrightarrow> pbufs s1 x = pbufs s x"
    using fresh_alloc_ram [OF net, of PBUF_RAW 20] by (auto simp: lwip_simps)
  note more = more_netif(4) [OF q(2)] more_link(1,2) [OF q(2)] ext_same_more [OF q(2)]
  obtain r m' where r: "memp_malloc (memp s1) MEMP_ARP_QUEUE = Some (r, m')" "net_ok sizes base (s1\<lparr>memp := m'\<rparr>)" "r \<noteq> NULL"
    "memp_live sizes base (memp s1) r = None" "memp_live sizes base m' = (memp_live sizes base (memp s1))(r \<mapsto> MEMP_ARP_QUEUE)"
  proof -
    obtain r m' where r: "memp_malloc (memp s1) MEMP_ARP_QUEUE = Some (r, m')" "net_ok sizes base (s1\<lparr>memp := m'\<rparr>)"
      "if r = NULL then m' = memp s1 else memp_live sizes base (memp s1) r = None \<and> memp_live sizes base m' = (memp_live sizes base (memp s1))(r \<mapsto> MEMP_ARP_QUEUE)"
      using memp_take_ok [OF q(1), of MEMP_ARP_QUEUE] by auto
    have "r \<noteq> NULL"
    proof
      assume "r = NULL"
      then have "memp_frees (memp s1) MEMP_ARP_QUEUE = []"
        using r(1) memp_malloc_cases(2) [OF net_okD(2) [OF q(1)], of MEMP_ARP_QUEUE] by (cases "memp_frees (memp s1) MEMP_ARP_QUEUE") fastforce+
      from memp_exhausted [OF net_okD(2) [OF q(1)] this] m p(5) show False by simp
    qed
    then show ?thesis using r that by auto
  qed
  let ?s1 = "s1\<lparr>memp := m'\<rparr>"
  have qp: "queued_pbuf (pbufs ?s1) p" using q(3-5) p(2) by (auto simp: packet_simps pool_kind_def queued_pbuf_def)
  have "link_ok sizes base (set_entry 0 (\<lambda>e. e\<lparr>arp_q := arp_q e @ [(r, p)]\<rparr>) ?s1)"
    using i r(4,5) q(6,7) p(5) more by (intro link_ok_enqueue [OF ok _ _ r(2) qp]) (simp_all add: etharp_consts)
  then show ?thesis
    using p r more by (intro exI [of _ r] exI [of _ p] exI [of _ "set_entry 0 (\<lambda>e. e\<lparr>arp_q := arp_q e @ [(r, p)]\<rparr>) ?s1"]) (simp add: ext_same_def)
qed

text \<open>A packet of \<open>k\<close> bytes on the heap.\<close>

lemma example_packet:
  fixes s :: "'a link_state_scheme"
  assumes ok: "link_ok sizes base s" and h: "heap_rep (ram_heap s) bs" "find_fit (request (24 + layer_offset layer + k)) bs = Some a"
    and k: "0 < k" "24 + layer_offset layer + k < 65536"
  shows "\<exists>q s'. link_ok sizes base s' \<and> ext_same s s' \<and> arp_table s' = arp_table s \<and> tx s' = tx s \<and> packet (pbufs s') q [q] \<and> owned (pbufs s') [q]
    \<and> filled (pbufs s') [q] \<and> plen (pbufs s') [q] = k \<and> pfield (pbufs s') len q = k \<and> q \<notin> held s' \<and> pfield (pbufs s') payload q = q + (24 + layer_offset layer) \<and> sole (pbufs s') [q]"
proof -
  have net: "net_ok sizes base s" and arp: "arp_ok sizes base s" using ok by (simp_all add: link_ok_def)
  obtain p s1 where p: "pbuf_alloc layer k PBUF_RAM s = Some (p, s1)" "p \<noteq> NULL" "memp s1 = memp s"
    using pbuf_alloc_ram_blocks [of s bs layer k a] h k by (auto simp: lwip_simps)
  then have q: "net_ok sizes base s1" "net_state.more s1 = net_state.more s" "packet (pbufs s1) p [p]" "plen (pbufs s1) [p] = k"
    "pool_kind (pbufs s1) PBUF_RAM [p]" "pbufs s p = None" "\<forall>x. x \<noteq> p \<longrightarrow> pbufs s1 x = pbufs s x" "pfield (pbufs s1) payload p = p + (24 + layer_offset layer)"
    using fresh_alloc_ram [OF net, of layer k] k(2) by auto
  note more = more_netif(4) [OF q(2)] more_link(1,2) [OF q(2)] ext_same_more [OF q(2)]
  have l: "list_all (queue_elem sizes base s) (queued (arp_table s))" using arp by (simp add: arp_ok_def)
  have np: "x \<noteq> p" if "(r, x) \<in> set (queued (arp_table s))" for r x
    using l that q(6) by (auto simp: list_all_iff queue_elem_def queued_pbuf_def)
  have "list_all (queue_elem sizes base s1) (queued (arp_table s))"
    unfolding list_all_iff
  proof
    fix y
    assume y: "y \<in> set (queued (arp_table s))"
    obtain r x where rx: "y = (r, x)" by (cases y)
    have "queue_elem sizes base s (r, x)" using l y rx by (simp add: list_all_iff)
    then show "queue_elem sizes base s1 y" using q(7) np [of r x] y rx p(3) queue_elem_upd [of sizes base s r x s1] by simp
  qed
  then have "link_ok sizes base s1" using arp q(1) more by (simp add: link_ok_def arp_ok_def)
  moreover have "p \<notin> held s1" using np [of _ p] more(2) by (auto simp: held_def)
  moreover have "filled (pbufs s1) [p]" "pfield (pbufs s1) len p = k" using q(4) k(1) by (simp_all add: filled_def)
  ultimately show ?thesis using q more pool_kind_owned [OF q(5)] pool_kind_sole [OF q(5)] by (intro exI [of _ p] exI [of _ s1]) simp
qed

section \<open>Properties\<close>

text \<open>
  \<open>find_entry\<close> with an address never aborts and keeps the invariant of the table. A match is
  returned and only the cache index changes. Without a match the table is left alone and the result is
  \<open>ERR_MEM\<close> if the caller may only search, or may not recycle and no entry is empty; else the result is an
  entry that is empty, or the oldest one of the least important kind (stable, pending, pending with a
  queue), whose queue was released, and which carries the new address.
\<close>

theorem find_entry_correct:
  assumes "link_ok sizes base s"
  shows "\<exists>r s'. find_entry (Some a) fl s = Some (r, s') \<and> link_ok sizes base s' \<and> ext_same s s' \<and> tx s' = tx s
    \<and> find_post sizes base a fl s r s'"
  using find_entry_ok [OF assms] by blast

theorem find_entry_correct_witness:
  "\<exists>r s'. find_entry (Some 0x0200000a) ETHARP_TRY_HARD example_link = Some (r, s') \<and> link_ok example_sizes 20000 s'"
  using find_entry_correct [OF example_link_ok] by blast

text \<open>
  Claim C30. The ARP timer never aborts: every entry gets older by one tick, exactly the entries that
  reach their maximal age become empty, and exactly the packets and queue elements of these are released.
\<close>

theorem etharp_tmr_correct:
  assumes "link_ok sizes base s"
  shows "\<exists>s'. etharp_tmr s = Some s' \<and> link_ok sizes base s' \<and> ext_same s s' \<and> tx s' = tx s
    \<and> arp_table s' = map etharp_tick (arp_table s) \<and> freed sizes base (concat (map etharp_gone (arp_table s))) s s'"
  using etharp_tmr_ok [OF assms] .

theorem etharp_tmr_correct_witness:
  "\<exists>s'. etharp_tmr example_link = Some s' \<and> arp_table s' = map etharp_tick (replicate 10 empty_entry)"
  using etharp_tmr_correct [OF example_link_ok] by (auto simp: example_link_def)

text \<open>Running the timer \<open>n\<close> times.\<close>

fun etharp_tmrs :: "nat \<Rightarrow> 'a link_state_scheme \<Rightarrow> 'a link_state_scheme option" where
  "etharp_tmrs 0 s = Some s"
| "etharp_tmrs (Suc n) s = do { s \<leftarrow> etharp_tmr s; etharp_tmrs n s }"

text \<open>The ticks an entry has left.\<close>

definition ticks_left :: "etharp_entry \<Rightarrow> nat" where
  "ticks_left e = (case arp_state e of ETHARP_STATE_EMPTY \<Rightarrow> 0
     | ETHARP_STATE_PENDING \<Rightarrow> 2 - unat (arp_ctime e) | ETHARP_STATE_STABLE \<Rightarrow> 240 - unat (arp_ctime e))"

lemma ticks_left_bound: "ticks_left e \<le> 240"
proof -
  have "2 - k \<le> (240::nat)" for k by arith
  then show ?thesis by (simp add: ticks_left_def split: etharp_state.split)
qed

lemma ticks_left_empty: "entry_ok e \<Longrightarrow> ticks_left e = 0 \<longleftrightarrow> is_empty e"
  by (auto simp: ticks_left_def is_empty_def entry_ok_def etharp_consts word_less_nat_alt split: etharp_state.splits)

lemma ctime_Suc: "x < ARP_MAXAGE \<Longrightarrow> unat (x + 1) = Suc (unat x)"
  by (simp add: etharp_consts word_less_nat_alt unat_word_ariths)

lemma ticks_left_tick: "entry_ok e \<Longrightarrow> ticks_left (etharp_tick e) = ticks_left e - 1"
proof -
  assume e: "entry_ok e"
  show ?thesis
  proof (cases "arp_state e")
    case ETHARP_STATE_EMPTY
    then show ?thesis by (simp add: ticks_left_def etharp_tick_def etharp_expired_def)
  next
    case ETHARP_STATE_PENDING
    then have "unat (arp_ctime e) < 2" using e by (simp add: entry_ok_def etharp_consts word_less_nat_alt)
    moreover have "unat (arp_ctime e + 1) = Suc (unat (arp_ctime e))"
      using calculation by (intro ctime_Suc) (simp add: etharp_consts word_less_nat_alt)
    ultimately show ?thesis using ETHARP_STATE_PENDING
      by (auto simp: ticks_left_def etharp_tick_def etharp_expired_def etharp_consts word_le_nat_alt Let_def)
  next
    case ETHARP_STATE_STABLE
    then have "unat (arp_ctime e) < 240" using e by (simp add: entry_ok_def etharp_consts word_less_nat_alt)
    moreover have "unat (arp_ctime e + 1) = Suc (unat (arp_ctime e))"
      using calculation by (intro ctime_Suc) (simp add: etharp_consts word_less_nat_alt)
    ultimately show ?thesis using ETHARP_STATE_STABLE
      by (auto simp: ticks_left_def etharp_tick_def etharp_expired_def etharp_consts word_le_nat_alt Let_def)
  qed
qed

lemma etharp_tmrs_ok:
  "link_ok sizes base s \<Longrightarrow> \<forall>e\<in>set (arp_table s). ticks_left e \<le> n \<Longrightarrow>
     \<exists>s'. etharp_tmrs n s = Some s' \<and> link_ok sizes base s' \<and> ext_same s s' \<and> tx s' = tx s \<and> (\<forall>e\<in>set (arp_table s'). is_empty e)"
proof (induction n arbitrary: s)
  case 0
  then have "\<forall>e\<in>set (arp_table s). is_empty e" using ticks_left_empty by (auto simp: link_ok_def arp_ok_def list_all_iff)
  then show ?case using 0 by simp
next
  case (Suc n)
  obtain s1 where s1: "etharp_tmr s = Some s1" "link_ok sizes base s1" "ext_same s s1" "tx s1 = tx s" "arp_table s1 = map etharp_tick (arp_table s)"
    using etharp_tmr_ok [OF Suc.prems(1)] by blast
  have "ticks_left (etharp_tick e) \<le> n" if "e \<in> set (arp_table s)" for e
    using that Suc.prems ticks_left_tick [of e] by (force simp: link_ok_def arp_ok_def list_all_iff)
  then have "\<forall>e\<in>set (arp_table s1). ticks_left e \<le> n" using s1(5) by auto
  then obtain s' where "etharp_tmrs n s1 = Some s'" "link_ok sizes base s'" "ext_same s1 s'" "tx s' = tx s1" "\<forall>e\<in>set (arp_table s'). is_empty e"
    using Suc.IH [OF s1(2)] by blast
  then show ?case using s1 ext_same_trans [OF s1(3)] by auto
qed

text \<open>
  Claim C14. Nothing stays in the ARP table for ever: 240 timer ticks without traffic succeed and leave
  every entry empty and no packet queued; without stable entries two ticks do.
\<close>

theorem etharp_eventually_empty:
  assumes "link_ok sizes base s" and "n = 240 \<or> n = 2 \<and> (\<forall>e\<in>set (arp_table s). arp_state e \<noteq> ETHARP_STATE_STABLE)"
  shows "\<exists>s'. etharp_tmrs n s = Some s' \<and> link_ok sizes base s' \<and> (\<forall>e\<in>set (arp_table s'). is_empty e) \<and> queued (arp_table s') = []"
proof -
  have "\<forall>e\<in>set (arp_table s). ticks_left e \<le> n"
    using assms(2) ticks_left_bound by (auto simp: ticks_left_def split: etharp_state.splits)
  then obtain s' where s': "etharp_tmrs n s = Some s'" "link_ok sizes base s'" "\<forall>e\<in>set (arp_table s'). is_empty e"
    using etharp_tmrs_ok [OF assms(1)] by blast
  have "arp_q e = []" if "e \<in> set (arp_table s')" for e
    using s'(2,3) that by (simp add: link_ok_def arp_ok_def list_all_iff entry_ok_def is_empty_def)
  then have "queued (arp_table s') = []" by (simp add: queued_def)
  then show ?thesis using s' by blast
qed

theorem etharp_eventually_empty_witness:
  "\<exists>s'. etharp_tmrs 2 example_link = Some s' \<and> (\<forall>e\<in>set (arp_table s'). is_empty e)"
  using etharp_eventually_empty [OF example_link_ok, of 2] by (auto simp: example_link_def empty_entry_def)

text \<open>
  An update with a hardware address (from an ARP message or an IP packet) ignores
  addresses that are no hosts; without \<open>ETHARP_TRY_HARD\<close> it fails on a full table; else the address
  has one stable entry with the new hardware address, and every packet that waited for it was sent,
  in the order in which it was queued, with this hardware address in its Ethernet header, and freed.
\<close>

theorem update_arp_entry_correct:
  fixes s :: link_state
  assumes "link_ok sizes base s" and "eth_netif (netifs s) netif n" and "length ethaddr = 6" and "fl AND ETHARP_FIND_ONLY = 0"
  shows "\<exists>e s'. update_arp_entry netif a ethaddr fl s = Some (e, s') \<and> link_ok sizes base s' \<and> ext_same s s'
    \<and> update_post sizes base netif n a ethaddr fl s e s'"
  using update_arp_entry_ok [OF assms] by blast

theorem update_arp_entry_correct_witness:
  "\<exists>s'. update_arp_entry 5000 0x0200000a [2, 0, 0, 0, 0, 2] ETHARP_TRY_HARD example_link = Some (ERR_OK, s')
     \<and> (\<exists>i<10. arp_table s' ! i = resolved_entry 5000 0x0200000a [2, 0, 0, 0, 0, 2])"
proof -
  have "ETHARP_TRY_HARD AND ETHARP_FIND_ONLY = 0" "ETHARP_TRY_HARD AND ETHARP_TRY_HARD \<noteq> 0" by (simp_all add: etharp_consts)
  with update_arp_entry_correct [OF example_link_ok example_eth_netif, of "[2, 0, 0, 0, 0, 2]" ETHARP_TRY_HARD "0x0200000a"]
  obtain e s' where r: "update_arp_entry 5000 0x0200000a [2, 0, 0, 0, 0, 2] ETHARP_TRY_HARD example_link = Some (e, s')"
    "update_post example_sizes 20000 5000 example_netif 0x0200000a [2, 0, 0, 0, 0, 2] ETHARP_TRY_HARD example_link e s'" by auto
  then show ?thesis
    using example_unicast unfolding update_post_def by (auto simp: etharp_consts example_link_def)
qed

text \<open>
  Claim C12. \<open>etharp_output\<close> for a packet of at most 1500 bytes without shared or read-only parts. Without
  room for the Ethernet header the result is \<open>ERR_BUF\<close> and nothing changed. Else the frame is the header
  followed by the packet: to a broadcast or multicast address it is sent now, with the broadcast or the
  mapped multicast hardware address; off the local network the gateway is the next hop, \<open>ERR_RTE\<close> without one; and
  the frame is sent now if the next hop is stable in the table, or is queued for it behind the request.
\<close>

theorem etharp_output_correct:
  fixes s :: link_state
  assumes "link_ok sizes base s" and "packet (pbufs s) q xs" and "owned (pbufs s) xs" and "filled (pbufs s) xs" and "plen (pbufs s) xs \<le> 1500"
    and "set xs \<inter> held s = {}" and "eth_netif (netifs s) netif n" and "pbufs s q = Some b"
  shows "if payload b < q + SIZEOF_STRUCT_PBUF + 14 then etharp_output netif q a s = Some (ERR_BUF, s)
    else drop 14 (chain_data (reveal q b 14 s) xs) = chain_data s xs
      \<and> (\<exists>e s'. etharp_output netif q a s = Some (e, s') \<and> link_ok sizes base s' \<and> ext_same s s' \<and> link_frame {q} (reveal q b 14 s) s'
         \<and> output_post netif n a (chain_data (reveal q b 14 s) xs) (reveal q b 14 s) e s')"
proof -
  have net: "net_ok sizes base s" using assms(1) by (simp add: link_ok_def)
  show ?thesis
    using etharp_output_no_room [OF net assms(2,3,5,8)] sendable_reveal(4) [OF net assms(2-5,8)] etharp_output_ok [OF assms] by (simp add: not_less)
qed

lemma example_sendable:
  "\<exists>q (s :: link_state). link_ok example_sizes 20000 s \<and> ext_same example_link s \<and> arp_table s = replicate 10 empty_entry \<and> tx s = [] \<and> packet (pbufs s) q [q]
     \<and> owned (pbufs s) [q] \<and> filled (pbufs s) [q] \<and> plen (pbufs s) [q] = 20 \<and> pfield (pbufs s) len q = 20 \<and> q \<notin> held s \<and> pfield (pbufs s) payload q = q + 40
     \<and> eth_netif (netifs s) 5000 example_netif \<and> sole (pbufs s) [q]"
proof -
  have "heap_rep (ram_heap example_link) [(0, MEM_SIZE_ALIGNED, False)]"
    by (simp add: example_link_def heap_rep_def mem_init_def end_ok_def lwip_simps)
  moreover have "find_fit (request (24 + layer_offset PBUF_LINK + 20)) [(0, MEM_SIZE_ALIGNED, False)] = Some 0" by (simp add: lwip_simps request_def)
  ultimately obtain q and s :: link_state where s: "link_ok example_sizes 20000 s" "ext_same example_link s" "arp_table s = arp_table example_link"
    "tx s = tx example_link" "packet (pbufs s) q [q] \<and> owned (pbufs s) [q] \<and> filled (pbufs s) [q] \<and> plen (pbufs s) [q] = 20
      \<and> pfield (pbufs s) len q = 20 \<and> q \<notin> held s \<and> pfield (pbufs s) payload q = q + 40 \<and> sole (pbufs s) [q]"
    using example_packet [OF example_link_ok, of "[(0, MEM_SIZE_ALIGNED, False)]" PBUF_LINK 20 0] by (auto simp: lwip_simps)
  have "eth_netif (netifs s) 5000 example_netif" using s(2) example_eth_netif by (simp add: ext_same_def)
  moreover have "arp_table s = replicate 10 empty_entry" "tx s = []" using s(3,4) by (simp_all add: example_link_def)
  ultimately show ?thesis using s(1,2,5) by blast
qed

theorem etharp_output_correct_witness:
  "\<exists>q e s s'. etharp_output 5000 q 0xffffffff (s :: link_state) = Some (e, s') \<and> tx s' = [(5000, eth_header ethbroadcast [2, 0, 0, 0, 0, 1] ETHTYPE_IP @ chain_data s [q])]"
proof -
  obtain q and s :: link_state where s: "link_ok example_sizes 20000 s" "packet (pbufs s) q [q]" "owned (pbufs s) [q]" "filled (pbufs s) [q]"
    "plen (pbufs s) [q] = 20" "q \<notin> held s" "pfield (pbufs s) payload q = q + 40" "tx s = []" "eth_netif (netifs s) 5000 example_netif"
    using example_sendable by blast
  obtain b where b: "pbufs s q = Some b" "payload b = q + 40" using s(2,7) by (auto simp: packet_simps)
  have bc: "ip_addr_isbroadcast 0xffffffff example_netif" by (simp add: ip_addr_isbroadcast_def)
  have "tx (reveal q b 14 s) = []" using more_netif(4) [OF reveal_ext, of q b 14 s] s(8) by simp
  moreover obtain e s' where "etharp_output 5000 q 0xffffffff s = Some (e, s')" "drop 14 (chain_data (reveal q b 14 s) [q]) = chain_data s [q]"
    "output_post 5000 example_netif 0xffffffff (chain_data (reveal q b 14 s) [q]) (reveal q b 14 s) e s'"
    using etharp_output_correct [OF s(1-4) _ _ s(9) b(1), of "0xffffffff"] s(5,6) b(2) by (auto simp: lwip_simps)
  moreover have "nif_hwaddr example_netif = [2, 0, 0, 0, 0, 1]" by (simp add: example_netif_def)
  ultimately have "tx s' = [(5000, eth_header ethbroadcast [2, 0, 0, 0, 0, 1] ETHTYPE_IP @ chain_data s [q])]"
    using bc by (simp add: output_post_def)
  then show ?thesis using \<open>etharp_output 5000 q 0xffffffff s = Some (e, s')\<close> by blast
qed

text \<open>The packets that wait for an address.\<close>

definition queue_of :: "u32_t \<Rightarrow> etharp_entry list \<Rightarrow> (addr \<times> addr) list" where
  "queue_of a T = concat (map arp_q (filter (matches (Some a)) T))"

lemma queue_of_unknown: "\<not> known a T \<Longrightarrow> queue_of a T = []"
  by (simp add: queue_of_def known_def filter_empty_conv)

lemma queue_of_entry:
  assumes "arp_ok sizes base s" and "i < ARP_TABLE_SIZE" and "matches (Some a) (arp_table s ! i)"
  shows "queue_of a (arp_table s) = arp_q (arp_table s ! i)"
proof -
  have il: "i < length (arp_table s)" using assms by (simp add: arp_ok_def)
  obtain A B where T: "arp_table s = A @ arp_table s ! i # B" using table_split [OF il] by metis
  have "known_ips (arp_table s) = known_ips A @ [a] @ known_ips B"
    using assms(3) by (subst T) (auto simp: known_ips_simps matches_def is_empty_def)
  then have "a \<notin> set (known_ips A)" "a \<notin> set (known_ips B)" using assms(1) by (auto simp: arp_ok_def)
  then have "filter (matches (Some a)) A = []" "filter (matches (Some a)) B = []" by (auto simp: known_ips_matches filter_empty_conv)
  then show ?thesis using assms(3) by (subst T) (simp add: queue_of_def)
qed

lemma update_known:
  fixes s :: "'a link_state_scheme"
  assumes "link_ok sizes base s" and "eth_netif (netifs s) netif n" and "length mac = 6" and "fl AND ETHARP_FIND_ONLY = 0" and "\<not> non_unicast a n"
    and "known a (arp_table s)"
  shows "\<exists>s'. update_arp_entry netif a mac fl s = Some (ERR_OK, s') \<and> link_ok sizes base s' \<and> tx s' = tx s @ queue_frames netif mac (nif_hwaddr n) s (queue_of a (arp_table s))"
proof -
  obtain e s' where u: "update_arp_entry netif a mac fl s = Some (e, s')" "link_ok sizes base s'" "update_post sizes base netif n a mac fl s e s'"
    using update_arp_entry_ok [OF assms(1-4)] by blast
  then obtain i where "e = ERR_OK" "i < ARP_TABLE_SIZE" "matches (Some a) (arp_table s ! i)"
    "tx s' = tx s @ queue_frames netif mac (nif_hwaddr n) s (arp_q (arp_table s ! i))"
    using assms(5,6) unfolding update_post_def by auto
  then show ?thesis using u(1,2) queue_of_entry [of sizes base s i a] assms(1) by (auto simp: link_ok_def)
qed

lemma query_postE:
  assumes "query_post netif n a v s e s'" and "\<not> non_unicast a n"
  obtains (now) i where "i < ARP_TABLE_SIZE" "known a (arp_table s)" "matches (Some a) (arp_table s ! i)" "arp_state (arp_table s ! i) = ETHARP_STATE_STABLE"
      "e = ERR_OK" "arp_table s' = arp_table s"
      "tx s' = tx s @ [(netif, eth_header (arp_ethaddr (arp_table s ! i)) (nif_hwaddr n) ETHTYPE_IP @ drop 14 v)]"
    | (later) i req where "i < ARP_TABLE_SIZE" "if known a (arp_table s) then matches (Some a) (arp_table s ! i) else recycles (arp_table s) i"
      "\<not> (known a (arp_table s) \<and> arp_state (arp_table s ! i) = ETHARP_STATE_STABLE)"
      "\<forall>j. j \<noteq> i \<longrightarrow> arp_table s' ! j = arp_table s ! j" "matches (Some a) (arp_table s' ! i)"
      "req = ERR_MEM \<and> tx s' = tx s
        \<or> req = ERR_OK \<and> tx s' = tx s @ [(netif, arp_frame ethbroadcast (nif_hwaddr n) 1 (nif_hwaddr n) (nif_ip_addr n) ethzero a)]"
      "e = req \<and> arp_q (arp_table s' ! i) = (if known a (arp_table s) then arp_q (arp_table s ! i) else [])
        \<or> e = ERR_OK \<and> (\<exists>r p. arp_q (arp_table s' ! i) = (if known a (arp_table s) then arp_q (arp_table s ! i) else []) @ [(r, p)] \<and> pbuf_data s' p = v)"
proof -
  let ?T = "arp_table s"
  obtain i where i: "i < ARP_TABLE_SIZE" "if known a ?T then matches (Some a) (?T ! i) else recycles ?T i"
    "\<forall>j. j \<noteq> i \<longrightarrow> arp_table s' ! j = ?T ! j" and
    post: "if known a ?T \<and> arp_state (?T ! i) = ETHARP_STATE_STABLE
           then e = ERR_OK \<and> arp_table s' = ?T
             \<and> tx s' = tx s @ [(netif, eth_header (arp_ethaddr (?T ! i)) (nif_hwaddr n) ETHTYPE_IP @ drop 14 v)]
           else arp_ipaddr (arp_table s' ! i) = a \<and> arp_state (arp_table s' ! i) = ETHARP_STATE_PENDING
             \<and> (\<exists>req waiting. (req = ERR_MEM \<and> tx s' = tx s
                  \<or> req = ERR_OK \<and> tx s' = tx s @ [(netif, arp_frame ethbroadcast (nif_hwaddr n) 1 (nif_hwaddr n) (nif_ip_addr n) ethzero a)])
                \<and> waiting = (if known a ?T then arp_q (?T ! i) else [])
                \<and> (e = req \<and> arp_q (arp_table s' ! i) = waiting
                   \<or> e = ERR_OK \<and> (\<exists>r p. arp_q (arp_table s' ! i) = waiting @ [(r, p)] \<and> pbuf_data s' p = v)))"
    using assms unfolding query_post_def by auto
  show ?thesis
  proof (cases "known a ?T \<and> arp_state (?T ! i) = ETHARP_STATE_STABLE")
    case True
    then show ?thesis using i post by (intro now [of i]) simp_all
  next
    case False
    have "matches (Some a) (arp_table s' ! i)" using post False by (simp add: matches_def)
    moreover obtain req where "req = ERR_MEM \<and> tx s' = tx s
        \<or> req = ERR_OK \<and> tx s' = tx s @ [(netif, arp_frame ethbroadcast (nif_hwaddr n) 1 (nif_hwaddr n) (nif_ip_addr n) ethzero a)]"
      "e = req \<and> arp_q (arp_table s' ! i) = (if known a ?T then arp_q (?T ! i) else [])
        \<or> e = ERR_OK \<and> (\<exists>r p. arp_q (arp_table s' ! i) = (if known a ?T then arp_q (?T ! i) else []) @ [(r, p)] \<and> pbuf_data s' p = v)"
      using post unfolding if_not_P [OF False] by blast
    ultimately show ?thesis using i False by (intro later [of i req])
  qed
qed

text \<open>
  Claim C11. No packet that was accepted is lost when its address is resolved: after \<open>etharp_query\<close> for a host, an
  update with the hardware address \<open>mac\<close> succeeds, and the frame of the packet was sent by the query itself (the
  address was stable), or it is the last of the frames the update sends, behind the ones that already
  waited, with the destination \<open>mac\<close>; the only other case is that the query did not queue it.
\<close>

theorem etharp_resolution:
  fixes s :: link_state
  assumes "link_ok sizes base s" and "sendable (pbufs s) q xs" and "set xs \<inter> held s = {}" and "eth_netif (netifs s) netif n"
    and "\<not> non_unicast a n" and "length mac = 6" and "fl AND ETHARP_FIND_ONLY = 0"
  shows "\<exists>e s1 s2. etharp_query netif a q s = Some (e, s1) \<and> update_arp_entry netif a mac fl s1 = Some (ERR_OK, s2) \<and> link_ok sizes base s2
    \<and> ((\<exists>dst. tx s1 = tx s @ [(netif, eth_header dst (nif_hwaddr n) ETHTYPE_IP @ drop 14 (chain_data s xs))] \<and> tx s2 = tx s1)
       \<or> (\<exists>r p. queue_of a (arp_table s1) = queue_of a (arp_table s) @ [(r, p)]
            \<and> tx s2 = tx s1 @ queue_frames netif mac (nif_hwaddr n) s1 (queue_of a (arp_table s))
                @ [(netif, eth_header mac (nif_hwaddr n) ETHTYPE_IP @ drop 14 (chain_data s xs))])
       \<or> queue_of a (arp_table s1) = queue_of a (arp_table s) \<and> (e = ERR_MEM \<and> tx s1 = tx s \<or> e = ERR_OK \<and> length (tx s1) = Suc (length (tx s))))"
proof -
  let ?v = "chain_data s xs" and ?T = "arp_table s"
  obtain e s1 where q: "etharp_query netif a q s = Some (e, s1)" "link_ok sizes base s1" "ext_same s s1" "query_post netif n a ?v s e s1"
    using etharp_query_ok [OF assms(1-4), of a] by blast
  have n1: "eth_netif (netifs s1) netif n" using assms(4) q(3) by (simp add: ext_same_def)
  have arp: "arp_ok sizes base s" "arp_ok sizes base s1" using assms(1) q(2) by (simp_all add: link_ok_def)
  have known_update: "\<exists>s2. update_arp_entry netif a mac fl s1 = Some (ERR_OK, s2) \<and> link_ok sizes base s2
      \<and> tx s2 = tx s1 @ queue_frames netif mac (nif_hwaddr n) s1 (arp_q (arp_table s1 ! i)) \<and> queue_of a (arp_table s1) = arp_q (arp_table s1 ! i)"
    if i: "i < ARP_TABLE_SIZE" "matches (Some a) (arp_table s1 ! i)" for i
  proof -
    have "known a (arp_table s1)" using i arp(2) by (auto simp: known_entry arp_ok_def)
    then show ?thesis using update_known [OF q(2) n1 assms(6,7,5)] queue_of_entry [OF arp(2) i] by auto
  qed
  from q(4) assms(5) show ?thesis
  proof (cases rule: query_postE)
    case (now i)
    then have "arp_q (arp_table s1 ! i) = []" using arp_okD(1) [OF arp(1) now(1)] by (simp add: entry_ok_def)
    then obtain s2 where "update_arp_entry netif a mac fl s1 = Some (ERR_OK, s2)" "link_ok sizes base s2" "tx s2 = tx s1"
      using known_update [of i] now by (auto simp: queue_frames_def)
    then show ?thesis using q(1) now(7) by blast
  next
    case (later i req)
    obtain s2 where s2: "update_arp_entry netif a mac fl s1 = Some (ERR_OK, s2)" "link_ok sizes base s2"
      "tx s2 = tx s1 @ queue_frames netif mac (nif_hwaddr n) s1 (arp_q (arp_table s1 ! i))" "queue_of a (arp_table s1) = arp_q (arp_table s1 ! i)"
      using known_update [OF later(1,5)] by blast
    have q0: "(if known a ?T then arp_q (?T ! i) else []) = queue_of a ?T"
      using later(2) queue_of_entry [OF arp(1) later(1), of a] queue_of_unknown [of a ?T] by (auto split: if_splits)
    have fr: "tx s2 = tx s1 @ queue_frames netif mac (nif_hwaddr n) s1 (queue_of a ?T) @ [(netif, eth_header mac (nif_hwaddr n) ETHTYPE_IP @ drop 14 ?v)]"
      if "queue_of a (arp_table s1) = queue_of a ?T @ [(r, p)]" "pbuf_data s1 p = ?v" for r p
      using s2(3) unfolding s2(4) [symmetric] that(1) by (simp add: queue_frames_def that(2))
    have "req = ERR_MEM \<and> tx s1 = tx s \<or> req = ERR_OK \<and> length (tx s1) = Suc (length (tx s))" using later(6) by auto
    moreover have "e = req \<and> queue_of a (arp_table s1) = queue_of a ?T
        \<or> e = ERR_OK \<and> (\<exists>r p. queue_of a (arp_table s1) = queue_of a ?T @ [(r, p)] \<and> pbuf_data s1 p = ?v)"
      using later(7) unfolding q0 s2(4) .
    ultimately have "(\<exists>r p. queue_of a (arp_table s1) = queue_of a ?T @ [(r, p)]
          \<and> tx s2 = tx s1 @ queue_frames netif mac (nif_hwaddr n) s1 (queue_of a ?T) @ [(netif, eth_header mac (nif_hwaddr n) ETHTYPE_IP @ drop 14 ?v)])
       \<or> queue_of a (arp_table s1) = queue_of a ?T \<and> (e = ERR_MEM \<and> tx s1 = tx s \<or> e = ERR_OK \<and> length (tx s1) = Suc (length (tx s)))"
      using fr by blast
    then show ?thesis using q(1) s2(1,2) by blast
  qed
qed

theorem etharp_resolution_witness:
  "\<exists>q e s s1 s2. etharp_query 5000 0x0200000a q (s :: link_state) = Some (e, s1) \<and> update_arp_entry 5000 0x0200000a [2, 0, 0, 0, 0, 2] 0 s1 = Some (ERR_OK, s2)"
proof -
  obtain q and s :: link_state where s: "link_ok example_sizes 20000 s" "packet (pbufs s) q [q]" "owned (pbufs s) [q]" "filled (pbufs s) [q]"
    "plen (pbufs s) [q] = 20" "q \<notin> held s" "pfield (pbufs s) len q = 20" "eth_netif (netifs s) 5000 example_netif"
    using example_sendable by blast
  have sd: "sendable (pbufs s) q [q]" using s(2-5,7) unfolding sendable_def by (intro conjI) simp_all
  have d: "set [q] \<inter> held s = {}" using s(6) by simp
  have "length [2 :: u8_t, 0, 0, 0, 0, 2] = 6" "(0 :: u8_t) AND ETHARP_FIND_ONLY = 0" by simp_all
  from etharp_resolution [OF s(1) sd d s(8) example_unicast this] show ?thesis by blast
qed

text \<open>
  Claim C33. When every queue element is in use and a packet is to wait for an address that is already pending, it is
  dropped: the queues are what they were. The result is nevertheless \<open>ERR_OK\<close> whenever the ARP
  request could be sent, although the comments of \<open>etharp_query\<close> assert that it is \<open>ERR_MEM\<close> here.
\<close>

theorem etharp_query_dropped_ok:
  fixes s :: link_state
  assumes "link_ok sizes base s" and "sendable (pbufs s) q xs" and "set xs \<inter> held s = {}" and "eth_netif (netifs s) netif n"
    and "\<not> non_unicast a n" and "i < ARP_TABLE_SIZE" and "matches (Some a) (arp_table s ! i)" and "arp_state (arp_table s ! i) = ETHARP_STATE_PENDING"
    and "length (queued (arp_table s)) = memp_num MEMP_ARP_QUEUE"
  shows "\<exists>e s'. etharp_query netif a q s = Some (e, s') \<and> queued (arp_table s') = queued (arp_table s)
    \<and> (e = ERR_OK \<and> tx s' = tx s @ [(netif, arp_frame ethbroadcast (nif_hwaddr n) 1 (nif_hwaddr n) (nif_ip_addr n) ethzero a)]
       \<or> e = ERR_MEM \<and> tx s' = tx s)"
proof -
  let ?T = "arp_table s"
  obtain e s1 where q: "etharp_query netif a q s = Some (e, s1)" "link_ok sizes base s1" "query_post netif n a (chain_data s xs) s e s1"
    using etharp_query_ok [OF assms(1-4), of a] by blast
  have arp: "arp_ok sizes base s" "arp_ok sizes base s1" using assms(1) q(2) by (simp_all add: link_ok_def)
  have k: "known a ?T" using assms(6,7) arp(1) by (auto simp: known_entry arp_ok_def)
  have len: "i < length ?T" "length (arp_table s1) = length ?T" using arp assms(6) by (simp_all add: arp_ok_def)
  obtain req where r: "\<forall>l. l \<noteq> i \<longrightarrow> arp_table s1 ! l = ?T ! l" "req = ERR_MEM \<and> tx s1 = tx s
       \<or> req = ERR_OK \<and> tx s1 = tx s @ [(netif, arp_frame ethbroadcast (nif_hwaddr n) 1 (nif_hwaddr n) (nif_ip_addr n) ethzero a)]"
    "e = req \<and> arp_q (arp_table s1 ! i) = arp_q (?T ! i) \<or> (\<exists>r p. arp_q (arp_table s1 ! i) = arp_q (?T ! i) @ [(r, p)])"
    using q(3) assms(5)
  proof (cases rule: query_postE)
    case (now j)
    then show ?thesis using matches_unique [OF arp(1) now(1) assms(6) now(3) assms(7)] assms(8) by simp
  next
    case (later j req)
    then have "j = i" using matches_unique [OF arp(1) later(1) assms(6) _ assms(7)] k by simp
    then show ?thesis using later(4,6,7) k that [of req] by auto
  qed
  have "length (arp_q (arp_table s1 ! i)) \<le> length (arp_q (?T ! i))"
    using length_queued_update [OF len(1,2) r(1)] queued_bound [OF q(2)] assms(9) by simp
  then have e: "e = req" "arp_q (arp_table s1 ! i) = arp_q (?T ! i)" using r(3) by auto
  have "map arp_q (arp_table s1) = map arp_q ?T"
  proof (rule nth_equalityI)
    fix l
    assume "l < length (map arp_q (arp_table s1))"
    then show "map arp_q (arp_table s1) ! l = map arp_q ?T ! l" using r(1) e(2) len(2) by (cases "l = i") simp_all
  qed (simp add: len(2))
  then have "queued (arp_table s1) = queued ?T" by (simp add: queued_def)
  then show ?thesis using q(1) r(2) e(1) by blast
qed

theorem etharp_query_dropped_ok_witness:
  "\<exists>q e s s'. length (queued (arp_table s)) = 2 \<and> etharp_query 5000 0x0200000a q (s :: link_state) = Some (e, s') \<and> queued (arp_table s') = queued (arp_table s)"
proof -
  let ?f = "\<lambda>e. e\<lparr>arp_state := ETHARP_STATE_PENDING, arp_ipaddr := 0x0200000a\<rparr>"
  let ?s = "set_entry 0 ?f example_link"
  have T: "arp_table example_link = replicate 10 empty_entry" by (simp add: example_link_def)
  have s: "link_ok example_sizes 20000 ?s"
    by (rule link_ok_set [OF example_link_ok]) (simp_all add: T etharp_consts entry_ok_def empty_entry_def ethzero_def matches_def)
  have h: "heap_rep (ram_heap ?s) [(0, 16000, False)]" by (simp add: example_link_def heap_rep_def mem_init_def end_ok_def lwip_simps)
  have live: "memp_live example_sizes 20000 (memp ?s) = Map.empty" by (simp add: example_link_def memp_init_ok(2) example_sizes_pos)
  obtain r1 p1 s1 where s1: "link_ok example_sizes 20000 s1" "arp_table s1 = (arp_table ?s)[0 := (arp_table ?s ! 0)\<lparr>arp_q := arp_q (arp_table ?s ! 0) @ [(r1, p1)]\<rparr>]"
    "ext_same ?s s1" "heap_rep (ram_heap s1) (alloc_blocks 44 [(0, 16000, False)])"
    "memp_live example_sizes 20000 (memp s1) = (memp_live example_sizes 20000 (memp ?s))(r1 \<mapsto> MEMP_ARP_QUEUE)"
    using example_enqueue [OF s _ h, of 0] live by (auto simp: T lwip_simps)
  have c1: "{x. memp_live example_sizes 20000 (memp s1) x = Some MEMP_ARP_QUEUE} = {r1}" using s1(5) live by auto
  obtain r2 p2 s2 where s2: "link_ok example_sizes 20000 s2" "arp_table s2 = (arp_table s1)[0 := (arp_table s1 ! 0)\<lparr>arp_q := arp_q (arp_table s1 ! 0) @ [(r2, p2)]\<rparr>]"
    "ext_same s1 s2" "heap_rep (ram_heap s2) (alloc_blocks 44 (alloc_blocks 44 [(0, 16000, False)]))"
    using example_enqueue [OF s1(1) _ s1(4), of 50] c1 s1(2) by (auto simp: T split_block_def lwip_simps)
  obtain q s3 where s3: "link_ok example_sizes 20000 s3" "ext_same s2 s3" "arp_table s3 = arp_table s2" "packet (pbufs s3) q [q] \<and> owned (pbufs s3) [q]
    \<and> filled (pbufs s3) [q] \<and> plen (pbufs s3) [q] = 20 \<and> pfield (pbufs s3) len q = 20" "q \<notin> held s3"
    using example_packet [OF s2(1,4), of PBUF_LINK 20 100] by (auto simp: split_block_def lwip_simps request_def)
  have T3: "arp_table s3 ! 0 = (?f empty_entry)\<lparr>arp_q := [(r1, p1), (r2, p2)]\<rparr>" "arp_table s3 = (replicate 10 empty_entry)[0 := arp_table s3 ! 0]"
    using s3(3) s2(2) s1(2) by (simp_all add: T empty_entry_def)
  have len: "length (queued (arp_table s3)) = 2" by (subst T3(2)) (simp add: T3(1) queued_def numeral_eq_Suc empty_entry_def)
  have n: "eth_netif (netifs s3) 5000 example_netif" using example_eth_netif s3(2) s2(3) s1(3) by (simp add: ext_same_def)
  have sd: "sendable (pbufs s3) q [q]" using s3(4) unfolding sendable_def by (intro conjI) simp_all
  have i: "0 < ARP_TABLE_SIZE" "matches (Some 0x0200000a) (arp_table s3 ! 0)" "arp_state (arp_table s3 ! 0) = ETHARP_STATE_PENDING"
    by (simp_all add: T3(1) matches_def etharp_consts)
  have "set [q] \<inter> held s3 = {}" "length (queued (arp_table s3)) = memp_num MEMP_ARP_QUEUE" using s3(5) len by simp_all
  from etharp_query_dropped_ok [OF s3(1) sd this(1) n example_unicast i this(2)] show ?thesis using len by blast
qed

section \<open>Fields of headers\<close>

lemma halves8:
  fixes x y :: u8_t
  shows "ucast ((ucast x :: u16_t) OR push_bit 8 (ucast y)) = x" and "ucast (drop_bit 8 ((ucast x :: u16_t) OR push_bit 8 (ucast y))) = y"
  by (intro bit_word_eqI; auto simp: bit_simps dest: bit_imp_le_length)+

lemma halves16:
  fixes x y :: u16_t
  shows "ucast ((ucast x :: u32_t) OR push_bit 16 (ucast y)) = x" and "ucast (drop_bit 16 ((ucast x :: u32_t) OR push_bit 16 (ucast y))) = y"
  by (intro bit_word_eqI; auto simp: bit_simps dest: bit_imp_le_length)+

lemma join16: "(ucast (ucast w :: u8_t) :: u16_t) OR push_bit 8 (ucast (ucast (drop_bit 8 w) :: u8_t)) = w"
  by (intro bit_word_eqI) (auto simp: bit_simps not_less)

lemma join32: "(ucast (ucast w :: u16_t) :: u32_t) OR push_bit 16 (ucast (ucast (drop_bit 16 w) :: u16_t)) = w"
  by (intro bit_word_eqI) (auto simp: bit_simps not_less)

lemma le32_halves: "le32 w = le16 (ucast w) @ le16 (ucast (drop_bit 16 w))"
proof -
  have "ucast (ucast w :: u16_t) = (ucast w :: u8_t)" "ucast (drop_bit 8 (ucast w :: u16_t)) = (ucast (drop_bit 8 w) :: u8_t)"
    "ucast (ucast (drop_bit 16 w) :: u16_t) = (ucast (drop_bit 16 w) :: u8_t)"
    "ucast (drop_bit 8 (ucast (drop_bit 16 w) :: u16_t)) = (ucast (drop_bit 24 w) :: u8_t)"
    by (intro bit_word_eqI; auto simp: bit_simps)+
  then show ?thesis by (simp add: le32_def le16_def)
qed

lemma le16_ld16: "le16 (ld16 d a) = peek d a 2"
  unfolding le16_def ld16_def halves8 by (simp add: peek_def upt_rec)

lemma le32_ld32: "le32 (ld32 d a) = peek d a 4"
  unfolding le32_halves ld32_def halves16 le16_ld16 using peek_add [of d a 2 2] by simp

lemma ld16_le16: "peek d a 2 = le16 w \<Longrightarrow> ld16 d a = w"
  using join16 [of w] by (simp add: le16_def ld16_def peek_def upt_rec)

lemma ld32_le32: "peek d a 4 = le32 w \<Longrightarrow> ld32 d a = w"
proof -
  assume "peek d a 4 = le32 w"
  then have "peek d a 2 = le16 (ucast w)" "peek d (a + 2) 2 = le16 (ucast (drop_bit 16 w))"
    using peek_add [of d a 2 2] by (simp_all add: le32_halves)
  then show ?thesis using ld16_le16 join32 [of w] by (simp add: ld32_def)
qed

lemma peek_ld16: "ld16 d a = w \<Longrightarrow> peek d a 2 = le16 w"
  using le16_ld16 [of d a] by simp

lemma peek_ld32: "ld32 d a = w \<Longrightarrow> peek d a 4 = le32 w"
  using le32_ld32 [of d a] by simp

section \<open>ARP messages\<close>

lemma arp_reply_bytes_frame:
  assumes "length hw = 6" and "ld16 d (a + 14) = htons 1" and "ld16 d (a + 16) = htons ETHTYPE_IP" and "ld16 d (a + 18) = htons 0x0604"
    and "ld16 d (a + 12) = htons ETHTYPE_ARP"
  shows "peek (arp_reply_bytes a ip hw d) a 42 = arp_frame (peek d (a + 22) 6) hw 2 hw ip (peek d (a + 22) 6) (ld32 d (a + 28))"
    and "writes_within a 42 d (arp_reply_bytes a ip hw d)"
  using assms(1) peek_ld16 [OF assms(2)] peek_ld16 [OF assms(3)] peek_ld16 [OF assms(4)] peek_ld16 [OF assms(5)] le32_ld32 [of d "a + 28"]
  unfolding peek_frame arp_reply_bytes_def Let_def arp_frame_def eth_header_def
  by (simp_all add: etharp_consts peek_poke_apart peek_poke_at writes_within_poke ac_simps)

lemma update_frame:
  assumes ok: "link_ok sizes base s" and u: "update_post sizes base netif n a ethaddr fl s e s'"
  shows "link_frame {} s s'"
proof -
  have arp: "arp_ok sizes base s" and net: "net_ok sizes base s" using ok by (simp_all add: link_ok_def)
  consider "s' = s" | i where "i < ARP_TABLE_SIZE" "arp_table s' = (arp_table s)[i := resolved_entry netif a ethaddr]" "sent sizes base (arp_q (arp_table s ! i)) s s'"
    using u unfolding update_post_def by (auto split: if_splits)
  then show ?thesis
  proof cases
    case 2
    then show ?thesis using arp_okD(4,5) [OF arp 2(1)] by (intro link_frame_sent [OF net _ _ 2(3,2)]) (simp_all add: resolved_entry_def)
  qed simp
qed

lemma pooled_kind:
  assumes "net_ok sizes base s" and "x \<in> in_pool (pbufs s) xs"
  shows "memp_live sizes base (memp s) x \<noteq> Some MEMP_ARP_QUEUE"
proof -
  obtain b where b: "pbufs s x = Some b" "ptype b \<noteq> PBUF_RAM" using assms(2) by (auto simp: in_pool_def split: option.splits)
  then show ?thesis using net_okD(3) [OF assms(1) b(1)] by (cases "ptype b") (auto simp: pbuf_ok_def)
qed

text \<open>Freeing a packet that is not on a queue.\<close>

lemma link_free:
  fixes s :: "'a link_state_scheme"
  assumes ok: "link_ok sizes base s" and pk: "packet (pbufs s) p xs" "sole (pbufs s) xs" and xs: "set xs \<inter> held s = {}"
  shows "\<exists>c s'. pbuf_free p s = Some (c, s') \<and> link_ok sizes base s' \<and> ext_same s s' \<and> arp_table s' = arp_table s \<and> tx s' = tx s
    \<and> pbufs s' = pbufs s |` (- set xs) \<and> bytes s' = bytes s"
proof -
  have net: "net_ok sizes base s" and arp: "arp_ok sizes base s" using ok by (simp_all add: link_ok_def)
  obtain s' where f: "pbuf_free p s = Some (length xs mod 256, s')" "net_ok sizes base s'" "pbufs s' = pbufs s |` (- set xs)" "bytes s' = bytes s"
    "net_state.more s' = net_state.more s" "memp_live sizes base (memp s') = memp_live sizes base (memp s) |` (- in_pool (pbufs s) xs)"
    using pbuf_free_sole [OF net _ _ pk(2), of p] pk(1) by (auto simp: packet_def)
  note m = more_netif(4) [OF f(5)] more_link(1,2) [OF f(5)] ext_same_more [OF f(5)]
  have "list_all (queue_elem sizes base s') (queued (arp_table s))"
    unfolding list_all_iff
  proof
    fix y
    assume y: "y \<in> set (queued (arp_table s))"
    obtain r q where rq: "y = (r, q)" by (cases y)
    have e: "queue_elem sizes base s (r, q)" using arp y rq by (simp add: arp_ok_def list_all_iff)
    then have "r \<notin> in_pool (pbufs s) xs" using pooled_kind [OF net] by (auto simp: queue_elem_def)
    moreover have "q \<notin> set xs" using xs y rq by (force simp: held_def)
    ultimately show "queue_elem sizes base s' y" unfolding rq using queue_elem_upd [OF e, of s'] f(3,6) by simp
  qed
  then have "link_ok sizes base s'" using arp f(2) m by (simp add: link_ok_def arp_ok_def)
  then show ?thesis using f(1,3,4) m by (intro exI [of _ "length xs mod 256"] exI [of _ s']) simp
qed

text \<open>Equal blocks have equal parts.\<close>

lemma peek_part:
  assumes "peek d' a n = peek d a n" and "k + m \<le> n"
  shows "peek d' (a + k) m = peek d (a + k) m"
proof -
  have "peek e (a + k) m = take m (drop k (peek e a n))" for e
    using peek_add [of e a k "n - k"] take_peek [of m "n - k" e "a + k"] assms(2) by simp
  then show ?thesis using assms(1) by simp
qed

lemma ld16_part: "peek d' a n = peek d a n \<Longrightarrow> k + 2 \<le> n \<Longrightarrow> ld16 d' (a + k) = ld16 d (a + k)"
  by (rule ld16_le16, unfold le16_ld16, rule peek_part)

lemma ld32_part: "peek d' a n = peek d a n \<Longrightarrow> k + 4 \<le> n \<Longrightarrow> ld32 d' (a + k) = ld32 d (a + k)"
  by (rule ld32_le32, unfold le32_ld32, rule peek_part)

text \<open>Rewriting the first \<open>k\<close> bytes of a packet.\<close>

lemma overwrite_head:
  assumes net: "net_ok sizes base s" and pk: "packet (pbufs s) p xs" "owned (pbufs s) xs" and b: "pbufs s p = Some b" "k \<le> len b"
    and w: "writes_within (payload b) k (bytes s) d"
  shows "chain_data (s\<lparr>bytes := d\<rparr>) xs = peek d (payload b) k @ drop k (chain_data s xs)"
proof -
  obtain ys where ys: "xs = p # ys" "p \<notin> set ys" using packet_head [OF pk(1)] by metis
  have cl: "clear_of (pbufs s) ys (payload b) (len b)" using owned_clear [OF net _ ys(2) b(1)] pk(2) ys(1) by simp
  have "pbuf_data (s\<lparr>bytes := d\<rparr>) p = peek d (payload b) k @ drop k (pbuf_data s p)"
  proof -
    have "peek d (payload b) (k + (len b - k)) = peek d (payload b) k @ peek (bytes s) (payload b + k) (len b - k)"
      unfolding peek_add using writes_within_peek [OF w] by simp
    moreover have "drop k (peek (bytes s) (payload b) (len b)) = peek (bytes s) (payload b + k) (len b - k)"
      using peek_add [of "bytes s" "payload b" k "len b - k"] b(2) by simp
    ultimately show ?thesis using b by (simp add: pbuf_data_peek)
  qed
  moreover have "chain_data (s\<lparr>bytes := d\<rparr>) ys = chain_data s ys"
  proof (rule chain_data_cong)
    fix x
    assume "x \<in> set ys"
    then obtain c where c: "pbufs s x = Some c" "payload b + len b \<le> payload c \<or> payload c + len c \<le> payload b"
      using cl pk(2) ys(1) by (force simp: clear_of_def owned_def list_all_iff split: option.splits)
    have "writes_within (payload b) (len b) (bytes s) d" using b(2) by (intro writes_within_mono [OF w]) simp_all
    then have "peek d (payload c) (len c) = peek (bytes s) (payload c) (len c)" using c(2) by (intro writes_within_peek) auto
    then show "pbuf_data (s\<lparr>bytes := d\<rparr>) x = pbuf_data s x" using c(1) by (simp add: pbuf_data_peek)
  qed
  ultimately show ?thesis using b ys(1) by simp
qed

definition arp_valid :: "pbuf \<Rightarrow> (addr \<Rightarrow> u8_t) \<Rightarrow> bool" where
  "arp_valid b d \<longleftrightarrow> 42 \<le> len b \<and> ld16 d (payload b + 14) = htons 1 \<and> ld16 d (payload b + 16) = htons ETHTYPE_IP
     \<and> ld16 d (payload b + 18) = htons 0x0604 \<and> ld16 d (payload b + 12) = htons ETHTYPE_ARP"

definition arp_for_us :: "netif \<Rightarrow> pbuf \<Rightarrow> (addr \<Rightarrow> u8_t) \<Rightarrow> bool" where
  "arp_for_us n b d \<longleftrightarrow> nif_ip_addr n \<noteq> 0 \<and> ld32 d (payload b + 38) = nif_ip_addr n"

text \<open>
  What an ARP message does: one that is not valid nothing; else the table is updated with the sender's
  addresses (recycling only if the message asks for this host), and a request for this host is answered.
\<close>

definition arp_input_post :: "(memp_t \<Rightarrow> nat) \<Rightarrow> addr \<Rightarrow> addr \<Rightarrow> netif \<Rightarrow> pbuf \<Rightarrow> u8_t list \<Rightarrow> 'a link_state_scheme \<Rightarrow> 'a link_state_scheme \<Rightarrow> bool" where
  "arp_input_post sizes base netif n b v s s' \<longleftrightarrow>
     (if \<not> arp_valid b (bytes s) then arp_table s' = arp_table s \<and> tx s' = tx s
      else let sha = peek (bytes s) (payload b + 22) 6; sip = ld32 (bytes s) (payload b + 28); us = arp_for_us n b (bytes s)
        in \<exists>e s1. update_post sizes base netif n sip sha (if us then ETHARP_TRY_HARD else 0) s e s1 \<and> arp_table s' = arp_table s1
          \<and> tx s' = tx s1 @ (if us \<and> htons (ld16 (bytes s) (payload b + 20)) = 1
               then [(netif, arp_frame sha (nif_hwaddr n) 2 (nif_hwaddr n) (nif_ip_addr n) sha sip @ drop 42 v)] else []))"

lemma etharp_arp_input_ok:
  fixes s :: "'a link_state_scheme"
  assumes ok: "link_ok sizes base s" and pk: "packet (pbufs s) p xs" "sole (pbufs s) xs" "owned (pbufs s) xs" "plen (pbufs s) xs \<le> 1514"
    and xs: "set xs \<inter> held s = {}" and n: "eth_netif (netifs s) netif n" and b: "pbufs s p = Some b"
  shows "\<exists>s'. etharp_arp_input netif (nif_hwaddr n) p s = Some s' \<and> link_ok sizes base s' \<and> ext_same s s' \<and> (\<forall>x\<in>set xs. pbufs s' x = None)
    \<and> arp_input_post sizes base netif n b (chain_data s xs) s s'"
proof (cases "arp_valid b (bytes s)")
  case False
  obtain c s' where f: "pbuf_free p s = Some (c, s')" "link_ok sizes base s'" "ext_same s s'" "arp_table s' = arp_table s" "tx s' = tx s"
    "pbufs s' = pbufs s |` (- set xs)"
    using link_free [OF ok pk(1,2) xs] by blast
  have "etharp_arp_input netif (nif_hwaddr n) p s = Some s'"
    using False f(1) b n by (auto simp: etharp_arp_input_def eth_netif_def etharp_consts arp_valid_def Let_def ac_simps)
  then show ?thesis using f False by (intro exI [of _ s']) (simp add: arp_input_post_def)
next
  case True
  let ?d = "bytes s" and ?a = "payload b"
  let ?sha = "peek ?d (?a + 22) 6" and ?sip = "ld32 ?d (?a + 28)" and ?us = "arp_for_us n b ?d"
  let ?fl = "if ?us then ETHARP_TRY_HARD else 0"
  have v: "42 \<le> len b" using True by (simp add: arp_valid_def)
  obtain e s1 where u: "update_arp_entry netif ?sip ?sha ?fl s = Some (e, s1)" "link_ok sizes base s1" "ext_same s s1"
    "update_post sizes base netif n ?sip ?sha ?fl s e s1"
  proof -
    have "length ?sha = 6" "?fl AND ETHARP_FIND_ONLY = 0" by (simp_all add: etharp_consts)
    from update_arp_entry_ok [OF ok n this] show thesis using that by blast
  qed
  note fr = update_frame [OF ok u(4)]
  note fo = link_frame_owned [OF fr pk(3) xs]
  note fp = link_frame_pbufs [OF fr pk(3) xs]
  have q1: "\<And>x. x \<in> set xs \<Longrightarrow> pbufs s1 x = pbufs s x" using fp by simp
  obtain ys where ys: "xs = p # ys" "p \<notin> set ys" using packet_head [OF pk(1)] by metis
  have pk1: "packet (pbufs s1) p xs" "sole (pbufs s1) xs" "plen (pbufs s1) xs \<le> 1514" "pbufs s1 p = Some b"
    using pk q1 packet_cong [of xs "pbufs s1" "pbufs s"] plen_cong [of xs "pbufs s1" "pbufs s"] b ys(1) by (auto simp: sole_def list_all_iff)
  have net1: "net_ok sizes base s1" and arp1: "arp_ok sizes base s1" using u(2) by (simp_all add: link_ok_def)
  have n1: "netifs s1 netif = Some n" using n u(3) by (simp add: ext_same_def eth_netif_def)
  have dat: "peek (bytes s1) ?a (len b) = peek ?d ?a (len b)"
  proof -
    have "p \<in> set xs" using ys by simp
    then have "p \<notin> held s" "ptype b = PBUF_RAM \<or> ptype b = PBUF_POOL" using xs pk(3) b by (auto simp: owned_def list_all_iff)
    then show ?thesis using fr b by (auto simp: link_frame_def)
  qed
  note pe = peek_part [OF dat] and l16 = ld16_part [OF dat] and l32 = ld32_part [OF dat]
  let ?req = "htons (ld16 ?d (?a + 20)) = 1 \<and> ?us"
  let ?f = "arp_frame ?sha (nif_hwaddr n) 2 (nif_hwaddr n) (nif_ip_addr n) ?sha ?sip"
  let ?r = "arp_reply_bytes ?a (nif_ip_addr n) (nif_hwaddr n) (bytes s1)"
  have rb: "peek ?r ?a 42 = ?f" "writes_within ?a 42 (bytes s1) ?r"
    using arp_reply_bytes_frame [of "nif_hwaddr n" "bytes s1" ?a "nif_ip_addr n"] n True v
    by (simp_all add: eth_netif_def arp_valid_def l16 l32 pe)
  define s2 where "s2 = (if ?req then s1\<lparr>bytes := ?r, tx := tx s1 @ [(netif, ?f @ drop 42 (chain_data s xs))]\<rparr> else s1)"
  have s2: "pbufs s2 = pbufs s1" "arp_table s2 = arp_table s1" "etharp_cached_entry s2 = etharp_cached_entry s1" "ext_same s1 s2"
    "memp s2 = memp s1" "ram_heap s2 = ram_heap s1" "held s2 = held s1" "tx s2 = tx s1 @ (if ?req then [(netif, ?f @ drop 42 (chain_data s xs))] else [])"
    by (simp_all add: s2_def ext_same_def held_def)
  have out: "(if ?req then do { (r, s) \<leftarrow> low_level_output netif p (s1\<lparr>bytes := ?r\<rparr>); Some s } else Some s1) = Some s2"
  proof (cases ?req)
    case req: True
    have "chain_data (s1\<lparr>bytes := ?r\<rparr>) xs = ?f @ drop 42 (chain_data s xs)"
      using overwrite_head [OF net1 pk1(1) fo(2) pk1(4) _ rb(2)] v rb(1) fo(3) by simp
    then show ?thesis
      using req low_level_output_ok [of "s1\<lparr>bytes := ?r\<rparr>" p xs netif] pk1(1,3) by (simp add: s2_def)
  next
    case False
    then show ?thesis unfolding s2_def if_not_P [OF False] by simp
  qed
  have "net_ok sizes base s2" by (rule net_ok_same [OF net1]) (simp_all add: s2)
  then have ok2: "link_ok sizes base s2" using arp1 s2 by (simp add: link_ok_def arp_ok_def queue_elem_def)
  obtain c s' where f: "pbuf_free p s2 = Some (c, s')" "link_ok sizes base s'" "ext_same s2 s'" "arp_table s' = arp_table s2" "tx s' = tx s2"
    "pbufs s' = pbufs s2 |` (- set xs)"
    using link_free [OF ok2, of p xs] pk1(1,2) fo(1) s2(1,7) by auto
  have "etharp_arp_input netif (nif_hwaddr n) p s = Some s'"
  proof -
    have fu: "(if nif_ip_addr n = 0 then False else ld32 ?d (?a + 38) = nif_ip_addr n) = ?us" by (simp add: arp_for_us_def)
    have "etharp_arp_input netif (nif_hwaddr n) p s = do {
        s \<leftarrow> (if ?req then do { (r, s) \<leftarrow> low_level_output netif p (s1\<lparr>bytes := ?r\<rparr>); Some s } else Some s1);
        (c, s) \<leftarrow> pbuf_free p s;
        Some s }"
      using True u(1) b n n1 l16 [of 20] v by (simp add: etharp_arp_input_def eth_netif_def etharp_consts arp_valid_def Let_def fu ac_simps)
    then show ?thesis unfolding out using f(1) by simp
  qed
  moreover have "arp_input_post sizes base netif n b (chain_data s xs) s s'"
  proof -
    have t: "tx s' = tx s1 @ (if ?us \<and> htons (ld16 ?d (?a + 20)) = 1 then [(netif, ?f @ drop 42 (chain_data s xs))] else [])"
      using f(5) s2(8) by (simp add: conj_commute)
    have "arp_table s' = arp_table s1" using f(4) s2(2) by simp
    then have "\<exists>e s1. update_post sizes base netif n ?sip ?sha ?fl s e s1 \<and> arp_table s' = arp_table s1
        \<and> tx s' = tx s1 @ (if ?us \<and> htons (ld16 ?d (?a + 20)) = 1 then [(netif, ?f @ drop 42 (chain_data s xs))] else [])"
      using u(4) t by blast
    then show ?thesis using True by (simp add: arp_input_post_def Let_def)
  qed
  ultimately show ?thesis using f(2,6) ext_same_trans [OF u(3) ext_same_trans [OF s2(4) f(3)]] by auto
qed

text \<open>An IP packet updates the table with the sender's addresses if the sender is on the local network.\<close>

lemma etharp_ip_input_ok:
  fixes s :: "'a link_state_scheme"
  assumes ok: "link_ok sizes base s" and n: "eth_netif (netifs s) netif n" and b: "pbufs s p = Some b"
  shows "\<exists>s'. etharp_ip_input netif p s = Some s' \<and> link_ok sizes base s' \<and> ext_same s s' \<and> link_frame {} s s'
    \<and> (let src = ld32 (bytes s) (payload b + 26)
       in if ip_addr_netcmp src (nif_ip_addr n) (nif_netmask n)
          then \<exists>e. update_post sizes base netif n src (peek (bytes s) (payload b + 6) 6) 0 s e s' else s' = s)"
proof -
  let ?src = "ld32 (bytes s) (payload b + 26)" and ?mac = "peek (bytes s) (payload b + 6) 6"
  obtain e s' where u: "update_arp_entry netif ?src ?mac 0 s = Some (e, s')" "link_ok sizes base s'" "ext_same s s'"
    "update_post sizes base netif n ?src ?mac 0 s e s'"
    using update_arp_entry_ok [OF ok n, of ?mac 0 ?src] by auto
  have "etharp_ip_input netif p s = (if ip_addr_netcmp ?src (nif_ip_addr n) (nif_netmask n) then Some s' else Some s)"
    using n b u(1) by (simp add: etharp_ip_input_def eth_netif_def etharp_consts Let_def ac_simps)
  then show ?thesis using ok u update_frame [OF ok u(4)] by (auto simp: Let_def)
qed

text \<open>
  Claim C17. An incoming ARP message never aborts, and its packet is freed. A message that is too short or
  not IP over Ethernet changes nothing. Else the sender's addresses update the table, which
  sends what waited for them, and exactly the requests for the address of this interface are
  answered, with one reply of the hardware and protocol addresses of the interface to the sender.
\<close>

theorem etharp_arp_input_correct:
  fixes s :: link_state
  assumes "link_ok sizes base s" and "packet (pbufs s) p xs" and "sole (pbufs s) xs" and "owned (pbufs s) xs" and "plen (pbufs s) xs \<le> 1514"
    and "set xs \<inter> held s = {}" and "eth_netif (netifs s) netif n" and "pbufs s p = Some b"
  shows "\<exists>s'. etharp_arp_input netif (nif_hwaddr n) p s = Some s' \<and> link_ok sizes base s' \<and> ext_same s s' \<and> (\<forall>x\<in>set xs. pbufs s' x = None)
    \<and> arp_input_post sizes base netif n b (chain_data s xs) s s'"
  using etharp_arp_input_ok [OF assms] .

theorem etharp_arp_input_correct_witness:
  "\<exists>q s s'. etharp_arp_input 5000 [2, 0, 0, 0, 0, 1] q (s :: link_state) = Some s' \<and> pbufs s q \<noteq> None \<and> pbufs s' q = None"
proof -
  obtain q and s :: link_state where s: "link_ok example_sizes 20000 s" "packet (pbufs s) q [q]" "owned (pbufs s) [q]" "plen (pbufs s) [q] = 20"
    "q \<notin> held s" "eth_netif (netifs s) 5000 example_netif" "sole (pbufs s) [q]"
    using example_sendable by blast
  obtain b where b: "pbufs s q = Some b" using s(2) by (auto simp: packet_simps)
  have "set [q] \<inter> held s = {}" "plen (pbufs s) [q] \<le> 1514" using s(4,5) by auto
  from etharp_arp_input_correct [OF s(1,2,7,3) this(2,1) s(6) b]
  obtain s' where "etharp_arp_input 5000 (nif_hwaddr example_netif) q s = Some s'" "pbufs s' q = None" by auto
  then show ?thesis using b by (auto simp: example_netif_def)
qed
end
