(* ===== verification/Ip.thy ===== *)
theory Ip
  imports Etharp_Correct
begin

text \<open>
  The output side of \<^verbatim>\<open>lwip/src/core/ipv4/ip.c\<close> and fragmentation, \<open>ip_frag\<close> of
  \<^verbatim>\<open>lwip/src/core/ipv4/ip_frag.c\<close>: routing, the IP header with its checksum, and the call of the
  interface's \<open>output\<close>, which is \<open>etharp_output\<close> for every interface of the bindings.

  State. \<open>ip_id\<close> is the static counter of \<open>ip_output_if\<close>; \<open>current_netif\<close> and \<open>current_header\<close> are set while a
  packet is delivered. Header fields are read from and written to the bytes of the packet, at the address of the
  header, as the macros of \<^verbatim>\<open>lwip/src/include/ipv4/lwip/ip.h\<close> do. An address that the code passes
  as a pointer is passed by value; \<open>IP_HDRINCL\<close>, the null destination of \<open>ip_output_if\<close>, is \<open>None\<close>, and a null
  source is the address 0, which the code treats in the same way.
\<close>

section \<open>The header\<close>

record ip_state = link_state +
  ip_id :: u16_t
  current_netif :: addr
  current_header :: addr

definition IP_HLEN :: nat where "IP_HLEN = 20"
definition IP_PROTO_ICMP :: u8_t where "IP_PROTO_ICMP = 1"
definition IP_PROTO_UDP :: u8_t where "IP_PROTO_UDP = 17"
definition IP_PROTO_TCP :: u8_t where "IP_PROTO_TCP = 6"
definition IP_MF :: u16_t where "IP_MF = 0x2000"
definition IP_OFFMASK :: u16_t where "IP_OFFMASK = 0x1fff"

definition IPH_V :: "(addr \<Rightarrow> u8_t) \<Rightarrow> addr \<Rightarrow> u16_t" where "IPH_V d h = drop_bit 12 (ntohs (ld16 d h))"
definition IPH_HL :: "(addr \<Rightarrow> u8_t) \<Rightarrow> addr \<Rightarrow> u16_t" where "IPH_HL d h = drop_bit 8 (ntohs (ld16 d h)) AND 0x0f"
definition IPH_LEN :: "(addr \<Rightarrow> u8_t) \<Rightarrow> addr \<Rightarrow> u16_t" where "IPH_LEN d h = ld16 d (h + 2)"
definition IPH_ID :: "(addr \<Rightarrow> u8_t) \<Rightarrow> addr \<Rightarrow> u16_t" where "IPH_ID d h = ld16 d (h + 4)"
definition IPH_OFFSET :: "(addr \<Rightarrow> u8_t) \<Rightarrow> addr \<Rightarrow> u16_t" where "IPH_OFFSET d h = ld16 d (h + 6)"
definition IPH_TTL :: "(addr \<Rightarrow> u8_t) \<Rightarrow> addr \<Rightarrow> u16_t" where "IPH_TTL d h = drop_bit 8 (ntohs (ld16 d (h + 8)))"
definition IPH_PROTO :: "(addr \<Rightarrow> u8_t) \<Rightarrow> addr \<Rightarrow> u16_t" where "IPH_PROTO d h = ntohs (ld16 d (h + 8)) AND 0xff"
definition IPH_CHKSUM :: "(addr \<Rightarrow> u8_t) \<Rightarrow> addr \<Rightarrow> u16_t" where "IPH_CHKSUM d h = ld16 d (h + 10)"
definition iph_src :: "(addr \<Rightarrow> u8_t) \<Rightarrow> addr \<Rightarrow> u32_t" where "iph_src d h = ld32 d (h + 12)"
definition iph_dest :: "(addr \<Rightarrow> u8_t) \<Rightarrow> addr \<Rightarrow> u32_t" where "iph_dest d h = ld32 d (h + 16)"

definition IPH_VHLTOS_SET :: "addr \<Rightarrow> u16_t \<Rightarrow> u16_t \<Rightarrow> u8_t \<Rightarrow> (addr \<Rightarrow> u8_t) \<Rightarrow> (addr \<Rightarrow> u8_t)" where
  "IPH_VHLTOS_SET h v hl tos d = poke h (le16 (htons (push_bit 12 v OR push_bit 8 hl OR ucast tos))) d"

definition IPH_LEN_SET :: "addr \<Rightarrow> u16_t \<Rightarrow> (addr \<Rightarrow> u8_t) \<Rightarrow> (addr \<Rightarrow> u8_t)" where
  "IPH_LEN_SET h l d = poke (h + 2) (le16 l) d"

definition IPH_ID_SET :: "addr \<Rightarrow> u16_t \<Rightarrow> (addr \<Rightarrow> u8_t) \<Rightarrow> (addr \<Rightarrow> u8_t)" where
  "IPH_ID_SET h i d = poke (h + 4) (le16 i) d"

definition IPH_OFFSET_SET :: "addr \<Rightarrow> u16_t \<Rightarrow> (addr \<Rightarrow> u8_t) \<Rightarrow> (addr \<Rightarrow> u8_t)" where
  "IPH_OFFSET_SET h off d = poke (h + 6) (le16 off) d"

definition IPH_TTL_SET :: "addr \<Rightarrow> u8_t \<Rightarrow> (addr \<Rightarrow> u8_t) \<Rightarrow> (addr \<Rightarrow> u8_t)" where
  "IPH_TTL_SET h ttl d = poke (h + 8) (le16 (htons (IPH_PROTO d h OR push_bit 8 (ucast ttl)))) d"

definition IPH_PROTO_SET :: "addr \<Rightarrow> u8_t \<Rightarrow> (addr \<Rightarrow> u8_t) \<Rightarrow> (addr \<Rightarrow> u8_t)" where
  "IPH_PROTO_SET h proto d = poke (h + 8) (le16 (htons (ucast proto OR push_bit 8 (IPH_TTL d h)))) d"

definition IPH_CHKSUM_SET :: "addr \<Rightarrow> u16_t \<Rightarrow> (addr \<Rightarrow> u8_t) \<Rightarrow> (addr \<Rightarrow> u8_t)" where
  "IPH_CHKSUM_SET h chksum d = poke (h + 10) (le16 chksum) d"

definition iph_src_set :: "addr \<Rightarrow> u32_t \<Rightarrow> (addr \<Rightarrow> u8_t) \<Rightarrow> (addr \<Rightarrow> u8_t)" where
  "iph_src_set h a d = poke (h + 12) (le32 a) d"

definition iph_dest_set :: "addr \<Rightarrow> u32_t \<Rightarrow> (addr \<Rightarrow> u8_t) \<Rightarrow> (addr \<Rightarrow> u8_t)" where
  "iph_dest_set h a d = poke (h + 16) (le32 a) d"

section \<open>Routing\<close>

definition ip_route :: "u32_t \<Rightarrow> 'a netif_state_scheme \<Rightarrow> addr option" where
  "ip_route dest s = do {
     p \<leftarrow> netif_scan (\<lambda>n. netif_is_up n \<and> ip_addr_netcmp dest (nif_ip_addr n) (nif_netmask n)) (netif_list s) s;
     if p \<noteq> NULL then Some p
     else if netif_default s = NULL then Some NULL
     else do {
       n \<leftarrow> netifs s (netif_default s);
       if \<not> netif_is_up n then Some NULL else Some (netif_default s)
     }
   }"

section \<open>Fragmentation\<close>

text \<open>
  The inner loop of \<open>ip_frag\<close>: mirror \<open>left_to_copy\<close> bytes of the chain from \<open>p\<close> behind \<open>rambuf\<close>. The result is the pbuf
  it stopped at and the last \<open>newpbuflen\<close>, or \<open>Inl ERR_MEM\<close>.
\<close>

partial_function (option) frag_fill ::
  "addr \<Rightarrow> addr \<Rightarrow> nat \<Rightarrow> nat \<Rightarrow> 'a net_state_scheme \<Rightarrow> ((err_t + addr \<times> nat) \<times> 'a net_state_scheme) option" where
  "frag_fill rambuf p left_to_copy newpbuflen s =
     (if left_to_copy = 0 then Some (Inr (p, newpbuflen), s)
      else do {
        b \<leftarrow> pbufs s p;
        let newpbuflen = (if left_to_copy < len b then left_to_copy else len b);
        if newpbuflen = 0 then frag_fill rambuf (pb_next b) left_to_copy newpbuflen s
        else do {
          (newpbuf, s) \<leftarrow> pbuf_alloc PBUF_RAW 0 PBUF_REF s;
          if newpbuf = NULL then do { (c, s) \<leftarrow> pbuf_free rambuf s; Some (Inl ERR_MEM, s) }
          else do {
            s \<leftarrow> mod_pbuf newpbuf (\<lambda>x. x\<lparr>payload := payload b, len := newpbuflen, tot_len := newpbuflen\<rparr>) s;
            s \<leftarrow> pbuf_cat rambuf newpbuf s;
            let left_to_copy = left_to_copy - newpbuflen;
            frag_fill rambuf (if left_to_copy \<noteq> 0 then pb_next b else p) left_to_copy newpbuflen s
          }
        }
      })"

declare frag_fill.simps [code]

text \<open>The outer loop, with \<open>hdr\<close> the address of the original header. Lengths and offsets wrap at 16 bits.\<close>

partial_function (option) frag_loop ::
  "addr \<Rightarrow> addr \<Rightarrow> u32_t \<Rightarrow> nat \<Rightarrow> nat \<Rightarrow> u16_t \<Rightarrow> addr \<Rightarrow> nat \<Rightarrow> nat \<Rightarrow> u16_t \<Rightarrow> nat \<Rightarrow> 'a link_state_scheme \<Rightarrow> (err_t \<times> 'a link_state_scheme) option" where
  "frag_loop netif hdr dest mtu nfb omf p left poff ofo newpbuflen s =
     (if left = 0 then Some (ERR_OK, s)
      else do {
        let last = (left + IP_HLEN \<le> mtu);
        let tmp = omf OR (IP_OFFMASK AND ofo);
        let tmp = (if \<not> last then tmp OR IP_MF else tmp);
        let cop = (if last then left else u16 (nfb * 8));
        (rambuf, s) \<leftarrow> pbuf_alloc PBUF_LINK IP_HLEN PBUF_RAM s;
        if rambuf = NULL then Some (ERR_MEM, s)
        else do {
          b \<leftarrow> pbufs s p;
          lwip_assert (IP_HLEN \<le> len b);
          r \<leftarrow> pbufs s rambuf;
          let s = s\<lparr>bytes := poke (payload r) (peek (bytes s) hdr IP_HLEN) (bytes s)\<rparr>;
          s \<leftarrow> mod_pbuf p (\<lambda>x. x\<lparr>payload := payload x + poff, len := add16 (len x) (- int poff)\<rparr>) s;
          (res, s) \<leftarrow> frag_fill rambuf p cop newpbuflen s;
          case res of
            Inl e \<Rightarrow> Some (e, s)
          | Inr (p, newpbuflen) \<Rightarrow> do {
              let poff = newpbuflen;
              r \<leftarrow> pbufs s rambuf;
              let iphdr = payload r;
              let d = IPH_OFFSET_SET iphdr (htons tmp) (bytes s);
              let d = IPH_LEN_SET iphdr (htons (of_nat (cop + IP_HLEN))) d;
              let d = IPH_CHKSUM_SET iphdr 0 d;
              let d = IPH_CHKSUM_SET iphdr (inet_chksum d iphdr IP_HLEN) d;
              (e, s) \<leftarrow> etharp_output netif rambuf dest (s\<lparr>bytes := d\<rparr>);
              (c, s) \<leftarrow> pbuf_free rambuf s;
              frag_loop netif hdr dest mtu nfb omf p (add16 left (- int cop)) poff (ofo + of_nat nfb) newpbuflen s
            }
        }
      })"

declare frag_loop.simps [code]

definition ip_frag :: "addr \<Rightarrow> addr \<Rightarrow> u32_t \<Rightarrow> 'a link_state_scheme \<Rightarrow> (err_t \<times> 'a link_state_scheme) option" where
  "ip_frag p netif dest s = do {
     n \<leftarrow> netifs s netif;
     b \<leftarrow> pbufs s p;
     let mtu = nif_mtu n;
     let iphdr = payload b;
     let tmp = ntohs (IPH_OFFSET (bytes s) iphdr);
     let left = add16 (tot_len b) (- int IP_HLEN);
     let nfb = (if IP_HLEN \<le> mtu then (mtu - IP_HLEN) div 8 else u16 (65536 - (IP_HLEN - mtu) div 8));
     frag_loop netif iphdr dest mtu nfb (tmp AND IP_MF) p left IP_HLEN (tmp AND IP_OFFMASK) 0 s
   }"

section \<open>Output\<close>

definition ip_header_bytes :: "addr \<Rightarrow> u32_t \<Rightarrow> u32_t \<Rightarrow> u8_t \<Rightarrow> u8_t \<Rightarrow> u8_t \<Rightarrow> nat \<Rightarrow> u16_t \<Rightarrow> (addr \<Rightarrow> u8_t) \<Rightarrow> (addr \<Rightarrow> u8_t)" where
  "ip_header_bytes iphdr src dest ttl tos proto tot i d =
     (let d = IPH_TTL_SET iphdr ttl d;
          d = IPH_PROTO_SET iphdr proto d;
          d = iph_dest_set iphdr dest d;
          d = IPH_VHLTOS_SET iphdr 4 (of_nat IP_HLEN div 4) tos d;
          d = IPH_LEN_SET iphdr (htons (of_nat tot)) d;
          d = IPH_OFFSET_SET iphdr 0 d;
          d = IPH_ID_SET iphdr (htons i) d;
          d = iph_src_set iphdr src d;
          d = IPH_CHKSUM_SET iphdr 0 d
      in IPH_CHKSUM_SET iphdr (inet_chksum d iphdr IP_HLEN) d)"

definition ip_output_if ::
  "addr \<Rightarrow> u32_t \<Rightarrow> u32_t option \<Rightarrow> u8_t \<Rightarrow> u8_t \<Rightarrow> u8_t \<Rightarrow> addr \<Rightarrow> 'a ip_state_scheme \<Rightarrow> (err_t \<times> 'a ip_state_scheme) option" where
  "ip_output_if p src dest ttl tos proto netif s = do {
     n \<leftarrow> netifs s netif;
     (r, s) \<leftarrow> (case dest of
         Some dst \<Rightarrow> do {
           (failed, s) \<leftarrow> pbuf_header p (int IP_HLEN) s;
           if failed then Some (None, s)
           else do {
             b \<leftarrow> pbufs s p;
             lwip_assert (IP_HLEN \<le> len b);
             let src = (if ip_addr_isany src then nif_ip_addr n else src);
             let d = ip_header_bytes (payload b) src dst ttl tos proto (tot_len b) (ip_id s) (bytes s);
             Some (Some dst, s\<lparr>bytes := d, ip_id := ip_id s + 1\<rparr>)
           }
         }
       | None \<Rightarrow> do {
           b \<leftarrow> pbufs s p;
           Some (Some (iph_dest (bytes s) (payload b)), s)
         });
     case r of
       None \<Rightarrow> Some (ERR_BUF, s)
     | Some dst \<Rightarrow> do {
         b \<leftarrow> pbufs s p;
         if nif_mtu n \<noteq> 0 \<and> tot_len b > nif_mtu n then ip_frag p netif dst s else etharp_output netif p dst s
       }
   }"

definition ip_output :: "addr \<Rightarrow> u32_t \<Rightarrow> u32_t \<Rightarrow> u8_t \<Rightarrow> u8_t \<Rightarrow> u8_t \<Rightarrow> 'a ip_state_scheme \<Rightarrow> (err_t \<times> 'a ip_state_scheme) option" where
  "ip_output p src dest ttl tos proto s = do {
     netif \<leftarrow> ip_route dest s;
     if netif = NULL then Some (ERR_RTE, s) else ip_output_if p src (Some dest) ttl tos proto netif s
   }"


section \<open>The header that output writes\<close>

definition chksum_of :: "u8_t list \<Rightarrow> u16_t" where
  "chksum_of v = NOT (of_nat (ones_rep (bsum v)))"

lemma inet_chksum_peek: "n < 65536 \<Longrightarrow> inet_chksum d p n = chksum_of (peek d p n)"
proof -
  assume "n < 65536"
  then have "of_nat (unat (lwip_standard_chksum d p n)) = (of_nat (ones_rep (bsum (peek d p n))) :: u16_t)" by (simp only: lwip_standard_chksum_spec)
  then show ?thesis by (simp add: inet_chksum_def chksum_of_def)
qed

definition ip_hdr_with :: "u16_t \<Rightarrow> u32_t \<Rightarrow> u32_t \<Rightarrow> u8_t \<Rightarrow> u8_t \<Rightarrow> u8_t \<Rightarrow> nat \<Rightarrow> u16_t \<Rightarrow> u8_t list" where
  "ip_hdr_with c src dest ttl tos proto tot i =
     le16 (htons (0x4500 OR ucast tos)) @ le16 (htons (of_nat tot)) @ le16 (htons i) @ le16 0
       @ le16 (htons (ucast proto OR push_bit 8 (ucast ttl))) @ le16 c @ le32 src @ le32 dest"

definition ip_hdr :: "u32_t \<Rightarrow> u32_t \<Rightarrow> u8_t \<Rightarrow> u8_t \<Rightarrow> u8_t \<Rightarrow> nat \<Rightarrow> u16_t \<Rightarrow> u8_t list" where
  "ip_hdr src dest ttl tos proto tot i =
     ip_hdr_with (chksum_of (ip_hdr_with 0 src dest ttl tos proto tot i)) src dest ttl tos proto tot i"

lemma length_ip_hdr [simp]: "length (ip_hdr_with c src dest ttl tos proto tot i) = 20" "length (ip_hdr src dest ttl tos proto tot i) = 20"
  by (simp_all add: ip_hdr_with_def ip_hdr_def)

lemma ntohs_htons [simp]: "ntohs (htons w) = w"
  by (simp add: ntohs_def)

lemma ttl_of_field: "drop_bit 8 ((w AND 0xff) OR push_bit 8 (ucast (t :: u8_t))) = (ucast t :: u16_t)"
proof (rule bit_word_eqI)
  fix n
  assume "n < LENGTH(16)"
  then show "bit (drop_bit 8 ((w AND 0xff) OR push_bit 8 (ucast t)) :: u16_t) n \<longleftrightarrow> bit (ucast t :: u16_t) n"
    using bit_imp_le_length [of t n] by (auto simp: bit_simps bit_mask_iff simp flip: mask_eq_exp_minus_1)
qed

lemma peek_ip_hdr:
  "peek d h 20 = peek d h 2 @ peek d (h + 2) 2 @ peek d (h + 4) 2 @ peek d (h + 6) 2 @ peek d (h + 8) 2 @ peek d (h + 10) 2
     @ peek d (h + 12) 4 @ peek d (h + 16) 4"
proof -
  have "peek d h (2 + (2 + (2 + (2 + (2 + (2 + (4 + 4))))))) = peek d h 2 @ peek d (h + 2) 2 @ peek d (h + 4) 2 @ peek d (h + 6) 2
     @ peek d (h + 8) 2 @ peek d (h + 10) 2 @ peek d (h + 12) 4 @ peek d (h + 16) 4"
    unfolding peek_add by (simp add: add.assoc del: add_2_eq_Suc')
  then show ?thesis by simp
qed

lemmas iph_set_defs = IPH_VHLTOS_SET_def IPH_LEN_SET_def IPH_ID_SET_def IPH_OFFSET_SET_def IPH_TTL_SET_def IPH_PROTO_SET_def
  IPH_CHKSUM_SET_def iph_src_set_def iph_dest_set_def

lemma ttl_proto_set:
  "IPH_PROTO_SET h proto (IPH_TTL_SET h ttl d) = poke (h + 8) (le16 (htons (ucast proto OR push_bit 8 (ucast ttl)))) (IPH_TTL_SET h ttl d)"
proof -
  have "ld16 (IPH_TTL_SET h ttl d) (h + 8) = htons (IPH_PROTO d h OR push_bit 8 (ucast ttl))"
    by (rule ld16_le16) (simp add: IPH_TTL_SET_def peek_poke_same)
  then have "IPH_TTL (IPH_TTL_SET h ttl d) h = ucast ttl"
    using ttl_of_field [of "ntohs (ld16 d (h + 8))" ttl] by (simp add: IPH_TTL_def IPH_PROTO_def)
  then show ?thesis by (simp add: IPH_PROTO_SET_def)
qed

lemma ip_header_bytes_frame:
  shows "peek (ip_header_bytes h src dest ttl tos proto tot i d) h 20 = ip_hdr src dest ttl tos proto tot i" (is ?frame)
    and "writes_within h 20 d (ip_header_bytes h src dest ttl tos proto tot i d)" (is ?within)
    and "inet_chksum (ip_header_bytes h src dest ttl tos proto tot i d) h 20 = 0" (is ?chk)
proof -
  define d1 where "d1 = IPH_CHKSUM_SET h 0 (iph_src_set h src (IPH_ID_SET h (htons i) (IPH_OFFSET_SET h 0 (IPH_LEN_SET h (htons (of_nat tot))
    (IPH_VHLTOS_SET h 4 (of_nat IP_HLEN div 4) tos (iph_dest_set h dest (IPH_PROTO_SET h proto (IPH_TTL_SET h ttl d))))))))"
  have run: "ip_header_bytes h src dest ttl tos proto tot i d = IPH_CHKSUM_SET h (inet_chksum d1 h 20) d1"
    unfolding ip_header_bytes_def Let_def d1_def by (simp add: IP_HLEN_def)
  have v: "16384 OR push_bit 8 (of_nat IP_HLEN div 4) = (0x4500 :: u16_t)" by (simp add: IP_HLEN_def)
  have d1: "peek d1 h 20 = ip_hdr_with 0 src dest ttl tos proto tot i" "writes_within h 20 d d1"
    unfolding peek_ip_hdr d1_def ttl_proto_set
    unfolding iph_set_defs ip_hdr_with_def by (simp_all add: peek_poke_apart peek_poke_at writes_within_poke v flip: or.assoc)
  have c: "inet_chksum d1 h 20 = chksum_of (ip_hdr_with 0 src dest ttl tos proto tot i)" using inet_chksum_peek [of 20 d1 h] d1(1) by simp
  have part: "peek d1 h 2 @ peek d1 (h + 2) 2 @ peek d1 (h + 4) 2 @ peek d1 (h + 6) 2 @ peek d1 (h + 8) 2 @ peek d1 (h + 10) 2
     @ peek d1 (h + 12) 4 @ peek d1 (h + 16) 4 = ip_hdr_with 0 src dest ttl tos proto tot i" using d1(1) unfolding peek_ip_hdr .
  show ?frame
    unfolding run c peek_ip_hdr ip_hdr_def using part
    by (simp add: IPH_CHKSUM_SET_def peek_poke_apart peek_poke_at ip_hdr_with_def)
  show ?within unfolding run using d1(2) by (simp add: IPH_CHKSUM_SET_def writes_within_poke)
  have "peek d1 (h + 10) 2 = le16 0" using part unfolding ip_hdr_with_def by simp
  then have "peek d1 (h + 10) 2 = [0, 0]" by (simp add: le16_def)
  then have z: "d1 (h + 10) = 0" "d1 (h + 10 + 1) = 0" by (simp_all add: peek_def upt_rec)
  show ?chk unfolding run IPH_CHKSUM_SET_def using inet_chksum_store [of 20 10 d1 h] z by simp
qed

section \<open>Output\<close>

lemma reveal_packet:
  assumes ok: "net_ok sizes base s" and pk: "packet (pbufs s) q xs" "owned (pbufs s) xs" "filled (pbufs s) xs" "plen (pbufs s) xs + n < 65536"
    and b: "pbufs s q = Some b" and room: "q + SIZEOF_STRUCT_PBUF + n \<le> payload b" and n: "0 < n"
  shows "pbuf_header q (int n) s = Some (False, reveal q b n s)" and "net_ok sizes base (reveal q b n s)"
    and "packet (pbufs (reveal q b n s)) q xs" and "owned (pbufs (reveal q b n s)) xs" and "filled (pbufs (reveal q b n s)) xs"
    and "plen (pbufs (reveal q b n s)) xs = plen (pbufs s) xs + n" and "drop n (chain_data (reveal q b n s) xs) = chain_data s xs"
proof -
  obtain ys where ys: "xs = q # ys" "tot_len b = len b + plen (pbufs s) ys" "q \<notin> set ys" using packet_head [OF pk(1)] b by (metis option.inject)
  have ty: "ptype b = PBUF_RAM \<or> ptype b = PBUF_POOL" using pk(2) ys(1) b by (simp add: owned_def)
  obtain s' where s': "pbuf_header q (int n) s = Some (False, s')" "s' = reveal q b n s" "net_ok sizes base s'" "packet (pbufs s') q xs"
    "chain_data s' xs = map (bytes s) [payload b - n..<payload b] @ chain_data s xs"
    using pbuf_header_reveal(2) [OF ok pk(1) n b ty] room pk(4) ys b by (auto simp: reveal_def)
  show "pbuf_header q (int n) s = Some (False, reveal q b n s)" "net_ok sizes base (reveal q b n s)" "packet (pbufs (reveal q b n s)) q xs"
    using s'(1-4) by simp_all
  show "drop n (chain_data (reveal q b n s) xs) = chain_data s xs" using s'(2,5) room by simp
  show "owned (pbufs (reveal q b n s)) xs" "filled (pbufs (reveal q b n s)) xs" using pk(2,3) ty b by (auto simp: owned_def filled_def list_all_iff ys(1))
  show "plen (pbufs (reveal q b n s)) xs = plen (pbufs s) xs + n" using ys b by (simp add: plen_upd_out)
qed

text \<open>The state after the header of \<open>ip_output_if\<close>: the new first bytes of the packet are the header.\<close>

definition ip_prepared :: "addr \<Rightarrow> pbuf \<Rightarrow> u32_t \<Rightarrow> u32_t \<Rightarrow> u8_t \<Rightarrow> u8_t \<Rightarrow> u8_t \<Rightarrow> 'a ip_state_scheme \<Rightarrow> 'a ip_state_scheme" where
  "ip_prepared p b src dest ttl tos proto s =
     (reveal p b 20 s)\<lparr>bytes := ip_header_bytes (payload b - 20) src dest ttl tos proto (tot_len b + 20) (ip_id s) (bytes s), ip_id := ip_id s + 1\<rparr>"

definition src_addr :: "netif \<Rightarrow> u32_t \<Rightarrow> u32_t" where
  "src_addr n src = (if src = 0 then nif_ip_addr n else src)"

lemma more_ip:
  fixes s s' :: "'a ip_state_scheme"
  assumes "net_state.more s' = net_state.more s"
  shows "ip_id s' = ip_id s" and "current_netif s' = current_netif s" and "current_header s' = current_header s" and "ip_state.more s' = ip_state.more s"
  using assms by (cases s; cases s'; simp)+

text \<open>What output leaves alone: everything above the link layer but the counter \<open>ip_id\<close>.\<close>

definition ip_same :: "'a ip_state_scheme \<Rightarrow> 'a ip_state_scheme \<Rightarrow> bool" where
  "ip_same s s' \<longleftrightarrow> netifs s' = netifs s \<and> netif_list s' = netif_list s \<and> netif_default s' = netif_default s
     \<and> current_netif s' = current_netif s \<and> current_header s' = current_header s \<and> ip_state.more s' = ip_state.more s"

lemma ip_same_refl [simp]: "ip_same s s"
  by (simp add: ip_same_def)

lemma ip_same_trans: "ip_same s s' \<Longrightarrow> ip_same s' s'' \<Longrightarrow> ip_same s s''"
  by (simp add: ip_same_def)

lemma ext_same_ip:
  fixes s s' :: "'a ip_state_scheme"
  assumes "ext_same s s'"
  shows "ip_same s s'" and "ip_id s' = ip_id s"
  using assms by (cases s; cases s'; simp add: ext_same_def ip_same_def)+

lemma ip_output_if_prepare:
  fixes s :: "'a ip_state_scheme" and src dest :: u32_t and ttl tos proto :: u8_t
  assumes ok: "link_ok sizes base s" and pk: "packet (pbufs s) p xs" "owned (pbufs s) xs" "filled (pbufs s) xs" "plen (pbufs s) xs + 20 < 65536"
    and xs: "set xs \<inter> held s = {}" and n: "netifs s netif = Some n" and b: "pbufs s p = Some b" and room: "p + SIZEOF_STRUCT_PBUF + 20 \<le> payload b"
  defines "s1 \<equiv> ip_prepared p b (src_addr n src) dest ttl tos proto s"
  shows "ip_output_if p src (Some dest) ttl tos proto netif s =
      (if nif_mtu n \<noteq> 0 \<and> plen (pbufs s) xs + 20 > nif_mtu n then ip_frag p netif dest s1 else etharp_output netif p dest s1)"
    and "link_ok sizes base s1" and "packet (pbufs s1) p xs" and "owned (pbufs s1) xs" and "filled (pbufs s1) xs"
    and "plen (pbufs s1) xs = plen (pbufs s) xs + 20" and "set xs \<inter> held s1 = {}" and "ip_same s s1" and "arp_table s1 = arp_table s" and "tx s1 = tx s"
    and "chain_data s1 xs = ip_hdr (src_addr n src) dest ttl tos proto (plen (pbufs s) xs + 20) (ip_id s) @ chain_data s xs"
    and "pbufs s1 p = Some (b\<lparr>payload := payload b - 20, len := len b + 20, tot_len := tot_len b + 20\<rparr>)"
proof -
  let ?r = "reveal p b 20 s" and ?b = "b\<lparr>payload := payload b - 20, len := len b + 20, tot_len := tot_len b + 20\<rparr>"
  let ?d = "ip_header_bytes (payload b - 20) (src_addr n src) dest ttl tos proto (tot_len b + 20) (ip_id s) (bytes s)"
  have s1: "s1 = ?r\<lparr>bytes := ?d, ip_id := ip_id s + 1\<rparr>" by (simp add: s1_def ip_prepared_def)
  have net: "net_ok sizes base s" using ok by (simp add: link_ok_def)
  note rp = reveal_packet [OF net pk b room]
  obtain ys where ys: "xs = p # ys" "tot_len b = len b + plen (pbufs s) ys" using packet_head [OF pk(1)] b by (metis option.inject)
  have tl: "tot_len b = plen (pbufs s) xs" using ys b by simp
  have ph: "p \<notin> held s" using xs ys(1) by auto
  have netr: "net_ok sizes base ?r" using rp(2) by simp
  note lr = link_ok_reveal [OF ok netr ph]
  have idr: "ip_id ?r = ip_id s" by (rule more_ip(1)) simp
  have nr: "netifs ?r netif = Some n" using lr(3) n by (simp add: ext_same_def)
  show "ip_output_if p src (Some dest) ttl tos proto netif s =
      (if nif_mtu n \<noteq> 0 \<and> plen (pbufs s) xs + 20 > nif_mtu n then ip_frag p netif dest s1 else etharp_output netif p dest s1)"
    using n rp(1) tl idr by (simp add: ip_output_if_def IP_HLEN_def s1 src_addr_def ip_addr_isany_def Let_def)
  have ne: "net_ok sizes base s1" unfolding s1 by (rule net_ok_same [OF net_ok_bytes [OF netr]]) simp_all
  then show "link_ok sizes base s1" using lr(1) by (simp add: s1 link_ok_def arp_ok_def queue_elem_def)
  show "packet (pbufs s1) p xs" "owned (pbufs s1) xs" "filled (pbufs s1) xs" "plen (pbufs s1) xs = plen (pbufs s) xs + 20"
    using rp by (simp_all add: s1)
  show "set xs \<inter> held s1 = {}" using xs lr(2) by (simp add: s1 held_def)
  show "ip_same s s1" using ext_same_ip(1) [OF lr(3)] by (simp add: s1 ip_same_def)
  show "arp_table s1 = arp_table s" "tx s1 = tx s" using lr(4,5) by (simp_all add: s1)
  show pb: "pbufs s1 p = Some ?b" by (simp add: s1)
  note hb = ip_header_bytes_frame [where h = "payload b - 20" and d = "bytes s" and src = "src_addr n src" and dest = dest and ttl = ttl
      and tos = tos and proto = proto and tot = "tot_len b + 20" and i = "ip_id s"]
  have "chain_data (?r\<lparr>bytes := ?d\<rparr>) xs = peek ?d (payload ?b) 20 @ drop 20 (chain_data ?r xs)"
  proof (rule overwrite_head [OF netr])
    show "packet (pbufs ?r) p xs" "owned (pbufs ?r) xs" using rp(3,4) by simp_all
    show "pbufs ?r p = Some ?b" by simp
    show "writes_within (payload ?b) 20 (bytes ?r) ?d" using hb(2) by simp
  qed simp
  then have "chain_data (?r\<lparr>bytes := ?d\<rparr>) xs = ip_hdr (src_addr n src) dest ttl tos proto (plen (pbufs s) xs + 20) (ip_id s) @ chain_data s xs"
    using rp(7) hb(1) tl by simp
  moreover have "chain_data s1 xs = chain_data (?r\<lparr>bytes := ?d\<rparr>) xs"
    by (rule chain_data_cong) (simp add: s1 pbuf_data_def cong: option.case_cong)
  ultimately show "chain_data s1 xs = ip_hdr (src_addr n src) dest ttl tos proto (plen (pbufs s) xs + 20) (ip_id s) @ chain_data s xs" by simp
qed

lemma chksum_of_ip_hdr: "chksum_of (ip_hdr src dest ttl tos proto tot i) = 0"
  using ip_header_bytes_frame(1,3) [of 0 src dest ttl tos proto tot i "\<lambda>_. 0"] inet_chksum_peek [of 20] by simp

text \<open>
  \<open>ip_output_if\<close> without fragmentation and with room for both headers: the frame that \<open>etharp_output\<close> handles
  is the Ethernet header, the IP header and the data.
\<close>

lemma ip_output_if_ok:
  fixes s :: "'a ip_state_scheme"
  assumes ok: "link_ok sizes base s" and pk: "packet (pbufs s) p xs" "owned (pbufs s) xs" "filled (pbufs s) xs" "plen (pbufs s) xs \<le> 1480"
    and xs: "set xs \<inter> held s = {}" and n: "eth_netif (netifs s) netif n" "nif_mtu n = 1500"
    and b: "pbufs s p = Some b" and room: "p + SIZEOF_STRUCT_PBUF + 34 \<le> payload b"
  shows "\<exists>e s' s2 v. ip_output_if p src (Some dest) ttl tos proto netif s = Some (e, s') \<and> link_ok sizes base s' \<and> ip_same s s'
    \<and> s2 = reveal p (b\<lparr>payload := payload b - 20, len := len b + 20, tot_len := tot_len b + 20\<rparr>) 14 (ip_prepared p b (src_addr n src) dest ttl tos proto s)
    \<and> link_frame {p} s2 s' \<and> output_post netif n dest v s2 e s'
    \<and> arp_table s2 = arp_table s \<and> tx s2 = tx s
    \<and> drop 14 v = ip_hdr (src_addr n src) dest ttl tos proto (plen (pbufs s) xs + 20) (ip_id s) @ chain_data s xs"
proof -
  let ?s1 = "ip_prepared p b (src_addr n src) dest ttl tos proto s" and ?b = "b\<lparr>payload := payload b - 20, len := len b + 20, tot_len := tot_len b + 20\<rparr>"
  have ns: "netifs s netif = Some n" and l: "plen (pbufs s) xs + 20 < 65536" and r: "p + SIZEOF_STRUCT_PBUF + 20 \<le> payload b"
    using n(1) pk(4) room by (simp_all add: eth_netif_def)
  note ip = ip_output_if_prepare [OF ok pk(1-3) l xs ns b r, of src dest ttl tos proto]
  have p1: "plen (pbufs ?s1) xs \<le> 1500" "eth_netif (netifs ?s1) netif n" "p + SIZEOF_STRUCT_PBUF + 14 \<le> payload ?b"
    using ip(6,8) pk(4) n room by (simp_all add: ip_same_def)
  let ?s2 = "reveal p ?b 14 ?s1"
  have net1: "net_ok sizes base ?s1" using ip(2) by (simp add: link_ok_def)
  have "p \<in> set xs" by (rule packet_head [OF pk(1)]) simp
  then have ph: "p \<notin> held ?s1" using ip(7) by auto
  note rv = sendable_reveal [OF net1 ip(3-5) p1(1) ip(12) p1(3)]
  note lr = link_ok_reveal [OF ip(2) rv(2) ph]
  obtain e s' where o: "etharp_output netif p dest ?s1 = Some (e, s')" "link_ok sizes base s'" "ext_same ?s1 s'" "link_frame {p} ?s2 s'"
    "output_post netif n dest (chain_data ?s2 xs) ?s2 e s'"
    using etharp_output_ok [OF ip(2-5) p1(1) ip(7) p1(2) ip(12) p1(3), of dest] by blast
  have "ip_output_if p src (Some dest) ttl tos proto netif s = Some (e, s')" using ip(1) o(1) n(2) pk(4) by simp
  moreover have "ip_same s s'" by (rule ip_same_trans [OF ip(8) ext_same_ip(1) [OF o(3)]])
  ultimately show ?thesis using o(2,4,5) rv(4) ip(9-11) lr(4,5) by auto
qed

section \<open>Routing\<close>

definition ifs_ok :: "'a netif_state_scheme \<Rightarrow> bool" where
  "ifs_ok s \<longleftrightarrow> NULL \<notin> set (netif_list s) \<and> (\<forall>p\<in>set (netif_list s). netifs s p \<noteq> None)
     \<and> (netif_default s \<noteq> NULL \<longrightarrow> netifs s (netif_default s) \<noteq> None)"

text \<open>The first interface that is up and whose network has the address, else the default interface if it is up.\<close>

definition route_of :: "u32_t \<Rightarrow> 'a netif_state_scheme \<Rightarrow> addr" where
  "route_of dest s =
     (case filter (\<lambda>p. netif_is_up (the (netifs s p)) \<and> ip_addr_netcmp dest (nif_ip_addr (the (netifs s p))) (nif_netmask (the (netifs s p)))) (netif_list s) of
        p # ps \<Rightarrow> p
      | [] \<Rightarrow> if netif_default s \<noteq> NULL \<and> netif_is_up (the (netifs s (netif_default s))) then netif_default s else NULL)"

lemma netif_scan_filter:
  "\<forall>p\<in>set ps. netifs s p \<noteq> None \<Longrightarrow>
     netif_scan P ps s = Some (case filter (\<lambda>p. P (the (netifs s p))) ps of [] \<Rightarrow> NULL | p # _ \<Rightarrow> p)"
  by (induction ps) auto

lemma ip_route_ok:
  assumes "ifs_ok s"
  shows "ip_route dest s = Some (route_of dest s)"
proof -
  let ?P = "\<lambda>n. netif_is_up n \<and> ip_addr_netcmp dest (nif_ip_addr n) (nif_netmask n)"
  have sc: "netif_scan ?P (netif_list s) s = Some (case filter (\<lambda>p. ?P (the (netifs s p))) (netif_list s) of [] \<Rightarrow> NULL | p # _ \<Rightarrow> p)"
    using assms by (intro netif_scan_filter) (simp add: ifs_ok_def)
  show ?thesis
  proof (cases "filter (\<lambda>p. ?P (the (netifs s p))) (netif_list s)")
    case Nil
    then show ?thesis using sc assms by (auto simp: ip_route_def route_of_def ifs_ok_def)
  next
    case (Cons p ps)
    then have "p \<in> set (filter (\<lambda>p. ?P (the (netifs s p))) (netif_list s))" by simp
    then have "p \<in> set (netif_list s)" by simp
    then have "p \<noteq> NULL" using assms unfolding ifs_ok_def by metis
    then show ?thesis using sc Cons by (simp add: ip_route_def route_of_def)
  qed
qed

section \<open>Properties\<close>

text \<open>
  Claim C13. \<open>ip_output\<close> routes to the first interface that is up and whose network contains the destination, else to
  the default interface; without one the result is \<open>ERR_RTE\<close> and nothing changed. On an Ethernet
  interface, for a packet of at most 1480 bytes with room for the headers, the frame that is sent or queued is
  the Ethernet header, an IP header with the given fields, the length, the next
  identification, the source address of the interface if none is given and a checksum that verifies, and the data.
\<close>

theorem ip_output_correct:
  fixes s :: ip_state
  assumes "link_ok sizes base s" and "ifs_ok s" and "packet (pbufs s) p xs" and "owned (pbufs s) xs" and "filled (pbufs s) xs" and "plen (pbufs s) xs \<le> 1480"
    and "set xs \<inter> held s = {}" and "pbufs s p = Some b" and "p + SIZEOF_STRUCT_PBUF + 34 \<le> payload b"
    and "route_of dest s \<noteq> NULL \<Longrightarrow> eth_netif (netifs s) (route_of dest s) n \<and> nif_mtu n = 1500"
  shows "if route_of dest s = NULL then ip_output p src dest ttl tos proto s = Some (ERR_RTE, s)
    else \<exists>e s' s2 v h. ip_output p src dest ttl tos proto s = Some (e, s') \<and> link_ok sizes base s'
      \<and> h = ip_hdr (if src = 0 then nif_ip_addr n else src) dest ttl tos proto (plen (pbufs s) xs + 20) (ip_id s) \<and> chksum_of h = 0
      \<and> drop 14 v = h @ chain_data s xs \<and> arp_table s2 = arp_table s \<and> tx s2 = tx s \<and> link_frame {p} s2 s'
      \<and> output_post (route_of dest s) n dest v s2 e s'"
proof (cases "route_of dest s = NULL")
  case True
  then show ?thesis using ip_route_ok [OF assms(2), of dest] by (simp add: ip_output_def)
next
  case False
  let ?if = "route_of dest s"
  have n: "eth_netif (netifs s) ?if n" "nif_mtu n = 1500" using assms(10) False by simp_all
  have run: "ip_output p src dest ttl tos proto s = ip_output_if p src (Some dest) ttl tos proto ?if s"
    using ip_route_ok [OF assms(2), of dest] False by (simp add: ip_output_def)
  obtain e s' s2 v where o: "ip_output_if p src (Some dest) ttl tos proto ?if s = Some (e, s')" "link_ok sizes base s'" "link_frame {p} s2 s'"
    "output_post ?if n dest v s2 e s'" "arp_table s2 = arp_table s" "tx s2 = tx s"
    "drop 14 v = ip_hdr (src_addr n src) dest ttl tos proto (plen (pbufs s) xs + 20) (ip_id s) @ chain_data s xs"
    using ip_output_if_ok [OF assms(1,3-7) n assms(8,9), of src dest ttl tos proto] by blast
  let ?h = "ip_hdr (if src = 0 then nif_ip_addr n else src) dest ttl tos proto (plen (pbufs s) xs + 20) (ip_id s)"
  show ?thesis
    unfolding if_not_P [OF False]
    by (rule exI [of _ e], rule exI [of _ s'], rule exI [of _ s2], rule exI [of _ v], rule exI [of _ ?h])
      (use o run chksum_of_ip_hdr in \<open>simp add: src_addr_def\<close>)
qed

definition example_ip :: ip_state where
  "example_ip = \<lparr>ram_heap = mem_init 1000, memp = memp_init example_sizes 20000, pbufs = Map.empty, bytes = (\<lambda>_. 0),
     netifs = [5000 \<mapsto> example_netif], netif_list = [5000], netif_default = 5000, tx = [],
     arp_table = replicate 10 empty_entry, etharp_cached_entry = 0, ip_id = 7, current_netif = NULL, current_header = NULL\<rparr>"

lemma example_ip_ok: "link_ok example_sizes 20000 example_ip" "ifs_ok example_ip"
proof -
  have "net_ok example_sizes 20000 example_ip"
    using example_net_ok by (simp add: net_ok_def example_ip_def example_net_def)
  moreover have "arp_ok example_sizes 20000 example_ip"
    by (simp add: arp_ok_def example_ip_def empty_entry_def entry_ok_def queued_def known_ips_def is_empty_def etharp_consts ethzero_def list_all_iff)
  ultimately show "link_ok example_sizes 20000 example_ip" by (simp add: link_ok_def)
  show "ifs_ok example_ip" by (simp add: ifs_ok_def example_ip_def)
qed

theorem ip_output_correct_witness:
  "\<exists>p e (s :: ip_state) s'. ip_output p 0 0x0200000a 255 0 IP_PROTO_UDP s = Some (e, s') \<and> link_ok example_sizes 20000 s'"
proof -
  have "heap_rep (ram_heap example_ip) [(0, MEM_SIZE_ALIGNED, False)]"
    by (simp add: example_ip_def heap_rep_def mem_init_def end_ok_def lwip_simps)
  then obtain p and s :: ip_state where s: "link_ok example_sizes 20000 s" "ext_same example_ip s" "packet (pbufs s) p [p]" "owned (pbufs s) [p]"
    "filled (pbufs s) [p]" "plen (pbufs s) [p] = 20" "p \<notin> held s" "pfield (pbufs s) payload p = p + (24 + layer_offset PBUF_IP)"
    using example_packet [OF example_ip_ok(1), of "[(0, MEM_SIZE_ALIGNED, False)]" PBUF_IP 20 0] by (auto simp: lwip_simps request_def)
  have nn: "netifs s = [5000 \<mapsto> example_netif]" "netif_list s = [5000]" "netif_default s = 5000"
    using s(2) by (simp_all add: ext_same_def example_ip_def)
  have io: "ifs_ok s" using nn by (simp add: ifs_ok_def)
  have rt: "route_of 0x0200000a s = 5000" by (simp add: route_of_def nn example_netif_def netif_is_up_def NETIF_FLAG_UP_def ip_addr_netcmp_def)
  obtain b where b: "pbufs s p = Some b" "p + SIZEOF_STRUCT_PBUF + 34 \<le> payload b" using s(3,8) by (auto simp: packet_simps lwip_simps)
  have "eth_netif (netifs s) 5000 example_netif \<and> nif_mtu example_netif = 1500" by (simp add: nn eth_netif_def example_netif_def)
  with ip_output_correct [OF s(1) io s(3-5) _ _ b, of "0x0200000a" example_netif 0 255 0 IP_PROTO_UDP] show ?thesis
    using s(6,7) unfolding rt by auto
qed
end
