(* ===== verification/Frames.thy ===== *)
theory Frames
  imports Ip
begin

text \<open>
  Which part of the state an operation leaves alone, whatever it is called with. The operations on packets keep everything beyond the memory and the packet
  buffers; those of the link layer and of IP output keep everything beyond the state of their own layer. In contrast to the correctness theorems of these layers the lemmas need no
  hypothesis on the packets, so that the layers above can use them for every call that returns.
\<close>

section \<open>Results\<close>

text \<open>Every result of an operation satisfies \<open>P\<close>; the operation may also not return.\<close>

definition returns :: "('x \<Rightarrow> bool) \<Rightarrow> 'x option \<Rightarrow> bool" where
  "returns P r \<longleftrightarrow> (\<forall>x. r = Some x \<longrightarrow> P x)"

named_theorems frames \<open>rules for the results of operations\<close>

lemma returns_Some [simp]: "returns P (Some x) = P x" and returns_None [simp]: "returns P None"
  by (simp_all add: returns_def)

lemma returnsD: "returns P r \<Longrightarrow> r = Some x \<Longrightarrow> P x"
  by (simp add: returns_def)

lemma returns_bind: "returns P r \<Longrightarrow> (\<And>x. P x \<Longrightarrow> returns Q (f x)) \<Longrightarrow> returns Q (Option.bind r f)"
  by (auto simp: returns_def bind_eq_Some_conv)

lemma returns_read: "(\<And>x. r = Some x \<Longrightarrow> returns Q (f x)) \<Longrightarrow> returns Q (Option.bind r f)"
  by (auto simp: returns_def bind_eq_Some_conv)

lemma returns_if [frames]: "(b \<Longrightarrow> returns P x) \<Longrightarrow> (\<not> b \<Longrightarrow> returns P y) \<Longrightarrow> returns P (if b then x else y)"
  by simp

lemma returns_split [frames]: "(\<And>a b. x = (a, b) \<Longrightarrow> returns P (f a b)) \<Longrightarrow> returns P (case x of (a, b) \<Rightarrow> f a b)"
  by (cases x) simp

lemma returns_option [frames]: "(x = None \<Longrightarrow> returns P y) \<Longrightarrow> (\<And>a. x = Some a \<Longrightarrow> returns P (f a)) \<Longrightarrow> returns P (case x of None \<Rightarrow> y | Some a \<Rightarrow> f a)"
  by (cases x) simp_all

lemma returns_sum [frames]: "(\<And>a. x = Inl a \<Longrightarrow> returns P (f a)) \<Longrightarrow> (\<And>a. x = Inr a \<Longrightarrow> returns P (h a)) \<Longrightarrow> returns P (case x of Inl a \<Rightarrow> f a | Inr a \<Rightarrow> h a)"
  by (cases x) simp_all

lemma returns_list [frames]: "(x = [] \<Longrightarrow> returns P y) \<Longrightarrow> (\<And>a as. x = a # as \<Longrightarrow> returns P (f a as)) \<Longrightarrow> returns P (case x of [] \<Rightarrow> y | a # as \<Rightarrow> f a as)"
  by (cases x) simp_all

lemma returns_bind_if [frames]: "(b \<Longrightarrow> returns P (Option.bind x f)) \<Longrightarrow> (\<not> b \<Longrightarrow> returns P (Option.bind y f)) \<Longrightarrow> returns P (Option.bind (if b then x else y) f)"
  by simp

text \<open>Reading a variable, or calling a function that does not change the state.\<close>

lemmas reads [frames] = returns_read [where r = "pbufs s p" for s p] returns_read [where r = "netifs s p" for s p] returns_read [where r = "memp_malloc m t" for m t]
  returns_read [where r = "mem_malloc h n" for h n] returns_read [where r = "mem_realloc h p n" for h p n] returns_read [where r = "memp_free m t p" for m t p]
  returns_read [where r = "mem_free h p" for h p] returns_read [where r = "queue_check p s" for p s] returns_read [where r = "output_loop q buf s" for q buf s]
  returns_read [where r = "query_copy_needed q s" for q s] returns_read [where r = "ip_route a s" for a s]

section \<open>Packet buffers\<close>

text \<open>An assertion on the state that does not depend on the memory and the packet buffers.\<close>

definition holds :: "('s \<Rightarrow> bool) \<Rightarrow> 's \<Rightarrow> bool" where "holds g s \<longleftrightarrow> g s"

definition net_frame :: "('a net_state_scheme \<Rightarrow> bool) \<Rightarrow> bool" where
  "net_frame g \<longleftrightarrow> (\<forall>s s'. net_state.more s' = net_state.more s \<longrightarrow> holds g s' = holds g s)"

lemma net_frameD: "net_frame g \<Longrightarrow> net_state.more s' = net_state.more s \<Longrightarrow> holds g s' = holds g s"
  unfolding net_frame_def by blast

lemma net_frame_upd:
  assumes "net_frame g"
  shows "holds g (s\<lparr>bytes := d\<rparr>) = holds g s" and "holds g (s\<lparr>memp := m\<rparr>) = holds g s" and "holds g (s\<lparr>ram_heap := h\<rparr>) = holds g s" and "holds g (s\<lparr>pbufs := b\<rparr>) = holds g s" and "holds g (put_pbuf p c s) = holds g s"
  by (rule net_frameD [OF assms]; simp add: put_pbuf_def)+

lemma mod_pbuf_keeps: "net_frame g \<Longrightarrow> holds g s \<Longrightarrow> returns (holds g) (mod_pbuf p f s)"
  by (auto simp: mod_pbuf_def net_frame_upd intro!: frames)

lemma pbuf_release_keeps: "net_frame g \<Longrightarrow> holds g s \<Longrightarrow> returns (holds g) (pbuf_release p ty s)"
  by (cases ty) (auto simp: pbuf_release_def net_frame_upd Let_def intro!: frames)

lemmas net_binds1 = mod_pbuf_keeps [THEN returns_bind] pbuf_release_keeps [THEN returns_bind]

lemma pbuf_free_loop_keeps:
  assumes fr: "net_frame g" and "holds g s"
  shows "returns (\<lambda>r. holds g (snd r)) (pbuf_free_loop p c s)"
proof -
  have "holds g s \<longrightarrow> holds g (snd r)" if "pbuf_free_loop p c s = Some r" for r
    apply (rule pbuf_free_loop.raw_induct [of "\<lambda>p c s r. holds g s \<longrightarrow> holds g (snd r)", OF _ that], rule impI)
    subgoal premises prems for f p c s r
    proof -
      have ih: "holds g s \<Longrightarrow> returns (\<lambda>r. holds g (snd r)) (f p c s)" for p c s using prems(1) by (simp add: returns_def)
      show ?thesis by (rule returnsD [OF _ prems(2)]) (use fr prems(3) in \<open>auto simp: net_frame_upd Let_def intro!: frames net_binds1 [where g = g] ih\<close>)
    qed
    done
  then show ?thesis using assms(2) by (simp add: returns_def)
qed

lemma pbuf_free_keeps: "net_frame g \<Longrightarrow> holds g s \<Longrightarrow> returns (\<lambda>r. holds g (snd r)) (pbuf_free p s)"
  by (auto simp: pbuf_free_def intro!: pbuf_free_loop_keeps)

lemma pbuf_alloc_tail_keeps: "net_frame g \<Longrightarrow> holds g s \<Longrightarrow> returns (\<lambda>r. holds g (snd r)) (pbuf_alloc_tail p r k s)"
proof (induction k arbitrary: r s rule: less_induct)
  case (less k)
  have ih: "holds g s \<Longrightarrow> returns (\<lambda>r. holds g (snd r)) (pbuf_alloc_tail p r (k - min k PBUF_POOL_BUFSIZE_ALIGNED) s)" if "0 < k" for r s
    by (rule less.IH) (use that less.prems in \<open>auto simp: lwip_simps\<close>)
  show ?case
    by (subst pbuf_alloc_tail.simps)
      (use less.prems in \<open>auto simp: net_frame_upd Let_def simp del: pbuf_alloc_tail.simps intro!: frames net_binds1 [where g = g] pbuf_free_keeps [where g = g, THEN returns_bind] ih\<close>)
qed

lemma pbuf_alloc_keeps: "net_frame g \<Longrightarrow> holds g s \<Longrightarrow> returns (\<lambda>r. holds g (snd r)) (pbuf_alloc layer n ty s)"
  by (cases ty) (auto simp: pbuf_alloc_def net_frame_upd Let_def simp del: pbuf_alloc_tail.simps intro!: frames net_binds1 [where g = g] pbuf_alloc_tail_keeps [where g = g, THEN returns_bind])

lemma pbuf_header_keeps: "net_frame g \<Longrightarrow> holds g s \<Longrightarrow> returns (\<lambda>r. holds g (snd r)) (pbuf_header p inc s)"
  by (auto simp: pbuf_header_def net_frame_upd Let_def intro!: frames)

lemma pbuf_ref_keeps: "net_frame g \<Longrightarrow> holds g s \<Longrightarrow> returns (holds g) (pbuf_ref p s)"
  by (auto simp: pbuf_ref_def intro!: mod_pbuf_keeps)

lemma pbuf_cat_loop_keeps:
  assumes fr: "net_frame g" and "holds g s"
  shows "returns (\<lambda>r. holds g (snd r)) (pbuf_cat_loop p t s)"
proof -
  have "holds g s \<longrightarrow> holds g (snd r)" if "pbuf_cat_loop p t s = Some r" for r
    apply (rule pbuf_cat_loop.raw_induct [of "\<lambda>p t s r. holds g s \<longrightarrow> holds g (snd r)", OF _ that], rule impI)
    subgoal premises prems for f p t s r
    proof -
      have ih: "holds g s \<Longrightarrow> returns (\<lambda>r. holds g (snd r)) (f p t s)" for p t s using prems(1) by (simp add: returns_def)
      show ?thesis by (rule returnsD [OF _ prems(2)]) (use fr prems(3) in \<open>auto simp: net_frame_upd intro!: frames ih\<close>)
    qed
    done
  then show ?thesis using assms(2) by (simp add: returns_def)
qed

lemma pbuf_cat_keeps: "net_frame g \<Longrightarrow> holds g s \<Longrightarrow> returns (holds g) (pbuf_cat h t s)"
  by (auto simp: pbuf_cat_def net_frame_upd intro!: frames pbuf_cat_loop_keeps [where g = g, THEN returns_bind])

lemma pbuf_realloc_skip_keeps:
  assumes fr: "net_frame g" and "holds g s"
  shows "returns (\<lambda>r. holds g (snd (snd r))) (pbuf_realloc_skip q k grow s)"
proof -
  have "holds g s \<longrightarrow> holds g (snd (snd r))" if "pbuf_realloc_skip q k grow s = Some r" for r
    apply (rule pbuf_realloc_skip.raw_induct [of "\<lambda>q k grow s r. holds g s \<longrightarrow> holds g (snd (snd r))", OF _ that], rule impI)
    subgoal premises prems for f q k grow s r
    proof -
      have ih: "holds g s \<Longrightarrow> returns (\<lambda>r. holds g (snd (snd r))) (f q k grow s)" for q k grow s using prems(1) by (simp add: returns_def)
      show ?thesis by (rule returnsD [OF _ prems(2)]) (use fr prems(3) in \<open>auto simp: net_frame_upd Let_def intro!: frames ih\<close>)
    qed
    done
  then show ?thesis using assms(2) by (simp add: returns_def)
qed

lemma pbuf_realloc_keeps: "net_frame g \<Longrightarrow> holds g s \<Longrightarrow> returns (holds g) (pbuf_realloc p n s)"
  unfolding pbuf_realloc_def realloc_ram_def realloc_free_def
  by (auto simp: net_frame_upd intro!: frames net_binds1 [where g = g] mod_pbuf_keeps pbuf_free_keeps [where g = g, THEN returns_bind] pbuf_realloc_skip_keeps [where g = g, THEN returns_bind])

lemma pbuf_copy_loop_keeps:
  assumes fr: "net_frame g" and "holds g s"
  shows "returns (holds g) (pbuf_copy_loop p i q j s)"
proof -
  have "holds g s \<longrightarrow> holds g r" if "pbuf_copy_loop p i q j s = Some r" for r
    apply (rule pbuf_copy_loop.raw_induct [of "\<lambda>p i q j s r. holds g s \<longrightarrow> holds g r", OF _ that], rule impI)
    subgoal premises prems for f p i q j s r
    proof -
      have ih: "holds g s \<Longrightarrow> returns (holds g) (f p i q j s)" for p i q j s using prems(1) by (simp add: returns_def)
      show ?thesis by (rule returnsD [OF _ prems(2)]) (use fr prems(3) in \<open>auto simp: net_frame_upd Let_def intro!: frames ih\<close>)
    qed
    done
  then show ?thesis using assms(2) by (simp add: returns_def)
qed

lemma pbuf_copy_keeps: "net_frame g \<Longrightarrow> holds g s \<Longrightarrow> returns (\<lambda>r. holds g (snd r)) (pbuf_copy p q s)"
  by (auto simp: pbuf_copy_def intro!: frames pbuf_copy_loop_keeps [where g = g, THEN returns_bind])

lemma memp_release_keeps: "net_frame g \<Longrightarrow> holds g s \<Longrightarrow> returns (holds g) (memp_release t p s)"
  by (auto simp: memp_release_def net_frame_upd intro!: frames)

lemmas net_keeps = mod_pbuf_keeps pbuf_free_keeps pbuf_alloc_keeps pbuf_header_keeps pbuf_ref_keeps pbuf_cat_keeps pbuf_realloc_keeps pbuf_copy_keeps memp_release_keeps
lemmas net_binds = net_keeps [THEN returns_bind]

section \<open>Link layer\<close>

text \<open>Assertions that do not depend on the interfaces, the link layer, or IP either.\<close>

definition netif_part :: "('a netif_state_scheme \<Rightarrow> bool) \<Rightarrow> bool" where
  "netif_part g \<longleftrightarrow> (\<forall>s s'. netif_state.more s' = netif_state.more s \<longrightarrow> holds g s' = holds g s)"

definition link_part :: "('a link_state_scheme \<Rightarrow> bool) \<Rightarrow> bool" where
  "link_part g \<longleftrightarrow> (\<forall>s s'. link_state.more s' = link_state.more s \<longrightarrow> holds g s' = holds g s)"

definition ip_part :: "('a ip_state_scheme \<Rightarrow> bool) \<Rightarrow> bool" where
  "ip_part g \<longleftrightarrow> (\<forall>s s'. ip_state.more s' = ip_state.more s \<longrightarrow> holds g s' = holds g s)"

lemma netif_partD: "netif_part g \<Longrightarrow> netif_state.more s' = netif_state.more s \<Longrightarrow> holds g s' = holds g s"
  unfolding netif_part_def by blast

lemma link_partD: "link_part g \<Longrightarrow> link_state.more s' = link_state.more s \<Longrightarrow> holds g s' = holds g s"
  unfolding link_part_def by blast

lemma ip_partD: "ip_part g \<Longrightarrow> ip_state.more s' = ip_state.more s \<Longrightarrow> holds g s' = holds g s"
  unfolding ip_part_def by blast

lemma netif_part_net [simp]: "netif_part g \<Longrightarrow> net_frame g"
  unfolding net_frame_def using netif_partD more_netif(5) by blast

lemma link_part_netif [simp]: "link_part g \<Longrightarrow> netif_part g"
  unfolding netif_part_def
proof (intro allI impI)
  fix s s' :: "'a link_state_scheme"
  assume "link_part g" and e: "netif_state.more s' = netif_state.more s"
  have "link_state.more s' = link_state.more s" using e by (cases s; cases s') simp
  then show "holds g s' = holds g s" by (rule link_partD [OF \<open>link_part g\<close>])
qed

lemma ip_part_link [simp]: "ip_part g \<Longrightarrow> link_part g"
  unfolding link_part_def
proof (intro allI impI)
  fix s s' :: "'a ip_state_scheme"
  assume "ip_part g" and e: "link_state.more s' = link_state.more s"
  have "ip_state.more s' = ip_state.more s" using e by (cases s; cases s') simp
  then show "holds g s' = holds g s" by (rule ip_partD [OF \<open>ip_part g\<close>])
qed

lemma part_upd:
  shows "netif_part h \<Longrightarrow> holds h (n\<lparr>tx := x\<rparr>) = holds h n" and "link_part g \<Longrightarrow> holds g (set_entry i f s) = holds g s"
    and "link_part g \<Longrightarrow> holds g (s\<lparr>etharp_cached_entry := i\<rparr>) = holds g s" and "ip_part k \<Longrightarrow> holds k (t\<lparr>ip_id := j\<rparr>) = holds k t"
  by (rule netif_partD link_partD ip_partD; simp add: set_entry_def)+

lemma low_level_output_keeps: "netif_part g \<Longrightarrow> holds g s \<Longrightarrow> returns (\<lambda>r. holds g (snd r)) (low_level_output netif p s)"
  by (auto simp: low_level_output_def part_upd intro!: frames)

lemma etharp_send_ip_keeps: "netif_part g \<Longrightarrow> holds g s \<Longrightarrow> returns (\<lambda>r. holds g (snd r)) (etharp_send_ip netif p src dst s)"
  by (auto simp: etharp_send_ip_def net_frame_upd Let_def intro!: frames low_level_output_keeps)

lemma etharp_raw_keeps: "netif_part g \<Longrightarrow> holds g s \<Longrightarrow> returns (\<lambda>r. holds g (snd r)) (etharp_raw netif ethsrc ethdst hwsrc ipsrc hwdst ipdst opcode s)"
  by (auto simp: etharp_raw_def net_frame_upd Let_def intro!: frames net_binds [where g = g] low_level_output_keeps [where g = g, THEN returns_bind])

lemma etharp_request_keeps: "netif_part g \<Longrightarrow> holds g s \<Longrightarrow> returns (\<lambda>r. holds g (snd r)) (etharp_request netif a s)"
  by (auto simp: etharp_request_def intro!: frames etharp_raw_keeps)

lemma free_q_loop_keeps: "net_frame g \<Longrightarrow> holds g s \<Longrightarrow> returns (holds g) (free_q_loop q s)"
  by (induction q arbitrary: s) (auto intro!: frames net_binds [where g = g])

lemma free_etharp_q_keeps: "net_frame g \<Longrightarrow> holds g s \<Longrightarrow> returns (holds g) (free_etharp_q q s)"
  by (auto simp: free_etharp_q_def intro!: free_q_loop_keeps)

lemma find_select_keeps: "link_part g \<Longrightarrow> holds g s \<Longrightarrow> returns (\<lambda>r. holds g (snd r)) (find_select c s)"
  by (auto simp: find_select_def part_upd intro!: frames free_etharp_q_keeps [where g = g, THEN returns_bind])

lemma find_entry_keeps: "link_part g \<Longrightarrow> holds g s \<Longrightarrow> returns (\<lambda>r. holds g (snd r)) (find_entry a fl s)"
  by (auto simp: find_entry_def part_upd Let_def split: option.split intro!: frames find_select_keeps [where g = g, THEN returns_bind])

lemma query_take_over_keeps: "net_frame g \<Longrightarrow> holds g s \<Longrightarrow> returns (\<lambda>r. holds g (snd r)) (query_take_over q s)"
  by (auto simp: query_take_over_def intro!: frames net_binds [where g = g])

lemma query_queue_keeps: "link_part g \<Longrightarrow> holds g s \<Longrightarrow> returns (\<lambda>r. holds g (snd r)) (query_queue i q e s)"
  by (auto simp: query_queue_def net_frame_upd part_upd Let_def intro!: frames net_binds [where g = g] query_take_over_keeps [where g = g, THEN returns_bind])

lemma etharp_query_keeps: "link_part g \<Longrightarrow> holds g s \<Longrightarrow> returns (\<lambda>r. holds g (snd r)) (etharp_query netif a q s)"
  by (auto simp: etharp_query_def part_upd Let_def
      intro!: frames find_entry_keeps [where g = g, THEN returns_bind] etharp_request_keeps [where g = g, THEN returns_bind] etharp_request_keeps etharp_send_ip_keeps query_queue_keeps)

lemma etharp_output_keeps: "link_part g \<Longrightarrow> holds g s \<Longrightarrow> returns (\<lambda>r. holds g (snd r)) (etharp_output netif q a s)"
  by (auto simp: etharp_output_def intro!: frames net_binds [where g = g] etharp_send_ip_keeps etharp_query_keeps)

section \<open>IP\<close>

lemma frag_fill_keeps:
  assumes fr: "net_frame g" and "holds g s"
  shows "returns (\<lambda>r. holds g (snd r)) (frag_fill rambuf p l k s)"
proof -
  have "holds g s \<longrightarrow> holds g (snd r)" if "frag_fill rambuf p l k s = Some r" for r
    apply (rule frag_fill.raw_induct [of "\<lambda>rambuf p l k s r. holds g s \<longrightarrow> holds g (snd r)", OF _ that], rule impI)
    subgoal premises prems for f rambuf p l k s r
    proof -
      have ih: "holds g s \<Longrightarrow> returns (\<lambda>r. holds g (snd r)) (f rambuf p l k s)" for rambuf p l k s using prems(1) by (simp add: returns_def)
      show ?thesis by (rule returnsD [OF _ prems(2)]) (use fr prems(3) in \<open>auto simp: Let_def intro!: frames net_binds [where g = g] ih\<close>)
    qed
    done
  then show ?thesis using assms(2) by (simp add: returns_def)
qed

lemma frag_loop_keeps:
  assumes fr: "link_part g" and "holds g s"
  shows "returns (\<lambda>r. holds g (snd r)) (frag_loop netif hdr dest mtu nfb omf p l poff ofo k s)"
proof -
  have "holds g s \<longrightarrow> holds g (snd r)" if "frag_loop netif hdr dest mtu nfb omf p l poff ofo k s = Some r" for r
    apply (rule frag_loop.raw_induct [of "\<lambda>netif hdr dest mtu nfb omf p l poff ofo k s r. holds g s \<longrightarrow> holds g (snd r)", OF _ that], rule impI)
    subgoal premises prems for f netif hdr dest mtu nfb omf p l poff ofo k s r
    proof -
      have ih: "holds g s \<Longrightarrow> returns (\<lambda>r. holds g (snd r)) (f netif hdr dest mtu nfb omf p l poff ofo k s)" for netif hdr dest mtu nfb omf p l poff ofo k s
        using prems(1) by (simp add: returns_def)
      show ?thesis by (rule returnsD [OF _ prems(2)]) (use fr prems(3) in \<open>auto simp: net_frame_upd Let_def
          intro!: frames net_binds [where g = g] frag_fill_keeps [where g = g, THEN returns_bind] etharp_output_keeps [where g = g, THEN returns_bind] ih\<close>)
    qed
    done
  then show ?thesis using assms(2) by (simp add: returns_def)
qed

lemma ip_frag_keeps: "link_part g \<Longrightarrow> holds g s \<Longrightarrow> returns (\<lambda>r. holds g (snd r)) (ip_frag p netif dest s)"
  by (auto simp: ip_frag_def Let_def intro!: frames frag_loop_keeps)

lemma ip_output_if_keeps: "ip_part g \<Longrightarrow> holds g s \<Longrightarrow> returns (\<lambda>r. holds g (snd r)) (ip_output_if p src dest ttl tos proto netif s)"
  by (cases dest) (auto simp: ip_output_if_def net_frame_upd part_upd Let_def intro!: frames net_binds [where g = g] ip_frag_keeps etharp_output_keeps)

lemma ip_output_keeps: "ip_part g \<Longrightarrow> holds g s \<Longrightarrow> returns (\<lambda>r. holds g (snd r)) (ip_output p src dest ttl tos proto s)"
  by (auto simp: ip_output_def intro!: frames ip_output_if_keeps)

end
