(* ===== verification/Packets.thy ===== *)
theory Packets
  imports Ip
begin

text \<open>
  What the layers above IP rely on when they handle a packet: a packet that a layer owns (its pbufs have one
  reference, keep their data inside themselves and are in no ARP queue), and the frame rule for everything the layer does
  not touch. Every operation on packet buffers is restated for an owned packet: hiding and revealing headers, rewriting the first
  bytes, allocation, copying, release and output.
\<close>

definition own_packet :: "'a link_state_scheme \<Rightarrow> addr \<Rightarrow> addr list \<Rightarrow> bool" where
  "own_packet s p xs \<longleftrightarrow> packet (pbufs s) p xs \<and> sole (pbufs s) xs \<and> owned (pbufs s) xs \<and> filled (pbufs s) xs \<and> set xs \<inter> held s = {}"

definition kept :: "addr set \<Rightarrow> 'a link_state_scheme \<Rightarrow> 'a link_state_scheme \<Rightarrow> bool" where
  "kept K s s' \<longleftrightarrow> (\<forall>x b. pbufs s x = Some b \<longrightarrow> x \<notin> held s \<longrightarrow> x \<notin> K \<longrightarrow> pbufs s' x = Some b \<and> x \<notin> held s'
     \<and> (ptype b = PBUF_RAM \<or> ptype b = PBUF_POOL \<longrightarrow> peek (bytes s') (payload b) (len b) = peek (bytes s) (payload b) (len b)))"

definition same_link :: "'a link_state_scheme \<Rightarrow> 'a link_state_scheme \<Rightarrow> bool" where
  "same_link s s' \<longleftrightarrow> ext_same s s' \<and> arp_table s' = arp_table s \<and> tx s' = tx s"

text \<open>The data of the packets that wait in the ARP queues.\<close>

definition held_kept :: "'a link_state_scheme \<Rightarrow> 'a link_state_scheme \<Rightarrow> bool" where
  "held_kept s s' \<longleftrightarrow> (\<forall>x\<in>held s. pbuf_data s' x = pbuf_data s x)"

section \<open>The frame rule\<close>

lemma kept_refl [simp]: "kept K s s"
  by (auto simp: kept_def)

lemma kept_trans: "kept K s s' \<Longrightarrow> kept L s' s'' \<Longrightarrow> kept (K \<union> L) s s''"
  unfolding kept_def by (metis Un_iff)

lemma kept_mono: "kept K s s' \<Longrightarrow> K \<subseteq> L \<Longrightarrow> kept L s s'"
  unfolding kept_def by blast

lemma kept_trans': "kept K s s' \<Longrightarrow> kept L s' s'' \<Longrightarrow> K \<union> L \<subseteq> M \<Longrightarrow> kept M s s''"
  using kept_mono [OF kept_trans] .

lemma link_frame_kept: "link_frame K s s' \<Longrightarrow> kept K s s'"
  unfolding link_frame_def kept_def by blast

lemma same_link_refl [simp]: "same_link s s"
  by (simp add: same_link_def)

lemma same_link_trans: "same_link s s' \<Longrightarrow> same_link s' s'' \<Longrightarrow> same_link s s''"
  unfolding same_link_def using ext_same_trans by metis

lemma same_link_more: "net_state.more s' = net_state.more s \<Longrightarrow> same_link s s'" for s s' :: "'a link_state_scheme"
  unfolding same_link_def by (intro conjI ext_same_more more_netif(4) more_link(1))

lemma same_linkD:
  assumes "same_link s s'"
  shows "netifs s' = netifs s" and "netif_list s' = netif_list s" and "netif_default s' = netif_default s" and "arp_table s' = arp_table s" and "tx s' = tx s"
    and "link_state.more s' = link_state.more s" and "held s' = held s"
  using assms by (auto simp: same_link_def ext_same_def held_def)

lemma kept_bytes:
  assumes "pbufs s' = pbufs s" and "bytes s' = bytes s" and "held s' = held s"
  shows "kept K s s'"
  using assms by (simp add: kept_def)

lemma own_elem:
  assumes "own_packet s p xs" and "x \<in> set xs"
  obtains b where "pbufs s x = Some b" "ptype b = PBUF_RAM \<or> ptype b = PBUF_POOL" "x \<notin> held s"
proof -
  have o: "owned (pbufs s) xs" "x \<notin> held s" using assms by (auto simp: own_packet_def)
  then show ?thesis using assms(2) that by (cases "pbufs s x") (force simp: owned_def list_all_iff)+
qed

text \<open>A packet that a step does not touch is still owned and has the same data.\<close>

lemma kept_packet:
  assumes "kept K s s'" and "own_packet s p xs" and "set xs \<inter> K = {}"
  shows "own_packet s' p xs" and "chain_data s' xs = chain_data s xs" and "\<And>x. x \<in> set xs \<Longrightarrow> pbufs s' x = pbufs s x"
proof -
  have each: "pbufs s' x = pbufs s x \<and> x \<notin> held s' \<and> pbuf_data s' x = pbuf_data s x" if x: "x \<in> set xs" for x
  proof -
    obtain b where b: "pbufs s x = Some b" "ptype b = PBUF_RAM \<or> ptype b = PBUF_POOL" "x \<notin> held s" using own_elem [OF assms(2) x] by metis
    have "x \<notin> K" using assms(3) x by auto
    then have "pbufs s' x = Some b" "x \<notin> held s'" "peek (bytes s') (payload b) (len b) = peek (bytes s) (payload b) (len b)"
      using assms(1) b unfolding kept_def by blast+
    then show ?thesis using b(1) by (simp add: pbuf_data_peek)
  qed
  then show same: "\<And>x. x \<in> set xs \<Longrightarrow> pbufs s' x = pbufs s x" by blast
  show "chain_data s' xs = chain_data s xs" using each by (intro chain_data_cong) blast
  have "sole (pbufs s') xs = sole (pbufs s) xs" "owned (pbufs s') xs = owned (pbufs s) xs" "filled (pbufs s') xs = filled (pbufs s) xs"
    using same by (auto simp: sole_def owned_def filled_def list_all_iff)
  moreover have "packet (pbufs s') p xs = packet (pbufs s) p xs" by (rule packet_cong) (rule same)
  ultimately show "own_packet s' p xs" using assms(2) each by (auto simp: own_packet_def)
qed

lemma own_packetD:
  assumes "own_packet s p xs"
  shows "packet (pbufs s) p xs" and "sole (pbufs s) xs" and "owned (pbufs s) xs" and "filled (pbufs s) xs" and "set xs \<inter> held s = {}"
    and "p \<in> set xs" and "p \<notin> held s" and "p \<noteq> NULL"
proof -
  show c: "packet (pbufs s) p xs" "sole (pbufs s) xs" "owned (pbufs s) xs" "filled (pbufs s) xs" "set xs \<inter> held s = {}"
    using assms by (simp_all add: own_packet_def)
  show p: "p \<in> set xs" by (rule packet_head [OF c(1)]) simp
  show "p \<notin> held s" using p c(5) by auto
  show "p \<noteq> NULL" by (rule packet_head [OF c(1)]) simp
qed

lemma own_head:
  assumes "own_packet s p xs"
  obtains b ys where "xs = p # ys" "pbufs s p = Some b" "tot_len b = plen (pbufs s) xs" "p \<notin> set ys" "0 < len b"
    "ptype b = PBUF_RAM \<or> ptype b = PBUF_POOL" "ref b = 1" "plen (pbufs s) xs < 65536" "len b \<le> plen (pbufs s) xs"
proof -
  obtain b ys where b: "xs = p # ys" "pbufs s p = Some b" "tot_len b = len b + plen (pbufs s) ys" "tot_len b < 65536" "p \<notin> set ys"
    using packet_head [OF own_packetD(1) [OF assms]] by metis
  have o: "0 < len b" "ptype b = PBUF_RAM \<or> ptype b = PBUF_POOL" "ref b = 1"
    using own_packetD(2-4) [OF assms] b(1,2) by (simp_all add: filled_def owned_def sole_def)
  have "tot_len b = plen (pbufs s) xs" "len b \<le> plen (pbufs s) xs" using b by simp_all
  then show ?thesis using that [OF b(1,2) _ b(5) o] b(4) by simp
qed

lemma own_pchain: "own_packet s p xs \<Longrightarrow> pchain (pbufs s) p xs"
  by (simp add: own_packet_def packet_def)

lemma own_lens: "link_ok sizes base s \<Longrightarrow> own_packet s p xs \<Longrightarrow> lens_ok (pbufs s) xs"
  unfolding lens_ok_def
proof
  fix x
  assume "link_ok sizes base s" "own_packet s p xs" "x \<in> set xs"
  then obtain b where "pbufs s x = Some b" "net_ok sizes base s" using own_elem by (metis link_ok_def)
  then show "pfield (pbufs s) len x < 65536" using net_okD(3) by (fastforce simp: pbuf_ok_def)
qed

section \<open>Headers\<close>

lemma link_ok_put:
  assumes "link_ok sizes base s" and "net_ok sizes base (put_pbuf p c s)" and "p \<notin> held s"
  shows "link_ok sizes base (put_pbuf p c s)"
proof -
  have "reveal p c 0 s = put_pbuf p c s" by (simp add: reveal_def)
  then show ?thesis using link_ok_reveal(1) [of sizes base s p c 0] assms by simp
qed

lemma put_kept:
  fixes s :: "'a link_state_scheme"
  shows "same_link s (put_pbuf p c s)" and "kept {p} s (put_pbuf p c s)"
proof -
  show sl: "same_link s (put_pbuf p c s)" by (rule same_link_more) (simp add: put_pbuf_def)
  show "kept {p} s (put_pbuf p c s)" using same_linkD(7) [OF sl] by (simp add: kept_def)
qed

lemma own_hide:
  fixes s :: "'a link_state_scheme"
  assumes ok: "link_ok sizes base s" and own: "own_packet s p xs" and b: "pbufs s p = Some b" and n: "0 < n" "n < len b"
  shows "\<exists>s'. pbuf_header p (- int n) s = Some (False, s') \<and> link_ok sizes base s' \<and> own_packet s' p xs \<and> same_link s s' \<and> kept {p} s s'
    \<and> bytes s' = bytes s \<and> chain_data s' xs = drop n (chain_data s xs) \<and> plen (pbufs s') xs = plen (pbufs s) xs - n
    \<and> s' = put_pbuf p (b\<lparr>payload := payload b + n, len := len b - n, tot_len := tot_len b - n\<rparr>) s"
proof -
  let ?b = "b\<lparr>payload := payload b + n, len := len b - n, tot_len := tot_len b - n\<rparr>"
  have net: "net_ok sizes base s" using ok by (simp add: link_ok_def)
  note o = own_packetD [OF own]
  obtain ys where h: "xs = p # ys" "p \<notin> set ys" "ptype b = PBUF_RAM \<or> ptype b = PBUF_POOL" "ref b = 1"
    using own_head [OF own] b by (metis option.inject)
  obtain s' where s': "pbuf_header p (- int n) s = Some (False, s')" "s' = put_pbuf p ?b s" "net_ok sizes base s'" "packet (pbufs s') p xs"
    "chain_data s' xs = drop n (chain_data s xs)"
    using pbuf_header_hide [OF net o(1) n(1)] n(2) b by auto
  have pb: "pbufs s' = (pbufs s)(p \<mapsto> ?b)" "bytes s' = bytes s" by (simp_all add: s'(2))
  note lk = put_kept [where s = s and p = p and c = ?b, folded s'(2)]
  have "sole (pbufs s') xs" "owned (pbufs s') xs" "filled (pbufs s') xs" using o(2-4) h n(2) by (auto simp: pb sole_def owned_def filled_def list_all_iff)
  then have "own_packet s' p xs" using s'(4) o(5) same_linkD(7) [OF lk(1)] by (simp add: own_packet_def)
  moreover have "link_ok sizes base s'" using link_ok_put [OF ok _ o(7)] s'(2,3) by simp
  moreover have "plen (pbufs s') xs = plen (pbufs s) xs - n" using h(1,2) b n(2) by (simp add: pb plen_upd_out)
  ultimately show ?thesis using s'(1,2,5) lk pb(2) by blast
qed

lemma own_reveal:
  fixes s :: "'a link_state_scheme"
  assumes ok: "link_ok sizes base s" and own: "own_packet s p xs" and b: "pbufs s p = Some b" and n: "0 < n" "plen (pbufs s) xs + n < 65536"
    and room: "p + SIZEOF_STRUCT_PBUF + n \<le> payload b"
  shows "\<exists>s'. pbuf_header p (int n) s = Some (False, s') \<and> link_ok sizes base s' \<and> own_packet s' p xs \<and> same_link s s' \<and> kept {p} s s'
    \<and> bytes s' = bytes s \<and> chain_data s' xs = peek (bytes s) (payload b - n) n @ chain_data s xs \<and> plen (pbufs s') xs = plen (pbufs s) xs + n
    \<and> s' = put_pbuf p (b\<lparr>payload := payload b - n, len := len b + n, tot_len := tot_len b + n\<rparr>) s"
proof -
  let ?b = "b\<lparr>payload := payload b - n, len := len b + n, tot_len := tot_len b + n\<rparr>"
  have net: "net_ok sizes base s" using ok by (simp add: link_ok_def)
  note o = own_packetD [OF own]
  obtain ys where h: "xs = p # ys" "p \<notin> set ys" "ptype b = PBUF_RAM \<or> ptype b = PBUF_POOL" "ref b = 1" "tot_len b = plen (pbufs s) xs"
    using own_head [OF own] b by (metis option.inject)
  obtain s' where s': "pbuf_header p (int n) s = Some (False, s')" "s' = put_pbuf p ?b s" "net_ok sizes base s'" "packet (pbufs s') p xs"
    "chain_data s' xs = map (bytes s) [payload b - n..<payload b] @ chain_data s xs"
    using pbuf_header_reveal(2) [OF net o(1) n(1) b h(3) _ room] n(2) h(5) by auto
  have pb: "pbufs s' = (pbufs s)(p \<mapsto> ?b)" "bytes s' = bytes s" by (simp_all add: s'(2))
  note lk = put_kept [where s = s and p = p and c = ?b, folded s'(2)]
  have "sole (pbufs s') xs" "owned (pbufs s') xs" "filled (pbufs s') xs" using o(2-4) h n by (auto simp: pb sole_def owned_def filled_def list_all_iff)
  then have "own_packet s' p xs" using s'(4) o(5) same_linkD(7) [OF lk(1)] by (simp add: own_packet_def)
  moreover have "link_ok sizes base s'" using link_ok_put [OF ok _ o(7)] s'(2,3) by simp
  moreover have "plen (pbufs s') xs = plen (pbufs s) xs + n" using h(1,2) b by (simp add: pb plen_upd_out)
  moreover have "map (bytes s) [payload b - n..<payload b] = peek (bytes s) (payload b - n) n" using room by (simp add: peek_def)
  ultimately show ?thesis using s'(1,2,5) lk pb(2) by metis
qed
section \<open>Writing, allocating, copying and releasing\<close>

lemma bytes_step:
  fixes s :: "'a link_state_scheme"
  shows "same_link s (s\<lparr>bytes := d\<rparr>)" and "link_ok sizes base s \<Longrightarrow> link_ok sizes base (s\<lparr>bytes := d\<rparr>)"
    and "own_packet (s\<lparr>bytes := d\<rparr>) p xs = own_packet s p xs"
proof -
  show sl: "same_link s (s\<lparr>bytes := d\<rparr>)" by (rule same_link_more) simp
  show "own_packet (s\<lparr>bytes := d\<rparr>) p xs = own_packet s p xs" using same_linkD(7) [OF sl] by (simp add: own_packet_def)
  assume ok: "link_ok sizes base s"
  then show "link_ok sizes base (s\<lparr>bytes := d\<rparr>)" using net_ok_bytes [of sizes base s d] by (simp add: link_ok_def arp_ok_def queue_elem_def)
qed

lemma own_write:
  fixes s :: "'a link_state_scheme"
  assumes ok: "link_ok sizes base s" and own: "own_packet s p xs" and b: "pbufs s p = Some b" and k: "k \<le> len b"
    and w: "writes_within (payload b) k (bytes s) d"
  shows "kept {p} s (s\<lparr>bytes := d\<rparr>)" and "chain_data (s\<lparr>bytes := d\<rparr>) xs = peek d (payload b) k @ drop k (chain_data s xs)"
proof -
  have net: "net_ok sizes base s" using ok by (simp add: link_ok_def)
  note o = own_packetD [OF own]
  show "chain_data (s\<lparr>bytes := d\<rparr>) xs = peek d (payload b) k @ drop k (chain_data s xs)" by (rule overwrite_head [OF net o(1,3) b k w])
  obtain ys where h: "xs = p # ys" "ptype b = PBUF_RAM \<or> ptype b = PBUF_POOL" using own_head [OF own] b by (metis option.inject)
  show "kept {p} s (s\<lparr>bytes := d\<rparr>)"
    unfolding kept_def
  proof (intro allI impI)
    fix x c
    assume x: "pbufs s x = Some c" "x \<notin> held s" "x \<notin> {p}"
    have "peek d (payload c) (len c) = peek (bytes s) (payload c) (len c)" if "ptype c = PBUF_RAM \<or> ptype c = PBUF_POOL"
      using owned_apart [OF net b h(2) x(1) that] x(3) k by (intro writes_within_peek [OF w]) auto
    then show "pbufs (s\<lparr>bytes := d\<rparr>) x = Some c \<and> x \<notin> held (s\<lparr>bytes := d\<rparr>)
      \<and> (ptype c = PBUF_RAM \<or> ptype c = PBUF_POOL \<longrightarrow> peek (bytes (s\<lparr>bytes := d\<rparr>)) (payload c) (len c) = peek (bytes s) (payload c) (len c))"
      using x same_linkD(7) [OF bytes_step(1) [where s = s and d = d]] by simp
  qed
qed

text \<open>Rewriting the bytes around the payload pointer, then moving the pointer back over the header.\<close>

lemma own_rewrite:
  fixes s :: "'a link_state_scheme"
  assumes ok: "link_ok sizes base s" and own: "own_packet s p xs" and b: "pbufs s p = Some b" and n: "0 < n" "plen (pbufs s) xs + n < 65536"
    and room: "p + SIZEOF_STRUCT_PBUF + n \<le> payload b" and k: "k \<le> len b" and w: "writes_within (payload b - n) (n + k) (bytes s) d"
  shows "\<exists>s'. pbuf_header p (int n) (s\<lparr>bytes := d\<rparr>) = Some (False, s') \<and> link_ok sizes base s' \<and> own_packet s' p xs \<and> same_link s s' \<and> kept {p} s s'
    \<and> bytes s' = d \<and> chain_data s' xs = peek d (payload b - n) (n + k) @ drop k (chain_data s xs) \<and> plen (pbufs s') xs = plen (pbufs s) xs + n
    \<and> pbufs s' p = Some (b\<lparr>payload := payload b - n, len := len b + n, tot_len := tot_len b + n\<rparr>)"
proof -
  let ?b = "b\<lparr>payload := payload b - n, len := len b + n, tot_len := tot_len b + n\<rparr>"
  obtain t where t: "link_ok sizes base t" "own_packet t p xs" "same_link s t" "kept {p} s t" "bytes t = bytes s"
    "chain_data t xs = peek (bytes s) (payload b - n) n @ chain_data s xs" "plen (pbufs t) xs = plen (pbufs s) xs + n" "t = put_pbuf p ?b s"
    using own_reveal [OF ok own b n room] by blast
  have pt: "pbufs t p = Some ?b" by (simp add: t(8))
    have "writes_within (payload ?b) (n + k) (bytes t) d" "n + k \<le> len ?b" using w k t(5) by simp_all
  note tw = own_write [OF t(1,2) pt this(2,1)] bytes_step(1) [where s = t and d = d] bytes_step(2) [OF t(1), where d = d] bytes_step(3) [where s = t and d = d and p = p and xs = xs]
  have so: "own_packet (s\<lparr>bytes := d\<rparr>) p xs" using own bytes_step(3) [where s = s and d = d and p = p and xs = xs] by simp
  have "pbuf_header p (int n) (s\<lparr>bytes := d\<rparr>) = Some (False, put_pbuf p ?b (s\<lparr>bytes := d\<rparr>))"
    using own_reveal [OF bytes_step(2) [OF ok, where d = d] so, of b n] b n room by auto
  moreover have "put_pbuf p ?b (s\<lparr>bytes := d\<rparr>) = t\<lparr>bytes := d\<rparr>" by (simp add: t(8) put_pbuf_def)
  moreover have "chain_data (t\<lparr>bytes := d\<rparr>) xs = peek d (payload b - n) (n + k) @ drop k (chain_data s xs)" using tw(2) t(6) by simp
  moreover have "kept {p} s (t\<lparr>bytes := d\<rparr>)" using kept_trans [OF t(4) tw(1)] by simp
  moreover have "same_link s (t\<lparr>bytes := d\<rparr>)" using same_link_trans [OF t(3) tw(3)] .
  ultimately show ?thesis using tw(4,5) t(2,7) pt by (intro exI [of _ "t\<lparr>bytes := d\<rparr>"]) simp
qed

lemma link_ok_alloc:
  fixes s :: "'a link_state_scheme"
  assumes ok: "link_ok sizes base s" and net: "net_ok sizes base s1" and more: "net_state.more s1 = net_state.more s"
    and same: "\<And>x. pbufs s x \<noteq> None \<Longrightarrow> pbufs s1 x = pbufs s x" and memp: "memp_live sizes base (memp s1) = memp_live sizes base (memp s)"
  shows "link_ok sizes base s1"
proof -
  have arp: "arp_ok sizes base s" using ok by (simp add: link_ok_def)
  have "list_all (queue_elem sizes base s1) (queued (arp_table s))"
    unfolding list_all_iff
  proof
    fix y
    assume y: "y \<in> set (queued (arp_table s))"
    obtain r q where rq: "y = (r, q)" by (cases y)
    have e: "queue_elem sizes base s (r, q)" using arp y rq by (simp add: arp_ok_def list_all_iff)
    then have "pbufs s1 q = pbufs s q" by (intro same) (auto simp: queue_elem_def queued_pbuf_def split: option.splits)
    then show "queue_elem sizes base s1 y" unfolding rq using queue_elem_upd [OF e, of s1] memp by simp
  qed
  then show ?thesis using arp net more_link(1,2) [OF more] by (simp add: link_ok_def arp_ok_def)
qed

lemma held_live: "link_ok sizes base s \<Longrightarrow> x \<in> held s \<Longrightarrow> pbufs s x \<noteq> None"
  by (force simp: held_def link_ok_def arp_ok_def list_all_iff queue_elem_def queued_pbuf_def split: option.splits)

lemma own_alloc:
  fixes s :: "'a link_state_scheme"
  assumes ok: "link_ok sizes base s" and k: "0 < k" "24 + layer_offset layer + k < 65536"
  shows "\<exists>q s1. pbuf_alloc layer k PBUF_RAM s = Some (q, s1) \<and> link_ok sizes base s1 \<and> same_link s s1 \<and> kept {} s s1 \<and> bytes s1 = bytes s
    \<and> (if q = NULL then pbufs s1 = pbufs s
       else own_packet s1 q [q] \<and> pbufs s q = None \<and> plen (pbufs s1) [q] = k \<and> (\<forall>x. x \<noteq> q \<longrightarrow> pbufs s1 x = pbufs s x)
         \<and> (\<exists>b. pbufs s1 q = Some b \<and> len b = k \<and> tot_len b = k \<and> payload b = q + (24 + layer_offset layer)))"
proof -
  have net: "net_ok sizes base s" using ok by (simp add: link_ok_def)
  obtain q s1 where a: "pbuf_alloc layer k PBUF_RAM s = Some (q, s1)" "net_ok sizes base s1" "bytes s1 = bytes s" "net_state.more s1 = net_state.more s"
    "memp_live sizes base (memp s1) = memp_live sizes base (memp s)"
    "if q = NULL then pbufs s1 = pbufs s \<and> mem_live (ram_heap s1) = mem_live (ram_heap s)
       else packet (pbufs s1) q [q] \<and> plen (pbufs s1) [q] = k \<and> pool_kind (pbufs s1) PBUF_RAM [q] \<and> pbufs s q = None
        \<and> (\<forall>x. x \<noteq> q \<longrightarrow> pbufs s1 x = pbufs s x) \<and> mem_live (ram_heap s1) |` (- {q}) = mem_live (ram_heap s)
        \<and> pfield (pbufs s1) payload q = q + (24 + layer_offset layer)"
    using fresh_alloc_ram [OF net k(2)] by blast
  have same: "pbufs s1 x = pbufs s x" if "pbufs s x \<noteq> None" for x using a(6) that by (cases "q = NULL"; cases "x = q") auto
  have lk: "link_ok sizes base s1" by (rule link_ok_alloc [OF ok a(2,4) same a(5)])
  have sl: "same_link s s1" by (rule same_link_more [OF a(4)])
  have kp: "kept {} s s1" using same same_linkD(7) [OF sl] a(3) by (auto simp: kept_def)
  show ?thesis
  proof (cases "q = NULL")
    case True
    then show ?thesis using a(1,3,6) lk sl kp by auto
  next
    case False
    with a(6) have q: "packet (pbufs s1) q [q]" "plen (pbufs s1) [q] = k" "pool_kind (pbufs s1) PBUF_RAM [q]" "pbufs s q = None"
      "\<forall>x. x \<noteq> q \<longrightarrow> pbufs s1 x = pbufs s x" "pfield (pbufs s1) payload q = q + (24 + layer_offset layer)" by simp_all
    have "q \<notin> held s1" using held_live [OF ok, of q] q(4) same_linkD(7) [OF sl] by auto
    moreover have "filled (pbufs s1) [q]" using q(2) k(1) by (simp add: filled_def)
    ultimately have "own_packet s1 q [q]" using q(1) pool_kind_sole [OF q(3)] pool_kind_owned [OF q(3)] by (simp add: own_packet_def)
    moreover obtain b where "pbufs s1 q = Some b" "len b = k" "tot_len b = k" "payload b = q + (24 + layer_offset layer)"
      using q(1,2,6) by (auto simp: packet_simps split: option.splits)
    ultimately show ?thesis using False q a(1,3) lk sl kp by auto
  qed
qed

lemma own_free:
  fixes s :: "'a link_state_scheme"
  assumes ok: "link_ok sizes base s" and own: "own_packet s p xs"
  shows "\<exists>c s'. pbuf_free p s = Some (c, s') \<and> link_ok sizes base s' \<and> same_link s s' \<and> kept (set xs) s s' \<and> (\<forall>x\<in>set xs. pbufs s' x = None) \<and> bytes s' = bytes s \<and> held_kept s s'"
proof -
  obtain c s' where f: "pbuf_free p s = Some (c, s')" "link_ok sizes base s'" "ext_same s s'" "arp_table s' = arp_table s" "tx s' = tx s"
    "pbufs s' = pbufs s |` (- set xs)" "bytes s' = bytes s"
    using link_free [OF ok own_packetD(1,2,5) [OF own]] by blast
  have sl: "same_link s s'" using f(3-5) by (simp add: same_link_def)
  have "kept (set xs) s s'" using same_linkD(7) [OF sl] f(6,7) by (auto simp: kept_def)
  moreover have "held_kept s s'"
    unfolding held_kept_def
  proof
    fix x
    assume "x \<in> held s"
    then have "x \<notin> set xs" using own_packetD(5) [OF own] by auto
    then show "pbuf_data s' x = pbuf_data s x" using f(6,7) by (simp add: pbuf_data_def split: option.split)
  qed
  ultimately show ?thesis using f sl by (intro exI [of _ c] exI [of _ s']) simp
qed

lemma own_copy:
  fixes s :: "'a link_state_scheme"
  assumes ok: "link_ok sizes base s" and t: "own_packet s t ts" and f: "own_packet s f fs" and d: "set ts \<inter> set fs = {}"
    and l: "plen (pbufs s) fs = plen (pbufs s) ts"
  shows "\<exists>d. pbuf_copy t f s = Some (ERR_OK, s\<lparr>bytes := d\<rparr>) \<and> chain_data (s\<lparr>bytes := d\<rparr>) ts = chain_data s fs \<and> kept (set ts) s (s\<lparr>bytes := d\<rparr>)"
proof -
  have net: "net_ok sizes base s" using ok by (simp add: link_ok_def)
  obtain e where e: "pbuf_copy t f s = Some (ERR_OK, s\<lparr>bytes := e\<rparr>)"
    "chain_data (s\<lparr>bytes := e\<rparr>) ts = chain_data s fs @ drop (plen (pbufs s) fs) (chain_data s ts)" "unchanged_outside (pbufs s) ts (bytes s) e"
    using pbuf_copy_ok [OF net own_packetD(1,3,4) [OF t] own_packetD(1,3,4) [OF f] d] l by auto
  have "kept (set ts) s (s\<lparr>bytes := e\<rparr>)"
    unfolding kept_def
  proof (intro allI impI)
    fix x c
    assume x: "pbufs s x = Some c" "x \<notin> held s" "x \<notin> set ts"
    have "peek e (payload c) (len c) = peek (bytes s) (payload c) (len c)" if "ptype c = PBUF_RAM \<or> ptype c = PBUF_POOL"
    proof -
      have "owned (pbufs s) (x # ts)" using own_packetD(3) [OF t] x(1) that by (simp add: owned_def)
      then show ?thesis using owned_clear [OF net _ x(3,1)] e(3) by (simp add: unchanged_outside_def)
    qed
    then show "pbufs (s\<lparr>bytes := e\<rparr>) x = Some c \<and> x \<notin> held (s\<lparr>bytes := e\<rparr>)
      \<and> (ptype c = PBUF_RAM \<or> ptype c = PBUF_POOL \<longrightarrow> peek (bytes (s\<lparr>bytes := e\<rparr>)) (payload c) (len c) = peek (bytes s) (payload c) (len c))"
      using x same_linkD(7) [OF bytes_step(1) [where s = s and d = e]] by simp
  qed
  moreover have "drop (plen (pbufs s) fs) (chain_data s ts) = []" using l length_chain_data [of s ts] by simp
  ultimately show ?thesis using e by (intro exI [of _ e]) simp
qed
section \<open>Output\<close>

text \<open>The datagram \<open>g\<close> was handed to the link layer: framed and sent, queued behind its address resolution, or refused.\<close>

definition datagram_sent :: "addr \<Rightarrow> netif \<Rightarrow> u32_t \<Rightarrow> u8_t list \<Rightarrow> 'a link_state_scheme \<Rightarrow> err_t \<Rightarrow> 'a link_state_scheme \<Rightarrow> bool" where
  "datagram_sent netif n dest g s e s' \<longleftrightarrow>
     (\<exists>s2 s3 v. arp_table s2 = arp_table s \<and> tx s2 = tx s \<and> drop 14 v = g \<and> output_post netif n dest v s2 e s3
        \<and> arp_table s' = arp_table s3 \<and> tx s' = tx s3 \<and> held_kept s3 s')"

lemma datagram_sent_step:
  assumes "datagram_sent netif n dest g s e s2" and "same_link s2 s'" and "held_kept s2 s'"
  shows "datagram_sent netif n dest g s e s'"
proof -
  obtain s1 s3 v where d: "arp_table s1 = arp_table s" "tx s1 = tx s" "drop 14 v = g" "output_post netif n dest v s1 e s3"
    "arp_table s2 = arp_table s3" "tx s2 = tx s3" "held_kept s3 s2" using assms(1) unfolding datagram_sent_def by blast
  have "held s3 = held s2" using d(5) by (simp add: held_def)
  then have "held_kept s3 s'" using d(7) assms(3) by (simp add: held_kept_def)
  then show ?thesis unfolding datagram_sent_def using d same_linkD(4,5) [OF assms(2)] by metis
qed

lemma datagram_sent_from:
  "datagram_sent netif n dest g s1 e s' \<Longrightarrow> arp_table s1 = arp_table s \<Longrightarrow> tx s1 = tx s \<Longrightarrow> datagram_sent netif n dest g s e s'"
  by (simp add: datagram_sent_def)

lemma frame_own:
  fixes s :: "'a link_state_scheme"
  assumes own: "own_packet s2 p xs" and fr: "link_frame {p} s2 s'"
  shows "own_packet s' p xs" and "plen (pbufs s') xs = plen (pbufs s2) xs"
proof -
  note o = own_packetD [OF own]
  have same: "pbufs s' x = pbufs s2 x \<and> x \<notin> held s'" if "x \<in> set xs" for x
    by (rule link_frame_pbufs [OF fr o(3,5) that])
  have "packet (pbufs s') p xs = packet (pbufs s2) p xs" by (rule packet_cong) (use same in blast)
  moreover have "sole (pbufs s') xs = sole (pbufs s2) xs" "owned (pbufs s') xs = owned (pbufs s2) xs" "filled (pbufs s') xs = filled (pbufs s2) xs"
    using same by (auto simp: sole_def owned_def filled_def list_all_iff)
  ultimately show "own_packet s' p xs" using o same by (auto simp: own_packet_def)
  show "plen (pbufs s') xs = plen (pbufs s2) xs" using same by (intro plen_cong) auto
qed

lemma own_etharp_output:
  fixes s :: "'a link_state_scheme"
  assumes ok: "link_ok sizes base s" and own: "own_packet s p xs" and l: "plen (pbufs s) xs \<le> 1500" and n: "eth_netif (netifs s) netif n"
    and b: "pbufs s p = Some b" and room: "p + SIZEOF_STRUCT_PBUF + 14 \<le> payload b"
  shows "\<exists>e s'. etharp_output netif p dest s = Some (e, s') \<and> link_ok sizes base s' \<and> ext_same s s' \<and> own_packet s' p xs \<and> kept {p} s s'
    \<and> plen (pbufs s') xs = plen (pbufs s) xs + 14 \<and> datagram_sent netif n dest (chain_data s xs) s e s'"
proof -
  let ?s = "reveal p b 14 s"
  note o = own_packetD [OF own]
  obtain e s' where e: "etharp_output netif p dest s = Some (e, s')" "link_ok sizes base s'" "ext_same s s'" "link_frame {p} ?s s'"
    "output_post netif n dest (chain_data ?s xs) ?s e s'"
    using etharp_output_ok [OF ok o(1,3,4) l o(5) n b room] by blast
  obtain s1 where s1: "own_packet s1 p xs" "kept {p} s s1" "same_link s s1" "plen (pbufs s1) xs = plen (pbufs s) xs + 14" "s1 = ?s"
    "chain_data s1 xs = peek (bytes s) (payload b - 14) 14 @ chain_data s xs"
    using own_reveal [OF ok own b, of 14] l room by (auto simp: reveal_def)
  note f = frame_own [OF s1(1) e(4) [folded s1(5)]]
  have "kept {p} s s'" using kept_trans [OF s1(2) link_frame_kept [OF e(4) [folded s1(5)]]] by simp
  moreover have "datagram_sent netif n dest (chain_data s xs) s e s'"
    unfolding datagram_sent_def using e(5) s1(5,6) same_linkD(4,5) [OF s1(3)]
    by (intro exI [of _ s1] exI [of _ s'] exI [of _ "chain_data s1 xs"]) (simp add: held_kept_def)
  ultimately show ?thesis using e(1-3) f s1(4) by (intro exI [of _ e] exI [of _ s']) simp
qed

lemma prepared_own:
  fixes s :: "'a ip_state_scheme"
  assumes own: "own_packet s p xs" and s1: "packet (pbufs s1) p xs" "owned (pbufs s1) xs" "filled (pbufs s1) xs" "set xs \<inter> held s1 = {}"
    and r: "pbufs s p = Some b" "pbufs s1 p = Some c" "ref c = ref b" "\<And>x. x \<noteq> p \<Longrightarrow> pbufs s1 x = pbufs s x"
  shows "own_packet s1 p xs"
proof -
  have "sole (pbufs s1) xs"
    unfolding sole_def list_all_iff
  proof
    fix x
    assume "x \<in> set xs"
    then have "pfield (pbufs s) ref x = 1" using own_packetD(2) [OF own] by (simp add: sole_def list_all_iff)
    then show "pfield (pbufs s1) ref x = 1" using r by (cases "x = p") auto
  qed
  then show ?thesis using s1 by (simp add: own_packet_def)
qed

lemma own_output_if:
  fixes s :: "'a ip_state_scheme"
  assumes ok: "link_ok sizes base s" and own: "own_packet s p xs" and l: "plen (pbufs s) xs \<le> 1480" and n: "eth_netif (netifs s) netif n" "nif_mtu n = 1500"
    and b: "pbufs s p = Some b" and room: "p + SIZEOF_STRUCT_PBUF + 34 \<le> payload b"
  shows "\<exists>e s'. ip_output_if p src (Some dest) ttl tos proto netif s = Some (e, s') \<and> link_ok sizes base s' \<and> ip_same s s' \<and> own_packet s' p xs \<and> kept {p} s s'
    \<and> datagram_sent netif n dest (ip_hdr (src_addr n src) dest ttl tos proto (plen (pbufs s) xs + 20) (ip_id s) @ chain_data s xs) s e s'"
proof -
  let ?s1 = "ip_prepared p b (src_addr n src) dest ttl tos proto s" and ?b = "b\<lparr>payload := payload b - 20, len := len b + 20, tot_len := tot_len b + 20\<rparr>"
  have ns: "netifs s netif = Some n" and l': "plen (pbufs s) xs + 20 < 65536" and r: "p + SIZEOF_STRUCT_PBUF + 20 \<le> payload b"
    using n(1) l room by (simp_all add: eth_netif_def)
  note o = own_packetD [OF own]
  note ip = ip_output_if_prepare [OF ok o(1,3,4) l' o(5) ns b r, of src dest ttl tos proto]
  have pb: "pbufs ?s1 = (pbufs s)(p \<mapsto> ?b)" by (simp add: ip_prepared_def)
  have own1: "own_packet ?s1 p xs" by (rule prepared_own [OF own ip(3-5,7) b ip(12)]) (simp_all add: pb)
  have w: "writes_within (payload b - 20) (20 + 0) (bytes s) (bytes ?s1)"
    by (simp add: ip_prepared_def ip_header_bytes_frame(2))
  obtain t where t: "link_ok sizes base t" "kept {p} s t" "same_link s t" "bytes t = bytes ?s1" "pbufs t p = Some ?b"
    using own_rewrite [OF ok own b _ l' r _ w] by auto
  have "kept {p} s ?s1"
    using t(2) same_linkD(7) [OF t(3)] ip(9) unfolding kept_def t(4) by (simp add: pb held_def)
  moreover have n1: "eth_netif (netifs ?s1) netif n" using ip(8) n(1) by (simp add: ip_same_def)
  have "plen (pbufs ?s1) xs \<le> 1500" "p + SIZEOF_STRUCT_PBUF + 14 \<le> payload ?b" using ip(6) l room by simp_all
  from own_etharp_output [OF ip(2) own1 this(1) n1 ip(12) this(2)] obtain e s' where
    e: "etharp_output netif p dest ?s1 = Some (e, s')" "link_ok sizes base s'" "ext_same ?s1 s'" "own_packet s' p xs" "kept {p} ?s1 s'"
    "datagram_sent netif n dest (chain_data ?s1 xs) ?s1 e s'" by blast
  ultimately have "kept {p} s s'" using kept_trans [OF _ e(5)] by fastforce
  moreover have "ip_output_if p src (Some dest) ttl tos proto netif s = Some (e, s')" using ip(1) e(1) n(2) l by simp
  moreover have "ip_same s s'" by (rule ip_same_trans [OF ip(8) ext_same_ip(1) [OF e(3)]])
  moreover have "datagram_sent netif n dest (chain_data ?s1 xs) s e s'" by (rule datagram_sent_from [OF e(6) ip(9,10)])
  ultimately show ?thesis using e(2,4) ip(11) by (intro exI [of _ e] exI [of _ s']) simp
qed

text \<open>A packet that already has its header (\<open>IP_HDRINCL\<close>).\<close>

lemma own_output_hdrincl:
  fixes s :: "'a ip_state_scheme"
  assumes ok: "link_ok sizes base s" and own: "own_packet s p xs" and l: "plen (pbufs s) xs \<le> 1500" and n: "eth_netif (netifs s) netif n" "nif_mtu n = 1500"
    and b: "pbufs s p = Some b" and room: "p + SIZEOF_STRUCT_PBUF + 14 \<le> payload b"
  shows "\<exists>e s'. ip_output_if p src None ttl tos proto netif s = Some (e, s') \<and> link_ok sizes base s' \<and> ip_same s s' \<and> own_packet s' p xs \<and> kept {p} s s'
    \<and> datagram_sent netif n (iph_dest (bytes s) (payload b)) (chain_data s xs) s e s'"
proof -
  obtain e s' where e: "etharp_output netif p (iph_dest (bytes s) (payload b)) s = Some (e, s')" "link_ok sizes base s'" "ext_same s s'" "own_packet s' p xs"
    "kept {p} s s'" "datagram_sent netif n (iph_dest (bytes s) (payload b)) (chain_data s xs) s e s'"
    using own_etharp_output [OF ok own l n(1) b room] by blast
  have "tot_len b \<le> 1500" using own_head [OF own] b l by (metis option.inject)
  then have "ip_output_if p src None ttl tos proto netif s = Some (e, s')" using e(1) n b by (simp add: ip_output_if_def eth_netif_def)
  then show ?thesis using e ext_same_ip(1) [OF e(3)] by blast
qed

lemma own_output:
  fixes s :: "'a ip_state_scheme"
  assumes ok: "link_ok sizes base s" and io: "ifs_ok s" and own: "own_packet s p xs" and l: "plen (pbufs s) xs \<le> 1480"
    and b: "pbufs s p = Some b" and room: "p + SIZEOF_STRUCT_PBUF + 34 \<le> payload b"
    and n: "route_of dest s \<noteq> NULL \<Longrightarrow> eth_netif (netifs s) (route_of dest s) n \<and> nif_mtu n = 1500"
  shows "\<exists>e s'. ip_output p src dest ttl tos proto s = Some (e, s') \<and> link_ok sizes base s' \<and> ip_same s s' \<and> own_packet s' p xs \<and> kept {p} s s'
    \<and> (if route_of dest s = NULL then e = ERR_RTE \<and> s' = s
       else datagram_sent (route_of dest s) n dest (ip_hdr (src_addr n src) dest ttl tos proto (plen (pbufs s) xs + 20) (ip_id s) @ chain_data s xs) s e s')"
proof (cases "route_of dest s = NULL")
  case True
  then have "ip_output p src dest ttl tos proto s = Some (ERR_RTE, s)" using ip_route_ok [OF io, of dest] by (simp add: ip_output_def)
  then show ?thesis using True ok own by (intro exI [of _ ERR_RTE] exI [of _ s]) simp
next
  case False
  have "ip_output p src dest ttl tos proto s = ip_output_if p src (Some dest) ttl tos proto (route_of dest s) s"
    using ip_route_ok [OF io, of dest] False by (simp add: ip_output_def)
  then show ?thesis using own_output_if [OF ok own l _ _ b room, of "route_of dest s" n src dest ttl tos proto] n [OF False] False by simp
qed
end
