(* ===== verification/Icmp.thy ===== *)
theory Icmp
  imports Packets
begin

text \<open>
  \<^verbatim>\<open>lwip/src/core/ipv4/icmp.c\<close>: the echo responder \<open>icmp_input\<close> and the error messages
  \<open>icmp_dest_unreach\<close> and \<open>icmp_time_exceeded\<close>, with their common \<open>icmp_send_response\<close>.

  The echo reply is made in the request: the addresses are exchanged, the type is overwritten and the checksum is
  adjusted by the difference. The theorem shows that the adjusted checksum verifies whenever the request's did.
\<close>

section \<open>Definitions\<close>

definition ICMP_ER :: u8_t where "ICMP_ER = 0"
definition ICMP_DUR :: u8_t where "ICMP_DUR = 3"
definition ICMP_ECHO :: u8_t where "ICMP_ECHO = 8"
definition ICMP_TE :: u8_t where "ICMP_TE = 11"
definition ICMP_TTL :: u8_t where "ICMP_TTL = 255"
definition SIZEOF_ICMP_ECHO_HDR :: nat where "SIZEOF_ICMP_ECHO_HDR = 8"
definition ICMP_DEST_UNREACH_DATASIZE :: nat where "ICMP_DEST_UNREACH_DATASIZE = 8"

datatype icmp_dur_type = ICMP_DUR_NET | ICMP_DUR_HOST | ICMP_DUR_PROTO | ICMP_DUR_PORT | ICMP_DUR_FRAG | ICMP_DUR_SR

fun dur_code :: "icmp_dur_type \<Rightarrow> u8_t" where
  "dur_code ICMP_DUR_NET = 0"
| "dur_code ICMP_DUR_HOST = 1"
| "dur_code ICMP_DUR_PROTO = 2"
| "dur_code ICMP_DUR_PORT = 3"
| "dur_code ICMP_DUR_FRAG = 4"
| "dur_code ICMP_DUR_SR = 5"

datatype icmp_te_type = ICMP_TE_TTL | ICMP_TE_FRAG

fun te_code :: "icmp_te_type \<Rightarrow> u8_t" where
  "te_code ICMP_TE_TTL = 0"
| "te_code ICMP_TE_FRAG = 1"

lemmas icmp_consts = ICMP_ER_def ICMP_DUR_def ICMP_ECHO_def ICMP_TE_def ICMP_TTL_def SIZEOF_ICMP_ECHO_HDR_def ICMP_DEST_UNREACH_DATASIZE_def

text \<open>The bytes of an error message at \<open>icmphdr\<close> that quotes the packet at \<open>iphdr\<close>.\<close>

definition icmp_response_bytes :: "addr \<Rightarrow> addr \<Rightarrow> u8_t \<Rightarrow> u8_t \<Rightarrow> nat \<Rightarrow> (addr \<Rightarrow> u8_t) \<Rightarrow> (addr \<Rightarrow> u8_t)" where
  "icmp_response_bytes icmphdr iphdr ty code qlen d =
     (let d = poke icmphdr [ty] d;
          d = poke (icmphdr + 1) [code] d;
          d = poke (icmphdr + 4) (le16 0) d;
          d = poke (icmphdr + 6) (le16 0) d;
          d = poke (icmphdr + SIZEOF_ICMP_ECHO_HDR) (peek d iphdr (IP_HLEN + ICMP_DEST_UNREACH_DATASIZE)) d;
          d = poke (icmphdr + 2) (le16 0) d
      in poke (icmphdr + 2) (le16 (inet_chksum d icmphdr qlen)) d)"

definition icmp_send_response :: "addr \<Rightarrow> u8_t \<Rightarrow> u8_t \<Rightarrow> 'a ip_state_scheme \<Rightarrow> 'a ip_state_scheme option" where
  "icmp_send_response p ty code s = do {
     (q, s) \<leftarrow> pbuf_alloc PBUF_IP (SIZEOF_ICMP_ECHO_HDR + IP_HLEN + ICMP_DEST_UNREACH_DATASIZE) PBUF_RAM s;
     if q = NULL then Some s
     else do {
       bq \<leftarrow> pbufs s q;
       lwip_assert (SIZEOF_ICMP_ECHO_HDR + IP_HLEN + ICMP_DEST_UNREACH_DATASIZE \<le> len bq);
       b \<leftarrow> pbufs s p;
       let iphdr = payload b;
       let s = s\<lparr>bytes := icmp_response_bytes (payload bq) iphdr ty code (len bq) (bytes s)\<rparr>;
       (e, s) \<leftarrow> ip_output q 0 (iph_src (bytes s) iphdr) ICMP_TTL 0 IP_PROTO_ICMP s;
       (c, s) \<leftarrow> pbuf_free q s;
       Some s
     }
   }"

definition icmp_dest_unreach :: "addr \<Rightarrow> icmp_dur_type \<Rightarrow> 'a ip_state_scheme \<Rightarrow> 'a ip_state_scheme option" where
  "icmp_dest_unreach p t s = icmp_send_response p ICMP_DUR (dur_code t) s"

definition icmp_time_exceeded :: "addr \<Rightarrow> icmp_te_type \<Rightarrow> 'a ip_state_scheme \<Rightarrow> 'a ip_state_scheme option" where
  "icmp_time_exceeded p t s = icmp_send_response p ICMP_TE (te_code t) s"

text \<open>
  The part of \<open>icmp_input\<close> that makes room for the headers of the reply: the result is the packet to use and its IP header, or
  \<open>None\<close> when the copy could not be allocated.
\<close>

definition icmp_echo_room :: "addr \<Rightarrow> addr \<Rightarrow> nat \<Rightarrow> 'a net_state_scheme \<Rightarrow> ((addr \<times> addr) option \<times> 'a net_state_scheme) option" where
  "icmp_echo_room p iphdr hlen s = do {
     (failed, s) \<leftarrow> pbuf_header p (int (PBUF_IP_HLEN + PBUF_LINK_HLEN)) s;
     if failed then do {
       (failed, s) \<leftarrow> pbuf_header p (int hlen) s;
       lwip_assert (\<not> failed);
       b \<leftarrow> pbufs s p;
       (r, s) \<leftarrow> pbuf_alloc PBUF_LINK (tot_len b) PBUF_RAM s;
       if r = NULL then Some (None, s)
       else do {
         br \<leftarrow> pbufs s r;
         lwip_assert (hlen + SIZEOF_ICMP_ECHO_HDR \<le> len br);
         (e, s) \<leftarrow> pbuf_copy r p s;
         lwip_assert (e = ERR_OK);
         br \<leftarrow> pbufs s r;
         let iphdr = payload br;
         (failed, s) \<leftarrow> pbuf_header r (- int hlen) s;
         lwip_assert (\<not> failed);
         (c, s) \<leftarrow> pbuf_free p s;
         Some (Some (r, iphdr), s)
       }
     } else do {
       (failed, s) \<leftarrow> pbuf_header p (- int (PBUF_IP_HLEN + PBUF_LINK_HLEN)) s;
       lwip_assert (\<not> failed);
       Some (Some (p, iphdr), s)
     }
   }"

text \<open>The reply, made from the request whose ICMP header is at \<open>iecho\<close> and whose IP header is at \<open>iphdr\<close>.\<close>

definition icmp_echo_bytes :: "addr \<Rightarrow> addr \<Rightarrow> (addr \<Rightarrow> u8_t) \<Rightarrow> (addr \<Rightarrow> u8_t)" where
  "icmp_echo_bytes iecho iphdr d =
     (let tmpaddr = iph_src d iphdr;
          d = iph_src_set iphdr (iph_dest d iphdr) d;
          d = iph_dest_set iphdr tmpaddr d;
          d = poke iecho [ICMP_ER] d;
          chksum = ld16 d (iecho + 2);
          d = (if chksum \<ge> htons (0xffff - push_bit 8 (ucast ICMP_ECHO))
               then poke (iecho + 2) (le16 (chksum + (htons (push_bit 8 (ucast ICMP_ECHO)) + 1))) d
               else poke (iecho + 2) (le16 (chksum + htons (push_bit 8 (ucast ICMP_ECHO)))) d);
          d = IPH_TTL_SET iphdr ICMP_TTL d;
          d = IPH_CHKSUM_SET iphdr 0 d
      in IPH_CHKSUM_SET iphdr (inet_chksum d iphdr IP_HLEN) d)"

definition icmp_drop :: "addr \<Rightarrow> 'a net_state_scheme \<Rightarrow> 'a net_state_scheme option" where
  "icmp_drop p s = do { (c, s) \<leftarrow> pbuf_free p s; Some s }"

definition icmp_input :: "addr \<Rightarrow> addr \<Rightarrow> 'a ip_state_scheme \<Rightarrow> 'a ip_state_scheme option" where
  "icmp_input p inp s = do {
     b \<leftarrow> pbufs s p;
     let iphdr = payload b;
     let hlen = unat (IPH_HL (bytes s) iphdr) * 4;
     (failed, s) \<leftarrow> pbuf_header p (- int hlen) s;
     b \<leftarrow> pbufs s p;
     if failed \<or> tot_len b < 4 then icmp_drop p s
     else if bytes s (payload b) = ICMP_ECHO then do {
       n \<leftarrow> netifs s inp;
       let dest = iph_dest (bytes s) iphdr;
       if ip_addr_ismulticast dest \<or> ip_addr_isbroadcast dest n then icmp_drop p s
       else if tot_len b < SIZEOF_ICMP_ECHO_HDR then icmp_drop p s
       else do {
         c \<leftarrow> inet_chksum_pbuf p s;
         if c \<noteq> 0 then icmp_drop p s
         else do {
           (r, s) \<leftarrow> icmp_echo_room p iphdr hlen s;
           case r of
             None \<Rightarrow> icmp_drop p s
           | Some (p, iphdr) \<Rightarrow> do {
               b \<leftarrow> pbufs s p;
               let s = s\<lparr>bytes := icmp_echo_bytes (payload b) iphdr (bytes s)\<rparr>;
               (failed, s) \<leftarrow> pbuf_header p (int hlen) s;
               lwip_assert (\<not> failed);
               (e, s) \<leftarrow> ip_output_if p (iph_src (bytes s) iphdr) None ICMP_TTL 0 IP_PROTO_ICMP inp s;
               icmp_drop p s
             }
         }
       }
     }
     else icmp_drop p s
   }"
section \<open>The checksum of the reply\<close>

definition echo_chksum :: "u16_t \<Rightarrow> u16_t" where
  "echo_chksum c = (if c \<ge> 0xfff7 then c + 9 else c + 8)"

text \<open>What the responder makes of the ICMP part of a request.\<close>

definition echo_reply :: "u8_t list \<Rightarrow> u8_t list" where
  "echo_reply v = [0, v ! 1] @ le16 (echo_chksum (ucast (v ! 2) OR push_bit 8 (ucast (v ! 3)))) @ drop 4 v"

lemma chksum_of_zero: "chksum_of v = 0 \<longleftrightarrow> ones_rep (bsum v) = 65535"
proof -
  let ?w = "of_nat (ones_rep (bsum v)) :: u16_t"
  have le: "ones_rep (bsum v) \<le> 65535" by (rule ones_rep_le)
  then have "unat ?w = ones_rep (bsum v)" by (simp add: unat_of_nat)
  then have "unat (NOT ?w) = 65535 - ones_rep (bsum v)" using unat_not [of ?w] by simp
  then show ?thesis using le unfolding chksum_of_def by (metis diff_is_0_eq diff_self_eq_0 le_antisym unat_eq_zero)
qed

lemma bsum_zero: "bsum v = 0 \<longleftrightarrow> (\<forall>b\<in>set v. b = 0)"
  by (induction v rule: bsum.induct) (auto simp: unat_eq_zero)

lemma unat_echo_chksum:
  "unat (echo_chksum c) = (if 65527 \<le> unat c then unat c + 9 - 65536 else unat c + 8)"
proof (cases "65527 \<le> unat c")
  case True
  then have "c \<ge> 0xfff7" by (simp add: word_le_nat_alt)
  moreover have "unat (c + 9) = unat c + 9 - 65536"
  proof -
    have w: "unat (c + 9) = (unat c + 9) mod 65536" by (simp add: unat_word_ariths)
    define k where "k = unat c + 9 - 65536"
    have "unat c + 9 = 65536 + k" "k < 65536" using True unat_u16_less [of c] unfolding k_def by linarith+
    then show ?thesis unfolding w by simp
  qed
  ultimately show ?thesis using True by (simp add: echo_chksum_def)
next
  case False
  then have "\<not> c \<ge> 0xfff7" by (simp add: word_le_nat_alt)
  moreover have "unat (c + 8) = unat c + 8" using False by (simp add: unat_word_ariths)
  ultimately show ?thesis using False by (simp add: echo_chksum_def)
qed

lemma echo_reply_chksum:
  assumes "4 \<le> length v" and "v ! 0 = 8" and "chksum_of v = 0"
  shows "chksum_of (echo_reply v) = 0 \<longleftrightarrow> (\<exists>b\<in>set (echo_reply v). b \<noteq> 0)"
proof -
  obtain a0 a1 c0 c1 r where "v = a0 # a1 # c0 # c1 # r"
    using assms(1) by (auto simp: numeral_eq_Suc Suc_le_length_iff)
  with assms(2) have v: "v = 8 # a1 # c0 # c1 # r" by simp
  let ?c = "ucast c0 OR push_bit 8 (ucast c1) :: u16_t"
  have c: "unat ?c = unat c0 + 256 * unat c1" using unat_bytes16 [of c1 c0] by (simp add: or.commute)
  have S: "bsum v = 8 + 256 * unat a1 + unat ?c + bsum r" unfolding c by (simp add: v)
  have R: "bsum (echo_reply v) = 256 * unat a1 + unat (echo_chksum ?c) + bsum r"
    using bsum_append_even [of "le16 (echo_chksum ?c)" r] bsum_le16 [of "echo_chksum ?c"] by (simp add: echo_reply_def v length_le16)
  have z: "bsum v \<noteq> 0" "bsum v mod 65535 = 0" using assms(3) by (auto simp: chksum_of_zero ones_rep_def split: if_splits)
  have "bsum v = bsum (echo_reply v) \<or> bsum v = bsum (echo_reply v) + 65535"
    using S R unat_echo_chksum [of ?c] by (cases "65527 \<le> unat ?c") simp_all
  then have "bsum (echo_reply v) mod 65535 = 0" using z(2) by auto
  then have "chksum_of (echo_reply v) = 0 \<longleftrightarrow> bsum (echo_reply v) \<noteq> 0" by (simp add: chksum_of_zero ones_rep_def)
  then show ?thesis unfolding bsum_zero by simp
qed
section \<open>The bytes of the reply\<close>

lemma htons_bytes: "htons (ucast x OR push_bit 8 (ucast y)) = ucast y OR push_bit 8 (ucast x)" for x y :: u8_t
proof -
  have u: "unat (ucast a OR push_bit 8 (ucast b) :: u16_t) = unat a + 256 * unat b" for a b :: u8_t
    using unat_bytes16 [of b a] by (simp add: or.commute)
  have "unat (htons (ucast x OR push_bit 8 (ucast y))) = unat (ucast y OR push_bit 8 (ucast x) :: u16_t)"
    unfolding unat_htons u using unat_u8_less [of x] by simp
  then show ?thesis by (simp only: word_unat_eq_iff)
qed

lemma low_byte: "(ucast x OR push_bit 8 (ucast y)) AND 0xff = (ucast x :: u16_t)" for x y :: u8_t
proof (rule bit_word_eqI)
  fix n
  assume "n < LENGTH(16)"
  then show "bit ((ucast x OR push_bit 8 (ucast y)) AND 0xff :: u16_t) n \<longleftrightarrow> bit (ucast x :: u16_t) n"
    using bit_imp_le_length [of x n] by (auto simp: byte_masks16 bit_simps)
qed

lemma le16_bytes: "le16 (ucast x OR push_bit 8 (ucast y)) = [x, y]"
  using halves8 [of x y] by (simp add: le16_def)

lemma ttl_set_bytes: "IPH_TTL_SET h t d = poke (h + 8) [t, d (h + 9)] d"
proof -
  have a: "h + 8 + 1 = h + 9" by simp
  have "IPH_PROTO d h = ucast (d (h + 9))"
    unfolding IPH_PROTO_def ntohs_def ld16_def htons_bytes low_byte a by (rule refl)
  then show ?thesis by (simp add: IPH_TTL_SET_def htons_bytes le16_bytes)
qed

lemma peek_28:
  "peek d h 28 = peek d h 8 @ peek d (h + 8) 2 @ peek d (h + 10) 2 @ peek d (h + 12) 4 @ peek d (h + 16) 4 @ peek d (h + 20) 1 @ peek d (h + 21) 1
     @ peek d (h + 22) 2 @ peek d (h + 24) 4"
proof -
  have "peek d h (8 + (2 + (2 + (4 + (4 + (1 + (1 + (2 + 4)))))))) = peek d h 8 @ peek d (h + 8) 2 @ peek d (h + 10) 2 @ peek d (h + 12) 4
     @ peek d (h + 16) 4 @ peek d (h + 20) 1 @ peek d (h + 21) 1 @ peek d (h + 22) 2 @ peek d (h + 24) 4"
    unfolding peek_add by (simp add: ac_simps del: add_2_eq_Suc')
  then show ?thesis by simp
qed

lemma echo_consts: "htons (0xffff - push_bit 8 (ucast ICMP_ECHO)) = 0xfff7" "htons (push_bit 8 (ucast ICMP_ECHO)) = 8"
  by (simp_all add: htons_def ICMP_ECHO_def)

definition echo_ip_hdr :: "u16_t \<Rightarrow> u8_t list \<Rightarrow> u8_t list" where
  "echo_ip_hdr c g = take 8 g @ [255, g ! 9] @ le16 c @ take 4 (drop 16 g) @ take 4 (drop 12 g)"

lemma echo_reply_append: "4 \<le> length v \<Longrightarrow> echo_reply (v @ w) = echo_reply v @ w"
  by (simp add: echo_reply_def nth_append)

lemma icmp_echo_bytes_frame:
  fixes d :: "addr \<Rightarrow> u8_t"
  assumes iecho: "iecho = h + 20"
  defines "d' \<equiv> icmp_echo_bytes iecho h d"
  shows "\<exists>c. peek d' h 28 = echo_ip_hdr c (peek d h 20) @ echo_reply (peek d iecho 8) \<and> chksum_of (echo_ip_hdr c (peek d h 20)) = 0"
    and "writes_within h 28 d d'"
proof -
  let ?c = "ld16 d (h + 22)"
  define d1 where "d1 = poke (h + 20) [0] (iph_dest_set h (iph_src d h) (iph_src_set h (iph_dest d h) d))"
  define d2 where "d2 = IPH_CHKSUM_SET h 0 (IPH_TTL_SET h ICMP_TTL (poke (h + 22) (le16 (echo_chksum ?c)) d1))"
  have "peek d1 (h + 22) 2 = peek d (h + 22) 2" by (simp add: d1_def iph_set_defs peek_poke_apart)
  then have c1: "ld16 d1 (h + 22) = ?c" using ld16_le16 [of d1 "h + 22" ?c] by (simp add: le16_ld16)
  have a: "iecho = h + 20" "h + 20 + 2 = h + 22" using iecho by simp_all
  have run: "d' = IPH_CHKSUM_SET h (inet_chksum d2 h 20) d2"
    unfolding d'_def icmp_echo_bytes_def Let_def echo_consts ICMP_ER_def a d1_def [symmetric] c1 d2_def IP_HLEN_def
    by (simp add: echo_chksum_def)
  have "peek (poke (h + 22) (le16 (echo_chksum ?c)) d1) (h + 9) 1 = peek d (h + 9) 1"
    by (simp add: d1_def iph_set_defs peek_poke_apart)
  then have ttl: "poke (h + 22) (le16 (echo_chksum ?c)) d1 (h + 9) = d (h + 9)" by (simp add: peek_def)
  have d2: "d2 = poke (h + 10) (le16 0) (poke (h + 8) [255, d (h + 9)] (poke (h + 22) (le16 (echo_chksum ?c)) d1))"
    by (simp add: d2_def ttl_set_bytes ttl IPH_CHKSUM_SET_def ICMP_TTL_def)
  have w2: "writes_within h 28 d d2" unfolding d2 d1_def iph_set_defs by (simp add: writes_within_poke)
  then show "writes_within h 28 d d'" unfolding run by (simp add: IPH_CHKSUM_SET_def writes_within_poke)
  have p2: "peek d2 h 8 = peek d h 8" "peek d2 (h + 8) 2 = [255, d (h + 9)]" "peek d2 (h + 10) 2 = le16 0" "peek d2 (h + 12) 4 = le32 (iph_dest d h)"
    "peek d2 (h + 16) 4 = le32 (iph_src d h)" "peek d2 (h + 20) 1 = [0]" "peek d2 (h + 21) 1 = peek d (h + 21) 1" "peek d2 (h + 22) 2 = le16 (echo_chksum ?c)"
    "peek d2 (h + 24) 4 = peek d (h + 24) 4"
    unfolding d2 d1_def iph_set_defs by (simp_all add: peek_poke_apart peek_poke_at)
  let ?k = "inet_chksum d2 h 20"
  have p': "peek d' h 28 = peek d h 8 @ [255, d (h + 9)] @ le16 ?k @ le32 (iph_dest d h) @ le32 (iph_src d h) @ [0] @ peek d (h + 21) 1 @ le16 (echo_chksum ?c) @ peek d (h + 24) 4"
    unfolding run IPH_CHKSUM_SET_def peek_28 using p2 by (simp add: peek_poke_apart peek_poke_at)
  have hd: "echo_ip_hdr ?k (peek d h 20) = peek d h 8 @ [255, d (h + 9)] @ le16 ?k @ le32 (iph_dest d h) @ le32 (iph_src d h)"
  proof -
    have "take 8 (peek d h 20) = peek d h 8" "peek d h 20 ! 9 = d (h + 9)" "take 4 (drop 16 (peek d h 20)) = peek d (h + 16) 4"
      "take 4 (drop 12 (peek d h 20)) = peek d (h + 12) 4" by (simp_all add: take_peek drop_peek) (simp_all add: peek_def)
    then show ?thesis by (simp add: echo_ip_hdr_def iph_dest_def iph_src_def le32_ld32)
  qed
  have er: "echo_reply (peek d iecho 8) = [0] @ peek d (h + 21) 1 @ le16 (echo_chksum ?c) @ peek d (h + 24) 4"
  proof -
    have n: "peek d (h + 20) 8 ! i = d (h + 20 + i)" if "i < 8" for i using that by (simp add: peek_def)
    have "peek d (h + 20) 8 ! 1 = d (h + 21)" "peek d (h + 20) 8 ! 2 = d (h + 22)" "peek d (h + 20) 8 ! 3 = d (h + 22 + 1)"
      "drop 4 (peek d (h + 20) 8) = peek d (h + 24) 4"
      using n [of 1] n [of 2] n [of 3] drop_peek [of 4 8 d "h + 20"] by (simp_all add: ac_simps peek_def)
    moreover have "peek d a 1 = [d a]" for a by (simp add: peek_def)
    ultimately show ?thesis unfolding echo_reply_def iecho ld16_def by simp
  qed
  have full: "peek d' h 28 = echo_ip_hdr ?k (peek d h 20) @ echo_reply (peek d iecho 8)" unfolding p' hd er by simp
  have "d2 (h + 10) = 0" "d2 (h + 10 + 1) = 0" using p2(3) by (simp_all add: peek_def upt_rec le16_def)
  then have "inet_chksum d' h 20 = 0" unfolding run IPH_CHKSUM_SET_def using inet_chksum_store [of 20 10 d2 h] by simp
  moreover have "peek d' h 20 = echo_ip_hdr ?k (peek d h 20)"
    using arg_cong [OF full, of "take 20"] by (simp add: take_peek echo_ip_hdr_def le16_def)
  ultimately have "chksum_of (echo_ip_hdr ?k (peek d h 20)) = 0" using inet_chksum_peek [of 20 d' h] by simp
  then show "\<exists>c. peek d' h 28 = echo_ip_hdr c (peek d h 20) @ echo_reply (peek d iecho 8) \<and> chksum_of (echo_ip_hdr c (peek d h 20)) = 0"
    using full by blast
qed
section \<open>Room for the reply\<close>

lemma kept_fresh: "kept (insert r K) s s' \<Longrightarrow> pbufs s r = None \<Longrightarrow> kept K s s'"
  unfolding kept_def by (metis insertE option.distinct(1))

lemma alloc_null:
  assumes "pbuf_alloc layer k PBUF_RAM s = Some (NULL, s1)" and "24 + layer_offset layer + k < 65536"
  shows "\<exists>h. mem_malloc (ram_heap s) (24 + layer_offset layer + k) = Some (NULL, h)"
  using assms by (auto simp: pbuf_alloc_def Let_def lwip_simps split: option.splits if_splits Option.bind_splits)

lemma header_no_room:
  assumes "link_ok sizes base s" and own: "own_packet s p xs" and b: "pbufs s p = Some b" and "0 < n" and "plen (pbufs s) xs + n < 65536"
    and "payload b < p + SIZEOF_STRUCT_PBUF + n"
  shows "pbuf_header p (int n) s = Some (True, s)"
proof -
  have "ptype b = PBUF_RAM \<or> ptype b = PBUF_POOL" "tot_len b = plen (pbufs s) xs" using own_head [OF own] b by (metis option.inject)+
  then show ?thesis using pbuf_header_reveal(1) [OF _ own_packetD(1) [OF own] assms(4) b, of sizes base] assms by (simp add: link_ok_def)
qed

definition echo_room_post :: "'a link_state_scheme \<Rightarrow> addr list \<Rightarrow> u8_t list \<Rightarrow> addr \<Rightarrow> addr \<Rightarrow> 'a link_state_scheme \<Rightarrow> bool" where
  "echo_room_post s xs g q h s' \<longleftrightarrow> (\<exists>ys c. own_packet s' q ys \<and> pbufs s' q = Some c \<and> h + 20 = payload c \<and> q + SIZEOF_STRUCT_PBUF + 34 \<le> payload c
     \<and> 8 \<le> len c \<and> peek (bytes s') h 20 @ chain_data s' ys = g \<and> plen (pbufs s') ys + 20 = length g \<and> kept (set xs) s s'
     \<and> (ys = xs \<or> ys = [q] \<and> pbufs s q = None))"

lemma echo_room_copy:
  fixes s :: "'a link_state_scheme"
  assumes ok: "link_ok sizes base s" and own: "own_packet s p xs" and b: "pbufs s p = Some b" and l: "plen (pbufs s) xs \<le> 1500" "28 \<le> plen (pbufs s) xs"
  shows "\<exists>q s1. pbuf_alloc PBUF_LINK (plen (pbufs s) xs) PBUF_RAM s = Some (q, s1)
    \<and> (if q = NULL then link_ok sizes base s1 \<and> own_packet s1 p xs \<and> same_link s s1 \<and> kept {} s s1
       else \<exists>br s2 s3 c s'. pbufs s1 q = Some br \<and> len br = plen (pbufs s) xs \<and> pbuf_copy q p s1 = Some (ERR_OK, s2) \<and> pbufs s2 q = Some br
         \<and> pbuf_header q (- 20) s2 = Some (False, s3) \<and> pbuf_free p s3 = Some (c, s') \<and> link_ok sizes base s' \<and> same_link s s'
         \<and> echo_room_post s xs (chain_data s xs) q (payload br) s')"
proof -
  let ?k = "plen (pbufs s) xs"
  have k: "0 < ?k" "24 + layer_offset PBUF_LINK + ?k < 65536" using l by (simp_all add: lwip_simps)
  obtain q s1 where a: "pbuf_alloc PBUF_LINK ?k PBUF_RAM s = Some (q, s1)" "link_ok sizes base s1" "same_link s s1" "kept {} s s1"
    "if q = NULL then pbufs s1 = pbufs s
       else own_packet s1 q [q] \<and> pbufs s q = None \<and> plen (pbufs s1) [q] = ?k \<and> (\<forall>x. x \<noteq> q \<longrightarrow> pbufs s1 x = pbufs s x)
         \<and> (\<exists>b. pbufs s1 q = Some b \<and> len b = ?k \<and> tot_len b = ?k \<and> payload b = q + (24 + layer_offset PBUF_LINK))"
    using own_alloc [OF ok k] by blast
  have p1: "own_packet s1 p xs" "chain_data s1 xs = chain_data s xs" "plen (pbufs s1) xs = ?k"
    using kept_packet [OF a(4) own] by (simp_all add: plen_cong [of xs "pbufs s1" "pbufs s"])
  show ?thesis
  proof (cases "q = NULL")
    case True
    then show ?thesis using a(1-4) p1(1) by auto
  next
    case False
    with a(5) have "own_packet s1 q [q] \<and> pbufs s q = None \<and> plen (pbufs s1) [q] = ?k \<and> (\<forall>x. x \<noteq> q \<longrightarrow> pbufs s1 x = pbufs s x)
         \<and> (\<exists>b. pbufs s1 q = Some b \<and> len b = ?k \<and> tot_len b = ?k \<and> payload b = q + (24 + layer_offset PBUF_LINK))" unfolding if_not_P [OF False] by blast
    then obtain br where q: "own_packet s1 q [q]" "pbufs s q = None" "plen (pbufs s1) [q] = ?k" "pbufs s1 q = Some br" "len br = ?k"
      "payload br = q + (24 + layer_offset PBUF_LINK)" by blast
    have nq: "q \<notin> set xs" using own_elem [OF own] q(2) by (metis option.distinct(1))
    have dj: "set [q] \<inter> set xs = {}" using nq by simp
    obtain d where d: "pbuf_copy q p s1 = Some (ERR_OK, s1\<lparr>bytes := d\<rparr>)" "chain_data (s1\<lparr>bytes := d\<rparr>) [q] = chain_data s1 xs" "kept {q} s1 (s1\<lparr>bytes := d\<rparr>)"
      using own_copy [OF a(2) q(1) p1(1) dj] p1(3) q(3) by auto
    let ?s2 = "s1\<lparr>bytes := d\<rparr>"
    have s2: "link_ok sizes base ?s2" "own_packet ?s2 q [q]" "same_link s1 ?s2" "pbufs ?s2 q = Some br"
      using bytes_step [where s = s1 and d = d] a(2) q(1,4) by simp_all
    have p2: "own_packet ?s2 p xs" using kept_packet(1) [OF d(3) p1(1)] nq by simp
    obtain s3 where s3: "pbuf_header q (- int 20) ?s2 = Some (False, s3)" "link_ok sizes base s3" "own_packet s3 q [q]" "same_link ?s2 s3" "kept {q} ?s2 s3"
      "bytes s3 = bytes ?s2" "chain_data s3 [q] = drop 20 (chain_data ?s2 [q])" "plen (pbufs s3) [q] = plen (pbufs ?s2) [q] - 20"
      "s3 = put_pbuf q (br\<lparr>payload := payload br + 20, len := len br - 20, tot_len := tot_len br - 20\<rparr>) ?s2"
      using own_hide [OF s2(1,2,4), of 20] l(2) q(5) by auto
    have p3: "own_packet s3 p xs" using kept_packet(1) [OF s3(5) p2] nq by simp
    obtain c s' where f: "pbuf_free p s3 = Some (c, s')" "link_ok sizes base s'" "same_link s3 s'" "kept (set xs) s3 s'" "bytes s' = bytes s3"
      using own_free [OF s3(2) p3] by blast
    note k4 = kept_packet [OF f(4) s3(3)]
    have q4: "own_packet s' q [q]" "chain_data s' [q] = drop 20 (chain_data s xs)" "pbufs s' q = pbufs s3 q" using k4 nq d(2) p1(2) s3(7) by simp_all
    let ?c = "br\<lparr>payload := payload br + 20, len := len br - 20, tot_len := tot_len br - 20\<rparr>"
    have c: "pbufs s' q = Some ?c" using q4(3) s3(9) by simp
    have "peek (bytes s') (payload br) 20 = take 20 (chain_data s xs)"
    proof -
      have "chain_data s xs = peek d (payload br) ?k" using d(2) p1(2) s2(4) q(5) by (simp add: pbuf_data_peek)
      then show ?thesis using l(2) f(5) s3(6) by (simp add: take_peek)
    qed
    then have g: "peek (bytes s') (payload br) 20 @ chain_data s' [q] = chain_data s xs" using q4(2) by simp
    have "kept (insert q (set xs)) s s'"
      by (rule kept_trans' [OF kept_trans' [OF a(4) kept_trans' [OF d(3) s3(5)]] f(4)]) auto
    then have kp: "kept (set xs) s s'" using kept_fresh q(2) by blast
    have "plen (pbufs s') [q] + 20 = length (chain_data s xs)" using c l(2) q(5) length_chain_data [of s xs] by simp
    then have "echo_room_post s xs (chain_data s xs) q (payload br) s'"
      unfolding echo_room_post_def using q4(1) c q(2,5,6) l(2) g kp by (intro exI [of _ "[q]"] exI [of _ ?c]) (simp add: lwip_simps)
    moreover have "same_link s s'" using same_link_trans [OF same_link_trans [OF same_link_trans [OF a(3) s2(3)] s3(4)] f(3)] .
    ultimately show ?thesis using a(1) False q(4,5) d(1) s2(4) s3(1) f(1,2) by auto
  qed
qed
lemma icmp_echo_room_ok:
  fixes s :: "'a link_state_scheme"
  assumes ok: "link_ok sizes base s" and own: "own_packet s p xs" and b: "pbufs s p = Some b" and l: "plen (pbufs s) xs \<le> 1480" "8 \<le> len b"
    and room: "p + SIZEOF_STRUCT_PBUF + 20 \<le> payload b" and g: "g = peek (bytes s) (payload b - 20) 20 @ chain_data s xs"
  shows "\<exists>r s'. icmp_echo_room p (payload b - 20) 20 s = Some (r, s') \<and> link_ok sizes base s' \<and> same_link s s'
    \<and> (case r of None \<Rightarrow> own_packet s' p xs \<and> kept {p} s s' \<and> (\<exists>h. mem_malloc (ram_heap s) (40 + length g) = Some (NULL, h))
       | Some (q, h) \<Rightarrow> echo_room_post s xs g q h s')"
proof (cases "p + SIZEOF_STRUCT_PBUF + 36 \<le> payload b")
  case True
  let ?b = "b\<lparr>payload := payload b - 36, len := len b + 36, tot_len := tot_len b + 36\<rparr>"
  let ?t = "put_pbuf p ?b s"
  have l36: "plen (pbufs s) xs + 36 < 65536" using l by simp
  have t: "pbuf_header p (int 36) s = Some (False, ?t)" "link_ok sizes base ?t" "own_packet ?t p xs"
    using own_reveal [OF ok own b _ l36 True] by auto
  have "pbuf_header p (- int 36) ?t = Some (False, put_pbuf p (?b\<lparr>payload := payload ?b + 36, len := len ?b - 36, tot_len := tot_len ?b - 36\<rparr>) ?t)"
    using own_hide [OF t(2,3), of ?b 36] l(2) by auto
  moreover have "put_pbuf p (?b\<lparr>payload := payload ?b + 36, len := len ?b - 36, tot_len := tot_len ?b - 36\<rparr>) ?t = s"
    using b True by (simp add: put_pbuf_def fun_upd_idem)
  ultimately have "icmp_echo_room p (payload b - 20) 20 s = Some (Some (p, payload b - 20), s)" using t(1) by (simp add: icmp_echo_room_def lwip_simps)
  moreover have "echo_room_post s xs g p (payload b - 20) s"
    unfolding echo_room_post_def using own b True l g length_chain_data [of s xs] by (intro exI [of _ xs] exI [of _ b]) simp
  ultimately show ?thesis using ok by auto
next
  case False
  have l20: "plen (pbufs s) xs + 20 < 65536" "plen (pbufs s) xs + 36 < 65536" using l by simp_all
  have nr: "pbuf_header p (int 36) s = Some (True, s)" using header_no_room [OF ok own b, of 36] l20 False by simp
  obtain t where t: "pbuf_header p (int 20) s = Some (False, t)" "link_ok sizes base t" "own_packet t p xs" "same_link s t" "kept {p} s t" "bytes t = bytes s"
    "chain_data t xs = g" "plen (pbufs t) xs = plen (pbufs s) xs + 20"
    "t = put_pbuf p (b\<lparr>payload := payload b - 20, len := len b + 20, tot_len := tot_len b + 20\<rparr>) s"
    using own_reveal [OF ok own b _ l20(1) room] g by auto
  obtain bt where bt: "pbufs t p = Some bt" "tot_len bt = plen (pbufs t) xs" by (rule own_head [OF t(3)])
  have lb: "len b \<le> plen (pbufs s) xs" using own_head [OF own] b by (metis option.inject)
  have lt: "plen (pbufs t) xs \<le> 1500" "28 \<le> plen (pbufs t) xs" using t(8) l lb by simp_all
  have lg: "length g = plen (pbufs t) xs" using t(7) length_chain_data [of t xs] by simp
  obtain q s1 where q: "pbuf_alloc PBUF_LINK (plen (pbufs t) xs) PBUF_RAM t = Some (q, s1)"
    "if q = NULL then link_ok sizes base s1 \<and> own_packet s1 p xs \<and> same_link t s1 \<and> kept {} t s1
       else \<exists>br s2 s3 c s'. pbufs s1 q = Some br \<and> len br = plen (pbufs t) xs \<and> pbuf_copy q p s1 = Some (ERR_OK, s2) \<and> pbufs s2 q = Some br
         \<and> pbuf_header q (- 20) s2 = Some (False, s3) \<and> pbuf_free p s3 = Some (c, s') \<and> link_ok sizes base s' \<and> same_link t s'
         \<and> echo_room_post t xs (chain_data t xs) q (payload br) s'"
    using echo_room_copy [OF t(2,3) bt(1) lt] by blast
  show ?thesis
  proof (cases "q = NULL")
    case True
    have "\<exists>h. mem_malloc (ram_heap t) (24 + layer_offset PBUF_LINK + plen (pbufs t) xs) = Some (NULL, h)"
      using alloc_null [of PBUF_LINK "plen (pbufs t) xs" t s1] q(1) True lt by (simp add: lwip_simps)
    moreover have "ram_heap t = ram_heap s" by (simp add: t(9) put_pbuf_def)
    ultimately have "\<exists>h. mem_malloc (ram_heap s) (40 + length g) = Some (NULL, h)" using lg by (simp add: lwip_simps)
    moreover have "kept {p} s s1" using q(2) True kept_trans [OF t(5), of "{}" s1] by simp
    moreover have "icmp_echo_room p (payload b - 20) 20 s = Some (None, s1)" using nr t(1) bt q(1) True by (simp add: icmp_echo_room_def lwip_simps)
    ultimately show ?thesis
      using q(2) True same_link_trans [OF t(4), of s1] by (intro exI [of _ None] exI [of _ s1]) simp
  next
    case False
    then obtain br s2 s3 c s' where r: "pbufs s1 q = Some br" "len br = plen (pbufs t) xs" "pbuf_copy q p s1 = Some (ERR_OK, s2)" "pbufs s2 q = Some br"
      "pbuf_header q (- 20) s2 = Some (False, s3)" "pbuf_free p s3 = Some (c, s')" "link_ok sizes base s'" "same_link t s'"
      "echo_room_post t xs (chain_data t xs) q (payload br) s'" using q(2) unfolding if_not_P [OF False] by blast
    have "icmp_echo_room p (payload b - 20) 20 s = Some (Some (q, payload br), s')"
      using nr t(1) bt q(1) False r(1-6) lt by (simp add: icmp_echo_room_def lwip_simps icmp_consts)
    moreover have "echo_room_post s xs g q (payload br) s'"
    proof -
      have "kept (set xs) s s'" if "kept (set xs) t s'" using kept_trans' [OF t(5) that, of "set xs"] own_packetD(6) [OF own] by simp
      moreover have "pbufs s q = None" if "pbufs t q = None" using that by (simp add: t(9) split: if_splits)
      moreover obtain ys c where "own_packet s' q ys" "pbufs s' q = Some c" "payload br + 20 = payload c" "q + SIZEOF_STRUCT_PBUF + 34 \<le> payload c"
        "8 \<le> len c" "peek (bytes s') (payload br) 20 @ chain_data s' ys = g" "plen (pbufs s') ys + 20 = length g" "kept (set xs) t s'"
        "ys = xs \<or> ys = [q] \<and> pbufs t q = None" using r(9) unfolding echo_room_post_def t(7) by blast
      ultimately show ?thesis unfolding echo_room_post_def by (intro exI [of _ ys] exI [of _ c]) auto
    qed
    ultimately show ?thesis using r(7) same_link_trans [OF t(4) r(8)] by auto
  qed
qed
section \<open>The echo responder\<close>

lemma icmp_drop_ok:
  fixes s :: "'a link_state_scheme"
  assumes "link_ok sizes base s" and "own_packet s p xs"
  shows "\<exists>s'. icmp_drop p s = Some s' \<and> link_ok sizes base s' \<and> same_link s s' \<and> kept (set xs) s s' \<and> held_kept s s'"
proof -
  obtain c s' where "pbuf_free p s = Some (c, s')" "link_ok sizes base s'" "same_link s s'" "kept (set xs) s s'" "held_kept s s'" using own_free [OF assms] by blast
  then show ?thesis by (simp add: icmp_drop_def)
qed

lemma same_link_ip: "same_link s s' \<Longrightarrow> ip_same s s'"
  unfolding same_link_def using ext_same_ip(1) by blast

text \<open>The request is answered unless its destination is a group or its checksum is wrong.\<close>

definition echo_request :: "netif \<Rightarrow> u32_t \<Rightarrow> u8_t list \<Rightarrow> bool" where
  "echo_request n dest v \<longleftrightarrow> 8 \<le> length v \<and> v ! 0 = ICMP_ECHO \<and> \<not> ip_addr_ismulticast dest \<and> \<not> ip_addr_isbroadcast dest n \<and> chksum_of v = 0"

definition echo_post :: "addr \<Rightarrow> netif \<Rightarrow> u32_t \<Rightarrow> u32_t \<Rightarrow> u8_t list \<Rightarrow> u8_t list \<Rightarrow> 'a ip_state_scheme \<Rightarrow> 'a ip_state_scheme \<Rightarrow> bool" where
  "echo_post inp n src dest g v s s' \<longleftrightarrow>
     (if echo_request n dest v
      then (\<exists>c e. chksum_of (echo_ip_hdr c g) = 0 \<and> datagram_sent inp n src (echo_ip_hdr c g @ echo_reply v) s e s')
        \<or> tx s' = tx s \<and> arp_table s' = arp_table s \<and> (\<exists>h. mem_malloc (ram_heap s) (40 + length (g @ v)) = Some (NULL, h))
      else tx s' = tx s \<and> arp_table s' = arp_table s)"

text \<open>Sending the reply once there is room for it.\<close>

lemma echo_reply_sent:
  fixes s :: "'a ip_state_scheme"
  assumes ok: "link_ok sizes base s" and own: "own_packet s q ys" and n: "eth_netif (netifs s) inp n" "nif_mtu n = 1500"
    and c: "pbufs s q = Some c" "h + 20 = payload c" "q + SIZEOF_STRUCT_PBUF + 34 \<le> payload c" "8 \<le> len c" and l: "plen (pbufs s) ys \<le> 1480"
    and g: "g = peek (bytes s) h 20" and v: "v = chain_data s ys"
  shows "\<exists>s1 e s2 s'. pbuf_header q (int 20) (s\<lparr>bytes := icmp_echo_bytes (payload c) h (bytes s)\<rparr>) = Some (False, s1)
    \<and> ip_output_if q (iph_src (bytes s1) h) None ICMP_TTL 0 IP_PROTO_ICMP inp s1 = Some (e, s2)
    \<and> icmp_drop q s2 = Some s' \<and> link_ok sizes base s' \<and> ip_same s s' \<and> kept (set ys) s s'
    \<and> (\<exists>k. chksum_of (echo_ip_hdr k g) = 0 \<and> datagram_sent inp n (iph_src (bytes s) h) (echo_ip_hdr k g @ echo_reply v) s e s')"
proof -
  let ?d = "icmp_echo_bytes (payload c) h (bytes s)"
  have h: "h = payload c - 20" "payload c = h + 20" using c(2) by simp_all
  obtain k where k: "peek ?d h 28 = echo_ip_hdr k g @ echo_reply (peek (bytes s) (payload c) 8)" "chksum_of (echo_ip_hdr k g) = 0"
    using icmp_echo_bytes_frame(1) [OF h(2), of "bytes s"] unfolding g by blast
  have w: "writes_within (payload c - 20) (20 + 8) (bytes s) ?d" using icmp_echo_bytes_frame(2) [OF h(2), of "bytes s"] h(1) by simp
  have l20: "plen (pbufs s) ys + 20 < 65536" and room: "q + SIZEOF_STRUCT_PBUF + 20 \<le> payload c" using l c(3) by simp_all
  obtain s1 where s1: "pbuf_header q (int 20) (s\<lparr>bytes := ?d\<rparr>) = Some (False, s1)" "link_ok sizes base s1" "own_packet s1 q ys" "same_link s s1" "kept {q} s s1"
    "bytes s1 = ?d" "chain_data s1 ys = peek ?d h (20 + 8) @ drop 8 v" "plen (pbufs s1) ys = plen (pbufs s) ys + 20"
    "pbufs s1 q = Some (c\<lparr>payload := payload c - 20, len := len c + 20, tot_len := tot_len c + 20\<rparr>)"
    using own_rewrite [OF ok own c(1) _ l20 room c(4) w] unfolding h(1) [symmetric] v by auto
  obtain zs where zs: "ys = q # zs" using own_head [OF own] by metis
  have tv: "take 8 v = peek (bytes s) (payload c) 8"
    using c(1,4) by (simp add: v zs pbuf_data_peek take_peek)
  have lv: "length v = plen (pbufs s) ys" "8 \<le> length v" using c(1,4) length_chain_data [of s ys] by (simp_all add: v zs)
  have "echo_reply v = echo_reply (take 8 v) @ drop 8 v" using echo_reply_append [of "take 8 v" "drop 8 v"] lv(2) by simp
  then have data: "chain_data s1 ys = echo_ip_hdr k g @ echo_reply v" using s1(7) k(1) tv by simp
  have dst: "iph_dest (bytes s1) (payload c - 20) = iph_src (bytes s) h"
  proof -
    have lg: "length (echo_ip_hdr k g) = 20" by (simp add: echo_ip_hdr_def g le16_def)
    have "take 4 (drop 16 (peek ?d h 28)) = peek ?d (h + 16) 4" by (simp add: drop_peek take_peek)
    then have "peek ?d (h + 16) 4 = take 4 (drop 16 (echo_ip_hdr k g))" using k(1) lg by simp
    also have "\<dots> = take 4 (drop 12 g)" by (simp add: echo_ip_hdr_def g le16_def)
    also have "\<dots> = le32 (iph_src (bytes s) h)" by (simp add: g iph_src_def le32_ld32 drop_peek take_peek)
    finally show ?thesis unfolding iph_dest_def s1(6) h(1) [symmetric] by (rule ld32_le32)
  qed
  have n1: "eth_netif (netifs s1) inp n" using n(1) same_linkD(1) [OF s1(4)] by simp
  have "plen (pbufs s1) ys \<le> 1500" "q + SIZEOF_STRUCT_PBUF + 14 \<le> payload (c\<lparr>payload := payload c - 20, len := len c + 20, tot_len := tot_len c + 20\<rparr>)"
    using s1(8) l c(3) by simp_all
  from own_output_hdrincl [OF s1(2,3) this(1) n1 n(2) s1(9) this(2), of "iph_src (bytes s1) h" ICMP_TTL 0 IP_PROTO_ICMP]
  obtain e s2 where e: "ip_output_if q (iph_src (bytes s1) h) None ICMP_TTL 0 IP_PROTO_ICMP inp s1 = Some (e, s2)" "link_ok sizes base s2" "ip_same s1 s2"
    "own_packet s2 q ys" "kept {q} s1 s2" "datagram_sent inp n (iph_src (bytes s) h) (echo_ip_hdr k g @ echo_reply v) s1 e s2"
    unfolding data using dst by auto
  obtain s' where s': "icmp_drop q s2 = Some s'" "link_ok sizes base s'" "same_link s2 s'" "kept (set ys) s2 s'" "held_kept s2 s'"
    using icmp_drop_ok [OF e(2,4)] by blast
  have "datagram_sent inp n (iph_src (bytes s) h) (echo_ip_hdr k g @ echo_reply v) s e s'"
    by (rule datagram_sent_step [OF datagram_sent_from [OF e(6) same_linkD(4,5) [OF s1(4)]] s'(3,5)])
  moreover have "ip_same s s'" using ip_same_trans [OF ip_same_trans [OF same_link_ip [OF s1(4)] e(3)] same_link_ip [OF s'(3)]] .
  moreover have "kept (set ys) s s'" by (rule kept_trans' [OF kept_trans' [OF s1(5) e(5)] s'(4)]) (auto simp: zs)
  ultimately show ?thesis using s1(1) e(1) s'(1,2) k(2) by blast
qed
lemma icmp_input_ok:
  fixes s :: "'a ip_state_scheme"
  assumes ok: "link_ok sizes base s" and own: "own_packet s p xs" and n: "eth_netif (netifs s) inp n" "nif_mtu n = 1500" and b: "pbufs s p = Some b"
    and l: "plen (pbufs s) xs \<le> 1500" and hl: "IPH_HL (bytes s) (payload b) = 5" and hd: "20 < len b" "28 \<le> len b \<or> plen (pbufs s) xs < 28"
  shows "\<exists>s'. icmp_input p inp s = Some s' \<and> link_ok sizes base s' \<and> ip_same s s' \<and> kept (set xs) s s'
    \<and> echo_post inp n (iph_src (bytes s) (payload b)) (iph_dest (bytes s) (payload b)) (take 20 (chain_data s xs)) (drop 20 (chain_data s xs)) s s'"
proof -
  let ?g = "take 20 (chain_data s xs)" and ?v = "drop 20 (chain_data s xs)"
  let ?b = "b\<lparr>payload := payload b + 20, len := len b - 20, tot_len := tot_len b - 20\<rparr>"
  obtain s1 where s1: "pbuf_header p (- int 20) s = Some (False, s1)" "link_ok sizes base s1" "own_packet s1 p xs" "same_link s s1" "kept {p} s s1"
    "bytes s1 = bytes s" "chain_data s1 xs = ?v" "plen (pbufs s1) xs = plen (pbufs s) xs - 20" "s1 = put_pbuf p ?b s"
    using own_hide [OF ok own b, of 20] hd(1) by auto
  have pb: "pbufs s1 p = Some ?b" by (simp add: s1(9))
  obtain ys where ys: "xs = p # ys" "tot_len b = plen (pbufs s) xs" using own_head [OF own] b by (metis option.inject)
  have lv: "length ?v = tot_len b - 20" using ys(2) length_chain_data [of s xs] by simp
  have g: "?g = peek (bytes s1) (payload b) 20" using b hd(1) by (simp add: ys(1) pbuf_data_peek take_peek s1(6))
  have v0: "bytes s (payload b + 20) = ?v ! 0"
    using hd(1) b by (simp add: ys(1) pbuf_data_def nth_append)
  have chk: "inet_chksum_pbuf p s1 = Some (chksum_of ?v)"
    using inet_chksum_pbuf_ok [OF own_pchain [OF s1(3)] own_lens [OF s1(2,3)]] s1(7) by (simp add: chksum_of_def)
  have nn: "netifs s1 inp = Some n" using n(1) same_linkD(1) [OF s1(4)] by (simp add: eth_netif_def)
  have px: "p \<in> set xs" using ys(1) by simp
  show ?thesis
  proof (cases "echo_request n (iph_dest (bytes s) (payload b)) ?v")
    case False
    obtain s' where s': "icmp_drop p s1 = Some s'" "link_ok sizes base s'" "same_link s1 s'" "kept (set xs) s1 s'" using icmp_drop_ok [OF s1(2,3)] by blast
    have "icmp_input p inp s = icmp_drop p s1"
      using False b hl s1(1) pb nn chk lv v0 by (auto simp: icmp_input_def Let_def s1(6) echo_request_def icmp_consts)
    moreover have "same_link s s'" by (rule same_link_trans [OF s1(4) s'(3)])
    moreover have "kept (set xs) s s'" by (rule kept_trans' [OF s1(5) s'(4)]) (use px in auto)
    ultimately show ?thesis using s'(1,2) False same_link_ip same_linkD(4,5) by (auto simp: echo_post_def)
  next
    case True
    then have t: "8 \<le> tot_len b - 20" "?v ! 0 = 8" using lv by (simp_all add: echo_request_def icmp_consts)
    have len8: "8 \<le> len ?b" "plen (pbufs s1) xs \<le> 1480" using hd t(1) ys(2) s1(8) l by auto
    have room: "p + SIZEOF_STRUCT_PBUF + 20 \<le> payload ?b"
      using net_okD(3) [of sizes base s p b] ok b own_head [OF own] by (auto simp: link_ok_def pbuf_ok_def split: option.splits)
    have gv: "?g @ ?v = peek (bytes s1) (payload ?b - 20) 20 @ chain_data s1 xs" using g s1(7) by simp
    obtain r s2 where r: "icmp_echo_room p (payload b) 20 s1 = Some (r, s2)" "link_ok sizes base s2" "same_link s1 s2"
      "case r of None \<Rightarrow> own_packet s2 p xs \<and> kept {p} s1 s2 \<and> (\<exists>h. mem_malloc (ram_heap s1) (40 + length (?g @ ?v)) = Some (NULL, h))
       | Some (q, h) \<Rightarrow> echo_room_post s1 xs (?g @ ?v) q h s2"
      using icmp_echo_room_ok [OF s1(2,3) pb len8(2,1) room gv] by auto
    have sl2: "same_link s s2" by (rule same_link_trans [OF s1(4) r(3)])
    show ?thesis
    proof (cases r)
      case None
      obtain s' where s': "icmp_drop p s2 = Some s'" "link_ok sizes base s'" "same_link s2 s'" "kept (set xs) s2 s'" using icmp_drop_ok [OF r(2)] r(4) None by force
      have "icmp_input p inp s = icmp_drop p s2"
        using True b hl s1(1) pb nn chk lv v0 r(1) None t by (simp add: icmp_input_def Let_def s1(6) echo_request_def icmp_consts)
      moreover have "same_link s s'" by (rule same_link_trans [OF sl2 s'(3)])
      moreover have "kept {p} s1 s2" using r(4) None by simp
      then have "kept (set xs) s s'" using kept_trans' [OF kept_trans' [OF s1(5), of "{p}" s2 "{p}"] s'(4), of "set xs"] px by simp
      moreover have "ram_heap s1 = ram_heap s" by (simp add: s1(9) put_pbuf_def)
      ultimately show ?thesis using s'(1,2) True same_link_ip same_linkD(4,5) r(4) None by (auto simp: echo_post_def)
    next
      case (Some qh)
      obtain q h where qh: "qh = (q, h)" by (cases qh)
      obtain zs c where e: "own_packet s2 q zs" "pbufs s2 q = Some c" "h + 20 = payload c" "q + SIZEOF_STRUCT_PBUF + 34 \<le> payload c" "8 \<le> len c"
        "peek (bytes s2) h 20 @ chain_data s2 zs = ?g @ ?v" "plen (pbufs s2) zs + 20 = length (?g @ ?v)" "kept (set xs) s1 s2" "zs = xs \<or> zs = [q] \<and> pbufs s1 q = None"
        using r(4) Some qh by (auto simp: echo_room_post_def)
      have lg: "length ?g = 20" using t(1) length_chain_data [of s xs] ys(2) by simp
      have gz: "?g = peek (bytes s2) h 20" "?v = chain_data s2 zs" using e(6) lg by (metis append_eq_append_conv length_peek)+
      have l2: "plen (pbufs s2) zs \<le> 1480" using e(7) lv ys(2) l lg by simp
      have n2: "eth_netif (netifs s2) inp n" using n(1) same_linkD(1) [OF sl2] by simp
      obtain s3 e' s4 s' where f: "pbuf_header q (int 20) (s2\<lparr>bytes := icmp_echo_bytes (payload c) h (bytes s2)\<rparr>) = Some (False, s3)"
        "ip_output_if q (iph_src (bytes s3) h) None ICMP_TTL 0 IP_PROTO_ICMP inp s3 = Some (e', s4)"
        "icmp_drop q s4 = Some s'" "link_ok sizes base s'" "ip_same s2 s'" "kept (set zs) s2 s'"
        "\<exists>k. chksum_of (echo_ip_hdr k ?g) = 0 \<and> datagram_sent inp n (iph_src (bytes s2) h) (echo_ip_hdr k ?g @ echo_reply ?v) s2 e' s'"
        using echo_reply_sent [OF r(2) e(1) n2 n(2) e(2-5) l2 gz] by blast
      have "icmp_input p inp s = Some s'"
        using True b hl s1(1) pb nn chk lv v0 r(1) Some qh t e(2) f(1-3) by (simp add: icmp_input_def Let_def s1(6) echo_request_def icmp_consts)
      moreover have "ip_same s s'" by (rule ip_same_trans [OF same_link_ip [OF sl2] f(5)])
      moreover have "kept (set xs) s s'"
      proof (cases "zs = xs")
        case True
        then show ?thesis using kept_trans' [OF kept_trans' [OF s1(5) e(8), of "set xs"] f(6), of "set xs"] px by simp
      next
        case False
        then have z: "zs = [q]" "pbufs s1 q = None" using e(9) by simp_all
        then have "pbufs s q = None" by (simp add: s1(9) split: if_splits)
        moreover have "kept (insert q (set xs)) s s'" by (rule kept_trans' [OF kept_trans' [OF s1(5) e(8)] f(6)]) (use px z in auto)
        ultimately show ?thesis using kept_fresh by blast
      qed
      moreover have "iph_src (bytes s2) h = iph_src (bytes s) (payload b)"
      proof -
        have "peek (bytes s2) (h + 12) 4 = peek (bytes s) (payload b + 12) 4"
          using arg_cong [OF gz(1), of "\<lambda>x. take 4 (drop 12 x)"] g s1(6) by (simp add: drop_peek take_peek)
        then show ?thesis unfolding iph_src_def using ld32_le32 le32_ld32 by metis
      qed
      moreover obtain k where k: "chksum_of (echo_ip_hdr k ?g) = 0" "datagram_sent inp n (iph_src (bytes s2) h) (echo_ip_hdr k ?g @ echo_reply ?v) s2 e' s'"
        using f(7) by blast
      note datagram_sent_from [OF k(2) same_linkD(4,5) [OF sl2]]
      ultimately have "echo_post inp n (iph_src (bytes s) (payload b)) (iph_dest (bytes s) (payload b)) ?g ?v s s'"
        unfolding echo_post_def if_P [OF True] using k(1) by metis
      then show ?thesis using \<open>icmp_input p inp s = Some s'\<close> f(4) \<open>ip_same s s'\<close> \<open>kept (set xs) s s'\<close> by blast
    qed
  qed
qed
section \<open>Error messages\<close>

definition icmp_error_msg :: "u16_t \<Rightarrow> u8_t \<Rightarrow> u8_t \<Rightarrow> u8_t list \<Rightarrow> u8_t list" where
  "icmp_error_msg c ty code quote = [ty, code] @ le16 c @ [0, 0, 0, 0] @ quote"

lemma peek_36:
  "peek d a 36 = peek d a 1 @ peek d (a + 1) 1 @ peek d (a + 2) 2 @ peek d (a + 4) 2 @ peek d (a + 6) 2 @ peek d (a + 8) 28"
proof -
  have "peek d a (1 + 1) = peek d a 1 @ peek d (a + 1) 1" by (rule peek_add)
  then have two: "peek d a 2 = peek d a 1 @ peek d (a + 1) 1" by (simp add: numeral_2_eq_2)
  have "peek d a (2 + (2 + (2 + (2 + 28)))) = peek d a 2 @ peek d (a + 2) 2 @ peek d (a + 4) 2 @ peek d (a + 6) 2 @ peek d (a + 8) 28"
    unfolding peek_add by (simp add: add.assoc del: add_2_eq_Suc')
  then show ?thesis using two by simp
qed

lemma icmp_response_bytes_frame:
  fixes d :: "addr \<Rightarrow> u8_t" and ty code :: u8_t
  assumes apart: "h + 28 \<le> a \<or> a + 36 \<le> h"
  defines "d' \<equiv> icmp_response_bytes a h ty code 36 d"
  shows "\<exists>c. peek d' a 36 = icmp_error_msg c ty code (peek d h 28) \<and> chksum_of (icmp_error_msg c ty code (peek d h 28)) = 0"
    and "writes_within a 36 d d'"
proof -
  define d1 where "d1 = poke (a + 6) (le16 0) (poke (a + 4) (le16 0) (poke (a + 1) [code] (poke a [ty] d)))"
  define d2 where "d2 = poke (a + 2) (le16 0) (poke (a + 8) (peek d h 28) d1)"
  have quote: "peek d1 h 28 = peek d h 28" unfolding d1_def using apart by (elim disjE) (simp_all add: peek_poke_apart)
  have run: "d' = poke (a + 2) (le16 (inet_chksum d2 a 36)) d2"
    unfolding d'_def icmp_response_bytes_def Let_def icmp_consts IP_HLEN_def d1_def [symmetric] by (simp add: d2_def quote)
  have w: "writes_within a 36 d d2" unfolding d2_def d1_def by (simp add: writes_within_poke)
  then show "writes_within a 36 d d'" unfolding run by (simp add: writes_within_poke)
  have p2: "peek d2 a 1 = [ty]" "peek d2 (a + 1) 1 = [code]" "peek d2 (a + 2) 2 = le16 0" "peek d2 (a + 4) 2 = le16 0" "peek d2 (a + 6) 2 = le16 0"
    "peek d2 (a + 8) 28 = peek d h 28"
    unfolding d2_def d1_def by (simp_all add: peek_poke_apart peek_poke_at)
  let ?c = "inet_chksum d2 a 36"
  have "peek d' a 36 = [ty] @ [code] @ le16 ?c @ le16 0 @ le16 0 @ peek d h 28"
    unfolding run peek_36 using p2 by (simp add: peek_poke_apart peek_poke_at)
  then have full: "peek d' a 36 = icmp_error_msg ?c ty code (peek d h 28)" by (simp add: icmp_error_msg_def le16_def)
  have "d2 (a + 2) = 0" "d2 (a + 2 + 1) = 0" using p2(3) by (simp_all add: peek_def upt_rec le16_def)
  then have "inet_chksum d' a 36 = 0" unfolding run using inet_chksum_store [of 36 2 d2 a] by simp
  then have "chksum_of (icmp_error_msg ?c ty code (peek d h 28)) = 0" using inet_chksum_peek [of 36 d' a] full by simp
  with full show "\<exists>c. peek d' a 36 = icmp_error_msg c ty code (peek d h 28) \<and> chksum_of (icmp_error_msg c ty code (peek d h 28)) = 0" by blast
qed

definition icmp_error_post :: "u8_t \<Rightarrow> u8_t \<Rightarrow> u32_t \<Rightarrow> u8_t list \<Rightarrow> netif \<Rightarrow> 'a ip_state_scheme \<Rightarrow> 'a ip_state_scheme \<Rightarrow> bool" where
  "icmp_error_post ty code src quote n s s' \<longleftrightarrow>
     tx s' = tx s \<and> arp_table s' = arp_table s \<and> (route_of src s = NULL \<or> (\<exists>h. mem_malloc (ram_heap s) 96 = Some (NULL, h)))
     \<or> route_of src s \<noteq> NULL \<and> (\<exists>c e. chksum_of (icmp_error_msg c ty code quote) = 0
          \<and> datagram_sent (route_of src s) n src (ip_hdr (nif_ip_addr n) src 255 0 1 56 (ip_id s) @ icmp_error_msg c ty code quote) s e s')"

lemma same_link_route:
  assumes "same_link s s'"
  shows "route_of a s' = route_of a s" and "ifs_ok s' = ifs_ok s"
  unfolding route_of_def ifs_ok_def same_linkD(1-3) [OF assms] by (rule refl)+

lemma icmp_send_response_ok:
  fixes s :: "'a ip_state_scheme"
  assumes ok: "link_ok sizes base s" and io: "ifs_ok s" and own: "own_packet s p xs" and b: "pbufs s p = Some b" "28 \<le> len b"
    and n: "route_of src s \<noteq> NULL \<Longrightarrow> eth_netif (netifs s) (route_of src s) n \<and> nif_mtu n = 1500" and src: "src = iph_src (bytes s) (payload b)"
  shows "\<exists>s'. icmp_send_response p ty code s = Some s' \<and> link_ok sizes base s' \<and> ip_same s s' \<and> kept {} s s'
    \<and> icmp_error_post ty code src (take 28 (chain_data s xs)) n s s'"
proof -
  have quote: "take 28 (chain_data s xs) = peek (bytes s) (payload b) 28"
  proof -
    obtain ys where "xs = p # ys" by (rule own_head [OF own]) simp
    then show ?thesis using b by (simp add: pbuf_data_peek take_peek)
  qed
  obtain q s1 where a: "pbuf_alloc PBUF_IP 36 PBUF_RAM s = Some (q, s1)" "link_ok sizes base s1" "same_link s s1" "kept {} s s1" "bytes s1 = bytes s"
    "if q = NULL then pbufs s1 = pbufs s
       else own_packet s1 q [q] \<and> pbufs s q = None \<and> plen (pbufs s1) [q] = 36 \<and> (\<forall>x. x \<noteq> q \<longrightarrow> pbufs s1 x = pbufs s x)
         \<and> (\<exists>b. pbufs s1 q = Some b \<and> len b = 36 \<and> tot_len b = 36 \<and> payload b = q + (24 + layer_offset PBUF_IP))"
    using own_alloc [OF ok, of 36 PBUF_IP] by (auto simp: lwip_simps)
  show ?thesis
  proof (cases "q = NULL")
    case True
    have "\<exists>h. mem_malloc (ram_heap s) 96 = Some (NULL, h)" using alloc_null [of PBUF_IP 36 s s1] a(1) True by (simp add: lwip_simps)
    then show ?thesis using a(1-4) True same_link_ip [OF a(3)] same_linkD(4,5) [OF a(3)] by (auto simp: icmp_send_response_def icmp_consts IP_HLEN_def icmp_error_post_def)
  next
    case False
    then obtain bq where q: "own_packet s1 q [q]" "pbufs s q = None" "plen (pbufs s1) [q] = 36" "pbufs s1 q = Some bq" "len bq = 36" "payload bq = q + (24 + layer_offset PBUF_IP)"
      using a(6) unfolding if_not_P [OF False] by blast
    have p1: "pbufs s1 p = Some b" "own_packet s1 p xs" using kept_packet [OF a(4) own] own_packetD(6) [OF own] b(1) by auto
    have ne: "p \<noteq> q" using q(2) b(1) by auto
    let ?d = "icmp_response_bytes (payload bq) (payload b) ty code 36 (bytes s1)"
    have ty: "ptype b = PBUF_RAM \<or> ptype b = PBUF_POOL" "ptype bq = PBUF_RAM \<or> ptype bq = PBUF_POOL"
      using own_head [OF own] own_head [OF q(1)] b(1) q(4) by (metis option.inject)+
    have "payload b + 28 \<le> payload bq \<or> payload bq + 36 \<le> payload b"
      using owned_apart [OF _ p1(1) ty(1) q(4) ty(2) ne, of sizes base] a(2) b(2) q(5) by (auto simp: link_ok_def)
    note fr = icmp_response_bytes_frame [OF this, where ty = ty and code = code and d = "bytes s1"]
    obtain c where c: "peek ?d (payload bq) 36 = icmp_error_msg c ty code (take 28 (chain_data s xs))"
      "chksum_of (icmp_error_msg c ty code (take 28 (chain_data s xs))) = 0"
      using fr(1) a(5) quote by auto
    let ?s2 = "s1\<lparr>bytes := ?d\<rparr>"
    have le: "36 \<le> len bq" using q(5) by simp
    note w = own_write [OF a(2) q(1,4) le fr(2)]
    note s2 = bytes_step(1) [where s = s1 and d = ?d] bytes_step(2) [OF a(2), where d = ?d]
    have o2: "own_packet ?s2 q [q]" using q(1) bytes_step(3) [where s = s1 and d = ?d and p = q and xs = "[q]"] by simp
    have data: "chain_data ?s2 [q] = icmp_error_msg c ty code (take 28 (chain_data s xs))"
      using w(2) c(1) q(3) length_chain_data [of s1 "[q]"] by simp
    have sl: "same_link s ?s2" by (rule same_link_trans [OF a(3) s2(1)])
    have src2: "iph_src ?d (payload b) = src"
    proof -
      have "peek ?d (payload b) (len b) = peek (bytes s1) (payload b) (len b)"
        using w(1) p1 own_packetD(7) [OF p1(2)] ne ty(1) unfolding kept_def by auto
      then show ?thesis using ld32_part [of ?d "payload b" "len b" "bytes s1" 12] b(2) src a(5) by (simp add: iph_src_def)
    qed
    have io2: "ifs_ok ?s2" and rt: "route_of src ?s2 = route_of src s" using same_link_route [OF sl] io by simp_all
    have n2: "route_of src ?s2 \<noteq> NULL \<Longrightarrow> eth_netif (netifs ?s2) (route_of src ?s2) n \<and> nif_mtu n = 1500" using n rt same_linkD(1) [OF sl] by simp
    have pr: "plen (pbufs ?s2) [q] \<le> 1480" "pbufs ?s2 q = Some bq" "q + SIZEOF_STRUCT_PBUF + 34 \<le> payload bq" using q(3,4,6) by (simp_all add: lwip_simps)
    obtain e s3 where e: "ip_output q 0 src ICMP_TTL 0 IP_PROTO_ICMP ?s2 = Some (e, s3)" "link_ok sizes base s3" "ip_same ?s2 s3" "own_packet s3 q [q]" "kept {q} ?s2 s3"
      "if route_of src ?s2 = NULL then e = ERR_RTE \<and> s3 = ?s2
       else datagram_sent (route_of src ?s2) n src (ip_hdr (src_addr n 0) src ICMP_TTL 0 IP_PROTO_ICMP (plen (pbufs ?s2) [q] + 20) (ip_id ?s2) @ chain_data ?s2 [q]) ?s2 e s3"
      using own_output [OF s2(2) io2 o2 pr n2, of 0 ICMP_TTL 0 IP_PROTO_ICMP] by blast
    obtain cc s' where f: "pbuf_free q s3 = Some (cc, s')" "link_ok sizes base s'" "same_link s3 s'" "kept {q} s3 s'" "held_kept s3 s'"
      using own_free [OF e(2,4)] by auto
    have run: "icmp_send_response p ty code s = Some s'"
      using a(1) False q(4,5) p1(1) e(1) f(1) src2 by (simp add: icmp_send_response_def icmp_consts IP_HLEN_def Let_def)
    have "kept (insert q {}) s s'" by (rule kept_trans' [OF kept_trans' [OF kept_trans' [OF a(4) w(1)] e(5)] f(4)]) auto
    then have kp: "kept {} s s'" using kept_fresh q(2) by blast
    have ips: "ip_same s s'" by (rule ip_same_trans [OF ip_same_trans [OF same_link_ip [OF sl] e(3)] same_link_ip [OF f(3)]])
    have idd: "ip_id ?s2 = ip_id s" using ext_same_ip(2) [of s ?s2] sl by (simp add: same_link_def)
    have "icmp_error_post ty code src (take 28 (chain_data s xs)) n s s'"
    proof (cases "route_of src s = NULL")
      case True
      then have "s3 = ?s2" using e(6) rt by simp
      then show ?thesis using True same_linkD(4,5) [OF same_link_trans [OF sl], of s'] f(3) by (simp add: icmp_error_post_def)
    next
      case rn: False
      have "datagram_sent (route_of src s) n src (ip_hdr (nif_ip_addr n) src 255 0 1 56 (ip_id s) @ icmp_error_msg c ty code (take 28 (chain_data s xs))) ?s2 e s3"
        using e(6) rn rt data idd pr(2) q(5) by (simp add: src_addr_def ICMP_TTL_def IP_PROTO_ICMP_def)
      from datagram_sent_step [OF datagram_sent_from [OF this same_linkD(4,5) [OF sl]] f(3,5)] show ?thesis
        unfolding icmp_error_post_def using rn c(2) by blast
    qed
    then show ?thesis using run f(2) ips kp by blast
  qed
qed
section \<open>Properties\<close>

text \<open>
  Claim C10. \<open>icmp_input\<close> on an owned ICMP datagram without IP options always returns, keeps the invariant and touches no other packet.
  A datagram is answered if and only if it is an echo request of at least 8 bytes, to an address that is neither a broadcast nor a
  multicast address, whose ICMP checksum verifies; only a failed allocation prevents the answer. The answer goes to the source: it has the addresses exchanged, time to live 255 and a
  header checksum that verifies, and an ICMP part that differs from the request in the type and the
  checksum only; that checksum verifies unless every byte of the reply is zero.
\<close>

theorem icmp_input_correct:
  fixes s :: ip_state
  assumes "link_ok sizes base s" and "own_packet s p xs" and "eth_netif (netifs s) inp n" and "nif_mtu n = 1500" and "pbufs s p = Some b"
    and "plen (pbufs s) xs \<le> 1500" and "IPH_HL (bytes s) (payload b) = 5" and "20 < len b" and "28 \<le> len b \<or> plen (pbufs s) xs < 28"
  shows "\<exists>s' g v. chain_data s xs = g @ v \<and> length g = 20 \<and> icmp_input p inp s = Some s' \<and> link_ok sizes base s' \<and> kept (set xs) s s'
    \<and> echo_post inp n (iph_src (bytes s) (payload b)) (iph_dest (bytes s) (payload b)) g v s s'
    \<and> (echo_request n (iph_dest (bytes s) (payload b)) v \<longrightarrow> (chksum_of (echo_reply v) = 0 \<longleftrightarrow> (\<exists>x\<in>set (echo_reply v). x \<noteq> 0)))"
proof -
  let ?g = "take 20 (chain_data s xs)" and ?v = "drop 20 (chain_data s xs)"
  obtain s' where s': "icmp_input p inp s = Some s'" "link_ok sizes base s'" "kept (set xs) s s'"
    "echo_post inp n (iph_src (bytes s) (payload b)) (iph_dest (bytes s) (payload b)) ?g ?v s s'"
    using icmp_input_ok [OF assms] by blast
  have "20 < plen (pbufs s) xs" using own_head [OF assms(2)] assms(5,8) by (metis option.inject less_le_trans)
  then have "length ?g = 20" using length_chain_data [of s xs] by simp
  moreover have "echo_request n (iph_dest (bytes s) (payload b)) ?v \<longrightarrow> (chksum_of (echo_reply ?v) = 0 \<longleftrightarrow> (\<exists>x\<in>set (echo_reply ?v). x \<noteq> 0))"
    using echo_reply_chksum [of ?v] by (auto simp: echo_request_def ICMP_ECHO_def)
  ultimately show ?thesis using s' by (intro exI [of _ s'] exI [of _ ?g] exI [of _ ?v]) simp
qed

definition example_ping :: "u8_t list" where
  "example_ping = [0x45, 0, 0, 28, 0, 0, 0, 0, 64, 1, 0, 0, 10, 0, 0, 2, 10, 0, 0, 1, 8, 0, 0xf6, 0xff, 0, 0, 1, 0]"

text \<open>A packet with given bytes in the example state.\<close>

lemma example_own:
  assumes k: "0 < length v" "length v \<le> 1500" and lay: "layer = PBUF_LINK \<or> layer = PBUF_TRANSPORT"
  shows "\<exists>p b (s :: ip_state). link_ok example_sizes 20000 s \<and> same_link example_ip s \<and> own_packet s p [p] \<and> pbufs s p = Some b \<and> len b = length v
    \<and> chain_data s [p] = v \<and> plen (pbufs s) [p] = length v \<and> peek (bytes s) (payload b) (length v) = v \<and> payload b = p + (24 + layer_offset layer)"
proof -
  have "heap_rep (ram_heap example_ip) [(0, MEM_SIZE_ALIGNED, False)]"
    by (simp add: example_ip_def heap_rep_def mem_init_def end_ok_def lwip_simps)
  moreover have "find_fit (request (24 + layer_offset layer + length v)) [(0, MEM_SIZE_ALIGNED, False)] = Some 0" using k lay by (auto simp: lwip_simps request_def)
  moreover have "24 + layer_offset layer + length v < 65536" using k lay by (auto simp: lwip_simps)
  ultimately obtain p and s :: ip_state where s: "link_ok example_sizes 20000 s" "ext_same example_ip s" "arp_table s = arp_table example_ip" "tx s = tx example_ip"
    "packet (pbufs s) p [p]" "owned (pbufs s) [p]" "filled (pbufs s) [p]" "plen (pbufs s) [p] = length v" "pfield (pbufs s) len p = length v" "p \<notin> held s"
    "pfield (pbufs s) payload p = p + (24 + layer_offset layer)" "sole (pbufs s) [p]"
    using example_packet [OF example_ip_ok(1) _ _ k(1)] by (metis (no_types, lifting))
  obtain b where b: "pbufs s p = Some b" "len b = length v" "payload b = p + (24 + layer_offset layer)" using s(5,9,11) by (auto simp: packet_simps split: option.splits)
  let ?s = "s\<lparr>bytes := poke (payload b) v (bytes s)\<rparr>"
  have own: "own_packet s p [p]" using s(5-7,10,12) by (simp add: own_packet_def)
  have sl: "same_link example_ip s" using s(2-4) by (simp add: same_link_def)
  have pk: "peek (bytes ?s) (payload b) (length v) = v" by (simp add: peek_poke_same)
  have "link_ok example_sizes 20000 ?s" "own_packet ?s p [p]" "same_link example_ip ?s"
    using bytes_step(2) [OF s(1)] own bytes_step(3) [where s = s] same_link_trans [OF sl bytes_step(1)] by blast+
  moreover have "chain_data ?s [p] = v" using b pk by (simp add: pbuf_data_peek)
  ultimately show ?thesis using b pk s(8) by (intro exI [of _ p] exI [of _ b] exI [of _ ?s]) simp
qed
lemma example_inp:
  assumes "same_link example_ip s"
  shows "eth_netif (netifs s) 5000 example_netif" and "nif_mtu example_netif = 1500" and "ifs_ok s" and "route_of 0x0200000a s = 5000"
proof -
  have nn: "netifs s = [5000 \<mapsto> example_netif]" "netif_list s = [5000]" "netif_default s = 5000" using same_linkD(1-3) [OF assms] by (simp_all add: example_ip_def)
  show "eth_netif (netifs s) 5000 example_netif" "nif_mtu example_netif = 1500" by (simp_all add: nn eth_netif_def example_netif_def)
  show "ifs_ok s" by (simp add: nn ifs_ok_def)
  show "route_of 0x0200000a s = 5000" by (simp add: route_of_def nn example_netif_def netif_is_up_def NETIF_FLAG_UP_def ip_addr_netcmp_def)
qed

lemma hl_of_byte: "d h = 0x45 \<Longrightarrow> IPH_HL d h = 5"
proof -
  assume "d h = 0x45"
  then have "ntohs (ld16 d h) = ucast (d (h + 1)) OR push_bit 8 (ucast (0x45 :: u8_t))" by (simp only: ntohs_def ld16_def htons_bytes)
  moreover have "drop_bit 8 (ucast x OR push_bit 8 (ucast (0x45 :: u8_t))) = (0x45 :: u16_t)" for x :: u8_t
  proof (rule bit_word_eqI)
    fix n
    assume "n < LENGTH(16)"
    then show "bit (drop_bit 8 (ucast x OR push_bit 8 (ucast (0x45 :: u8_t))) :: u16_t) n \<longleftrightarrow> bit (0x45 :: u16_t) n"
      using bit_imp_le_length [of x "8 + n"] bit_imp_le_length [of "0x45 :: u8_t" n] by (auto simp: bit_simps)
  qed
  ultimately have "IPH_HL d h = 0x45 AND 0x0f" by (simp add: IPH_HL_def)
  then show ?thesis by simp
qed

theorem icmp_input_correct_witness:
  "\<exists>p xs (s :: ip_state) s' g v. chain_data s xs = example_ping \<and> example_ping = g @ v \<and> icmp_input p 5000 s = Some s' \<and> link_ok example_sizes 20000 s'
    \<and> echo_post 5000 example_netif 0x0200000a 0x0100000a g v s s'"
proof -
  have l: "length example_ping = 28" by (simp add: example_ping_def)
  obtain p b and s :: ip_state where s: "link_ok example_sizes 20000 s" "same_link example_ip s" "own_packet s p [p]" "pbufs s p = Some b" "len b = 28"
    "chain_data s [p] = example_ping" "plen (pbufs s) [p] = 28" "peek (bytes s) (payload b) 28 = example_ping"
    using example_own [of example_ping PBUF_LINK] unfolding l by auto
  note e = example_inp [OF s(2)]
  have at: "bytes s (payload b + i) = example_ping ! i" if "i < 28" for i using arg_cong [OF s(8), of "\<lambda>x. x ! i"] that by (simp add: peek_def)
  have "bytes s (payload b) = 0x45" using at [of 0] by (simp add: example_ping_def)
  then have hl: "IPH_HL (bytes s) (payload b) = 5" by (rule hl_of_byte)
  have pt: "peek (bytes s) (payload b + k) 4 = take 4 (drop k example_ping)" if "k + 4 \<le> 28" for k
    using arg_cong [OF s(8), of "\<lambda>x. take 4 (drop k x)"] that by (simp add: drop_peek take_peek)
  have "iph_src (bytes s) (payload b) = 0x0200000a" "iph_dest (bytes s) (payload b) = 0x0100000a"
    unfolding iph_src_def iph_dest_def using pt [of 12] pt [of 16] by (auto intro!: ld32_le32 simp: example_ping_def le32_def)
  with icmp_input_correct [OF s(1,3) e(1,2) s(4) _ hl] s(5,6,7) show ?thesis by fastforce
qed

text \<open>
  Claim C28. The error messages. \<open>icmp_dest_unreach\<close> and \<open>icmp_time_exceeded\<close> leave the offending packet and everything else alone and
  send to its source a message of the given type and code that quotes its first 28 bytes, with an ICMP
  checksum that verifies and the address of the outgoing interface as source; nothing is sent only if there
  is no route or no memory. The quotation is taken from the first pbuf, which must have 28 bytes.
\<close>

theorem icmp_error_correct:
  fixes s :: ip_state
  assumes "link_ok sizes base s" and "ifs_ok s" and "own_packet s p xs" and "pbufs s p = Some b" and "28 \<le> len b"
    and "src = iph_src (bytes s) (payload b)" and "route_of src s \<noteq> NULL \<Longrightarrow> eth_netif (netifs s) (route_of src s) n \<and> nif_mtu n = 1500"
  shows "\<exists>s1 s2. icmp_dest_unreach p t s = Some s1 \<and> link_ok sizes base s1 \<and> kept {} s s1
    \<and> icmp_error_post ICMP_DUR (dur_code t) src (take 28 (chain_data s xs)) n s s1
    \<and> icmp_time_exceeded p u s = Some s2 \<and> link_ok sizes base s2 \<and> kept {} s s2
    \<and> icmp_error_post ICMP_TE (te_code u) src (take 28 (chain_data s xs)) n s s2"
  using icmp_send_response_ok [OF assms(1-5,7,6), of ICMP_DUR "dur_code t"] icmp_send_response_ok [OF assms(1-5,7,6), of ICMP_TE "te_code u"]
  unfolding icmp_dest_unreach_def icmp_time_exceeded_def by blast

theorem icmp_error_correct_witness:
  "\<exists>p (s :: ip_state) s'. icmp_dest_unreach p ICMP_DUR_PORT s = Some s' \<and> link_ok example_sizes 20000 s'
    \<and> icmp_error_post ICMP_DUR 3 0x0200000a example_ping example_netif s s'"
proof -
  have l: "length example_ping = 28" by (simp add: example_ping_def)
  obtain p b and s :: ip_state where s: "link_ok example_sizes 20000 s" "same_link example_ip s" "own_packet s p [p]" "pbufs s p = Some b" "len b = 28"
    "chain_data s [p] = example_ping" "peek (bytes s) (payload b) 28 = example_ping"
    using example_own [of example_ping PBUF_LINK] unfolding l by auto
  note e = example_inp [OF s(2)]
  have "take 4 (drop 12 (peek (bytes s) (payload b) 28)) = peek (bytes s) (payload b + 12) 4" by (simp add: drop_peek take_peek)
  moreover have "le32 0x0200000a = [10, 0, 0, 2]" by (simp add: le32_def)
  ultimately have "peek (bytes s) (payload b + 12) 4 = le32 0x0200000a" unfolding s(7) by (simp add: example_ping_def)
  then have src: "0x0200000a = iph_src (bytes s) (payload b)" unfolding iph_src_def using ld32_le32 by metis
  with icmp_error_correct [OF s(1) e(3) s(3,4) _ src, of example_netif ICMP_DUR_PORT] e s(5,6) l show ?thesis by fastforce
qed

text \<open>
  Claim C34. The increment of the checksum of an echo reply is off by one: for the request whose only non-zero fields are the type and the
  checksum \<open>0xf7ff\<close>, which verifies, the comparison with \<open>>=\<close> adds the end-around carry one too early. The
  reply is eight zero bytes, and its checksum does not verify.
\<close>

theorem icmp_echo_zero_reply:
  "\<exists>d. peek d 20 8 = [8, 0, 0xf7, 0xff, 0, 0, 0, 0] \<and> inet_chksum d 20 8 = 0 \<and> peek (icmp_echo_bytes 20 0 d) 20 8 = [0, 0, 0, 0, 0, 0, 0, 0]
     \<and> inet_chksum (icmp_echo_bytes 20 0 d) 20 8 = 0xffff"
proof -
  let ?v = "[8, 0, 0xf7, 0xff, 0, 0, 0, 0] :: u8_t list"
  let ?d = "poke 20 ?v (\<lambda>_. 0)"
  have v: "peek ?d 20 8 = ?v" by (rule peek_poke_at) simp_all
  have er: "echo_reply ?v = [0, 0, 0, 0, 0, 0, 0, 0]" by (simp add: echo_reply_def echo_chksum_def le16_def)
  obtain c where c: "peek (icmp_echo_bytes 20 0 ?d) 0 28 = echo_ip_hdr c (peek ?d 0 20) @ [0, 0, 0, 0, 0, 0, 0, 0]"
    using icmp_echo_bytes_frame(1) [of 20 0 ?d] unfolding v er by auto
  have "length (echo_ip_hdr c (peek ?d 0 20)) = 20" by (simp add: echo_ip_hdr_def le16_def)
  then have z: "peek (icmp_echo_bytes 20 0 ?d) 20 8 = [0, 0, 0, 0, 0, 0, 0, 0]" using arg_cong [OF c, of "drop 20"] by (simp add: drop_peek)
  have "chksum_of ?v = 0" unfolding chksum_of_zero by (simp add: ones_rep_def)
  moreover have "chksum_of ([0, 0, 0, 0, 0, 0, 0, 0]) = 0xffff" by (simp add: chksum_of_def ones_rep_def)
  ultimately show ?thesis using v z inet_chksum_peek [of 8 ?d 20] inet_chksum_peek [of 8 "icmp_echo_bytes 20 0 ?d" 20] by (intro exI [of _ ?d]) simp
qed
end
