(* ===== verification/Udp.thy ===== *)
theory Udp
  imports Icmp "HOL-Library.Multiset"
begin

text \<open>
  \<^verbatim>\<open>lwip/src/core/udp.c\<close>: the control blocks of UDP, their demultiplexing and the sending of datagrams. \<open>LWIP_UDP_TODO\<close>, \<open>LWIP_UDPLITE\<close>,
  \<open>LWIP_DHCP\<close> and \<open>LWIP_IGMP\<close> are off in this build.

  State. \<open>udp_tab\<close> holds the control blocks at their addresses, \<open>udp_pcbs\<close> is the list that the field \<open>next\<close> of the blocks
  threads, as the list of their addresses. A receive callback is the address of a function; what the function does is
  an argument of \<open>udp_input\<close>, which gets the callback, its argument, the control block, the packet, the
  sender's address and port.
\<close>

section \<open>State\<close>

record udp_pcb =
  local_ip :: u32_t
  remote_ip :: u32_t
  so_options :: u16_t
  pcb_tos :: u8_t
  pcb_ttl :: u8_t
  udp_flags :: u8_t
  local_port :: u16_t
  remote_port :: u16_t
  recv :: addr
  recv_arg :: addr

record udp_state = ip_state +
  udp_tab :: "addr \<rightharpoonup> udp_pcb"
  udp_pcbs :: "addr list"

definition UDP_HLEN :: nat where "UDP_HLEN = 8"
definition UDP_TTL :: u8_t where "UDP_TTL = 255"
definition UDP_FLAGS_NOCHKSUM :: u8_t where "UDP_FLAGS_NOCHKSUM = 0x01"
definition UDP_FLAGS_CONNECTED :: u8_t where "UDP_FLAGS_CONNECTED = 0x04"
definition UDP_LOCAL_PORT_RANGE_START :: u16_t where "UDP_LOCAL_PORT_RANGE_START = 4096"
definition UDP_LOCAL_PORT_RANGE_END :: u16_t where "UDP_LOCAL_PORT_RANGE_END = 0x7fff"

type_synonym 'a udp_recv_fn = "addr \<Rightarrow> addr \<Rightarrow> addr \<Rightarrow> addr \<Rightarrow> u32_t \<Rightarrow> u16_t \<Rightarrow> 'a udp_state_scheme \<Rightarrow> 'a udp_state_scheme option"

definition mod_udp :: "addr \<Rightarrow> (udp_pcb \<Rightarrow> udp_pcb) \<Rightarrow> 'a udp_state_scheme \<Rightarrow> 'a udp_state_scheme option" where
  "mod_udp pcb f s = do { u \<leftarrow> udp_tab s pcb; Some (s\<lparr>udp_tab := (udp_tab s)(pcb \<mapsto> f u)\<rparr>) }"

section \<open>Control blocks\<close>

definition udp_new :: "'a udp_state_scheme \<Rightarrow> (addr \<times> 'a udp_state_scheme) option" where
  "udp_new s = do {
     (pcb, m) \<leftarrow> memp_malloc (memp s) MEMP_UDP_PCB;
     let s = s\<lparr>memp := m\<rparr>;
     if pcb \<noteq> NULL then
       Some (pcb, s\<lparr>udp_tab := (udp_tab s)(pcb \<mapsto> \<lparr>local_ip = 0, remote_ip = 0, so_options = 0, pcb_tos = 0, pcb_ttl = UDP_TTL,
         udp_flags = 0, local_port = 0, remote_port = 0, recv = NULL, recv_arg = NULL\<rparr>)\<rparr>)
     else Some (pcb, s)
   }"

fun udp_unlink :: "addr \<Rightarrow> addr list \<Rightarrow> addr list" where
  "udp_unlink pcb [] = []"
| "udp_unlink pcb (pcb2 # ps) = (if pcb2 = pcb then ps else pcb2 # udp_unlink pcb ps)"

definition udp_remove :: "addr \<Rightarrow> 'a udp_state_scheme \<Rightarrow> 'a udp_state_scheme option" where
  "udp_remove pcb s = do {
     let s = s\<lparr>udp_pcbs := udp_unlink pcb (udp_pcbs s)\<rparr>;
     s \<leftarrow> memp_release MEMP_UDP_PCB pcb s;
     Some (s\<lparr>udp_tab := (udp_tab s)(pcb := None)\<rparr>)
   }"

definition udp_recv :: "addr \<Rightarrow> addr \<Rightarrow> addr \<Rightarrow> 'a udp_state_scheme \<Rightarrow> 'a udp_state_scheme option" where
  "udp_recv pcb rcv arg s = mod_udp pcb (\<lambda>u. u\<lparr>recv := rcv, recv_arg := arg\<rparr>) s"

definition udp_disconnect :: "addr \<Rightarrow> 'a udp_state_scheme \<Rightarrow> 'a udp_state_scheme option" where
  "udp_disconnect pcb s =
     mod_udp pcb (\<lambda>u. u\<lparr>remote_ip := 0, remote_port := 0, udp_flags := udp_flags u AND NOT UDP_FLAGS_CONNECTED\<rparr>) s"

section \<open>Binding\<close>

fun udp_rebind :: "addr \<Rightarrow> addr list \<Rightarrow> bool \<Rightarrow> bool option" where
  "udp_rebind pcb [] rebind = Some rebind"
| "udp_rebind pcb (ipcb # ps) rebind =
     (if pcb = ipcb then do { lwip_assert (\<not> rebind); udp_rebind pcb ps True } else udp_rebind pcb ps rebind)"

lemma unat_pred_less: "x \<noteq> 0 \<Longrightarrow> unat (x - 1) < unat x" for x :: u16_t
proof -
  assume "x \<noteq> 0"
  then have x: "0 < unat x" by (simp add: unat_gt_0)
  then have "1 \<le> x" by (simp add: word_le_nat_alt)
  then show ?thesis using x by (simp add: unat_sub)
qed

text \<open>The search for a free port: the port and the rest of the list when it stops.\<close>

function udp_find_port :: "'a udp_state_scheme \<Rightarrow> addr list \<Rightarrow> u16_t \<Rightarrow> (u16_t \<times> addr list) option" where
  "udp_find_port s [] port = Some (port, [])"
| "udp_find_port s (ipcb # ps) port =
     (if port = UDP_LOCAL_PORT_RANGE_END then Some (port, ipcb # ps)
      else do {
        u \<leftarrow> udp_tab s ipcb;
        if local_port u = port then udp_find_port s (udp_pcbs s) (port + 1) else udp_find_port s ps port
      })"
  by pat_completeness auto

termination
proof (relation "measures [\<lambda>(s, ps, port). unat (UDP_LOCAL_PORT_RANGE_END - port), \<lambda>(s, ps, port). length ps]")
  show "((s, udp_pcbs s, port + 1), s, ipcb # ps, port)
      \<in> measures [\<lambda>(s, ps, port). unat (UDP_LOCAL_PORT_RANGE_END - port), \<lambda>(s, ps, port). length ps]"
    if "port \<noteq> UDP_LOCAL_PORT_RANGE_END" for s :: "'a udp_state_scheme" and ipcb ps and port :: u16_t
  proof -
    have "UDP_LOCAL_PORT_RANGE_END - port \<noteq> 0" using that by simp
    then have "unat (UDP_LOCAL_PORT_RANGE_END - port - 1) < unat (UDP_LOCAL_PORT_RANGE_END - port)" by (rule unat_pred_less)
    then show ?thesis by (simp add: diff_diff_eq)
  qed
qed auto

definition udp_bind :: "addr \<Rightarrow> u32_t \<Rightarrow> u16_t \<Rightarrow> 'a udp_state_scheme \<Rightarrow> (err_t \<times> 'a udp_state_scheme) option" where
  "udp_bind pcb ipaddr port s = do {
     rebind \<leftarrow> udp_rebind pcb (udp_pcbs s) False;
     s \<leftarrow> mod_udp pcb (\<lambda>u. u\<lparr>local_ip := ipaddr\<rparr>) s;
     (port, rest) \<leftarrow> (if port = 0 then udp_find_port s (udp_pcbs s) UDP_LOCAL_PORT_RANGE_START else Some (port, []));
     if rest \<noteq> [] then Some (ERR_USE, s)
     else do {
       s \<leftarrow> mod_udp pcb (\<lambda>u. u\<lparr>local_port := port\<rparr>) s;
       Some (ERR_OK, if \<not> rebind then s\<lparr>udp_pcbs := pcb # udp_pcbs s\<rparr> else s)
     }
   }"

definition udp_connect :: "addr \<Rightarrow> u32_t \<Rightarrow> u16_t \<Rightarrow> 'a udp_state_scheme \<Rightarrow> (err_t \<times> 'a udp_state_scheme) option" where
  "udp_connect pcb ipaddr port s = do {
     u \<leftarrow> udp_tab s pcb;
     (err, s) \<leftarrow> (if local_port u = 0 then udp_bind pcb (local_ip u) (local_port u) s else Some (ERR_OK, s));
     if err \<noteq> ERR_OK then Some (err, s)
     else do {
       s \<leftarrow> mod_udp pcb (\<lambda>u. u\<lparr>remote_ip := ipaddr, remote_port := port, udp_flags := udp_flags u OR UDP_FLAGS_CONNECTED\<rparr>) s;
       if pcb \<in> set (udp_pcbs s) then Some (ERR_OK, s) else Some (ERR_OK, s\<lparr>udp_pcbs := pcb # udp_pcbs s\<rparr>)
     }
   }"

section \<open>Input\<close>

text \<open>The loop of \<open>udp_input\<close> over the control blocks: the full match it stopped at, its predecessor and the first unconnected match.\<close>

fun udp_scan :: "u16_t \<Rightarrow> u16_t \<Rightarrow> u32_t \<Rightarrow> u32_t \<Rightarrow> bool \<Rightarrow> addr list \<Rightarrow> addr \<Rightarrow> addr \<Rightarrow> 'a udp_state_scheme \<Rightarrow> (addr \<times> addr \<times> addr) option" where
  "udp_scan src dest ipsrc ipdest broadcast [] prev uncon_pcb s = Some (NULL, prev, uncon_pcb)"
| "udp_scan src dest ipsrc ipdest broadcast (pcb # ps) prev uncon_pcb s = do {
     u \<leftarrow> udp_tab s pcb;
     let local_match = (local_port u = dest \<and> (\<not> broadcast \<and> ip_addr_isany (local_ip u) \<or> local_ip u = ipdest \<or> broadcast));
     let uncon_pcb = (if local_match \<and> uncon_pcb = NULL \<and> udp_flags u AND UDP_FLAGS_CONNECTED = 0 then pcb else uncon_pcb);
     if local_match \<and> remote_port u = src \<and> (ip_addr_isany (remote_ip u) \<or> remote_ip u = ipsrc) then Some (pcb, prev, uncon_pcb)
     else udp_scan src dest ipsrc ipdest broadcast ps pcb uncon_pcb s
   }"

definition udp_demux :: "u16_t \<Rightarrow> u16_t \<Rightarrow> u32_t \<Rightarrow> u32_t \<Rightarrow> bool \<Rightarrow> 'a udp_state_scheme \<Rightarrow> (addr \<times> 'a udp_state_scheme) option" where
  "udp_demux src dest ipsrc ipdest broadcast s = do {
     (pcb, prev, uncon_pcb) \<leftarrow> udp_scan src dest ipsrc ipdest broadcast (udp_pcbs s) NULL NULL s;
     if pcb = NULL then Some (uncon_pcb, s)
     else if prev \<noteq> NULL then Some (pcb, s\<lparr>udp_pcbs := pcb # udp_unlink pcb (udp_pcbs s)\<rparr>)
     else Some (pcb, s)
   }"

definition udp_drop :: "addr \<Rightarrow> 'a net_state_scheme \<Rightarrow> 'a net_state_scheme option" where
  "udp_drop p s = do { (c, s) \<leftarrow> pbuf_free p s; Some s }"

definition udp_input :: "'a udp_recv_fn \<Rightarrow> addr \<Rightarrow> addr \<Rightarrow> 'a udp_state_scheme \<Rightarrow> 'a udp_state_scheme option" where
  "udp_input callback p inp s = do {
     b \<leftarrow> pbufs s p;
     let iphdr = payload b;
     let hlen = unat (IPH_HL (bytes s) iphdr) * 4;
     if tot_len b < hlen + UDP_HLEN then udp_drop p s
     else do {
       (failed, s) \<leftarrow> pbuf_header p (- int hlen) s;
       if failed then udp_drop p s
       else do {
         b \<leftarrow> pbufs s p;
         let udphdr = payload b;
         n \<leftarrow> netifs s inp;
         let ipsrc = iph_src (bytes s) iphdr;
         let ipdest = iph_dest (bytes s) iphdr;
         let broadcast = ip_addr_isbroadcast ipdest n;
         let src = ntohs (ld16 (bytes s) udphdr);
         let dest = ntohs (ld16 (bytes s) (udphdr + 2));
         (pcb, s) \<leftarrow> udp_demux src dest ipsrc ipdest broadcast s;
         if pcb \<noteq> NULL \<or> nif_ip_addr n = ipdest then do {
           chk \<leftarrow> (if ld16 (bytes s) (udphdr + 6) \<noteq> 0
                   then inet_chksum_pseudo p ipsrc ipdest IP_PROTO_UDP (of_nat (tot_len b)) s else Some 0);
           if chk \<noteq> 0 then udp_drop p s
           else do {
             (failed, s) \<leftarrow> pbuf_header p (- int UDP_HLEN) s;
             lwip_assert (\<not> failed);
             if pcb \<noteq> NULL then do {
               u \<leftarrow> udp_tab s pcb;
               if recv u \<noteq> NULL then callback (recv u) (recv_arg u) pcb p ipsrc src s else udp_drop p s
             }
             else do {
               s \<leftarrow> (if \<not> broadcast \<and> \<not> ip_addr_ismulticast ipdest then do {
                       (failed, s) \<leftarrow> pbuf_header p (int (unat (IPH_HL (bytes s) iphdr) * 4 + UDP_HLEN)) s;
                       b \<leftarrow> pbufs s p;
                       lwip_assert (payload b = iphdr);
                       icmp_dest_unreach p ICMP_DUR_PORT s
                     } else Some s);
               udp_drop p s
             }
           }
         }
         else udp_drop p s
       }
     }
   }"

section \<open>Output\<close>

text \<open>The UDP header at \<open>udphdr\<close>, up to the checksum.\<close>

definition udp_header_bytes :: "addr \<Rightarrow> u16_t \<Rightarrow> u16_t \<Rightarrow> (addr \<Rightarrow> u8_t) \<Rightarrow> (addr \<Rightarrow> u8_t)" where
  "udp_header_bytes udphdr src dest d =
     (let d = poke udphdr (le16 (htons src)) d;
          d = poke (udphdr + 2) (le16 (htons dest)) d
      in poke (udphdr + 6) (le16 0) d)"

definition udp_sendto_if :: "addr \<Rightarrow> addr \<Rightarrow> u32_t \<Rightarrow> u16_t \<Rightarrow> addr \<Rightarrow> 'a udp_state_scheme \<Rightarrow> (err_t \<times> 'a udp_state_scheme) option" where
  "udp_sendto_if pcb p dst_ip dst_port netif s = do {
     u \<leftarrow> udp_tab s pcb;
     (err, s) \<leftarrow> (if local_port u = 0 then udp_bind pcb (local_ip u) (local_port u) s else Some (ERR_OK, s));
     if err \<noteq> ERR_OK then Some (err, s)
     else do {
       (failed, s) \<leftarrow> pbuf_header p (int UDP_HLEN) s;
       (q, s) \<leftarrow> (if failed then do {
           (q, s) \<leftarrow> pbuf_alloc PBUF_IP UDP_HLEN PBUF_RAM s;
           if q = NULL then Some (NULL, s) else do { s \<leftarrow> pbuf_chain q p s; Some (q, s) }
         } else Some (p, s));
       if q = NULL then Some (ERR_MEM, s)
       else do {
         bq \<leftarrow> pbufs s q;
         lwip_assert (UDP_HLEN \<le> len bq);
         let udphdr = payload bq;
         u \<leftarrow> udp_tab s pcb;
         n \<leftarrow> netifs s netif;
         let s = s\<lparr>bytes := udp_header_bytes udphdr (local_port u) dst_port (bytes s)\<rparr>;
         if \<not> ip_addr_isany (local_ip u) \<and> local_ip u \<noteq> nif_ip_addr n then
           (if q \<noteq> p then do { (c, s) \<leftarrow> pbuf_free q s; Some (ERR_VAL, s) } else Some (ERR_VAL, s))
         else do {
           let src_ip = (if ip_addr_isany (local_ip u) then nif_ip_addr n else local_ip u);
           let s = s\<lparr>bytes := poke (udphdr + 4) (le16 (htons (of_nat (tot_len bq)))) (bytes s)\<rparr>;
           s \<leftarrow> (if udp_flags u AND UDP_FLAGS_NOCHKSUM = 0 then do {
                   chk \<leftarrow> inet_chksum_pseudo q src_ip dst_ip IP_PROTO_UDP (of_nat (tot_len bq)) s;
                   Some (s\<lparr>bytes := poke (udphdr + 6) (le16 (if chk = 0 then 0xffff else chk)) (bytes s)\<rparr>)
                 } else Some s);
           (err, s) \<leftarrow> ip_output_if q src_ip (Some dst_ip) (pcb_ttl u) (pcb_tos u) IP_PROTO_UDP netif s;
           if q \<noteq> p then do { (c, s) \<leftarrow> pbuf_free q s; Some (err, s) } else Some (err, s)
         }
       }
     }
   }"

definition udp_sendto :: "addr \<Rightarrow> addr \<Rightarrow> u32_t \<Rightarrow> u16_t \<Rightarrow> 'a udp_state_scheme \<Rightarrow> (err_t \<times> 'a udp_state_scheme) option" where
  "udp_sendto pcb p dst_ip dst_port s = do {
     netif \<leftarrow> ip_route dst_ip s;
     if netif = NULL then Some (ERR_RTE, s) else udp_sendto_if pcb p dst_ip dst_port netif s
   }"

definition udp_send :: "addr \<Rightarrow> addr \<Rightarrow> 'a udp_state_scheme \<Rightarrow> (err_t \<times> 'a udp_state_scheme) option" where
  "udp_send pcb p s = do { u \<leftarrow> udp_tab s pcb; udp_sendto pcb p (remote_ip u) (remote_port u) s }"
section \<open>The invariant of the control blocks\<close>

text \<open>The listed control blocks are distinct and live, and the live elements of the pool are exactly the control blocks.\<close>

definition udp_ok :: "(memp_t \<Rightarrow> nat) \<Rightarrow> addr \<Rightarrow> 'a udp_state_scheme \<Rightarrow> bool" where
  "udp_ok sizes base s \<longleftrightarrow> link_ok sizes base s \<and> distinct (udp_pcbs s) \<and> NULL \<notin> set (udp_pcbs s) \<and> set (udp_pcbs s) \<subseteq> dom (udp_tab s)
     \<and> (\<forall>p. udp_tab s p \<noteq> None \<longleftrightarrow> memp_live sizes base (memp s) p = Some MEMP_UDP_PCB)"

text \<open>The part of it that input relies on.\<close>

definition udp_wf :: "(memp_t \<Rightarrow> nat) \<Rightarrow> addr \<Rightarrow> 'a udp_state_scheme \<Rightarrow> bool" where
  "udp_wf sizes base s \<longleftrightarrow> link_ok sizes base s \<and> NULL \<notin> set (udp_pcbs s) \<and> set (udp_pcbs s) \<subseteq> dom (udp_tab s)"

lemma udp_ok_wf: "udp_ok sizes base s \<Longrightarrow> udp_wf sizes base s"
  by (simp add: udp_ok_def udp_wf_def)

definition port_of :: "'a udp_state_scheme \<Rightarrow> addr \<Rightarrow> u16_t" where
  "port_of s p = local_port (the (udp_tab s p))"

lemmas udp_consts = UDP_HLEN_def UDP_TTL_def UDP_FLAGS_NOCHKSUM_def UDP_FLAGS_CONNECTED_def UDP_LOCAL_PORT_RANGE_START_def UDP_LOCAL_PORT_RANGE_END_def

lemma mod_udp_Some: "udp_tab s p = Some u \<Longrightarrow> mod_udp p f s = Some (s\<lparr>udp_tab := (udp_tab s)(p \<mapsto> f u)\<rparr>)"
  by (simp add: mod_udp_def)

lemma link_ok_udp [simp]:
  fixes s :: "'a udp_state_scheme"
  shows "link_ok sizes base (s\<lparr>udp_tab := T\<rparr>) = link_ok sizes base s" and "link_ok sizes base (s\<lparr>udp_pcbs := L\<rparr>) = link_ok sizes base s"
  by (simp_all add: link_ok_def net_ok_def arp_ok_def queue_elem_def)

lemma udp_ok_live:
  assumes "udp_ok sizes base s"
  shows "length (udp_pcbs s) \<le> memp_num MEMP_UDP_PCB"
proof (rule slots_length)
  have ok: "memp_ok sizes base (memp s)" using assms net_okD(2) by (auto simp: udp_ok_def link_ok_def)
  show "distinct (udp_pcbs s)" using assms by (simp add: udp_ok_def)
  have "(p, MEMP_UDP_PCB) \<in> set (memp_slots sizes base)" if "p \<in> set (udp_pcbs s)" for p
  proof -
    have "udp_tab s p \<noteq> None" using assms that by (auto simp: udp_ok_def)
    then have "memp_live sizes base (memp s) p = Some MEMP_UDP_PCB" using assms unfolding udp_ok_def by blast
    then show ?thesis using memp_live_iff [OF ok] by blast
  qed
  then show "list_all (\<lambda>p. (p, MEMP_UDP_PCB) \<in> set (memp_slots sizes base)) (udp_pcbs s)" by (simp add: list_all_iff)
qed

section \<open>The search for a free port\<close>

lemma udp_find_port_spec:
  assumes "\<forall>p\<in>set (udp_pcbs s). udp_tab s p \<noteq> None" and "udp_pcbs s = zs @ ps" and "\<forall>z\<in>set zs. port_of s z \<noteq> port"
    and "UDP_LOCAL_PORT_RANGE_START \<le> port" and "port \<le> UDP_LOCAL_PORT_RANGE_END" and "port = UDP_LOCAL_PORT_RANGE_END \<Longrightarrow> ps \<noteq> []"
    and "\<forall>q. UDP_LOCAL_PORT_RANGE_START \<le> q \<and> q < port \<longrightarrow> q \<in> port_of s ` set (udp_pcbs s)"
  shows "\<exists>port' rest. udp_find_port s ps port = Some (port', rest) \<and> UDP_LOCAL_PORT_RANGE_START \<le> port' \<and> port' \<le> UDP_LOCAL_PORT_RANGE_END
    \<and> (rest = [] \<longleftrightarrow> port' \<noteq> UDP_LOCAL_PORT_RANGE_END) \<and> (rest = [] \<longrightarrow> port' \<notin> port_of s ` set (udp_pcbs s))
    \<and> (\<forall>q. UDP_LOCAL_PORT_RANGE_START \<le> q \<and> q < port' \<longrightarrow> q \<in> port_of s ` set (udp_pcbs s))"
  using assms
proof (induction s ps port arbitrary: zs rule: udp_find_port.induct)
  case (1 s port)
  then show ?case by auto
next
  case (2 s ipcb ps port)
  show ?case
  proof (cases "port = UDP_LOCAL_PORT_RANGE_END")
    case True
    then show ?thesis using 2(6-9) by auto
  next
    case False
    obtain u where u: "udp_tab s ipcb = Some u" using 2(3,4) by auto
    show ?thesis
    proof (cases "local_port u = port")
      case True
      have le: "port < UDP_LOCAL_PORT_RANGE_END" using False 2(7) by simp
      have s1: "q < port + 1 \<longleftrightarrow> q < port \<or> q = port" for q
      proof -
        have "unat port < 32767" using le by (simp add: UDP_LOCAL_PORT_RANGE_END_def word_less_nat_alt)
        then have "unat (port + 1) = unat port + 1" by (simp add: unat_word_ariths)
        then show ?thesis by (auto simp: word_less_nat_alt word_unat_eq_iff)
      qed
      have used: "port \<in> port_of s ` set (udp_pcbs s)" using True u 2(4) by (auto simp: port_of_def)
      have "port + 1 \<le> UDP_LOCAL_PORT_RANGE_END" using le s1 [of UDP_LOCAL_PORT_RANGE_END] by (auto simp: not_less [symmetric])
      moreover have "UDP_LOCAL_PORT_RANGE_START \<le> port + 1" using 2(6) s1 [of UDP_LOCAL_PORT_RANGE_START] by (auto simp: not_less [symmetric])
      moreover have "udp_pcbs s \<noteq> []" using 2(4) by simp
      moreover have "\<forall>q. UDP_LOCAL_PORT_RANGE_START \<le> q \<and> q < port + 1 \<longrightarrow> q \<in> port_of s ` set (udp_pcbs s)" using s1 used 2(9) by auto
      ultimately show ?thesis
        using 2(1) [OF False u True, of "[]"] 2(3) False u True by simp
    next
      case ne: False
      then have "\<forall>z\<in>set (zs @ [ipcb]). port_of s z \<noteq> port" using 2(5) u by (auto simp: port_of_def)
      then show ?thesis using 2(2) [OF False u ne 2(3), of "zs @ [ipcb]"] 2(4,6-9) False u ne by simp
    qed
  qed
qed

text \<open>Every port of the range is in use only if there are as many control blocks.\<close>

lemma ports_pigeonhole:
  assumes "\<forall>q. UDP_LOCAL_PORT_RANGE_START \<le> q \<and> q < UDP_LOCAL_PORT_RANGE_END \<longrightarrow> q \<in> f ` set ps"
  shows "28671 \<le> length ps"
proof -
  let ?N = "{4096..<32767 :: nat}"
  have inj: "inj_on (of_nat :: nat \<Rightarrow> u16_t) ?N" 
  proof (rule inj_onI)
    fix a b
    assume ab: "a \<in> ?N" "b \<in> ?N" "(of_nat a :: u16_t) = of_nat b"
    have "unat (of_nat k :: u16_t) = k" if "k \<in> ?N" for k using that by (simp add: unat_of_nat)
    then show "a = b" using ab by metis
  qed
  have "(of_nat :: nat \<Rightarrow> u16_t) ` ?N \<subseteq> f ` set ps"
  proof
    fix q :: u16_t
    assume "q \<in> of_nat ` ?N"
    then obtain k where k: "q = of_nat k" "4096 \<le> k" "k < 32767" by auto
    then have "unat q = k" by (simp add: unat_of_nat)
    then show "q \<in> f ` set ps" using assms k by (simp add: udp_consts word_le_nat_alt word_less_nat_alt)
  qed
  then have "card (of_nat ` ?N :: u16_t set) \<le> card (f ` set ps)" by (intro card_mono) simp_all
  also have "\<dots> \<le> card (set ps)" by (rule card_image_le) simp
  also have "\<dots> \<le> length ps" by (rule card_length)
  finally show ?thesis using card_image [OF inj] by simp
qed
section \<open>Operations on control blocks\<close>

lemma udp_tab_NULL:
  assumes "udp_ok sizes base s"
  shows "udp_tab s NULL = None"
proof (rule ccontr)
  assume "udp_tab s NULL \<noteq> None"
  then have l: "memp_live sizes base (memp s) NULL = Some MEMP_UDP_PCB" using assms unfolding udp_ok_def by blast
  have ok: "memp_ok sizes base (memp s)" using assms net_okD(2) by (auto simp: udp_ok_def link_ok_def)
  then have "(NULL, MEMP_UDP_PCB) \<in> set (memp_slots sizes base)" using l memp_live_iff by blast
  then have "base \<le> NULL" by (rule memp_slot_bounds(1))
  then show False using ok by (simp add: memp_ok_def)
qed

lemma link_ok_memp:
  assumes "link_ok sizes base s" and "net_ok sizes base (s\<lparr>memp := m\<rparr>)"
    and "\<And>r. memp_live sizes base (memp s) r = Some MEMP_ARP_QUEUE \<Longrightarrow> memp_live sizes base m r = Some MEMP_ARP_QUEUE"
  shows "link_ok sizes base (s\<lparr>memp := m\<rparr>)"
  using assms by (auto simp: link_ok_def arp_ok_def list_all_iff queue_elem_def)

definition udp_fresh :: udp_pcb where
  "udp_fresh = \<lparr>local_ip = 0, remote_ip = 0, so_options = 0, pcb_tos = 0, pcb_ttl = 255, udp_flags = 0, local_port = 0, remote_port = 0, recv = NULL, recv_arg = NULL\<rparr>"

lemma udp_new_ok:
  assumes ok: "udp_ok sizes base s"
  shows "\<exists>p s'. udp_new s = Some (p, s') \<and> udp_ok sizes base s' \<and> udp_pcbs s' = udp_pcbs s
    \<and> (if p = NULL then s' = s else udp_tab s p = None \<and> udp_tab s' = (udp_tab s)(p \<mapsto> udp_fresh))"
proof -
  have lk: "link_ok sizes base s" and net: "net_ok sizes base s" using ok by (simp_all add: udp_ok_def link_ok_def)
  obtain p m where m: "memp_malloc (memp s) MEMP_UDP_PCB = Some (p, m)" "net_ok sizes base (s\<lparr>memp := m\<rparr>)"
    "if p = NULL then m = memp s else memp_live sizes base (memp s) p = None \<and> memp_live sizes base m = (memp_live sizes base (memp s))(p \<mapsto> MEMP_UDP_PCB)"
    using memp_take_ok [OF net, of MEMP_UDP_PCB] by auto
  show ?thesis
  proof (cases "p = NULL")
    case True
    then show ?thesis using m ok by (simp add: udp_new_def)
  next
    case False
    then have p: "memp_live sizes base (memp s) p = None" "memp_live sizes base m = (memp_live sizes base (memp s))(p \<mapsto> MEMP_UDP_PCB)" using m(3) by simp_all
    let ?s = "s\<lparr>memp := m, udp_tab := (udp_tab s)(p \<mapsto> udp_fresh)\<rparr>"
    have run: "udp_new s = Some (p, ?s)" using m(1) False by (simp add: udp_new_def udp_fresh_def UDP_TTL_def)
    have "link_ok sizes base (s\<lparr>memp := m\<rparr>)" by (rule link_ok_memp [OF lk m(2)]) (use p in auto)
    then have "link_ok sizes base ?s" by simp
    moreover have "udp_tab s p = None" using ok p(1) unfolding udp_ok_def by (metis option.distinct(1))
    ultimately show ?thesis using run False ok p by (intro exI [of _ p] exI [of _ ?s]) (auto simp: udp_ok_def)
  qed
qed

lemma udp_unlink_distinct: "distinct ps \<Longrightarrow> distinct (udp_unlink p ps) \<and> set (udp_unlink p ps) = set ps - {p}"
  by (induction ps) auto

lemma udp_remove_ok:
  assumes ok: "udp_ok sizes base s" and u: "udp_tab s p = Some u"
  shows "\<exists>s'. udp_remove p s = Some s' \<and> udp_ok sizes base s' \<and> udp_tab s' = (udp_tab s)(p := None) \<and> udp_pcbs s' = udp_unlink p (udp_pcbs s)"
proof -
  let ?t = "s\<lparr>udp_pcbs := udp_unlink p (udp_pcbs s)\<rparr>"
  have lk: "link_ok sizes base ?t" and net: "net_ok sizes base ?t" using ok by (simp_all add: udp_ok_def) (simp add: link_ok_def net_ok_def)
  have lv: "memp_live sizes base (memp ?t) p = Some MEMP_UDP_PCB" using ok u unfolding udp_ok_def by auto
  obtain m where m: "memp_release MEMP_UDP_PCB p ?t = Some (?t\<lparr>memp := m\<rparr>)" "net_ok sizes base (?t\<lparr>memp := m\<rparr>)"
    "memp_live sizes base m = (memp_live sizes base (memp ?t))(p := None)"
    using memp_release_ok [OF net lv] by auto
  let ?s = "s\<lparr>udp_pcbs := udp_unlink p (udp_pcbs s), memp := m, udp_tab := (udp_tab s)(p := None)\<rparr>"
  have "link_ok sizes base (?t\<lparr>memp := m\<rparr>)" by (rule link_ok_memp [OF lk m(2)]) (use m(3) lv in auto)
  then have "link_ok sizes base ?s" by simp
  then have "udp_ok sizes base ?s"
    using ok m(3) udp_unlink_distinct [of "udp_pcbs s" p] by (auto simp: udp_ok_def)
  then show ?thesis using m(1) by (intro exI [of _ ?s]) (simp add: udp_remove_def)
qed

lemma udp_rebind_distinct: "distinct ps \<Longrightarrow> (r \<Longrightarrow> p \<notin> set ps) \<Longrightarrow> udp_rebind p ps r = Some (r \<or> p \<in> set ps)"
  by (induction ps arbitrary: r) auto

lemma udp_ok_tab:
  assumes ok: "udp_ok sizes base s" and u: "udp_tab s p = Some u"
  shows "udp_ok sizes base (s\<lparr>udp_tab := (udp_tab s)(p \<mapsto> u')\<rparr>)"
  using assms by (auto simp: udp_ok_def)

lemma udp_ok_insert:
  assumes ok: "udp_ok sizes base s" and u: "udp_tab s p = Some u" and p: "p \<notin> set (udp_pcbs s)"
  shows "udp_ok sizes base (s\<lparr>udp_pcbs := p # udp_pcbs s\<rparr>)"
proof -
  have "p \<noteq> NULL" using u udp_tab_NULL [OF ok] by (metis option.distinct(1))
  then show ?thesis using assms by (auto simp: udp_ok_def)
qed

definition port_chosen :: "u16_t \<Rightarrow> 'a udp_state_scheme \<Rightarrow> u16_t \<Rightarrow> bool" where
  "port_chosen port s q \<longleftrightarrow> (if port = 0 then UDP_LOCAL_PORT_RANGE_START \<le> q \<and> q < UDP_LOCAL_PORT_RANGE_END \<and> q \<notin> port_of s ` set (udp_pcbs s) else q = port)"

lemma udp_bind_ok:
  assumes ok: "udp_ok sizes base s" and u: "udp_tab s p = Some u"
  shows "\<exists>q s'. udp_bind p a port s = Some (ERR_OK, s') \<and> udp_ok sizes base s' \<and> port_chosen port s q
    \<and> s' = s\<lparr>udp_tab := (udp_tab s)(p \<mapsto> u\<lparr>local_ip := a, local_port := q\<rparr>), udp_pcbs := (if p \<in> set (udp_pcbs s) then udp_pcbs s else p # udp_pcbs s)\<rparr>"
proof -
  let ?u = "u\<lparr>local_ip := a\<rparr>"
  let ?t = "s\<lparr>udp_tab := (udp_tab s)(p \<mapsto> ?u)\<rparr>"
  have rb: "udp_rebind p (udp_pcbs s) False = Some (p \<in> set (udp_pcbs s))" using udp_rebind_distinct [of "udp_pcbs s" False] ok by (simp add: udp_ok_def)
  have md: "mod_udp p (\<lambda>u. u\<lparr>local_ip := a\<rparr>) s = Some ?t" by (rule mod_udp_Some [OF u])
  have ports: "port_of ?t = port_of s" using u by (auto simp: port_of_def)
  have "\<exists>q. (if port = 0 then udp_find_port ?t (udp_pcbs ?t) UDP_LOCAL_PORT_RANGE_START else Some (port, [])) = Some (q, []) \<and> port_chosen port s q"
  proof (cases "port = 0")
    case True
    have live: "\<forall>x\<in>set (udp_pcbs ?t). udp_tab ?t x \<noteq> None" using ok by (auto simp: udp_ok_def)
    have st: "UDP_LOCAL_PORT_RANGE_START \<le> UDP_LOCAL_PORT_RANGE_END" "UDP_LOCAL_PORT_RANGE_START \<noteq> UDP_LOCAL_PORT_RANGE_END" by (simp_all add: udp_consts)
    have nn: "\<forall>q. UDP_LOCAL_PORT_RANGE_START \<le> q \<and> q < UDP_LOCAL_PORT_RANGE_START \<longrightarrow> q \<in> port_of ?t ` set (udp_pcbs ?t)" by (auto dest: leD)
    obtain q rest where q: "udp_find_port ?t (udp_pcbs ?t) UDP_LOCAL_PORT_RANGE_START = Some (q, rest)" "UDP_LOCAL_PORT_RANGE_START \<le> q" "q \<le> UDP_LOCAL_PORT_RANGE_END"
      "rest = [] \<longleftrightarrow> q \<noteq> UDP_LOCAL_PORT_RANGE_END" "rest = [] \<longrightarrow> q \<notin> port_of ?t ` set (udp_pcbs ?t)"
      "\<forall>x. UDP_LOCAL_PORT_RANGE_START \<le> x \<and> x < q \<longrightarrow> x \<in> port_of ?t ` set (udp_pcbs ?t)"
      using udp_find_port_spec [OF live _ _ _ st(1) _ nn, of "[]" "udp_pcbs ?t"] st(2) by auto
    have "rest = []"
    proof (rule ccontr)
      assume "rest \<noteq> []"
      then have "28671 \<le> length (udp_pcbs s)" using q(4,6) ports_pigeonhole [of "port_of ?t" "udp_pcbs ?t"] by simp
      then show False using udp_ok_live [OF ok] by simp
    qed
    then show ?thesis using q True ports by (auto simp: port_chosen_def)
  qed (simp add: port_chosen_def)
  then obtain q where q: "(if port = 0 then udp_find_port ?t (udp_pcbs ?t) UDP_LOCAL_PORT_RANGE_START else Some (port, [])) = Some (q, [])" "port_chosen port s q" by blast
  let ?v = "s\<lparr>udp_tab := (udp_tab s)(p \<mapsto> u\<lparr>local_ip := a, local_port := q\<rparr>)\<rparr>"
  let ?s = "s\<lparr>udp_tab := (udp_tab s)(p \<mapsto> u\<lparr>local_ip := a, local_port := q\<rparr>), udp_pcbs := (if p \<in> set (udp_pcbs s) then udp_pcbs s else p # udp_pcbs s)\<rparr>"
  have "udp_bind p a port s = Some (ERR_OK, ?s)" using rb md q(1) by (simp add: udp_bind_def mod_udp_def)
  moreover have v: "udp_ok sizes base ?v" by (rule udp_ok_tab [OF ok u])
  have "udp_ok sizes base ?s" using v udp_ok_insert [OF v, of p] by (cases "p \<in> set (udp_pcbs s)") simp_all
  ultimately show ?thesis using q(2) by blast
qed
lemma udp_connect_ok:
  assumes ok: "udp_ok sizes base s" and u: "udp_tab s p = Some u"
  shows "\<exists>q s'. udp_connect p a port s = Some (ERR_OK, s') \<and> udp_ok sizes base s' \<and> port_chosen (local_port u) s q
    \<and> s' = s\<lparr>udp_tab := (udp_tab s)(p \<mapsto> u\<lparr>local_port := q, remote_ip := a, remote_port := port, udp_flags := udp_flags u OR UDP_FLAGS_CONNECTED\<rparr>),
          udp_pcbs := (if p \<in> set (udp_pcbs s) then udp_pcbs s else p # udp_pcbs s)\<rparr>"
proof -
  let ?L = "if p \<in> set (udp_pcbs s) then udp_pcbs s else p # udp_pcbs s"
  let ?c = "\<lambda>q. u\<lparr>local_port := q, remote_ip := a, remote_port := port, udp_flags := udp_flags u OR UDP_FLAGS_CONNECTED\<rparr>"
  show ?thesis
  proof (cases "local_port u = 0")
    case True
    obtain q s1 where q: "udp_bind p (local_ip u) (local_port u) s = Some (ERR_OK, s1)" "udp_ok sizes base s1" "port_chosen (local_port u) s q"
      "s1 = s\<lparr>udp_tab := (udp_tab s)(p \<mapsto> u\<lparr>local_ip := local_ip u, local_port := q\<rparr>), udp_pcbs := ?L\<rparr>"
      using udp_bind_ok [OF ok u] by blast
    let ?s = "s1\<lparr>udp_tab := (udp_tab s1)(p \<mapsto> ?c q)\<rparr>"
    have pl: "p \<in> set (udp_pcbs s1)" by (simp add: q(4))
    have tp: "udp_tab s1 p = Some (u\<lparr>local_port := q\<rparr>)" by (simp add: q(4))
    have "udp_connect p a port s = Some (ERR_OK, ?s)" using u True q(1) pl tp by (simp add: udp_connect_def mod_udp_def)
    moreover have "udp_ok sizes base ?s" by (rule udp_ok_tab [OF q(2) tp])
    moreover have "?s = s\<lparr>udp_tab := (udp_tab s)(p \<mapsto> ?c q), udp_pcbs := ?L\<rparr>" by (simp add: q(4))
    ultimately show ?thesis using q(3) by metis
  next
    case False
    let ?v = "s\<lparr>udp_tab := (udp_tab s)(p \<mapsto> ?c (local_port u))\<rparr>"
    have v: "udp_ok sizes base ?v" by (rule udp_ok_tab [OF ok u])
    have "udp_connect p a port s = Some (ERR_OK, ?v\<lparr>udp_pcbs := ?L\<rparr>)" using u False by (simp add: udp_connect_def mod_udp_def)
    moreover have "udp_ok sizes base (?v\<lparr>udp_pcbs := ?L\<rparr>)" using v udp_ok_insert [OF v, of p] by (cases "p \<in> set (udp_pcbs s)") simp_all
    moreover have "port_chosen (local_port u) s (local_port u)" using False by (simp add: port_chosen_def)
    ultimately show ?thesis by (intro exI [of _ "local_port u"] exI [of _ "?v\<lparr>udp_pcbs := ?L\<rparr>"]) simp
  qed
qed

lemma udp_mod_ok:
  assumes ok: "udp_ok sizes base s" and u: "udp_tab s p = Some u"
  shows "\<exists>s'. udp_disconnect p s = Some s' \<and> udp_ok sizes base s'" and "\<exists>s'. udp_recv p f arg s = Some s' \<and> udp_ok sizes base s'"
  using udp_ok_tab [OF ok u] u by (simp_all add: udp_disconnect_def udp_recv_def mod_udp_def)

section \<open>Demultiplexing\<close>

definition udp_local_match :: "u16_t \<Rightarrow> u32_t \<Rightarrow> bool \<Rightarrow> udp_pcb \<Rightarrow> bool" where
  "udp_local_match dest ipdest broadcast u \<longleftrightarrow> local_port u = dest \<and> (broadcast \<or> local_ip u = 0 \<or> local_ip u = ipdest)"

definition udp_full_match :: "u16_t \<Rightarrow> u16_t \<Rightarrow> u32_t \<Rightarrow> u32_t \<Rightarrow> bool \<Rightarrow> udp_pcb \<Rightarrow> bool" where
  "udp_full_match src dest ipsrc ipdest broadcast u \<longleftrightarrow>
     udp_local_match dest ipdest broadcast u \<and> remote_port u = src \<and> (remote_ip u = 0 \<or> remote_ip u = ipsrc)"

definition udp_uncon_match :: "u16_t \<Rightarrow> u32_t \<Rightarrow> bool \<Rightarrow> udp_pcb \<Rightarrow> bool" where
  "udp_uncon_match dest ipdest broadcast u \<longleftrightarrow> udp_local_match dest ipdest broadcast u \<and> udp_flags u AND UDP_FLAGS_CONNECTED = 0"

definition first_pcb :: "(udp_pcb \<Rightarrow> bool) \<Rightarrow> 'a udp_state_scheme \<Rightarrow> addr list \<Rightarrow> addr" where
  "first_pcb P s ps = (case filter (\<lambda>p. P (the (udp_tab s p))) ps of [] \<Rightarrow> NULL | p # _ \<Rightarrow> p)"

text \<open>The control block that gets a datagram: the first one connected to its sender, else the first unconnected one.\<close>

definition udp_select :: "u16_t \<Rightarrow> u16_t \<Rightarrow> u32_t \<Rightarrow> u32_t \<Rightarrow> bool \<Rightarrow> 'a udp_state_scheme \<Rightarrow> addr" where
  "udp_select src dest ipsrc ipdest broadcast s =
     (let p = first_pcb (udp_full_match src dest ipsrc ipdest broadcast) s (udp_pcbs s)
      in if p \<noteq> NULL then p else first_pcb (udp_uncon_match dest ipdest broadcast) s (udp_pcbs s))"

lemma first_pcb_simps [simp]:
  "first_pcb P s [] = NULL" "first_pcb P s (p # ps) = (if P (the (udp_tab s p)) then p else first_pcb P s ps)"
  by (simp_all add: first_pcb_def)

lemma first_pcb_in: "first_pcb P s ps \<noteq> NULL \<Longrightarrow> first_pcb P s ps \<in> set ps"
  by (induction ps) auto

lemma udp_scan_spec:
  assumes "\<forall>p\<in>set ps. udp_tab s p \<noteq> None" and "NULL \<notin> set ps"
  shows "\<exists>pr un. udp_scan src dest ipsrc ipdest bc ps prev uncon s = Some (first_pcb (udp_full_match src dest ipsrc ipdest bc) s ps, pr, un)
    \<and> (first_pcb (udp_full_match src dest ipsrc ipdest bc) s ps = NULL \<longrightarrow> un = (if uncon \<noteq> NULL then uncon else first_pcb (udp_uncon_match dest ipdest bc) s ps))
    \<and> (first_pcb (udp_full_match src dest ipsrc ipdest bc) s ps \<noteq> NULL \<longrightarrow>
        (pr = NULL \<longleftrightarrow> prev = NULL \<and> first_pcb (udp_full_match src dest ipsrc ipdest bc) s ps = hd ps))"
  using assms
proof (induction ps arbitrary: prev uncon)
  case (Cons p ps)
  obtain u where u: "udp_tab s p = Some u" using Cons.prems(1) by auto
  let ?F = "udp_full_match src dest ipsrc ipdest bc" and ?U = "udp_uncon_match dest ipdest bc"
  let ?un = "if ?U u \<and> uncon = NULL then p else uncon"
  have pn: "p \<noteq> NULL" using Cons.prems(2) by auto
  have run: "udp_scan src dest ipsrc ipdest bc (p # ps) prev uncon s =
      (if ?F u then Some (p, prev, ?un) else udp_scan src dest ipsrc ipdest bc ps p ?un s)"
    using u by (auto simp: udp_full_match_def udp_uncon_match_def udp_local_match_def ip_addr_isany_def Let_def)
  show ?case
  proof (cases "?F u")
    case True
    then show ?thesis using run u pn by auto
  next
    case False
    obtain pr un where r: "udp_scan src dest ipsrc ipdest bc ps p ?un s = Some (first_pcb ?F s ps, pr, un)"
      "first_pcb ?F s ps = NULL \<longrightarrow> un = (if ?un \<noteq> NULL then ?un else first_pcb ?U s ps)"
      "first_pcb ?F s ps \<noteq> NULL \<longrightarrow> (pr = NULL \<longleftrightarrow> p = NULL \<and> first_pcb ?F s ps = hd ps)"
      using Cons.IH [of p ?un] Cons.prems by auto
    have eq: "first_pcb ?F s (p # ps) = first_pcb ?F s ps" using False u by simp
    have "un = (if uncon \<noteq> NULL then uncon else first_pcb ?U s (p # ps))" if "first_pcb ?F s ps = NULL"
      using r(2) that u pn by (auto split: if_splits)
    moreover have "pr \<noteq> NULL \<and> first_pcb ?F s ps \<noteq> p \<or> pr \<noteq> NULL" if "first_pcb ?F s ps \<noteq> NULL" using r(3) that pn by auto
    moreover have "first_pcb ?F s ps \<noteq> p" if "first_pcb ?F s ps \<noteq> NULL"
    proof
      assume "first_pcb ?F s ps = p"
      then have "?F (the (udp_tab s p))" using that by (induction ps) (auto split: if_splits)
      then show False using False u by simp
    qed
    ultimately show ?thesis unfolding eq using run False r(1) by auto
  qed
qed simp
lemma mset_udp_unlink: "p \<in> set ps \<Longrightarrow> add_mset p (mset (udp_unlink p ps)) = mset ps"
  by (induction ps) auto

lemma udp_ok_list:
  assumes ok: "udp_ok sizes base s" and L: "mset L = mset (udp_pcbs s)"
  shows "udp_ok sizes base (s\<lparr>udp_pcbs := L\<rparr>)"
proof -
  have "distinct L = distinct (udp_pcbs s)" "set L = set (udp_pcbs s)" using mset_eq_imp_distinct_iff [OF L] mset_eq_setD [OF L] by simp_all
  then show ?thesis using ok by (simp add: udp_ok_def)
qed

lemma udp_demux_ok:
  fixes src dest :: u16_t and ipsrc ipdest :: u32_t and bc :: bool
  assumes ok: "udp_wf sizes base s"
  defines "full \<equiv> first_pcb (udp_full_match src dest ipsrc ipdest bc) s (udp_pcbs s)"
  shows "\<exists>L. udp_demux src dest ipsrc ipdest bc s = Some (udp_select src dest ipsrc ipdest bc s, s\<lparr>udp_pcbs := L\<rparr>)
    \<and> mset L = mset (udp_pcbs s) \<and> (if full \<noteq> NULL then hd L = full else L = udp_pcbs s)"
proof -
  have live: "\<forall>p\<in>set (udp_pcbs s). udp_tab s p \<noteq> None" and nn: "NULL \<notin> set (udp_pcbs s)" using ok by (auto simp: udp_wf_def)
  obtain pr un where r: "udp_scan src dest ipsrc ipdest bc (udp_pcbs s) NULL NULL s = Some (full, pr, un)"
    "full = NULL \<longrightarrow> un = first_pcb (udp_uncon_match dest ipdest bc) s (udp_pcbs s)" "full \<noteq> NULL \<longrightarrow> (pr = NULL \<longleftrightarrow> full = hd (udp_pcbs s))"
    using udp_scan_spec [OF live nn, of src dest ipsrc ipdest bc NULL NULL] unfolding full_def by auto
  have sel: "udp_select src dest ipsrc ipdest bc s = (if full \<noteq> NULL then full else un)" using r(2) by (simp add: udp_select_def full_def)
  define L where "L = (if full \<noteq> NULL \<and> pr \<noteq> NULL then full # udp_unlink full (udp_pcbs s) else udp_pcbs s)"
  have m: "mset L = mset (udp_pcbs s)"
    using first_pcb_in [of "udp_full_match src dest ipsrc ipdest bc" s "udp_pcbs s"] mset_udp_unlink [of full "udp_pcbs s"] by (auto simp: L_def full_def)
  have "udp_demux src dest ipsrc ipdest bc s = Some (udp_select src dest ipsrc ipdest bc s, s\<lparr>udp_pcbs := L\<rparr>)"
    using r(1) sel by (simp add: udp_demux_def L_def)
  moreover have "if full \<noteq> NULL then hd L = full else L = udp_pcbs s" using r(3) by (auto simp: L_def)
  ultimately show ?thesis using m by blast
qed

section \<open>Sequences of calls\<close>

text \<open>One call of the interface, on control blocks that exist.\<close>

inductive udp_step :: "udp_state \<Rightarrow> udp_state \<Rightarrow> bool" where
  step_new: "udp_new s = Some (p, s') \<Longrightarrow> udp_step s s'"
| step_remove: "udp_tab s p \<noteq> None \<Longrightarrow> udp_remove p s = Some s' \<Longrightarrow> udp_step s s'"
| step_bind: "udp_tab s p \<noteq> None \<Longrightarrow> udp_bind p a port s = Some (e, s') \<Longrightarrow> udp_step s s'"
| step_connect: "udp_tab s p \<noteq> None \<Longrightarrow> udp_connect p a port s = Some (e, s') \<Longrightarrow> udp_step s s'"
| step_disconnect: "udp_tab s p \<noteq> None \<Longrightarrow> udp_disconnect p s = Some s' \<Longrightarrow> udp_step s s'"
| step_recv: "udp_tab s p \<noteq> None \<Longrightarrow> udp_recv p f arg s = Some s' \<Longrightarrow> udp_step s s'"
| step_demux: "udp_demux src dest ipsrc ipdest bc s = Some (p, s') \<Longrightarrow> udp_step s s'"

lemma udp_step_ok: "udp_step s s' \<Longrightarrow> udp_ok sizes base s \<Longrightarrow> udp_ok sizes base s'"
proof (induction rule: udp_step.induct)
  case (step_new s p s')
  then show ?case using udp_new_ok [of sizes base s] by auto
next
  case (step_remove s p s')
  then show ?case using udp_remove_ok [of sizes base s p] by auto
next
  case (step_bind s p a port e s')
  then obtain u where "udp_tab s p = Some u" by blast
  then show ?case using udp_bind_ok [OF step_bind.prems, of p u a port] step_bind.hyps(2) by auto
next
  case (step_connect s p a port e s')
  then obtain u where "udp_tab s p = Some u" by blast
  then show ?case using udp_connect_ok [OF step_connect.prems, of p u a port] step_connect.hyps(2) by auto
next
  case (step_disconnect s p s')
  then show ?case using udp_mod_ok(1) [of sizes base s p] by auto
next
  case (step_recv s p f arg s')
  then show ?case using udp_mod_ok(2) [of sizes base s p _ f arg] by auto
next
  case (step_demux src dest ipsrc ipdest bc s p s')
  then show ?case using udp_demux_ok [OF udp_ok_wf [OF step_demux.prems], of src dest ipsrc ipdest bc] udp_ok_list [OF step_demux.prems] by auto
qed

lemma udp_steps_ok: "udp_step\<^sup>*\<^sup>* s s' \<Longrightarrow> udp_ok sizes base s \<Longrightarrow> udp_ok sizes base s'"
  by (induction rule: rtranclp_induct) (auto intro: udp_step_ok)
section \<open>Input\<close>

text \<open>A packet that is about to be released or handed over may have lost all the data of its first pbuf to the headers.\<close>

definition free_packet :: "'a link_state_scheme \<Rightarrow> addr \<Rightarrow> addr list \<Rightarrow> bool" where
  "free_packet s p xs \<longleftrightarrow> packet (pbufs s) p xs \<and> sole (pbufs s) xs \<and> owned (pbufs s) xs \<and> set xs \<inter> held s = {}"

lemma own_free_packet: "own_packet s p xs \<Longrightarrow> free_packet s p xs"
  by (simp add: own_packet_def free_packet_def)

lemma free_packet_same:
  assumes "free_packet s p xs" and "pbufs s' = pbufs s" and "held s' = held s"
  shows "free_packet s' p xs"
  using assms by (simp add: free_packet_def)

lemma udp_drop_ok:
  fixes s :: "'a link_state_scheme"
  assumes ok: "link_ok sizes base s" and fp: "free_packet s p xs"
  shows "\<exists>s'. udp_drop p s = Some s' \<and> link_ok sizes base s' \<and> same_link s s' \<and> kept (set xs) s s'"
proof -
  obtain c s' where f: "pbuf_free p s = Some (c, s')" "link_ok sizes base s'" "ext_same s s'" "arp_table s' = arp_table s" "tx s' = tx s"
    "pbufs s' = pbufs s |` (- set xs)" "bytes s' = bytes s"
    using link_free [OF ok, of p xs] fp by (auto simp: free_packet_def)
  have sl: "same_link s s'" using f(3-5) by (simp add: same_link_def)
  have "kept (set xs) s s'" using same_linkD(7) [OF sl] f(6,7) by (auto simp: kept_def)
  then show ?thesis using f sl by (simp add: udp_drop_def)
qed

lemma hide_header:
  fixes s :: "'a link_state_scheme"
  assumes ok: "link_ok sizes base s" and fp: "free_packet s p xs" and b: "pbufs s p = Some b" and n: "0 < n" "n \<le> len b"
  defines "s' \<equiv> put_pbuf p (b\<lparr>payload := payload b + n, len := len b - n, tot_len := tot_len b - n\<rparr>) s"
  shows "pbuf_header p (- int n) s = Some (False, s')" and "link_ok sizes base s'" and "free_packet s' p xs" and "same_link s s'" and "kept {p} s s'"
    and "chain_data s' xs = drop n (chain_data s xs)"
proof -
  let ?b = "b\<lparr>payload := payload b + n, len := len b - n, tot_len := tot_len b - n\<rparr>"
  have net: "net_ok sizes base s" and pk: "packet (pbufs s) p xs" using ok fp by (simp_all add: link_ok_def free_packet_def)
  have px: "p \<in> set xs" by (rule packet_head [OF pk]) simp
  have h: "pbuf_header p (- int n) s = Some (False, s')" "net_ok sizes base s'" "packet (pbufs s') p xs" "chain_data s' xs = drop n (chain_data s xs)"
    using pbuf_header_hide [OF net pk n(1)] n(2) b unfolding s'_def by auto
  note lk = put_kept [where s = s and p = p and c = ?b, folded s'_def]
  show "pbuf_header p (- int n) s = Some (False, s')" "chain_data s' xs = drop n (chain_data s xs)" "same_link s s'" "kept {p} s s'" using h(1,4) lk by blast+
  have ph: "p \<notin> held s" using px fp by (auto simp: free_packet_def)
  show "link_ok sizes base s'" unfolding s'_def by (rule link_ok_put [OF ok h(2) [unfolded s'_def] ph])
  have "pbufs s' = (pbufs s)(p \<mapsto> ?b)" by (simp add: s'_def)
  then have "sole (pbufs s') xs" "owned (pbufs s') xs" using fp b by (auto simp: free_packet_def sole_def owned_def list_all_iff)
  then show "free_packet s' p xs" using h(3) fp same_linkD(7) [OF lk(1)] by (simp add: free_packet_def)
qed

lemma ip_same_udp: "ip_same s s' \<Longrightarrow> udp_tab s' = udp_tab s \<and> udp_pcbs s' = udp_pcbs s"
  by (cases s; cases s') (simp add: ip_same_def)

lemma list_step:
  fixes s :: "'a udp_state_scheme"
  shows "kept K s (s\<lparr>udp_pcbs := L\<rparr>)" and "free_packet (s\<lparr>udp_pcbs := L\<rparr>) p xs = free_packet s p xs" and "own_packet (s\<lparr>udp_pcbs := L\<rparr>) p xs = own_packet s p xs"
    and "chain_data (s\<lparr>udp_pcbs := L\<rparr>) xs = chain_data s xs" and "held (s\<lparr>udp_pcbs := L\<rparr>) = held s"
proof -
  show h: "held (s\<lparr>udp_pcbs := L\<rparr>) = held s" by (simp add: held_def)
  show "kept K s (s\<lparr>udp_pcbs := L\<rparr>)" by (rule kept_bytes) (simp_all add: h)
  show "free_packet (s\<lparr>udp_pcbs := L\<rparr>) p xs = free_packet s p xs" "own_packet (s\<lparr>udp_pcbs := L\<rparr>) p xs = own_packet s p xs"
    by (simp_all add: free_packet_def own_packet_def h)
  show "chain_data (s\<lparr>udp_pcbs := L\<rparr>) xs = chain_data s xs" by (rule chain_data_cong) (simp add: pbuf_data_def split: option.split)
qed

text \<open>The fate of a datagram: dropped, refused with an ICMP message, or handed to the callback of the selected control block.\<close>

definition udp_dropped :: "(memp_t \<Rightarrow> nat) \<Rightarrow> addr \<Rightarrow> addr list \<Rightarrow> addr list \<Rightarrow> 'a udp_state_scheme \<Rightarrow> 'a udp_state_scheme option \<Rightarrow> bool" where
  "udp_dropped sizes base xs L s r \<longleftrightarrow> (\<exists>s'. r = Some s' \<and> link_ok sizes base s' \<and> kept (set xs) s s' \<and> udp_tab s' = udp_tab s \<and> udp_pcbs s' = L
     \<and> tx s' = tx s \<and> arp_table s' = arp_table s)"

definition udp_refused :: "(memp_t \<Rightarrow> nat) \<Rightarrow> addr \<Rightarrow> addr list \<Rightarrow> u32_t \<Rightarrow> u8_t list \<Rightarrow> netif \<Rightarrow> 'a udp_state_scheme \<Rightarrow> 'a udp_state_scheme option \<Rightarrow> bool" where
  "udp_refused sizes base xs src quote m s r \<longleftrightarrow> (\<exists>s'. r = Some s' \<and> link_ok sizes base s' \<and> kept (set xs) s s' \<and> udp_tab s' = udp_tab s \<and> udp_pcbs s' = udp_pcbs s
     \<and> icmp_error_post ICMP_DUR 3 src quote m s s')"

definition udp_handed :: "(memp_t \<Rightarrow> nat) \<Rightarrow> addr \<Rightarrow> addr \<Rightarrow> addr list \<Rightarrow> addr list \<Rightarrow> u8_t list \<Rightarrow> 'a udp_state_scheme \<Rightarrow> 'a udp_state_scheme \<Rightarrow> bool" where
  "udp_handed sizes base p xs L v s s' \<longleftrightarrow> link_ok sizes base s' \<and> free_packet s' p xs \<and> chain_data s' xs = v \<and> kept {p} s s' \<and> udp_tab s' = udp_tab s \<and> udp_pcbs s' = L
     \<and> tx s' = tx s \<and> arp_table s' = arp_table s"

lemma udp_drop_dropped:
  fixes s t :: "'a udp_state_scheme"
  assumes "link_ok sizes base t" and "free_packet t p xs" and "kept {p} s t" and "udp_tab t = udp_tab s" and "udp_pcbs t = L" and "tx t = tx s"
    and "arp_table t = arp_table s" and "p \<in> set xs"
  shows "udp_dropped sizes base xs L s (udp_drop p t)"
proof -
  obtain s' where s': "udp_drop p t = Some s'" "link_ok sizes base s'" "same_link t s'" "kept (set xs) t s'" using udp_drop_ok [OF assms(1,2)] by blast
  have "kept (set xs) s s'" by (rule kept_trans' [OF assms(3) s'(4)]) (use assms(8) in auto)
  then show ?thesis
    unfolding udp_dropped_def using s' ip_same_udp [OF same_link_ip [OF s'(3)]] same_linkD(4,5) [OF s'(3)] assms(4-7) by auto
qed
definition udp_input_post ::
  "(memp_t \<Rightarrow> nat) \<Rightarrow> addr \<Rightarrow> 'a udp_recv_fn \<Rightarrow> addr \<Rightarrow> addr list \<Rightarrow> nat \<Rightarrow> pbuf \<Rightarrow> netif \<Rightarrow> netif \<Rightarrow> addr list \<Rightarrow> 'a udp_state_scheme \<Rightarrow> 'a udp_state_scheme option \<Rightarrow> bool" where
  "udp_input_post sizes base callback p xs hlen b n m L s r \<longleftrightarrow>
     (let ipsrc = iph_src (bytes s) (payload b); ipdest = iph_dest (bytes s) (payload b); broadcast = ip_addr_isbroadcast ipdest n;
          src = ntohs (ld16 (bytes s) (payload b + hlen)); dest = ntohs (ld16 (bytes s) (payload b + hlen + 2));
          v = drop hlen (chain_data s xs); pcb = udp_select src dest ipsrc ipdest broadcast s; u = the (udp_tab s pcb)
      in if tot_len b < hlen + 8 then udp_dropped sizes base xs (udp_pcbs s) s r
         else if pcb = NULL \<and> nif_ip_addr n \<noteq> ipdest
           \<or> ld16 (bytes s) (payload b + hlen + 6) \<noteq> 0 \<and> chksum_of (pseudo_header ipsrc ipdest 17 (of_nat (length v)) @ v) \<noteq> 0
         then udp_dropped sizes base xs L s r
         else if pcb \<noteq> NULL then
           (if recv u = NULL then udp_dropped sizes base xs L s r
            else \<exists>s'. udp_handed sizes base p xs L (drop 8 v) s s' \<and> r = callback (recv u) (recv_arg u) pcb p ipsrc src s')
         else if broadcast \<or> ip_addr_ismulticast ipdest then udp_dropped sizes base xs L s r
         else udp_refused sizes base xs ipsrc (take 28 (chain_data s xs)) m s r)"

lemma icmp_error_step:
  assumes "icmp_error_post ty code src quote m s s1" and "same_link s1 s'" and "held_kept s1 s'"
  shows "icmp_error_post ty code src quote m s s'"
  using assms(1) same_linkD(4,5) [OF assms(2)] datagram_sent_step [OF _ assms(2,3)] unfolding icmp_error_post_def by metis

lemma udp_refuse:
  fixes s :: "'a udp_state_scheme"
  assumes ok: "link_ok sizes base s" and io: "ifs_ok s" and own: "own_packet s p xs" and b: "pbufs s p = Some b" "28 \<le> len b"
    and m: "route_of (iph_src (bytes s) (payload b)) s \<noteq> NULL \<Longrightarrow> eth_netif (netifs s) (route_of (iph_src (bytes s) (payload b)) s) m \<and> nif_mtu m = 1500"
  shows "\<exists>s1. icmp_dest_unreach p ICMP_DUR_PORT s = Some s1 \<and> udp_refused sizes base xs (iph_src (bytes s) (payload b)) (take 28 (chain_data s xs)) m s (udp_drop p s1)"
proof -
  obtain s1 where s1: "icmp_send_response p ICMP_DUR 3 s = Some s1" "link_ok sizes base s1" "ip_same s s1" "kept {} s s1"
    "icmp_error_post ICMP_DUR 3 (iph_src (bytes s) (payload b)) (take 28 (chain_data s xs)) m s s1"
    using icmp_send_response_ok [OF ok io own b m refl] by blast
  have o1: "own_packet s1 p xs" using kept_packet(1) [OF s1(4) own] by simp
  obtain c s' where f: "pbuf_free p s1 = Some (c, s')" "link_ok sizes base s'" "same_link s1 s'" "kept (set xs) s1 s'" "held_kept s1 s'"
    using own_free [OF s1(2) o1] by blast
  have "icmp_error_post ICMP_DUR 3 (iph_src (bytes s) (payload b)) (take 28 (chain_data s xs)) m s s'" by (rule icmp_error_step [OF s1(5) f(3,5)])
  moreover have "kept (set xs) s s'" by (rule kept_trans' [OF s1(4) f(4)]) simp
  ultimately have "udp_refused sizes base xs (iph_src (bytes s) (payload b)) (take 28 (chain_data s xs)) m s (udp_drop p s1)"
    unfolding udp_refused_def udp_drop_def using f(1,2) ip_same_udp [OF s1(3)] ip_same_udp [OF same_link_ip [OF f(3)]] by auto
  then show ?thesis using s1(1) by (simp add: icmp_dest_unreach_def)
qed
text \<open>The two headers hidden one after the other, and revealed again.\<close>

lemma udp_headers:
  fixes s :: "'a udp_state_scheme"
  assumes ok: "udp_wf sizes base s" and own: "own_packet s p xs" and b: "pbufs s p = Some b" and h: "0 < hlen" "hlen + 8 \<le> len b"
  defines "b1 \<equiv> b\<lparr>payload := payload b + hlen, len := len b - hlen, tot_len := tot_len b - hlen\<rparr>"
    and "b3 \<equiv> b\<lparr>payload := payload b + hlen + 8, len := len b - hlen - 8, tot_len := tot_len b - hlen - 8\<rparr>"
  shows "pbuf_header p (- int hlen) s = Some (False, put_pbuf p b1 s)" and "udp_wf sizes base (put_pbuf p b1 s)"
    and "pbufs (put_pbuf p b1 s) p = Some b1" and "inet_chksum_pseudo p a1 a2 proto l (put_pbuf p b1 (s\<lparr>udp_pcbs := L\<rparr>))
      = Some (chksum_of (pseudo_header a1 a2 proto l @ drop hlen (chain_data s xs)))"
    and "pbuf_header p (- int 8) (put_pbuf p b1 (s\<lparr>udp_pcbs := L\<rparr>)) = Some (False, put_pbuf p b3 (s\<lparr>udp_pcbs := L\<rparr>))"
    and "free_packet (put_pbuf p b1 (s\<lparr>udp_pcbs := L\<rparr>)) p xs"
    and "udp_handed sizes base p xs L (drop 8 (drop hlen (chain_data s xs))) s (put_pbuf p b3 (s\<lparr>udp_pcbs := L\<rparr>))"
    and "pbuf_header p (int (hlen + 8)) (put_pbuf p b3 s) = Some (False, s)"
proof -
  let ?t = "s\<lparr>udp_pcbs := L\<rparr>"
  let ?s1 = "put_pbuf p b1 s" and ?t1 = "put_pbuf p b1 ?t" and ?t3 = "put_pbuf p b3 ?t"
  have lk: "link_ok sizes base s" using ok by (simp add: udp_wf_def)
  have lt: "link_ok sizes base ?t" using lk by simp
  have bt: "pbufs ?t p = Some b" using b by simp
  have h1: "0 < hlen" "hlen \<le> len b" using h by simp_all
  have ft: "free_packet ?t p xs" using own_free_packet [OF own] list_step(2) [where s = s] by simp
  note hs = hide_header [OF lk own_free_packet [OF own] b h1, folded b1_def]
  note ht = hide_header [OF lt ft bt h1, folded b1_def]
  show "pbuf_header p (- int hlen) s = Some (False, ?s1)" by (rule hs(1))
  show "udp_wf sizes base ?s1" using ok hs(2) by (simp add: udp_wf_def) (simp add: put_pbuf_def)
  show "pbufs ?s1 p = Some b1" by simp
  show "free_packet ?t1 p xs" by (rule ht(3))
  have pb1: "pbufs ?t1 p = Some b1" by simp
  have pc: "pchain (pbufs ?t1) p xs" "lens_ok (pbufs ?t1) xs"
  proof -
    show "pchain (pbufs ?t1) p xs" using ht(3) by (simp add: free_packet_def packet_def)
    show "lens_ok (pbufs ?t1) xs"
      unfolding lens_ok_def
    proof
      fix x
      assume "x \<in> set xs"
      then obtain c where "pbufs ?t1 x = Some c" using ht(3) by (force simp: free_packet_def owned_def list_all_iff split: option.splits)
      moreover have "net_ok sizes base ?t1" using ht(2) by (simp add: link_ok_def)
      ultimately show "pfield (pbufs ?t1) len x < 65536" using net_okD(3) by (fastforce simp: pbuf_ok_def)
    qed
  qed
  have d1: "chain_data ?t1 xs = drop hlen (chain_data s xs)" using ht(6) list_step(4) [where s = s] by simp
  show "inet_chksum_pseudo p a1 a2 proto l ?t1 = Some (chksum_of (pseudo_header a1 a2 proto l @ drop hlen (chain_data s xs)))"
    using inet_chksum_pseudo_ok [OF pc, of 0 a1 a2 proto l] d1 by (simp add: chksum_of_def)
  have h2: "0 < (8 :: nat)" "8 \<le> len b1" using h by (simp_all add: b1_def)
  note h3 = hide_header [OF ht(2,3) pb1 h2]
  have e3: "put_pbuf p (b1\<lparr>payload := payload b1 + 8, len := len b1 - 8, tot_len := tot_len b1 - 8\<rparr>) ?t1 = ?t3"
    by (simp add: put_pbuf_def b1_def b3_def)
  note h3 = h3 [unfolded e3]
  show "pbuf_header p (- int 8) ?t1 = Some (False, ?t3)" by (rule h3(1))
  have "kept {p} s ?t3" by (rule kept_trans' [OF list_step(1) [where K = "{}"] kept_trans' [OF ht(5) h3(5)]]) auto
  moreover have sl: "same_link ?t ?t3" by (rule same_link_trans [OF ht(4) h3(4)])
  moreover have "udp_tab ?t3 = udp_tab s" "udp_pcbs ?t3 = L" using ip_same_udp [OF same_link_ip [OF sl]] by simp_all
  moreover have "tx ?t3 = tx s" "arp_table ?t3 = arp_table s" using same_linkD(4,5) [OF sl] by simp_all
  ultimately show "udp_handed sizes base p xs L (drop 8 (drop hlen (chain_data s xs))) s ?t3"
    using h3(2,3,6) d1 by (simp add: udp_handed_def)
  show "pbuf_header p (int (hlen + 8)) (put_pbuf p b3 s) = Some (False, s)"
  proof -
    have ty: "ptype b = PBUF_RAM \<or> ptype b = PBUF_POOL" "len b \<le> tot_len b" using own_head [OF own] b by (metis option.inject)+
    have pn: "p \<noteq> NULL" using own_packetD(8) [OF own] .
    have bo: "p + SIZEOF_STRUCT_PBUF \<le> payload b" "len b < 65536" "tot_len b < 65536"
      using net_okD(3) [of sizes base s p b] lk b ty by (auto simp: link_ok_def pbuf_ok_def split: option.splits)
    have "put_pbuf p b (put_pbuf p b3 s) = s" using b by (simp add: put_pbuf_def fun_upd_idem)
    moreover have "b3\<lparr>payload := payload b, len := len b, tot_len := tot_len b\<rparr> = b" by (simp add: b3_def)
    moreover have "add16 (len b3) (int (hlen + 8)) = len b" "add16 (tot_len b3) (int (hlen + 8)) = tot_len b" "nat (int (payload b3) - int (hlen + 8)) = payload b"
      using add16_simps(1) [of "len b3" "hlen + 8"] add16_simps(1) [of "tot_len b3" "hlen + 8"] h bo ty by (simp_all add: b3_def)
    moreover have "\<not> payload b < p + SIZEOF_STRUCT_PBUF" "ptype b3 = ptype b" using bo by (simp_all add: b3_def)
    ultimately show ?thesis using pn ty h(1) by (simp add: pbuf_header_def)
  qed
qed
lemma udp_select_cong: "udp_tab s' = udp_tab s \<Longrightarrow> udp_pcbs s' = udp_pcbs s \<Longrightarrow> udp_select a b c d e s' = udp_select a b c d e s"
  unfolding udp_select_def first_pcb_def by (simp only:)

lemma udp_select_live:
  assumes "udp_wf sizes base s" and "udp_select a b c d e s \<noteq> NULL"
  shows "\<exists>u. udp_tab s (udp_select a b c d e s) = Some u"
proof -
  have "udp_select a b c d e s \<in> set (udp_pcbs s)" using assms(2) first_pcb_in unfolding udp_select_def Let_def by (metis (no_types, lifting))
  then show ?thesis using assms(1) by (auto simp: udp_wf_def)
qed

lemma udp_input_ok:
  fixes s :: "'a udp_state_scheme"
  assumes ok: "udp_wf sizes base s" and io: "ifs_ok s" and own: "own_packet s p xs" and n: "netifs s inp = Some n" and b: "pbufs s p = Some b"
    and hl: "hlen = unat (IPH_HL (bytes s) (payload b)) * 4" "20 \<le> hlen" and hd: "hlen + 8 \<le> len b \<or> tot_len b < hlen + 8"
    and m: "route_of (iph_src (bytes s) (payload b)) s \<noteq> NULL \<Longrightarrow> eth_netif (netifs s) (route_of (iph_src (bytes s) (payload b)) s) m \<and> nif_mtu m = 1500"
  shows "\<exists>L. mset L = mset (udp_pcbs s) \<and> udp_input_post sizes base callback p xs hlen b n m L s (udp_input callback p inp s)"
proof (cases "tot_len b < hlen + 8")
  case True
  have lk: "link_ok sizes base s" using ok by (simp add: udp_wf_def)
  have "udp_input callback p inp s = udp_drop p s" using b hl True by (simp add: udp_input_def udp_consts)
  moreover have "udp_dropped sizes base xs (udp_pcbs s) s (udp_drop p s)"
    by (rule udp_drop_dropped [OF lk own_free_packet [OF own]]) (use own_packetD(6) [OF own] in simp_all)
  ultimately show ?thesis using True by (intro exI [of _ "udp_pcbs s"]) (simp add: udp_input_post_def Let_def)
next
  case False
  let ?src = "iph_src (bytes s) (payload b)" and ?dst = "iph_dest (bytes s) (payload b)" and ?v = "drop hlen (chain_data s xs)"
  let ?sp = "ntohs (ld16 (bytes s) (payload b + hlen))" and ?dp = "ntohs (ld16 (bytes s) (payload b + hlen + 2))"
  define bc where "bc = ip_addr_isbroadcast ?dst n"
  define pcb where "pcb = udp_select ?sp ?dp ?src ?dst bc s"
  let ?full = "first_pcb (udp_full_match ?sp ?dp ?src ?dst bc) s (udp_pcbs s)"
  let ?b1 = "b\<lparr>payload := payload b + hlen, len := len b - hlen, tot_len := tot_len b - hlen\<rparr>"
  let ?b3 = "b\<lparr>payload := payload b + hlen + 8, len := len b - hlen - 8, tot_len := tot_len b - hlen - 8\<rparr>"
  let ?s1 = "put_pbuf p ?b1 s"
  have h: "0 < hlen" "hlen + 8 \<le> len b" using hl hd False by simp_all
  have px: "p \<in> set xs" by (rule own_packetD(6) [OF own])
  have lk: "link_ok sizes base s" using ok by (simp add: udp_wf_def)
  note hs = udp_headers [OF ok own b h]
  have t1: "udp_tab ?s1 = udp_tab s" "udp_pcbs ?s1 = udp_pcbs s" "bytes ?s1 = bytes s" "netifs ?s1 = netifs s" by (simp_all add: put_pbuf_def)
  have f1: "first_pcb Q ?s1 ps = first_pcb Q s ps" for Q ps by (simp add: first_pcb_def t1)
  have sel: "udp_select ?sp ?dp ?src ?dst bc ?s1 = pcb" unfolding pcb_def by (rule udp_select_cong [OF t1(1,2)])
  note dm = udp_demux_ok [OF hs(2), of ?sp ?dp ?src ?dst bc, unfolded sel t1(2) f1]
  obtain L where L: "udp_demux ?sp ?dp ?src ?dst bc ?s1 = Some (pcb, ?s1\<lparr>udp_pcbs := L\<rparr>)" "mset L = mset (udp_pcbs s)"
      and iL: "if ?full \<noteq> NULL then hd L = ?full else L = udp_pcbs s"
    by (rule exE [OF dm], elim conjE) (rule that)
  have full: "?full = NULL \<Longrightarrow> L = udp_pcbs s" using iL by (simp only: if_False simp_thms)
  let ?t1 = "put_pbuf p ?b1 (s\<lparr>udp_pcbs := L\<rparr>)" and ?t3 = "put_pbuf p ?b3 (s\<lparr>udp_pcbs := L\<rparr>)"
  have e1: "?s1\<lparr>udp_pcbs := L\<rparr> = ?t1" by (simp add: put_pbuf_def)
  have L0: "L = udp_pcbs s" if "pcb = NULL" by (rule full) (use that in \<open>simp only: pcb_def udp_select_def Let_def split: if_splits\<close>)
  have tl: "tot_len b = plen (pbufs s) xs" using own_head [OF own] b by (metis option.inject)
  have lv: "tot_len b - hlen = length ?v" using tl length_chain_data [of s xs] by simp
  have put: "bytes (put_pbuf q x t) = bytes t" "udp_tab (put_pbuf q x t) = udp_tab t" "netifs (put_pbuf q x t) = netifs t" for q x and t :: "'a udp_state_scheme"
    by (simp_all add: put_pbuf_def)
  have bt: "bytes ?t1 = bytes s" "bytes ?t3 = bytes s" "udp_tab ?t3 = udp_tab s" "pbufs ?t1 p = Some ?b1" "netifs ?t1 = netifs s" by (simp_all add: put_pbuf_def)
  have lt: "link_ok sizes base ?t1"
    using hide_header(2) [of sizes base "s\<lparr>udp_pcbs := L\<rparr>" p xs b hlen] lk own_free_packet [OF own] list_step(2) [where s = s] b h by simp
  have kt: "kept {p} s ?t1" by (rule kept_trans' [OF list_step(1) [where K = "{}"] put_kept(2)]) auto
  have d1: "udp_dropped sizes base xs L s (udp_drop p ?t1)"
    by (rule udp_drop_dropped [OF lt hs(6) kt _ _ _ _ px]) (simp_all add: put_pbuf_def)
  have d3: "udp_dropped sizes base xs L s (udp_drop p ?t3)"
    using hs(7) [of L] px unfolding udp_handed_def by (intro udp_drop_dropped) auto
  let ?chk = "chksum_of (pseudo_header ?src ?dst 17 (of_nat (length ?v)) @ ?v)"
  define u where "u = the (udp_tab s pcb)"
  have live: "udp_tab s pcb = Some u" if "pcb \<noteq> NULL" using udp_select_live [OF ok that [unfolded pcb_def]] by (auto simp: u_def pcb_def)
  have rev: "pbuf_header p (int (hlen + 8)) ?t3 = Some (False, s)" if "pcb = NULL" using hs(8) L0 [OF that] by (simp del: of_nat_add)
  let ?chk0 = "chksum_of (pseudo_header ?src ?dst 17 (of_nat (tot_len b - hlen)) @ ?v)"
  note hlE = hl(1) [symmetric]
  define T1 T3 where "T1 = ?t1" and "T3 = ?t3"
  define bad where "bad \<longleftrightarrow> ld16 (bytes s) (payload b + hlen + 6) \<noteq> 0 \<and> ?chk0 \<noteq> 0"
  have run: "udp_input callback p inp s =
      (if pcb \<noteq> NULL \<or> nif_ip_addr n = ?dst then
         (if bad then udp_drop p T1
          else if pcb \<noteq> NULL then (if recv u \<noteq> NULL then callback (recv u) (recv_arg u) pcb p ?src ?sp T3 else udp_drop p T3)
          else if \<not> bc \<and> \<not> ip_addr_ismulticast ?dst then do { s \<leftarrow> icmp_dest_unreach p ICMP_DUR_PORT s; udp_drop p s }
          else udp_drop p T3)
       else udp_drop p T1)"
    using hs(1,3,4,5) L(1) [unfolded e1] unfolding udp_input_def Let_def T1_def T3_def bad_def
    by (simp add: b n False hlE bc_def [symmetric] put udp_consts IP_PROTO_UDP_def live rev [simplified diff_diff_left] del: of_nat_add add_2_eq_Suc add_2_eq_Suc')
  show ?thesis
  proof (intro exI [of _ L] conjI)
    show "mset L = mset (udp_pcbs s)" by (rule L(2))
    have l28: "28 \<le> len b" using h hl(2) by simp
    obtain s1 where s1: "icmp_dest_unreach p ICMP_DUR_PORT s = Some s1" "udp_refused sizes base xs ?src (take 28 (chain_data s xs)) m s (udp_drop p s1)"
      using udp_refuse [OF lk io own b l28 m] by blast
    have handed: "udp_handed sizes base p xs L (drop 8 ?v) s T3" unfolding T3_def by (rule hs(7))
    have post: "udp_input_post sizes base callback p xs hlen b n m L s r \<longleftrightarrow>
        (if tot_len b < hlen + 8 then udp_dropped sizes base xs (udp_pcbs s) s r
         else if pcb = NULL \<and> nif_ip_addr n \<noteq> ?dst \<or> bad then udp_dropped sizes base xs L s r
         else if pcb \<noteq> NULL then
           (if recv u = NULL then udp_dropped sizes base xs L s r
            else \<exists>s'. udp_handed sizes base p xs L (drop 8 ?v) s s' \<and> r = callback (recv u) (recv_arg u) pcb p ?src ?sp s')
         else if bc \<or> ip_addr_ismulticast ?dst then udp_dropped sizes base xs L s r
         else udp_refused sizes base xs ?src (take 28 (chain_data s xs)) m s r)" for r
      unfolding udp_input_post_def Let_def bad_def u_def pcb_def bc_def lv [symmetric] by (rule refl)
    show "udp_input_post sizes base callback p xs hlen b n m L s (udp_input callback p inp s)"
      unfolding post run using False s1 d1 [folded T1_def] d3 [folded T3_def] handed by auto
  qed
qed

section \<open>Sending\<close>











section \<open>An example\<close>

text \<open>One control block bound to the echo port, and a packet with given bytes.\<close>

definition example_udp :: udp_state where
  "example_udp = \<lparr>ram_heap = mem_init 1000, memp = memp_init example_sizes 20000, pbufs = Map.empty, bytes = (\<lambda>_. 0),
     netifs = [5000 \<mapsto> example_netif], netif_list = [5000], netif_default = 5000, tx = [],
     arp_table = replicate 10 empty_entry, etharp_cached_entry = 0, ip_id = 7, current_netif = NULL, current_header = NULL, udp_tab = Map.empty, udp_pcbs = []\<rparr>"

lemma example_udp_ok: "udp_ok example_sizes 20000 example_udp"
proof -
  have "net_ok example_sizes 20000 example_udp" using example_net_ok by (simp add: net_ok_def example_udp_def example_net_def)
  moreover have "arp_ok example_sizes 20000 example_udp"
    by (simp add: arp_ok_def example_udp_def empty_entry_def entry_ok_def queued_def known_ips_def is_empty_def etharp_consts ethzero_def list_all_iff)
  moreover have "memp_live example_sizes 20000 (memp_init example_sizes 20000) = Map.empty" by (rule memp_init_ok(2)) (simp_all add: example_sizes_pos)
  ultimately show ?thesis by (simp add: udp_ok_def link_ok_def example_udp_def)
qed

lemma example_udp_new:
  "\<exists>pcb s. udp_new example_udp = Some (pcb, s) \<and> pcb \<noteq> NULL \<and> udp_ok example_sizes 20000 s \<and> udp_tab s = [pcb \<mapsto> udp_fresh] \<and> udp_pcbs s = []
    \<and> ram_heap s = mem_init 1000 \<and> netifs s = [5000 \<mapsto> example_netif] \<and> netif_list s = [5000] \<and> netif_default s = 5000"
proof -
  let ?m = "memp_init example_sizes 20000"
  have "memp_live example_sizes 20000 ?m = Map.empty" by (rule memp_init_ok(2)) (simp_all add: example_sizes_pos)
  moreover have "(20064, MEMP_UDP_PCB) \<in> set (memp_slots example_sizes 20000)"
    unfolding memp_slots_def memp_pools_def memp_layout.simps(2) set_append by (intro UnI1) (auto simp: example_sizes_def image_iff)
  ultimately have "memp_frees ?m MEMP_UDP_PCB \<noteq> []" using memp_live_iff [OF example_memp_ok, of 20064 MEMP_UDP_PCB] by auto
  then obtain p m where m: "memp_malloc ?m MEMP_UDP_PCB = Some (p, m)" "p \<noteq> NULL"
    using memp_malloc_cases(2) [OF example_memp_ok, of MEMP_UDP_PCB] by (cases "memp_frees ?m MEMP_UDP_PCB") auto
  let ?s = "example_udp\<lparr>memp := m, udp_tab := [p \<mapsto> udp_fresh]\<rparr>"
  have "udp_new example_udp = Some (p, ?s)" using m by (simp add: udp_new_def example_udp_def udp_fresh_def UDP_TTL_def)
  then show ?thesis using udp_new_ok [OF example_udp_ok] m(2) by (intro exI [of _ p] exI [of _ ?s]) (auto simp: example_udp_def)
qed

lemma udp_example:
  assumes k: "0 < length v" "length v \<le> 1472" and lay: "layer = PBUF_LINK \<or> layer = PBUF_TRANSPORT"
  shows "\<exists>pcb p b (s :: udp_state). udp_ok example_sizes 20000 s \<and> pcb \<noteq> NULL \<and> udp_tab s = [pcb \<mapsto> udp_fresh\<lparr>local_port := 7\<rparr>] \<and> udp_pcbs s = [pcb]
    \<and> netifs s = [5000 \<mapsto> example_netif] \<and> netif_list s = [5000] \<and> netif_default s = 5000 \<and> own_packet s p [p] \<and> pbufs s p = Some b \<and> len b = length v
    \<and> chain_data s [p] = v \<and> peek (bytes s) (payload b) (length v) = v \<and> payload b = p + (24 + layer_offset layer)"
proof -
  obtain pcb and s0 :: udp_state where s0: "pcb \<noteq> NULL" "udp_ok example_sizes 20000 s0" "udp_tab s0 = [pcb \<mapsto> udp_fresh]" "udp_pcbs s0 = []" "ram_heap s0 = mem_init 1000"
    "netifs s0 = [5000 \<mapsto> example_netif]" "netif_list s0 = [5000]" "netif_default s0 = 5000"
    using example_udp_new by blast
  let ?s1 = "s0\<lparr>udp_tab := [pcb \<mapsto> udp_fresh\<lparr>local_port := 7\<rparr>], udp_pcbs := [pcb]\<rparr>"
  have ok1: "udp_ok example_sizes 20000 ?s1" using s0(1-4) by (auto simp: udp_ok_def split: if_splits)
  then have lk1: "link_ok example_sizes 20000 ?s1" by (simp only: udp_ok_def)
  have "heap_rep (ram_heap ?s1) [(0, MEM_SIZE_ALIGNED, False)]" unfolding s0(5) by (simp add: s0(5) heap_rep_def mem_init_def end_ok_def lwip_simps)
  moreover have "find_fit (request (24 + layer_offset layer + length v)) [(0, MEM_SIZE_ALIGNED, False)] = Some 0" using k lay by (auto simp: lwip_simps request_def)
  moreover have lt: "24 + layer_offset layer + length v < 65536" using k lay by (auto simp: lwip_simps)
  ultimately obtain p s2 where a: "pbuf_alloc layer (length v) PBUF_RAM ?s1 = Some (p, s2)" "p \<noteq> NULL" "memp s2 = memp ?s1"
    using pbuf_alloc_ram_blocks [of ?s1 "[(0, MEM_SIZE_ALIGNED, False)]" layer "length v" 0] by (auto simp: lwip_simps)
  then obtain b where o: "link_ok example_sizes 20000 s2" "same_link ?s1 s2" "own_packet s2 p [p]" "pbufs s2 p = Some b" "len b = length v" "payload b = p + (24 + layer_offset layer)"
    using own_alloc [OF lk1 k(1) lt] by auto
  let ?s = "s2\<lparr>bytes := poke (payload b) v (bytes s2)\<rparr>"
  note st = bytes_step [where s = s2 and d = "poke (payload b) v (bytes s2)"]
  have ut: "udp_tab s2 = udp_tab ?s1" "udp_pcbs s2 = udp_pcbs ?s1" using ip_same_udp [OF same_link_ip [OF o(2)]] by simp_all
  have "link_ok example_sizes 20000 ?s" by (rule st(2) [OF o(1)])
  then have ok: "udp_ok example_sizes 20000 ?s" using ok1 ut a(3) by (simp add: udp_ok_def)
  have pk: "peek (bytes ?s) (payload b) (length v) = v" by (simp add: peek_poke_same)
  then have "chain_data ?s [p] = v" using o(4,5) by (simp add: pbuf_data_peek)
  moreover have "own_packet ?s p [p]" using o(3) st(3) by simp
  moreover have "netifs ?s = [5000 \<mapsto> example_netif]" "netif_list ?s = [5000]" "netif_default ?s = 5000" using same_linkD(1-3) [OF o(2)] s0(6-8) by simp_all
  ultimately show ?thesis using ok pk o(4-6) s0(1) ut by (intro exI [of _ pcb] exI [of _ p] exI [of _ b] exI [of _ ?s]) simp
qed

section \<open>Properties\<close>

text \<open>
  Claim C16. Binding always returns \<open>ERR_OK\<close>: the search for a free port ends and finds one, since there are fewer control blocks than
  ports in the range. The control block gets the given address and the given port or, when the port is zero, a port of the range that no
  listed control block has; it is in the list exactly once, no other control block changes, and the invariant holds.
\<close>

theorem udp_bind_correct:
  fixes s :: udp_state
  assumes "udp_ok sizes base s" and "udp_tab s pcb = Some u"
  shows "\<exists>q L. udp_bind pcb ipaddr port s = Some (ERR_OK, s\<lparr>udp_tab := (udp_tab s)(pcb \<mapsto> u\<lparr>local_ip := ipaddr, local_port := q\<rparr>), udp_pcbs := L\<rparr>)
    \<and> udp_ok sizes base (s\<lparr>udp_tab := (udp_tab s)(pcb \<mapsto> u\<lparr>local_ip := ipaddr, local_port := q\<rparr>), udp_pcbs := L\<rparr>)
    \<and> distinct L \<and> set L = insert pcb (set (udp_pcbs s))
    \<and> (if port = 0 then UDP_LOCAL_PORT_RANGE_START \<le> q \<and> q < UDP_LOCAL_PORT_RANGE_END \<and> (\<forall>p\<in>set (udp_pcbs s). local_port (the (udp_tab s p)) \<noteq> q) else q = port)"
proof -
  let ?L = "if pcb \<in> set (udp_pcbs s) then udp_pcbs s else pcb # udp_pcbs s"
  obtain q where q: "udp_bind pcb ipaddr port s = Some (ERR_OK, s\<lparr>udp_tab := (udp_tab s)(pcb \<mapsto> u\<lparr>local_ip := ipaddr, local_port := q\<rparr>), udp_pcbs := ?L\<rparr>)"
    "udp_ok sizes base (s\<lparr>udp_tab := (udp_tab s)(pcb \<mapsto> u\<lparr>local_ip := ipaddr, local_port := q\<rparr>), udp_pcbs := ?L\<rparr>)" "port_chosen port s q"
    using udp_bind_ok [OF assms, of ipaddr port] by blast
  have "distinct ?L" "set ?L = insert pcb (set (udp_pcbs s))" using assms(1) by (auto simp: udp_ok_def)
  then show ?thesis using q by (intro exI [of _ q] exI [of _ ?L]) (auto simp: port_chosen_def port_of_def)
qed

theorem udp_bind_correct_witness:
  "\<exists>pcb q (s :: udp_state) s'. udp_tab s = [pcb \<mapsto> udp_fresh\<lparr>local_port := 7\<rparr>] \<and> udp_bind pcb 0 0 s = Some (ERR_OK, s') \<and> udp_ok example_sizes 20000 s'
    \<and> udp_tab s' = [pcb \<mapsto> udp_fresh\<lparr>local_port := q\<rparr>] \<and> 4096 \<le> q \<and> q < 0x7fff"
proof -
  obtain pcb and s :: udp_state where s: "udp_ok example_sizes 20000 s" "udp_tab s = [pcb \<mapsto> udp_fresh\<lparr>local_port := 7\<rparr>]"
    using udp_example [of "[0]" PBUF_LINK] by auto
  moreover have "udp_tab s pcb = Some (udp_fresh\<lparr>local_port := 7\<rparr>)" by (simp add: s(2))
  ultimately show ?thesis using udp_bind_correct [of example_sizes 20000 s pcb "udp_fresh\<lparr>local_port := 7\<rparr>" 0 0]
    by (fastforce simp: udp_fresh_def UDP_LOCAL_PORT_RANGE_START_def UDP_LOCAL_PORT_RANGE_END_def)
qed

text \<open>
  Claim C18. The demultiplexing of a datagram selects the first listed control block whose local and remote ends match and, if there is
  none, the first unconnected one whose local end matches; a connected control block is never selected for a datagram of
  another peer. The list keeps its elements, a full match moves to the front.
\<close>

theorem udp_demux_correct:
  fixes s :: udp_state
  assumes "udp_ok sizes base s"
  shows "\<exists>L. udp_demux src dest ipsrc ipdest bc s = Some (udp_select src dest ipsrc ipdest bc s, s\<lparr>udp_pcbs := L\<rparr>) \<and> udp_ok sizes base (s\<lparr>udp_pcbs := L\<rparr>)
    \<and> mset L = mset (udp_pcbs s)
    \<and> (if first_pcb (udp_full_match src dest ipsrc ipdest bc) s (udp_pcbs s) \<noteq> NULL then hd L = udp_select src dest ipsrc ipdest bc s else L = udp_pcbs s)"
proof -
  have "udp_select src dest ipsrc ipdest bc s = first_pcb (udp_full_match src dest ipsrc ipdest bc) s (udp_pcbs s)"
    if "first_pcb (udp_full_match src dest ipsrc ipdest bc) s (udp_pcbs s) \<noteq> NULL" using that by (simp add: udp_select_def)
  then show ?thesis using udp_demux_ok [OF udp_ok_wf [OF assms], of src dest ipsrc ipdest bc] udp_ok_list [OF assms] by metis
qed

theorem udp_demux_correct_witness:
  "\<exists>pcb (s :: udp_state). pcb \<noteq> NULL \<and> udp_demux 9999 7 0x0200000a 0x0100000a False s = Some (pcb, s)
    \<and> udp_demux 9999 8 0x0200000a 0x0100000a False s = Some (NULL, s)"
proof -
  obtain pcb and s :: udp_state where s: "udp_ok example_sizes 20000 s" "pcb \<noteq> NULL" "udp_tab s = [pcb \<mapsto> udp_fresh\<lparr>local_port := 7\<rparr>]" "udp_pcbs s = [pcb]"
    using udp_example [of "[0]" PBUF_LINK] by auto
  have m: "udp_select 9999 7 0x0200000a 0x0100000a False s = pcb" "udp_select 9999 8 0x0200000a 0x0100000a False s = NULL"
    by (simp_all add: udp_select_def s udp_full_match_def udp_uncon_match_def udp_local_match_def udp_fresh_def)
  have f: "first_pcb (udp_full_match 9999 x 0x0200000a 0x0100000a False) s (udp_pcbs s) = NULL" for x
    by (simp add: s udp_full_match_def udp_fresh_def)
  have "s\<lparr>udp_pcbs := udp_pcbs s\<rparr> = s" by simp
  then have "udp_demux 9999 7 0x0200000a 0x0100000a False s = Some (pcb, s)" "udp_demux 9999 8 0x0200000a 0x0100000a False s = Some (NULL, s)"
    using udp_demux_correct [OF s(1), of 9999 7 "0x0200000a" "0x0100000a" False] udp_demux_correct [OF s(1), of 9999 8 "0x0200000a" "0x0100000a" False]
    unfolding m f by auto
  then show ?thesis using s(2) by blast
qed

text \<open>
  Claim C15. No sequence of calls of the interface (creation, removal, binding, connecting, disconnecting, registering a callback, the
  demultiplexing of a datagram) breaks the invariant of the control blocks: the list has no duplicates and only live control
  blocks, which are exactly the elements taken from the pool, so at most four. In every state so reached, every further call returns: no assertion of the code fails.
\<close>

theorem udp_run_safe:
  assumes "udp_ok sizes base s" and "udp_step\<^sup>*\<^sup>* s s'"
  shows "udp_ok sizes base s' \<and> length (udp_pcbs s') \<le> 4 \<and> udp_new s' \<noteq> None \<and> udp_demux src dest ipsrc ipdest bc s' \<noteq> None
    \<and> (\<forall>pcb. udp_tab s' pcb \<noteq> None \<longrightarrow> udp_remove pcb s' \<noteq> None \<and> udp_bind pcb ipaddr port s' \<noteq> None \<and> udp_connect pcb ipaddr port s' \<noteq> None
        \<and> udp_disconnect pcb s' \<noteq> None \<and> udp_recv pcb f arg s' \<noteq> None)"
proof -
  have ok: "udp_ok sizes base s'" by (rule udp_steps_ok [OF assms(2,1)])
  have "udp_remove pcb s' \<noteq> None \<and> udp_bind pcb ipaddr port s' \<noteq> None \<and> udp_connect pcb ipaddr port s' \<noteq> None \<and> udp_disconnect pcb s' \<noteq> None \<and> udp_recv pcb f arg s' \<noteq> None"
    if live: "udp_tab s' pcb \<noteq> None" for pcb
  proof -
    obtain u where u: "udp_tab s' pcb = Some u" using live by blast
    show ?thesis using udp_remove_ok [OF ok u] udp_bind_ok [OF ok u, of ipaddr port] udp_connect_ok [OF ok u, of ipaddr port] udp_mod_ok [OF ok u] by fastforce
  qed
  moreover have "udp_new s' \<noteq> None" "udp_demux src dest ipsrc ipdest bc s' \<noteq> None" using udp_new_ok [OF ok] udp_demux_ok [OF udp_ok_wf [OF ok], of src dest ipsrc ipdest bc] by fastforce+
  moreover have "length (udp_pcbs s') \<le> 4" using udp_ok_live [OF ok] by simp
  ultimately show ?thesis using ok by blast
qed

theorem udp_run_safe_witness:
  "\<exists>pcb s. udp_new example_udp = Some (pcb, s) \<and> udp_tab s pcb \<noteq> None \<and> udp_ok example_sizes 20000 s \<and> udp_bind pcb 0 0 s \<noteq> None \<and> udp_remove pcb s \<noteq> None"
proof -
  obtain pcb and s :: udp_state where s: "udp_new example_udp = Some (pcb, s)" "udp_tab s = [pcb \<mapsto> udp_fresh]" using example_udp_new by blast
  have "udp_step\<^sup>*\<^sup>* example_udp s" using step_new [OF s(1)] by blast
  from udp_run_safe [OF example_udp_ok this, of 0 0 0 0 False 0 0] s show ?thesis by auto
qed

text \<open>
  Claim C7. \<open>udp_input\<close> on an owned datagram always returns, unless the callback does not. It drops a datagram that is too short for the two headers,
  that has no control block and is not for the interface's address, or whose checksum (over the pseudo header, when
  the sender set one) does not verify; one whose control block has no callback; and one for no control block when it went to a broadcast or multicast
  address. Otherwise a datagram without a control block is refused with an ICMP port-unreachable message to its source, and
  one with a control block is handed to the callback, exactly its data, with the sender's address and port. The list
  of control blocks keeps its elements, and no other packet is touched.
\<close>

theorem udp_input_correct:
  fixes s :: udp_state
  assumes "udp_ok sizes base s" and "ifs_ok s" and "own_packet s p xs" and "netifs s inp = Some n" and "pbufs s p = Some b"
    and "hlen = unat (IPH_HL (bytes s) (payload b)) * 4" and "20 \<le> hlen" and "hlen + 8 \<le> len b \<or> tot_len b < hlen + 8"
    and "route_of (iph_src (bytes s) (payload b)) s \<noteq> NULL \<Longrightarrow> eth_netif (netifs s) (route_of (iph_src (bytes s) (payload b)) s) m \<and> nif_mtu m = 1500"
  shows "\<exists>L. mset L = mset (udp_pcbs s) \<and> udp_input_post sizes base callback p xs hlen b n m L s (udp_input callback p inp s)"
  by (rule udp_input_ok [OF udp_ok_wf [OF assms(1)] assms(2-9)])

definition example_udp_packet :: "u8_t list" where
  "example_udp_packet = [0x45, 0, 0, 30, 0, 0, 0, 0, 64, 17, 0, 0, 10, 0, 0, 2, 10, 0, 0, 1, 0x10, 0x00, 0, 7, 0, 10, 0, 0, 104, 105]"

theorem udp_input_correct_witness:
  "\<exists>p b L (s :: udp_state) n. chain_data s [p] = example_udp_packet
    \<and> udp_input_post example_sizes 20000 (\<lambda>f arg pcb p a port s. udp_drop p s) p [p] 20 b example_netif n L s (udp_input (\<lambda>f arg pcb p a port s. udp_drop p s) p 5000 s)"
proof -
  have l: "length example_udp_packet = 30" by (simp add: example_udp_packet_def)
  obtain pcb p b and s :: udp_state where s: "udp_ok example_sizes 20000 s" "netifs s = [5000 \<mapsto> example_netif]" "netif_list s = [5000]" "netif_default s = 5000"
    "own_packet s p [p]" "pbufs s p = Some b" "len b = 30" "chain_data s [p] = example_udp_packet" "peek (bytes s) (payload b) 30 = example_udp_packet"
    using udp_example [of example_udp_packet PBUF_LINK] unfolding l by auto
  have io: "ifs_ok s" by (simp add: s(2-4) ifs_ok_def)
  have "bytes s (payload b) = 0x45" using arg_cong [OF s(9), of "\<lambda>x. x ! 0"] by (simp add: peek_def example_udp_packet_def)
  then have hl: "20 = unat (IPH_HL (bytes s) (payload b)) * 4" using hl_of_byte [of "bytes s" "payload b"] by simp
  have "take 4 (drop 12 (peek (bytes s) (payload b) 30)) = peek (bytes s) (payload b + 12) 4" by (simp add: drop_peek take_peek)
  moreover have "le32 0x0200000a = [10, 0, 0, 2]" by (simp add: le32_def)
  ultimately have "peek (bytes s) (payload b + 12) 4 = le32 0x0200000a" unfolding s(9) by (simp add: example_udp_packet_def)
  then have src: "iph_src (bytes s) (payload b) = 0x0200000a" unfolding iph_src_def using ld32_le32 by metis
  have rt: "route_of 0x0200000a s = 5000" by (simp add: route_of_def s(2-4) example_netif_def netif_is_up_def NETIF_FLAG_UP_def ip_addr_netcmp_def)
  have m: "eth_netif (netifs s) (route_of (iph_src (bytes s) (payload b)) s) example_netif \<and> nif_mtu example_netif = 1500"
    unfolding src rt by (simp add: s(2) eth_netif_def example_netif_def)
  have n: "netifs s 5000 = Some example_netif" by (simp add: s(2))
  have "20 \<le> (20 :: nat)" "20 + 8 \<le> len b \<or> tot_len b < 20 + 8" using s(7) by simp_all
  from udp_input_correct [OF s(1) io s(5) n s(6) hl this m, of "\<lambda>f arg pcb p a port s. udp_drop p s"] s(8) show ?thesis by blast
qed


end
