(* ===== verification/Ip_Reass.thy ===== *)
theory Ip_Reass
  imports Udp
begin

text \<open>
  Reassembly, the first half of \<^verbatim>\<open>lwip/src/core/ipv4/ip_frag.c\<close>, with \<open>IP_REASS_CHECK_OVERLAP\<close> and \<open>IP_REASS_FREE_OLDEST\<close> as
  this build has them.

  State. \<open>reass_tab\<close> holds the \<open>struct ip_reassdata\<close> at their addresses and \<open>reassdatagrams\<close> is the list that their field \<open>next\<close>
  threads. The fragments of a datagram are linked by a \<open>struct ip_reass_helper\<close> that the code overlays on the IP header of
  each fragment; \<open>reass_helpers\<close> holds them at the addresses of these headers. The bytes under a helper are not read as a header
  again until the saved header has been written over them. A saved header is the list of its 20 bytes.
\<close>

section \<open>State\<close>

record ip_reassdata =
  rd_p :: addr
  rd_iphdr :: "u8_t list"
  datagram_len :: u16_t
  rd_flags :: u8_t
  timer :: u8_t

record ip_reass_helper =
  next_pbuf :: addr
  frag_start :: u16_t
  frag_end :: u16_t

record reass_state = udp_state +
  reass_tab :: "addr \<rightharpoonup> ip_reassdata"
  reassdatagrams :: "addr list"
  reass_helpers :: "addr \<rightharpoonup> ip_reass_helper"
  ip_reass_pbufcount :: u16_t

definition IP_REASS_FLAG_LASTFRAG :: u8_t where "IP_REASS_FLAG_LASTFRAG = 0x01"
definition IP_REASS_MAXAGE :: u8_t where "IP_REASS_MAXAGE = 3"
definition IP_REASS_MAX_PBUFS :: nat where "IP_REASS_MAX_PBUFS = 10"

text \<open>A saved header as memory, from address 0.\<close>

definition hdr_mem :: "u8_t list \<Rightarrow> addr \<Rightarrow> u8_t" where
  "hdr_mem hdr = poke 0 hdr (\<lambda>_. 0)"

definition IP_ADDRESSES_AND_ID_MATCH :: "u8_t list \<Rightarrow> addr \<Rightarrow> (addr \<Rightarrow> u8_t) \<Rightarrow> bool" where
  "IP_ADDRESSES_AND_ID_MATCH hdr h d \<longleftrightarrow> iph_src (hdr_mem hdr) 0 = iph_src d h \<and> iph_dest (hdr_mem hdr) 0 = iph_dest d h
     \<and> IPH_ID (hdr_mem hdr) 0 = IPH_ID d h"

definition frag_offset :: "(addr \<Rightarrow> u8_t) \<Rightarrow> addr \<Rightarrow> u16_t" where
  "frag_offset d h = (ntohs (IPH_OFFSET d h) AND IP_OFFMASK) * 8"

definition frag_len :: "(addr \<Rightarrow> u8_t) \<Rightarrow> addr \<Rightarrow> u16_t" where
  "frag_len d h = ntohs (IPH_LEN d h) - IPH_HL d h * 4"

definition mod_reass :: "addr \<Rightarrow> (ip_reassdata \<Rightarrow> ip_reassdata) \<Rightarrow> 'a reass_state_scheme \<Rightarrow> 'a reass_state_scheme option" where
  "mod_reass ipr f s = do { r \<leftarrow> reass_tab s ipr; Some (s\<lparr>reass_tab := (reass_tab s)(ipr \<mapsto> f r)\<rparr>) }"

definition set_next_pbuf :: "addr \<Rightarrow> addr \<Rightarrow> 'a reass_state_scheme \<Rightarrow> 'a reass_state_scheme option" where
  "set_next_pbuf iprh q s = do { h \<leftarrow> reass_helpers s iprh; Some (s\<lparr>reass_helpers := (reass_helpers s)(iprh \<mapsto> h\<lparr>next_pbuf := q\<rparr>)\<rparr>) }"

section \<open>The list of datagrams\<close>

text \<open>The field \<open>next\<close> of an element, and the list after \<open>prev->next = ipr->next\<close>.\<close>

definition reass_next :: "addr \<Rightarrow> addr list \<Rightarrow> addr" where
  "reass_next r rs = (case tl (dropWhile (\<lambda>x. x \<noteq> r) rs) of [] \<Rightarrow> NULL | q # _ \<Rightarrow> q)"

definition reass_bypass :: "addr \<Rightarrow> addr \<Rightarrow> addr list \<Rightarrow> addr list" where
  "reass_bypass prev ipr rs = takeWhile (\<lambda>x. x \<noteq> prev) rs @ [prev] @ tl (dropWhile (\<lambda>x. x \<noteq> ipr) rs)"

definition ip_reass_dequeue_datagram :: "addr \<Rightarrow> addr \<Rightarrow> 'a reass_state_scheme \<Rightarrow> 'a reass_state_scheme option" where
  "ip_reass_dequeue_datagram ipr prev s = do {
     s \<leftarrow> (if reassdatagrams s \<noteq> [] \<and> hd (reassdatagrams s) = ipr then Some (s\<lparr>reassdatagrams := tl (reassdatagrams s)\<rparr>)
           else do { lwip_assert (prev \<noteq> NULL); Some (s\<lparr>reassdatagrams := reass_bypass prev ipr (reassdatagrams s)\<rparr>) });
     s \<leftarrow> memp_release MEMP_REASSDATA ipr s;
     Some (s\<lparr>reass_tab := (reass_tab s)(ipr := None)\<rparr>)
   }"

partial_function (option) reass_free_loop :: "addr \<Rightarrow> nat \<Rightarrow> 'a reass_state_scheme \<Rightarrow> (nat \<times> 'a reass_state_scheme) option" where
  "reass_free_loop p pbufs_freed s =
     (if p = NULL then Some (pbufs_freed, s)
      else do {
        b \<leftarrow> pbufs s p;
        iprh \<leftarrow> reass_helpers s (payload b);
        c \<leftarrow> pbuf_clen p s;
        (n, s) \<leftarrow> pbuf_free p s;
        reass_free_loop (next_pbuf iprh) (pbufs_freed + c) s
      })"

declare reass_free_loop.simps [code]

definition ip_reass_free_complete_datagram :: "addr \<Rightarrow> addr \<Rightarrow> 'a reass_state_scheme \<Rightarrow> (nat \<times> 'a reass_state_scheme) option" where
  "ip_reass_free_complete_datagram ipr prev s = do {
     lwip_assert (prev \<noteq> ipr);
     lwip_assert (prev \<noteq> NULL \<longrightarrow> reass_next prev (reassdatagrams s) = ipr);
     r \<leftarrow> reass_tab s ipr;
     b \<leftarrow> pbufs s (rd_p r);
     iprh \<leftarrow> reass_helpers s (payload b);
     (pbufs_freed, s) \<leftarrow> (if frag_start iprh = 0 then do {
         let p = rd_p r;
         s \<leftarrow> mod_reass ipr (\<lambda>r. r\<lparr>rd_p := next_pbuf iprh\<rparr>) s;
         let s = s\<lparr>bytes := poke (payload b) (rd_iphdr r) (bytes s)\<rparr>;
         s \<leftarrow> icmp_time_exceeded p ICMP_TE_FRAG s;
         c \<leftarrow> pbuf_clen p s;
         (n, s) \<leftarrow> pbuf_free p s;
         Some (c, s)
       } else Some (0, s));
     r \<leftarrow> reass_tab s ipr;
     (pbufs_freed, s) \<leftarrow> reass_free_loop (rd_p r) pbufs_freed s;
     s \<leftarrow> ip_reass_dequeue_datagram ipr prev s;
     lwip_assert (pbufs_freed \<le> unat (ip_reass_pbufcount s));
     Some (pbufs_freed, s\<lparr>ip_reass_pbufcount := ip_reass_pbufcount s - of_nat pbufs_freed\<rparr>)
   }"

section \<open>The timer\<close>

fun reass_tmr_loop :: "addr list \<Rightarrow> addr \<Rightarrow> 'a reass_state_scheme \<Rightarrow> 'a reass_state_scheme option" where
  "reass_tmr_loop [] prev s = Some s"
| "reass_tmr_loop (r # rs) prev s = do {
     x \<leftarrow> reass_tab s r;
     if timer x > 0 then do { s \<leftarrow> mod_reass r (\<lambda>x. x\<lparr>timer := timer x - 1\<rparr>) s; reass_tmr_loop rs r s }
     else do { (n, s) \<leftarrow> ip_reass_free_complete_datagram r prev s; reass_tmr_loop rs prev s }
   }"

definition ip_reass_tmr :: "'a reass_state_scheme \<Rightarrow> 'a reass_state_scheme option" where
  "ip_reass_tmr s = reass_tmr_loop (reassdatagrams s) NULL s"

section \<open>Making room\<close>

text \<open>The inner loop of \<open>ip_reass_remove_oldest_datagram\<close>: the oldest datagram that \<open>fraghdr\<close> does not belong to, and how many there are.\<close>

fun oldest_scan :: "addr \<Rightarrow> addr list \<Rightarrow> addr \<Rightarrow> nat \<Rightarrow> 'a reass_state_scheme \<Rightarrow> (addr \<times> nat) option" where
  "oldest_scan fraghdr [] oldest_r other_datagrams s = Some (oldest_r, other_datagrams)"
| "oldest_scan fraghdr (r # rs) oldest_r other_datagrams s = do {
     x \<leftarrow> reass_tab s r;
     if \<not> IP_ADDRESSES_AND_ID_MATCH (rd_iphdr x) fraghdr (bytes s) then do {
       oldest_r \<leftarrow> (if oldest_r = NULL then Some r else do { y \<leftarrow> reass_tab s oldest_r; Some (if timer x \<le> timer y then r else oldest_r) });
       oldest_scan fraghdr rs oldest_r (other_datagrams + 1) s
     }
     else oldest_scan fraghdr rs oldest_r other_datagrams s
   }"

text \<open>The variable \<open>prev\<close> after that loop: the last element that has a successor.\<close>

definition oldest_prev :: "addr list \<Rightarrow> addr" where
  "oldest_prev rs = (if length rs \<ge> 2 then rs ! (length rs - 2) else NULL)"

partial_function (option) remove_oldest_loop :: "addr \<Rightarrow> nat \<Rightarrow> nat \<Rightarrow> 'a reass_state_scheme \<Rightarrow> (nat \<times> 'a reass_state_scheme) option" where
  "remove_oldest_loop fraghdr pbufs_needed pbufs_freed s = do {
     (oldest_r, other_datagrams) \<leftarrow> oldest_scan fraghdr (reassdatagrams s) NULL 0 s;
     (pbufs_freed, s) \<leftarrow> (if oldest_r \<noteq> NULL then do {
         (n, s) \<leftarrow> ip_reass_free_complete_datagram oldest_r (oldest_prev (reassdatagrams s)) s;
         Some (pbufs_freed + n, s)
       } else Some (pbufs_freed, s));
     if pbufs_freed < pbufs_needed \<and> 1 < other_datagrams then remove_oldest_loop fraghdr pbufs_needed pbufs_freed s
     else Some (pbufs_freed, s)
   }"

declare remove_oldest_loop.simps [code]

definition ip_reass_remove_oldest_datagram :: "addr \<Rightarrow> nat \<Rightarrow> 'a reass_state_scheme \<Rightarrow> (nat \<times> 'a reass_state_scheme) option" where
  "ip_reass_remove_oldest_datagram fraghdr pbufs_needed s = remove_oldest_loop fraghdr pbufs_needed 0 s"

definition ip_reass_enqueue_new_datagram :: "addr \<Rightarrow> nat \<Rightarrow> 'a reass_state_scheme \<Rightarrow> (addr \<times> 'a reass_state_scheme) option" where
  "ip_reass_enqueue_new_datagram fraghdr clen s = do {
     (ipr, m) \<leftarrow> memp_malloc (memp s) MEMP_REASSDATA;
     let s = s\<lparr>memp := m\<rparr>;
     (ipr, s) \<leftarrow> (if ipr = NULL then do {
         (n, s) \<leftarrow> ip_reass_remove_oldest_datagram fraghdr clen s;
         if clen \<le> n then do { (ipr, m) \<leftarrow> memp_malloc (memp s) MEMP_REASSDATA; Some (ipr, s\<lparr>memp := m\<rparr>) }
         else Some (NULL, s)
       } else Some (ipr, s));
     if ipr = NULL then Some (NULL, s)
     else Some (ipr, s\<lparr>reass_tab := (reass_tab s)(ipr \<mapsto> \<lparr>rd_p = NULL, rd_iphdr = peek (bytes s) fraghdr IP_HLEN, datagram_len = 0,
                    rd_flags = 0, timer = IP_REASS_MAXAGE\<rparr>), reassdatagrams := ipr # reassdatagrams s\<rparr>)
   }"

section \<open>Chaining a fragment\<close>

text \<open>
  The loop of \<open>ip_reass_chain_frag_into_datagram_and_validate\<close>: where it stopped (\<open>q\<close>), the helper before it and whether there was
  no hole so far; \<open>Some None\<close> is the jump to \<open>freepbuf\<close>.
\<close>

partial_function (option) chain_walk :: "u16_t \<Rightarrow> u16_t \<Rightarrow> addr \<Rightarrow> addr \<Rightarrow> bool \<Rightarrow> 'a reass_state_scheme \<Rightarrow> (addr \<times> addr \<times> bool) option option" where
  "chain_walk start_new end_new q iprh_prev valid s =
     (if q = NULL then Some (Some (NULL, iprh_prev, valid))
      else do {
        b \<leftarrow> pbufs s q;
        tmp \<leftarrow> reass_helpers s (payload b);
        if start_new < frag_start tmp then
          (if iprh_prev \<noteq> NULL then do {
             prev \<leftarrow> reass_helpers s iprh_prev;
             if start_new < frag_end prev \<or> frag_start tmp < end_new then Some None else Some (Some (q, iprh_prev, valid))
           } else Some (Some (q, iprh_prev, valid)))
        else if start_new = frag_start tmp then Some None
        else if start_new < frag_end tmp then Some None
        else do {
          valid \<leftarrow> (if iprh_prev \<noteq> NULL then do { prev \<leftarrow> reass_helpers s iprh_prev; Some (valid \<and> frag_end prev = frag_start tmp) }
                   else Some valid);
          chain_walk start_new end_new (next_pbuf tmp) (payload b) valid s
        }
      })"

declare chain_walk.simps [code]

text \<open>The walk behind the new fragment: whether there is no hole, and the helper where it stopped.\<close>

partial_function (option) chain_check :: "addr \<Rightarrow> 'a reass_state_scheme \<Rightarrow> (bool \<times> addr) option" where
  "chain_check iprh s = do {
     h \<leftarrow> reass_helpers s iprh;
     if next_pbuf h = NULL then Some (True, iprh)
     else do {
       b \<leftarrow> pbufs s (next_pbuf h);
       h' \<leftarrow> reass_helpers s (payload b);
       if frag_end h \<noteq> frag_start h' then Some (False, payload b) else chain_check (payload b) s
     }
   }"

declare chain_check.simps [code]

definition chain_link :: "addr \<Rightarrow> addr \<Rightarrow> addr \<Rightarrow> addr \<Rightarrow> addr \<Rightarrow> bool \<Rightarrow> 'a reass_state_scheme \<Rightarrow> (bool \<times> 'a reass_state_scheme) option" where
  "chain_link ipr new_p iprh q iprh_prev valid s =
     (if q \<noteq> NULL then do {
        s \<leftarrow> set_next_pbuf iprh q s;
        s \<leftarrow> (if iprh_prev \<noteq> NULL then set_next_pbuf iprh_prev new_p s else mod_reass ipr (\<lambda>r. r\<lparr>rd_p := new_p\<rparr>) s);
        Some (valid, s)
      }
      else if iprh_prev \<noteq> NULL then do {
        h \<leftarrow> reass_helpers s iprh;
        prev \<leftarrow> reass_helpers s iprh_prev;
        lwip_assert (frag_end prev \<le> frag_start h);
        s \<leftarrow> set_next_pbuf iprh_prev new_p s;
        Some (valid \<and> frag_end prev = frag_start h, s)
      }
      else do {
        r \<leftarrow> reass_tab s ipr;
        lwip_assert (rd_p r = NULL);
        s \<leftarrow> mod_reass ipr (\<lambda>r. r\<lparr>rd_p := new_p\<rparr>) s;
        Some (valid, s)
      })"

definition chain_validate :: "addr \<Rightarrow> addr \<Rightarrow> bool \<Rightarrow> 'a reass_state_scheme \<Rightarrow> bool option" where
  "chain_validate ipr iprh valid s = do {
     r \<leftarrow> reass_tab s ipr;
     if rd_flags r AND IP_REASS_FLAG_LASTFRAG = 0 then Some False
     else if \<not> valid then Some False
     else do {
       b \<leftarrow> pbufs s (rd_p r);
       h \<leftarrow> reass_helpers s (payload b);
       if frag_start h \<noteq> 0 then Some False
       else do {
         (valid, last) \<leftarrow> chain_check iprh s;
         if valid then do {
           lwip_assert (rd_p r \<noteq> NULL);
           lwip_assert (payload b \<noteq> last);
           h \<leftarrow> reass_helpers s last;
           lwip_assert (next_pbuf h = NULL);
           lwip_assert (frag_end h = datagram_len r);
           Some True
         } else Some False
       }
     }
   }"

definition ip_reass_chain_frag_into_datagram_and_validate :: "addr \<Rightarrow> addr \<Rightarrow> 'a reass_state_scheme \<Rightarrow> (bool \<times> 'a reass_state_scheme) option" where
  "ip_reass_chain_frag_into_datagram_and_validate ipr new_p s = do {
     b \<leftarrow> pbufs s new_p;
     let fraghdr = payload b;
     let l = frag_len (bytes s) fraghdr;
     let offset = frag_offset (bytes s) fraghdr;
     let s = s\<lparr>reass_helpers := (reass_helpers s)(fraghdr \<mapsto> \<lparr>next_pbuf = NULL, frag_start = offset, frag_end = offset + l\<rparr>)\<rparr>;
     r \<leftarrow> reass_tab s ipr;
     w \<leftarrow> chain_walk offset (offset + l) (rd_p r) NULL True s;
     case w of
       None \<Rightarrow> do {
         c \<leftarrow> pbuf_clen new_p s;
         (n, s) \<leftarrow> pbuf_free new_p (s\<lparr>ip_reass_pbufcount := ip_reass_pbufcount s - of_nat c\<rparr>);
         Some (False, s)
       }
     | Some (q, iprh_prev, valid) \<Rightarrow> do {
         (valid, s) \<leftarrow> chain_link ipr new_p fraghdr q iprh_prev valid s;
         valid \<leftarrow> chain_validate ipr fraghdr valid s;
         Some (valid, s)
       }
   }"

section \<open>Reassembly\<close>

fun reass_find :: "addr \<Rightarrow> addr list \<Rightarrow> addr \<Rightarrow> 'a reass_state_scheme \<Rightarrow> (addr \<times> addr) option" where
  "reass_find fraghdr [] ipr_prev s = Some (NULL, ipr_prev)"
| "reass_find fraghdr (ipr # rs) ipr_prev s = do {
     r \<leftarrow> reass_tab s ipr;
     if IP_ADDRESSES_AND_ID_MATCH (rd_iphdr r) fraghdr (bytes s) then Some (ipr, ipr_prev) else reass_find fraghdr rs ipr s
   }"

partial_function (option) reass_cat_loop :: "addr \<Rightarrow> addr \<Rightarrow> 'a reass_state_scheme \<Rightarrow> 'a reass_state_scheme option" where
  "reass_cat_loop p r s =
     (if r = NULL then Some s
      else do {
        b \<leftarrow> pbufs s r;
        let iprh = payload b;
        (failed, s) \<leftarrow> pbuf_header r (- int IP_HLEN) s;
        s \<leftarrow> pbuf_cat p r s;
        h \<leftarrow> reass_helpers s iprh;
        reass_cat_loop p (next_pbuf h) s
      })"

declare reass_cat_loop.simps [code]

definition reass_header_bytes :: "addr \<Rightarrow> u8_t list \<Rightarrow> u16_t \<Rightarrow> (addr \<Rightarrow> u8_t) \<Rightarrow> (addr \<Rightarrow> u8_t)" where
  "reass_header_bytes fraghdr hdr l d =
     (let d = poke fraghdr hdr d;
          d = IPH_LEN_SET fraghdr (htons l) d;
          d = IPH_OFFSET_SET fraghdr 0 d;
          d = IPH_CHKSUM_SET fraghdr 0 d
      in IPH_CHKSUM_SET fraghdr (inet_chksum d fraghdr IP_HLEN) d)"

definition reass_complete :: "addr \<Rightarrow> addr \<Rightarrow> 'a reass_state_scheme \<Rightarrow> (addr \<times> 'a reass_state_scheme) option" where
  "reass_complete ipr ipr_prev s = do {
     s \<leftarrow> mod_reass ipr (\<lambda>r. r\<lparr>datagram_len := datagram_len r + of_nat IP_HLEN\<rparr>) s;
     rd \<leftarrow> reass_tab s ipr;
     let p = rd_p rd;
     b \<leftarrow> pbufs s p;
     h \<leftarrow> reass_helpers s (payload b);
     let s = s\<lparr>bytes := reass_header_bytes (payload b) (rd_iphdr rd) (datagram_len rd) (bytes s)\<rparr>;
     s \<leftarrow> reass_cat_loop p (next_pbuf h) s;
     s \<leftarrow> ip_reass_dequeue_datagram ipr ipr_prev s;
     c \<leftarrow> pbuf_clen p s;
     Some (p, s\<lparr>ip_reass_pbufcount := ip_reass_pbufcount s - of_nat c\<rparr>)
   }"

definition reass_nullreturn :: "addr \<Rightarrow> 'a reass_state_scheme \<Rightarrow> (addr \<times> 'a reass_state_scheme) option" where
  "reass_nullreturn p s = do { (n, s) \<leftarrow> pbuf_free p s; Some (NULL, s) }"

definition ip_reass :: "addr \<Rightarrow> 'a reass_state_scheme \<Rightarrow> (addr \<times> 'a reass_state_scheme) option" where
  "ip_reass p s = do {
     b \<leftarrow> pbufs s p;
     let fraghdr = payload b;
     if unat (IPH_HL (bytes s) fraghdr) * 4 \<noteq> IP_HLEN then reass_nullreturn p s
     else do {
       let offset = frag_offset (bytes s) fraghdr;
       let l = frag_len (bytes s) fraghdr;
       clen \<leftarrow> pbuf_clen p s;
       (full, s) \<leftarrow> (if IP_REASS_MAX_PBUFS < unat (ip_reass_pbufcount s) + clen then do {
           (n, s) \<leftarrow> ip_reass_remove_oldest_datagram fraghdr clen s;
           Some (n = 0 \<or> IP_REASS_MAX_PBUFS < unat (ip_reass_pbufcount s) + clen, s)
         } else Some (False, s));
       if full then reass_nullreturn p s
       else do {
         (ipr, ipr_prev) \<leftarrow> reass_find fraghdr (reassdatagrams s) NULL s;
         (ipr, s) \<leftarrow> (if ipr = NULL then ip_reass_enqueue_new_datagram fraghdr clen s
           else do {
             r \<leftarrow> reass_tab s ipr;
             s \<leftarrow> (if ntohs (IPH_OFFSET (bytes s) fraghdr) AND IP_OFFMASK = 0 \<and> ntohs (IPH_OFFSET (hdr_mem (rd_iphdr r)) 0) AND IP_OFFMASK \<noteq> 0
                   then mod_reass ipr (\<lambda>r. r\<lparr>rd_iphdr := peek (bytes s) fraghdr IP_HLEN\<rparr>) s else Some s);
             Some (ipr, s)
           });
         if ipr = NULL then reass_nullreturn p s
         else do {
           let s = s\<lparr>ip_reass_pbufcount := ip_reass_pbufcount s + of_nat clen\<rparr>;
           s \<leftarrow> (if ntohs (IPH_OFFSET (bytes s) fraghdr) AND IP_MF = 0
                 then mod_reass ipr (\<lambda>r. r\<lparr>rd_flags := rd_flags r OR IP_REASS_FLAG_LASTFRAG, datagram_len := offset + l\<rparr>) s else Some s);
           (valid, s) \<leftarrow> ip_reass_chain_frag_into_datagram_and_validate ipr p s;
           if valid then reass_complete ipr ipr_prev s else Some (NULL, s)
         }
       }
     }
   }"

end
