(* ===== verification/Ip_Input.thy ===== *)
theory Ip_Input
  imports Ip_Reass
begin

text \<open>
  The way up: \<open>ip_input\<close> of \<^verbatim>\<open>lwip/src/core/ipv4/ip.c\<close>, \<open>ethernet_input\<close> of \<^verbatim>\<open>lwip/src/netif/etharp.c\<close> and \<open>mintapif_input\<close> of
  \<^verbatim>\<open>lib_test/mintapif.c\<close>, which the bindings register as the input function of the interface. \<open>LWIP_IGMP\<close>, \<open>LWIP_DHCP\<close>, \<open>LWIP_RAW\<close>,
  \<open>IP_FORWARD\<close> and \<open>ETHARP_SUPPORT_VLAN\<close> are off in this build, IP options are allowed. \<open>tcp_input\<close> and the receive callback of UDP are arguments.
\<close>

section \<open>The IP layer\<close>

type_synonym 'a input_fn = "addr \<Rightarrow> addr \<Rightarrow> 'a reass_state_scheme \<Rightarrow> 'a reass_state_scheme option"

definition ip_drop :: "addr \<Rightarrow> 'a net_state_scheme \<Rightarrow> (err_t \<times> 'a net_state_scheme) option" where
  "ip_drop p s = do { (c, s) \<leftarrow> pbuf_free p s; Some (ERR_OK, s) }"

definition ip_accepted :: "u32_t \<Rightarrow> netif \<Rightarrow> bool" where
  "ip_accepted dest n \<longleftrightarrow> netif_is_up n \<and> \<not> ip_addr_isany (nif_ip_addr n) \<and> (dest = nif_ip_addr n \<or> ip_addr_isbroadcast dest n)"

text \<open>The loop over the interfaces, from the point where \<open>netif\<close> has been set to the next one; \<open>inp\<close> was tried before.\<close>

fun ip_input_walk :: "u32_t \<Rightarrow> addr \<Rightarrow> addr list \<Rightarrow> 'a netif_state_scheme \<Rightarrow> addr option" where
  "ip_input_walk dest inp [] s = Some NULL"
| "ip_input_walk dest inp [netif] s =
     (if netif = inp then Some NULL else do { n \<leftarrow> netifs s netif; if ip_accepted dest n then Some netif else Some NULL })"
| "ip_input_walk dest inp (netif # netif' # ns) s =
     (if netif = inp then do { n \<leftarrow> netifs s netif'; if ip_accepted dest n then Some netif' else ip_input_walk dest inp ns s }
      else do { n \<leftarrow> netifs s netif; if ip_accepted dest n then Some netif else ip_input_walk dest inp (netif' # ns) s })"

definition ip_input_netif :: "u32_t \<Rightarrow> addr \<Rightarrow> 'a netif_state_scheme \<Rightarrow> addr option" where
  "ip_input_netif dest inp s = do {
     n \<leftarrow> netifs s inp;
     if ip_accepted dest n then Some inp else ip_input_walk dest inp (netif_list s) s
   }"

type_synonym 'a recv_fn = "'a reass_state_ext udp_recv_fn"

text \<open>The end of \<open>ip_input\<close>: the packet goes to the protocol that its header names.\<close>

definition ip_deliver :: "'a input_fn \<Rightarrow> 'a recv_fn \<Rightarrow> addr \<Rightarrow> addr \<Rightarrow> addr \<Rightarrow> 'a reass_state_scheme \<Rightarrow> (err_t \<times> 'a reass_state_scheme) option" where
  "ip_deliver tcp_input callback p inp iphdr s = do {
     let s = s\<lparr>current_netif := inp, current_header := iphdr\<rparr>;
     let proto = IPH_PROTO (bytes s) iphdr;
     s \<leftarrow> (if proto = ucast IP_PROTO_UDP then udp_input callback p inp s
           else if proto = ucast IP_PROTO_TCP then tcp_input p inp s
           else if proto = ucast IP_PROTO_ICMP then icmp_input p inp s
           else do {
             n \<leftarrow> netifs s inp;
             let dest = iph_dest (bytes s) iphdr;
             s \<leftarrow> (if \<not> ip_addr_isbroadcast dest n \<and> \<not> ip_addr_ismulticast dest then do {
                     s \<leftarrow> mod_pbuf p (\<lambda>b. b\<lparr>payload := iphdr\<rparr>) s;
                     icmp_dest_unreach p ICMP_DUR_PROTO s
                   } else Some s);
             (c, s) \<leftarrow> pbuf_free p s;
             Some s
           });
     Some (ERR_OK, s\<lparr>current_netif := NULL, current_header := NULL\<rparr>)
   }"

definition ip_input :: "'a input_fn \<Rightarrow> 'a recv_fn \<Rightarrow> addr \<Rightarrow> addr \<Rightarrow> 'a reass_state_scheme \<Rightarrow> (err_t \<times> 'a reass_state_scheme) option" where
  "ip_input tcp_input callback p inp s = do {
     b \<leftarrow> pbufs s p;
     let iphdr = payload b;
     if IPH_V (bytes s) iphdr \<noteq> 4 then ip_drop p s
     else do {
       let iphdr_hlen = unat (IPH_HL (bytes s) iphdr) * 4;
       let iphdr_len = unat (ntohs (IPH_LEN (bytes s) iphdr));
       if len b < iphdr_hlen \<or> tot_len b < iphdr_len then ip_drop p s
       else if inet_chksum (bytes s) iphdr iphdr_hlen \<noteq> 0 then ip_drop p s
       else do {
         s \<leftarrow> pbuf_realloc p iphdr_len s;
         netif \<leftarrow> ip_input_netif (iph_dest (bytes s) iphdr) inp s;
         n \<leftarrow> netifs s inp;
         let src = iph_src (bytes s) iphdr;
         if ip_addr_isbroadcast src n \<or> ip_addr_ismulticast src then ip_drop p s
         else if netif = NULL then ip_drop p s
         else if IPH_OFFSET (bytes s) iphdr AND htons (IP_OFFMASK OR IP_MF) \<noteq> 0 then do {
           (p, s) \<leftarrow> ip_reass p s;
           if p = NULL then Some (ERR_OK, s)
           else do { b \<leftarrow> pbufs s p; ip_deliver tcp_input callback p inp (payload b) s }
         }
         else ip_deliver tcp_input callback p inp iphdr s
       }
     }
   }"

section \<open>The link layer and the driver\<close>

definition ethernet_input :: "'a input_fn \<Rightarrow> 'a recv_fn \<Rightarrow> addr \<Rightarrow> addr \<Rightarrow> 'a reass_state_scheme \<Rightarrow> (err_t \<times> 'a reass_state_scheme) option" where
  "ethernet_input tcp_input callback p netif s = do {
     b \<leftarrow> pbufs s p;
     let type = htons (ld16 (bytes s) (payload b + 12));
     s \<leftarrow> (if type = ETHTYPE_IP then do {
             s \<leftarrow> etharp_ip_input netif p s;
             (failed, s) \<leftarrow> pbuf_header p (- int SIZEOF_ETH_HDR) s;
             lwip_assert (\<not> failed);
             (e, s) \<leftarrow> ip_input tcp_input callback p netif s;
             Some s
           }
           else if type = ETHTYPE_ARP then do { n \<leftarrow> netifs s netif; etharp_arp_input netif (nif_hwaddr n) p s }
           else do { (c, s) \<leftarrow> pbuf_free p s; Some s });
     Some (ERR_OK, s)
   }"

definition mintapif_input :: "'a input_fn \<Rightarrow> 'a recv_fn \<Rightarrow> u8_t list \<Rightarrow> addr \<Rightarrow> 'a reass_state_scheme \<Rightarrow> 'a reass_state_scheme option" where
  "mintapif_input tcp_input callback frame netif s = do {
     (p, s) \<leftarrow> low_level_input frame s;
     if p \<noteq> NULL then do { (e, s) \<leftarrow> ethernet_input tcp_input callback p netif s; Some s } else Some s
   }"

section \<open>Trimming an owned packet\<close>

lemma own_realloc:
  fixes s :: "'a link_state_scheme"
  assumes ok: "link_ok sizes base s" and own: "own_packet s p xs" and b: "pbufs s p = Some b" and n: "0 < n" "n \<le> plen (pbufs s) xs"
  shows "\<exists>ys s'. pbuf_realloc p n s = Some s' \<and> link_ok sizes base s' \<and> own_packet s' p ys \<and> set ys \<subseteq> set xs \<and> same_link s s' \<and> kept (set xs) s s' \<and> bytes s' = bytes s
    \<and> chain_data s' ys = take n (chain_data s xs) \<and> plen (pbufs s') ys = n \<and> (\<forall>x. x \<notin> set xs \<longrightarrow> pbufs s' x = pbufs s x)
    \<and> (\<forall>x\<in>set xs. x \<notin> set ys \<longrightarrow> pbufs s' x = None) \<and> (\<exists>b'. pbufs s' p = Some b' \<and> payload b' = payload b \<and> len b' = min n (len b))"
proof (cases "n = plen (pbufs s) xs")
  case True
  obtain ys where h: "tot_len b = plen (pbufs s) xs" "len b \<le> plen (pbufs s) xs" using own_head [OF own] b by (metis option.inject)
  then have "pbuf_realloc p n s = Some s" using True b own_packetD(8) [OF own] by (simp add: pbuf_realloc_def)
  then show ?thesis using True ok own b h length_chain_data [of s xs] by (intro exI [of _ xs] exI [of _ s]) simp
next
  case False
  then have lt: "n < plen (pbufs s) xs" using n(2) by simp
  have net: "net_ok sizes base s" and arp: "arp_ok sizes base s" using ok by (simp_all add: link_ok_def)
  note o = own_packetD [OF own]
  obtain as q bs s' c where r: "xs = as @ q # bs" "pbuf_realloc p n s = Some s'" "net_ok sizes base s'" "packet (pbufs s') p (as @ [q])" "plen (pbufs s') (as @ [q]) = n"
    "chain_data s' (as @ [q]) = take n (chain_data s xs)" "bytes s' = bytes s" "\<forall>x. x \<notin> set xs \<longrightarrow> pbufs s' x = pbufs s x"
    "\<forall>x. x \<in> set bs \<longrightarrow> pbufs s' x = free_map (pbufs s) bs x" "net_state.more s' = net_state.more s" "plen (pbufs s) as \<le> n - 1"
    "\<forall>x\<in>set as. \<exists>c t. pbufs s x = Some c \<and> pbufs s' x = Some (c\<lparr>tot_len := t\<rparr>)"
    "pbufs s q = Some c" "n - plen (pbufs s) as \<le> len c" "pbufs s' q = Some (c\<lparr>len := n - plen (pbufs s) as, tot_len := n - plen (pbufs s) as, pb_next := NULL\<rparr>)"
    "\<forall>r. r \<notin> in_pool (pbufs s) bs \<longrightarrow> memp_live sizes base (memp s') r = memp_live sizes base (memp s) r"
    using pbuf_realloc_ok [OF net o(1) lt] by (elim exE conjE) (rule that)
  note c = r(13,15)
  have sl: "same_link s s'" by (rule same_link_more [OF r(10)])
  have kp: "kept (set xs) s s'" using r(7,8) same_linkD(7) [OF sl] by (simp add: kept_def)
  have d: "distinct xs" by (rule packet_distinct [OF o(1)])
  have fr: "pbufs s' x = None" if "x \<in> set bs" for x
  proof -
    have "sole (pbufs s) bs" using o(2) r(1) by (simp add: sole_def)
    then have "free_map (pbufs s) bs = pbufs s |` (- set bs)" using sole_free_map d r(1) by auto
    then show ?thesis using r(9) that by simp
  qed
  have "list_all (queue_elem sizes base s') (queued (arp_table s))"
    unfolding list_all_iff
  proof
    fix y
    assume y: "y \<in> set (queued (arp_table s))"
    obtain t z where rq: "y = (t, z)" by (cases y)
    have e: "queue_elem sizes base s (t, z)" using arp y rq by (simp add: arp_ok_def list_all_iff)
    then have "t \<notin> in_pool (pbufs s) bs" using pooled_kind [OF net] by (auto simp: queue_elem_def)
    moreover have "z \<notin> set xs" using o(5) y rq by (force simp: held_def)
    ultimately show "queue_elem sizes base s' y" unfolding rq using queue_elem_upd [OF e, of s'] r(8,16) by simp
  qed
  then have lk: "link_ok sizes base s'" using arp r(3) more_link(1,2) [OF r(10)] by (simp add: link_ok_def arp_ok_def)
  have fields: "sole (pbufs s') (as @ [q])" "owned (pbufs s') (as @ [q])" "filled (pbufs s') (as @ [q])"
  proof -
    have "sole (pbufs s) (as @ [q])" "owned (pbufs s) (as @ [q])" "filled (pbufs s) as" using o(2-4) r(1) by (simp_all add: sole_def owned_def filled_def)
    then show "sole (pbufs s') (as @ [q])" "owned (pbufs s') (as @ [q])" "filled (pbufs s') (as @ [q])"
      using r(11,12) c n(1) unfolding sole_def owned_def filled_def list_all_iff by fastforce+
  qed
  then have own': "own_packet s' p (as @ [q])" using r(1,4) o(5) same_linkD(7) [OF sl] by (auto simp: own_packet_def)
  have "\<exists>b'. pbufs s' p = Some b' \<and> payload b' = payload b \<and> len b' = min n (len b)"
  proof (cases as)
    case Nil
    then have "p = q" using own_head [OF own] r(1) by auto
    moreover have "n \<le> len c" using r(14) Nil by simp
    ultimately show ?thesis using c b Nil by simp
  next
    case (Cons x zs)
    have "hd xs = p" by (rule own_head [OF own]) simp
    then have x: "x = p" using Cons r(1) by simp
    then obtain t where "pbufs s' p = Some (b\<lparr>tot_len := t\<rparr>)" using r(12) b Cons by auto
    moreover have "len b \<le> n" using r(11) b unfolding Cons x by simp
    ultimately show ?thesis by simp
  qed
  moreover have "\<forall>x\<in>set xs. x \<notin> set (as @ [q]) \<longrightarrow> pbufs s' x = None" using r(1) fr by auto
  moreover have "set (as @ [q]) \<subseteq> set xs" using r(1) by auto
  ultimately show ?thesis using r(2,5-8) lk own' sl kp by (intro exI [of _ "as @ [q]"] exI [of _ s']) blast
qed

section \<open>The interface that accepts a datagram\<close>

definition ip_host :: "u32_t \<Rightarrow> addr \<Rightarrow> 'a netif_state_scheme \<Rightarrow> bool" where
  "ip_host dest inp s \<longleftrightarrow> (\<exists>m\<in>insert inp (set (netif_list s)). ip_accepted dest (the (netifs s m)))"

lemma ip_input_walk_ok:
  assumes "\<forall>m\<in>set ns. m \<noteq> NULL \<and> netifs s m \<noteq> None" and "inp \<in> set ns \<Longrightarrow> \<not> ip_accepted dest (the (netifs s inp))"
  shows "\<exists>m. ip_input_walk dest inp ns s = Some m \<and> (m \<noteq> NULL \<longleftrightarrow> (\<exists>m\<in>set ns. ip_accepted dest (the (netifs s m))))"
  using assms
proof (induction dest inp ns s rule: ip_input_walk.induct)
  case (2 dest inp m s)
  then show ?case by auto
next
  case (3 dest inp m m' ns s)
  obtain n n' where n: "netifs s m = Some n" "netifs s m' = Some n'" using 3(3) by auto
  show ?case
  proof (cases "m = inp")
    case True
    have "\<exists>m. ip_input_walk dest inp ns s = Some m \<and> (m \<noteq> NULL \<longleftrightarrow> (\<exists>m\<in>set ns. ip_accepted dest (the (netifs s m))))" if "\<not> ip_accepted dest n'"
      using 3(1) [OF True n(2) that] 3(3,4) by simp
    then show ?thesis using True n 3(3,4) by (cases "ip_accepted dest n'") auto
  next
    case False
    have "\<exists>r. ip_input_walk dest inp (m' # ns) s = Some r \<and> (r \<noteq> NULL \<longleftrightarrow> (\<exists>m\<in>set (m' # ns). ip_accepted dest (the (netifs s m))))" if "\<not> ip_accepted dest n"
      using 3(2) [OF False n(1) that] 3(3,4) by simp
    then show ?thesis using False n 3(3,4) by (cases "ip_accepted dest n") auto
  qed
qed simp

lemma ip_input_netif_ok:
  assumes io: "ifs_ok s" and n: "netifs s inp = Some n" "inp \<noteq> NULL"
  shows "\<exists>m. ip_input_netif dest inp s = Some m \<and> (m \<noteq> NULL \<longleftrightarrow> ip_host dest inp s)"
proof (cases "ip_accepted dest n")
  case True
  then show ?thesis using n by (simp add: ip_input_netif_def ip_host_def)
next
  case False
  have "\<forall>m\<in>set (netif_list s). m \<noteq> NULL \<and> netifs s m \<noteq> None" using io unfolding ifs_ok_def by metis
  from ip_input_walk_ok [OF this, of inp dest] show ?thesis using False n by (auto simp: ip_input_netif_def ip_host_def)
qed

section \<open>Validation and trimming\<close>

definition ip_valid :: "addr \<Rightarrow> netif \<Rightarrow> pbuf \<Rightarrow> 'a net_state_scheme \<Rightarrow> bool" where
  "ip_valid inp n b s \<longleftrightarrow>
     (let d = bytes s; h = payload b; hlen = unat (IPH_HL d h) * 4
      in IPH_V d h = 4 \<and> hlen \<le> len b \<and> unat (ntohs (IPH_LEN d h)) \<le> tot_len b \<and> inet_chksum d h hlen = 0
         \<and> \<not> ip_addr_isbroadcast (iph_src d h) n \<and> \<not> ip_addr_ismulticast (iph_src d h))"

definition ip_fragment :: "(addr \<Rightarrow> u8_t) \<Rightarrow> addr \<Rightarrow> bool" where
  "ip_fragment d h \<longleftrightarrow> IPH_OFFSET d h AND htons (IP_OFFMASK OR IP_MF) \<noteq> 0"

definition ip_trimmed :: "(memp_t \<Rightarrow> nat) \<Rightarrow> addr \<Rightarrow> addr \<Rightarrow> addr list \<Rightarrow> addr list \<Rightarrow> pbuf \<Rightarrow> nat \<Rightarrow> 'a link_state_scheme \<Rightarrow> 'a link_state_scheme \<Rightarrow> bool" where
  "ip_trimmed sizes base p xs ys b l s s1 \<longleftrightarrow> link_ok sizes base s1 \<and> own_packet s1 p ys \<and> set ys \<subseteq> set xs \<and> same_link s s1 \<and> kept (set xs) s s1 \<and> bytes s1 = bytes s
     \<and> chain_data s1 ys = take l (chain_data s xs) \<and> plen (pbufs s1) ys = l \<and> (\<exists>b1. pbufs s1 p = Some b1 \<and> payload b1 = payload b \<and> len b1 = min l (len b))"

lemma ip_drop_ok:
  fixes s :: "'a link_state_scheme"
  assumes "link_ok sizes base s" and "own_packet s p xs"
  shows "\<exists>s'. ip_drop p s = Some (ERR_OK, s') \<and> link_ok sizes base s' \<and> same_link s s' \<and> kept (set xs) s s'"
  using own_free [OF assms] by (auto simp: ip_drop_def)

lemma ip_input_ok:
  fixes s :: "'a reass_state_scheme"
  assumes ok: "link_ok sizes base s" and io: "ifs_ok s" and own: "own_packet s p xs" and n: "netifs s inp = Some n" "inp \<noteq> NULL" and b: "pbufs s p = Some b"
    and l: "l = unat (ntohs (IPH_LEN (bytes s) (payload b)))" "0 < l"
  shows "if ip_valid inp n b s \<and> ip_host (iph_dest (bytes s) (payload b)) inp s
    then \<exists>ys s1. ip_trimmed sizes base p xs ys b l s s1 \<and> ip_input tcp_input callback p inp s =
      (if ip_fragment (bytes s) (payload b)
       then do { (p, s) \<leftarrow> ip_reass p s1; if p = NULL then Some (ERR_OK, s) else do { b \<leftarrow> pbufs s p; ip_deliver tcp_input callback p inp (payload b) s } }
       else ip_deliver tcp_input callback p inp (payload b) s1)
    else \<exists>s'. ip_input tcp_input callback p inp s = Some (ERR_OK, s') \<and> link_ok sizes base s' \<and> same_link s s' \<and> kept (set xs) s s'"
proof -
  let ?h = "payload b" and ?d = "bytes s"
  let ?hlen = "unat (IPH_HL ?d ?h) * 4"
  have tl: "tot_len b = plen (pbufs s) xs" using own_head [OF own] b by (metis option.inject)
  show ?thesis
  proof (cases "IPH_V ?d ?h = 4 \<and> ?hlen \<le> len b \<and> l \<le> tot_len b \<and> inet_chksum ?d ?h ?hlen = 0")
    case False
    then have "ip_input tcp_input callback p inp s = ip_drop p s" using b l(1) unfolding ip_input_def Let_def by auto
    moreover have "\<not> ip_valid inp n b s" using False l(1) by (auto simp: ip_valid_def Let_def)
    ultimately show ?thesis using ip_drop_ok [OF ok own] by simp
  next
    case hdr: True
    then have ln: "l \<le> plen (pbufs s) xs" using tl by simp
    obtain ys s1 where r: "pbuf_realloc p l s = Some s1" "link_ok sizes base s1" "own_packet s1 p ys" "set ys \<subseteq> set xs" "same_link s s1" "kept (set xs) s s1" "bytes s1 = bytes s"
      "chain_data s1 ys = take l (chain_data s xs)" "plen (pbufs s1) ys = l" "\<forall>x. x \<notin> set xs \<longrightarrow> pbufs s1 x = pbufs s x" "\<forall>x\<in>set xs. x \<notin> set ys \<longrightarrow> pbufs s1 x = None"
      "\<exists>b'. pbufs s1 p = Some b' \<and> payload b' = payload b \<and> len b' = min l (len b)"
      using own_realloc [OF ok own b l(2) ln] by blast
    have trim: "ip_trimmed sizes base p xs ys b l s s1" unfolding ip_trimmed_def using r by blast
    have n1: "netifs s1 inp = Some n" "netif_list s1 = netif_list s" "netifs s1 = netifs s" using same_linkD(1,2) [OF r(5)] n(1) by simp_all
    have io1: "ifs_ok s1" using same_link_route [OF r(5)] io by simp
    obtain m where m: "ip_input_netif (iph_dest ?d ?h) inp s1 = Some m" "m \<noteq> NULL \<longleftrightarrow> ip_host (iph_dest ?d ?h) inp s"
      using ip_input_netif_ok [OF io1 n1(1) n(2), of "iph_dest ?d ?h"] n1(2,3) by (auto simp: ip_host_def)
    let ?bad = "ip_addr_isbroadcast (iph_src ?d ?h) n \<or> ip_addr_ismulticast (iph_src ?d ?h)"
    have v: "ip_valid inp n b s \<longleftrightarrow> \<not> ?bad" using hdr l(1) by (simp add: ip_valid_def Let_def)
    have run: "ip_input tcp_input callback p inp s = (if ?bad then ip_drop p s1 else if m = NULL then ip_drop p s1
       else if ip_fragment ?d ?h
       then do { (p, s) \<leftarrow> ip_reass p s1; if p = NULL then Some (ERR_OK, s) else do { b \<leftarrow> pbufs s p; ip_deliver tcp_input callback p inp (payload b) s } }
       else ip_deliver tcp_input callback p inp ?h s1)"
      using hdr b r(1,7) m(1) n1(1) l(1) unfolding ip_input_def Let_def ip_fragment_def by simp
    show ?thesis
    proof (cases "?bad \<or> m = NULL")
      case True
      obtain s' where s': "ip_drop p s1 = Some (ERR_OK, s')" "link_ok sizes base s'" "same_link s1 s'" "kept (set ys) s1 s'" using ip_drop_ok [OF r(2,3)] by blast
      have "ip_input tcp_input callback p inp s = Some (ERR_OK, s')" using run True s'(1) by auto
      moreover have "kept (set xs) s s'" by (rule kept_trans' [OF r(6) s'(4)]) (use r(4) in auto)
      moreover have "\<not> (ip_valid inp n b s \<and> ip_host (iph_dest ?d ?h) inp s)" using True v m(2) by auto
      ultimately show ?thesis using s'(2) same_link_trans [OF r(5) s'(3)] by auto
    next
      case False
      then show ?thesis using trim run v m(2) by auto
    qed
  qed
qed

section \<open>Header fields as functions of the data\<close>

lemma hdr_mem_nth: "i < length v \<Longrightarrow> hdr_mem v i = v ! i"
  by (simp add: hdr_mem_def poke_def)

lemma peek_nth: "peek d h n = v \<Longrightarrow> i < n \<Longrightarrow> d (h + i) = v ! i"
  by (auto simp: peek_def)

lemma hdr_at:
  assumes "peek d h (length v) = v"
  shows "k + 2 \<le> length v \<Longrightarrow> ld16 d (h + k) = ld16 (hdr_mem v) k" and "k + 4 \<le> length v \<Longrightarrow> ld32 d (h + k) = ld32 (hdr_mem v) k"
proof -
  have at: "d (h + i) = hdr_mem v i" if "i < length v" for i using peek_nth [OF assms] hdr_mem_nth that by simp
  show "ld16 d (h + k) = ld16 (hdr_mem v) k" if "k + 2 \<le> length v" using at [of k] at [of "k + 1"] that by (simp add: ld16_def ac_simps)
  show "ld32 d (h + k) = ld32 (hdr_mem v) k" if "k + 4 \<le> length v"
  proof -
    have two: "ld16 d (h + j) = ld16 (hdr_mem v) j" if "j + 2 \<le> length v" for j using at [of j] at [of "j + 1"] that by (simp add: ld16_def ac_simps)
    show ?thesis using two [of k] two [of "k + 2"] that by (simp add: ld32_def ac_simps)
  qed
qed

lemma iph_at:
  assumes "peek d h (length v) = v" and "20 \<le> length v"
  shows "IPH_V d h = IPH_V (hdr_mem v) 0" "IPH_HL d h = IPH_HL (hdr_mem v) 0" "IPH_LEN d h = IPH_LEN (hdr_mem v) 0" "IPH_OFFSET d h = IPH_OFFSET (hdr_mem v) 0"
    "IPH_PROTO d h = IPH_PROTO (hdr_mem v) 0" "iph_src d h = iph_src (hdr_mem v) 0" "iph_dest d h = iph_dest (hdr_mem v) 0"
  using hdr_at [OF assms(1), of 0] hdr_at(1) [OF assms(1), of 2] hdr_at(1) [OF assms(1), of 6] hdr_at(1) [OF assms(1), of 8] hdr_at(2) [OF assms(1), of 12]
    hdr_at(2) [OF assms(1), of 16] assms(2)
  by (simp_all add: IPH_V_def IPH_HL_def IPH_LEN_def IPH_OFFSET_def IPH_PROTO_def iph_src_def iph_dest_def numeral_2_eq_2)

section \<open>A frame from the driver\<close>

lemma link_ok_grow:
  fixes s :: "'a link_state_scheme"
  assumes ok: "link_ok sizes base s" and net: "net_ok sizes base s1" and more: "net_state.more s1 = net_state.more s"
    and same: "\<And>x. pbufs s x \<noteq> None \<Longrightarrow> pbufs s1 x = pbufs s x" and memp: "\<And>r. memp_live sizes base (memp s) r \<noteq> None \<Longrightarrow> memp_live sizes base (memp s1) r = memp_live sizes base (memp s) r"
  shows "link_ok sizes base s1"
proof -
  have arp: "arp_ok sizes base s" using ok by (simp add: link_ok_def)
  have "list_all (queue_elem sizes base s1) (queued (arp_table s))"
    unfolding list_all_iff
  proof
    fix y
    assume y: "y \<in> set (queued (arp_table s))"
    obtain r q where rq: "y = (r, q)" by (cases y)
    have e: "queue_elem sizes base s (r, q)" using arp y rq by (simp add: arp_ok_def list_all_iff)
    then have "pbufs s1 q = pbufs s q" by (intro same) (auto simp: queue_elem_def queued_pbuf_def split: option.splits)
    moreover have "memp_live sizes base (memp s1) r = memp_live sizes base (memp s) r" by (rule memp) (use e in \<open>auto simp: queue_elem_def\<close>)
    ultimately show "queue_elem sizes base s1 y" unfolding rq using queue_elem_upd [OF e, of s1] by simp
  qed
  then show ?thesis using arp net more_link(1,2) [OF more] by (simp add: link_ok_def arp_ok_def)
qed

lemma driver_input:
  fixes s :: "'a link_state_scheme"
  assumes ok: "link_ok sizes base s" and l: "0 < length frame" "length frame \<le> 576"
  shows "\<exists>p s1. low_level_input frame s = Some (p, s1) \<and> link_ok sizes base s1 \<and> same_link s s1 \<and> kept {} s s1
    \<and> (if p = NULL then memp_malloc (memp s) MEMP_PBUF_POOL = Some (NULL, memp s)
       else pbufs s p = None \<and> own_packet s1 p [p] \<and> chain_data s1 [p] = frame \<and> (\<exists>b. pbufs s1 p = Some b \<and> len b = length frame \<and> tot_len b = length frame))"
proof -
  have net: "net_ok sizes base s" using ok by (simp add: link_ok_def)
  obtain q m where q: "memp_malloc (memp s) MEMP_PBUF_POOL = Some (q, m)" using pool.alloc_total [OF net_okD(2) [OF net]] by blast
  show ?thesis
  proof (cases "q = NULL")
    case True
    then have "m = memp s" using pool.alloc_null [OF net_okD(2) [OF net]] q by blast
    then have "low_level_input frame s = Some (NULL, s)" using q True l by (simp add: low_level_input_def pbuf_alloc_def Let_def lwip_simps)
    then show ?thesis using ok q True \<open>m = memp s\<close> by (intro exI [of _ NULL] exI [of _ s]) simp
  next
    case False
    let ?b = "\<lparr>pb_next = NULL, payload = q + 40, tot_len = length frame, len = length frame, ptype = PBUF_POOL, flags = 0, ref = 1\<rparr>"
    have al: "pbuf_alloc PBUF_LINK (length frame) PBUF_POOL s = Some (q, put_pbuf q ?b (s\<lparr>memp := m\<rparr>))"
      using q False l by (simp add: pbuf_alloc_def Let_def lwip_simps) (simp add: put_pbuf_def)
    let ?t = "put_pbuf q ?b (s\<lparr>memp := m\<rparr>)"
    obtain xs where a: "net_ok sizes base ?t" "alloc_post sizes base PBUF_LINK (length frame) PBUF_POOL s q xs ?t"
      using pbuf_alloc_ok [OF net, of "length frame" PBUF_POOL PBUF_LINK] l al by auto
    have pk: "packet (pbufs ?t) q xs" "pool_kind (pbufs ?t) PBUF_POOL xs" "\<forall>x\<in>set xs. pbufs s x = None" "\<forall>x. x \<notin> set xs \<longrightarrow> pbufs ?t x = pbufs s x"
        "memp_live sizes base (memp ?t) |` (- in_pool (pbufs ?t) xs) = memp_live sizes base (memp s)"
      using a(2) False by (simp_all add: alloc_post_def)
    have xs: "xs = [q]"
    proof -
      obtain ys where ys: "xs = q # ys" by (rule packet_head [OF pk(1)]) simp
      have "pchain (pbufs ?t) q (q # ys)" using pk(1) ys by (simp add: packet_def)
      then have "pchain (pbufs ?t) NULL ys" using pchain_ConsD [of "pbufs ?t" q q ys] by auto
      then show ?thesis using ys by (cases ys) auto
    qed
    note pk = pk [unfolded xs]
    have "apart (pbufs ?t) [q]" using net_ok_apart [OF a(1) pool_kind_owned [OF pk(2)] packet_distinct [OF pk(1)]] by simp
    then obtain d where d: "input_loop q frame ?t = Some (?t\<lparr>bytes := d\<rparr>)" "chain_data (?t\<lparr>bytes := d\<rparr>) [q] = frame" "unchanged_outside (pbufs ?t) [q] (bytes ?t) d"
      using input_loop_chain [of ?t q "[q]" frame] pk(1) by (auto simp: packet_def)
    let ?s = "?t\<lparr>bytes := d\<rparr>"
    have sl: "same_link s ?s" by (rule same_link_more) (simp add: put_pbuf_def)
    have fresh: "pbufs s q = None" using pk(3) by simp
    have lk: "link_ok sizes base ?s"
    proof (rule link_ok_grow [OF ok])
      show "net_ok sizes base ?s" by (rule net_ok_bytes [OF a(1)])
      show "net_state.more ?s = net_state.more s" by (simp add: put_pbuf_def)
      show "pbufs ?s x = pbufs s x" if "pbufs s x \<noteq> None" for x using that fresh by auto
      show "memp_live sizes base (memp ?s) r = memp_live sizes base (memp s) r" if "memp_live sizes base (memp s) r \<noteq> None" for r
        using fun_cong [OF pk(5), of r] that by (auto simp: restrict_map_def split: if_splits)
    qed
    have qh: "q \<notin> held ?s" using held_live [OF ok, of q] fresh same_linkD(7) [OF sl] by auto
    have "own_packet ?s q [q]"
      using pk(1) pool_kind_sole [OF pk(2)] pool_kind_owned [OF pk(2)] qh l by (simp add: own_packet_def filled_def)
    moreover have "kept {} s ?s"
      unfolding kept_def
    proof (intro allI impI)
      fix x c
      assume x: "pbufs s x = Some c" "x \<notin> held s" "x \<notin> {}"
      have ne: "x \<noteq> q" using x(1) fresh by auto
      have "peek d (payload c) (len c) = peek (bytes s) (payload c) (len c)" if ty: "ptype c = PBUF_RAM \<or> ptype c = PBUF_POOL"
      proof -
        have "owned (pbufs ?t) (x # [q])" using pool_kind_owned [OF pk(2)] x(1) ty ne by (simp add: owned_def)
        then have "clear_of (pbufs ?t) [q] (payload c) (len c)" using owned_clear [OF a(1), of x "[q]" c] ne x(1) by simp
        then show ?thesis using d(3) by (simp add: unchanged_outside_def put_pbuf_def)
      qed
      then show "pbufs ?s x = Some c \<and> x \<notin> held ?s
        \<and> (ptype c = PBUF_RAM \<or> ptype c = PBUF_POOL \<longrightarrow> peek (bytes ?s) (payload c) (len c) = peek (bytes s) (payload c) (len c))"
        using x ne same_linkD(7) [OF sl] by simp
    qed
    moreover have "low_level_input frame s = Some (q, ?s)" using al d(1) False l by (simp add: low_level_input_def)
    ultimately show ?thesis using lk sl d(2) False fresh by (intro exI [of _ q] exI [of _ ?s]) simp
  qed
qed

section \<open>Through the layers\<close>

lemma current_step:
  fixes s :: "'a ip_state_scheme"
  shows "link_ok sizes base (s\<lparr>current_netif := a, current_header := h\<rparr>) = link_ok sizes base s"
    and "own_packet (s\<lparr>current_netif := a, current_header := h\<rparr>) p xs = own_packet s p xs" and "held (s\<lparr>current_netif := a, current_header := h\<rparr>) = held s"
    and "chain_data (s\<lparr>current_netif := a, current_header := h\<rparr>) xs = chain_data s xs"
proof -
  show h: "held (s\<lparr>current_netif := a, current_header := h\<rparr>) = held s" by (simp add: held_def)
  show "own_packet (s\<lparr>current_netif := a, current_header := h\<rparr>) p xs = own_packet s p xs" by (simp add: own_packet_def h)
  show "chain_data (s\<lparr>current_netif := a, current_header := h\<rparr>) xs = chain_data s xs" by (rule chain_data_cong) (simp add: pbuf_data_def split: option.split)
  show "link_ok sizes base (s\<lparr>current_netif := a, current_header := h\<rparr>) = link_ok sizes base s"
    by (simp add: link_ok_def net_ok_def arp_ok_def queue_elem_def)
qed

lemma ethernet_ip:
  fixes s :: "'a reass_state_scheme"
  assumes ok: "link_ok sizes base s" and own: "own_packet s p xs" and b: "pbufs s p = Some b" "14 < len b" and n: "eth_netif (netifs s) netif n"
    and ty: "htons (ld16 (bytes s) (payload b + 12)) = ETHTYPE_IP"
  shows "\<exists>s1. ethernet_input tcp_input callback p netif s = do { (e, s) \<leftarrow> ip_input tcp_input callback p netif s1; Some (ERR_OK, s) }
    \<and> link_ok sizes base s1 \<and> own_packet s1 p xs \<and> ext_same s s1 \<and> kept {p} s s1 \<and> chain_data s1 xs = drop 14 (chain_data s xs)
    \<and> pbufs s1 p = Some (b\<lparr>payload := payload b + 14, len := len b - 14, tot_len := tot_len b - 14\<rparr>)"
proof -
  obtain t where t: "etharp_ip_input netif p s = Some t" "link_ok sizes base t" "ext_same s t" "link_frame {} s t"
    using etharp_ip_input_ok [OF ok n b(1)] by blast
  note k = kept_packet [OF link_frame_kept [OF t(4)] own, simplified]
  have bt: "pbufs t p = Some b" using k(3) own_packetD(6) [OF own] b(1) by simp
  obtain s1 where s1: "pbuf_header p (- int 14) t = Some (False, s1)" "link_ok sizes base s1" "own_packet s1 p xs" "same_link t s1" "kept {p} t s1"
    "chain_data s1 xs = drop 14 (chain_data t xs)" "s1 = put_pbuf p (b\<lparr>payload := payload b + 14, len := len b - 14, tot_len := tot_len b - 14\<rparr>) t"
    using own_hide [OF t(2) k(1) bt, of 14] b(2) by auto
  have "ethernet_input tcp_input callback p netif s = do { (e, s) \<leftarrow> ip_input tcp_input callback p netif s1; Some (ERR_OK, s) }"
    using b(1) t(1) s1(1) ty unfolding ethernet_input_def Let_def by (simp add: SIZEOF_ETH_HDR_def case_prod_unfold)
  moreover have "ext_same s s1" using ext_same_trans [OF t(3)] s1(4) by (simp add: same_link_def)
  moreover have "kept {p} s s1" by (rule kept_trans' [OF link_frame_kept [OF t(4)] s1(5)]) simp
  ultimately show ?thesis using s1(2,3,6,7) k(2) by (intro exI [of _ s1]) simp
qed

text \<open>Every interface is an Ethernet interface with the usual maximal transmission unit.\<close>

definition taps :: "'a netif_state_scheme \<Rightarrow> bool" where
  "taps s \<longleftrightarrow> ifs_ok s \<and> (\<forall>i m. netifs s i = Some m \<longrightarrow> eth_netif (netifs s) i m \<and> nif_mtu m = 1500)"

lemma taps_route:
  assumes "taps s" and "route_of dest s \<noteq> NULL"
  shows "\<exists>m. eth_netif (netifs s) (route_of dest s) m \<and> nif_mtu m = 1500"
proof -
  have "netifs s (route_of dest s) \<noteq> None"
    using assms by (auto simp: taps_def ifs_ok_def route_of_def split: list.splits if_splits dest: filter_eq_ConsD)
  then show ?thesis using assms(1) by (auto simp: taps_def)
qed

text \<open>The IP datagram \<open>g\<close>, possibly padded, of length \<open>l\<close>: a valid UDP datagram without options that is not a fragment.\<close>

definition udp_arrives :: "netif \<Rightarrow> u8_t list \<Rightarrow> nat \<Rightarrow> bool" where
  "udp_arrives n g l \<longleftrightarrow>
     (let h = hdr_mem g; src = iph_src h 0; dest = iph_dest h 0
      in 28 \<le> l \<and> l \<le> length g \<and> unat (ntohs (IPH_LEN h 0)) = l \<and> IPH_V h 0 = 4 \<and> IPH_HL h 0 = 5 \<and> chksum_of (take 20 g) = 0
         \<and> \<not> ip_fragment h 0 \<and> IPH_PROTO h 0 = 17 \<and> \<not> ip_addr_isbroadcast src n \<and> \<not> ip_addr_ismulticast src
         \<and> (ld16 h 26 = 0 \<or> chksum_of (pseudo_header src dest 17 (of_nat (l - 20)) @ take (l - 20) (drop 20 g)) = 0))"

lemma single_packet: "own_packet s p ys \<Longrightarrow> set ys \<subseteq> {p} \<Longrightarrow> ys = [p]"
proof -
  assume a: "own_packet s p ys" "set ys \<subseteq> {p}"
  have d: "distinct ys" using packet_distinct [OF own_packetD(1) [OF a(1)]] .
  obtain zs where "ys = p # zs" by (rule own_head [OF a(1)]) simp
  then show "ys = [p]" using d a(2) by (cases zs) auto
qed

lemma ip_input_udp:
  fixes s :: "'a reass_state_scheme"
  assumes ok: "udp_wf sizes base s" and tp: "taps s" and own: "own_packet s p [p]" and b: "pbufs s p = Some b" and n: "netifs s inp = Some n"
    and g: "chain_data s [p] = g" "udp_arrives n g l" and host: "ip_host (iph_dest (hdr_mem g) 0) inp s"
    and pcb: "pcb = udp_select (ntohs (ld16 (hdr_mem g) 20)) (ntohs (ld16 (hdr_mem g) 22)) (iph_src (hdr_mem g) 0) (iph_dest (hdr_mem g) 0)
      (ip_addr_isbroadcast (iph_dest (hdr_mem g) 0) n) s" "pcb \<noteq> NULL" "udp_tab s pcb = Some u" "recv u \<noteq> NULL"
  shows "\<exists>s'. ip_input tcp_input callback p inp s = do { s \<leftarrow> callback (recv u) (recv_arg u) pcb p (iph_src (hdr_mem g) 0) (ntohs (ld16 (hdr_mem g) 20)) s';
      Some (ERR_OK, s\<lparr>current_netif := NULL, current_header := NULL\<rparr>) }
    \<and> link_ok sizes base s' \<and> free_packet s' p [p] \<and> chain_data s' [p] = take (l - 28) (drop 28 g) \<and> kept {p} s s' \<and> udp_tab s' = udp_tab s
    \<and> mset (udp_pcbs s') = mset (udp_pcbs s)"
proof -
  let ?h = "hdr_mem g"
  let ?src = "iph_src ?h 0" and ?dst = "iph_dest ?h 0"
  have a: "28 \<le> l" "l \<le> length g" "unat (ntohs (IPH_LEN ?h 0)) = l" "IPH_V ?h 0 = 4" "IPH_HL ?h 0 = 5" "chksum_of (take 20 g) = 0" "\<not> ip_fragment ?h 0"
    "IPH_PROTO ?h 0 = 17" "\<not> ip_addr_isbroadcast ?src n" "\<not> ip_addr_ismulticast ?src"
    "ld16 ?h 26 = 0 \<or> chksum_of (pseudo_header ?src ?dst 17 (of_nat (l - 20)) @ take (l - 20) (drop 20 g)) = 0"
    using g(2) unfolding udp_arrives_def Let_def by blast+
  have lk: "link_ok sizes base s" and io: "ifs_ok s" and inp: "inp \<noteq> NULL" using ok tp n by (auto simp: udp_wf_def taps_def eth_netif_def)
  have lb: "len b = length g" using arg_cong [OF g(1), of length] b by simp
  have tb: "tot_len b = length g" using own_head [OF own] b lb by (auto simp: plen_simps)
  have at: "peek (bytes s) (payload b) (length g) = g" using g(1) b lb by (simp add: pbuf_data_peek)
  have l20: "20 \<le> length g" using a(1,2) by simp
  note f = iph_at [OF at l20]
  have chk: "inet_chksum (bytes s) (payload b) 20 = 0" using inet_chksum_peek [of 20 "bytes s" "payload b"] a(6) arg_cong [OF at, of "take 20"] l20 by (simp add: take_peek min_def)
  have valid: "ip_valid inp n b s" unfolding ip_valid_def Let_def f a(5) using a chk lb tb l20 by simp
  have hst: "ip_host (iph_dest (bytes s) (payload b)) inp s" unfolding f by (rule host)
  have nf: "\<not> ip_fragment (bytes s) (payload b)" using a(7) unfolding ip_fragment_def f .
  have ll: "l = unat (ntohs (IPH_LEN (bytes s) (payload b)))" "0 < l" using a(1,3) f(3) by simp_all
  obtain ys s1 where t: "ip_trimmed sizes base p [p] ys b l s s1" "ip_input tcp_input callback p inp s = ip_deliver tcp_input callback p inp (payload b) s1"
    using ip_input_ok [OF lk io own n inp b ll, of tcp_input callback] valid hst nf by auto
  have ys: "ys = [p]" using t(1) single_packet unfolding ip_trimmed_def by auto
  obtain b1 where t1: "link_ok sizes base s1" "own_packet s1 p [p]" "same_link s s1" "kept {p} s s1" "bytes s1 = bytes s" "chain_data s1 [p] = take l g" "plen (pbufs s1) [p] = l"
    "pbufs s1 p = Some b1" "payload b1 = payload b" "len b1 = l"
    using t(1) a(2) lb g(1) unfolding ip_trimmed_def ys by auto
  let ?s2 = "s1\<lparr>current_netif := inp, current_header := payload b\<rparr>"
  have ut: "udp_tab ?s2 = udp_tab s" "udp_pcbs ?s2 = udp_pcbs s" using ip_same_udp [OF same_link_ip [OF t1(3)]] by simp_all
  have n2: "netifs ?s2 = netifs s" "netif_list ?s2 = netif_list s" "netif_default ?s2 = netif_default s" using same_linkD(1-3) [OF t1(3)] by simp_all
  have ok2: "udp_wf sizes base ?s2" using ok t1(1) ut by (simp add: udp_wf_def current_step)
  have tp2: "taps ?s2" using tp n2 by (simp add: taps_def ifs_ok_def)
  have io2: "ifs_ok ?s2" using tp2 by (simp add: taps_def)
  have own2: "own_packet ?s2 p [p]" using t1(2) by (simp add: current_step)
  have h2: "20 = unat (IPH_HL (bytes ?s2) (payload b1)) * 4" using t1(5,9) f(2) a(5) by simp
  have len2: "20 + 8 \<le> len b1 \<or> tot_len b1 < 20 + 8" using t1(10) a(1) by simp
  have b2: "pbufs ?s2 p = Some b1" "netifs ?s2 inp = Some n" using t1(8) n2(1) n by simp_all
  have f2: "iph_src (bytes ?s2) (payload b1) = ?src" "iph_dest (bytes ?s2) (payload b1) = ?dst" using t1(5,9) f(6,7) by simp_all
  have ports: "ld16 (bytes s) (payload b + k) = ld16 ?h k" if "k + 2 \<le> 28" for k using hdr_at(1) [OF at, of k] that a(1,2) by simp
  define m where "m = the (netifs ?s2 (route_of ?src ?s2))"
  have rt: "route_of (iph_src (bytes ?s2) (payload b1)) ?s2 \<noteq> NULL \<Longrightarrow> eth_netif (netifs ?s2) (route_of (iph_src (bytes ?s2) (payload b1)) ?s2) m \<and> nif_mtu m = 1500"
    unfolding f2 m_def using taps_route [OF tp2, of ?src] by (auto simp: eth_netif_def)
  obtain L where L: "mset L = mset (udp_pcbs ?s2)" "udp_input_post sizes base callback p [p] 20 b1 n m L ?s2 (udp_input callback p inp ?s2)"
    using udp_input_ok [OF ok2 io2 own2 b2(2,1) h2 _ len2 rt] by auto
  have tl: "tot_len b1 = l" using own_head [OF t1(2)] t1(7,8) by (metis option.inject)
  have data: "drop 20 (chain_data ?s2 [p]) = take (l - 20) (drop 20 g)" unfolding current_step(4) t1(6) by (simp add: drop_take)
  have lv: "length (take (l - 20) (drop 20 g)) = l - 20" using a(1,2) by simp
  have sel: "udp_select (ntohs (ld16 ?h 20)) (ntohs (ld16 ?h 22)) ?src ?dst (ip_addr_isbroadcast ?dst n) ?s2 = pcb"
    unfolding pcb(1) by (rule udp_select_cong [OF ut])
  have p20: "ld16 (bytes ?s2) (payload b1 + 20) = ld16 ?h 20" "ld16 (bytes ?s2) (payload b1 + 20 + 2) = ld16 ?h 22" "ld16 (bytes ?s2) (payload b1 + 20 + 6) = ld16 ?h 26"
    using ports [of 20] ports [of 22] ports [of 26] t1(5,9) by (simp_all add: ac_simps)
  obtain s' where s': "udp_handed sizes base p [p] L (drop 8 (take (l - 20) (drop 20 g))) ?s2 s'"
    "udp_input callback p inp ?s2 = callback (recv u) (recv_arg u) pcb p ?src (ntohs (ld16 ?h 20)) s'"
    using L(2) unfolding udp_input_post_def Let_def f2 p20 data sel ut lv tl using a(1,11) pcb(2-4) by (auto simp: ut)
  have "ip_input tcp_input callback p inp s = do { s \<leftarrow> callback (recv u) (recv_arg u) pcb p ?src (ntohs (ld16 ?h 20)) s'; Some (ERR_OK, s\<lparr>current_netif := NULL, current_header := NULL\<rparr>) }"
    using t(2) s'(2) a(8) f(5) t1(5) unfolding ip_deliver_def Let_def by (simp add: IP_PROTO_UDP_def)
  moreover have "chain_data s' [p] = take (l - 28) (drop 28 g)" using s'(1) by (simp add: udp_handed_def drop_take)
  moreover have "kept {p} s s'"
  proof -
    have "kept {} s1 ?s2" by (rule kept_bytes) (simp_all add: current_step)
    then show ?thesis using kept_trans' [OF kept_trans' [OF t1(4)], of "{}" ?s2 "{p}" "{p}" s' "{p}"] s'(1) by (simp add: udp_handed_def)
  qed
  ultimately show ?thesis using s'(1) L(1) ut by (intro exI [of _ s']) (simp add: udp_handed_def)
qed


section \<open>An example\<close>

text \<open>A state of the layers below, with no datagram in reassembly.\<close>

definition with_reass :: "udp_state \<Rightarrow> reass_state" where
  "with_reass s = udp_state.extend s (reass_state.fields Map.empty [] Map.empty 0)"

lemma with_reass_fields:
  "ram_heap (with_reass s) = ram_heap s" "memp (with_reass s) = memp s" "pbufs (with_reass s) = pbufs s" "bytes (with_reass s) = bytes s" "netifs (with_reass s) = netifs s"
  "netif_list (with_reass s) = netif_list s" "netif_default (with_reass s) = netif_default s" "tx (with_reass s) = tx s" "arp_table (with_reass s) = arp_table s"
  "etharp_cached_entry (with_reass s) = etharp_cached_entry s" "udp_tab (with_reass s) = udp_tab s" "udp_pcbs (with_reass s) = udp_pcbs s"
  by (simp_all add: with_reass_def udp_state.extend_def reass_state.fields_def)

lemma with_reass_ok: "udp_ok sizes base (with_reass s) = udp_ok sizes base s" "own_packet (with_reass s) p xs = own_packet s p xs" "chain_data (with_reass s) xs = chain_data s xs"
proof -
  show "udp_ok sizes base (with_reass s) = udp_ok sizes base s"
    by (simp add: udp_ok_def link_ok_def net_ok_def arp_ok_def queue_elem_def with_reass_fields)
  show "own_packet (with_reass s) p xs = own_packet s p xs" by (simp add: own_packet_def held_def with_reass_fields)
  show "chain_data (with_reass s) xs = chain_data s xs" by (rule chain_data_cong) (simp add: pbuf_data_def with_reass_fields split: option.split)
qed

definition example_datagram :: "u8_t list" where
  "example_datagram = [0x45, 0, 0, 30, 0, 0, 0, 0, 64, 17, 0x66, 0xcd, 10, 0, 0, 2, 10, 0, 0, 1, 0x10, 0x00, 0, 7, 0, 10, 0, 0, 104, 105]"

lemma example_fields:
  "iph_src (hdr_mem example_datagram) 0 = 0x0200000a" "iph_dest (hdr_mem example_datagram) 0 = 0x0100000a" "ntohs (ld16 (hdr_mem example_datagram) 20) = 4096"
  "ntohs (ld16 (hdr_mem example_datagram) 22) = 7" "udp_arrives example_netif example_datagram 30"
proof -
  show f: "iph_src (hdr_mem example_datagram) 0 = 0x0200000a" "iph_dest (hdr_mem example_datagram) 0 = 0x0100000a"
    by (simp_all add: iph_src_def iph_dest_def ld32_def ld16_def hdr_mem_def poke_def example_datagram_def)
  show "ntohs (ld16 (hdr_mem example_datagram) 20) = 4096" "ntohs (ld16 (hdr_mem example_datagram) 22) = 7"
    by (simp_all add: ld16_def hdr_mem_def poke_def example_datagram_def ntohs_def htons_def)
  have "chksum_of (take 20 example_datagram) = 0" by (simp add: chksum_of_def ones_rep_def example_datagram_def)
  moreover have "\<not> ip_addr_isbroadcast 0x0200000a example_netif" "\<not> ip_addr_ismulticast 0x0200000a"
    using example_unicast by (simp_all add: non_unicast_def)
  ultimately show "udp_arrives example_netif example_datagram 30"
    unfolding udp_arrives_def Let_def f
    by (simp add: IPH_LEN_def IPH_V_def IPH_HL_def IPH_PROTO_def IPH_OFFSET_def ip_fragment_def IP_OFFMASK_def IP_MF_def ld16_def hdr_mem_def poke_def
        ntohs_def htons_def example_datagram_def)
qed

lemma example_host: "netifs s 5000 = Some example_netif \<Longrightarrow> ip_host 0x0100000a 5000 s"
  by (simp add: ip_host_def ip_accepted_def example_netif_def netif_is_up_def NETIF_FLAG_UP_def ip_addr_isany_def)

section \<open>Properties\<close>



lemma layout_slot: "t \<in> set ts \<Longrightarrow> 0 < memp_num t \<Longrightarrow> \<exists>a. (a, t) \<in> set (memp_layout sizes ts p)"
proof (induction ts arbitrary: p)
  case (Cons u ts)
  then have "(p + 0 * sizes t, t) \<in> set (map (\<lambda>j. (p + j * sizes t, t)) [0..<memp_num t])" by (auto simp: image_iff)
  then show ?case using Cons by (cases "t = u") auto
qed simp

text \<open>A control block with a callback that listens on the echo port, and buffers in the pool.\<close>

lemma example_listener:
  "\<exists>pcb (s :: reass_state). udp_ok example_sizes 20000 s \<and> pcb \<noteq> NULL \<and> udp_tab s = [pcb \<mapsto> udp_fresh\<lparr>local_port := 7, recv := 1\<rparr>] \<and> udp_pcbs s = [pcb]
    \<and> netifs s = [5000 \<mapsto> example_netif] \<and> netif_list s = [5000] \<and> netif_default s = 5000 \<and> memp_malloc (memp s) MEMP_PBUF_POOL \<noteq> Some (NULL, memp s)"
proof -
  let ?m = "memp_init example_sizes 20000" and ?u = "udp_fresh\<lparr>local_port := 7, recv := 1\<rparr>"
  obtain pcb and t :: udp_state where t: "udp_new example_udp = Some (pcb, t)" "pcb \<noteq> NULL" "udp_ok example_sizes 20000 t" "udp_tab t = [pcb \<mapsto> udp_fresh]" "udp_pcbs t = []"
    "netifs t = [5000 \<mapsto> example_netif]" "netif_list t = [5000]" "netif_default t = 5000"
    using example_udp_new by blast
  have al: "memp_malloc ?m MEMP_UDP_PCB = Some (pcb, memp t)"
    using t(1,2) by (auto simp: udp_new_def example_udp_def Let_def split: bind_splits prod.splits if_splits)
  obtain a where "(a, MEMP_PBUF_POOL) \<in> set (memp_slots example_sizes 20000)"
    unfolding memp_slots_def using layout_slot [of MEMP_PBUF_POOL memp_pools example_sizes 20000] by (auto simp: memp_pools_def)
  moreover have "memp_live example_sizes 20000 ?m = Map.empty" by (rule memp_init_ok(2)) (simp_all add: example_sizes_pos)
  ultimately have "memp_frees ?m MEMP_PBUF_POOL \<noteq> []" using memp_live_iff [OF example_memp_ok, of a MEMP_PBUF_POOL] by auto
  moreover have "memp_frees (memp t) MEMP_PBUF_POOL = memp_frees ?m MEMP_PBUF_POOL"
    using memp_malloc_cases(2) [OF example_memp_ok, of MEMP_UDP_PCB] memp_malloc_cases(1) [OF example_memp_ok, of MEMP_UDP_PCB] al t(2)
    by (cases "memp_frees ?m MEMP_UDP_PCB") auto
  moreover have "memp_ok example_sizes 20000 (memp t)" using t(3) net_okD(2) by (auto simp: udp_ok_def link_ok_def)
  ultimately have pool: "memp_malloc (memp t) MEMP_PBUF_POOL \<noteq> Some (NULL, memp t)"
    using memp_malloc_cases(2) [of example_sizes 20000 "memp t" MEMP_PBUF_POOL] by (metis Pair_inject list.exhaust memp_t.simps option.inject)
  have "udp_ok example_sizes 20000 (t\<lparr>udp_tab := [pcb \<mapsto> ?u], udp_pcbs := [pcb]\<rparr>)" using t(2-5) by (auto simp: udp_ok_def split: if_splits)
  then show ?thesis using t(2,6-8) pool
    by (intro exI [of _ pcb] exI [of _ "with_reass (t\<lparr>udp_tab := [pcb \<mapsto> ?u], udp_pcbs := [pcb]\<rparr>)"]) (simp add: with_reass_fields with_reass_ok)
qed

text \<open>
  Claim C5. From the driver to the application. A frame with a valid UDP datagram for this host, that a control block with a callback matches, passes through the driver, the
  Ethernet layer, IP and UDP and ends in exactly one call of the callback, on a packet that holds exactly the data of the datagram, with the
  address and port of the sender; the padding of the frame is gone, the control blocks are as before and no other packet was touched. Only
  an exhausted pool of packet buffers prevents it; then the frame is dropped.
\<close>

theorem udp_frame_delivered:
  fixes s :: reass_state
  assumes "udp_ok sizes base s" and "taps s" and "netifs s netif = Some n" and "frame = eth @ g" and "length eth = 14" and "drop 12 eth = [8, 0]" and "length frame \<le> 576"
    and "udp_arrives n g l" and "src = iph_src (hdr_mem g) 0" and "dst = iph_dest (hdr_mem g) 0" and "ip_host dst netif s"
    and "pcb = udp_select (ntohs (ld16 (hdr_mem g) 20)) (ntohs (ld16 (hdr_mem g) 22)) src dst (ip_addr_isbroadcast dst n) s" and "pcb \<noteq> NULL" and "udp_tab s pcb = Some u"
    and "recv u \<noteq> NULL"
  shows "(\<exists>p s'. mintapif_input tcp_input callback frame netif s =
        do { s \<leftarrow> callback (recv u) (recv_arg u) pcb p src (ntohs (ld16 (hdr_mem g) 20)) s'; Some (s\<lparr>current_netif := NULL, current_header := NULL\<rparr>) }
      \<and> link_ok sizes base s' \<and> free_packet s' p [p] \<and> chain_data s' [p] = take (l - 28) (drop 28 g) \<and> kept {} s s' \<and> udp_tab s' = udp_tab s
      \<and> mset (udp_pcbs s') = mset (udp_pcbs s))
    \<or> (\<exists>s'. mintapif_input tcp_input callback frame netif s = Some s' \<and> link_ok sizes base s' \<and> same_link s s' \<and> memp_malloc (memp s) MEMP_PBUF_POOL = Some (NULL, memp s))"
proof -
  have lk: "link_ok sizes base s" and wf: "NULL \<notin> set (udp_pcbs s)" "set (udp_pcbs s) \<subseteq> dom (udp_tab s)" using assms(1) by (simp_all add: udp_ok_def)
  have l: "0 < length frame" "length frame \<le> 576" using assms(4,5,7) by simp_all
  obtain p s1 where d: "low_level_input frame s = Some (p, s1)" "link_ok sizes base s1" "same_link s s1" "kept {} s s1"
    "if p = NULL then memp_malloc (memp s) MEMP_PBUF_POOL = Some (NULL, memp s)
     else pbufs s p = None \<and> own_packet s1 p [p] \<and> chain_data s1 [p] = frame \<and> (\<exists>b. pbufs s1 p = Some b \<and> len b = length frame \<and> tot_len b = length frame)"
    using driver_input [OF lk l] by blast
  show ?thesis
  proof (cases "p = NULL")
    case True
    then show ?thesis using d by (auto simp: mintapif_input_def)
  next
    case False
    obtain b where b: "own_packet s1 p [p]" "chain_data s1 [p] = frame" "pbufs s1 p = Some b" "len b = length frame" and fresh: "pbufs s p = None"
      using d(5) unfolding if_not_P [OF False] by blast
    have lg: "28 \<le> length g" using assms(8) by (simp add: udp_arrives_def Let_def)
    have n1: "eth_netif (netifs s1) netif n" using same_linkD(1) [OF d(3)] assms(2,3) by (simp add: taps_def)
    have at: "peek (bytes s1) (payload b) (length frame) = frame" using b(2-4) by (simp add: pbuf_data_peek)
    have ty: "htons (ld16 (bytes s1) (payload b + 12)) = ETHTYPE_IP"
    proof -
      have "eth ! 12 = 8" "eth ! 13 = 0" using arg_cong [OF assms(6), of "\<lambda>x. x ! 0"] arg_cong [OF assms(6), of "\<lambda>x. x ! 1"] assms(5) by simp_all
      then have "bytes s1 (payload b + 12) = 8" "bytes s1 (payload b + 13) = 0" using peek_nth [OF at, of 12] peek_nth [OF at, of 13] assms(4,5) by (simp_all add: nth_append)
      then show ?thesis unfolding ld16_def add.assoc one_plus_numeral numeral_plus_one by (simp add: ETHTYPE_IP_def htons_def)
    qed
    have b14: "14 < len b" using b(4) assms(4,5) lg by auto
    obtain s2 where e: "ethernet_input tcp_input callback p netif s1 = do { (e, s) \<leftarrow> ip_input tcp_input callback p netif s2; Some (ERR_OK, s) }"
      "link_ok sizes base s2" "own_packet s2 p [p]" "ext_same s1 s2" "kept {p} s1 s2" "chain_data s2 [p] = drop 14 (chain_data s1 [p])"
      "pbufs s2 p = Some (b\<lparr>payload := payload b + 14, len := len b - 14, tot_len := tot_len b - 14\<rparr>)"
      using ethernet_ip [OF d(2) b(1,3) b14 n1 ty, of tcp_input callback] by blast
    have es: "ext_same s s2" using ext_same_trans [OF _ e(4)] d(3) by (simp add: same_link_def)
    have ut: "udp_tab s2 = udp_tab s" "udp_pcbs s2 = udp_pcbs s" using ip_same_udp [OF ext_same_ip(1) [OF es]] by simp_all
    have nn: "netifs s2 = netifs s" "netif_list s2 = netif_list s" "netif_default s2 = netif_default s" using es by (simp_all add: ext_same_def)
    have wf2: "udp_wf sizes base s2" using e(2) wf ut by (simp add: udp_wf_def)
    have tp2: "taps s2" using assms(2) nn by (simp add: taps_def ifs_ok_def)
    have g2: "chain_data s2 [p] = g" using e(6) b(2) assms(4,5) by simp
    have host2: "ip_host (iph_dest (hdr_mem g) 0) netif s2" using assms(10,11) nn by (simp add: ip_host_def)
    have sel: "pcb = udp_select (ntohs (ld16 (hdr_mem g) 20)) (ntohs (ld16 (hdr_mem g) 22)) (iph_src (hdr_mem g) 0) (iph_dest (hdr_mem g) 0)
        (ip_addr_isbroadcast (iph_dest (hdr_mem g) 0) n) s2"
      unfolding assms(12,9,10) by (rule udp_select_cong [symmetric, OF ut])
    have n2: "netifs s2 netif = Some n" "udp_tab s2 pcb = Some u" using nn(1) ut(1) assms(3,14) by simp_all
    obtain s' where s': "ip_input tcp_input callback p netif s2 = do { s \<leftarrow> callback (recv u) (recv_arg u) pcb p (iph_src (hdr_mem g) 0) (ntohs (ld16 (hdr_mem g) 20)) s';
        Some (ERR_OK, s\<lparr>current_netif := NULL, current_header := NULL\<rparr>) }"
      "link_ok sizes base s'" "free_packet s' p [p]" "chain_data s' [p] = take (l - 28) (drop 28 g)" "kept {p} s2 s'" "udp_tab s' = udp_tab s2" "mset (udp_pcbs s') = mset (udp_pcbs s2)"
      using ip_input_udp [OF wf2 tp2 e(3,7) n2(1) g2 assms(8) host2 sel assms(13) n2(2) assms(15), of tcp_input callback] by blast
    have "kept {p} s s'" by (rule kept_trans' [OF kept_trans' [OF d(4) e(5)] s'(5)]) auto
    then have "kept {} s s'" using kept_fresh fresh by blast
    moreover have "mintapif_input tcp_input callback frame netif s =
        do { s \<leftarrow> callback (recv u) (recv_arg u) pcb p src (ntohs (ld16 (hdr_mem g) 20)) s'; Some (s\<lparr>current_netif := NULL, current_header := NULL\<rparr>) }"
      using d(1) False e(1) s'(1) assms(9) by (simp add: mintapif_input_def)
    ultimately show ?thesis using s'(2-4,6,7) ut by (intro disjI1 exI [of _ p] exI [of _ s']) simp
  qed
qed

theorem udp_frame_delivered_witness:
  "\<exists>pcb p (s :: reass_state) s'. udp_tab s = [pcb \<mapsto> udp_fresh\<lparr>local_port := 7, recv := 1\<rparr>] \<and> chain_data s' [p] = [104, 105]
    \<and> mintapif_input (\<lambda>p inp s. None) (\<lambda>f arg pcb p a port s. Some s) ([2, 0, 0, 0, 0, 1, 2, 0, 0, 0, 0, 2, 8, 0] @ example_datagram @ [0, 0]) 5000 s
      = Some (s'\<lparr>current_netif := NULL, current_header := NULL\<rparr>)"
proof -
  let ?eth = "[2, 0, 0, 0, 0, 1, 2, 0, 0, 0, 0, 2, 8, 0] :: u8_t list" and ?g = "example_datagram @ [0, 0]" and ?u = "udp_fresh\<lparr>local_port := 7, recv := 1\<rparr>"
  let ?tcp = "\<lambda>p inp s. None :: reass_state option" and ?cb = "\<lambda>f arg pcb p a port s. Some s"
  obtain pcb and s :: reass_state where s: "udp_ok example_sizes 20000 s" "pcb \<noteq> NULL" "udp_tab s = [pcb \<mapsto> ?u]" "udp_pcbs s = [pcb]"
    "netifs s = [5000 \<mapsto> example_netif]" "netif_list s = [5000]" "netif_default s = 5000" "memp_malloc (memp s) MEMP_PBUF_POOL \<noteq> Some (NULL, memp s)"
    using example_listener by blast
  have tp: "taps s" by (auto simp: taps_def ifs_ok_def s(5-7) eth_netif_def example_netif_def split: if_splits)
  have n: "netifs s 5000 = Some example_netif" by (simp add: s(5))
  have hd: "hdr_mem ?g = hdr_mem example_datagram" by (rule ext) (simp add: hdr_mem_def poke_def nth_append example_datagram_def less_Suc_eq)
  have arr: "udp_arrives example_netif ?g 30" using example_fields(5) unfolding udp_arrives_def Let_def hd by (simp add: example_datagram_def)
  have sel: "pcb = udp_select (ntohs (ld16 (hdr_mem ?g) 20)) (ntohs (ld16 (hdr_mem ?g) 22)) 0x0200000a 0x0100000a (ip_addr_isbroadcast 0x0100000a example_netif) s"
    unfolding hd example_fields by (simp add: udp_select_def s udp_full_match_def udp_uncon_match_def udp_local_match_def udp_fresh_def)
  have sz: "length ?eth = 14" "drop 12 ?eth = [8, 0]" "length (?eth @ ?g) \<le> 576" by (simp_all add: example_datagram_def)
  have u: "udp_tab s pcb = Some ?u" "recv ?u \<noteq> NULL" by (simp_all add: s(3))
  have ad: "0x0200000a = iph_src (hdr_mem ?g) 0" "0x0100000a = iph_dest (hdr_mem ?g) 0" unfolding hd example_fields by simp_all
  obtain p s' where "mintapif_input ?tcp ?cb (?eth @ ?g) 5000 s =
      do { s \<leftarrow> ?cb (recv ?u) (recv_arg ?u) pcb p 0x0200000a (ntohs (ld16 (hdr_mem ?g) 20)) s'; Some (s\<lparr>current_netif := NULL, current_header := NULL\<rparr>) }"
    "chain_data s' [p] = take (30 - 28) (drop 28 ?g)"
    using udp_frame_delivered [OF s(1) tp n refl sz arr ad example_host [OF n] sel s(2) u, of ?tcp ?cb] s(8) by blast
  moreover have "take (30 - 28) (drop 28 ?g) = [104, 105]" by (simp add: example_datagram_def)
  ultimately show ?thesis using s(3) by (intro exI [of _ pcb] exI [of _ p] exI [of _ s] exI [of _ s']) simp
qed
end
