(* ===== verification/Tcp.thy ===== *)
theory Tcp
  imports Ip_Input
begin

text \<open>
  The data of TCP and its output half, \<^verbatim>\<open>lwip/src/core/tcp_out.c\<close>, with the macros of \<^verbatim>\<open>lwip/src/include/lwip/tcp.h\<close>.
  \<open>LWIP_TCP_TIMESTAMPS\<close>, \<open>TCP_LISTEN_BACKLOG\<close>, \<open>LWIP_TCP_KEEPALIVE\<close> and \<open>LWIP_NETIF_HWADDRHINT\<close> are off in this build,
  \<open>TCP_QUEUE_OOSEQ\<close> and \<open>TCP_CALCULATE_EFF_SEND_MSS\<close> are on, and the sizes are the defaults of \<^verbatim>\<open>opt.h\<close>.

  State. \<open>tcp_tab\<close>, \<open>tcp_listen_tab\<close> and \<open>tcp_segs\<close> hold the control blocks, the listening control blocks and the segments
  at their addresses. The four lists of control blocks and the three queues of a control block, which the fields
  \<open>next\<close> thread, are lists of addresses. A TCP header is in the bytes of the packet, at the address \<open>seg_tcphdr\<close>. The variables
  that \<open>tcp_input\<close> shares with the functions it calls are fields of the state, as is the segment \<open>inseg\<close>.
  Signed 16-bit fields are 16-bit words that are read with \<open>sint\<close>.
\<close>

section \<open>State\<close>

datatype tcp_state = CLOSED | LISTEN | SYN_SENT | SYN_RCVD | ESTABLISHED | FIN_WAIT_1 | FIN_WAIT_2 | CLOSE_WAIT | CLOSING | LAST_ACK | TIME_WAIT

text \<open>C compares states as numbers.\<close>

fun state_num :: "tcp_state \<Rightarrow> nat" where
  "state_num CLOSED = 0"
| "state_num LISTEN = 1"
| "state_num SYN_SENT = 2"
| "state_num SYN_RCVD = 3"
| "state_num ESTABLISHED = 4"
| "state_num FIN_WAIT_1 = 5"
| "state_num FIN_WAIT_2 = 6"
| "state_num CLOSE_WAIT = 7"
| "state_num CLOSING = 8"
| "state_num LAST_ACK = 9"
| "state_num TIME_WAIT = 10"

lemma state_num_inj: "state_num a = state_num b \<Longrightarrow> a = b"
  by (cases a; cases b) simp_all

instantiation tcp_state :: linorder
begin
definition "a \<le> b \<longleftrightarrow> state_num a \<le> state_num b"
definition "a < b \<longleftrightarrow> state_num a < state_num b"
instance
  by standard (auto simp: less_eq_tcp_state_def less_tcp_state_def intro: state_num_inj)
end

record tcp_seg =
  seg_p :: addr
  dataptr :: addr
  seg_len :: u16_t
  seg_flags :: u8_t
  seg_tcphdr :: addr

record tcp_pcb =
  t_local_ip :: u32_t
  t_remote_ip :: u32_t
  t_so_options :: u16_t
  t_tos :: u8_t
  t_ttl :: u8_t
  state :: tcp_state
  prio :: u8_t
  callback_arg :: addr
  t_local_port :: u16_t
  accept :: addr
  t_remote_port :: u16_t
  t_flags :: u8_t
  rcv_nxt :: u32_t
  rcv_wnd :: u16_t
  rcv_ann_wnd :: u16_t
  rcv_ann_right_edge :: u32_t
  tmr :: u32_t
  polltmr :: u8_t
  pollinterval :: u8_t
  rtime :: u16_t
  mss :: u16_t
  rttest :: u32_t
  rtseq :: u32_t
  sa :: u16_t
  sv :: u16_t
  rto :: u16_t
  nrtx :: u8_t
  lastack :: u32_t
  dupacks :: u8_t
  cwnd :: u16_t
  ssthresh :: u16_t
  snd_nxt :: u32_t
  snd_wnd :: u16_t
  snd_wl1 :: u32_t
  snd_wl2 :: u32_t
  snd_lbb :: u32_t
  acked :: u16_t
  snd_buf :: u16_t
  snd_queuelen :: u16_t
  unsent :: "addr list"
  unacked :: "addr list"
  ooseq :: "addr list"
  refused_data :: addr
  sent :: addr
  t_recv :: addr
  connected :: addr
  poll :: addr
  errf :: addr
  keep_idle :: u32_t
  persist_cnt :: u32_t
  persist_backoff :: u8_t
  keep_cnt_sent :: u8_t

record tcp_pcb_listen =
  l_local_ip :: u32_t
  l_so_options :: u16_t
  l_tos :: u8_t
  l_ttl :: u8_t
  l_prio :: u8_t
  l_callback_arg :: addr
  l_local_port :: u16_t
  l_accept :: addr

record tcp_stack = reass_state +
  tcp_tab :: "addr \<rightharpoonup> tcp_pcb"
  tcp_listen_tab :: "addr \<rightharpoonup> tcp_pcb_listen"
  tcp_segs :: "addr \<rightharpoonup> tcp_seg"
  tcp_active_pcbs :: "addr list"
  tcp_listen_pcbs :: "addr list"
  tcp_bound_pcbs :: "addr list"
  tcp_tw_pcbs :: "addr list"
  tcp_ticks :: u32_t
  tcp_timer :: u8_t
  tcp_port :: u16_t
  tcp_iss :: u32_t
  tcp_input_pcb :: addr
  inseg :: tcp_seg
  in_tcphdr :: addr
  in_iphdr :: addr
  in_seqno :: u32_t
  in_ackno :: u32_t
  in_flags :: u8_t
  in_tcplen :: u16_t
  recv_flags :: u8_t
  recv_data :: addr

section \<open>Constants and macros\<close>

definition TCP_FIN :: u8_t where "TCP_FIN = 0x01"
definition TCP_SYN :: u8_t where "TCP_SYN = 0x02"
definition TCP_RST :: u8_t where "TCP_RST = 0x04"
definition TCP_PSH :: u8_t where "TCP_PSH = 0x08"
definition TCP_ACK :: u8_t where "TCP_ACK = 0x10"
definition TCP_FLAGS :: u16_t where "TCP_FLAGS = 0x3f"
definition TF_ACK_DELAY :: u8_t where "TF_ACK_DELAY = 0x01"
definition TF_ACK_NOW :: u8_t where "TF_ACK_NOW = 0x02"
definition TF_INFR :: u8_t where "TF_INFR = 0x04"
definition TF_FIN :: u8_t where "TF_FIN = 0x20"
definition TF_NODELAY :: u8_t where "TF_NODELAY = 0x40"
definition TF_NAGLEMEMERR :: u8_t where "TF_NAGLEMEMERR = 0x80"
definition TF_RESET :: u8_t where "TF_RESET = 0x08"
definition TF_CLOSED :: u8_t where "TF_CLOSED = 0x10"
definition TF_GOT_FIN :: u8_t where "TF_GOT_FIN = 0x20"
definition TF_SEG_OPTS_MSS :: u8_t where "TF_SEG_OPTS_MSS = 0x01"
definition TF_SEG_OPTS_TS :: u8_t where "TF_SEG_OPTS_TS = 0x02"
definition TCP_WRITE_FLAG_COPY :: u8_t where "TCP_WRITE_FLAG_COPY = 0x01"
definition TCP_WRITE_FLAG_MORE :: u8_t where "TCP_WRITE_FLAG_MORE = 0x02"
definition TCP_HLEN :: nat where "TCP_HLEN = 20"
definition TCP_MSS :: u16_t where "TCP_MSS = 536"
definition TCP_WND :: u16_t where "TCP_WND = 2144"
definition TCP_SND_BUF :: u16_t where "TCP_SND_BUF = 256"
definition TCP_SND_QUEUELEN :: nat where "TCP_SND_QUEUELEN = 4 * 256 div 536"
definition TCP_SNDQUEUELEN_OVERFLOW :: nat where "TCP_SNDQUEUELEN_OVERFLOW = 0xffff - 3"
definition TCP_TTL :: u8_t where "TCP_TTL = 255"

definition TCP_SEQ_LT :: "u32_t \<Rightarrow> u32_t \<Rightarrow> bool" where "TCP_SEQ_LT a b \<longleftrightarrow> sint (a - b) < 0"
definition TCP_SEQ_LEQ :: "u32_t \<Rightarrow> u32_t \<Rightarrow> bool" where "TCP_SEQ_LEQ a b \<longleftrightarrow> sint (a - b) \<le> 0"
definition TCP_SEQ_GT :: "u32_t \<Rightarrow> u32_t \<Rightarrow> bool" where "TCP_SEQ_GT a b \<longleftrightarrow> sint (a - b) > 0"
definition TCP_SEQ_GEQ :: "u32_t \<Rightarrow> u32_t \<Rightarrow> bool" where "TCP_SEQ_GEQ a b \<longleftrightarrow> sint (a - b) \<ge> 0"
definition TCP_SEQ_BETWEEN :: "u32_t \<Rightarrow> u32_t \<Rightarrow> u32_t \<Rightarrow> bool" where "TCP_SEQ_BETWEEN a b c \<longleftrightarrow> TCP_SEQ_GEQ a b \<and> TCP_SEQ_LEQ a c"

definition TCPH_HDRLEN :: "(addr \<Rightarrow> u8_t) \<Rightarrow> addr \<Rightarrow> u16_t" where "TCPH_HDRLEN d h = drop_bit 12 (ntohs (ld16 d (h + 12)))"
definition TCPH_FLAGS :: "(addr \<Rightarrow> u8_t) \<Rightarrow> addr \<Rightarrow> u8_t" where "TCPH_FLAGS d h = ucast (ntohs (ld16 d (h + 12)) AND TCP_FLAGS)"

definition TCPH_HDRLEN_SET :: "addr \<Rightarrow> u16_t \<Rightarrow> (addr \<Rightarrow> u8_t) \<Rightarrow> (addr \<Rightarrow> u8_t)" where
  "TCPH_HDRLEN_SET h l d = poke (h + 12) (le16 (htons (push_bit 12 l OR ucast (TCPH_FLAGS d h)))) d"

definition TCPH_FLAGS_SET :: "addr \<Rightarrow> u8_t \<Rightarrow> (addr \<Rightarrow> u8_t) \<Rightarrow> (addr \<Rightarrow> u8_t)" where
  "TCPH_FLAGS_SET h f d = poke (h + 12) (le16 ((ld16 d (h + 12) AND htons (NOT TCP_FLAGS)) OR htons (ucast f))) d"

definition TCPH_SET_FLAG :: "addr \<Rightarrow> u8_t \<Rightarrow> (addr \<Rightarrow> u8_t) \<Rightarrow> (addr \<Rightarrow> u8_t)" where
  "TCPH_SET_FLAG h f d = poke (h + 12) (le16 (ld16 d (h + 12) OR htons (ucast f))) d"

text \<open>The sequence number in the header of an outgoing segment, in host byte order.\<close>

definition hdr_seqno :: "(addr \<Rightarrow> u8_t) \<Rightarrow> addr \<Rightarrow> u32_t" where "hdr_seqno d h = ntohl (ld32 d (h + 4))"

definition TCP_TCPLEN :: "tcp_seg \<Rightarrow> (addr \<Rightarrow> u8_t) \<Rightarrow> nat" where
  "TCP_TCPLEN seg d = unat (seg_len seg) + (if TCPH_FLAGS d (seg_tcphdr seg) AND (TCP_FIN OR TCP_SYN) \<noteq> 0 then 1 else 0)"

definition LWIP_TCP_OPT_LENGTH :: "u8_t \<Rightarrow> nat" where
  "LWIP_TCP_OPT_LENGTH f = (if f AND TF_SEG_OPTS_MSS \<noteq> 0 then 4 else 0) + (if f AND TF_SEG_OPTS_TS \<noteq> 0 then 12 else 0)"

definition TCP_BUILD_MSS_OPTION :: u32_t where
  "TCP_BUILD_MSS_OPTION = htonl (push_bit 24 2 OR push_bit 16 4 OR push_bit 8 (ucast TCP_MSS div 256) OR (ucast TCP_MSS AND 255))"

definition mod_tcp :: "addr \<Rightarrow> (tcp_pcb \<Rightarrow> tcp_pcb) \<Rightarrow> 'a tcp_stack_scheme \<Rightarrow> 'a tcp_stack_scheme option" where
  "mod_tcp pcb f s = do { t \<leftarrow> tcp_tab s pcb; Some (s\<lparr>tcp_tab := (tcp_tab s)(pcb \<mapsto> f t)\<rparr>) }"

definition mod_seg :: "addr \<Rightarrow> (tcp_seg \<Rightarrow> tcp_seg) \<Rightarrow> 'a tcp_stack_scheme \<Rightarrow> 'a tcp_stack_scheme option" where
  "mod_seg seg f s = do { x \<leftarrow> tcp_segs s seg; Some (s\<lparr>tcp_segs := (tcp_segs s)(seg \<mapsto> f x)\<rparr>) }"

section \<open>Freeing segments\<close>

definition tcp_seg_free :: "addr \<Rightarrow> 'a tcp_stack_scheme \<Rightarrow> (nat \<times> 'a tcp_stack_scheme) option" where
  "tcp_seg_free seg s =
     (if seg \<noteq> NULL then do {
        x \<leftarrow> tcp_segs s seg;
        (count, s) \<leftarrow> (if seg_p x \<noteq> NULL then pbuf_free (seg_p x) s else Some (0, s));
        s \<leftarrow> memp_release MEMP_TCP_SEG seg s;
        Some (count, s\<lparr>tcp_segs := (tcp_segs s)(seg := None)\<rparr>)
      } else Some (0, s))"

fun tcp_segs_free :: "addr list \<Rightarrow> 'a tcp_stack_scheme \<Rightarrow> 'a tcp_stack_scheme option" where
  "tcp_segs_free [] s = Some s"
| "tcp_segs_free (seg # segs) s = do { (c, s) \<leftarrow> tcp_seg_free seg s; tcp_segs_free segs s }"

section \<open>Sending single segments\<close>

text \<open>The header that \<open>tcp_output_set_header\<close> and \<open>tcp_rst\<close> build, with flags, window and header length.\<close>

definition tcp_header_bytes :: "addr \<Rightarrow> u16_t \<Rightarrow> u16_t \<Rightarrow> u32_t \<Rightarrow> u32_t \<Rightarrow> u8_t \<Rightarrow> u16_t \<Rightarrow> u16_t \<Rightarrow> (addr \<Rightarrow> u8_t) \<Rightarrow> (addr \<Rightarrow> u8_t)" where
  "tcp_header_bytes h src dest seqno_be ack f wnd hlen d =
     (let d = poke h (le16 (htons src)) d;
          d = poke (h + 2) (le16 (htons dest)) d;
          d = poke (h + 4) (le32 seqno_be) d;
          d = poke (h + 8) (le32 (htonl ack)) d;
          d = TCPH_FLAGS_SET h f d;
          d = poke (h + 14) (le16 (htons wnd)) d;
          d = poke (h + 18) (le16 0) d;
          d = TCPH_HDRLEN_SET h hlen d
      in poke (h + 16) (le16 0) d)"

definition tcp_output_set_header :: "addr \<Rightarrow> addr \<Rightarrow> nat \<Rightarrow> u32_t \<Rightarrow> 'a tcp_stack_scheme \<Rightarrow> 'a tcp_stack_scheme option" where
  "tcp_output_set_header pcb p optlen seqno_be s = do {
     b \<leftarrow> pbufs s p;
     t \<leftarrow> tcp_tab s pcb;
     let s = s\<lparr>bytes := tcp_header_bytes (payload b) (t_local_port t) (t_remote_port t) seqno_be (rcv_nxt t) TCP_ACK (rcv_ann_wnd t) (5 + of_nat optlen div 4) (bytes s)\<rparr>;
     mod_tcp pcb (\<lambda>t. t\<lparr>rcv_ann_right_edge := rcv_nxt t + ucast (rcv_ann_wnd t)\<rparr>) s
   }"

text \<open>The checksum over the pseudo header goes into the header at the start of the packet, the packet to IP, and is freed.\<close>

definition tcp_send_packet :: "addr \<Rightarrow> u32_t \<Rightarrow> u32_t \<Rightarrow> u8_t \<Rightarrow> u8_t \<Rightarrow> 'a tcp_stack_scheme \<Rightarrow> 'a tcp_stack_scheme option" where
  "tcp_send_packet p src dest ttl tos s = do {
     b \<leftarrow> pbufs s p;
     chk \<leftarrow> inet_chksum_pseudo p src dest IP_PROTO_TCP (of_nat (tot_len b)) s;
     let s = s\<lparr>bytes := poke (payload b + 16) (le16 chk) (bytes s)\<rparr>;
     (e, s) \<leftarrow> ip_output p src dest ttl tos IP_PROTO_TCP s;
     (c, s) \<leftarrow> pbuf_free p s;
     Some s
   }"

definition tcp_send_empty_ack :: "addr \<Rightarrow> 'a tcp_stack_scheme \<Rightarrow> (err_t \<times> 'a tcp_stack_scheme) option" where
  "tcp_send_empty_ack pcb s = do {
     (p, s) \<leftarrow> pbuf_alloc PBUF_IP TCP_HLEN PBUF_RAM s;
     if p = NULL then Some (ERR_BUF, s)
     else do {
       s \<leftarrow> mod_tcp pcb (\<lambda>t. t\<lparr>t_flags := t_flags t AND NOT (TF_ACK_DELAY OR TF_ACK_NOW)\<rparr>) s;
       t \<leftarrow> tcp_tab s pcb;
       s \<leftarrow> tcp_output_set_header pcb p 0 (htonl (snd_nxt t)) s;
       s \<leftarrow> tcp_send_packet p (t_local_ip t) (t_remote_ip t) (t_ttl t) (t_tos t) s;
       Some (ERR_OK, s)
     }
   }"

definition tcp_rst :: "u32_t \<Rightarrow> u32_t \<Rightarrow> u32_t \<Rightarrow> u32_t \<Rightarrow> u16_t \<Rightarrow> u16_t \<Rightarrow> 'a tcp_stack_scheme \<Rightarrow> 'a tcp_stack_scheme option" where
  "tcp_rst sq ack locip remip locport remport s = do {
     (p, s) \<leftarrow> pbuf_alloc PBUF_IP TCP_HLEN PBUF_RAM s;
     if p = NULL then Some s
     else do {
       b \<leftarrow> pbufs s p;
       lwip_assert (TCP_HLEN \<le> len b);
       let s = s\<lparr>bytes := tcp_header_bytes (payload b) locport remport (htonl sq) ack (TCP_RST OR TCP_ACK) TCP_WND 5 (bytes s)\<rparr>;
       tcp_send_packet p locip remip TCP_TTL 0 s
     }
   }"

definition tcp_keepalive :: "addr \<Rightarrow> 'a tcp_stack_scheme \<Rightarrow> 'a tcp_stack_scheme option" where
  "tcp_keepalive pcb s = do {
     (p, s) \<leftarrow> pbuf_alloc PBUF_IP TCP_HLEN PBUF_RAM s;
     if p = NULL then Some s
     else do {
       b \<leftarrow> pbufs s p;
       lwip_assert (TCP_HLEN \<le> len b);
       t \<leftarrow> tcp_tab s pcb;
       s \<leftarrow> tcp_output_set_header pcb p 0 (htonl (snd_nxt t - 1)) s;
       tcp_send_packet p (t_local_ip t) (t_remote_ip t) (t_ttl t) 0 s
     }
   }"

definition tcp_zero_window_probe :: "addr \<Rightarrow> 'a tcp_stack_scheme \<Rightarrow> 'a tcp_stack_scheme option" where
  "tcp_zero_window_probe pcb s = do {
     t \<leftarrow> tcp_tab s pcb;
     case unacked t @ unsent t of
       [] \<Rightarrow> Some s
     | seg # segs \<Rightarrow> do {
         x \<leftarrow> tcp_segs s seg;
         let is_fin = (TCPH_FLAGS (bytes s) (seg_tcphdr x) AND TCP_FIN \<noteq> 0 \<and> seg_len x = 0);
         (p, s) \<leftarrow> pbuf_alloc PBUF_IP (if is_fin then TCP_HLEN else TCP_HLEN + 1) PBUF_RAM s;
         if p = NULL then Some s
         else do {
           b \<leftarrow> pbufs s p;
           lwip_assert (TCP_HLEN \<le> len b);
           s \<leftarrow> tcp_output_set_header pcb p 0 (ld32 (bytes s) (seg_tcphdr x + 4)) s;
           let s = (if is_fin then s\<lparr>bytes := TCPH_FLAGS_SET (payload b) (TCP_ACK OR TCP_FIN) (bytes s)\<rparr>
                    else s\<lparr>bytes := poke (payload b + 20) [bytes s (dataptr x)] (bytes s)\<rparr>);
           tcp_send_packet p (t_local_ip t) (t_remote_ip t) (t_ttl t) 0 s
         }
       }
   }"

section \<open>Sending queued segments\<close>

definition tcp_output_segment :: "addr \<Rightarrow> addr \<Rightarrow> 'a tcp_stack_scheme \<Rightarrow> 'a tcp_stack_scheme option" where
  "tcp_output_segment seg pcb s = do {
     x \<leftarrow> tcp_segs s seg;
     t \<leftarrow> tcp_tab s pcb;
     let h = seg_tcphdr x;
     let d = poke (h + 14) (le16 (htons (rcv_ann_wnd t))) (poke (h + 8) (le32 (htonl (rcv_nxt t))) (bytes s));
     let s = s\<lparr>bytes := (if seg_flags x AND TF_SEG_OPTS_MSS \<noteq> 0 then poke (h + 20) (le32 TCP_BUILD_MSS_OPTION) d else d)\<rparr>;
     s \<leftarrow> mod_tcp pcb (\<lambda>t. t\<lparr>rcv_ann_right_edge := rcv_nxt t + ucast (rcv_ann_wnd t)\<rparr>) s;
     (found, s) \<leftarrow> (if ip_addr_isany (t_local_ip t) then do {
         netif \<leftarrow> ip_route (t_remote_ip t) s;
         if netif = NULL then Some (False, s)
         else do { n \<leftarrow> netifs s netif; s \<leftarrow> mod_tcp pcb (\<lambda>t. t\<lparr>t_local_ip := nif_ip_addr n\<rparr>) s; Some (True, s) }
       } else Some (True, s));
     if \<not> found then Some s
     else do {
       s \<leftarrow> mod_tcp pcb (\<lambda>t. t\<lparr>rtime := (if rtime t = -1 then 0 else rtime t)\<rparr>) s;
       s \<leftarrow> mod_tcp pcb (\<lambda>t. if rttest t = 0 then t\<lparr>rttest := tcp_ticks s, rtseq := hdr_seqno (bytes s) h\<rparr> else t) s;
       b \<leftarrow> pbufs s (seg_p x);
       let l = u16 (usub64 h (payload b));
       s \<leftarrow> mod_pbuf (seg_p x) (\<lambda>b. b\<lparr>len := usub16 (len b) l, tot_len := usub16 (tot_len b) l, payload := h\<rparr>) s;
       let s = s\<lparr>bytes := poke (h + 16) (le16 0) (bytes s)\<rparr>;
       t \<leftarrow> tcp_tab s pcb;
       b \<leftarrow> pbufs s (seg_p x);
       chk \<leftarrow> inet_chksum_pseudo (seg_p x) (t_local_ip t) (t_remote_ip t) IP_PROTO_TCP (of_nat (tot_len b)) s;
       let s = s\<lparr>bytes := poke (h + 16) (le16 chk) (bytes s)\<rparr>;
       (e, s) \<leftarrow> ip_output (seg_p x) (t_local_ip t) (t_remote_ip t) (t_ttl t) (t_tos t) IP_PROTO_TCP s;
       Some s
     }
   }"

text \<open>Insertion before the first segment whose sequence number is not lower.\<close>

fun seg_insert :: "u32_t \<Rightarrow> addr \<Rightarrow> addr list \<Rightarrow> 'a tcp_stack_scheme \<Rightarrow> addr list option" where
  "seg_insert sq seg [] s = Some [seg]"
| "seg_insert sq seg (cur # segs) s = do {
     c \<leftarrow> tcp_segs s cur;
     if TCP_SEQ_LT (hdr_seqno (bytes s) (seg_tcphdr c)) sq then do { r \<leftarrow> seg_insert sq seg segs s; Some (cur # r) }
     else Some (seg # cur # segs)
   }"

definition tcp_do_output_nagle :: "tcp_pcb \<Rightarrow> 'a tcp_stack_scheme \<Rightarrow> bool option" where
  "tcp_do_output_nagle t s =
     (if unacked t = [] \<or> t_flags t AND (TF_NODELAY OR TF_INFR) \<noteq> 0 then Some True
      else (case unsent t of [] \<Rightarrow> Some False
            | [seg] \<Rightarrow> do { x \<leftarrow> tcp_segs s seg; Some (mss t \<le> seg_len x) }
            | _ \<Rightarrow> Some True))"

definition seg_in_wnd :: "tcp_seg \<Rightarrow> tcp_pcb \<Rightarrow> u32_t \<Rightarrow> (addr \<Rightarrow> u8_t) \<Rightarrow> bool" where
  "seg_in_wnd x t wnd d \<longleftrightarrow> hdr_seqno d (seg_tcphdr x) - lastack t + ucast (seg_len x) \<le> wnd"

text \<open>The segment just sent goes to the queue of unacknowledged segments; \<open>useg\<close> of the code is the last one of that queue.\<close>

definition tcp_output_unacked :: "addr \<Rightarrow> addr \<Rightarrow> 'a tcp_stack_scheme \<Rightarrow> 'a tcp_stack_scheme option" where
  "tcp_output_unacked seg pcb s = do {
     x \<leftarrow> tcp_segs s seg;
     t \<leftarrow> tcp_tab s pcb;
     if TCP_TCPLEN x (bytes s) > 0 then
       (if unacked t = [] then mod_tcp pcb (\<lambda>t. t\<lparr>unacked := [seg]\<rparr>) s
        else do {
          u \<leftarrow> tcp_segs s (last (unacked t));
          if TCP_SEQ_LT (hdr_seqno (bytes s) (seg_tcphdr x)) (hdr_seqno (bytes s) (seg_tcphdr u)) then do {
            q \<leftarrow> seg_insert (hdr_seqno (bytes s) (seg_tcphdr x)) seg (unacked t) s;
            mod_tcp pcb (\<lambda>t. t\<lparr>unacked := q\<rparr>) s
          } else mod_tcp pcb (\<lambda>t. t\<lparr>unacked := unacked t @ [seg]\<rparr>) s
        })
     else do { (c, s) \<leftarrow> tcp_seg_free seg s; Some s }
   }"

text \<open>The loop over the unsent segments; what remains of the queue is returned.\<close>

fun tcp_output_loop :: "addr \<Rightarrow> u32_t \<Rightarrow> addr list \<Rightarrow> 'a tcp_stack_scheme \<Rightarrow> (addr list \<times> 'a tcp_stack_scheme) option" where
  "tcp_output_loop pcb wnd [] s = Some ([], s)"
| "tcp_output_loop pcb wnd (seg # segs) s = do {
     x \<leftarrow> tcp_segs s seg;
     t \<leftarrow> tcp_tab s pcb;
     if \<not> seg_in_wnd x t wnd (bytes s) then Some (seg # segs, s)
     else do {
       lwip_assert (TCPH_FLAGS (bytes s) (seg_tcphdr x) AND TCP_RST = 0);
       nagle \<leftarrow> tcp_do_output_nagle t s;
       if \<not> nagle \<and> t_flags t AND (TF_NAGLEMEMERR OR TF_FIN) = 0 then Some (seg # segs, s)
       else do {
         s \<leftarrow> mod_tcp pcb (\<lambda>t. t\<lparr>unsent := segs\<rparr>) s;
         s \<leftarrow> (if state t \<noteq> SYN_SENT then
                 mod_tcp pcb (\<lambda>t. t\<lparr>t_flags := t_flags t AND NOT (TF_ACK_DELAY OR TF_ACK_NOW)\<rparr>) (s\<lparr>bytes := TCPH_SET_FLAG (seg_tcphdr x) TCP_ACK (bytes s)\<rparr>)
               else Some s);
         s \<leftarrow> tcp_output_segment seg pcb s;
         let nxt = hdr_seqno (bytes s) (seg_tcphdr x) + of_nat (TCP_TCPLEN x (bytes s));
         s \<leftarrow> mod_tcp pcb (\<lambda>t. if TCP_SEQ_LT (snd_nxt t) nxt then t\<lparr>snd_nxt := nxt\<rparr> else t) s;
         s \<leftarrow> tcp_output_unacked seg pcb s;
         tcp_output_loop pcb wnd segs s
       }
     }
   }"

definition tcp_output :: "addr \<Rightarrow> 'a tcp_stack_scheme \<Rightarrow> (err_t \<times> 'a tcp_stack_scheme) option" where
  "tcp_output pcb s =
     (if tcp_input_pcb s = pcb then Some (ERR_OK, s)
      else do {
        t \<leftarrow> tcp_tab s pcb;
        let wnd = ucast (min (snd_wnd t) (cwnd t));
        blocked \<leftarrow> (case unsent t of [] \<Rightarrow> Some True | seg # _ \<Rightarrow> do { x \<leftarrow> tcp_segs s seg; Some (\<not> seg_in_wnd x t wnd (bytes s)) });
        if t_flags t AND TF_ACK_NOW \<noteq> 0 \<and> blocked then tcp_send_empty_ack pcb s
        else do {
          (rest, s) \<leftarrow> tcp_output_loop pcb wnd (unsent t) s;
          t \<leftarrow> tcp_tab s pcb;
          s \<leftarrow> (case rest of [] \<Rightarrow> Some s
                | seg # _ \<Rightarrow> do {
                    x \<leftarrow> tcp_segs s seg;
                    if persist_backoff t = 0 \<and> \<not> seg_in_wnd x t (ucast (snd_wnd t)) (bytes s)
                    then mod_tcp pcb (\<lambda>t. t\<lparr>persist_cnt := 0, persist_backoff := 1\<rparr>) s else Some s
                  });
          s \<leftarrow> mod_tcp pcb (\<lambda>t. t\<lparr>t_flags := t_flags t AND NOT TF_NAGLEMEMERR\<rparr>) s;
          Some (ERR_OK, s)
        }
      })"

definition tcp_ack_now :: "addr \<Rightarrow> 'a tcp_stack_scheme \<Rightarrow> 'a tcp_stack_scheme option" where
  "tcp_ack_now pcb s = do {
     s \<leftarrow> mod_tcp pcb (\<lambda>t. t\<lparr>t_flags := t_flags t OR TF_ACK_NOW\<rparr>) s;
     (e, s) \<leftarrow> tcp_output pcb s;
     Some s
   }"

definition tcp_ack :: "addr \<Rightarrow> 'a tcp_stack_scheme \<Rightarrow> 'a tcp_stack_scheme option" where
  "tcp_ack pcb s = do {
     t \<leftarrow> tcp_tab s pcb;
     if t_flags t AND TF_ACK_DELAY \<noteq> 0 then do {
       s \<leftarrow> mod_tcp pcb (\<lambda>t. t\<lparr>t_flags := (t_flags t AND NOT TF_ACK_DELAY) OR TF_ACK_NOW\<rparr>) s;
       (e, s) \<leftarrow> tcp_output pcb s;
       Some s
     } else mod_tcp pcb (\<lambda>t. t\<lparr>t_flags := t_flags t OR TF_ACK_DELAY\<rparr>) s
   }"

section \<open>Retransmission\<close>

definition tcp_rexmit_rto :: "addr \<Rightarrow> 'a tcp_stack_scheme \<Rightarrow> 'a tcp_stack_scheme option" where
  "tcp_rexmit_rto pcb s = do {
     t \<leftarrow> tcp_tab s pcb;
     if unacked t = [] then Some s
     else do {
       s \<leftarrow> mod_tcp pcb (\<lambda>t. t\<lparr>unsent := unacked t @ unsent t, unacked := [], nrtx := nrtx t + 1, rttest := 0\<rparr>) s;
       (e, s) \<leftarrow> tcp_output pcb s;
       Some s
     }
   }"

definition tcp_rexmit :: "addr \<Rightarrow> 'a tcp_stack_scheme \<Rightarrow> 'a tcp_stack_scheme option" where
  "tcp_rexmit pcb s = do {
     t \<leftarrow> tcp_tab s pcb;
     case unacked t of
       [] \<Rightarrow> Some s
     | seg # segs \<Rightarrow> do {
         x \<leftarrow> tcp_segs s seg;
         q \<leftarrow> seg_insert (hdr_seqno (bytes s) (seg_tcphdr x)) seg (unsent t) s;
         mod_tcp pcb (\<lambda>t. t\<lparr>unacked := segs, unsent := q, nrtx := nrtx t + 1, rttest := 0\<rparr>) s
       }
   }"

text \<open>The congestion window after a fast retransmission; \<open>2 * mss\<close> is computed in \<open>int\<close>, the results are stored in 16 bits.\<close>

definition fast_ssthresh :: "tcp_pcb \<Rightarrow> u16_t" where
  "fast_ssthresh t = (let x = (if snd_wnd t < cwnd t then snd_wnd t div 2 else cwnd t div 2)
     in if unat x < 2 * unat (mss t) then of_nat (2 * unat (mss t)) else x)"

definition tcp_rexmit_fast :: "addr \<Rightarrow> 'a tcp_stack_scheme \<Rightarrow> 'a tcp_stack_scheme option" where
  "tcp_rexmit_fast pcb s = do {
     t \<leftarrow> tcp_tab s pcb;
     if unacked t \<noteq> [] \<and> t_flags t AND TF_INFR = 0 then do {
       s \<leftarrow> tcp_rexmit pcb s;
       mod_tcp pcb (\<lambda>t. t\<lparr>ssthresh := fast_ssthresh t, cwnd := fast_ssthresh t + 3 * mss t, t_flags := t_flags t OR TF_INFR\<rparr>) s
     } else Some s
   }"

section \<open>Queueing data\<close>

text \<open>The difference \<open>mss - optlen\<close> is an \<open>int\<close> and may be negative; the result is stored in 16 bits.\<close>

definition enqueue_seglen :: "u16_t \<Rightarrow> u16_t \<Rightarrow> nat \<Rightarrow> u16_t" where
  "enqueue_seglen left m optlen = (if int (unat left) > int (unat m) - int optlen then of_int (int (unat m) - int optlen) else left)"

definition queue_too_long :: "u16_t \<Rightarrow> bool" where
  "queue_too_long n \<longleftrightarrow> unat n > TCP_SND_QUEUELEN \<or> unat n > TCP_SNDQUEUELEN_OVERFLOW"

text \<open>
  The packet of a new segment, with a copy of the data or with a reference to it. \<open>Some (False, s)\<close> is the jump to \<open>memerr\<close>;
  the number of pbufs is added to \<open>queuelen\<close>.
\<close>

definition enqueue_data :: "addr \<Rightarrow> addr \<Rightarrow> addr \<Rightarrow> u16_t \<Rightarrow> u16_t \<Rightarrow> u8_t \<Rightarrow> nat \<Rightarrow> u16_t \<Rightarrow> 'a tcp_stack_scheme \<Rightarrow> (bool \<times> u16_t \<times> 'a tcp_stack_scheme) option" where
  "enqueue_data seg arg ptr left seglen apiflags optlen queuelen s =
     (if apiflags AND TCP_WRITE_FLAG_COPY \<noteq> 0 then do {
        (p, s) \<leftarrow> pbuf_alloc PBUF_TRANSPORT (u16 (unat seglen + optlen)) PBUF_RAM s;
        s \<leftarrow> mod_seg seg (\<lambda>x. x\<lparr>seg_p := p\<rparr>) s;
        if p = NULL then Some (False, queuelen, s)
        else do {
          b \<leftarrow> pbufs s p;
          lwip_assert (unat seglen + optlen \<le> len b);
          c \<leftarrow> pbuf_clen p s;
          let s = (if arg \<noteq> NULL then s\<lparr>bytes := memcpy (payload b + optlen) ptr (unat seglen) (bytes s)\<rparr> else s);
          s \<leftarrow> mod_seg seg (\<lambda>x. x\<lparr>dataptr := payload b\<rparr>) s;
          Some (True, queuelen + of_nat c, s)
        }
      } else do {
        (h, s) \<leftarrow> pbuf_alloc PBUF_TRANSPORT optlen PBUF_RAM s;
        s \<leftarrow> mod_seg seg (\<lambda>x. x\<lparr>seg_p := h\<rparr>) s;
        if h = NULL then Some (False, queuelen, s)
        else do {
          c \<leftarrow> pbuf_clen h s;
          let queuelen = queuelen + of_nat c;
          if left > 0 then do {
            (p, s) \<leftarrow> pbuf_alloc PBUF_RAW (unat seglen) PBUF_ROM s;
            if p = NULL then do {
              (c, s) \<leftarrow> pbuf_free h s;
              s \<leftarrow> mod_seg seg (\<lambda>x. x\<lparr>seg_p := NULL\<rparr>) s;
              Some (False, queuelen, s)
            } else do {
              s \<leftarrow> mod_pbuf p (\<lambda>b. b\<lparr>payload := ptr\<rparr>) s;
              s \<leftarrow> mod_seg seg (\<lambda>x. x\<lparr>dataptr := ptr\<rparr>) s;
              s \<leftarrow> pbuf_cat h p s;
              Some (True, queuelen + 1, s)
            }
          } else Some (True, queuelen, s)
        }
      })"

text \<open>The part of the header that is known when a segment is queued.\<close>

definition enqueue_header :: "addr \<Rightarrow> u16_t \<Rightarrow> u16_t \<Rightarrow> u32_t \<Rightarrow> u8_t \<Rightarrow> nat \<Rightarrow> (addr \<Rightarrow> u8_t) \<Rightarrow> (addr \<Rightarrow> u8_t)" where
  "enqueue_header h src dest sq f optlen d =
     (let d = poke h (le16 (htons src)) d;
          d = poke (h + 2) (le16 (htons dest)) d;
          d = poke (h + 4) (le32 (htonl sq)) d;
          d = poke (h + 18) (le16 0) d;
          d = TCPH_FLAGS_SET h f d
      in TCPH_HDRLEN_SET h (5 + of_nat optlen div 4) d)"

text \<open>
  The loop that breaks the data into segments, at least one. \<open>Some (None, \<dots>)\<close> is the jump to \<open>memerr\<close>; otherwise the length
  of the last segment is returned. A new element of the pool is taken to be zero where the code leaves it uninitialised.
\<close>

partial_function (option) tcp_enqueue_loop ::
  "addr \<Rightarrow> addr \<Rightarrow> addr \<Rightarrow> u16_t \<Rightarrow> u32_t \<Rightarrow> u8_t \<Rightarrow> u8_t \<Rightarrow> u8_t \<Rightarrow> u16_t \<Rightarrow> addr list \<Rightarrow> u16_t \<Rightarrow> 'a tcp_stack_scheme \<Rightarrow>
    (u16_t option \<times> addr list \<times> u16_t \<times> 'a tcp_stack_scheme) option" where
  "tcp_enqueue_loop pcb arg ptr left sq f apiflags optflags queuelen queue seglen s =
     (if queue \<noteq> [] \<and> left = 0 then Some (Some seglen, queue, queuelen, s)
      else do {
        t \<leftarrow> tcp_tab s pcb;
        let optlen = LWIP_TCP_OPT_LENGTH optflags;
        let seglen = enqueue_seglen left (mss t) optlen;
        (seg, m) \<leftarrow> memp_malloc (memp s) MEMP_TCP_SEG;
        let s = s\<lparr>memp := m\<rparr>;
        if seg = NULL then Some (None, queue, queuelen, s)
        else do {
          let s = s\<lparr>tcp_segs := (tcp_segs s)(seg \<mapsto> \<lparr>seg_p = NULL, dataptr = NULL, seg_len = 0, seg_flags = 0, seg_tcphdr = NULL\<rparr>)\<rparr>;
          let queue = queue @ [seg];
          (ok, queuelen, s) \<leftarrow> enqueue_data seg arg ptr left seglen apiflags optlen queuelen s;
          if \<not> ok then Some (None, queue, queuelen, s)
          else if queue_too_long queuelen then Some (None, queue, queuelen, s)
          else do {
            s \<leftarrow> mod_seg seg (\<lambda>x. x\<lparr>seg_len := seglen\<rparr>) s;
            x \<leftarrow> tcp_segs s seg;
            (failed, s) \<leftarrow> pbuf_header (seg_p x) (int TCP_HLEN) s;
            if failed then Some (None, queue, queuelen, s)
            else do {
              b \<leftarrow> pbufs s (seg_p x);
              let s = s\<lparr>bytes := enqueue_header (payload b) (t_local_port t) (t_remote_port t) sq f optlen (bytes s)\<rparr>;
              s \<leftarrow> mod_seg seg (\<lambda>x. x\<lparr>seg_tcphdr := payload b, seg_flags := optflags\<rparr>) s;
              tcp_enqueue_loop pcb arg (ptr + unat seglen) (left - seglen) (sq + ucast seglen) f apiflags optflags queuelen queue seglen s
            }
          }
        }
      })"

declare tcp_enqueue_loop.simps [code]

definition enqueue_memerr :: "addr \<Rightarrow> addr list \<Rightarrow> 'a tcp_stack_scheme \<Rightarrow> (err_t \<times> 'a tcp_stack_scheme) option" where
  "enqueue_memerr pcb queue s = do {
     s \<leftarrow> mod_tcp pcb (\<lambda>t. t\<lparr>t_flags := t_flags t OR TF_NAGLEMEMERR\<rparr>) s;
     s \<leftarrow> tcp_segs_free queue s;
     t \<leftarrow> tcp_tab s pcb;
     lwip_assert (snd_queuelen t \<noteq> 0 \<longrightarrow> unacked t \<noteq> [] \<or> unsent t \<noteq> []);
     Some (ERR_MEM, s)
   }"

text \<open>Whether the first new segment is joined to the last unsent one.\<close>

definition enqueue_joins :: "tcp_seg \<Rightarrow> tcp_seg \<Rightarrow> u8_t \<Rightarrow> u16_t \<Rightarrow> (addr \<Rightarrow> u8_t) \<Rightarrow> bool" where
  "enqueue_joins u q f m d \<longleftrightarrow> TCP_TCPLEN u d \<noteq> 0 \<and> TCPH_FLAGS d (seg_tcphdr u) AND (TCP_SYN OR TCP_FIN) = 0
     \<and> (f AND (TCP_SYN OR TCP_FIN) = 0 \<or> f = TCP_FIN) \<and> unat (seg_len u) + unat (seg_len q) \<le> unat m \<and> seg_flags u = seg_flags q
     \<and> hdr_seqno d (seg_tcphdr u) + ucast (seg_len u) = hdr_seqno d (seg_tcphdr q)"

text \<open>The first new segment \<open>seg\<close> is joined to \<open>useg\<close>; the other new ones follow.\<close>

definition enqueue_join :: "addr \<Rightarrow> addr \<Rightarrow> addr \<Rightarrow> addr list \<Rightarrow> u8_t \<Rightarrow> nat \<Rightarrow> u16_t \<Rightarrow> 'a tcp_stack_scheme \<Rightarrow> (u16_t \<times> 'a tcp_stack_scheme) option" where
  "enqueue_join pcb useg seg segs f optlen queuelen s = do {
     q \<leftarrow> tcp_segs s seg;
     u \<leftarrow> tcp_segs s useg;
     (failed, s) \<leftarrow> pbuf_header (seg_p q) (- int (TCP_HLEN + optlen)) s;
     lwip_assert (\<not> failed);
     b \<leftarrow> pbufs s (seg_p q);
     (queuelen, s) \<leftarrow> (if len b = 0 then do {
         s \<leftarrow> mod_seg seg (\<lambda>x. x\<lparr>seg_p := pb_next b\<rparr>) s;
         s \<leftarrow> mod_pbuf (seg_p q) (\<lambda>b. b\<lparr>pb_next := NULL\<rparr>) s;
         (c, s) \<leftarrow> pbuf_free (seg_p q) s;
         Some (queuelen - 1, s)
       } else Some (queuelen, s));
     q \<leftarrow> tcp_segs s seg;
     s \<leftarrow> (if f AND TCP_FIN \<noteq> 0 then do {
             lwip_assert (seg_p q = NULL \<and> seg_len q = 0);
             Some (s\<lparr>bytes := TCPH_SET_FLAG (seg_tcphdr u) TCP_FIN (bytes s)\<rparr>)
           } else do {
             lwip_assert (seg_p q \<noteq> NULL);
             b \<leftarrow> pbufs s (seg_p q);
             lwip_assert (len b > 0);
             s \<leftarrow> pbuf_cat (seg_p u) (seg_p q) s;
             s \<leftarrow> mod_seg useg (\<lambda>x. x\<lparr>seg_len := seg_len x + seg_len q\<rparr>) s;
             mod_tcp pcb (\<lambda>t. t\<lparr>unsent := unsent t @ segs\<rparr>) s
           });
     s \<leftarrow> memp_release MEMP_TCP_SEG seg s;
     Some (queuelen, s\<lparr>tcp_segs := (tcp_segs s)(seg := None)\<rparr>)
   }"

text \<open>Bookkeeping after the segments have been queued; \<open>seg\<close> is the last one and \<open>seglen\<close> its length.\<close>

definition enqueue_account :: "addr \<Rightarrow> u16_t \<Rightarrow> u8_t \<Rightarrow> u8_t \<Rightarrow> u16_t \<Rightarrow> addr \<Rightarrow> u16_t \<Rightarrow> 'a tcp_stack_scheme \<Rightarrow> (err_t \<times> 'a tcp_stack_scheme) option" where
  "enqueue_account pcb l f apiflags queuelen seg seglen s = do {
     let l = (if f AND TCP_SYN \<noteq> 0 \<or> f AND TCP_FIN \<noteq> 0 then l + 1 else l);
     s \<leftarrow> mod_tcp pcb (\<lambda>t. t\<lparr>t_flags := (if f AND TCP_FIN \<noteq> 0 then t_flags t OR TF_FIN else t_flags t), snd_lbb := snd_lbb t + ucast l, snd_buf := snd_buf t - l,
            snd_queuelen := queuelen\<rparr>) s;
     t \<leftarrow> tcp_tab s pcb;
     lwip_assert (snd_queuelen t \<noteq> 0 \<longrightarrow> unacked t \<noteq> [] \<or> unsent t \<noteq> []);
     x \<leftarrow> tcp_segs s seg;
     Some (ERR_OK, if seglen > 0 \<and> apiflags AND TCP_WRITE_FLAG_MORE = 0 then s\<lparr>bytes := TCPH_SET_FLAG (seg_tcphdr x) TCP_PSH (bytes s)\<rparr> else s)
   }"

definition tcp_enqueue :: "addr \<Rightarrow> addr \<Rightarrow> u16_t \<Rightarrow> u8_t \<Rightarrow> u8_t \<Rightarrow> u8_t \<Rightarrow> 'a tcp_stack_scheme \<Rightarrow> (err_t \<times> 'a tcp_stack_scheme) option" where
  "tcp_enqueue pcb arg l f apiflags optflags s = do {
     lwip_assert (l \<noteq> 0 \<or> optflags \<noteq> 0 \<or> f AND (TCP_SYN OR TCP_FIN) \<noteq> 0);
     lwip_assert (l \<noteq> 0 \<or> arg = NULL);
     t \<leftarrow> tcp_tab s pcb;
     if l > snd_buf t \<or> unat (snd_queuelen t) \<ge> TCP_SND_QUEUELEN \<or> unat (snd_queuelen t) > TCP_SNDQUEUELEN_OVERFLOW then do {
       s \<leftarrow> mod_tcp pcb (\<lambda>t. t\<lparr>t_flags := t_flags t OR TF_NAGLEMEMERR\<rparr>) s;
       Some (ERR_MEM, s)
     }
     else do {
       lwip_assert (if snd_queuelen t \<noteq> 0 then unacked t \<noteq> [] \<or> unsent t \<noteq> [] else unacked t = [] \<and> unsent t = []);
       (r, queue, queuelen, s) \<leftarrow> tcp_enqueue_loop pcb arg arg l (snd_lbb t) f apiflags optflags (snd_queuelen t) [] 0 s;
       case r of
         None \<Rightarrow> enqueue_memerr pcb queue s
       | Some seglen \<Rightarrow> do {
           t \<leftarrow> tcp_tab s pcb;
           q \<leftarrow> tcp_segs s (hd queue);
           joins \<leftarrow> (if unsent t = [] then Some False else do { u \<leftarrow> tcp_segs s (last (unsent t)); Some (enqueue_joins u q f (mss t) (bytes s)) });
           if joins then do {
             let useg = last (unsent t);
             (queuelen, s) \<leftarrow> enqueue_join pcb useg (hd queue) (tl queue) f (LWIP_TCP_OPT_LENGTH optflags) queuelen s;
             u \<leftarrow> tcp_segs s useg;
             if tl queue = [] then enqueue_account pcb l f apiflags queuelen useg (seg_len u) s
             else enqueue_account pcb l f apiflags queuelen (last queue) seglen s
           }
           else do {
             s \<leftarrow> mod_tcp pcb (\<lambda>t. t\<lparr>unsent := unsent t @ queue\<rparr>) s;
             enqueue_account pcb l f apiflags queuelen (last queue) seglen s
           }
         }
     }
   }"

definition tcp_send_ctrl :: "addr \<Rightarrow> u8_t \<Rightarrow> 'a tcp_stack_scheme \<Rightarrow> (err_t \<times> 'a tcp_stack_scheme) option" where
  "tcp_send_ctrl pcb f s = tcp_enqueue pcb NULL 0 f TCP_WRITE_FLAG_COPY 0 s"

definition tcp_write :: "addr \<Rightarrow> addr \<Rightarrow> u16_t \<Rightarrow> u8_t \<Rightarrow> 'a tcp_stack_scheme \<Rightarrow> (err_t \<times> 'a tcp_stack_scheme) option" where
  "tcp_write pcb data l apiflags s = do {
     t \<leftarrow> tcp_tab s pcb;
     if state t = ESTABLISHED \<or> state t = CLOSE_WAIT \<or> state t = SYN_SENT \<or> state t = SYN_RCVD then
       (if l > 0 then tcp_enqueue pcb data l 0 apiflags 0 s else Some (ERR_OK, s))
     else Some (ERR_CONN, s)
   }"
end
