(* ===== verification/Tcp_Pcb.thy ===== *)
theory Tcp_Pcb
  imports Tcp
begin

text \<open>
  \<^verbatim>\<open>lwip/src/core/tcp.c\<close>: the control blocks of TCP, their lists and the two timers.

  What the application does in its callbacks is the argument \<open>app\<close>: for each kind of callback the function that
  is called with the address of the registered function. It also gives the addresses of the two callbacks that the
  stack itself registers, \<open>tcp_recv_null\<close> and \<open>tcp_accept_null\<close>. A control block that is put on a list which it is already on would
  make the list cyclic; such a call has no result here.
\<close>

section \<open>Callbacks\<close>

record 'a tcp_app =
  recv_null_fn :: addr
  accept_null_fn :: addr
  app_recv :: "addr \<Rightarrow> addr \<Rightarrow> addr \<Rightarrow> addr \<Rightarrow> err_t \<Rightarrow> 'a tcp_stack_scheme \<Rightarrow> (err_t \<times> 'a tcp_stack_scheme) option"
  app_accept :: "addr \<Rightarrow> addr \<Rightarrow> addr \<Rightarrow> err_t \<Rightarrow> 'a tcp_stack_scheme \<Rightarrow> (err_t \<times> 'a tcp_stack_scheme) option"
  app_connected :: "addr \<Rightarrow> addr \<Rightarrow> addr \<Rightarrow> err_t \<Rightarrow> 'a tcp_stack_scheme \<Rightarrow> (err_t \<times> 'a tcp_stack_scheme) option"
  app_sent :: "addr \<Rightarrow> addr \<Rightarrow> addr \<Rightarrow> u16_t \<Rightarrow> 'a tcp_stack_scheme \<Rightarrow> (err_t \<times> 'a tcp_stack_scheme) option"
  app_poll :: "addr \<Rightarrow> addr \<Rightarrow> addr \<Rightarrow> 'a tcp_stack_scheme \<Rightarrow> (err_t \<times> 'a tcp_stack_scheme) option"
  app_err :: "addr \<Rightarrow> addr \<Rightarrow> err_t \<Rightarrow> 'a tcp_stack_scheme \<Rightarrow> 'a tcp_stack_scheme option"

definition TCP_EVENT_ERR :: "'a tcp_app \<Rightarrow> addr \<Rightarrow> addr \<Rightarrow> err_t \<Rightarrow> 'a tcp_stack_scheme \<Rightarrow> 'a tcp_stack_scheme option" where
  "TCP_EVENT_ERR app f arg e s = (if f \<noteq> NULL then app_err app f arg e s else Some s)"

definition TCP_EVENT_POLL :: "'a tcp_app \<Rightarrow> addr \<Rightarrow> 'a tcp_stack_scheme \<Rightarrow> (err_t \<times> 'a tcp_stack_scheme) option" where
  "TCP_EVENT_POLL app pcb s = do { t \<leftarrow> tcp_tab s pcb; if poll t \<noteq> NULL then app_poll app (poll t) (callback_arg t) pcb s else Some (ERR_OK, s) }"

definition TCP_EVENT_SENT :: "'a tcp_app \<Rightarrow> addr \<Rightarrow> u16_t \<Rightarrow> 'a tcp_stack_scheme \<Rightarrow> (err_t \<times> 'a tcp_stack_scheme) option" where
  "TCP_EVENT_SENT app pcb space s = do { t \<leftarrow> tcp_tab s pcb; if sent t \<noteq> NULL then app_sent app (sent t) (callback_arg t) pcb space s else Some (ERR_OK, s) }"

definition TCP_EVENT_CONNECTED :: "'a tcp_app \<Rightarrow> addr \<Rightarrow> err_t \<Rightarrow> 'a tcp_stack_scheme \<Rightarrow> (err_t \<times> 'a tcp_stack_scheme) option" where
  "TCP_EVENT_CONNECTED app pcb e s = do { t \<leftarrow> tcp_tab s pcb; if connected t \<noteq> NULL then app_connected app (connected t) (callback_arg t) pcb e s else Some (ERR_OK, s) }"

text \<open>\<open>tcp_accept_null\<close> refuses every connection.\<close>

definition TCP_EVENT_ACCEPT :: "'a tcp_app \<Rightarrow> addr \<Rightarrow> err_t \<Rightarrow> 'a tcp_stack_scheme \<Rightarrow> (err_t \<times> 'a tcp_stack_scheme) option" where
  "TCP_EVENT_ACCEPT app pcb e s = do {
     t \<leftarrow> tcp_tab s pcb;
     if accept t = NULL then Some (ERR_OK, s)
     else if accept t = accept_null_fn app then Some (ERR_ABRT, s)
     else app_accept app (accept t) (callback_arg t) pcb e s
   }"

section \<open>The lists of control blocks\<close>

definition tcp_reg :: "addr \<Rightarrow> addr list \<Rightarrow> addr list option" where
  "tcp_reg pcb pcbs = (if pcb \<in> set pcbs then None else Some (pcb # pcbs))"

definition free_pcb :: "addr \<Rightarrow> 'a tcp_stack_scheme \<Rightarrow> 'a tcp_stack_scheme option" where
  "free_pcb pcb s = do { s \<leftarrow> memp_release MEMP_TCP_PCB pcb s; Some (s\<lparr>tcp_tab := (tcp_tab s)(pcb := None)\<rparr>) }"

definition tcp_pcb_purge :: "addr \<Rightarrow> 'a tcp_stack_scheme \<Rightarrow> 'a tcp_stack_scheme option" where
  "tcp_pcb_purge pcb s = do {
     t \<leftarrow> tcp_tab s pcb;
     if state t \<noteq> CLOSED \<and> state t \<noteq> TIME_WAIT \<and> state t \<noteq> LISTEN then do {
       s \<leftarrow> (if refused_data t \<noteq> NULL then do { (c, s) \<leftarrow> pbuf_free (refused_data t) s; mod_tcp pcb (\<lambda>t. t\<lparr>refused_data := NULL\<rparr>) s } else Some s);
       s \<leftarrow> mod_tcp pcb (\<lambda>t. t\<lparr>rtime := -1\<rparr>) s;
       s \<leftarrow> tcp_segs_free (ooseq t) s;
       s \<leftarrow> mod_tcp pcb (\<lambda>t. t\<lparr>ooseq := []\<rparr>) s;
       s \<leftarrow> tcp_segs_free (unsent t) s;
       s \<leftarrow> tcp_segs_free (unacked t) s;
       mod_tcp pcb (\<lambda>t. t\<lparr>unacked := [], unsent := []\<rparr>) s
     } else Some s
   }"

text \<open>\<open>tcp_pcb_remove\<close> after the control block has been taken off its list.\<close>

definition tcp_pcb_remove_rest :: "addr \<Rightarrow> 'a tcp_stack_scheme \<Rightarrow> 'a tcp_stack_scheme option" where
  "tcp_pcb_remove_rest pcb s = do {
     s \<leftarrow> tcp_pcb_purge pcb s;
     t \<leftarrow> tcp_tab s pcb;
     s \<leftarrow> (if state t \<noteq> TIME_WAIT \<and> state t \<noteq> LISTEN \<and> t_flags t AND TF_ACK_DELAY \<noteq> 0 then do {
             s \<leftarrow> mod_tcp pcb (\<lambda>t. t\<lparr>t_flags := t_flags t OR TF_ACK_NOW\<rparr>) s;
             (e, s) \<leftarrow> tcp_output pcb s;
             Some s
           } else Some s);
     t \<leftarrow> tcp_tab s pcb;
     lwip_assert (state t \<noteq> LISTEN \<longrightarrow> unsent t = [] \<and> unacked t = [] \<and> ooseq t = []);
     mod_tcp pcb (\<lambda>t. t\<lparr>state := CLOSED\<rparr>) s
   }"

definition tcp_pcb_remove_active :: "addr \<Rightarrow> 'a tcp_stack_scheme \<Rightarrow> 'a tcp_stack_scheme option" where
  "tcp_pcb_remove_active pcb s = tcp_pcb_remove_rest pcb (s\<lparr>tcp_active_pcbs := remove1 pcb (tcp_active_pcbs s)\<rparr>)"

definition tcp_pcb_remove_tw :: "addr \<Rightarrow> 'a tcp_stack_scheme \<Rightarrow> 'a tcp_stack_scheme option" where
  "tcp_pcb_remove_tw pcb s = tcp_pcb_remove_rest pcb (s\<lparr>tcp_tw_pcbs := remove1 pcb (tcp_tw_pcbs s)\<rparr>)"

section \<open>Closing\<close>

text \<open>A \<open>FIN\<close> is queued and, when that worked, the state changes and the output runs.\<close>

definition tcp_close_fin :: "addr \<Rightarrow> tcp_state \<Rightarrow> 'a tcp_stack_scheme \<Rightarrow> (err_t \<times> 'a tcp_stack_scheme) option" where
  "tcp_close_fin pcb st s = do {
     (e, s) \<leftarrow> tcp_send_ctrl pcb TCP_FIN s;
     if e = ERR_OK then do {
       s \<leftarrow> mod_tcp pcb (\<lambda>t. t\<lparr>state := st\<rparr>) s;
       (r, s) \<leftarrow> tcp_output pcb s;
       Some (ERR_OK, s)
     } else Some (e, s)
   }"

definition tcp_close_listen :: "addr \<Rightarrow> 'a tcp_stack_scheme \<Rightarrow> (err_t \<times> 'a tcp_stack_scheme) option" where
  "tcp_close_listen pcb s = do {
     let s = s\<lparr>tcp_listen_pcbs := remove1 pcb (tcp_listen_pcbs s)\<rparr>;
     s \<leftarrow> memp_release MEMP_TCP_PCB_LISTEN pcb s;
     Some (ERR_OK, s\<lparr>tcp_listen_tab := (tcp_listen_tab s)(pcb := None)\<rparr>)
   }"

definition tcp_close :: "addr \<Rightarrow> 'a tcp_stack_scheme \<Rightarrow> (err_t \<times> 'a tcp_stack_scheme) option" where
  "tcp_close pcb s =
     (if tcp_listen_tab s pcb \<noteq> None then tcp_close_listen pcb s
      else do {
        t \<leftarrow> tcp_tab s pcb;
        case state t of
          CLOSED \<Rightarrow> do { s \<leftarrow> free_pcb pcb (s\<lparr>tcp_bound_pcbs := remove1 pcb (tcp_bound_pcbs s)\<rparr>); Some (ERR_OK, s) }
        | SYN_SENT \<Rightarrow> do { s \<leftarrow> tcp_pcb_remove_active pcb s; s \<leftarrow> free_pcb pcb s; Some (ERR_OK, s) }
        | SYN_RCVD \<Rightarrow> tcp_close_fin pcb FIN_WAIT_1 s
        | ESTABLISHED \<Rightarrow> tcp_close_fin pcb FIN_WAIT_1 s
        | CLOSE_WAIT \<Rightarrow> tcp_close_fin pcb LAST_ACK s
        | _ \<Rightarrow> Some (ERR_OK, s)
      })"

definition tcp_abandon :: "'a tcp_app \<Rightarrow> addr \<Rightarrow> bool \<Rightarrow> 'a tcp_stack_scheme \<Rightarrow> 'a tcp_stack_scheme option" where
  "tcp_abandon app pcb reset s = do {
     t \<leftarrow> tcp_tab s pcb;
     if state t = TIME_WAIT then do { s \<leftarrow> tcp_pcb_remove_tw pcb s; free_pcb pcb s }
     else do {
       s \<leftarrow> tcp_pcb_remove_active pcb s;
       r \<leftarrow> tcp_tab s pcb;
       s \<leftarrow> tcp_segs_free (unacked r) s;
       s \<leftarrow> tcp_segs_free (unsent r) s;
       s \<leftarrow> tcp_segs_free (ooseq r) s;
       s \<leftarrow> free_pcb pcb s;
       s \<leftarrow> TCP_EVENT_ERR app (errf t) (callback_arg t) ERR_ABRT s;
       if reset then tcp_rst (snd_nxt t) (rcv_nxt t) (t_local_ip t) (t_remote_ip t) (t_local_port t) (t_remote_port t) s else Some s
     }
   }"

definition tcp_abort :: "'a tcp_app \<Rightarrow> addr \<Rightarrow> 'a tcp_stack_scheme \<Rightarrow> 'a tcp_stack_scheme option" where
  "tcp_abort app pcb s = tcp_abandon app pcb True s"

section \<open>Ports and binding\<close>

definition TCP_LOCAL_PORT_RANGE_START :: u16_t where "TCP_LOCAL_PORT_RANGE_START = 4096"
definition TCP_LOCAL_PORT_RANGE_END :: u16_t where "TCP_LOCAL_PORT_RANGE_END = 0x7fff"

fun pcb_exists :: "('p \<Rightarrow> bool) \<Rightarrow> (addr \<rightharpoonup> 'p) \<Rightarrow> addr list \<Rightarrow> bool option" where
  "pcb_exists P tab [] = Some False"
| "pcb_exists P tab (pcb # pcbs) = do { t \<leftarrow> tab pcb; if P t then Some True else pcb_exists P tab pcbs }"

definition tcp_next_port :: "u16_t \<Rightarrow> u16_t" where
  "tcp_next_port port = (if port + 1 > TCP_LOCAL_PORT_RANGE_END then TCP_LOCAL_PORT_RANGE_START else port + 1)"

definition tcp_port_used :: "u16_t \<Rightarrow> 'a tcp_stack_scheme \<Rightarrow> bool option" where
  "tcp_port_used port s = do {
     a \<leftarrow> pcb_exists (\<lambda>t. t_local_port t = port) (tcp_tab s) (tcp_active_pcbs s);
     w \<leftarrow> (if a then Some True else pcb_exists (\<lambda>t. t_local_port t = port) (tcp_tab s) (tcp_tw_pcbs s));
     if w then Some True else pcb_exists (\<lambda>t. l_local_port t = port) (tcp_listen_tab s) (tcp_listen_pcbs s)
   }"

partial_function (option) tcp_new_port :: "'a tcp_stack_scheme \<Rightarrow> (u16_t \<times> 'a tcp_stack_scheme) option" where
  "tcp_new_port s = do {
     let s = s\<lparr>tcp_port := tcp_next_port (tcp_port s)\<rparr>;
     used \<leftarrow> tcp_port_used (tcp_port s) s;
     if used then tcp_new_port s else Some (tcp_port s, s)
   }"

declare tcp_new_port.simps [code]

text \<open>An address that clashes with the given one; a null pointer counts as any address.\<close>

definition addr_clash :: "u32_t \<Rightarrow> u32_t option \<Rightarrow> bool" where
  "addr_clash a ipaddr \<longleftrightarrow> ip_addr_isany a \<or> (case ipaddr of None \<Rightarrow> True | Some i \<Rightarrow> ip_addr_isany i \<or> a = i)"

text \<open>The check against \<open>TIME_WAIT\<close> compares addresses without a test for the null pointer.\<close>

fun tw_clash :: "u16_t \<Rightarrow> u32_t option \<Rightarrow> (addr \<rightharpoonup> tcp_pcb) \<Rightarrow> addr list \<Rightarrow> bool option" where
  "tw_clash port ipaddr tab [] = Some False"
| "tw_clash port ipaddr tab (pcb # pcbs) = do {
     t \<leftarrow> tab pcb;
     if t_local_port t = port then do { i \<leftarrow> ipaddr; if t_local_ip t = i then Some True else tw_clash port ipaddr tab pcbs }
     else tw_clash port ipaddr tab pcbs
   }"

definition tcp_addr_used :: "u32_t option \<Rightarrow> u16_t \<Rightarrow> 'a tcp_stack_scheme \<Rightarrow> bool option" where
  "tcp_addr_used ipaddr port s = do {
     l \<leftarrow> pcb_exists (\<lambda>t. l_local_port t = port \<and> addr_clash (l_local_ip t) ipaddr) (tcp_listen_tab s) (tcp_listen_pcbs s);
     a \<leftarrow> (if l then Some True else pcb_exists (\<lambda>t. t_local_port t = port \<and> addr_clash (t_local_ip t) ipaddr) (tcp_tab s) (tcp_active_pcbs s));
     b \<leftarrow> (if a then Some True else pcb_exists (\<lambda>t. t_local_port t = port \<and> addr_clash (t_local_ip t) ipaddr) (tcp_tab s) (tcp_bound_pcbs s));
     if b then Some True else tw_clash port ipaddr (tcp_tab s) (tcp_tw_pcbs s)
   }"

definition tcp_bind :: "addr \<Rightarrow> u32_t option \<Rightarrow> u16_t \<Rightarrow> 'a tcp_stack_scheme \<Rightarrow> (err_t \<times> 'a tcp_stack_scheme) option" where
  "tcp_bind pcb ipaddr port s = do {
     t \<leftarrow> tcp_tab s pcb;
     lwip_assert (state t = CLOSED);
     (port, s) \<leftarrow> (if port = 0 then tcp_new_port s else Some (port, s));
     used \<leftarrow> tcp_addr_used ipaddr port s;
     if used then Some (ERR_USE, s)
     else do {
       s \<leftarrow> mod_tcp pcb (\<lambda>t. t\<lparr>t_local_ip := (case ipaddr of Some i \<Rightarrow> if ip_addr_isany i then t_local_ip t else i | None \<Rightarrow> t_local_ip t),
              t_local_port := port\<rparr>) s;
       bound \<leftarrow> tcp_reg pcb (tcp_bound_pcbs s);
       Some (ERR_OK, s\<lparr>tcp_bound_pcbs := bound\<rparr>)
     }
   }"

text \<open>The field \<open>prio\<close> of the new listening control block is never written; it holds \<open>junk\<close>, what the element of the pool had there.\<close>

definition SOF_ACCEPTCONN :: u16_t where "SOF_ACCEPTCONN = 0x0002"

definition tcp_listen_with_backlog :: "'a tcp_app \<Rightarrow> u8_t \<Rightarrow> addr \<Rightarrow> 'a tcp_stack_scheme \<Rightarrow> (addr \<times> 'a tcp_stack_scheme) option" where
  "tcp_listen_with_backlog app junk pcb s = do {
     t \<leftarrow> tcp_tab s pcb;
     lwip_assert (state t = CLOSED);
     (lpcb, m) \<leftarrow> memp_malloc (memp s) MEMP_TCP_PCB_LISTEN;
     let s = s\<lparr>memp := m\<rparr>;
     if lpcb = NULL then Some (NULL, s)
     else do {
       let s = s\<lparr>tcp_listen_tab := (tcp_listen_tab s)(lpcb \<mapsto> \<lparr>l_local_ip = t_local_ip t, l_so_options = t_so_options t OR SOF_ACCEPTCONN, l_tos = t_tos t, l_ttl = t_ttl t,
            l_prio = junk, l_callback_arg = callback_arg t, l_local_port = t_local_port t, l_accept = accept_null_fn app\<rparr>)\<rparr>;
       s \<leftarrow> free_pcb pcb (s\<lparr>tcp_bound_pcbs := remove1 pcb (tcp_bound_pcbs s)\<rparr>);
       pcbs \<leftarrow> tcp_reg lpcb (tcp_listen_pcbs s);
       Some (lpcb, s\<lparr>tcp_listen_pcbs := pcbs\<rparr>)
     }
   }"

section \<open>The receive window\<close>

definition tcp_update_rcv_ann_wnd :: "tcp_pcb \<Rightarrow> u32_t \<times> tcp_pcb" where
  "tcp_update_rcv_ann_wnd t =
     (let new_right_edge = rcv_nxt t + ucast (rcv_wnd t)
      in if TCP_SEQ_GEQ new_right_edge (rcv_ann_right_edge t + ucast (min (TCP_WND div 2) (mss t)))
         then (new_right_edge - rcv_ann_right_edge t, t\<lparr>rcv_ann_wnd := rcv_wnd t\<rparr>)
         else if TCP_SEQ_GT (rcv_nxt t) (rcv_ann_right_edge t) then (0, t\<lparr>rcv_ann_wnd := 0\<rparr>)
         else (0, t\<lparr>rcv_ann_wnd := ucast (rcv_ann_right_edge t - rcv_nxt t)\<rparr>))"

definition TCP_WND_UPDATE_THRESHOLD :: int where "TCP_WND_UPDATE_THRESHOLD = 2144 div 4"

definition tcp_recved :: "addr \<Rightarrow> u16_t \<Rightarrow> 'a tcp_stack_scheme \<Rightarrow> 'a tcp_stack_scheme option" where
  "tcp_recved pcb l s = do {
     t \<leftarrow> tcp_tab s pcb;
     lwip_assert (l \<le> 0xffff - rcv_wnd t);
     let (wnd_inflation, t') = tcp_update_rcv_ann_wnd (t\<lparr>rcv_wnd := min TCP_WND (rcv_wnd t + l)\<rparr>);
     s \<leftarrow> mod_tcp pcb (\<lambda>_. t') s;
     if sint wnd_inflation \<ge> TCP_WND_UPDATE_THRESHOLD then tcp_ack_now pcb s else Some s
   }"

definition tcp_recv_null :: "addr \<Rightarrow> addr \<Rightarrow> err_t \<Rightarrow> 'a tcp_stack_scheme \<Rightarrow> (err_t \<times> 'a tcp_stack_scheme) option" where
  "tcp_recv_null pcb p e s =
     (if p \<noteq> NULL then do {
        b \<leftarrow> pbufs s p;
        s \<leftarrow> tcp_recved pcb (of_nat (tot_len b)) s;
        (c, s) \<leftarrow> pbuf_free p s;
        Some (ERR_OK, s)
      } else if e = ERR_OK then tcp_close pcb s
      else Some (ERR_OK, s))"

definition TCP_EVENT_RECV :: "'a tcp_app \<Rightarrow> addr \<Rightarrow> addr \<Rightarrow> err_t \<Rightarrow> 'a tcp_stack_scheme \<Rightarrow> (err_t \<times> 'a tcp_stack_scheme) option" where
  "TCP_EVENT_RECV app pcb p e s = do {
     t \<leftarrow> tcp_tab s pcb;
     if t_recv t = NULL \<or> t_recv t = recv_null_fn app then tcp_recv_null pcb p e s
     else app_recv app (t_recv t) (callback_arg t) pcb p e s
   }"

section \<open>Allocation and connecting\<close>

definition TCP_PRIO_NORMAL :: u8_t where "TCP_PRIO_NORMAL = 64"
definition TCP_PRIO_MAX :: u8_t where "TCP_PRIO_MAX = 127"
definition TCP_KEEPIDLE_DEFAULT :: u32_t where "TCP_KEEPIDLE_DEFAULT = 7200000"

definition tcp_next_iss :: "'a tcp_stack_scheme \<Rightarrow> u32_t \<times> 'a tcp_stack_scheme" where
  "tcp_next_iss s = (let iss = tcp_iss s + tcp_ticks s in (iss, s\<lparr>tcp_iss := iss\<rparr>))"

definition tcp_eff_send_mss :: "u16_t \<Rightarrow> u32_t \<Rightarrow> 'a tcp_stack_scheme \<Rightarrow> u16_t option" where
  "tcp_eff_send_mss sendmss a s = do {
     outif \<leftarrow> ip_route a s;
     if outif = NULL then Some sendmss
     else do { n \<leftarrow> netifs s outif; Some (if nif_mtu n \<noteq> 0 then min sendmss (of_nat (nif_mtu n) - of_nat IP_HLEN - of_nat TCP_HLEN) else sendmss) }
   }"

fun kill_prio_scan :: "u8_t \<Rightarrow> addr list \<Rightarrow> addr \<Rightarrow> u32_t \<Rightarrow> u8_t \<Rightarrow> 'a tcp_stack_scheme \<Rightarrow> addr option" where
  "kill_prio_scan p [] inactive inactivity mprio s = Some inactive"
| "kill_prio_scan p (pcb # pcbs) inactive inactivity mprio s = do {
     t \<leftarrow> tcp_tab s pcb;
     if prio t \<le> p \<and> prio t \<le> mprio \<and> tcp_ticks s - tmr t \<ge> inactivity then kill_prio_scan p pcbs pcb (tcp_ticks s - tmr t) (prio t) s
     else kill_prio_scan p pcbs inactive inactivity mprio s
   }"

definition tcp_kill_prio :: "'a tcp_app \<Rightarrow> u8_t \<Rightarrow> 'a tcp_stack_scheme \<Rightarrow> 'a tcp_stack_scheme option" where
  "tcp_kill_prio app p s = do {
     inactive \<leftarrow> kill_prio_scan p (tcp_active_pcbs s) NULL 0 TCP_PRIO_MAX s;
     if inactive \<noteq> NULL then tcp_abort app inactive s else Some s
   }"

fun kill_tw_scan :: "addr list \<Rightarrow> addr \<Rightarrow> u32_t \<Rightarrow> 'a tcp_stack_scheme \<Rightarrow> addr option" where
  "kill_tw_scan [] inactive inactivity s = Some inactive"
| "kill_tw_scan (pcb # pcbs) inactive inactivity s = do {
     t \<leftarrow> tcp_tab s pcb;
     if tcp_ticks s - tmr t \<ge> inactivity then kill_tw_scan pcbs pcb (tcp_ticks s - tmr t) s else kill_tw_scan pcbs inactive inactivity s
   }"

definition tcp_kill_timewait :: "'a tcp_app \<Rightarrow> 'a tcp_stack_scheme \<Rightarrow> 'a tcp_stack_scheme option" where
  "tcp_kill_timewait app s = do {
     inactive \<leftarrow> kill_tw_scan (tcp_tw_pcbs s) NULL 0 s;
     if inactive \<noteq> NULL then tcp_abort app inactive s else Some s
   }"

text \<open>A new control block: all fields zero but these.\<close>

definition tcp_pcb_init :: "'a tcp_app \<Rightarrow> u32_t \<Rightarrow> u32_t \<Rightarrow> tcp_pcb" where
  "tcp_pcb_init app iss ticks = \<lparr>t_local_ip = 0, t_remote_ip = 0, t_so_options = 0, t_tos = 0, t_ttl = TCP_TTL, state = CLOSED, prio = TCP_PRIO_NORMAL, callback_arg = NULL,
     t_local_port = 0, accept = NULL, t_remote_port = 0, t_flags = 0, rcv_nxt = 0, rcv_wnd = TCP_WND, rcv_ann_wnd = TCP_WND, rcv_ann_right_edge = 0, tmr = ticks,
     polltmr = 0, pollinterval = 0, rtime = -1, mss = (if TCP_MSS > 536 then 536 else TCP_MSS), rttest = 0, rtseq = 0, sa = 0, sv = 6, rto = 6, nrtx = 0, lastack = iss,
     dupacks = 0, cwnd = 1, ssthresh = 0, snd_nxt = iss, snd_wnd = 0, snd_wl1 = 0, snd_wl2 = iss, snd_lbb = iss, acked = 0, snd_buf = TCP_SND_BUF, snd_queuelen = 0,
     unsent = [], unacked = [], ooseq = [], refused_data = NULL, sent = NULL, t_recv = recv_null_fn app, connected = NULL, poll = NULL, errf = NULL,
     keep_idle = TCP_KEEPIDLE_DEFAULT, persist_cnt = 0, persist_backoff = 0, keep_cnt_sent = 0\<rparr>"

definition tcp_take :: "'a tcp_stack_scheme \<Rightarrow> (addr \<times> 'a tcp_stack_scheme) option" where
  "tcp_take s = do { (pcb, m) \<leftarrow> memp_malloc (memp s) MEMP_TCP_PCB; Some (pcb, s\<lparr>memp := m\<rparr>) }"

definition tcp_alloc :: "'a tcp_app \<Rightarrow> u8_t \<Rightarrow> 'a tcp_stack_scheme \<Rightarrow> (addr \<times> 'a tcp_stack_scheme) option" where
  "tcp_alloc app p s = do {
     (pcb, s) \<leftarrow> tcp_take s;
     (pcb, s) \<leftarrow> (if pcb = NULL then do { s \<leftarrow> tcp_kill_timewait app s; tcp_take s } else Some (pcb, s));
     (pcb, s) \<leftarrow> (if pcb = NULL then do { s \<leftarrow> tcp_kill_prio app p s; tcp_take s } else Some (pcb, s));
     if pcb = NULL then Some (NULL, s)
     else do {
       let (iss, s) = tcp_next_iss s;
       Some (pcb, s\<lparr>tcp_tab := (tcp_tab s)(pcb \<mapsto> tcp_pcb_init app iss (tcp_ticks s))\<rparr>)
     }
   }"

definition tcp_new :: "'a tcp_app \<Rightarrow> 'a tcp_stack_scheme \<Rightarrow> (addr \<times> 'a tcp_stack_scheme) option" where
  "tcp_new app s = tcp_alloc app TCP_PRIO_NORMAL s"

definition tcp_connect :: "addr \<Rightarrow> u32_t option \<Rightarrow> u16_t \<Rightarrow> addr \<Rightarrow> 'a tcp_stack_scheme \<Rightarrow> (err_t \<times> 'a tcp_stack_scheme) option" where
  "tcp_connect pcb ipaddr port f s = do {
     t \<leftarrow> tcp_tab s pcb;
     lwip_assert (state t = CLOSED);
     case ipaddr of
       None \<Rightarrow> Some (ERR_VAL, s)
     | Some a \<Rightarrow> do {
         s \<leftarrow> mod_tcp pcb (\<lambda>t. t\<lparr>t_remote_ip := a, t_remote_port := port\<rparr>) s;
         s \<leftarrow> (if t_local_port t = 0 then do { (q, s) \<leftarrow> tcp_new_port s; mod_tcp pcb (\<lambda>t. t\<lparr>t_local_port := q\<rparr>) s } else Some s);
         let (iss, s) = tcp_next_iss s;
         m \<leftarrow> tcp_eff_send_mss (if TCP_MSS > 536 then 536 else TCP_MSS) a s;
         s \<leftarrow> mod_tcp pcb (\<lambda>t. t\<lparr>rcv_nxt := 0, snd_nxt := iss, lastack := iss - 1, snd_lbb := iss - 1, rcv_wnd := TCP_WND, rcv_ann_wnd := TCP_WND,
                rcv_ann_right_edge := 0, snd_wnd := TCP_WND, mss := m, cwnd := 1, ssthresh := m * 10, state := SYN_SENT, connected := f\<rparr>) s;
         let s = s\<lparr>tcp_bound_pcbs := remove1 pcb (tcp_bound_pcbs s)\<rparr>;
         active \<leftarrow> tcp_reg pcb (tcp_active_pcbs s);
         (ret, s) \<leftarrow> tcp_enqueue pcb NULL 0 TCP_SYN 0 TF_SEG_OPTS_MSS (s\<lparr>tcp_active_pcbs := active\<rparr>);
         s \<leftarrow> (if ret = ERR_OK then do { (e, s) \<leftarrow> tcp_output pcb s; Some s } else Some s);
         Some (ret, s)
       }
   }"

section \<open>Setting fields\<close>

definition tcp_setprio :: "addr \<Rightarrow> u8_t \<Rightarrow> 'a tcp_stack_scheme \<Rightarrow> 'a tcp_stack_scheme option" where
  "tcp_setprio pcb p s = mod_tcp pcb (\<lambda>t. t\<lparr>prio := p\<rparr>) s"

definition mod_listen :: "addr \<Rightarrow> (tcp_pcb_listen \<Rightarrow> tcp_pcb_listen) \<Rightarrow> 'a tcp_stack_scheme \<Rightarrow> 'a tcp_stack_scheme option" where
  "mod_listen pcb f s = do { t \<leftarrow> tcp_listen_tab s pcb; Some (s\<lparr>tcp_listen_tab := (tcp_listen_tab s)(pcb \<mapsto> f t)\<rparr>) }"

definition tcp_arg :: "addr \<Rightarrow> addr \<Rightarrow> 'a tcp_stack_scheme \<Rightarrow> 'a tcp_stack_scheme option" where
  "tcp_arg pcb arg s = (if tcp_listen_tab s pcb \<noteq> None then mod_listen pcb (\<lambda>t. t\<lparr>l_callback_arg := arg\<rparr>) s else mod_tcp pcb (\<lambda>t. t\<lparr>callback_arg := arg\<rparr>) s)"

definition tcp_accept :: "addr \<Rightarrow> addr \<Rightarrow> 'a tcp_stack_scheme \<Rightarrow> 'a tcp_stack_scheme option" where
  "tcp_accept pcb f s = (if tcp_listen_tab s pcb \<noteq> None then mod_listen pcb (\<lambda>t. t\<lparr>l_accept := f\<rparr>) s else mod_tcp pcb (\<lambda>t. t\<lparr>accept := f\<rparr>) s)"

definition tcp_recv :: "addr \<Rightarrow> addr \<Rightarrow> 'a tcp_stack_scheme \<Rightarrow> 'a tcp_stack_scheme option" where
  "tcp_recv pcb f s = mod_tcp pcb (\<lambda>t. t\<lparr>t_recv := f\<rparr>) s"

definition tcp_sent :: "addr \<Rightarrow> addr \<Rightarrow> 'a tcp_stack_scheme \<Rightarrow> 'a tcp_stack_scheme option" where
  "tcp_sent pcb f s = mod_tcp pcb (\<lambda>t. t\<lparr>sent := f\<rparr>) s"

definition tcp_err :: "addr \<Rightarrow> addr \<Rightarrow> 'a tcp_stack_scheme \<Rightarrow> 'a tcp_stack_scheme option" where
  "tcp_err pcb f s = mod_tcp pcb (\<lambda>t. t\<lparr>errf := f\<rparr>) s"

definition tcp_poll :: "addr \<Rightarrow> addr \<Rightarrow> u8_t \<Rightarrow> 'a tcp_stack_scheme \<Rightarrow> 'a tcp_stack_scheme option" where
  "tcp_poll pcb f interval s = mod_tcp pcb (\<lambda>t. t\<lparr>poll := f, pollinterval := interval\<rparr>) s"

section \<open>The timers\<close>

definition TCP_MAXRTX :: u8_t where "TCP_MAXRTX = 12"
definition TCP_SYNMAXRTX :: u8_t where "TCP_SYNMAXRTX = 6"
definition SOF_KEEPALIVE :: u16_t where "SOF_KEEPALIVE = 0x0008"
definition tcp_backoff :: "nat list" where "tcp_backoff = [1, 2, 3, 4, 5, 6, 7, 7, 7, 7, 7, 7, 7]"
definition tcp_persist_backoff :: "u32_t list" where "tcp_persist_backoff = [3, 6, 12, 24, 48, 96, 120]"

text \<open>An access to an array; outside of its bounds there is no result.\<close>

definition array_at :: "'e list \<Rightarrow> nat \<Rightarrow> 'e option" where
  "array_at xs i = (if i < length xs then Some (xs ! i) else None)"

text \<open>The values when the retransmission timer has run out, before the segments are sent again.\<close>

definition tcp_rto_expired :: "tcp_pcb \<Rightarrow> tcp_pcb option" where
  "tcp_rto_expired t = do {
     t \<leftarrow> (if state t \<noteq> SYN_SENT then do { k \<leftarrow> array_at tcp_backoff (unat (nrtx t)); Some (t\<lparr>rto := push_bit k (signed_drop_bit 3 (sa t) + sv t)\<rparr>) } else Some t);
     let th = drop_bit 1 (min (cwnd t) (snd_wnd t));
     Some (t\<lparr>rtime := 0, ssthresh := (if th < mss t then mss t * 2 else th), cwnd := mss t\<rparr>)
   }"

text \<open>The retransmission and persist timers of a control block; the result tells whether it is to be removed.\<close>

definition slowtmr_rexmit :: "addr \<Rightarrow> 'a tcp_stack_scheme \<Rightarrow> (bool \<times> 'a tcp_stack_scheme) option" where
  "slowtmr_rexmit pcb s = do {
     t \<leftarrow> tcp_tab s pcb;
     if (state t = SYN_SENT \<and> nrtx t = TCP_SYNMAXRTX) \<or> nrtx t = TCP_MAXRTX then Some (True, s)
     else if persist_backoff t > 0 then do {
       s \<leftarrow> mod_tcp pcb (\<lambda>t. t\<lparr>persist_cnt := persist_cnt t + 1\<rparr>) s;
       k \<leftarrow> array_at tcp_persist_backoff (unat (persist_backoff t) - 1);
       if persist_cnt t + 1 \<ge> k then do {
         s \<leftarrow> mod_tcp pcb (\<lambda>t. t\<lparr>persist_cnt := 0, persist_backoff := (if unat (persist_backoff t) < length tcp_persist_backoff then persist_backoff t + 1 else persist_backoff t)\<rparr>) s;
         s \<leftarrow> tcp_zero_window_probe pcb s;
         Some (False, s)
       } else Some (False, s)
     }
     else do {
       let t = (if sint (rtime t) \<ge> 0 then t\<lparr>rtime := rtime t + 1\<rparr> else t);
       s \<leftarrow> mod_tcp pcb (\<lambda>_. t) s;
       if unacked t \<noteq> [] \<and> sint (rtime t) \<ge> sint (rto t) then do {
         t \<leftarrow> tcp_rto_expired t;
         s \<leftarrow> mod_tcp pcb (\<lambda>_. t) s;
         s \<leftarrow> tcp_rexmit_rto pcb s;
         Some (False, s)
       } else Some (False, s)
     }
   }"

text \<open>The keepalive timer: whether the connection has timed out. The sums are computed in 64 bits.\<close>

definition slowtmr_keepalive :: "addr \<Rightarrow> 'a tcp_stack_scheme \<Rightarrow> (bool \<times> 'a tcp_stack_scheme) option" where
  "slowtmr_keepalive pcb s = do {
     t \<leftarrow> tcp_tab s pcb;
     if t_so_options t AND SOF_KEEPALIVE \<noteq> 0 \<and> (state t = ESTABLISHED \<or> state t = CLOSE_WAIT) then
       (if unat (tcp_ticks s - tmr t) > (unat (keep_idle t) + 9 * 75000) div 500 then Some (True, s)
        else if unat (tcp_ticks s - tmr t) > (unat (keep_idle t) + unat (keep_cnt_sent t) * 75000) div 500 then do {
          s \<leftarrow> tcp_keepalive pcb s;
          s \<leftarrow> mod_tcp pcb (\<lambda>t. t\<lparr>keep_cnt_sent := keep_cnt_sent t + 1\<rparr>) s;
          Some (False, s)
        } else Some (False, s))
     else Some (False, s)
   }"

definition slowtmr_ooseq :: "addr \<Rightarrow> 'a tcp_stack_scheme \<Rightarrow> 'a tcp_stack_scheme option" where
  "slowtmr_ooseq pcb s = do {
     t \<leftarrow> tcp_tab s pcb;
     if ooseq t \<noteq> [] \<and> tcp_ticks s - tmr t \<ge> of_int (sint (rto t)) * 6 then do {
       s \<leftarrow> tcp_segs_free (ooseq t) s;
       mod_tcp pcb (\<lambda>t. t\<lparr>ooseq := []\<rparr>) s
     } else Some s
   }"

definition slowtmr_stuck :: "tcp_pcb \<Rightarrow> u32_t \<Rightarrow> bool" where
  "slowtmr_stuck t ticks \<longleftrightarrow> (state t = FIN_WAIT_2 \<and> ticks - tmr t > 40) \<or> (state t = SYN_RCVD \<and> ticks - tmr t > 40) \<or> (state t = LAST_ACK \<and> ticks - tmr t > 240)"

text \<open>The control block \<open>pcb\<close> is taken off the list, after \<open>prev\<close>.\<close>

definition unlink_after :: "addr \<Rightarrow> addr \<Rightarrow> addr list \<Rightarrow> addr list option" where
  "unlink_after prev pcb pcbs = do {
     lwip_assert (pcb \<in> set pcbs);
     lwip_assert (if prev \<noteq> NULL then hd pcbs \<noteq> pcb \<and> reass_next prev pcbs = pcb else hd pcbs = pcb);
     Some (remove1 pcb pcbs)
   }"

definition slowtmr_poll :: "'a tcp_app \<Rightarrow> addr \<Rightarrow> 'a tcp_stack_scheme \<Rightarrow> 'a tcp_stack_scheme option" where
  "slowtmr_poll app pcb s = do {
     s \<leftarrow> mod_tcp pcb (\<lambda>t. t\<lparr>polltmr := polltmr t + 1\<rparr>) s;
     t \<leftarrow> tcp_tab s pcb;
     if polltmr t \<ge> pollinterval t then do {
       s \<leftarrow> mod_tcp pcb (\<lambda>t. t\<lparr>polltmr := 0\<rparr>) s;
       (e, s) \<leftarrow> TCP_EVENT_POLL app pcb s;
       if e = ERR_OK then do { (r, s) \<leftarrow> tcp_output pcb s; Some s } else Some s
     } else Some s
   }"

partial_function (option) slowtmr_active :: "'a tcp_app \<Rightarrow> addr \<Rightarrow> addr \<Rightarrow> 'a tcp_stack_scheme \<Rightarrow> 'a tcp_stack_scheme option" where
  "slowtmr_active app prev pcb s =
     (if pcb = NULL then Some s
      else do {
        t \<leftarrow> tcp_tab s pcb;
        lwip_assert (state t \<noteq> CLOSED \<and> state t \<noteq> LISTEN \<and> state t \<noteq> TIME_WAIT);
        (rtx, s) \<leftarrow> slowtmr_rexmit pcb s;
        (reset, s) \<leftarrow> slowtmr_keepalive pcb s;
        s \<leftarrow> slowtmr_ooseq pcb s;
        t \<leftarrow> tcp_tab s pcb;
        if rtx \<or> reset \<or> slowtmr_stuck t (tcp_ticks s) then do {
          s \<leftarrow> tcp_pcb_purge pcb s;
          let nxt = reass_next pcb (tcp_active_pcbs s);
          active \<leftarrow> unlink_after prev pcb (tcp_active_pcbs s);
          t \<leftarrow> tcp_tab s pcb;
          s \<leftarrow> TCP_EVENT_ERR app (errf t) (callback_arg t) ERR_ABRT (s\<lparr>tcp_active_pcbs := active\<rparr>);
          t \<leftarrow> tcp_tab s pcb;
          s \<leftarrow> (if reset then tcp_rst (snd_nxt t) (rcv_nxt t) (t_local_ip t) (t_remote_ip t) (t_local_port t) (t_remote_port t) s else Some s);
          s \<leftarrow> free_pcb pcb s;
          slowtmr_active app prev nxt s
        }
        else do {
          s \<leftarrow> slowtmr_poll app pcb s;
          t \<leftarrow> tcp_tab s pcb;
          lwip_assert (pcb \<in> set (tcp_active_pcbs s));
          slowtmr_active app pcb (reass_next pcb (tcp_active_pcbs s)) s
        }
      })"

declare slowtmr_active.simps [code]

fun slowtmr_tw :: "addr \<Rightarrow> addr list \<Rightarrow> 'a tcp_stack_scheme \<Rightarrow> 'a tcp_stack_scheme option" where
  "slowtmr_tw prev [] s = Some s"
| "slowtmr_tw prev (pcb # pcbs) s = do {
     t \<leftarrow> tcp_tab s pcb;
     lwip_assert (state t = TIME_WAIT);
     if tcp_ticks s - tmr t > 240 then do {
       s \<leftarrow> tcp_pcb_purge pcb s;
       tw \<leftarrow> unlink_after prev pcb (tcp_tw_pcbs s);
       s \<leftarrow> free_pcb pcb (s\<lparr>tcp_tw_pcbs := tw\<rparr>);
       slowtmr_tw prev pcbs s
     } else slowtmr_tw pcb pcbs s
   }"

definition tcp_slowtmr :: "'a tcp_app \<Rightarrow> 'a tcp_stack_scheme \<Rightarrow> 'a tcp_stack_scheme option" where
  "tcp_slowtmr app s = do {
     let s = s\<lparr>tcp_ticks := tcp_ticks s + 1\<rparr>;
     s \<leftarrow> slowtmr_active app NULL (case tcp_active_pcbs s of [] \<Rightarrow> NULL | pcb # _ \<Rightarrow> pcb) s;
     slowtmr_tw NULL (tcp_tw_pcbs s) s
   }"

partial_function (option) fasttmr_loop :: "'a tcp_app \<Rightarrow> addr \<Rightarrow> 'a tcp_stack_scheme \<Rightarrow> 'a tcp_stack_scheme option" where
  "fasttmr_loop app pcb s =
     (if pcb = NULL then Some s
      else do {
        t \<leftarrow> tcp_tab s pcb;
        s \<leftarrow> (if refused_data t \<noteq> NULL then do {
                (e, s) \<leftarrow> TCP_EVENT_RECV app pcb (refused_data t) ERR_OK s;
                if e = ERR_OK then mod_tcp pcb (\<lambda>t. t\<lparr>refused_data := NULL\<rparr>) s else Some s
              } else Some s);
        t \<leftarrow> tcp_tab s pcb;
        s \<leftarrow> (if t_flags t AND TF_ACK_DELAY \<noteq> 0 then do {
                s \<leftarrow> tcp_ack_now pcb s;
                mod_tcp pcb (\<lambda>t. t\<lparr>t_flags := t_flags t AND NOT (TF_ACK_DELAY OR TF_ACK_NOW)\<rparr>) s
              } else Some s);
        lwip_assert (pcb \<in> set (tcp_active_pcbs s));
        fasttmr_loop app (reass_next pcb (tcp_active_pcbs s)) s
      })"

declare fasttmr_loop.simps [code]

definition tcp_fasttmr :: "'a tcp_app \<Rightarrow> 'a tcp_stack_scheme \<Rightarrow> 'a tcp_stack_scheme option" where
  "tcp_fasttmr app s = fasttmr_loop app (case tcp_active_pcbs s of [] \<Rightarrow> NULL | pcb # _ \<Rightarrow> pcb) s"

definition tcp_tmr :: "'a tcp_app \<Rightarrow> 'a tcp_stack_scheme \<Rightarrow> 'a tcp_stack_scheme option" where
  "tcp_tmr app s = do {
     s \<leftarrow> tcp_fasttmr app s;
     let s = s\<lparr>tcp_timer := tcp_timer s + 1\<rparr>;
     if tcp_timer s AND 1 \<noteq> 0 then tcp_slowtmr app s else Some s
   }"
end
