(* ===== verification/Tcp_In.thy ===== *)
theory Tcp_In
  imports Tcp_Pcb
begin

text \<open>
  \<^verbatim>\<open>lwip/src/core/tcp_in.c\<close>: the input of segments, the state machine of TCP, the processing of acknowledgements and data, and
  the queue of segments that arrived out of order.

  \<open>tcp_input\<close> converts the fields of the header to host byte order in place; from then on the header of an incoming
  segment is read with \<open>ld16\<close> and \<open>ld32\<close>. A copy of a segment on the queue \<open>ooseq\<close> shares its packet with the original.
\<close>

section \<open>Options\<close>

text \<open>The value of the field \<open>mss\<close> after the options from \<open>c\<close> on.\<close>

function parseopt_loop :: "(addr \<Rightarrow> u8_t) \<Rightarrow> addr \<Rightarrow> nat \<Rightarrow> nat \<Rightarrow> u16_t \<Rightarrow> u16_t" where
  "parseopt_loop d opts max_c c m =
     (if c < max_c then
        (if d (opts + c) = 0x00 then m
         else if d (opts + c) = 0x01 then parseopt_loop d opts max_c (c + 1) m
         else if d (opts + c) = 0x02 then
           (if d (opts + c + 1) \<noteq> 0x04 \<or> c + 4 > max_c then m
            else (let v = push_bit 8 (ucast (d (opts + c + 2))) OR ucast (d (opts + c + 3))
                  in parseopt_loop d opts max_c (c + 4) (if v > TCP_MSS \<or> v = 0 then TCP_MSS else v)))
         else if d (opts + c + 1) = 0 then m
         else parseopt_loop d opts max_c (c + unat (d (opts + c + 1))) m)
      else m)"
  by pat_completeness auto
termination
  by (relation "measure (\<lambda>(d, opts, max_c, c, m). max_c - c)") (auto simp: unat_gt_0 intro!: diff_less_mono2)

declare parseopt_loop.simps [simp del]

definition tcp_parseopt :: "addr \<Rightarrow> 'a tcp_stack_scheme \<Rightarrow> 'a tcp_stack_scheme option" where
  "tcp_parseopt pcb s =
     (let h = in_tcphdr s; hl = unat (TCPH_HDRLEN (bytes s) h)
      in if hl > 5 then mod_tcp pcb (\<lambda>t. t\<lparr>mss := parseopt_loop (bytes s) (h + TCP_HLEN) ((hl - 5) * 4) 0 (mss t)\<rparr>) s else Some s)"

section \<open>Replies to the sender of the segment\<close>

definition in_src :: "'a tcp_stack_scheme \<Rightarrow> u16_t" where "in_src s = ld16 (bytes s) (in_tcphdr s)"
definition in_dest :: "'a tcp_stack_scheme \<Rightarrow> u16_t" where "in_dest s = ld16 (bytes s) (in_tcphdr s + 2)"
definition in_wnd :: "'a tcp_stack_scheme \<Rightarrow> u16_t" where "in_wnd s = ld16 (bytes s) (in_tcphdr s + 14)"

definition in_hdr_seqno :: "(addr \<Rightarrow> u8_t) \<Rightarrow> addr \<Rightarrow> u32_t" where "in_hdr_seqno d h = ld32 d (h + 4)"

definition tcp_rst_reply :: "u32_t \<Rightarrow> 'a tcp_stack_scheme \<Rightarrow> 'a tcp_stack_scheme option" where
  "tcp_rst_reply sq s = tcp_rst sq (in_seqno s + ucast (in_tcplen s)) (iph_dest (bytes s) (in_iphdr s)) (iph_src (bytes s) (in_iphdr s)) (in_dest s) (in_src s) s"

definition tcp_listen_input :: "'a tcp_app \<Rightarrow> addr \<Rightarrow> 'a tcp_stack_scheme \<Rightarrow> (err_t \<times> 'a tcp_stack_scheme) option" where
  "tcp_listen_input app lpcb s =
     (if in_flags s AND TCP_ACK \<noteq> 0 then do { s \<leftarrow> tcp_rst_reply (in_ackno s + 1) s; Some (ERR_OK, s) }
      else if in_flags s AND TCP_SYN \<noteq> 0 then do {
        l \<leftarrow> tcp_listen_tab s lpcb;
        (npcb, s) \<leftarrow> tcp_alloc app (l_prio l) s;
        if npcb = NULL then Some (ERR_MEM, s)
        else do {
          l \<leftarrow> tcp_listen_tab s lpcb;
          s \<leftarrow> mod_tcp npcb (\<lambda>t. t\<lparr>t_local_ip := iph_dest (bytes s) (in_iphdr s), t_local_port := l_local_port l, t_remote_ip := iph_src (bytes s) (in_iphdr s),
                 t_remote_port := in_src s, state := SYN_RCVD, rcv_nxt := in_seqno s + 1, rcv_ann_right_edge := in_seqno s + 1, snd_wnd := in_wnd s, ssthresh := in_wnd s,
                 snd_wl1 := in_seqno s - 1, callback_arg := l_callback_arg l, accept := l_accept l, t_so_options := l_so_options l AND 0x0199\<rparr>) s;
          active \<leftarrow> tcp_reg npcb (tcp_active_pcbs s);
          s \<leftarrow> tcp_parseopt npcb (s\<lparr>tcp_active_pcbs := active\<rparr>);
          t \<leftarrow> tcp_tab s npcb;
          m \<leftarrow> tcp_eff_send_mss (mss t) (t_remote_ip t) s;
          s \<leftarrow> mod_tcp npcb (\<lambda>t. t\<lparr>mss := m\<rparr>) s;
          (rc, s) \<leftarrow> tcp_enqueue npcb NULL 0 (TCP_SYN OR TCP_ACK) 0 TF_SEG_OPTS_MSS s;
          if rc \<noteq> ERR_OK then do { s \<leftarrow> tcp_abandon app npcb False s; Some (rc, s) }
          else tcp_output npcb s
        }
      }
      else Some (ERR_OK, s))"

definition tcp_timewait_input :: "addr \<Rightarrow> 'a tcp_stack_scheme \<Rightarrow> (err_t \<times> 'a tcp_stack_scheme) option" where
  "tcp_timewait_input pcb s = do {
     t \<leftarrow> tcp_tab s pcb;
     if in_flags s AND TCP_RST \<noteq> 0 then Some (ERR_OK, s)
     else if in_flags s AND TCP_SYN \<noteq> 0 \<and> TCP_SEQ_BETWEEN (in_seqno s) (rcv_nxt t) (rcv_nxt t + ucast (rcv_wnd t)) then do {
       s \<leftarrow> tcp_rst_reply (in_ackno s) s;
       Some (ERR_OK, s)
     }
     else do {
       s \<leftarrow> (if in_flags s AND TCP_SYN = 0 \<and> in_flags s AND TCP_FIN \<noteq> 0 then mod_tcp pcb (\<lambda>t. t\<lparr>tmr := tcp_ticks s\<rparr>) s else Some s);
       if in_tcplen s > 0 then do {
         s \<leftarrow> mod_tcp pcb (\<lambda>t. t\<lparr>t_flags := t_flags t OR TF_ACK_NOW\<rparr>) s;
         tcp_output pcb s
       } else Some (ERR_OK, s)
     }
   }"

section \<open>Acknowledgements\<close>

definition recv_wnd_update :: "u32_t \<Rightarrow> u32_t \<Rightarrow> u16_t \<Rightarrow> tcp_pcb \<Rightarrow> tcp_pcb" where
  "recv_wnd_update sq ack wnd t =
     (if TCP_SEQ_LT (snd_wl1 t) sq \<or> (snd_wl1 t = sq \<and> TCP_SEQ_LT (snd_wl2 t) ack) \<or> (snd_wl2 t = ack \<and> wnd > snd_wnd t)
      then t\<lparr>snd_wnd := wnd, snd_wl1 := sq, snd_wl2 := ack, persist_backoff := (if wnd > 0 \<and> persist_backoff t > 0 then 0 else persist_backoff t)\<rparr>
      else t)"

text \<open>The test \<open>dupacks + 1 > dupacks\<close> of the code compares integers and always holds.\<close>

definition recv_dupack :: "addr \<Rightarrow> u32_t \<Rightarrow> 'a tcp_stack_scheme \<Rightarrow> 'a tcp_stack_scheme option" where
  "recv_dupack pcb right_wnd_edge s = do {
     s \<leftarrow> mod_tcp pcb (\<lambda>t. t\<lparr>acked := 0\<rparr>) s;
     t \<leftarrow> tcp_tab s pcb;
     if in_tcplen s = 0 \<and> snd_wl2 t + ucast (snd_wnd t) = right_wnd_edge \<and> sint (rtime t) \<ge> 0 \<and> lastack t = in_ackno s then do {
       s \<leftarrow> mod_tcp pcb (\<lambda>t. t\<lparr>dupacks := dupacks t + 1\<rparr>) s;
       if dupacks t + 1 > 3 then mod_tcp pcb (\<lambda>t. if cwnd t + mss t > cwnd t then t\<lparr>cwnd := cwnd t + mss t\<rparr> else t) s
       else if dupacks t + 1 = 3 then tcp_rexmit_fast pcb s
       else Some s
     } else mod_tcp pcb (\<lambda>t. t\<lparr>dupacks := 0\<rparr>) s
   }"

text \<open>The congestion window when new data is acknowledged: slow start or congestion avoidance.\<close>

definition ack_cwnd :: "tcp_pcb \<Rightarrow> u16_t option" where
  "ack_cwnd t =
     (if state t < ESTABLISHED then Some (cwnd t)
      else if cwnd t < ssthresh t then Some (if cwnd t + mss t > cwnd t then cwnd t + mss t else cwnd t)
      else do {
        lwip_assert (cwnd t \<noteq> 0);
        let new_cwnd = of_nat (unat (cwnd t) + unat (mss t) * unat (mss t) div unat (cwnd t));
        Some (if new_cwnd > cwnd t then new_cwnd else cwnd t)
      })"

definition ack_fields :: "u32_t \<Rightarrow> tcp_pcb \<Rightarrow> tcp_pcb option" where
  "ack_fields ack t = do {
     let t = (if t_flags t AND TF_INFR \<noteq> 0 then t\<lparr>t_flags := t_flags t AND NOT TF_INFR, cwnd := ssthresh t\<rparr> else t);
     c \<leftarrow> ack_cwnd t;
     Some (t\<lparr>nrtx := 0, rto := signed_drop_bit 3 (sa t) + sv t, acked := ucast (ack - lastack t), snd_buf := snd_buf t + ucast (ack - lastack t), dupacks := 0,
       lastack := ack, cwnd := c\<rparr>)
   }"

text \<open>A segment that has been taken off a queue because it is acknowledged.\<close>

definition ack_segment :: "addr \<Rightarrow> addr \<Rightarrow> 'a tcp_stack_scheme \<Rightarrow> 'a tcp_stack_scheme option" where
  "ack_segment pcb seg s = do {
     x \<leftarrow> tcp_segs s seg;
     t \<leftarrow> tcp_tab s pcb;
     c \<leftarrow> pbuf_clen (seg_p x) s;
     lwip_assert (c \<le> unat (snd_queuelen t));
     s \<leftarrow> mod_tcp pcb (\<lambda>t. t\<lparr>acked := (if acked t \<noteq> 0 \<and> TCPH_FLAGS (bytes s) (seg_tcphdr x) AND TCP_FIN \<noteq> 0 then acked t - 1 else acked t),
            snd_queuelen := snd_queuelen t - of_nat c\<rparr>) s;
     (n, s) \<leftarrow> tcp_seg_free seg s;
     t \<leftarrow> tcp_tab s pcb;
     lwip_assert (snd_queuelen t \<noteq> 0 \<longrightarrow> unacked t \<noteq> [] \<or> unsent t \<noteq> []);
     Some s
   }"

fun ack_unacked_loop :: "addr \<Rightarrow> addr list \<Rightarrow> 'a tcp_stack_scheme \<Rightarrow> 'a tcp_stack_scheme option" where
  "ack_unacked_loop pcb [] s = Some s"
| "ack_unacked_loop pcb (seg # segs) s = do {
     x \<leftarrow> tcp_segs s seg;
     if TCP_SEQ_LEQ (hdr_seqno (bytes s) (seg_tcphdr x) + of_nat (TCP_TCPLEN x (bytes s))) (in_ackno s) then do {
       s \<leftarrow> mod_tcp pcb (\<lambda>t. t\<lparr>unacked := segs\<rparr>) s;
       s \<leftarrow> ack_segment pcb seg s;
       ack_unacked_loop pcb segs s
     } else Some s
   }"

fun ack_unsent_loop :: "addr \<Rightarrow> addr list \<Rightarrow> 'a tcp_stack_scheme \<Rightarrow> 'a tcp_stack_scheme option" where
  "ack_unsent_loop pcb [] s = Some s"
| "ack_unsent_loop pcb (seg # segs) s = do {
     x \<leftarrow> tcp_segs s seg;
     t \<leftarrow> tcp_tab s pcb;
     if TCP_SEQ_BETWEEN (in_ackno s) (hdr_seqno (bytes s) (seg_tcphdr x) + of_nat (TCP_TCPLEN x (bytes s))) (snd_nxt t) then do {
       s \<leftarrow> mod_tcp pcb (\<lambda>t. t\<lparr>unsent := segs\<rparr>) s;
       s \<leftarrow> ack_segment pcb seg s;
       ack_unsent_loop pcb segs s
     } else Some s
   }"

definition recv_newack :: "addr \<Rightarrow> 'a tcp_stack_scheme \<Rightarrow> 'a tcp_stack_scheme option" where
  "recv_newack pcb s = do {
     t \<leftarrow> tcp_tab s pcb;
     t \<leftarrow> ack_fields (in_ackno s) t;
     s \<leftarrow> mod_tcp pcb (\<lambda>_. t) s;
     s \<leftarrow> ack_unacked_loop pcb (unacked t) s;
     mod_tcp pcb (\<lambda>t. t\<lparr>rtime := (if unacked t = [] then -1 else 0), polltmr := 0\<rparr>) s
   }"

text \<open>The estimation of the round trip time, in 16-bit signed arithmetic.\<close>

definition rtt_estimate :: "u32_t \<Rightarrow> tcp_pcb \<Rightarrow> tcp_pcb" where
  "rtt_estimate ticks t =
     (let m = ucast (ticks - rttest t) - signed_drop_bit 3 (sa t);
          sa' = sa t + m;
          m = (if sint m < 0 then - m else m);
          sv' = sv t + (m - signed_drop_bit 2 (sv t))
      in t\<lparr>sa := sa', sv := sv', rto := signed_drop_bit 3 sa' + sv', rttest := 0\<rparr>)"

definition tcp_receive_ack :: "addr \<Rightarrow> 'a tcp_stack_scheme \<Rightarrow> 'a tcp_stack_scheme option" where
  "tcp_receive_ack pcb s = do {
     t \<leftarrow> tcp_tab s pcb;
     let right_wnd_edge = ucast (snd_wnd t) + snd_wl2 t;
     s \<leftarrow> mod_tcp pcb (recv_wnd_update (in_seqno s) (in_ackno s) (in_wnd s)) s;
     s \<leftarrow> (if TCP_SEQ_LEQ (in_ackno s) (lastack t) then recv_dupack pcb right_wnd_edge s
           else if TCP_SEQ_BETWEEN (in_ackno s) (lastack t + 1) (snd_nxt t) then recv_newack pcb s
           else mod_tcp pcb (\<lambda>t. t\<lparr>acked := 0\<rparr>) s);
     t \<leftarrow> tcp_tab s pcb;
     s \<leftarrow> ack_unsent_loop pcb (unsent t) s;
     mod_tcp pcb (\<lambda>t. if rttest t \<noteq> 0 \<and> TCP_SEQ_LT (rtseq t) (in_ackno s) then rtt_estimate (tcp_ticks s) t else t) s
   }"

section \<open>The queue of segments out of order\<close>

definition tcp_seg_copy :: "tcp_seg \<Rightarrow> 'a tcp_stack_scheme \<Rightarrow> (addr \<times> 'a tcp_stack_scheme) option" where
  "tcp_seg_copy seg s = do {
     (cseg, m) \<leftarrow> memp_malloc (memp s) MEMP_TCP_SEG;
     let s = s\<lparr>memp := m\<rparr>;
     if cseg = NULL then Some (NULL, s)
     else do { s \<leftarrow> pbuf_ref (seg_p seg) s; Some (cseg, s\<lparr>tcp_segs := (tcp_segs s)(cseg \<mapsto> seg)\<rparr>) }
   }"

text \<open>The segments that the new one covers are deleted; the rest of the queue is returned.\<close>

fun oos_delete_loop :: "addr \<Rightarrow> addr list \<Rightarrow> 'a tcp_stack_scheme \<Rightarrow> (addr list \<times> 'a tcp_stack_scheme) option" where
  "oos_delete_loop cseg [] s = Some ([], s)"
| "oos_delete_loop cseg (nx # nxs) s = do {
     c \<leftarrow> tcp_segs s cseg;
     x \<leftarrow> tcp_segs s nx;
     if TCP_SEQ_GEQ (in_seqno s + ucast (seg_len c)) (in_hdr_seqno (bytes s) (seg_tcphdr x) + ucast (seg_len x)) then do {
       let s = (if TCPH_FLAGS (bytes s) (seg_tcphdr x) AND TCP_FIN \<noteq> 0
                then s\<lparr>bytes := TCPH_FLAGS_SET (seg_tcphdr c) (TCPH_FLAGS (bytes s) (seg_tcphdr c) OR TCP_FIN) (bytes s)\<rparr> else s);
       (n, s) \<leftarrow> tcp_seg_free nx s;
       oos_delete_loop cseg nxs s
     } else Some (nx # nxs, s)
   }"

text \<open>The end of a segment is cut off at the sequence number \<open>sq\<close>.\<close>

definition seg_trim :: "addr \<Rightarrow> u32_t \<Rightarrow> u32_t \<Rightarrow> 'a tcp_stack_scheme \<Rightarrow> 'a tcp_stack_scheme option" where
  "seg_trim seg start sq s = do {
     s \<leftarrow> mod_seg seg (\<lambda>x. x\<lparr>seg_len := ucast (sq - start)\<rparr>) s;
     x \<leftarrow> tcp_segs s seg;
     pbuf_realloc (seg_p x) (unat (seg_len x)) s
   }"

text \<open>The queue from the new segment on.\<close>

definition tcp_oos_insert_segment :: "addr \<Rightarrow> addr list \<Rightarrow> 'a tcp_stack_scheme \<Rightarrow> (addr list \<times> 'a tcp_stack_scheme) option" where
  "tcp_oos_insert_segment cseg next_segs s = do {
     c \<leftarrow> tcp_segs s cseg;
     if TCPH_FLAGS (bytes s) (seg_tcphdr c) AND TCP_FIN \<noteq> 0 then do { s \<leftarrow> tcp_segs_free next_segs s; Some ([cseg], s) }
     else do {
       (rest, s) \<leftarrow> oos_delete_loop cseg next_segs s;
       s \<leftarrow> (case rest of [] \<Rightarrow> Some s
             | nx # _ \<Rightarrow> do {
                 c \<leftarrow> tcp_segs s cseg;
                 x \<leftarrow> tcp_segs s nx;
                 if TCP_SEQ_GT (in_seqno s + ucast (seg_len c)) (in_hdr_seqno (bytes s) (seg_tcphdr x))
                 then seg_trim cseg (in_seqno s) (in_hdr_seqno (bytes s) (seg_tcphdr x)) s else Some s
               });
       Some (cseg # rest, s)
     }
   }"

text \<open>The segment \<open>prev\<close> is cut off where the incoming one starts, if they overlap.\<close>

definition oos_trim_prev :: "addr \<Rightarrow> 'a tcp_stack_scheme \<Rightarrow> 'a tcp_stack_scheme option" where
  "oos_trim_prev prev s = do {
     p \<leftarrow> tcp_segs s prev;
     let start = in_hdr_seqno (bytes s) (seg_tcphdr p);
     if TCP_SEQ_GT (start + ucast (seg_len p)) (in_seqno s) then seg_trim prev start (in_seqno s) s else Some s
   }"

text \<open>The walk along the queue to the place of the incoming segment; the result is the queue from \<open>next\<close> on.\<close>

fun oos_walk :: "addr \<Rightarrow> addr list \<Rightarrow> 'a tcp_stack_scheme \<Rightarrow> (addr list \<times> 'a tcp_stack_scheme) option" where
  "oos_walk prev [] s = Some ([], s)"
| "oos_walk prev (nx # nxs) s = do {
     x \<leftarrow> tcp_segs s nx;
     let start = in_hdr_seqno (bytes s) (seg_tcphdr x);
     if in_seqno s = start then
       (if seg_len (inseg s) > seg_len x then do {
          (c, s) \<leftarrow> tcp_seg_copy (inseg s) s;
          if c \<noteq> NULL then tcp_oos_insert_segment c (nx # nxs) s else Some (nx # nxs, s)
        } else Some (nx # nxs, s))
     else do {
       here \<leftarrow> (if prev = NULL then Some (TCP_SEQ_LT (in_seqno s) start)
                else do { p \<leftarrow> tcp_segs s prev; Some (TCP_SEQ_BETWEEN (in_seqno s) (in_hdr_seqno (bytes s) (seg_tcphdr p) + 1) (start - 1)) });
       if here then do {
         (c, s) \<leftarrow> tcp_seg_copy (inseg s) s;
         if c \<noteq> NULL then do {
           s \<leftarrow> (if prev \<noteq> NULL then oos_trim_prev prev s else Some s);
           tcp_oos_insert_segment c (nx # nxs) s
         } else Some (nx # nxs, s)
       }
       else if nxs = [] \<and> TCP_SEQ_GT (in_seqno s) start then
         (if TCPH_FLAGS (bytes s) (seg_tcphdr x) AND TCP_FIN \<noteq> 0 then Some ([nx], s)
          else do {
            (c, s) \<leftarrow> tcp_seg_copy (inseg s) s;
            if c \<noteq> NULL then do { s \<leftarrow> oos_trim_prev nx s; Some ([nx, c], s) } else Some ([nx], s)
          })
       else do { (r, s) \<leftarrow> oos_walk nx nxs s; Some (nx # r, s) }
     }
   }"

definition tcp_receive_oos :: "addr \<Rightarrow> 'a tcp_stack_scheme \<Rightarrow> 'a tcp_stack_scheme option" where
  "tcp_receive_oos pcb s = do {
     (e, s) \<leftarrow> tcp_send_empty_ack pcb s;
     t \<leftarrow> tcp_tab s pcb;
     (q, s) \<leftarrow> (if ooseq t = [] then do { (c, s) \<leftarrow> tcp_seg_copy (inseg s) s; Some (if c = NULL then [] else [c], s) }
                else oos_walk NULL (ooseq t) s);
     mod_tcp pcb (\<lambda>t. t\<lparr>ooseq := q\<rparr>) s
   }"

section \<open>Data in sequence\<close>

text \<open>The loop over the leading pbufs that hold only old data; the first that does not, and what is left to skip in it.\<close>

partial_function (option) trim_front_loop :: "addr \<Rightarrow> nat \<Rightarrow> nat \<Rightarrow> 'a tcp_stack_scheme \<Rightarrow> (addr \<times> nat \<times> 'a tcp_stack_scheme) option" where
  "trim_front_loop p off new_tot_len s = do {
     b \<leftarrow> pbufs s p;
     if len b < off then do {
       s \<leftarrow> mod_pbuf p (\<lambda>b. b\<lparr>tot_len := new_tot_len, len := 0\<rparr>) s;
       trim_front_loop (pb_next b) (off - len b) new_tot_len s
     } else Some (p, off, s)
   }"

declare trim_front_loop.simps [code]

definition trim_front :: "addr \<Rightarrow> 'a tcp_stack_scheme \<Rightarrow> 'a tcp_stack_scheme option" where
  "trim_front pcb s = do {
     t \<leftarrow> tcp_tab s pcb;
     let off = unat (rcv_nxt t - in_seqno s);
     let p = seg_p (inseg s);
     lwip_assert (p \<noteq> NULL);
     lwip_assert (off < 0x7fff);
     b \<leftarrow> pbufs s p;
     (p, off, s) \<leftarrow> (if len b < off then do { lwip_assert (off \<le> tot_len b); trim_front_loop p off (tot_len b - off) s } else Some (p, off, s));
     (failed, s) \<leftarrow> pbuf_header p (- int off) s;
     lwip_assert (\<not> failed);
     b \<leftarrow> pbufs s p;
     Some (s\<lparr>inseg := (inseg s)\<lparr>dataptr := payload b, seg_len := seg_len (inseg s) - ucast (rcv_nxt t - in_seqno s)\<rparr>,
             bytes := poke (seg_tcphdr (inseg s) + 4) (le32 (rcv_nxt t)) (bytes s), in_seqno := rcv_nxt t\<rparr>)
   }"

text \<open>The incoming segment gets a new length, which its packet is cut to.\<close>

definition inseg_trim :: "u16_t \<Rightarrow> 'a tcp_stack_scheme \<Rightarrow> 'a tcp_stack_scheme option" where
  "inseg_trim l s = do {
     let h = seg_tcphdr (inseg s);
     let l = (if TCPH_FLAGS (bytes s) h AND TCP_SYN \<noteq> 0 then l - 1 else l);
     s \<leftarrow> pbuf_realloc (seg_p (inseg s)) (unat l) (s\<lparr>inseg := (inseg s)\<lparr>seg_len := l\<rparr>\<rparr>);
     Some (s\<lparr>in_tcplen := of_nat (TCP_TCPLEN (inseg s) (bytes s))\<rparr>)
   }"

definition inseg_fit_window :: "addr \<Rightarrow> 'a tcp_stack_scheme \<Rightarrow> 'a tcp_stack_scheme option" where
  "inseg_fit_window pcb s = do {
     t \<leftarrow> tcp_tab s pcb;
     let s = s\<lparr>in_tcplen := of_nat (TCP_TCPLEN (inseg s) (bytes s))\<rparr>;
     if in_tcplen s > rcv_wnd t then do {
       let h = seg_tcphdr (inseg s);
       let s = (if TCPH_FLAGS (bytes s) h AND TCP_FIN \<noteq> 0 then s\<lparr>bytes := TCPH_FLAGS_SET h (TCPH_FLAGS (bytes s) h AND NOT TCP_FIN) (bytes s)\<rparr> else s);
       s \<leftarrow> inseg_trim (rcv_wnd t) s;
       lwip_assert (in_seqno s + ucast (in_tcplen s) = rcv_nxt t + ucast (rcv_wnd t));
       Some s
     } else Some s
   }"

text \<open>The segments of the queue that the incoming segment covers are freed; \<open>pcb->ooseq\<close> still points to the first of them.\<close>

fun inseg_cover_loop :: "addr list \<Rightarrow> 'a tcp_stack_scheme \<Rightarrow> (addr list \<times> 'a tcp_stack_scheme) option" where
  "inseg_cover_loop [] s = Some ([], s)"
| "inseg_cover_loop (nx # nxs) s = do {
     x \<leftarrow> tcp_segs s nx;
     if TCP_SEQ_GEQ (in_seqno s + ucast (in_tcplen s)) (in_hdr_seqno (bytes s) (seg_tcphdr x) + ucast (seg_len x)) then do {
       let h = seg_tcphdr (inseg s);
       let s = (if TCPH_FLAGS (bytes s) (seg_tcphdr x) AND TCP_FIN \<noteq> 0 \<and> TCPH_FLAGS (bytes s) h AND TCP_SYN = 0
                then (let s = s\<lparr>bytes := TCPH_FLAGS_SET h (TCPH_FLAGS (bytes s) h OR TCP_FIN) (bytes s)\<rparr>
                      in s\<lparr>in_tcplen := of_nat (TCP_TCPLEN (inseg s) (bytes s))\<rparr>) else s);
       (n, s) \<leftarrow> tcp_seg_free nx s;
       inseg_cover_loop nxs s
     } else Some (nx # nxs, s)
   }"

definition inseg_fit_ooseq :: "addr \<Rightarrow> 'a tcp_stack_scheme \<Rightarrow> 'a tcp_stack_scheme option" where
  "inseg_fit_ooseq pcb s = do {
     t \<leftarrow> tcp_tab s pcb;
     if ooseq t = [] then Some s
     else if TCPH_FLAGS (bytes s) (seg_tcphdr (inseg s)) AND TCP_FIN \<noteq> 0 then do {
       s \<leftarrow> tcp_segs_free (ooseq t) s;
       mod_tcp pcb (\<lambda>t. t\<lparr>ooseq := []\<rparr>) s
     }
     else do {
       (rest, s) \<leftarrow> inseg_cover_loop (ooseq t) s;
       s \<leftarrow> (case rest of [] \<Rightarrow> Some s
             | nx # _ \<Rightarrow> do {
                 x \<leftarrow> tcp_segs s nx;
                 if TCP_SEQ_GT (in_seqno s + ucast (in_tcplen s)) (in_hdr_seqno (bytes s) (seg_tcphdr x)) then do {
                   f \<leftarrow> tcp_segs s (hd (ooseq t));
                   s \<leftarrow> inseg_trim (ucast (in_hdr_seqno (bytes s) (seg_tcphdr f) - in_seqno s)) s;
                   lwip_assert (in_seqno s + ucast (in_tcplen s) = in_hdr_seqno (bytes s) (seg_tcphdr f));
                   Some s
                 } else Some s
               });
       mod_tcp pcb (\<lambda>t. t\<lparr>ooseq := rest\<rparr>) s
     }
   }"

text \<open>\<open>n\<close> more bytes of the sequence have arrived.\<close>

definition rcv_advance :: "addr \<Rightarrow> nat \<Rightarrow> 'a tcp_stack_scheme \<Rightarrow> 'a tcp_stack_scheme option" where
  "rcv_advance pcb n s = do {
     t \<leftarrow> tcp_tab s pcb;
     lwip_assert (n \<le> unat (rcv_wnd t));
     mod_tcp pcb (\<lambda>t. snd (tcp_update_rcv_ann_wnd (t\<lparr>rcv_nxt := rcv_nxt t + of_nat n, rcv_wnd := rcv_wnd t - of_nat n\<rparr>))) s
   }"

text \<open>The segments of the queue that are now in sequence.\<close>

fun oos_deliver_loop :: "addr \<Rightarrow> addr list \<Rightarrow> 'a tcp_stack_scheme \<Rightarrow> 'a tcp_stack_scheme option" where
  "oos_deliver_loop pcb [] s = Some s"
| "oos_deliver_loop pcb (cseg # segs) s = do {
     t \<leftarrow> tcp_tab s pcb;
     c \<leftarrow> tcp_segs s cseg;
     if in_hdr_seqno (bytes s) (seg_tcphdr c) = rcv_nxt t then do {
       s \<leftarrow> rcv_advance pcb (TCP_TCPLEN c (bytes s)) (s\<lparr>in_seqno := rcv_nxt t\<rparr>);
       b \<leftarrow> pbufs s (seg_p c);
       s \<leftarrow> (if tot_len b > 0 then do {
               s \<leftarrow> (if recv_data s \<noteq> NULL then pbuf_cat (recv_data s) (seg_p c) s else Some (s\<lparr>recv_data := seg_p c\<rparr>));
               mod_seg cseg (\<lambda>x. x\<lparr>seg_p := NULL\<rparr>) s
             } else Some s);
       s \<leftarrow> (if TCPH_FLAGS (bytes s) (seg_tcphdr c) AND TCP_FIN \<noteq> 0
             then mod_tcp pcb (\<lambda>t. if state t = ESTABLISHED then t\<lparr>state := CLOSE_WAIT\<rparr> else t) (s\<lparr>recv_flags := recv_flags s OR TF_GOT_FIN\<rparr>)
             else Some s);
       s \<leftarrow> mod_tcp pcb (\<lambda>t. t\<lparr>ooseq := segs\<rparr>) s;
       (n, s) \<leftarrow> tcp_seg_free cseg s;
       oos_deliver_loop pcb segs s
     } else Some s
   }"

definition tcp_receive_inorder :: "addr \<Rightarrow> 'a tcp_stack_scheme \<Rightarrow> 'a tcp_stack_scheme option" where
  "tcp_receive_inorder pcb s = do {
     s \<leftarrow> inseg_fit_window pcb s;
     s \<leftarrow> inseg_fit_ooseq pcb s;
     s \<leftarrow> rcv_advance pcb (unat (in_tcplen s)) s;
     b \<leftarrow> pbufs s (seg_p (inseg s));
     let s = (if tot_len b > 0 then s\<lparr>recv_data := seg_p (inseg s), inseg := (inseg s)\<lparr>seg_p := NULL\<rparr>\<rparr> else s);
     let s = (if TCPH_FLAGS (bytes s) (seg_tcphdr (inseg s)) AND TCP_FIN \<noteq> 0 then s\<lparr>recv_flags := recv_flags s OR TF_GOT_FIN\<rparr> else s);
     t \<leftarrow> tcp_tab s pcb;
     s \<leftarrow> oos_deliver_loop pcb (ooseq t) s;
     tcp_ack pcb s
   }"

definition tcp_receive_data :: "addr \<Rightarrow> 'a tcp_stack_scheme \<Rightarrow> 'a tcp_stack_scheme option" where
  "tcp_receive_data pcb s = do {
     t \<leftarrow> tcp_tab s pcb;
     s \<leftarrow> (if TCP_SEQ_BETWEEN (rcv_nxt t) (in_seqno s + 1) (in_seqno s + ucast (in_tcplen s) - 1) then trim_front pcb s
           else if TCP_SEQ_LT (in_seqno s) (rcv_nxt t) then tcp_ack_now pcb s
           else Some s);
     t \<leftarrow> tcp_tab s pcb;
     if TCP_SEQ_BETWEEN (in_seqno s) (rcv_nxt t) (rcv_nxt t + ucast (rcv_wnd t) - 1) then
       (if rcv_nxt t = in_seqno s then tcp_receive_inorder pcb s else tcp_receive_oos pcb s)
     else do { (e, s) \<leftarrow> tcp_send_empty_ack pcb s; Some s }
   }"

definition tcp_receive :: "addr \<Rightarrow> 'a tcp_stack_scheme \<Rightarrow> 'a tcp_stack_scheme option" where
  "tcp_receive pcb s = do {
     s \<leftarrow> (if in_flags s AND TCP_ACK \<noteq> 0 then tcp_receive_ack pcb s else Some s);
     if in_tcplen s > 0 then tcp_receive_data pcb s
     else do {
       t \<leftarrow> tcp_tab s pcb;
       if \<not> TCP_SEQ_BETWEEN (in_seqno s) (rcv_nxt t) (rcv_nxt t + ucast (rcv_wnd t) - 1) then tcp_ack_now pcb s else Some s
     }
   }"

section \<open>The state machine\<close>

definition rst_acceptable :: "tcp_pcb \<Rightarrow> u32_t \<Rightarrow> u32_t \<Rightarrow> bool" where
  "rst_acceptable t sq ack \<longleftrightarrow> (if state t = SYN_SENT then ack = snd_nxt t else TCP_SEQ_BETWEEN sq (rcv_nxt t) (rcv_nxt t + ucast (rcv_wnd t)))"

definition process_syn_sent :: "'a tcp_app \<Rightarrow> addr \<Rightarrow> 'a tcp_stack_scheme \<Rightarrow> 'a tcp_stack_scheme option" where
  "process_syn_sent app pcb s = do {
     t \<leftarrow> tcp_tab s pcb;
     synack \<leftarrow> (if in_flags s AND TCP_ACK \<noteq> 0 \<and> in_flags s AND TCP_SYN \<noteq> 0
        then (case unacked t of [] \<Rightarrow> None | rseg # _ \<Rightarrow> do { x \<leftarrow> tcp_segs s rseg; Some (in_ackno s = hdr_seqno (bytes s) (seg_tcphdr x) + 1) })
        else Some False);
     if synack then do {
       m \<leftarrow> tcp_eff_send_mss (mss t) (t_remote_ip t) s;
       lwip_assert (snd_queuelen t > 0);
       s \<leftarrow> mod_tcp pcb (\<lambda>t. t\<lparr>snd_buf := snd_buf t + 1, rcv_nxt := in_seqno s + 1, rcv_ann_right_edge := in_seqno s + 1, lastack := in_ackno s, snd_wnd := in_wnd s,
              snd_wl1 := in_seqno s - 1, state := ESTABLISHED, mss := m, ssthresh := m * 10, cwnd := (if cwnd t = 1 then m * 2 else m), snd_queuelen := snd_queuelen t - 1,
              unacked := tl (unacked t), rtime := (if tl (unacked t) = [] then -1 else 0), nrtx := (if tl (unacked t) = [] then nrtx t else 0)\<rparr>) s;
       (n, s) \<leftarrow> tcp_seg_free (hd (unacked t)) s;
       (e, s) \<leftarrow> TCP_EVENT_CONNECTED app pcb ERR_OK s;
       tcp_ack_now pcb s
     }
     else if in_flags s AND TCP_ACK \<noteq> 0 then tcp_rst_reply (in_ackno s) s
     else Some s
   }"

text \<open>The result tells whether the connection was aborted.\<close>

definition process_syn_rcvd :: "'a tcp_app \<Rightarrow> addr \<Rightarrow> 'a tcp_stack_scheme \<Rightarrow> (bool \<times> 'a tcp_stack_scheme) option" where
  "process_syn_rcvd app pcb s = do {
     t \<leftarrow> tcp_tab s pcb;
     if in_flags s AND TCP_ACK \<noteq> 0 then
       (if TCP_SEQ_BETWEEN (in_ackno s) (lastack t + 1) (snd_nxt t) then do {
          s \<leftarrow> mod_tcp pcb (\<lambda>t. t\<lparr>state := ESTABLISHED\<rparr>) s;
          lwip_assert (accept t \<noteq> NULL);
          (e, s) \<leftarrow> TCP_EVENT_ACCEPT app pcb ERR_OK s;
          if e \<noteq> ERR_OK then do { s \<leftarrow> tcp_abort app pcb s; Some (True, s) }
          else do {
            t \<leftarrow> tcp_tab s pcb;
            let old_cwnd = cwnd t;
            s \<leftarrow> tcp_receive pcb s;
            s \<leftarrow> mod_tcp pcb (\<lambda>t. t\<lparr>acked := (if acked t \<noteq> 0 then acked t - 1 else acked t), cwnd := (if old_cwnd = 1 then mss t * 2 else mss t)\<rparr>) s;
            s \<leftarrow> (if recv_flags s AND TF_GOT_FIN \<noteq> 0 then do { s \<leftarrow> tcp_ack_now pcb s; mod_tcp pcb (\<lambda>t. t\<lparr>state := CLOSE_WAIT\<rparr>) s } else Some s);
            Some (False, s)
          }
        } else do { s \<leftarrow> tcp_rst_reply (in_ackno s) s; Some (False, s) })
     else if in_flags s AND TCP_SYN \<noteq> 0 \<and> in_seqno s = rcv_nxt t - 1 then do { s \<leftarrow> tcp_rexmit pcb s; Some (False, s) }
     else Some (False, s)
   }"

text \<open>From the list of active connections to that of \<open>TIME_WAIT\<close>.\<close>

definition enter_time_wait :: "addr \<Rightarrow> 'a tcp_stack_scheme \<Rightarrow> 'a tcp_stack_scheme option" where
  "enter_time_wait pcb s = do {
     s \<leftarrow> tcp_pcb_purge pcb s;
     let s = s\<lparr>tcp_active_pcbs := remove1 pcb (tcp_active_pcbs s)\<rparr>;
     s \<leftarrow> mod_tcp pcb (\<lambda>t. t\<lparr>state := TIME_WAIT\<rparr>) s;
     tw \<leftarrow> tcp_reg pcb (tcp_tw_pcbs s);
     Some (s\<lparr>tcp_tw_pcbs := tw\<rparr>)
   }"

text \<open>The states after the handshake.\<close>

definition process_connected :: "addr \<Rightarrow> tcp_state \<Rightarrow> 'a tcp_stack_scheme \<Rightarrow> 'a tcp_stack_scheme option" where
  "process_connected pcb st s = do {
     s \<leftarrow> tcp_receive pcb s;
     t \<leftarrow> tcp_tab s pcb;
     let got_fin = (recv_flags s AND TF_GOT_FIN \<noteq> 0);
     let fin_acked = (in_flags s AND TCP_ACK \<noteq> 0 \<and> in_ackno s = snd_nxt t);
     case st of
       FIN_WAIT_1 \<Rightarrow>
         (if got_fin then do {
            s \<leftarrow> tcp_ack_now pcb s;
            if fin_acked then enter_time_wait pcb s else mod_tcp pcb (\<lambda>t. t\<lparr>state := CLOSING\<rparr>) s
          }
          else if fin_acked then mod_tcp pcb (\<lambda>t. t\<lparr>state := FIN_WAIT_2\<rparr>) s
          else Some s)
     | FIN_WAIT_2 \<Rightarrow> (if got_fin then do { s \<leftarrow> tcp_ack_now pcb s; enter_time_wait pcb s } else Some s)
     | CLOSING \<Rightarrow> (if fin_acked then enter_time_wait pcb s else Some s)
     | LAST_ACK \<Rightarrow> Some (if fin_acked then s\<lparr>recv_flags := recv_flags s OR TF_CLOSED\<rparr> else s)
     | _ \<Rightarrow> (if got_fin then do { s \<leftarrow> tcp_ack_now pcb s; mod_tcp pcb (\<lambda>t. t\<lparr>state := CLOSE_WAIT\<rparr>) s } else Some s)
   }"

definition tcp_process :: "'a tcp_app \<Rightarrow> addr \<Rightarrow> 'a tcp_stack_scheme \<Rightarrow> (err_t \<times> 'a tcp_stack_scheme) option" where
  "tcp_process app pcb s = do {
     t \<leftarrow> tcp_tab s pcb;
     if in_flags s AND TCP_RST \<noteq> 0 then
       (if rst_acceptable t (in_seqno s) (in_ackno s) then do {
          lwip_assert (state t \<noteq> CLOSED);
          s \<leftarrow> mod_tcp pcb (\<lambda>t. t\<lparr>t_flags := t_flags t AND NOT TF_ACK_DELAY\<rparr>) (s\<lparr>recv_flags := recv_flags s OR TF_RESET\<rparr>);
          Some (ERR_RST, s)
        } else Some (ERR_OK, s))
     else if in_flags s AND TCP_SYN \<noteq> 0 \<and> state t \<noteq> SYN_SENT \<and> state t \<noteq> SYN_RCVD then do { s \<leftarrow> tcp_ack_now pcb s; Some (ERR_OK, s) }
     else do {
       s \<leftarrow> mod_tcp pcb (\<lambda>t. t\<lparr>tmr := tcp_ticks s, keep_cnt_sent := 0\<rparr>) s;
       s \<leftarrow> tcp_parseopt pcb s;
       case state t of
         SYN_SENT \<Rightarrow> do { s \<leftarrow> process_syn_sent app pcb s; Some (ERR_OK, s) }
       | SYN_RCVD \<Rightarrow> do { (aborted, s) \<leftarrow> process_syn_rcvd app pcb s; Some (if aborted then ERR_ABRT else ERR_OK, s) }
       | CLOSED \<Rightarrow> Some (ERR_OK, s)
       | LISTEN \<Rightarrow> Some (ERR_OK, s)
       | TIME_WAIT \<Rightarrow> Some (ERR_OK, s)
       | _ \<Rightarrow> do { s \<leftarrow> process_connected pcb (state t) s; Some (ERR_OK, s) }
     }
   }"

section \<open>Input\<close>

definition tcp_match :: "tcp_pcb \<Rightarrow> 'a tcp_stack_scheme \<Rightarrow> bool" where
  "tcp_match t s \<longleftrightarrow> t_remote_port t = in_src s \<and> t_local_port t = in_dest s \<and> t_remote_ip t = iph_src (bytes s) (in_iphdr s) \<and> t_local_ip t = iph_dest (bytes s) (in_iphdr s)"

fun tcp_find_active :: "addr list \<Rightarrow> 'a tcp_stack_scheme \<Rightarrow> addr option" where
  "tcp_find_active [] s = Some NULL"
| "tcp_find_active (pcb # pcbs) s = do {
     t \<leftarrow> tcp_tab s pcb;
     lwip_assert (state t \<noteq> CLOSED \<and> state t \<noteq> TIME_WAIT \<and> state t \<noteq> LISTEN);
     if tcp_match t s then Some pcb else tcp_find_active pcbs s
   }"

fun tcp_find_tw :: "addr list \<Rightarrow> 'a tcp_stack_scheme \<Rightarrow> addr option" where
  "tcp_find_tw [] s = Some NULL"
| "tcp_find_tw (pcb # pcbs) s = do {
     t \<leftarrow> tcp_tab s pcb;
     lwip_assert (state t = TIME_WAIT);
     if tcp_match t s then Some pcb else tcp_find_tw pcbs s
   }"

fun tcp_find_listen :: "addr list \<Rightarrow> 'a tcp_stack_scheme \<Rightarrow> addr option" where
  "tcp_find_listen [] s = Some NULL"
| "tcp_find_listen (lpcb # lpcbs) s = do {
     l \<leftarrow> tcp_listen_tab s lpcb;
     if (ip_addr_isany (l_local_ip l) \<or> l_local_ip l = iph_dest (bytes s) (in_iphdr s)) \<and> l_local_port l = in_dest s then Some lpcb
     else tcp_find_listen lpcbs s
   }"

text \<open>A control block that was found moves to the front of its list.\<close>

definition to_front :: "addr \<Rightarrow> addr list \<Rightarrow> addr list" where
  "to_front pcb pcbs = pcb # remove1 pcb pcbs"

text \<open>The fields of the header are converted to host byte order.\<close>

definition tcp_hdr_to_host :: "addr \<Rightarrow> (addr \<Rightarrow> u8_t) \<Rightarrow> (addr \<Rightarrow> u8_t)" where
  "tcp_hdr_to_host h d =
     (let d = poke h (le16 (ntohs (ld16 d h))) d;
          d = poke (h + 2) (le16 (ntohs (ld16 d (h + 2)))) d;
          d = poke (h + 4) (le32 (ntohl (ld32 d (h + 4)))) d;
          d = poke (h + 8) (le32 (ntohl (ld32 d (h + 8)))) d
      in poke (h + 14) (le16 (ntohs (ld16 d (h + 14)))) d)"

definition PBUF_FLAG_PUSH :: u8_t where "PBUF_FLAG_PUSH = 0x01"

text \<open>What the application is told after a segment has been processed.\<close>

definition tcp_input_events :: "'a tcp_app \<Rightarrow> addr \<Rightarrow> 'a tcp_stack_scheme \<Rightarrow> 'a tcp_stack_scheme option" where
  "tcp_input_events app pcb s = do {
     t \<leftarrow> tcp_tab s pcb;
     s \<leftarrow> (if acked t > 0 then do { (e, s) \<leftarrow> TCP_EVENT_SENT app pcb (acked t) s; Some s } else Some s);
     s \<leftarrow> (if recv_data s \<noteq> NULL then do {
             s \<leftarrow> (if in_flags s AND TCP_PSH \<noteq> 0 then mod_pbuf (recv_data s) (\<lambda>b. b\<lparr>flags := flags b OR PBUF_FLAG_PUSH\<rparr>) s else Some s);
             let p = recv_data s;
             (e, s) \<leftarrow> TCP_EVENT_RECV app pcb p ERR_OK s;
             if e \<noteq> ERR_OK then mod_tcp pcb (\<lambda>t. t\<lparr>refused_data := recv_data s\<rparr>) s else Some s
           } else Some s);
     s \<leftarrow> (if recv_flags s AND TF_GOT_FIN \<noteq> 0 then do { (e, s) \<leftarrow> TCP_EVENT_RECV app pcb NULL ERR_OK s; Some s } else Some s);
     (e, s) \<leftarrow> tcp_output pcb (s\<lparr>tcp_input_pcb := NULL\<rparr>);
     Some s
   }"

definition tcp_input_pcb_segment :: "'a tcp_app \<Rightarrow> addr \<Rightarrow> 'a tcp_stack_scheme \<Rightarrow> 'a tcp_stack_scheme option" where
  "tcp_input_pcb_segment app pcb s = do {
     (e, s) \<leftarrow> tcp_process app pcb (s\<lparr>tcp_input_pcb := pcb\<rparr>);
     s \<leftarrow> (if e = ERR_ABRT then Some s
           else if recv_flags s AND TF_RESET \<noteq> 0 then do {
             t \<leftarrow> tcp_tab s pcb;
             s \<leftarrow> TCP_EVENT_ERR app (errf t) (callback_arg t) ERR_RST s;
             s \<leftarrow> tcp_pcb_remove_active pcb s;
             free_pcb pcb s
           }
           else if recv_flags s AND TF_CLOSED \<noteq> 0 then do { s \<leftarrow> tcp_pcb_remove_active pcb s; free_pcb pcb s }
           else tcp_input_events app pcb s);
     let s = s\<lparr>tcp_input_pcb := NULL\<rparr>;
     if seg_p (inseg s) \<noteq> NULL then do {
       (n, s) \<leftarrow> pbuf_free (seg_p (inseg s)) s;
       Some (s\<lparr>inseg := (inseg s)\<lparr>seg_p := NULL\<rparr>\<rparr>)
     } else Some s
   }"

text \<open>The segment of a connection: data that the application refused before is offered to it first.\<close>

definition tcp_input_pcb_found :: "'a tcp_app \<Rightarrow> addr \<Rightarrow> addr \<Rightarrow> 'a tcp_stack_scheme \<Rightarrow> 'a tcp_stack_scheme option" where
  "tcp_input_pcb_found app pcb p s = do {
     b \<leftarrow> pbufs s p;
     let s = s\<lparr>inseg := \<lparr>seg_p = p, dataptr = payload b, seg_len = of_nat (tot_len b), seg_flags = seg_flags (inseg s), seg_tcphdr = in_tcphdr s\<rparr>, recv_data := NULL, recv_flags := 0\<rparr>;
     t \<leftarrow> tcp_tab s pcb;
     (e, s) \<leftarrow> (if refused_data t \<noteq> NULL then do {
         (e, s) \<leftarrow> TCP_EVENT_RECV app pcb (refused_data t) ERR_OK s;
         s \<leftarrow> (if e = ERR_OK then mod_tcp pcb (\<lambda>t. t\<lparr>refused_data := NULL\<rparr>) s else Some s);
         Some (e, s)
       } else Some (ERR_OK, s));
     if e \<noteq> ERR_OK then do { (n, s) \<leftarrow> pbuf_free p s; Some s } else tcp_input_pcb_segment app pcb s
   }"

definition tcp_demux :: "'a tcp_app \<Rightarrow> addr \<Rightarrow> 'a tcp_stack_scheme \<Rightarrow> 'a tcp_stack_scheme option" where
  "tcp_demux app p s = do {
     pcb \<leftarrow> tcp_find_active (tcp_active_pcbs s) s;
     if pcb \<noteq> NULL then tcp_input_pcb_found app pcb p (s\<lparr>tcp_active_pcbs := to_front pcb (tcp_active_pcbs s)\<rparr>)
     else do {
       tw \<leftarrow> tcp_find_tw (tcp_tw_pcbs s) s;
       if tw \<noteq> NULL then do {
         (e, s) \<leftarrow> tcp_timewait_input tw s;
         (n, s) \<leftarrow> pbuf_free p s;
         Some s
       }
       else do {
         lpcb \<leftarrow> tcp_find_listen (tcp_listen_pcbs s) s;
         if lpcb \<noteq> NULL then do {
           (e, s) \<leftarrow> tcp_listen_input app lpcb (s\<lparr>tcp_listen_pcbs := to_front lpcb (tcp_listen_pcbs s)\<rparr>);
           (n, s) \<leftarrow> pbuf_free p s;
           Some s
         }
         else do {
           s \<leftarrow> (if TCPH_FLAGS (bytes s) (in_tcphdr s) AND TCP_RST = 0 then tcp_rst_reply (in_ackno s) s else Some s);
           (n, s) \<leftarrow> pbuf_free p s;
           Some s
         }
       }
     }
   }"

definition tcp_input :: "'a tcp_app \<Rightarrow> addr \<Rightarrow> addr \<Rightarrow> 'a tcp_stack_scheme \<Rightarrow> 'a tcp_stack_scheme option" where
  "tcp_input app p inp s = do {
     b \<leftarrow> pbufs s p;
     n \<leftarrow> netifs s inp;
     let iphdr = payload b;
     let hlen = unat (IPH_HL (bytes s) iphdr) * 4;
     let s = s\<lparr>in_iphdr := iphdr, in_tcphdr := iphdr + hlen\<rparr>;
     (failed, s) \<leftarrow> pbuf_header p (- int hlen) s;
     b \<leftarrow> pbufs s p;
     if failed \<or> tot_len b < 20 then udp_drop p s
     else if ip_addr_isbroadcast (iph_dest (bytes s) iphdr) n \<or> ip_addr_ismulticast (iph_dest (bytes s) iphdr) then udp_drop p s
     else do {
       chk \<leftarrow> inet_chksum_pseudo p (iph_src (bytes s) iphdr) (iph_dest (bytes s) iphdr) IP_PROTO_TCP (of_nat (tot_len b)) s;
       if chk \<noteq> 0 then udp_drop p s
       else do {
         (failed, s) \<leftarrow> pbuf_header p (- (int (unat (TCPH_HDRLEN (bytes s) (in_tcphdr s))) * 4)) s;
         if failed then udp_drop p s
         else do {
           b \<leftarrow> pbufs s p;
           let s = s\<lparr>bytes := tcp_hdr_to_host (in_tcphdr s) (bytes s)\<rparr>;
           let f = TCPH_FLAGS (bytes s) (in_tcphdr s);
           let s = s\<lparr>in_seqno := ld32 (bytes s) (in_tcphdr s + 4), in_ackno := ld32 (bytes s) (in_tcphdr s + 8), in_flags := f,
                     in_tcplen := of_nat (tot_len b + (if f AND (TCP_FIN OR TCP_SYN) \<noteq> 0 then 1 else 0))\<rparr>;
           tcp_demux app p s
         }
       }
     }
   }"
end
