(* ===== verification/Tcp_Correct.thy ===== *)
theory Tcp_Correct
  imports Tcp_In
begin

text \<open>
  The theorems on TCP: sequence numbers, options, the announced window, local ports and binding, the queues
  of segments, and the reply to a segment that no connection and no listener takes.
\<close>

section \<open>Sequence numbers\<close>

lemma sint_of_small:
  assumes "- (2 ^ 31) \<le> k" and "k < 2 ^ 31"
  shows "sint (word_of_int k :: u32_t) = k"
proof -
  have "sint (word_of_int k :: u32_t) = signed_take_bit 31 k"
    by (simp add: sint_sbintrunc')
  also have "\<dots> = k"
    by (rule signed_take_bit_int_eq_self) (use assms in simp_all)
  finally show ?thesis .
qed

lemma u32_half: "unat x < 2 ^ 31 \<longleftrightarrow> uint x < 2 ^ 31" for x :: u32_t
  unfolding unat_eq_nat_uint by (subst nat_less_iff) simp_all

lemma sint_diff:
  fixes x y :: u32_t
  assumes "unat x < 2 ^ 31" and "unat y < 2 ^ 31"
  shows "sint (x - y) = uint x - uint y"
proof -
  have "uint x < 2 ^ 31" "uint y < 2 ^ 31" "0 \<le> uint x" "0 \<le> uint y"
    using assms unfolding u32_half by simp_all
  then have "sint (word_of_int (uint x - uint y) :: u32_t) = uint x - uint y" by (intro sint_of_small) linarith+
  then show ?thesis by simp
qed

lemma sint_nonneg: "0 \<le> sint x \<longleftrightarrow> unat x < 2 ^ 31" for x :: u32_t
proof
  assume "unat x < 2 ^ 31"
  then show "0 \<le> sint x" using sint_diff [of x 0] by simp
next
  assume nonneg: "0 \<le> sint x"
  have lt: "sint x < 2 ^ 31" using sint_lt [of x] by simp
  have "uint x = sint x mod 2 ^ 32" using uint_sint [of x] by (simp add: take_bit_eq_mod)
  then have "uint x = sint x" using mod_pos_pos_trivial [OF nonneg order_less_trans [OF lt]] by simp
  then show "unat x < 2 ^ 31" unfolding u32_half using lt by metis
qed

text \<open>The numbers less than half the space ahead of \<open>b\<close> are ordered by their distance from it.\<close>

lemma seq_order:
  assumes "unat (x - b) < 2 ^ 31" and "unat (y - b) < 2 ^ 31"
  shows "TCP_SEQ_LT x y \<longleftrightarrow> x - b < y - b" and "TCP_SEQ_LEQ x y \<longleftrightarrow> x - b \<le> y - b"
    and "TCP_SEQ_GT x y \<longleftrightarrow> y - b < x - b" and "TCP_SEQ_GEQ x y \<longleftrightarrow> y - b \<le> x - b"
proof -
  have "sint (x - y) = uint (x - b) - uint (y - b)"
    using sint_diff [OF assms] by simp
  then show "TCP_SEQ_LT x y \<longleftrightarrow> x - b < y - b" and "TCP_SEQ_LEQ x y \<longleftrightarrow> x - b \<le> y - b"
    and "TCP_SEQ_GT x y \<longleftrightarrow> y - b < x - b" and "TCP_SEQ_GEQ x y \<longleftrightarrow> y - b \<le> x - b"
    by (simp_all add: TCP_SEQ_LT_def TCP_SEQ_LEQ_def TCP_SEQ_GT_def TCP_SEQ_GEQ_def word_less_def word_le_def)
qed

lemma seq_between:
  assumes "unat (c - b) < 2 ^ 31"
  shows "TCP_SEQ_BETWEEN a b c \<longleftrightarrow> a - b \<le> c - b"
proof (cases "unat (a - b) < 2 ^ 31")
  case True
  then have "TCP_SEQ_GEQ a b" by (simp add: TCP_SEQ_GEQ_def sint_nonneg)
  then show ?thesis using seq_order(2) [OF True assms] by (simp add: TCP_SEQ_BETWEEN_def)
next
  case False
  then have "\<not> TCP_SEQ_GEQ a b" by (simp add: TCP_SEQ_GEQ_def sint_nonneg)
  then show ?thesis using False assms by (simp add: TCP_SEQ_BETWEEN_def word_le_nat_alt)
qed

section \<open>Options\<close>

text \<open>The options of a header and their encoding.\<close>

datatype tcp_opt = OptNop | OptMss u16_t | OptOther u8_t "u8_t list"

fun opt_ok :: "tcp_opt \<Rightarrow> bool" where
  "opt_ok (OptOther k v) \<longleftrightarrow> k \<notin> {0, 1, 2} \<and> length v + 2 < 256"
| "opt_ok _ \<longleftrightarrow> True"

fun opt_bytes :: "tcp_opt \<Rightarrow> u8_t list" where
  "opt_bytes OptNop = [1]"
| "opt_bytes (OptMss v) = [2, 4, ucast (drop_bit 8 v), ucast v]"
| "opt_bytes (OptOther k v) = k # of_nat (length v + 2) # v"

fun opt_mss :: "tcp_opt \<Rightarrow> u16_t \<Rightarrow> u16_t" where
  "opt_mss (OptMss v) m = (if v > TCP_MSS \<or> v = 0 then TCP_MSS else v)"
| "opt_mss _ m = m"

lemma u16_halves: "push_bit 8 (ucast (ucast (drop_bit 8 v) :: u8_t)) OR ucast (ucast v :: u8_t) = v" for v :: u16_t
  by (rule bit_word_eqI) (auto simp: bit_simps)

lemma opt_mss_bounds: "0 < opt_mss (OptMss v) m \<and> opt_mss (OptMss v) m \<le> TCP_MSS"
  by (auto simp: TCP_MSS_def word_neq_0_conv not_less)

text \<open>The steps of the parser, with the option read as a value.\<close>

lemma parseopt_end: "\<not> c < max_c \<or> d (opts + c) = 0 \<Longrightarrow> parseopt_loop d opts max_c c m = m"
  by (subst parseopt_loop.simps) auto

lemma parseopt_nop: "c < max_c \<Longrightarrow> d (opts + c) = 1 \<Longrightarrow> parseopt_loop d opts max_c c m = parseopt_loop d opts max_c (c + 1) m"
  by (subst parseopt_loop.simps) simp

lemma parseopt_mss:
  "c + 4 \<le> max_c \<Longrightarrow> d (opts + c) = 2 \<Longrightarrow> d (opts + c + 1) = 4 \<Longrightarrow>
    parseopt_loop d opts max_c c m = parseopt_loop d opts max_c (c + 4) (opt_mss (OptMss (push_bit 8 (ucast (d (opts + c + 2))) OR ucast (d (opts + c + 3)))) m)"
  by (subst parseopt_loop.simps) (simp add: Let_def)

lemma parseopt_other:
  "c < max_c \<Longrightarrow> d (opts + c) \<notin> {0, 1, 2} \<Longrightarrow> d (opts + c + 1) \<noteq> 0 \<Longrightarrow> parseopt_loop d opts max_c c m = parseopt_loop d opts max_c (c + unat (d (opts + c + 1))) m"
  by (subst parseopt_loop.simps) simp

lemma parseopt_bad:
  "c < max_c \<Longrightarrow> (if d (opts + c) = 2 then d (opts + c + 1) \<noteq> 4 \<or> max_c < c + 4 else d (opts + c) \<noteq> 1 \<and> d (opts + c + 1) = 0) \<Longrightarrow> parseopt_loop d opts max_c c m = m"
  by (subst parseopt_loop.simps) (auto split: if_splits)

lemma parseopt_loop_bounds: "parseopt_loop d opts max_c c m = m \<or> 0 < parseopt_loop d opts max_c c m \<and> parseopt_loop d opts max_c c m \<le> TCP_MSS"
proof (induction "max_c - c" arbitrary: c m rule: less_induct)
  case less
  consider (stop) "parseopt_loop d opts max_c c m = m"
    | (nop) "c < max_c" "d (opts + c) = 1"
    | (mss) "c + 4 \<le> max_c" "d (opts + c) = 2" "d (opts + c + 1) = 4"
    | (other) "c < max_c" "d (opts + c) \<notin> {0, 1, 2}" "d (opts + c + 1) \<noteq> 0"
    using parseopt_end [of c max_c d opts m] parseopt_bad [of c max_c d opts m]
    by (metis (no_types) empty_iff insert_iff not_less)
  then show ?case
  proof cases
    case stop
    then show ?thesis by simp
  next
    case nop
    then show ?thesis using less [of "c + 1" m] by (simp add: parseopt_nop)
  next
    case mss
    define v where "v = push_bit 8 (ucast (d (opts + c + 2))) OR (ucast (d (opts + c + 3)) :: u16_t)"
    have "parseopt_loop d opts max_c c m = parseopt_loop d opts max_c (c + 4) (opt_mss (OptMss v) m)"
      unfolding v_def by (rule parseopt_mss [OF mss])
    moreover have "max_c - (c + 4) < max_c - c" using mss(1) by simp
    ultimately show ?thesis using less [of "c + 4" "opt_mss (OptMss v) m"] opt_mss_bounds [of v m] by metis
  next
    case other
    then have "0 < unat (d (opts + c + 1))" by (simp add: unat_gt_0)
    then show ?thesis using less [of "c + unat (d (opts + c + 1))" m] other by (simp add: parseopt_other)
  qed
qed

text \<open>A list of encoded options, ended by the end of the header or by an end-of-list option.\<close>

lemma parseopt_fold:
  assumes "peek d (opts + c) n = concat (map opt_bytes os) @ rest" and "max_c = c + n" and "rest = [] \<or> hd rest = 0" and "list_all opt_ok os"
  shows "parseopt_loop d opts max_c c m = fold opt_mss os m"
  using assms
proof (induction os arbitrary: c n m)
  case Nil
  show ?case
  proof (cases rest)
    case Nil
    then have "n = 0" using Nil.prems by (metis append_Nil list.map(1) concat.simps(1) length_peek list.size(3))
    then show ?thesis using Nil.prems by (simp add: parseopt_end)
  next
    case (Cons r rs)
    then have "peek d (opts + c) n = 0 # rs" using Nil.prems by simp
    moreover from this have "0 < n" by (metis length_peek length_greater_0_conv list.distinct(1))
    ultimately have "d (opts + c) = 0" using peek_nth [of d "opts + c" n "0 # rs" 0] by simp
    then show ?thesis by (simp add: parseopt_end)
  qed
next
  case (Cons o1 os)
  let ?k = "length (opt_bytes o1)"
  have n: "?k \<le> n" using Cons.prems(1) by (metis length_append length_peek list.simps(9) concat.simps(2) append_assoc le_add1)
  have sp: "peek d (opts + c) n = peek d (opts + c) ?k @ peek d (opts + (c + ?k)) (n - ?k)" using n peek_add [of d "opts + c" ?k "n - ?k"] by (simp add: add.assoc)
  have here: "peek d (opts + c) ?k = opt_bytes o1" and later: "peek d (opts + (c + ?k)) (n - ?k) = concat (map opt_bytes os) @ rest"
    using Cons.prems(1) unfolding sp by (simp_all add: append_eq_append_conv)
  have at: "d (opts + c + i) = opt_bytes o1 ! i" if "i < ?k" for i using peek_nth [OF here that] .
  have ih: "parseopt_loop d opts max_c (c + ?k) m' = fold opt_mss os m'" for m'
    by (rule Cons.IH [OF later]) (use Cons.prems n in simp_all)
  show ?case
  proof (cases o1)
    case OptNop
    then show ?thesis using ih [of m] at [of 0] n Cons.prems(2) by (simp add: parseopt_nop)
  next
    case (OptMss v)
    then have "d (opts + c) = 2" "d (opts + c + 1) = 4" "d (opts + c + 2) = ucast (drop_bit 8 v)" "d (opts + c + 3) = ucast v"
      using at [of 0] at [of 1] at [of 2] at [of 3] by simp_all
    moreover have "c + 4 \<le> max_c" "c + ?k = c + 4" using n Cons.prems(2) OptMss by simp_all
    ultimately show ?thesis using parseopt_mss [of c max_c d opts m] ih [of "opt_mss (OptMss v) m"] OptMss
      by (simp add: u16_halves del: opt_mss.simps opt_bytes.simps)
  next
    case (OptOther k v)
    then have k: "k \<notin> {0, 1, 2}" "length v + 2 < 256" using Cons.prems(4) by simp_all
    have "d (opts + c) = k" "d (opts + c + 1) = of_nat (length v + 2)" using at [of 0] at [of 1] OptOther by simp_all
    moreover have u: "unat (of_nat (length v + 2) :: u8_t) = length v + 2" using k(2) by (simp only: unat_of_nat) simp
    moreover have "(of_nat (length v + 2) :: u8_t) \<noteq> 0" using u by (metis add_is_0 unat_0 zero_neq_numeral)
    ultimately show ?thesis using parseopt_other [of c max_c d opts m] k(1) ih [of m] n Cons.prems(2) OptOther by simp
  qed
qed

lemma mss_option_bytes: "le32 TCP_BUILD_MSS_OPTION = opt_bytes (OptMss TCP_MSS)"
  by code_simp

section \<open>The announced window\<close>

text \<open>Offsets from a number below everything that takes part, so that the order of sequence numbers is that of the offsets.\<close>

lemma near_offset:
  fixes n e :: u32_t
  assumes "unat (n - e) \<le> 0xffff \<or> unat (e - n) \<le> 0xffff"
  obtains N where "N < 0x30000" and "0x10000 < N" and "n = e - 0x20000 + of_nat N"
proof (cases "unat (n - e) \<le> 0xffff")
  case True
  have "n = e - 0x20000 + of_nat (0x20000 + unat (n - e))" by simp
  then show ?thesis using True that [of "0x20000 + unat (n - e)"] by simp
next
  case False
  then have le: "unat (e - n) \<le> 0xffff" using assms by simp
  then have "(of_nat (0x20000 - unat (e - n)) :: u32_t) = 0x20000 - (e - n)" by (subst of_nat_diff) simp_all
  then have "n = e - 0x20000 + of_nat (0x20000 - unat (e - n))" by simp
  then show ?thesis using le that [of "0x20000 - unat (e - n)"] by simp
qed

lemma offset_order:
  assumes "i < 2 ^ 31" and "j < 2 ^ 31"
  shows "TCP_SEQ_GEQ (b + of_nat i) (b + of_nat j) \<longleftrightarrow> j \<le> i" and "TCP_SEQ_GT (b + of_nat i) (b + of_nat j) \<longleftrightarrow> j < i"
    and "TCP_SEQ_LEQ (b + of_nat i) (b + of_nat j) \<longleftrightarrow> i \<le> j" and "TCP_SEQ_LT (b + of_nat i) (b + of_nat j) \<longleftrightarrow> i < j"
proof -
  have u: "unat (of_nat k :: u32_t) = k" if "k < 2 ^ 31" for k using that by (simp add: unat_of_nat)
  have i: "unat (b + of_nat i - b) < 2 ^ 31" and j: "unat (b + of_nat j - b) < 2 ^ 31" using assms by (simp_all add: u)
  show "TCP_SEQ_GEQ (b + of_nat i) (b + of_nat j) \<longleftrightarrow> j \<le> i" "TCP_SEQ_GT (b + of_nat i) (b + of_nat j) \<longleftrightarrow> j < i"
    "TCP_SEQ_LEQ (b + of_nat i) (b + of_nat j) \<longleftrightarrow> i \<le> j" "TCP_SEQ_LT (b + of_nat i) (b + of_nat j) \<longleftrightarrow> i < j"
    using assms u [of i] u [of j] by (simp_all add: seq_order [OF i j] word_le_nat_alt word_less_nat_alt)
qed

lemma u16_to_u32: "(ucast w :: u32_t) = of_nat (unat w)" for w :: u16_t
  by simp

lemma ann_wnd:
  assumes near: "unat (rcv_nxt t - rcv_ann_right_edge t) \<le> 0xffff \<or> unat (rcv_ann_right_edge t - rcv_nxt t) \<le> 0xffff"
    and upd: "tcp_update_rcv_ann_wnd t = (infl, t')"
  defines "e \<equiv> rcv_ann_right_edge t" and "room \<equiv> rcv_nxt t + ucast (rcv_wnd t)" and "edge \<equiv> rcv_nxt t + ucast (rcv_ann_wnd t')"
  shows "TCP_SEQ_GEQ edge e" and "if TCP_SEQ_GEQ room (e + ucast (min (TCP_WND div 2) (mss t))) then edge = room \<and> infl = edge - e else infl = 0 \<and> (TCP_SEQ_LEQ (rcv_nxt t) e \<longrightarrow> edge = e)"
    and "TCP_SEQ_LEQ e room \<Longrightarrow> rcv_ann_wnd t' \<le> rcv_wnd t" and "t' = t\<lparr>rcv_ann_wnd := rcv_ann_wnd t'\<rparr>"
proof -
  obtain N where N: "N < 0x30000" "0x10000 < N" "rcv_nxt t = e - 0x20000 + of_nat N"
    using near_offset [OF near] unfolding e_def by blast
  define b where "b = e - 0x20000"
  define W where "W = unat (rcv_wnd t)"
  define K where "K = unat (min (TCP_WND div 2) (mss t))"
  have W: "W < 65536" and K: "K \<le> 1072" unfolding W_def K_def by (simp_all add: TCP_WND_def min_def word_le_nat_alt)
  have n: "rcv_nxt t = b + of_nat N" and e: "e = b + of_nat 0x20000" unfolding b_def using N(3) by simp_all
  have room: "room = b + of_nat (N + W)" unfolding room_def n W_def u16_to_u32 by simp
  have k: "e + ucast (min (TCP_WND div 2) (mss t)) = b + of_nat (0x20000 + K)" unfolding e K_def u16_to_u32 by simp
  have g: "TCP_SEQ_GEQ room (e + ucast (min (TCP_WND div 2) (mss t))) \<longleftrightarrow> 0x20000 + K \<le> N + W"
    unfolding k room by (rule offset_order(1)) (use N W K in simp_all)
  have gs: "TCP_SEQ_GT (rcv_nxt t) e \<longleftrightarrow> 0x20000 < N" "TCP_SEQ_GEQ (rcv_nxt t) e \<longleftrightarrow> 0x20000 \<le> N" "TCP_SEQ_LEQ (rcv_nxt t) e \<longleftrightarrow> N \<le> 0x20000"
    "TCP_SEQ_GEQ room e \<longleftrightarrow> 0x20000 \<le> N + W" "TCP_SEQ_LEQ e room \<longleftrightarrow> 0x20000 \<le> N + W" "TCP_SEQ_GEQ e e"
    unfolding room n unfolding e using offset_order(1,2,3) [of N "0x20000" b] offset_order(1) [of "N + W" "0x20000" b] offset_order(3) [of "0x20000" "N + W" b]
      offset_order(1) [of "0x20000" "0x20000" b] N W by simp_all
  have up: "tcp_update_rcv_ann_wnd t = (if 0x20000 + K \<le> N + W then (room - e, t\<lparr>rcv_ann_wnd := rcv_wnd t\<rparr>)
      else if 0x20000 < N then (0, t\<lparr>rcv_ann_wnd := 0\<rparr>) else (0, t\<lparr>rcv_ann_wnd := ucast (e - rcv_nxt t)\<rparr>))"
    unfolding tcp_update_rcv_ann_wnd_def Let_def e_def [symmetric] room_def [symmetric] g gs(1) ..
  have c: "(of_nat 0x20000 - of_nat N :: u32_t) = of_nat (0x20000 - N)" if "N \<le> 0x20000" using that by (subst of_nat_diff) simp_all
  have d: "unat (ucast (e - rcv_nxt t) :: u16_t) = 0x20000 - N" if "N \<le> 0x20000"
  proof -
    have "e - rcv_nxt t = of_nat (0x20000 - N)" unfolding e n using c [OF that] by simp
    then have "unat (e - rcv_nxt t) = 0x20000 - N" by (simp only: unat_of_nat) simp
    then show ?thesis using N(2) by (simp add: unsigned_ucast_eq take_bit_eq_mod)
  qed
  consider (more) "0x20000 + K \<le> N + W" "infl = room - e" "t' = t\<lparr>rcv_ann_wnd := rcv_wnd t\<rparr>" "edge = room"
    | (none) "\<not> 0x20000 + K \<le> N + W" "0x20000 < N" "infl = 0" "t' = t\<lparr>rcv_ann_wnd := 0\<rparr>" "edge = rcv_nxt t"
    | (same) "\<not> 0x20000 + K \<le> N + W" "N \<le> 0x20000" "infl = 0" "t' = t\<lparr>rcv_ann_wnd := ucast (e - rcv_nxt t)\<rparr>"
  proof (cases "0x20000 + K \<le> N + W")
    case True
    then have "infl = room - e" "t' = t\<lparr>rcv_ann_wnd := rcv_wnd t\<rparr>" using up upd by simp_all
    then show thesis using more [OF True] unfolding edge_def room_def by simp
  next
    case False
    then have r: "(infl, t') = (if 0x20000 < N then (0, t\<lparr>rcv_ann_wnd := 0\<rparr>) else (0, t\<lparr>rcv_ann_wnd := ucast (e - rcv_nxt t)\<rparr>))" using up upd by simp
    show thesis
    proof (cases "0x20000 < N")
      case True
      then show thesis using none [OF False True] r unfolding edge_def by simp
    next
      case le: False
      then show thesis using same [OF False] r by simp
    qed
  qed
  then have all: "TCP_SEQ_GEQ edge e \<and> (if TCP_SEQ_GEQ room (e + ucast (min (TCP_WND div 2) (mss t))) then edge = room \<and> infl = edge - e else infl = 0 \<and> (TCP_SEQ_LEQ (rcv_nxt t) e \<longrightarrow> edge = e))
    \<and> (TCP_SEQ_LEQ e room \<longrightarrow> rcv_ann_wnd t' \<le> rcv_wnd t) \<and> t' = t\<lparr>rcv_ann_wnd := rcv_ann_wnd t'\<rparr>"
  proof cases
    case more
    then show ?thesis unfolding g gs more(4) using N W K by (simp add: gs)
  next
    case none
    then show ?thesis unfolding g gs none(3,5) by simp
  next
    case same
    have "edge = rcv_nxt t + of_nat (0x20000 - N)" unfolding edge_def same(4) u16_to_u32 using d [OF same(2)] by simp
    then have ed: "edge = e" unfolding e n c [OF same(2), symmetric] by simp
    have "rcv_ann_wnd t' \<le> rcv_wnd t" if "0x20000 \<le> N + W" using d [OF same(2)] that same(4) unfolding W_def by (simp add: word_le_nat_alt)
    then show ?thesis unfolding g gs same(3) ed using same(1,4) gs(6) by simp
  qed
  then show "TCP_SEQ_GEQ edge e" "t' = t\<lparr>rcv_ann_wnd := rcv_ann_wnd t'\<rparr>"
    "if TCP_SEQ_GEQ room (e + ucast (min (TCP_WND div 2) (mss t))) then edge = room \<and> infl = edge - e else infl = 0 \<and> (TCP_SEQ_LEQ (rcv_nxt t) e \<longrightarrow> edge = e)" by simp_all
  show "TCP_SEQ_LEQ e room \<Longrightarrow> rcv_ann_wnd t' \<le> rcv_wnd t" using all by simp
qed

section \<open>Ports and binding\<close>

definition tcp_live :: "'a tcp_stack_scheme \<Rightarrow> bool" where
  "tcp_live s \<longleftrightarrow> list_all (\<lambda>p. tcp_tab s p \<noteq> None) (tcp_active_pcbs s @ tcp_tw_pcbs s @ tcp_bound_pcbs s) \<and> list_all (\<lambda>p. tcp_listen_tab s p \<noteq> None) (tcp_listen_pcbs s)"

definition has_pcb :: "('p \<Rightarrow> bool) \<Rightarrow> (addr \<rightharpoonup> 'p) \<Rightarrow> addr list \<Rightarrow> bool" where
  "has_pcb P tab pcbs \<longleftrightarrow> list_ex (\<lambda>p. P (the (tab p))) pcbs"

lemma pcb_exists_ok: "list_all (\<lambda>p. tab p \<noteq> None) pcbs \<Longrightarrow> pcb_exists P tab pcbs = Some (has_pcb P tab pcbs)"
  by (induction pcbs) (auto simp: has_pcb_def)

text \<open>A local port that a connection, a connection in \<open>TIME_WAIT\<close> or a listener has.\<close>

definition tcp_port_taken :: "u16_t \<Rightarrow> 'a tcp_stack_scheme \<Rightarrow> bool" where
  "tcp_port_taken port s \<longleftrightarrow> has_pcb (\<lambda>t. t_local_port t = port) (tcp_tab s) (tcp_active_pcbs s @ tcp_tw_pcbs s)
     \<or> has_pcb (\<lambda>l. l_local_port l = port) (tcp_listen_tab s) (tcp_listen_pcbs s)"

definition tcp_ports :: "'a tcp_stack_scheme \<Rightarrow> u16_t list" where
  "tcp_ports s = map (\<lambda>p. t_local_port (the (tcp_tab s p))) (tcp_active_pcbs s @ tcp_tw_pcbs s) @ map (\<lambda>p. l_local_port (the (tcp_listen_tab s p))) (tcp_listen_pcbs s)"

lemma tcp_port_taken_ports: "tcp_port_taken port s \<longleftrightarrow> port \<in> set (tcp_ports s)"
  by (auto simp: tcp_port_taken_def tcp_ports_def has_pcb_def list_ex_iff)

lemma tcp_port_used_ok: "tcp_live s \<Longrightarrow> tcp_port_used port s = Some (tcp_port_taken port s)"
  by (auto simp: tcp_port_used_def tcp_live_def pcb_exists_ok tcp_port_taken_def has_pcb_def)

lemma tcp_live_port [simp]:
  "tcp_live (s\<lparr>tcp_port := q\<rparr>) = tcp_live s" "tcp_port_taken port (s\<lparr>tcp_port := q\<rparr>) = tcp_port_taken port s"
  by (simp_all add: tcp_live_def tcp_port_taken_def)

definition in_port_range :: "u16_t \<Rightarrow> bool" where
  "in_port_range port \<longleftrightarrow> TCP_LOCAL_PORT_RANGE_START \<le> port \<and> port \<le> TCP_LOCAL_PORT_RANGE_END"

lemma in_port_range_unat: "in_port_range port \<longleftrightarrow> 4096 \<le> unat port \<and> unat port \<le> 32767"
  by (simp add: in_port_range_def TCP_LOCAL_PORT_RANGE_START_def TCP_LOCAL_PORT_RANGE_END_def word_le_nat_alt)

lemma tcp_next_port_unat:
  assumes "in_port_range port"
  shows "unat (tcp_next_port port) = (if unat port = 32767 then 4096 else unat port + 1)"
proof -
  have "unat (port + 1) = unat port + 1" using assms unfolding in_port_range_unat by (simp add: unat_word_ariths)
  then show ?thesis using assms unfolding in_port_range_unat tcp_next_port_def TCP_LOCAL_PORT_RANGE_START_def TCP_LOCAL_PORT_RANGE_END_def
    by (auto simp: word_less_nat_alt)
qed

lemma free_port_exists:
  assumes "length ports < 28672"
  shows "\<exists>q. in_port_range q \<and> q \<notin> set ports"
proof (rule ccontr)
  assume none: "\<not> ?thesis"
  then have "\<forall>q. UDP_LOCAL_PORT_RANGE_START \<le> q \<and> q < UDP_LOCAL_PORT_RANGE_END \<longrightarrow> q \<in> id ` set (removeAll 32767 ports)"
    by (auto simp: in_port_range_def udp_consts TCP_LOCAL_PORT_RANGE_START_def TCP_LOCAL_PORT_RANGE_END_def)
  from ports_pigeonhole [OF this] have "28671 \<le> length (removeAll 32767 ports)" .
  moreover have "in_port_range 32767" by (simp add: in_port_range_unat)
  then have "32767 \<in> set ports" using none by blast
  then have "length (removeAll 32767 ports) < length ports" by (rule length_removeAll_less)
  ultimately show False using assms by simp
qed

text \<open>The number of steps from one port to another, around the range.\<close>

definition port_distance :: "u16_t \<Rightarrow> u16_t \<Rightarrow> nat" where
  "port_distance p q = (if unat p < unat q then unat q - unat p else unat q + 28672 - unat p)"

lemma port_distance_step:
  assumes "in_port_range p" and "in_port_range q" and "tcp_next_port p \<noteq> q"
  shows "port_distance (tcp_next_port p) q < port_distance p q"
proof -
  have "unat (tcp_next_port p) \<noteq> unat q" using assms(3) by (simp add: word_unat_eq_iff)
  then show ?thesis using assms(1,2) tcp_next_port_unat [OF assms(1)] unfolding in_port_range_unat port_distance_def by auto
qed

lemma tcp_new_port_ok:
  fixes s :: "'a tcp_stack_scheme"
  assumes "tcp_live s" and "in_port_range (tcp_port s)" and "in_port_range q" and "\<not> tcp_port_taken q s"
  shows "\<exists>port. tcp_new_port s = Some (port, s\<lparr>tcp_port := port\<rparr>) \<and> in_port_range port \<and> \<not> tcp_port_taken port s"
  using assms
proof (induction "port_distance (tcp_port s) q" arbitrary: s rule: less_induct)
  case less
  let ?p = "tcp_next_port (tcp_port s)"
  let ?s = "s\<lparr>tcp_port := ?p\<rparr>"
  have range: "in_port_range ?p" using tcp_next_port_unat [OF less.prems(2)] less.prems(2) unfolding in_port_range_unat by auto
  have step: "tcp_new_port s = (if tcp_port_taken ?p s then tcp_new_port ?s else Some (?p, ?s))"
    by (subst tcp_new_port.simps) (simp add: tcp_port_used_ok less.prems(1))
  show ?case
  proof (cases "tcp_port_taken ?p s")
    case True
    then have "port_distance (tcp_port ?s) q < port_distance (tcp_port s) q"
      using port_distance_step [OF less.prems(2,3)] less.prems(4) by auto
    then show ?thesis using less.hyps [of ?s] less.prems range step True by simp
  next
    case False
    then show ?thesis using step range by auto
  qed
qed

lemma tcp_new_port_free:
  fixes s :: "'a tcp_stack_scheme"
  assumes "tcp_live s" and "in_port_range (tcp_port s)" and "length (tcp_active_pcbs s) + length (tcp_tw_pcbs s) + length (tcp_listen_pcbs s) < 28672"
  shows "\<exists>port. tcp_new_port s = Some (port, s\<lparr>tcp_port := port\<rparr>) \<and> in_port_range port \<and> \<not> tcp_port_taken port s"
proof -
  have "length (tcp_ports s) < 28672" using assms(3) by (simp add: tcp_ports_def)
  then obtain q where "in_port_range q" "\<not> tcp_port_taken q s" using free_port_exists unfolding tcp_port_taken_ports by blast
  then show ?thesis using tcp_new_port_ok [OF assms(1,2)] by blast
qed

text \<open>What stands in the way of binding to an address and a port.\<close>

definition tcp_addr_taken :: "u32_t option \<Rightarrow> u16_t \<Rightarrow> 'a tcp_stack_scheme \<Rightarrow> bool" where
  "tcp_addr_taken ipaddr port s \<longleftrightarrow> has_pcb (\<lambda>l. l_local_port l = port \<and> addr_clash (l_local_ip l) ipaddr) (tcp_listen_tab s) (tcp_listen_pcbs s)
     \<or> has_pcb (\<lambda>t. t_local_port t = port \<and> addr_clash (t_local_ip t) ipaddr) (tcp_tab s) (tcp_active_pcbs s @ tcp_bound_pcbs s)
     \<or> has_pcb (\<lambda>t. t_local_port t = port \<and> ipaddr = Some (t_local_ip t)) (tcp_tab s) (tcp_tw_pcbs s)"

lemma tw_clash_ok:
  assumes "list_all (\<lambda>p. tab p \<noteq> None) pcbs" and "ipaddr = None \<Longrightarrow> \<not> has_pcb (\<lambda>t. t_local_port t = port) tab pcbs"
  shows "tw_clash port ipaddr tab pcbs = Some (has_pcb (\<lambda>t. t_local_port t = port \<and> ipaddr = Some (t_local_ip t)) tab pcbs)"
  using assms by (induction pcbs) (cases ipaddr; auto simp: has_pcb_def)+

lemma tcp_addr_used_ok:
  assumes "tcp_live s" and "ipaddr = None \<Longrightarrow> \<not> has_pcb (\<lambda>t. t_local_port t = port) (tcp_tab s) (tcp_tw_pcbs s)"
  shows "tcp_addr_used ipaddr port s = Some (tcp_addr_taken ipaddr port s)"
proof -
  have l: "list_all (\<lambda>p. tcp_listen_tab s p \<noteq> None) (tcp_listen_pcbs s)" "list_all (\<lambda>p. tcp_tab s p \<noteq> None) (tcp_active_pcbs s)"
    "list_all (\<lambda>p. tcp_tab s p \<noteq> None) (tcp_bound_pcbs s)" "list_all (\<lambda>p. tcp_tab s p \<noteq> None) (tcp_tw_pcbs s)"
    using assms(1) by (simp_all add: tcp_live_def)
  have w: "tw_clash port ipaddr (tcp_tab s) (tcp_tw_pcbs s) = Some (has_pcb (\<lambda>t. t_local_port t = port \<and> ipaddr = Some (t_local_ip t)) (tcp_tab s) (tcp_tw_pcbs s))"
    by (rule tw_clash_ok [OF l(4) assms(2)])
  show ?thesis unfolding tcp_addr_used_def tcp_addr_taken_def pcb_exists_ok [OF l(1)] pcb_exists_ok [OF l(2)] pcb_exists_ok [OF l(3)] w
    by (simp add: has_pcb_def)
qed

lemma tcp_addr_taken_port [simp]: "tcp_addr_taken ipaddr q (s\<lparr>tcp_port := p\<rparr>) = tcp_addr_taken ipaddr q s"
  by (simp add: tcp_addr_taken_def)

lemma tcp_bind_ok:
  fixes s :: "'a tcp_stack_scheme"
  assumes live: "tcp_live s" and t: "tcp_tab s pcb = Some t" "state t = CLOSED" and new: "pcb \<notin> set (tcp_bound_pcbs s)"
    and tw: "ipaddr = None \<Longrightarrow> \<not> has_pcb (\<lambda>t. t_local_port t = q) (tcp_tab s) (tcp_tw_pcbs s)"
    and q: "(if port = 0 then tcp_new_port s else Some (port, s)) = Some (q, s1)" and s1: "s1 = s\<lparr>tcp_port := r\<rparr>"
  shows "tcp_bind pcb ipaddr port s = Some (if tcp_addr_taken ipaddr q s then (ERR_USE, s1)
    else (ERR_OK, s1\<lparr>tcp_tab := (tcp_tab s)(pcb \<mapsto> t\<lparr>t_local_ip := (case ipaddr of Some i \<Rightarrow> if ip_addr_isany i then t_local_ip t else i | None \<Rightarrow> t_local_ip t), t_local_port := q\<rparr>),
            tcp_bound_pcbs := pcb # tcp_bound_pcbs s\<rparr>))"
proof -
  have "tcp_addr_used ipaddr q s1 = Some (tcp_addr_taken ipaddr q s)" using tcp_addr_used_ok [of s1 ipaddr q] live tw s1 by simp
  then show ?thesis using t new q s1 by (simp add: tcp_bind_def mod_tcp_def tcp_reg_def)
qed

section \<open>Queues of segments\<close>

text \<open>
  A queue in the order of its sequence numbers. They are compared by their distance from \<open>b\<close>, the last acknowledged
  number in a connection; all segments are less than half the space ahead of it.
\<close>

definition seg_seqno :: "'a tcp_stack_scheme \<Rightarrow> addr \<Rightarrow> u32_t" where
  "seg_seqno s seg = hdr_seqno (bytes s) (seg_tcphdr (the (tcp_segs s seg)))"

definition seg_ahead :: "u32_t \<Rightarrow> 'a tcp_stack_scheme \<Rightarrow> addr \<Rightarrow> bool" where
  "seg_ahead b s seg \<longleftrightarrow> tcp_segs s seg \<noteq> None \<and> unat (seg_seqno s seg - b) < 2 ^ 31"

definition seg_queue :: "u32_t \<Rightarrow> 'a tcp_stack_scheme \<Rightarrow> addr list \<Rightarrow> bool" where
  "seg_queue b s q \<longleftrightarrow> list_all (seg_ahead b s) q \<and> sorted_wrt (\<lambda>g h. seg_seqno s g - b \<le> seg_seqno s h - b) q"

lemma seg_insert_ok:
  assumes "seg_queue b s q" and "seg_ahead b s seg"
  shows "\<exists>r. seg_insert (seg_seqno s seg) seg q s = Some r \<and> seg_queue b s r \<and> mset r = add_mset seg (mset q)"
  using assms(1)
proof (induction q)
  case Nil
  then show ?case using assms(2) by (simp add: seg_queue_def)
next
  case (Cons cur segs)
  let ?k = "\<lambda>g. seg_seqno s g - b"
  obtain c where c: "tcp_segs s cur = Some c" using Cons.prems by (auto simp: seg_queue_def seg_ahead_def)
  have lt: "TCP_SEQ_LT (hdr_seqno (bytes s) (seg_tcphdr c)) (seg_seqno s seg) \<longleftrightarrow> ?k cur < ?k seg"
    using seq_order(1) [of "seg_seqno s cur" b "seg_seqno s seg"] Cons.prems assms(2) c by (simp add: seg_queue_def seg_ahead_def seg_seqno_def)
  have q: "seg_queue b s segs" "seg_ahead b s cur" "\<forall>g\<in>set segs. ?k cur \<le> ?k g" using Cons.prems by (auto simp: seg_queue_def)
  show ?case
  proof (cases "?k cur < ?k seg")
    case True
    obtain r where r: "seg_insert (seg_seqno s seg) seg segs s = Some r" "seg_queue b s r" "mset r = add_mset seg (mset segs)" using Cons.IH [OF q(1)] by blast
    have "set r = insert seg (set segs)" using r(3) by (metis set_mset_add_mset_insert set_mset_mset)
    then have "\<forall>g\<in>set r. ?k cur \<le> ?k g" using q(3) True by (auto simp: order_less_imp_le)
    then have "seg_queue b s (cur # r)" using r(2) q(2) by (simp add: seg_queue_def)
    then show ?thesis using c lt True r by simp
  next
    case False
    then have le: "?k seg \<le> ?k cur" by simp
    then have "\<forall>g\<in>set (cur # segs). ?k seg \<le> ?k g" using q(3) order_trans [OF le] by auto
    then have "seg_queue b s (seg # cur # segs)" using Cons.prems assms(2) by (simp add: seg_queue_def)
    then show ?thesis using c lt False by simp
  qed
qed

lemma seg_append_ok:
  assumes q: "seg_queue b s q" "q \<noteq> []" and g: "seg_ahead b s seg" "\<not> TCP_SEQ_LT (seg_seqno s seg) (seg_seqno s (last q))"
  shows "seg_queue b s (q @ [seg])"
proof -
  let ?k = "\<lambda>g. seg_seqno s g - b"
  have l: "last q \<in> set q" using q(2) by simp
  then have "seg_ahead b s (last q)" using q(1) by (auto simp: seg_queue_def list_all_iff)
  then have le: "?k (last q) \<le> ?k seg" using seq_order(1) [of "seg_seqno s seg" b "seg_seqno s (last q)"] g by (auto simp: seg_ahead_def)
  have "?k h \<le> ?k (last q)" if "h \<in> set q" for h
  proof -
    have "sorted_wrt (\<lambda>g h. ?k g \<le> ?k h) (butlast q @ [last q])" using q by (simp add: seg_queue_def)
    then have "\<forall>h\<in>set (butlast q). ?k h \<le> ?k (last q)" by (simp only: sorted_wrt_append) simp
    moreover have "set q = insert (last q) (set (butlast q))" using append_butlast_last_id [OF q(2)] by (metis Un_insert_right list.simps(15) set_append sup_bot.right_neutral empty_set)
    ultimately show ?thesis using that by auto
  qed
  then have "\<forall>h\<in>set q. ?k h \<le> ?k seg" using le order_trans by blast
  then show ?thesis using q(1) g(1) by (simp add: seg_queue_def sorted_wrt_append)
qed

lemma tcp_rexmit_ok:
  fixes s :: "'a tcp_stack_scheme"
  assumes t: "tcp_tab s pcb = Some t" "unacked t = seg # segs" and q: "seg_queue b s (unacked t)" "seg_queue b s (unsent t)"
  shows "\<exists>r. tcp_rexmit pcb s = Some (s\<lparr>tcp_tab := (tcp_tab s)(pcb \<mapsto> t\<lparr>unacked := segs, unsent := r, nrtx := nrtx t + 1, rttest := 0\<rparr>)\<rparr>)
    \<and> seg_queue b s segs \<and> seg_queue b s r \<and> mset r = add_mset seg (mset (unsent t))"
proof -
  have a: "seg_ahead b s seg" "seg_queue b s segs" using q(1) t(2) by (simp_all add: seg_queue_def)
  obtain r where r: "seg_insert (seg_seqno s seg) seg (unsent t) s = Some r" "seg_queue b s r" "mset r = add_mset seg (mset (unsent t))"
    using seg_insert_ok [OF q(2) a(1)] by blast
  obtain x where "tcp_segs s seg = Some x" using a(1) by (auto simp: seg_ahead_def)
  then have "tcp_rexmit pcb s = Some (s\<lparr>tcp_tab := (tcp_tab s)(pcb \<mapsto> t\<lparr>unacked := segs, unsent := r, nrtx := nrtx t + 1, rttest := 0\<rparr>)\<rparr>)"
    using t r(1) by (simp add: tcp_rexmit_def seg_seqno_def mod_tcp_def)
  then show ?thesis using a(2) r(2,3) by blast
qed

lemma tcp_output_unacked_ok:
  fixes s :: "'a tcp_stack_scheme"
  assumes t: "tcp_tab s pcb = Some t" and q: "seg_queue b s (unacked t)" and g: "seg_ahead b s seg" and l: "0 < TCP_TCPLEN (the (tcp_segs s seg)) (bytes s)"
  shows "\<exists>r. tcp_output_unacked seg pcb s = Some (s\<lparr>tcp_tab := (tcp_tab s)(pcb \<mapsto> t\<lparr>unacked := r\<rparr>)\<rparr>) \<and> seg_queue b s r \<and> mset r = add_mset seg (mset (unacked t))"
proof -
  obtain x where x: "tcp_segs s seg = Some x" using g by (auto simp: seg_ahead_def)
  show ?thesis
  proof (cases "unacked t = []")
    case True
    then show ?thesis using t x l g by (simp add: tcp_output_unacked_def mod_tcp_def seg_queue_def)
  next
    case False
    then have "seg_ahead b s (last (unacked t))" using q by (auto simp: seg_queue_def list_all_iff)
    then obtain u where u: "tcp_segs s (last (unacked t)) = Some u" by (auto simp: seg_ahead_def)
    let ?lt = "TCP_SEQ_LT (seg_seqno s seg) (seg_seqno s (last (unacked t)))"
    obtain r where r: "seg_insert (seg_seqno s seg) seg (unacked t) s = Some r" "seg_queue b s r" "mset r = add_mset seg (mset (unacked t))"
      using seg_insert_ok [OF q g] by blast
    have "tcp_output_unacked seg pcb s = Some (s\<lparr>tcp_tab := (tcp_tab s)(pcb \<mapsto> t\<lparr>unacked := if ?lt then r else unacked t @ [seg]\<rparr>)\<rparr>)"
      using t x l u False r(1) by (simp add: tcp_output_unacked_def mod_tcp_def seg_seqno_def)
    moreover have "seg_queue b s (if ?lt then r else unacked t @ [seg])" using seg_append_ok [OF q False g] r(2) by simp
    moreover have "mset (if ?lt then r else unacked t @ [seg]) = add_mset seg (mset (unacked t))" using r(3) by simp
    ultimately show ?thesis by blast
  qed
qed

section \<open>A header and its checksum\<close>

definition tcp_header :: "u16_t \<Rightarrow> u16_t \<Rightarrow> u32_t \<Rightarrow> u32_t \<Rightarrow> u8_t \<Rightarrow> u16_t \<Rightarrow> u16_t \<Rightarrow> u8_t list" where
  "tcp_header src dest sq ack f wnd c = le16 (htons src) @ le16 (htons dest) @ le32 (htonl sq) @ le32 (htonl ack) @ le16 (htons (0x5000 OR ucast f)) @ le16 (htons wnd) @ le16 c @ le16 0"

lemma bit_htons: "bit (htons v) n \<longleftrightarrow> (if n < 8 then bit v (8 + n) else n < 16 \<and> bit v (n - 8))"
  unfolding htons_def byte_masks16 by (auto simp: bit_simps dest: bit_imp_le_length)

lemma htons_bits [simp]: "htons (v OR w) = htons v OR htons w" "htons (v AND w) = htons v AND htons w"
  by (rule bit_word_eqI; simp add: bit_htons bit_simps)+

lemma flags_set:
  assumes "f AND 0x3f = f"
  shows "TCPH_FLAGS (TCPH_FLAGS_SET h f d) h = f"
proof -
  have "ld16 (TCPH_FLAGS_SET h f d) (h + 12) = (ld16 d (h + 12) AND htons (NOT TCP_FLAGS)) OR htons (ucast f)"
    unfolding TCPH_FLAGS_SET_def by (rule ld16_le16) (simp add: le16_ld16 peek_poke_at length_le16)
  then have "TCPH_FLAGS (TCPH_FLAGS_SET h f d) h = ucast ((htons (ld16 d (h + 12)) AND NOT TCP_FLAGS OR ucast f) AND TCP_FLAGS)"
    by (simp add: TCPH_FLAGS_def ntohs_def)
  also have "\<dots> = f AND 0x3f"
    by (rule bit_word_eqI) (auto simp: bit_simps TCP_FLAGS_def)
  finally show ?thesis using assms by simp
qed

lemma peek_20: "peek d a 20 = peek d a 2 @ peek d (a + 2) 2 @ peek d (a + 4) 4 @ peek d (a + 8) 4 @ peek d (a + 12) 2 @ peek d (a + 14) 2 @ peek d (a + 16) 2 @ peek d (a + 18) 2"
proof -
  have "peek d a (2 + (2 + (4 + (4 + (2 + (2 + (2 + 2))))))) = peek d a 2 @ peek d (a + 2) 2 @ peek d (a + 4) 4 @ peek d (a + 8) 4 @ peek d (a + 12) 2 @ peek d (a + 14) 2 @ peek d (a + 16) 2 @ peek d (a + 18) 2"
    unfolding peek_add by (simp add: add.assoc del: add_2_eq_Suc')
  then show ?thesis by simp
qed

lemma tcp_header_bytes_peek:
  assumes "f AND 0x3f = f"
  shows "peek (tcp_header_bytes h src dest (htonl sq) ack f wnd 5 d) h 20 = tcp_header src dest sq ack f wnd 0"
    and "writes_within h 20 d (tcp_header_bytes h src dest (htonl sq) ack f wnd 5 d)"
proof -
  define d1 where "d1 = poke (h + 8) (le32 (htonl ack)) (poke (h + 4) (le32 (htonl sq)) (poke (h + 2) (le16 (htons dest)) (poke h (le16 (htons src)) d)))"
  define d2 where "d2 = TCPH_FLAGS_SET h f d1"
  define d3 where "d3 = poke (h + 18) (le16 0) (poke (h + 14) (le16 (htons wnd)) d2)"
  have "peek d3 (h + 12) 2 = peek d2 (h + 12) 2" unfolding d3_def by (simp add: peek_poke_apart length_le16)
  then have "ld16 d3 (h + 12) = ld16 d2 (h + 12)" by (metis le16_ld16 ld16_le16)
  then have fl: "TCPH_FLAGS d3 h = f" using flags_set [OF assms, of h d1] by (simp add: TCPH_FLAGS_def d2_def)
  have e: "tcp_header_bytes h src dest (htonl sq) ack f wnd 5 d = poke (h + 16) (le16 0) (poke (h + 12) (le16 (htons (push_bit 12 5 OR ucast f))) d3)"
    unfolding tcp_header_bytes_def Let_def d1_def [symmetric] d2_def [symmetric] d3_def [symmetric] TCPH_HDRLEN_SET_def fl ..
  show "peek (tcp_header_bytes h src dest (htonl sq) ack f wnd 5 d) h 20 = tcp_header src dest sq ack f wnd 0"
    unfolding e peek_20 tcp_header_def d3_def d2_def TCPH_FLAGS_SET_def d1_def by (simp add: peek_poke_apart peek_poke_at length_le16 length_le32)
  show "writes_within h 20 d (tcp_header_bytes h src dest (htonl sq) ack f wnd 5 d)"
    unfolding e d3_def d2_def TCPH_FLAGS_SET_def d1_def by (simp add: writes_within_poke length_le16 length_le32)
qed

text \<open>The field at offset 16 of a segment filled with the checksum of the segment with the field zero.\<close>

definition with_chksum :: "u16_t \<Rightarrow> u8_t list \<Rightarrow> u8_t list" where
  "with_chksum c g = take 16 g @ le16 c @ drop 18 g"

lemma with_chksum_valid:
  assumes "even (length w)" and "18 \<le> length g" and "c = chksum_of (w @ with_chksum 0 g)"
  shows "chksum_of (w @ with_chksum c g) = 0"
proof -
  let ?S = "bsum (w @ with_chksum 0 g)"
  have S: "bsum (w @ with_chksum c g) = ?S + unat c"
    using assms(1,2) by (simp add: with_chksum_def bsum_append_even length_le16 bsum_le16)
  let ?w = "of_nat (ones_rep ?S) :: u16_t"
  have "unat ?w = ones_rep ?S" using ones_rep_le [of ?S] by (simp add: unat_of_nat)
  then have c: "unat c = 65535 - ones_rep ?S" using unat_not [of ?w] assms(3) by (simp add: chksum_of_def)
  have "ones_eq (?S + unat c) (ones_rep ?S + unat c)" by (rule ones_eq_add [OF ones_eq_sym [OF ones_eq_ones_rep] ones_eq_refl])
  then have "ones_rep (?S + unat c) = ones_rep (ones_rep ?S + unat c)" by (rule ones_rep_eq)
  also have "ones_rep ?S + unat c = 65535" using c ones_rep_le [of ?S] by simp
  finally show ?thesis unfolding chksum_of_zero S by (simp add: ones_rep_def)
qed

section \<open>Sending a segment of its own\<close>

text \<open>What became of the segment \<open>g\<close>: it was handed to the link layer with a valid checksum, or there was no route.\<close>

definition segment_sent :: "u32_t \<Rightarrow> u32_t \<Rightarrow> u8_t \<Rightarrow> u8_t \<Rightarrow> u8_t list \<Rightarrow> netif \<Rightarrow> 'a ip_state_scheme \<Rightarrow> 'a ip_state_scheme \<Rightarrow> bool" where
  "segment_sent src dest ttl tos g n s s' \<longleftrightarrow>
     (if route_of dest s = NULL then tx s' = tx s \<and> arp_table s' = arp_table s
      else \<exists>c e. chksum_of (pseudo_header src dest 6 (of_nat (length g)) @ with_chksum c g) = 0
        \<and> datagram_sent (route_of dest s) n dest (ip_hdr (src_addr n src) dest ttl tos 6 (length g + 20) (ip_id s) @ with_chksum c g) s e s')"

lemma with_chksum_peek:
  assumes "18 \<le> n"
  shows "peek (poke (a + 16) (le16 c) d) a n = with_chksum c (peek d a n)"
proof -
  have n: "n = 16 + (2 + (n - 18))" using assms by simp
  have "peek (poke (a + 16) (le16 c) d) a (16 + (2 + (n - 18))) = peek d a 16 @ le16 c @ peek d (a + 18) (n - 18)"
    unfolding peek_add by (simp add: peek_poke_apart peek_poke_at length_le16 add.assoc add.commute [of 18 a])
  moreover have "take 16 (peek d a n) = peek d a 16" "drop 18 (peek d a n) = peek d (a + 18) (n - 18)"
    using assms take_peek [of 16 n d a] peek_add [of d a 18 "n - 18"] by (simp_all add: add.commute)
  ultimately show ?thesis unfolding with_chksum_def n [symmetric] by simp
qed

lemma tcp_send_packet_ok:
  fixes s :: "'a ip_state_scheme" and d0 :: "addr \<Rightarrow> u8_t"
  assumes ok: "link_ok sizes base s" and io: "ifs_ok s" and own: "own_packet s q [q]" and b: "pbufs s q = Some b" "20 \<le> len b" "len b \<le> 1480"
    and room: "q + SIZEOF_STRUCT_PBUF + 34 \<le> payload b" and g: "pbuf_data s q = with_chksum 0 g"
    and n: "route_of dest s \<noteq> NULL \<Longrightarrow> eth_netif (netifs s) (route_of dest s) n \<and> nif_mtu n = 1500"
  shows "\<exists>s' c. inet_chksum_pseudo q src dest IP_PROTO_TCP (of_nat (tot_len b)) s = Some c
    \<and> do { (e, s) \<leftarrow> ip_output q src dest ttl tos IP_PROTO_TCP (s\<lparr>bytes := poke (payload b + 16) (le16 c) (bytes s)\<rparr>); (k, s) \<leftarrow> pbuf_free q s; Some s } = Some s'
    \<and> link_ok sizes base s' \<and> ip_same s s' \<and> kept {q} s s' \<and> segment_sent src dest ttl tos g n s s'"
proof -
  have data: "chain_data s [q] = peek (bytes s) (payload b) (len b)" using b by (simp add: pbuf_data_peek)
  have dg: "peek (bytes s) (payload b) (len b) = with_chksum 0 g" using g b by (simp add: pbuf_data_peek)
  have tl: "tot_len b = len b" using own_head [OF own] b by (auto simp: plen_simps)
  have lg: "length g = len b"
  proof -
    have "length (with_chksum 0 g) = len b" using dg by (metis length_peek)
    then show ?thesis using b(2) by (auto simp: with_chksum_def length_le16)
  qed
  define w where "w = pseudo_header src dest 6 (of_nat (len b))"
  define c where "c = chksum_of (w @ with_chksum 0 g)"
  have ck: "inet_chksum_pseudo q src dest IP_PROTO_TCP (of_nat (tot_len b)) s = Some c"
    using inet_chksum_pseudo_ok [OF own_pchain [OF own] own_lens [OF ok own], of 0 src dest 6 "of_nat (len b)"] data dg tl
    by (simp add: chksum_of_def c_def w_def IP_PROTO_TCP_def)
  have valid: "chksum_of (w @ with_chksum c g) = 0" by (rule with_chksum_valid [OF _ _ c_def]) (use lg b(2) in \<open>simp_all add: w_def length_pseudo_header\<close>)
  let ?d = "poke (payload b + 16) (le16 c) (bytes s)"
  define s2 where "s2 = s\<lparr>bytes := ?d\<rparr>"
  have wr: "writes_within (payload b) (len b) (bytes s) ?d" using b(2) by (simp add: writes_within_poke length_le16)
  note ow = own_write [OF ok own b(1) le_refl wr, folded s2_def]
  have sl: "same_link s s2" and ok2: "link_ok sizes base s2" and own2: "own_packet s2 q [q]"
    unfolding s2_def using bytes_step [where s = s and d = ?d] ok own by simp_all
  have dat: "chain_data s2 [q] = with_chksum c g"
  proof -
    have "peek ?d (payload b) (len b) = with_chksum c (with_chksum 0 g)" using with_chksum_peek [of "len b" "payload b" c "bytes s"] b(2) dg by simp
    also have "\<dots> = with_chksum c g" using lg b(2) by (simp add: with_chksum_def length_le16)
    finally show ?thesis using ow(2) data by simp
  qed
  have io2: "ifs_ok s2" and rt: "route_of dest s2 = route_of dest s" using same_link_route [OF sl] io by simp_all
  have n2: "route_of dest s2 \<noteq> NULL \<Longrightarrow> eth_netif (netifs s2) (route_of dest s2) n \<and> nif_mtu n = 1500" using n rt same_linkD(1) [OF sl] by simp
  have pr: "plen (pbufs s2) [q] \<le> 1480" "pbufs s2 q = Some b" using b by (simp_all add: s2_def)
  have pl: "plen (pbufs s2) [q] = length g" using pr(2) lg by simp
  obtain e s3 where e: "ip_output q src dest ttl tos IP_PROTO_TCP s2 = Some (e, s3)" "link_ok sizes base s3" "ip_same s2 s3" "own_packet s3 q [q]" "kept {q} s2 s3"
    "if route_of dest s2 = NULL then e = ERR_RTE \<and> s3 = s2
     else datagram_sent (route_of dest s2) n dest (ip_hdr (src_addr n src) dest ttl tos IP_PROTO_TCP (plen (pbufs s2) [q] + 20) (ip_id s2) @ chain_data s2 [q]) s2 e s3"
    using own_output [OF ok2 io2 own2 pr room n2, of src ttl tos IP_PROTO_TCP] by blast
  obtain k s' where f: "pbuf_free q s3 = Some (k, s')" "link_ok sizes base s'" "same_link s3 s'" "kept {q} s3 s'" "held_kept s3 s'"
    using own_free [OF e(2,4)] by auto
  have kp: "kept {q} s s'" by (rule kept_trans' [OF kept_trans' [OF ow(1) e(5)] f(4)]) auto
  have ips: "ip_same s s'" by (rule ip_same_trans [OF ip_same_trans [OF same_link_ip [OF sl] e(3)] same_link_ip [OF f(3)]])
  have idd: "ip_id s2 = ip_id s" using ext_same_ip(2) [of s s2] sl by (simp add: same_link_def)
  have "segment_sent src dest ttl tos g n s s'"
  proof (cases "route_of dest s = NULL")
    case True
    then have "s3 = s2" using e(6) rt by simp
    then show ?thesis using True same_linkD(4,5) [OF same_link_trans [OF sl], of s'] f(3) by (simp add: segment_sent_def)
  next
    case False
    have "datagram_sent (route_of dest s) n dest (ip_hdr (src_addr n src) dest ttl tos 6 (length g + 20) (ip_id s) @ with_chksum c g) s2 e s3"
      using e(6) False unfolding rt dat idd pl by (simp add: IP_PROTO_TCP_def)
    from datagram_sent_step [OF datagram_sent_from [OF this same_linkD(4,5) [OF sl]] f(3,5)] False valid lg show ?thesis
      unfolding segment_sent_def w_def by auto
  qed
  then show ?thesis using ck e(1) f(1,2) kp ips unfolding s2_def by (intro exI [of _ s'] exI [of _ c]) simp
qed

lemma with_chksum_header: "with_chksum c (tcp_header src dest sq ack f wnd k) = tcp_header src dest sq ack f wnd c"
  by (simp add: with_chksum_def tcp_header_def length_le16)

lemma ip_same_tcp:
  assumes "ip_same s s'"
  shows "tcp_tab s' = tcp_tab s" and "tcp_listen_tab s' = tcp_listen_tab s" and "tcp_segs s' = tcp_segs s" and "tcp_active_pcbs s' = tcp_active_pcbs s"
    and "tcp_listen_pcbs s' = tcp_listen_pcbs s" and "tcp_bound_pcbs s' = tcp_bound_pcbs s" and "tcp_tw_pcbs s' = tcp_tw_pcbs s"
  using assms by (cases s; cases s'; simp add: ip_same_def)+

text \<open>A reset is sent, unless the memory for it is exhausted.\<close>

definition reset_sent :: "u32_t \<Rightarrow> u32_t \<Rightarrow> u32_t \<Rightarrow> u32_t \<Rightarrow> u16_t \<Rightarrow> u16_t \<Rightarrow> netif \<Rightarrow> 'a ip_state_scheme \<Rightarrow> 'a ip_state_scheme \<Rightarrow> bool" where
  "reset_sent sq ack locip remip locport remport n s s' \<longleftrightarrow>
     (\<exists>h. mem_malloc (ram_heap s) 80 = Some (NULL, h)) \<and> tx s' = tx s \<and> arp_table s' = arp_table s
     \<or> segment_sent locip remip 255 0 (tcp_header locport remport sq ack (TCP_RST OR TCP_ACK) TCP_WND 0) n s s'"

lemma segment_sent_from:
  assumes "segment_sent src dest ttl tos g n s1 s'" and "same_link s s1"
  shows "segment_sent src dest ttl tos g n s s'"
proof -
  have "ip_id s1 = ip_id s" using ext_same_ip(2) [of s s1] assms(2) by (simp add: same_link_def)
  then show ?thesis using assms(1) datagram_sent_from [OF _ same_linkD(4,5) [OF assms(2)]] same_linkD(4,5) [OF assms(2)]
    unfolding segment_sent_def same_link_route(1) [OF assms(2)] by metis
qed

lemma tcp_rst_ok:
  fixes s :: "'a tcp_stack_scheme"
  assumes ok: "link_ok sizes base s" and io: "ifs_ok s" and n: "route_of remip s \<noteq> NULL \<Longrightarrow> eth_netif (netifs s) (route_of remip s) n \<and> nif_mtu n = 1500"
  shows "\<exists>s'. tcp_rst sq ack locip remip locport remport s = Some s' \<and> link_ok sizes base s' \<and> ip_same s s' \<and> kept {} s s'
    \<and> reset_sent sq ack locip remip locport remport n s s'"
proof -
  obtain q s1 where a: "pbuf_alloc PBUF_IP 20 PBUF_RAM s = Some (q, s1)" "link_ok sizes base s1" "same_link s s1" "kept {} s s1" "bytes s1 = bytes s"
    "if q = NULL then pbufs s1 = pbufs s
       else own_packet s1 q [q] \<and> pbufs s q = None \<and> plen (pbufs s1) [q] = 20 \<and> (\<forall>x. x \<noteq> q \<longrightarrow> pbufs s1 x = pbufs s x)
         \<and> (\<exists>b. pbufs s1 q = Some b \<and> len b = 20 \<and> tot_len b = 20 \<and> payload b = q + (24 + layer_offset PBUF_IP))"
    using own_alloc [OF ok, of 20 PBUF_IP] by (auto simp: lwip_simps)
  show ?thesis
  proof (cases "q = NULL")
    case True
    have "\<exists>h. mem_malloc (ram_heap s) 80 = Some (NULL, h)" using alloc_null [of PBUF_IP 20 s s1] a(1) True by (simp add: lwip_simps)
    then show ?thesis using a(1-4) True same_link_ip [OF a(3)] same_linkD(4,5) [OF a(3)] by (auto simp: tcp_rst_def TCP_HLEN_def reset_sent_def)
  next
    case False
    then obtain b where q: "own_packet s1 q [q]" "pbufs s q = None" "pbufs s1 q = Some b" "len b = 20" "payload b = q + (24 + layer_offset PBUF_IP)"
      using a(6) unfolding if_not_P [OF False] by blast
    define g where "g = tcp_header locport remport sq ack (TCP_RST OR TCP_ACK) TCP_WND 0"
    define d where "d = tcp_header_bytes (payload b) locport remport (htonl sq) ack (TCP_RST OR TCP_ACK) TCP_WND 5 (bytes s1)"
    define s2 where "s2 = s1\<lparr>bytes := d\<rparr>"
    have "(TCP_RST OR TCP_ACK) AND 0x3f = TCP_RST OR TCP_ACK" by (simp add: TCP_RST_def TCP_ACK_def)
    note hb = tcp_header_bytes_peek [OF this, where h = "payload b" and src = locport and dest = remport and sq = sq and ack = ack and wnd = TCP_WND and d = "bytes s1", folded d_def g_def]
    have le: "20 \<le> len b" using q(4) by simp
    note w = own_write [OF a(2) q(1,3) le hb(2), folded s2_def]
    have sl: "same_link s1 s2" and ok2: "link_ok sizes base s2" and own2: "own_packet s2 q [q]"
      unfolding s2_def using bytes_step [where s = s1 and d = d] a(2) q(1) by simp_all
    have sl': "same_link s s2" by (rule same_link_trans [OF a(3) sl])
    have b2: "pbufs s2 q = Some b" "20 \<le> len b" "len b \<le> 1480" "q + SIZEOF_STRUCT_PBUF + 34 \<le> payload b" using q(3-5) by (simp_all add: s2_def lwip_simps)
    have data: "pbuf_data s2 q = with_chksum 0 g" using b2(1) q(4) hb(1) with_chksum_header unfolding s2_def g_def by (simp add: pbuf_data_peek)
    have io2: "ifs_ok s2" and rt: "route_of remip s2 = route_of remip s" using same_link_route [OF sl'] io by simp_all
    have n2: "route_of remip s2 \<noteq> NULL \<Longrightarrow> eth_netif (netifs s2) (route_of remip s2) n \<and> nif_mtu n = 1500" using n rt same_linkD(1) [OF sl'] by simp
    obtain s' c where s': "inet_chksum_pseudo q locip remip IP_PROTO_TCP (of_nat (tot_len b)) s2 = Some c"
      "do { (e, s) \<leftarrow> ip_output q locip remip TCP_TTL 0 IP_PROTO_TCP (s2\<lparr>bytes := poke (payload b + 16) (le16 c) (bytes s2)\<rparr>); (k, s) \<leftarrow> pbuf_free q s; Some s } = Some s'"
      "link_ok sizes base s'" "ip_same s2 s'" "kept {q} s2 s'" "segment_sent locip remip TCP_TTL 0 g n s2 s'"
      using tcp_send_packet_ok [OF ok2 io2 own2 b2 data n2, of locip TCP_TTL 0] by blast
    have "tcp_send_packet q locip remip TCP_TTL 0 s2 = Some s'" using s'(1,2) b2(1) by (simp add: tcp_send_packet_def Let_def)
    then have run: "tcp_rst sq ack locip remip locport remport s = Some s'"
      using a(1) False q(3,4) unfolding s2_def d_def by (simp add: tcp_rst_def TCP_HLEN_def)
    have "kept (insert q {}) s s'" by (rule kept_trans' [OF kept_trans' [OF a(4) w(1)] s'(5)]) auto
    then have kp: "kept {} s s'" using kept_fresh q(2) by blast
    have ips: "ip_same s s'" by (rule ip_same_trans [OF same_link_ip [OF sl'] s'(4)])
    have "reset_sent sq ack locip remip locport remport n s s'"
      using segment_sent_from [OF s'(6) sl'] unfolding reset_sent_def g_def by (simp add: TCP_TTL_def)
    then show ?thesis using run s'(3) ips kp by blast
  qed
qed

section \<open>Arrival of a segment\<close>

lemma ld16_poke_apart: "c + length v \<le> a \<or> a + 2 \<le> c \<Longrightarrow> ld16 (poke c v d) a = ld16 d a"
  by (rule ld16_le16) (simp add: le16_ld16 peek_poke_apart)

lemma ld32_poke_apart: "c + length v \<le> a \<or> a + 4 \<le> c \<Longrightarrow> ld32 (poke c v d) a = ld32 d a"
  by (rule ld32_le32) (simp add: le32_ld32 peek_poke_apart)

lemma ld16_poke_same: "ld16 (poke a (le16 w) d) a = w"
  by (rule ld16_le16) (simp add: peek_poke_at length_le16)

lemma ld32_poke_same: "ld32 (poke a (le32 w) d) a = w"
  by (rule ld32_le32) (simp add: peek_poke_at)

lemmas poke_reads = ld16_poke_apart ld32_poke_apart ld16_poke_same ld32_poke_same length_le16 length_le32

lemma tcp_hdr_to_host_fields:
  "ld16 (tcp_hdr_to_host h d) h = ntohs (ld16 d h)" "ld16 (tcp_hdr_to_host h d) (h + 2) = ntohs (ld16 d (h + 2))"
  "ld32 (tcp_hdr_to_host h d) (h + 4) = ntohl (ld32 d (h + 4))" "ld32 (tcp_hdr_to_host h d) (h + 8) = ntohl (ld32 d (h + 8))"
  "ld16 (tcp_hdr_to_host h d) (h + 12) = ld16 d (h + 12)" "ld16 (tcp_hdr_to_host h d) (h + 14) = ntohs (ld16 d (h + 14))"
  "writes_within h 20 d (tcp_hdr_to_host h d)"
  unfolding tcp_hdr_to_host_def Let_def by (simp_all add: poke_reads writes_within_poke)

text \<open>The variables of TCP are not part of what the layers below look at.\<close>

lemma base_same:
  fixes s s' :: "'a link_state_scheme"
  assumes "ram_heap s' = ram_heap s" "memp s' = memp s" "pbufs s' = pbufs s" "bytes s' = bytes s" "arp_table s' = arp_table s" "etharp_cached_entry s' = etharp_cached_entry s"
  shows "link_ok sizes base s' = link_ok sizes base s" and "held s' = held s" and "own_packet s' p xs = own_packet s p xs" and "free_packet s' p xs = free_packet s p xs"
    and "chain_data s' xs = chain_data s xs" and "kept K s s'"
proof -
  show h: "held s' = held s" using assms by (simp add: held_def)
  show "link_ok sizes base s' = link_ok sizes base s" using assms by (simp add: link_ok_def net_ok_def arp_ok_def queue_elem_def)
  show "own_packet s' p xs = own_packet s p xs" "free_packet s' p xs = free_packet s p xs" using assms h by (simp_all add: own_packet_def free_packet_def)
  show "chain_data s' xs = chain_data s xs" by (rule chain_data_cong) (simp add: pbuf_data_def assms split: option.split)
  show "kept K s s'" by (rule kept_bytes) (simp_all add: assms h)
qed

definition tcp_dropped :: "(memp_t \<Rightarrow> nat) \<Rightarrow> addr \<Rightarrow> addr list \<Rightarrow> 'a tcp_stack_scheme \<Rightarrow> 'a tcp_stack_scheme option \<Rightarrow> bool" where
  "tcp_dropped sizes base xs s r \<longleftrightarrow> (\<exists>s'. r = Some s' \<and> link_ok sizes base s' \<and> kept (set xs) s s' \<and> tx s' = tx s \<and> arp_table s' = arp_table s
     \<and> tcp_tab s' = tcp_tab s \<and> tcp_listen_tab s' = tcp_listen_tab s \<and> tcp_segs s' = tcp_segs s \<and> tcp_active_pcbs s' = tcp_active_pcbs s
     \<and> tcp_listen_pcbs s' = tcp_listen_pcbs s \<and> tcp_bound_pcbs s' = tcp_bound_pcbs s \<and> tcp_tw_pcbs s' = tcp_tw_pcbs s)"

definition tcp_same :: "'a tcp_stack_scheme \<Rightarrow> 'a tcp_stack_scheme \<Rightarrow> bool" where
  "tcp_same s s' \<longleftrightarrow> ram_heap s' = ram_heap s \<and> tx s' = tx s \<and> arp_table s' = arp_table s \<and> netifs s' = netifs s \<and> netif_list s' = netif_list s \<and> netif_default s' = netif_default s \<and> ip_id s' = ip_id s
     \<and> tcp_tab s' = tcp_tab s \<and> tcp_listen_tab s' = tcp_listen_tab s \<and> tcp_segs s' = tcp_segs s \<and> tcp_active_pcbs s' = tcp_active_pcbs s
     \<and> tcp_listen_pcbs s' = tcp_listen_pcbs s \<and> tcp_bound_pcbs s' = tcp_bound_pcbs s \<and> tcp_tw_pcbs s' = tcp_tw_pcbs s"

lemma tcp_drop_dropped:
  fixes s t :: "'a tcp_stack_scheme"
  assumes "link_ok sizes base t" and "free_packet t p xs" and "kept {p} s t" and "tcp_same s t" and "p \<in> set xs"
  shows "tcp_dropped sizes base xs s (udp_drop p t)"
proof -
  obtain s' where s': "udp_drop p t = Some s'" "link_ok sizes base s'" "same_link t s'" "kept (set xs) t s'" using udp_drop_ok [OF assms(1,2)] by blast
  have "kept (set xs) s s'" by (rule kept_trans' [OF assms(3) s'(4)]) (use assms(5) in auto)
  then show ?thesis unfolding tcp_dropped_def
    using s' ip_same_tcp [OF same_link_ip [OF s'(3)]] same_linkD(4,5) [OF s'(3)] assms(4) unfolding tcp_same_def by auto
qed

text \<open>The segment after the checks: the packet holds its data, the header is in host byte order, the variables have its fields.\<close>

definition tcp_arrived :: "(memp_t \<Rightarrow> nat) \<Rightarrow> addr \<Rightarrow> addr \<Rightarrow> addr list \<Rightarrow> nat \<Rightarrow> nat \<Rightarrow> pbuf \<Rightarrow> 'a tcp_stack_scheme \<Rightarrow> 'a tcp_stack_scheme \<Rightarrow> bool" where
  "tcp_arrived sizes base p xs hlen doff b s s1 \<longleftrightarrow>
     (let d = bytes s; h = payload b + hlen; f = TCPH_FLAGS d h
      in link_ok sizes base s1 \<and> free_packet s1 p xs \<and> kept {p} s s1 \<and> tcp_same s s1 \<and> chain_data s1 xs = drop (hlen + doff) (chain_data s xs)
       \<and> in_src s1 = ntohs (ld16 d h) \<and> in_dest s1 = ntohs (ld16 d (h + 2)) \<and> in_seqno s1 = ntohl (ld32 d (h + 4)) \<and> in_ackno s1 = ntohl (ld32 d (h + 8))
       \<and> in_flags s1 = f \<and> TCPH_FLAGS (bytes s1) (in_tcphdr s1) = f \<and> in_wnd s1 = ntohs (ld16 d (h + 14))
       \<and> in_tcplen s1 = of_nat (tot_len b - hlen - doff + (if f AND (TCP_FIN OR TCP_SYN) \<noteq> 0 then 1 else 0))
       \<and> iph_src (bytes s1) (in_iphdr s1) = iph_src d (payload b) \<and> iph_dest (bytes s1) (in_iphdr s1) = iph_dest d (payload b))"

lemma tcp_input_arrives:
  fixes s :: "'a tcp_stack_scheme"
  assumes ok: "link_ok sizes base s" and own: "own_packet s p xs" and n: "netifs s inp = Some n" and b: "pbufs s p = Some b"
    and hl: "hlen = unat (IPH_HL (bytes s) (payload b)) * 4" "20 \<le> hlen" and doff: "doff = unat (TCPH_HDRLEN (bytes s) (payload b + hlen)) * 4" "20 \<le> doff" "hlen + doff \<le> len b"
  defines "src \<equiv> iph_src (bytes s) (payload b)" and "dest \<equiv> iph_dest (bytes s) (payload b)" and "v \<equiv> drop hlen (chain_data s xs)"
  shows "if ip_addr_isbroadcast dest n \<or> ip_addr_ismulticast dest \<or> chksum_of (pseudo_header src dest 6 (of_nat (length v)) @ v) \<noteq> 0
    then tcp_dropped sizes base xs s (tcp_input app p inp s)
    else \<exists>s1. tcp_input app p inp s = tcp_demux app p s1 \<and> tcp_arrived sizes base p xs hlen doff b s s1"
proof -
  let ?h = "payload b + hlen"
  define d where "d = tcp_hdr_to_host ?h (bytes s)"
  define s0 where "s0 = s\<lparr>in_iphdr := payload b, in_tcphdr := ?h\<rparr>"
  define b1 where "b1 = b\<lparr>payload := payload b + hlen, len := len b - hlen, tot_len := tot_len b - hlen\<rparr>"
  define s1 where "s1 = put_pbuf p b1 s0"
  define b2 where "b2 = b1\<lparr>payload := payload b1 + doff, len := len b1 - doff, tot_len := tot_len b1 - doff\<rparr>"
  define s2 where "s2 = put_pbuf p b2 s1"
  define sw where "sw = s0\<lparr>bytes := d\<rparr>"
  define b3 where "b3 = b\<lparr>payload := payload b + (hlen + doff), len := len b - (hlen + doff), tot_len := tot_len b - (hlen + doff)\<rparr>"
  note f = tcp_hdr_to_host_fields [of ?h "bytes s", folded d_def]
  have px: "p \<in> set xs" by (rule own_packetD(6) [OF own])
  have b0: "ram_heap s0 = ram_heap s" "memp s0 = memp s" "pbufs s0 = pbufs s" "bytes s0 = bytes s" "arp_table s0 = arp_table s" "etharp_cached_entry s0 = etharp_cached_entry s"
    by (simp_all add: s0_def)
  note bs0 = base_same [OF b0]
  have ok0: "link_ok sizes base s0" and own0: "own_packet s0 p xs" and dat0: "chain_data s0 xs = chain_data s xs" using bs0 ok own by simp_all
  have pb0: "pbufs s0 p = Some b" using b b0(3) by simp
  have h0: "0 < hlen" "hlen \<le> len b" "hlen < len b" "0 < doff" using hl doff by simp_all
  note hide1 = hide_header [OF ok0 own_free_packet [OF own0] pb0 h0(1,2), folded b1_def s1_def]
  have pb1: "pbufs s1 p = Some b1" by (simp add: s1_def)
  have d1: "doff \<le> len b1" using doff by (simp add: b1_def)
  note hide2 = hide_header [OF hide1(2,3) pb1 h0(4) d1, folded b2_def s2_def]
  have tb: "tot_len b = plen (pbufs s) xs" using own_head [OF own] b by (metis option.inject)
  have lv: "tot_len b1 = length v" unfolding v_def b1_def using tb length_chain_data [of s xs] by simp
  have t20: "\<not> tot_len b1 < 20"
  proof -
    have "len b \<le> tot_len b" using own_head [OF own] b tb by (metis option.inject)
    then show ?thesis using doff by (simp add: b1_def)
  qed
  have own1: "own_packet s1 p xs" using own_hide [OF ok0 own0 pb0 h0(1,3)] unfolding s1_def b1_def by auto
  have fs1: "bytes s1 = bytes s" "netifs s1 = netifs s" "in_tcphdr s1 = ?h" "in_iphdr s1 = payload b" by (simp_all add: s1_def s0_def put_pbuf_def)
  let ?chk = "chksum_of (pseudo_header src dest 6 (of_nat (length v)) @ v)"
  have ck: "inet_chksum_pseudo p src dest IP_PROTO_TCP (of_nat (tot_len b1)) s1 = Some ?chk"
    using inet_chksum_pseudo_ok [OF own_pchain [OF own1] own_lens [OF hide1(2) own1], of 0 src dest 6 "of_nat (tot_len b1)"] hide1(6) dat0 lv
    by (simp add: chksum_of_def v_def IP_PROTO_TCP_def)
  have same1: "tcp_same s s1" by (simp add: tcp_same_def s1_def s0_def put_pbuf_def)
  have kept1: "kept {p} s s1" by (rule kept_trans' [OF bs0(6) [where K = "{}"] hide1(5)]) simp
  have drop1: "tcp_dropped sizes base xs s (udp_drop p s1)" by (rule tcp_drop_dropped [OF hide1(2,3) kept1 same1 px])
  let ?f = "TCPH_FLAGS d ?h"
  define T where "T = s2\<lparr>bytes := d, in_seqno := ld32 d (?h + 4), in_ackno := ld32 d (?h + 8), in_flags := ?f,
      in_tcplen := of_nat (tot_len b2 + (if ?f AND (TCP_FIN OR TCP_SYN) \<noteq> 0 then 1 else 0))\<rparr>"
  have pb2: "pbufs s2 p = Some b2" "bytes s2 = bytes s" "in_tcphdr s2 = ?h" by (simp_all add: s2_def s1_def s0_def put_pbuf_def)
  have h1: "pbuf_header p (- (uint (IPH_HL (bytes s) (payload b)) * 4)) s0 = Some (False, s1)" using hide1(1) hl(1) by simp
  have h2: "pbuf_header p (- (int (unat (TCPH_HDRLEN (bytes s) ?h)) * 4)) s1 = Some (False, s2)" using hide2(1) doff(1) by simp
  have run: "tcp_input app p inp s = (if ip_addr_isbroadcast dest n \<or> ip_addr_ismulticast dest then udp_drop p s1 else if ?chk \<noteq> 0 then udp_drop p s1 else tcp_demux app p T)"
    unfolding tcp_input_def Let_def hl(1) [symmetric] s0_def [symmetric]
    using b n h1 pb1 t20 ck h2 pb2 fs1 unfolding src_def dest_def
    by (simp add: hl(1) [symmetric] s0_def [symmetric] T_def d_def)
  show ?thesis
  proof (cases "ip_addr_isbroadcast dest n \<or> ip_addr_ismulticast dest \<or> ?chk \<noteq> 0")
    case True
    then show ?thesis using run drop1 by auto
  next
    case False
    have ww: "writes_within (payload b) (hlen + 20) (bytes s0) d" using f(7) b0(4) unfolding writes_within_def by auto
    have le: "hlen + 20 \<le> len b" "0 < hlen + doff" using doff h0 by simp_all
    note ow = own_write [OF ok0 own0 pb0 le(1) ww, folded sw_def]
    have okw: "link_ok sizes base sw" and ownw: "own_packet sw p xs" and pbw: "pbufs sw p = Some b"
      unfolding sw_def using bytes_step(2,3) [where s = s0 and d = d] ok0 own0 pb0 by simp_all
    note hw = hide_header [OF okw own_free_packet [OF ownw] pbw le(2) doff(3), folded b3_def]
    have b32: "b3 = b2" by (simp add: b3_def b2_def b1_def)
    have bT: "ram_heap T = ram_heap (put_pbuf p b3 sw)" "memp T = memp (put_pbuf p b3 sw)" "pbufs T = pbufs (put_pbuf p b3 sw)" "bytes T = bytes (put_pbuf p b3 sw)"
      "arp_table T = arp_table (put_pbuf p b3 sw)" "etharp_cached_entry T = etharp_cached_entry (put_pbuf p b3 sw)"
      unfolding b32 T_def s2_def s1_def sw_def by (simp_all add: put_pbuf_def)
    note bsT = base_same [OF bT]
    have "chain_data T xs = drop (hlen + doff) (chain_data s xs)"
      unfolding bsT(5) hw(6) ow(2) dat0 using doff(2) by (simp add: add.commute)
    moreover have "kept {p} s T"
      by (rule kept_trans' [OF kept_trans' [OF kept_trans' [OF bs0(6) [where K = "{}"] ow(1)] hw(5)] bsT(6) [where K = "{}"]]) auto
    moreover have "tcp_same s T" by (simp add: tcp_same_def T_def s2_def s1_def s0_def put_pbuf_def)
    moreover have "peek d (payload b) hlen = peek (bytes s) (payload b) hlen" by (rule writes_within_peek [OF f(7)]) simp
    then have "iph_src d (payload b) = src" "iph_dest d (payload b) = dest"
      unfolding src_def dest_def iph_src_def iph_dest_def using hl(2) ld32_part [of d "payload b" hlen "bytes s" 12] ld32_part [of d "payload b" hlen "bytes s" 16] by simp_all
    moreover have "in_iphdr T = payload b" "in_tcphdr T = ?h" "bytes T = d" by (simp_all add: T_def s2_def s1_def s0_def put_pbuf_def)
    moreover have fl: "?f = TCPH_FLAGS (bytes s) ?h" by (simp add: TCPH_FLAGS_def f(5))
    moreover have "tot_len b2 = tot_len b - hlen - doff" by (simp add: b2_def b1_def)
    ultimately have "tcp_arrived sizes base p xs hlen doff b s T"
      unfolding tcp_arrived_def Let_def src_def dest_def using hw(2,3) bsT(1,4) f(1-4,6) unfolding in_src_def in_dest_def in_wnd_def
      by (simp add: T_def)
    then show ?thesis using False run by auto
  qed
qed

section \<open>Who gets a segment\<close>

definition seg_match :: "u16_t \<Rightarrow> u16_t \<Rightarrow> u32_t \<Rightarrow> u32_t \<Rightarrow> tcp_pcb \<Rightarrow> bool" where
  "seg_match sport dport src dest t \<longleftrightarrow> t_remote_port t = sport \<and> t_local_port t = dport \<and> t_remote_ip t = src \<and> t_local_ip t = dest"

definition listen_match :: "u16_t \<Rightarrow> u32_t \<Rightarrow> tcp_pcb_listen \<Rightarrow> bool" where
  "listen_match dport dest l \<longleftrightarrow> (ip_addr_isany (l_local_ip l) \<or> l_local_ip l = dest) \<and> l_local_port l = dport"

definition first_match :: "('p \<Rightarrow> bool) \<Rightarrow> (addr \<rightharpoonup> 'p) \<Rightarrow> addr list \<Rightarrow> addr" where
  "first_match P tab pcbs = (case find (\<lambda>p. P (the (tab p))) pcbs of None \<Rightarrow> NULL | Some p \<Rightarrow> p)"

lemma first_match_simps [simp]:
  "first_match P tab [] = NULL" "first_match P tab (p # ps) = (if P (the (tab p)) then p else first_match P tab ps)"
  by (simp_all add: first_match_def)

text \<open>The lists hold live control blocks in the states that belong to them.\<close>

definition tcp_lists_ok :: "'a tcp_stack_scheme \<Rightarrow> bool" where
  "tcp_lists_ok s \<longleftrightarrow> list_all (\<lambda>p. p \<noteq> NULL \<and> tcp_tab s p \<noteq> None \<and> state (the (tcp_tab s p)) \<notin> {CLOSED, TIME_WAIT, LISTEN}) (tcp_active_pcbs s)
     \<and> list_all (\<lambda>p. p \<noteq> NULL \<and> tcp_tab s p \<noteq> None \<and> state (the (tcp_tab s p)) = TIME_WAIT) (tcp_tw_pcbs s)
     \<and> list_all (\<lambda>p. p \<noteq> NULL \<and> tcp_listen_tab s p \<noteq> None) (tcp_listen_pcbs s)"

lemma tcp_match_fields:
  "tcp_match t s \<longleftrightarrow> seg_match (in_src s) (in_dest s) (iph_src (bytes s) (in_iphdr s)) (iph_dest (bytes s) (in_iphdr s)) t"
  by (simp add: tcp_match_def seg_match_def)

lemma tcp_find_active_ok:
  "list_all (\<lambda>p. p \<noteq> NULL \<and> tcp_tab s p \<noteq> None \<and> state (the (tcp_tab s p)) \<notin> {CLOSED, TIME_WAIT, LISTEN}) pcbs \<Longrightarrow>
    tcp_find_active pcbs s = Some (first_match (\<lambda>t. tcp_match t s) (tcp_tab s) pcbs)"
  by (induction pcbs) auto

lemma tcp_find_tw_ok:
  "list_all (\<lambda>p. p \<noteq> NULL \<and> tcp_tab s p \<noteq> None \<and> state (the (tcp_tab s p)) = TIME_WAIT) pcbs \<Longrightarrow>
    tcp_find_tw pcbs s = Some (first_match (\<lambda>t. tcp_match t s) (tcp_tab s) pcbs)"
  by (induction pcbs) auto

lemma tcp_find_listen_ok:
  "list_all (\<lambda>p. p \<noteq> NULL \<and> tcp_listen_tab s p \<noteq> None) pcbs \<Longrightarrow>
    tcp_find_listen pcbs s = Some (first_match (listen_match (in_dest s) (iph_dest (bytes s) (in_iphdr s))) (tcp_listen_tab s) pcbs)"
  by (induction pcbs) (auto simp: listen_match_def)

lemma kept_free:
  assumes "kept {} s s'" and "free_packet s p xs"
  shows "free_packet s' p xs"
proof -
  have each: "pbufs s' x = pbufs s x \<and> x \<notin> held s'" if x: "x \<in> set xs" for x
  proof -
    have o: "owned (pbufs s) xs" "x \<notin> held s" using assms(2) x by (auto simp: free_packet_def)
    then obtain b where "pbufs s x = Some b" using x by (cases "pbufs s x") (force simp: owned_def list_all_iff)+
    then show ?thesis using assms(1) o(2) unfolding kept_def by auto
  qed
  have "sole (pbufs s') xs = sole (pbufs s) xs" "owned (pbufs s') xs = owned (pbufs s) xs" using each by (auto simp: sole_def owned_def list_all_iff)
  moreover have "packet (pbufs s') p xs = packet (pbufs s) p xs" by (rule packet_cong) (use each in blast)
  ultimately show ?thesis using assms(2) each by (auto simp: free_packet_def)
qed

lemma free_packet_free:
  fixes s :: "'a link_state_scheme"
  assumes ok: "link_ok sizes base s" and fp: "free_packet s p xs"
  shows "\<exists>c s'. pbuf_free p s = Some (c, s') \<and> link_ok sizes base s' \<and> same_link s s' \<and> kept (set xs) s s' \<and> held_kept s s'"
proof -
  obtain c s' where f: "pbuf_free p s = Some (c, s')" "link_ok sizes base s'" "ext_same s s'" "arp_table s' = arp_table s" "tx s' = tx s"
    "pbufs s' = pbufs s |` (- set xs)" "bytes s' = bytes s"
    using link_free [OF ok, of p xs] fp by (auto simp: free_packet_def)
  have sl: "same_link s s'" using f(3-5) by (simp add: same_link_def)
  have "kept (set xs) s s'" using same_linkD(7) [OF sl] f(6,7) by (auto simp: kept_def)
  moreover have "pbuf_data s' x = pbuf_data s x" if "x \<in> held s" for x
  proof -
    have "x \<notin> set xs" using that fp by (auto simp: free_packet_def)
    then show ?thesis using f(6,7) by (simp add: pbuf_data_def split: option.split)
  qed
  ultimately show ?thesis using f(1,2) sl by (auto simp: held_kept_def)
qed

lemma reset_sent_step:
  assumes "reset_sent sq ack locip remip locport remport n s s1" and "same_link s1 s'" and "held_kept s1 s'"
  shows "reset_sent sq ack locip remip locport remport n s s'"
  using assms(1) same_linkD(4,5) [OF assms(2)] datagram_sent_step [OF _ assms(2,3)] unfolding reset_sent_def segment_sent_def by metis

lemma reset_sent_same:
  assumes "tcp_same s s1"
  shows "reset_sent sq ack locip remip locport remport n s1 s' = reset_sent sq ack locip remip locport remport n s s'"
proof -
  have "route_of remip s1 = route_of remip s" using assms unfolding tcp_same_def by (simp add: route_of_def split: list.split)
  moreover have "datagram_sent a b c g s1 e s' = datagram_sent a b c g s e s'" for a b c g e using assms by (simp add: datagram_sent_def tcp_same_def)
  ultimately show ?thesis using assms by (simp add: reset_sent_def segment_sent_def tcp_same_def)
qed

definition tcp_refused :: "(memp_t \<Rightarrow> nat) \<Rightarrow> addr \<Rightarrow> addr list \<Rightarrow> u32_t \<Rightarrow> u32_t \<Rightarrow> u32_t \<Rightarrow> u32_t \<Rightarrow> u16_t \<Rightarrow> u16_t \<Rightarrow> netif \<Rightarrow> 'a tcp_stack_scheme \<Rightarrow> 'a tcp_stack_scheme option \<Rightarrow> bool" where
  "tcp_refused sizes base xs sq ack locip remip locport remport m s r \<longleftrightarrow> (\<exists>s'. r = Some s' \<and> link_ok sizes base s' \<and> kept (set xs) s s'
     \<and> tcp_tab s' = tcp_tab s \<and> tcp_listen_tab s' = tcp_listen_tab s \<and> tcp_segs s' = tcp_segs s \<and> tcp_active_pcbs s' = tcp_active_pcbs s
     \<and> tcp_listen_pcbs s' = tcp_listen_pcbs s \<and> tcp_bound_pcbs s' = tcp_bound_pcbs s \<and> tcp_tw_pcbs s' = tcp_tw_pcbs s
     \<and> reset_sent sq ack locip remip locport remport m s s')"

lemma tcp_refuse:
  fixes s s1 :: "'a tcp_stack_scheme"
  assumes ok: "link_ok sizes base s1" and io: "ifs_ok s1" and fp: "free_packet s1 p xs" and kp: "kept {p} s s1" and same: "tcp_same s s1" and px: "p \<in> set xs"
    and m: "route_of remip s1 \<noteq> NULL \<Longrightarrow> eth_netif (netifs s1) (route_of remip s1) m \<and> nif_mtu m = 1500"
  shows "tcp_refused sizes base xs sq ack locip remip locport remport m s (do { s \<leftarrow> tcp_rst sq ack locip remip locport remport s1; (c, s) \<leftarrow> pbuf_free p s; Some s })"
proof -
  obtain s2 where s2: "tcp_rst sq ack locip remip locport remport s1 = Some s2" "link_ok sizes base s2" "ip_same s1 s2" "kept {} s1 s2"
    "reset_sent sq ack locip remip locport remport m s1 s2"
    using tcp_rst_ok [OF ok io m] by blast
  obtain c s' where f: "pbuf_free p s2 = Some (c, s')" "link_ok sizes base s'" "same_link s2 s'" "kept (set xs) s2 s'" "held_kept s2 s'"
    using free_packet_free [OF s2(2) kept_free [OF s2(4) fp]] by blast
  have "kept (set xs) s s'" by (rule kept_trans' [OF kept_trans' [OF kp s2(4)] f(4)]) (use px in auto)
  moreover have "reset_sent sq ack locip remip locport remport m s s'" using reset_sent_step [OF s2(5) f(3,5)] reset_sent_same [OF same] by blast
  moreover note ip_same_tcp [OF ip_same_trans [OF s2(3) same_link_ip [OF f(3)]]]
  ultimately show ?thesis using s2(1) f(1,2) same unfolding tcp_refused_def tcp_same_def by simp
qed

text \<open>
  The fate of a valid segment: the first connection that matches, else the first one in \<open>TIME_WAIT\<close>, else the first listener;
  else it is answered with a reset, unless it is a reset itself.
\<close>

definition tcp_input_post ::
  "(memp_t \<Rightarrow> nat) \<Rightarrow> addr \<Rightarrow> 'a tcp_app \<Rightarrow> addr \<Rightarrow> addr list \<Rightarrow> nat \<Rightarrow> nat \<Rightarrow> pbuf \<Rightarrow> netif \<Rightarrow> 'a tcp_stack_scheme \<Rightarrow> 'a tcp_stack_scheme option \<Rightarrow> bool" where
  "tcp_input_post sizes base app p xs hlen doff b m s r \<longleftrightarrow>
     (let d = bytes s; h = payload b + hlen; src = iph_src d (payload b); dest = iph_dest d (payload b); sport = ntohs (ld16 d h); dport = ntohs (ld16 d (h + 2));
          f = TCPH_FLAGS d h; tcplen = tot_len b - hlen - doff + (if f AND (TCP_FIN OR TCP_SYN) \<noteq> 0 then 1 else 0);
          active = first_match (seg_match sport dport src dest) (tcp_tab s) (tcp_active_pcbs s); tw = first_match (seg_match sport dport src dest) (tcp_tab s) (tcp_tw_pcbs s);
          lpcb = first_match (listen_match dport dest) (tcp_listen_tab s) (tcp_listen_pcbs s)
      in if active \<noteq> NULL then \<exists>s1. tcp_arrived sizes base p xs hlen doff b s s1 \<and> r = tcp_input_pcb_found app active p (s1\<lparr>tcp_active_pcbs := to_front active (tcp_active_pcbs s)\<rparr>)
         else if tw \<noteq> NULL then \<exists>s1. tcp_arrived sizes base p xs hlen doff b s s1 \<and> r = do { (e, s) \<leftarrow> tcp_timewait_input tw s1; (n, s) \<leftarrow> pbuf_free p s; Some s }
         else if lpcb \<noteq> NULL then \<exists>s1. tcp_arrived sizes base p xs hlen doff b s s1
           \<and> r = do { (e, s) \<leftarrow> tcp_listen_input app lpcb (s1\<lparr>tcp_listen_pcbs := to_front lpcb (tcp_listen_pcbs s)\<rparr>); (n, s) \<leftarrow> pbuf_free p s; Some s }
         else if f AND TCP_RST \<noteq> 0 then tcp_dropped sizes base xs s r
         else tcp_refused sizes base xs (ntohl (ld32 d (h + 8))) (ntohl (ld32 d (h + 4)) + of_nat tcplen) dest src dport sport m s r)"

lemma tcp_demux_ok:
  fixes s s1 :: "'a tcp_stack_scheme"
  assumes arr: "tcp_arrived sizes base p xs hlen doff b s s1" and lists: "tcp_lists_ok s" and io: "ifs_ok s" and px: "p \<in> set xs" and small: "tot_len b < 65535"
    and m: "route_of (iph_src (bytes s) (payload b)) s \<noteq> NULL \<Longrightarrow> eth_netif (netifs s) (route_of (iph_src (bytes s) (payload b)) s) m \<and> nif_mtu m = 1500"
  shows "tcp_input_post sizes base app p xs hlen doff b m s (tcp_demux app p s1)"
proof -
  define src dest sport dport f sq ack where "src = iph_src (bytes s) (payload b)" and "dest = iph_dest (bytes s) (payload b)" and "sport = ntohs (ld16 (bytes s) (payload b + hlen))"
    and "dport = ntohs (ld16 (bytes s) (payload b + hlen + 2))" and "f = TCPH_FLAGS (bytes s) (payload b + hlen)" and "sq = ntohl (ld32 (bytes s) (payload b + hlen + 4))"
    and "ack = ntohl (ld32 (bytes s) (payload b + hlen + 8))"
  define tl where "tl = tot_len b - hlen - doff + (if f AND (TCP_FIN OR TCP_SYN) \<noteq> 0 then 1 else 0)"
  have a: "link_ok sizes base s1" "free_packet s1 p xs" "kept {p} s s1" "tcp_same s s1" "in_src s1 = sport" "in_dest s1 = dport" "in_seqno s1 = sq" "in_ackno s1 = ack"
    "TCPH_FLAGS (bytes s1) (in_tcphdr s1) = f" "in_tcplen s1 = of_nat tl" "iph_src (bytes s1) (in_iphdr s1) = src" "iph_dest (bytes s1) (in_iphdr s1) = dest"
    using arr unfolding tcp_arrived_def Let_def src_def dest_def sport_def dport_def f_def sq_def ack_def tl_def by simp_all
  have same: "tcp_tab s1 = tcp_tab s" "tcp_listen_tab s1 = tcp_listen_tab s" "tcp_active_pcbs s1 = tcp_active_pcbs s" "tcp_tw_pcbs s1 = tcp_tw_pcbs s"
    "tcp_listen_pcbs s1 = tcp_listen_pcbs s" "netifs s1 = netifs s" "netif_list s1 = netif_list s" "netif_default s1 = netif_default s"
    using a(4) by (simp_all add: tcp_same_def)
  have io1: "ifs_ok s1" and rt: "route_of src s1 = route_of src s" using io same by (simp_all add: ifs_ok_def route_of_def split: list.split)
  have m1: "route_of src s1 \<noteq> NULL \<Longrightarrow> eth_netif (netifs s1) (route_of src s1) m \<and> nif_mtu m = 1500" using m rt same(6) unfolding src_def by simp
  have "tl \<le> tot_len b + 1" unfolding tl_def by auto
  then have "tl < 65536" using small by simp
  then have tl16: "unat (of_nat tl :: u16_t) = tl" by (simp only: unat_of_nat) simp
  have "(ucast (in_tcplen s1) :: u32_t) = of_nat (unat (of_nat tl :: u16_t))" unfolding a(10) by simp
  also note tl16
  finally have tl: "(ucast (in_tcplen s1) :: u32_t) = of_nat tl" .
  let ?A = "first_match (seg_match sport dport src dest) (tcp_tab s) (tcp_active_pcbs s)" and ?W = "first_match (seg_match sport dport src dest) (tcp_tab s) (tcp_tw_pcbs s)"
  let ?L = "first_match (listen_match dport dest) (tcp_listen_tab s) (tcp_listen_pcbs s)"
  have match: "(\<lambda>t. tcp_match t s1) = seg_match sport dport src dest" by (rule ext) (simp add: tcp_match_fields a)
  have fa: "tcp_find_active (tcp_active_pcbs s1) s1 = Some ?A" using tcp_find_active_ok [of s1 "tcp_active_pcbs s1"] lists unfolding match same tcp_lists_ok_def by simp
  have fw: "tcp_find_tw (tcp_tw_pcbs s1) s1 = Some ?W" using tcp_find_tw_ok [of s1 "tcp_tw_pcbs s1"] lists unfolding match same tcp_lists_ok_def by simp
  have fl: "tcp_find_listen (tcp_listen_pcbs s1) s1 = Some ?L" using tcp_find_listen_ok [of s1 "tcp_listen_pcbs s1"] lists unfolding a(6,12) same tcp_lists_ok_def by simp
  have run: "tcp_demux app p s1 =
      (if ?A \<noteq> NULL then tcp_input_pcb_found app ?A p (s1\<lparr>tcp_active_pcbs := to_front ?A (tcp_active_pcbs s)\<rparr>)
       else if ?W \<noteq> NULL then do { (e, s) \<leftarrow> tcp_timewait_input ?W s1; (n, s) \<leftarrow> pbuf_free p s; Some s }
       else if ?L \<noteq> NULL then do { (e, s) \<leftarrow> tcp_listen_input app ?L (s1\<lparr>tcp_listen_pcbs := to_front ?L (tcp_listen_pcbs s)\<rparr>); (n, s) \<leftarrow> pbuf_free p s; Some s }
       else if f AND TCP_RST \<noteq> 0 then udp_drop p s1
       else do { s \<leftarrow> tcp_rst ack (sq + of_nat tl) dest src dport sport s1; (c, s) \<leftarrow> pbuf_free p s; Some s })"
    unfolding tcp_demux_def fa fw fl unfolding a(9) same tcp_rst_reply_def tl a(5-8,11,12) by (simp add: udp_drop_def)
  have drp: "tcp_dropped sizes base xs s (udp_drop p s1)" by (rule tcp_drop_dropped [OF a(1-4) px])
  have ref: "tcp_refused sizes base xs ack (sq + of_nat tl) dest src dport sport m s
      (do { s \<leftarrow> tcp_rst ack (sq + of_nat tl) dest src dport sport s1; (c, s) \<leftarrow> pbuf_free p s; Some s })"
    by (rule tcp_refuse [OF a(1) io1 a(2-4) px m1])
  show ?thesis
    unfolding tcp_input_post_def Let_def src_def [symmetric] dest_def [symmetric] sport_def [symmetric] dport_def [symmetric] f_def [symmetric] sq_def [symmetric]
      ack_def [symmetric] tl_def [symmetric] run
    using arr drp ref by auto
qed

section \<open>An example\<close>

definition example_app :: "unit tcp_app" where
  "example_app = \<lparr>recv_null_fn = 1, accept_null_fn = 2, app_recv = (\<lambda>f arg pcb p e s. Some (ERR_OK, s)), app_accept = (\<lambda>f arg pcb e s. Some (ERR_OK, s)),
     app_connected = (\<lambda>f arg pcb e s. Some (ERR_OK, s)), app_sent = (\<lambda>f arg pcb l s. Some (ERR_OK, s)), app_poll = (\<lambda>f arg pcb s. Some (ERR_OK, s)),
     app_err = (\<lambda>f arg e s. Some s)\<rparr>"

definition no_seg :: tcp_seg where "no_seg = \<lparr>seg_p = NULL, dataptr = NULL, seg_len = 0, seg_flags = 0, seg_tcphdr = NULL\<rparr>"

text \<open>A state of the layers below, with TCP as it is after the start of the program.\<close>

definition with_tcp :: "reass_state \<Rightarrow> tcp_stack" where
  "with_tcp s = reass_state.extend s (tcp_stack.fields Map.empty Map.empty Map.empty [] [] [] [] 0 0 4096 6510 NULL no_seg NULL NULL 0 0 0 0 0 NULL)"

lemma with_tcp_fields:
  "ram_heap (with_tcp s) = ram_heap s" "memp (with_tcp s) = memp s" "pbufs (with_tcp s) = pbufs s" "bytes (with_tcp s) = bytes s" "netifs (with_tcp s) = netifs s"
  "netif_list (with_tcp s) = netif_list s" "netif_default (with_tcp s) = netif_default s" "tx (with_tcp s) = tx s" "arp_table (with_tcp s) = arp_table s"
  "etharp_cached_entry (with_tcp s) = etharp_cached_entry s" "tcp_tab (with_tcp s) = Map.empty" "tcp_listen_tab (with_tcp s) = Map.empty" "tcp_segs (with_tcp s) = Map.empty"
  "tcp_active_pcbs (with_tcp s) = []" "tcp_listen_pcbs (with_tcp s) = []" "tcp_bound_pcbs (with_tcp s) = []" "tcp_tw_pcbs (with_tcp s) = []" "tcp_port (with_tcp s) = 4096"
  by (simp_all add: with_tcp_def reass_state.extend_def tcp_stack.fields_def)

lemma with_tcp_ok: "link_ok sizes base (with_tcp s) = link_ok sizes base s" "own_packet (with_tcp s) p xs = own_packet s p xs" "chain_data (with_tcp s) xs = chain_data s xs"
proof -
  show "link_ok sizes base (with_tcp s) = link_ok sizes base s" by (simp add: link_ok_def net_ok_def arp_ok_def queue_elem_def with_tcp_fields)
  show "own_packet (with_tcp s) p xs = own_packet s p xs" by (simp add: own_packet_def held_def with_tcp_fields)
  show "chain_data (with_tcp s) xs = chain_data s xs" by (rule chain_data_cong) (simp add: pbuf_data_def with_tcp_fields split: option.split)
qed

text \<open>A segment with \<open>SYN\<close> from port 4096 of 10.0.0.2 to port 80 of 10.0.0.1.\<close>

definition example_syn :: "u8_t list" where
  "example_syn = [0x45, 0, 0, 40, 0, 0, 0, 0, 64, 6, 0, 0, 10, 0, 0, 2, 10, 0, 0, 1,
     0x10, 0x00, 0x00, 0x50, 0, 0, 0, 1, 0, 0, 0, 0, 0x50, 0x02, 0x03, 0xe8, 0x87, 0xa7, 0, 0]"

lemma example_syn_fields:
  "iph_src (hdr_mem example_syn) 0 = 0x0200000a" "iph_dest (hdr_mem example_syn) 0 = 0x0100000a" "IPH_HL (hdr_mem example_syn) 0 = 5"
  "ntohs (ld16 (hdr_mem example_syn) 20) = 4096" "ntohs (ld16 (hdr_mem example_syn) 22) = 80" "ntohl (ld32 (hdr_mem example_syn) 24) = 1"
  "ntohl (ld32 (hdr_mem example_syn) 28) = 0" "ld16 (hdr_mem example_syn) 32 = 0x0250"
  "chksum_of (pseudo_header 0x0200000a 0x0100000a 6 20 @ drop 20 example_syn) = 0"
proof -
  show "iph_src (hdr_mem example_syn) 0 = 0x0200000a" "iph_dest (hdr_mem example_syn) 0 = 0x0100000a" "ld16 (hdr_mem example_syn) 32 = 0x0250"
    by (simp_all add: iph_src_def iph_dest_def ld32_def ld16_def hdr_mem_def poke_def example_syn_def)
  show "IPH_HL (hdr_mem example_syn) 0 = 5" by (simp add: IPH_HL_def hdr_mem_def poke_def ld16_def example_syn_def ntohs_def htons_def)
  show "ntohs (ld16 (hdr_mem example_syn) 20) = 4096" "ntohs (ld16 (hdr_mem example_syn) 22) = 80" "ntohl (ld32 (hdr_mem example_syn) 24) = 1" "ntohl (ld32 (hdr_mem example_syn) 28) = 0"
    by (simp_all add: ld16_def ld32_def hdr_mem_def poke_def example_syn_def ntohs_def htons_def ntohl_def htonl_def)
  show "chksum_of (pseudo_header 0x0200000a 0x0100000a 6 20 @ drop 20 example_syn) = 0"
    by (simp add: chksum_of_def ones_rep_def example_syn_def pseudo_header_def le32_def)
qed

section \<open>Properties\<close>

text \<open>
  Claim C0. \<open>tcp_input\<close> on an owned packet whose headers are in its first pbuf. A segment to a broadcast or multicast address and one whose checksum over
  the pseudo header does not verify are dropped; no control block changes and nothing is sent. Any other segment, its header in host byte order and its data alone
  left in the packet, goes to the first active connection with its two addresses and ports, else to the first such one in \<open>TIME_WAIT\<close>, else to the first listener
  for its port and address. When there is none, a reset is dropped, and every other segment is refused: its packet is freed, no control block changes,
  and a reset is handed to IP towards its source, with ports swapped, the acknowledgement number as the sequence number, the sequence number plus the length in sequence
  space as the acknowledgement number, and a valid checksum, unless there is no memory or no route.
\<close>

theorem tcp_input_correct:
  fixes s :: tcp_stack
  assumes "link_ok sizes base s" and "ifs_ok s" and "own_packet s p xs" and "netifs s inp = Some n" and "pbufs s p = Some b" and "tcp_lists_ok s"
    and "hlen = unat (IPH_HL (bytes s) (payload b)) * 4" and "20 \<le> hlen" and "doff = unat (TCPH_HDRLEN (bytes s) (payload b + hlen)) * 4" and "20 \<le> doff" and "hlen + doff \<le> len b"
    and "tot_len b < 65535" and "route_of (iph_src (bytes s) (payload b)) s \<noteq> NULL \<Longrightarrow> eth_netif (netifs s) (route_of (iph_src (bytes s) (payload b)) s) m \<and> nif_mtu m = 1500"
  shows "let src = iph_src (bytes s) (payload b); dest = iph_dest (bytes s) (payload b); v = drop hlen (chain_data s xs)
    in if ip_addr_isbroadcast dest n \<or> ip_addr_ismulticast dest \<or> chksum_of (pseudo_header src dest 6 (of_nat (length v)) @ v) \<noteq> 0
       then tcp_dropped sizes base xs s (tcp_input app p inp s)
       else tcp_input_post sizes base app p xs hlen doff b m s (tcp_input app p inp s)"
  using tcp_input_arrives [OF assms(1,3-5,7-11), of app] tcp_demux_ok [OF _ assms(6,2) own_packetD(6) [OF assms(3)] assms(12,13), of sizes base hlen doff _ app]
  unfolding Let_def by (auto split: if_splits)

theorem tcp_input_correct_witness:
  "\<exists>p (s :: tcp_stack). chain_data s [p] = example_syn \<and> tcp_refused example_sizes 20000 [p] 0 2 0x0100000a 0x0200000a 80 4096 example_netif s (tcp_input example_app p 5000 s)"
proof -
  let ?v = example_syn
  have l: "length ?v = 40" by (simp add: example_syn_def)
  obtain p b and t :: udp_state where t: "udp_ok example_sizes 20000 t" "netifs t = [5000 \<mapsto> example_netif]" "netif_list t = [5000]" "netif_default t = 5000"
    "own_packet t p [p]" "pbufs t p = Some b" "len b = 40" "chain_data t [p] = ?v" "peek (bytes t) (payload b) 40 = ?v"
    using udp_example [of ?v PBUF_LINK] unfolding l by auto
  define s1 where "s1 = with_reass t"
  define s where "s = with_tcp s1"
  have lk1: "link_ok example_sizes 20000 s1" using t(1) with_reass_ok(1) [of example_sizes 20000 t] unfolding s1_def by (simp add: udp_ok_def)
  have s: "netifs s = [5000 \<mapsto> example_netif]" "netif_list s = [5000]" "netif_default s = 5000" "pbufs s p = Some b" "peek (bytes s) (payload b) (length ?v) = ?v"
    using t unfolding s_def s1_def with_tcp_fields with_reass_fields l by simp_all
  have lk: "link_ok example_sizes 20000 s" unfolding s_def with_tcp_ok by (rule lk1)
  have own: "own_packet s p [p]" unfolding s_def s1_def with_tcp_ok with_reass_ok using t(5) .
  have dat: "chain_data s [p] = ?v" unfolding s_def s1_def with_tcp_ok with_reass_ok using t(8) .
  have io: "ifs_ok s" and n: "netifs s 5000 = Some example_netif" using s(1-3) by (simp_all add: ifs_ok_def)
  have lists: "tcp_lists_ok s" by (simp add: tcp_lists_ok_def s_def with_tcp_fields)
  have l20: "20 \<le> length ?v" by (simp add: l)
  note f = iph_at [OF s(5) l20]
  have at: "ld16 (bytes s) (payload b + k) = ld16 (hdr_mem ?v) k" if "k + 2 \<le> 40" for k using hdr_at(1) [OF s(5), of k] that by (simp add: l)
  have at4: "ld32 (bytes s) (payload b + k) = ld32 (hdr_mem ?v) k" if "k + 4 \<le> 40" for k using hdr_at(2) [OF s(5), of k] that by (simp add: l)
  have hl: "20 = unat (IPH_HL (bytes s) (payload b)) * 4" unfolding f example_syn_fields(3) by simp
  have off: "ld16 (bytes s) (payload b + 20 + 12) = 0x0250" using at [of 32] example_syn_fields(8) by (simp add: add.assoc)
  have doff: "20 = unat (TCPH_HDRLEN (bytes s) (payload b + 20)) * 4" unfolding TCPH_HDRLEN_def off by (simp add: ntohs_def htons_def)
  have fl: "TCPH_FLAGS (bytes s) (payload b + 20) = TCP_SYN" unfolding TCPH_FLAGS_def off by (simp add: ntohs_def htons_def TCP_FLAGS_def TCP_SYN_def)
  have tl: "tot_len b = 40" using own_head [OF own] s(4) t(7) by (auto simp: plen_simps)
  have rt: "route_of 0x0200000a s = 5000" by (simp add: route_of_def s(1-3) example_netif_def netif_is_up_def NETIF_FLAG_UP_def ip_addr_netcmp_def)
  have src: "iph_src (bytes s) (payload b) = 0x0200000a" "iph_dest (bytes s) (payload b) = 0x0100000a" unfolding f example_syn_fields(1,2) by simp_all
  have m: "eth_netif (netifs s) (route_of (iph_src (bytes s) (payload b)) s) example_netif \<and> nif_mtu example_netif = 1500"
    unfolding src rt by (simp add: s(1) eth_netif_def example_netif_def)
  have b20: "20 \<le> (20 :: nat)" "20 + 20 \<le> len b" "tot_len b < 65535" using t(7) tl by simp_all
  have bc: "\<not> ip_addr_isbroadcast 0x0100000a example_netif" "\<not> ip_addr_ismulticast 0x0100000a"
    by (simp_all add: ip_addr_isbroadcast_def ip_addr_ismulticast_def example_netif_def ntohl_def htonl_def)
  have v20: "length (drop 20 ?v) = 20" by (simp add: l)
  have "tcp_input_post example_sizes 20000 example_app p [p] 20 20 b example_netif s (tcp_input example_app p 5000 s)"
    using tcp_input_correct [OF lk io own n s(4) lists hl b20(1) doff b20(1-3) m, of example_app] bc example_syn_fields(9)
    unfolding Let_def src dat v20 by simp
  moreover have "payload b + 20 + 2 = payload b + 22" "payload b + 20 + 4 = payload b + 24" "payload b + 20 + 8 = payload b + 28" by simp_all
  then have "ntohs (ld16 (bytes s) (payload b + 20)) = 4096" "ntohs (ld16 (bytes s) (payload b + 20 + 2)) = 80" "ntohl (ld32 (bytes s) (payload b + 20 + 4)) = 1"
    "ntohl (ld32 (bytes s) (payload b + 20 + 8)) = 0" using at [of 20] at [of 22] at4 [of 24] at4 [of 28] example_syn_fields(4-7) by (simp_all only:)
  moreover have "tcp_active_pcbs s = []" "tcp_tw_pcbs s = []" "tcp_listen_pcbs s = []" by (simp_all add: s_def with_tcp_fields)
  ultimately have "tcp_refused example_sizes 20000 [p] 0 2 0x0100000a 0x0200000a 80 4096 example_netif s (tcp_input example_app p 5000 s)"
    unfolding tcp_input_post_def Let_def src fl tl by (simp add: TCP_SYN_def TCP_RST_def TCP_FIN_def)
  then show ?thesis using dat by blast
qed

text \<open>
  Claim C0. The comparisons of sequence numbers. Numbers less than half of the space ahead of a common base are ordered as their unsigned distances from it, across the
  wrap-around; and \<open>TCP_SEQ_BETWEEN\<close> agrees with the disabled version of \<^verbatim>\<open>tcp.h\<close>, one unsigned comparison of distances, whenever the interval spans less than half of the space.
\<close>

theorem tcp_seq_order:
  assumes "unat (x - b) < 2 ^ 31" and "unat (y - b) < 2 ^ 31"
  shows "(TCP_SEQ_LT x y \<longleftrightarrow> x - b < y - b) \<and> (TCP_SEQ_LEQ x y \<longleftrightarrow> x - b \<le> y - b) \<and> (TCP_SEQ_GT x y \<longleftrightarrow> y - b < x - b) \<and> (TCP_SEQ_GEQ x y \<longleftrightarrow> y - b \<le> x - b)
    \<and> (TCP_SEQ_BETWEEN a b y \<longleftrightarrow> a - b \<le> y - b)"
  using seq_order [OF assms] seq_between [OF assms(2)] by blast

theorem tcp_seq_order_witness: "TCP_SEQ_LT 0xfffffff8 5 \<and> TCP_SEQ_BETWEEN 3 0xfffffff0 5"
  using tcp_seq_order [of "0xfffffff8" "0xfffffff0" 5 3] by simp

text \<open>
  Claim C0. Parsing the options of a segment is the inverse of encoding them: \<open>tcp_parseopt\<close> on a header whose options are the encoding of a list of options, ended
  by the end of the header or an end-of-list option, sets \<open>mss\<close> to the value of the last MSS option of the list, clamped, leaves it when there is none, and skips
  every option it does not know; nothing else changes. The option that \<open>tcp_output_segment\<close> sends is the encoding of \<open>TCP_MSS\<close>.
\<close>

theorem tcp_parseopt_roundtrip:
  fixes s :: tcp_stack
  assumes "tcp_tab s pcb = Some t" and "n = (unat (TCPH_HDRLEN (bytes s) (in_tcphdr s)) - 5) * 4" and "peek (bytes s) (in_tcphdr s + 20) n = concat (map opt_bytes os) @ rest"
    and "rest = [] \<or> hd rest = 0" and "list_all opt_ok os"
  shows "tcp_parseopt pcb s = Some (s\<lparr>tcp_tab := (tcp_tab s)(pcb \<mapsto> t\<lparr>mss := fold opt_mss os (mss t)\<rparr>)\<rparr>) \<and> le32 TCP_BUILD_MSS_OPTION = opt_bytes (OptMss TCP_MSS)"
proof -
  have fold: "parseopt_loop (bytes s) (in_tcphdr s + 20) n 0 m = fold opt_mss os m" for m
    using parseopt_fold [of "bytes s" "in_tcphdr s + 20" 0 n os rest n m] assms(3-5) by simp
  show ?thesis
  proof (cases "5 < unat (TCPH_HDRLEN (bytes s) (in_tcphdr s))")
    case True
    then show ?thesis using assms(1,2) fold mss_option_bytes by (simp add: tcp_parseopt_def Let_def TCP_HLEN_def mod_tcp_def)
  next
    case False
    then have "n = 0" using assms(2) by simp
    then have "fold opt_mss os (mss t) = mss t" using fold [of "mss t"] by (simp add: parseopt_end)
    then have "s\<lparr>tcp_tab := (tcp_tab s)(pcb \<mapsto> t\<lparr>mss := fold opt_mss os (mss t)\<rparr>)\<rparr> = s" using assms(1) by (simp add: fun_upd_idem)
    then show ?thesis using False mss_option_bytes by (simp add: tcp_parseopt_def Let_def)
  qed
qed

text \<open>A control block as it is after allocation, in a state with a header at address 100.\<close>

definition example_pcb :: tcp_pcb where "example_pcb = tcp_pcb_init example_app 0 0"

definition example_options :: tcp_stack where
  "example_options = (with_tcp (with_reass example_udp))\<lparr>tcp_tab := [7 \<mapsto> example_pcb], in_tcphdr := 100, bytes := poke 112 [0x70, 2] (poke 120 [1, 2, 4, 2, 0, 0, 9, 9] (\<lambda>_. 0))\<rparr>"

theorem tcp_parseopt_roundtrip_witness: "\<exists>s' t'. tcp_parseopt 7 example_options = Some s' \<and> tcp_tab s' 7 = Some t' \<and> mss t' = 512"
proof -
  let ?s = example_options and ?os = "[OptNop, OptMss 512]"
  have t: "tcp_tab ?s 7 = Some example_pcb" and h: "in_tcphdr ?s = 100" by (simp_all add: example_options_def)
  have n: "8 = (unat (TCPH_HDRLEN (bytes ?s) (in_tcphdr ?s)) - 5) * 4"
    by (simp add: h TCPH_HDRLEN_def ld16_def example_options_def poke_def ntohs_def htons_def)
  have p: "peek (bytes ?s) (in_tcphdr ?s + 20) 8 = concat (map opt_bytes ?os) @ [0, 9, 9]"
    by (simp add: h example_options_def peek_def poke_def upt_rec)
  have "fold opt_mss ?os (mss example_pcb) = 512" by (simp add: TCP_MSS_def)
  then show ?thesis using tcp_parseopt_roundtrip [OF t n p] by simp
qed

text \<open>
  Claim C0. Whatever bytes arrive as options, also malformed ones, \<open>tcp_parseopt\<close> returns, and the maximum segment size it leaves in the
  control block is the old one or lies between 1 and \<open>TCP_MSS\<close>.
\<close>

theorem tcp_parseopt_bounds:
  fixes s :: tcp_stack
  assumes "tcp_tab s pcb = Some t"
  shows "\<exists>m. tcp_parseopt pcb s = Some (s\<lparr>tcp_tab := (tcp_tab s)(pcb \<mapsto> t\<lparr>mss := m\<rparr>)\<rparr>) \<and> (m = mss t \<or> 0 < m \<and> m \<le> TCP_MSS)"
proof (cases "5 < unat (TCPH_HDRLEN (bytes s) (in_tcphdr s))")
  case True
  let ?m = "parseopt_loop (bytes s) (in_tcphdr s + TCP_HLEN) ((unat (TCPH_HDRLEN (bytes s) (in_tcphdr s)) - 5) * 4) 0 (mss t)"
  have "tcp_parseopt pcb s = Some (s\<lparr>tcp_tab := (tcp_tab s)(pcb \<mapsto> t\<lparr>mss := ?m\<rparr>)\<rparr>)" using True assms by (simp add: tcp_parseopt_def Let_def mod_tcp_def)
  then show ?thesis using parseopt_loop_bounds by blast
next
  case False
  have "s\<lparr>tcp_tab := (tcp_tab s)(pcb \<mapsto> t\<lparr>mss := mss t\<rparr>)\<rparr> = s" using assms by (simp add: fun_upd_idem)
  then have "tcp_parseopt pcb s = Some (s\<lparr>tcp_tab := (tcp_tab s)(pcb \<mapsto> t\<lparr>mss := mss t\<rparr>)\<rparr>)" using False by (simp add: tcp_parseopt_def Let_def)
  then show ?thesis by blast
qed

theorem tcp_parseopt_bounds_witness: "\<exists>m s'. tcp_parseopt 7 example_options = Some s' \<and> tcp_tab s' 7 = Some (example_pcb\<lparr>mss := m\<rparr>) \<and> 0 < m \<and> m \<le> 536"
proof -
  have t: "tcp_tab example_options 7 = Some example_pcb" by (simp add: example_options_def)
  obtain m where m: "tcp_parseopt 7 example_options = Some (example_options\<lparr>tcp_tab := (tcp_tab example_options)(7 \<mapsto> example_pcb\<lparr>mss := m\<rparr>)\<rparr>)"
    "m = mss example_pcb \<or> 0 < m \<and> m \<le> TCP_MSS" using tcp_parseopt_bounds [OF t] by blast
  have "0 < m \<and> m \<le> 536" using m(2) by (auto simp: example_pcb_def tcp_pcb_init_def TCP_MSS_def)
  then show ?thesis using m(1) by (intro exI [of _ m]) simp
qed

text \<open>
  Claim C0. The announced receive window, for a connection whose next expected number and announced right edge are at most 65535 apart. After \<open>tcp_update_rcv_ann_wnd\<close> the
  right edge of the window that will be announced is never behind the one announced before. When the space available reaches past it by the smaller
  of half the window and one segment, all of it is announced and the result is exactly the gain; otherwise the result is zero, and the right edge stays, unless the peer has already sent beyond it.
  The window announced is never larger than the space available, when the old edge was not, and no other field changes.
\<close>

theorem tcp_update_rcv_ann_wnd_correct:
  assumes "unat (rcv_nxt t - rcv_ann_right_edge t) \<le> 0xffff \<or> unat (rcv_ann_right_edge t - rcv_nxt t) \<le> 0xffff" and "tcp_update_rcv_ann_wnd t = (infl, t')"
  shows "let e = rcv_ann_right_edge t; room = rcv_nxt t + ucast (rcv_wnd t); edge = rcv_nxt t + ucast (rcv_ann_wnd t')
    in TCP_SEQ_GEQ edge e
     \<and> (if TCP_SEQ_GEQ room (e + ucast (min (TCP_WND div 2) (mss t))) then edge = room \<and> infl = edge - e else infl = 0 \<and> (TCP_SEQ_LEQ (rcv_nxt t) e \<longrightarrow> edge = e))
     \<and> (TCP_SEQ_LEQ e room \<longrightarrow> rcv_ann_wnd t' \<le> rcv_wnd t) \<and> t' = t\<lparr>rcv_ann_wnd := rcv_ann_wnd t'\<rparr>"
  using ann_wnd [OF assms] unfolding Let_def by blast

theorem tcp_update_rcv_ann_wnd_correct_witness:
  "TCP_SEQ_GEQ (0xffffff00 + ucast (rcv_ann_wnd (snd (tcp_update_rcv_ann_wnd (example_pcb\<lparr>rcv_nxt := 0xffffff00, rcv_ann_right_edge := 0xffffff80\<rparr>))))) 0xffffff80"
  using tcp_update_rcv_ann_wnd_correct [of "example_pcb\<lparr>rcv_nxt := 0xffffff00, rcv_ann_right_edge := 0xffffff80\<rparr>"
      "fst (tcp_update_rcv_ann_wnd (example_pcb\<lparr>rcv_nxt := 0xffffff00, rcv_ann_right_edge := 0xffffff80\<rparr>))"
      "snd (tcp_update_rcv_ann_wnd (example_pcb\<lparr>rcv_nxt := 0xffffff00, rcv_ann_right_edge := 0xffffff80\<rparr>))"] by (simp add: Let_def)

text \<open>
  Claim C0. \<open>tcp_bind\<close> of a closed control block, with fewer control blocks than ports in the range. For port zero the search for a port ends and finds one of the range that no
  connection, no connection in \<open>TIME_WAIT\<close> and no listener has. \<open>ERR_USE\<close> is returned exactly when a listener, a connection or a bound control block has the
  port and its address or the given one is the wildcard or they are equal, or when one in \<open>TIME_WAIT\<close> has the same address and port; then nothing but the port counter changes. Otherwise the control block gets
  the port and, if it is not the wildcard, the address, and is the first of the bound ones. (A null address is the wildcard, except for a control block in \<open>TIME_WAIT\<close> on the port.)
\<close>

theorem tcp_bind_correct:
  fixes s :: tcp_stack
  assumes "tcp_live s" and "in_port_range (tcp_port s)" and "length (tcp_active_pcbs s) + length (tcp_tw_pcbs s) + length (tcp_listen_pcbs s) < 28672"
    and "tcp_tab s pcb = Some t" and "state t = CLOSED" and "pcb \<notin> set (tcp_bound_pcbs s)"
    and "ipaddr = None \<Longrightarrow> \<not> has_pcb (\<lambda>t. t_local_port t = port) (tcp_tab s) (tcp_tw_pcbs s)"
  shows "\<exists>q s1. s1 = s\<lparr>tcp_port := (if port = 0 then q else tcp_port s)\<rparr> \<and> (if port = 0 then in_port_range q \<and> \<not> tcp_port_taken q s else q = port)
    \<and> tcp_bind pcb ipaddr port s = Some (if tcp_addr_taken ipaddr q s then (ERR_USE, s1)
        else (ERR_OK, s1\<lparr>tcp_tab := (tcp_tab s)(pcb \<mapsto> t\<lparr>t_local_ip := (case ipaddr of Some i \<Rightarrow> if ip_addr_isany i then t_local_ip t else i | None \<Rightarrow> t_local_ip t), t_local_port := q\<rparr>),
                tcp_bound_pcbs := pcb # tcp_bound_pcbs s\<rparr>))"
proof (cases "port = 0")
  case True
  obtain q where q: "tcp_new_port s = Some (q, s\<lparr>tcp_port := q\<rparr>)" "in_port_range q" "\<not> tcp_port_taken q s" using tcp_new_port_free [OF assms(1-3)] by blast
  have "\<not> has_pcb (\<lambda>t. t_local_port t = q) (tcp_tab s) (tcp_tw_pcbs s)" using q(3) by (simp add: tcp_port_taken_def has_pcb_def)
  then show ?thesis using tcp_bind_ok [OF assms(1,4-6), where ipaddr = ipaddr and q = q and port = port and ?s1.0 = "s\<lparr>tcp_port := q\<rparr>" and r = q] q True by (intro exI [of _ q] exI [of _ "s\<lparr>tcp_port := q\<rparr>"]) simp
next
  case False
  then show ?thesis using tcp_bind_ok [OF assms(1,4-7), where port = port and ?s1.0 = s and r = "tcp_port s"] by (intro exI [of _ port] exI [of _ s]) simp
qed

text \<open>Two closed control blocks; the one at address 8 is bound to port 4097.\<close>

definition example_bound :: tcp_stack where
  "example_bound = (with_tcp (with_reass example_udp))\<lparr>tcp_tab := [7 \<mapsto> example_pcb, 8 \<mapsto> example_pcb\<lparr>t_local_port := 4097\<rparr>], tcp_bound_pcbs := [8]\<rparr>"

lemma example_bound_fields:
  "tcp_tab example_bound 7 = Some example_pcb" "tcp_tab example_bound 8 = Some (example_pcb\<lparr>t_local_port := 4097\<rparr>)" "tcp_bound_pcbs example_bound = [8]"
  "tcp_active_pcbs example_bound = []" "tcp_tw_pcbs example_bound = []" "tcp_listen_pcbs example_bound = []" "tcp_port example_bound = 4096" "tcp_live example_bound"
  by (simp_all add: example_bound_def with_tcp_fields tcp_live_def)

theorem tcp_bind_correct_witness: "\<exists>s'. tcp_bind 7 (Some 0x0100000a) 80 example_bound = Some (ERR_OK, s') \<and> tcp_bound_pcbs s' = [7, 8]"
proof -
  have c: "state example_pcb = CLOSED" by (simp add: example_pcb_def tcp_pcb_init_def)
  have "\<not> tcp_addr_taken (Some 0x0100000a) 80 example_bound" by (simp add: tcp_addr_taken_def has_pcb_def example_bound_fields)
  then show ?thesis using tcp_bind_correct [of example_bound 7 example_pcb "Some 0x0100000a" 80] c by (simp add: example_bound_fields in_port_range_unat)
qed

text \<open>
  Claim C0. \<open>tcp_new_port\<close> does not look at the bound control blocks, which \<open>tcp_bind\<close> checks: a call with port zero, which asks for any free port, can
  come back with \<open>ERR_USE\<close> although almost all ports are free.
\<close>

theorem tcp_bind_any_port_fails: "\<exists>s'. tcp_bind 7 (Some 0) 0 example_bound = Some (ERR_USE, s')"
proof -
  have p: "tcp_port_used 4097 (example_bound\<lparr>tcp_port := 4097\<rparr>) = Some False" by (simp add: tcp_port_used_def example_bound_fields)
  have "tcp_next_port 4096 = 4097" by (simp add: tcp_next_port_def TCP_LOCAL_PORT_RANGE_END_def)
  then have "tcp_new_port example_bound = Some (4097, example_bound\<lparr>tcp_port := 4097\<rparr>)" using p by (subst tcp_new_port.simps) (simp add: example_bound_fields)
  moreover have "state example_pcb = CLOSED" "t_local_ip example_pcb = 0" by (simp_all add: example_pcb_def tcp_pcb_init_def)
  ultimately show ?thesis by (simp add: tcp_bind_def tcp_addr_used_def example_bound_fields addr_clash_def ip_addr_isany_def)
qed

text \<open>
  Claim C0. \<open>tcp_rexmit\<close> loses no segment and keeps the queues in order: with both queues of a connection in the order of their sequence numbers, all less than half the space ahead
  of \<open>b\<close>, the first unacknowledged segment moves to its place among the unsent ones, both queues are still in order, and together they hold the same segments. The number of
  retransmissions goes up by one, the round trip measurement is dropped, and nothing else changes.
\<close>

theorem tcp_rexmit_correct:
  fixes s :: tcp_stack
  assumes "tcp_tab s pcb = Some t" and "unacked t \<noteq> []" and "seg_queue b s (unacked t)" and "seg_queue b s (unsent t)"
  shows "\<exists>u r. tcp_rexmit pcb s = Some (s\<lparr>tcp_tab := (tcp_tab s)(pcb \<mapsto> t\<lparr>unacked := u, unsent := r, nrtx := nrtx t + 1, rttest := 0\<rparr>)\<rparr>)
    \<and> u = tl (unacked t) \<and> seg_queue b s u \<and> seg_queue b s r \<and> mset u + mset r = mset (unacked t) + mset (unsent t)"
proof -
  obtain seg segs where q: "unacked t = seg # segs" using assms(2) by (cases "unacked t") auto
  obtain r where r: "tcp_rexmit pcb s = Some (s\<lparr>tcp_tab := (tcp_tab s)(pcb \<mapsto> t\<lparr>unacked := segs, unsent := r, nrtx := nrtx t + 1, rttest := 0\<rparr>)\<rparr>)"
    "seg_queue b s segs" "seg_queue b s r" "mset r = add_mset seg (mset (unsent t))"
    using tcp_rexmit_ok [OF assms(1) q assms(3,4)] by blast
  then show ?thesis using q by (intro exI [of _ segs] exI [of _ r]) simp
qed

text \<open>Two segments of a connection, with sequence numbers 1000 and 1500: the first one is unacknowledged, the second one unsent.\<close>

definition example_queues :: tcp_stack where
  "example_queues = (with_tcp (with_reass example_udp))\<lparr>tcp_tab := [7 \<mapsto> example_pcb\<lparr>unacked := [50], unsent := [60]\<rparr>],
     tcp_segs := [50 \<mapsto> no_seg\<lparr>seg_tcphdr := 100, seg_len := 500\<rparr>, 60 \<mapsto> no_seg\<lparr>seg_tcphdr := 200, seg_len := 500\<rparr>],
     bytes := poke 104 (le32 (htonl 1000)) (poke 204 (le32 (htonl 1500)) (\<lambda>_. 0))\<rparr>"

lemma example_queues_fields:
  "tcp_tab example_queues 7 = Some (example_pcb\<lparr>unacked := [50], unsent := [60]\<rparr>)" "seg_seqno example_queues 50 = 1000" "seg_seqno example_queues 60 = 1500"
  "seg_queue 900 example_queues [50]" "seg_queue 900 example_queues [60]"
proof -
  have "htonl (htonl w) = w" for w by simp
  then show k: "seg_seqno example_queues 50 = 1000" "seg_seqno example_queues 60 = 1500"
    by (simp_all add: seg_seqno_def hdr_seqno_def example_queues_def poke_reads ntohl_def)
  show "tcp_tab example_queues 7 = Some (example_pcb\<lparr>unacked := [50], unsent := [60]\<rparr>)" by (simp add: example_queues_def)
  have "tcp_segs example_queues 50 \<noteq> None" "tcp_segs example_queues 60 \<noteq> None" by (simp_all add: example_queues_def)
  then show "seg_queue 900 example_queues [50]" "seg_queue 900 example_queues [60]" by (simp_all add: seg_queue_def seg_ahead_def k)
qed

theorem tcp_rexmit_correct_witness:
  "\<exists>s' t'. tcp_rexmit 7 example_queues = Some s' \<and> tcp_tab s' 7 = Some t' \<and> unacked t' = [] \<and> mset (unsent t') = mset [50, 60] \<and> nrtx t' = 1"
proof -
  have n: "nrtx example_pcb = 0" by (simp add: example_pcb_def tcp_pcb_init_def)
  show ?thesis using tcp_rexmit_correct [OF example_queues_fields(1), of 900] n by (auto simp: example_queues_fields)
qed

text \<open>
  Claim C0. A segment that \<open>tcp_output\<close> has sent and that takes up sequence space goes to its place in the queue of unacknowledged segments, also when it is a retransmission with a lower
  number than the last one there: the queue stays in order and gains exactly this segment.
\<close>

theorem tcp_output_unacked_correct:
  fixes s :: tcp_stack
  assumes "tcp_tab s pcb = Some t" and "seg_queue b s (unacked t)" and "seg_ahead b s seg" and "0 < TCP_TCPLEN (the (tcp_segs s seg)) (bytes s)"
  shows "\<exists>r. tcp_output_unacked seg pcb s = Some (s\<lparr>tcp_tab := (tcp_tab s)(pcb \<mapsto> t\<lparr>unacked := r\<rparr>)\<rparr>) \<and> seg_queue b s r \<and> mset r = add_mset seg (mset (unacked t))"
  by (rule tcp_output_unacked_ok [OF assms])

theorem tcp_output_unacked_correct_witness:
  "\<exists>s' t'. tcp_output_unacked 60 7 example_queues = Some s' \<and> tcp_tab s' 7 = Some t' \<and> mset (unacked t') = mset [50, 60]"
proof -
  have l: "0 < TCP_TCPLEN (the (tcp_segs example_queues 60)) (bytes example_queues)" by (simp add: TCP_TCPLEN_def example_queues_def no_seg_def)
  have "seg_ahead 900 example_queues 60" using example_queues_fields(5) by (simp add: seg_queue_def)
  then show ?thesis using tcp_output_unacked_correct [OF example_queues_fields(1) _ _ l, of 900] example_queues_fields(4) by auto
qed

text \<open>
  Claim C0. The length of the next segment of queued data is at most the data left, and at most \<open>mss - optlen\<close> when the options fit into a segment; when the peer
  announced a maximum segment size smaller than the options of the \<open>SYN\<close>, the negative difference is stored in 16 bits: the length comes out
  close to 64 KB although no data was given.
\<close>

theorem enqueue_seglen_bounds:
  "enqueue_seglen 0 3 4 = 65535 \<and> (optlen \<le> unat m \<longrightarrow> unat (enqueue_seglen left m optlen) \<le> unat left \<and> unat (enqueue_seglen left m optlen) \<le> unat m - optlen)"
proof -
  have "unat (of_int (int (unat m) - int optlen) :: u16_t) = unat m - optlen" if "optlen \<le> unat m"
  proof -
    have "int (unat m) - int optlen = int (unat m - optlen)" using that by simp
    then have "(of_int (int (unat m) - int optlen) :: u16_t) = of_nat (unat m - optlen)" by (simp only: of_int_of_nat_eq)
    moreover have "unat m - optlen < 65536" using unat_u16_less [of m] by linarith
    ultimately show ?thesis by (simp only: unat_of_nat) simp
  qed
  moreover have "enqueue_seglen 0 3 4 = 65535" by (simp add: enqueue_seglen_def)
  moreover have "int l > int k - int optlen \<longleftrightarrow> l > k - optlen" if "optlen \<le> k" for l k :: nat using that by linarith
  then have "enqueue_seglen left m optlen = (if unat left > unat m - optlen then of_int (int (unat m) - int optlen) else left)" if "optlen \<le> unat m"
    unfolding enqueue_seglen_def using that by presburger
  ultimately show ?thesis by (auto simp: not_less)
qed

theorem enqueue_seglen_bounds_witness: "unat (enqueue_seglen 1000 536 4) \<le> 532"
  using enqueue_seglen_bounds [of 4 536 1000] by simp

end
