(* ===== verification/Tcp_State.thy ===== *)
theory Tcp_State
  imports Frames Tcp_Correct
begin

text \<open>
  The state machine of a connection. Every operation of TCP that works on a control block, whatever the state of the memory and of the packets, either does not return or
  leaves the field \<open>state\<close> of the control block alone, except where the protocol says otherwise. From this the transitions of \<open>tcp_process\<close> and \<open>tcp_close\<close> follow, and that a connection
  never goes back to an earlier phase.
\<close>

section \<open>The state of a control block\<close>

text \<open>Whether a \<open>FIN\<close> in sequence has been received while a segment is processed.\<close>

definition got_fin :: "'a tcp_stack_scheme \<Rightarrow> bool" where "got_fin s \<longleftrightarrow> recv_flags s AND TF_GOT_FIN \<noteq> 0"

text \<open>The control block exists, its state and the received \<open>FIN\<close> satisfy \<open>A\<close>, and the segment that is processed has the flags \<open>fl\<close>.\<close>

definition st_in :: "addr \<Rightarrow> u8_t \<Rightarrow> (tcp_state \<Rightarrow> bool \<Rightarrow> bool) \<Rightarrow> 'a tcp_stack_scheme \<Rightarrow> bool" where
  "st_in pcb fl A s \<longleftrightarrow> in_flags s = fl \<and> (\<exists>t. tcp_tab s pcb = Some t \<and> A (state t) (got_fin s))"

abbreviation st_kept :: "addr \<Rightarrow> u8_t \<Rightarrow> (tcp_state \<Rightarrow> bool \<Rightarrow> bool) \<Rightarrow> 'a tcp_stack_scheme \<Rightarrow> bool" where
  "st_kept pcb fl A \<equiv> holds (st_in pcb fl A)"

lemma more_tcp:
  fixes s s' :: "'a tcp_stack_scheme"
  assumes "ip_state.more s' = ip_state.more s"
  shows "tcp_tab s' = tcp_tab s \<and> in_flags s' = in_flags s \<and> got_fin s' = got_fin s"
  using assms by (cases s; cases s') (simp add: got_fin_def)

lemma st_in_ip [simp]: "ip_part (st_in pcb fl A :: 'a tcp_stack_scheme \<Rightarrow> bool)"
  unfolding ip_part_def holds_def st_in_def
proof (intro allI impI)
  fix s s' :: "'a tcp_stack_scheme"
  assume "ip_state.more s' = ip_state.more s"
  then show "(in_flags s' = fl \<and> (\<exists>t. tcp_tab s' pcb = Some t \<and> A (state t) (got_fin s'))) = (in_flags s = fl \<and> (\<exists>t. tcp_tab s pcb = Some t \<and> A (state t) (got_fin s)))"
    by (simp add: more_tcp [of s' s])
qed

lemmas st_in_link [simp] = st_in_ip [THEN ip_part_link]
lemmas st_in_netif [simp] = st_in_link [THEN link_part_netif]
lemmas st_in_net [simp] = st_in_netif [THEN netif_part_net]

lemma got_fin_upd [simp]:
  "got_fin (s\<lparr>tcp_segs := x1\<rparr>) = got_fin s" "got_fin (s\<lparr>tcp_active_pcbs := x2\<rparr>) = got_fin s" "got_fin (s\<lparr>tcp_tw_pcbs := x3\<rparr>) = got_fin s"
  "got_fin (s\<lparr>inseg := x4\<rparr>) = got_fin s" "got_fin (s\<lparr>in_seqno := x5\<rparr>) = got_fin s" "got_fin (s\<lparr>in_tcplen := x6\<rparr>) = got_fin s"
  "got_fin (s\<lparr>tcp_tab := x7\<rparr>) = got_fin s" "got_fin (s\<lparr>recv_data := x8\<rparr>) = got_fin s" "got_fin (s\<lparr>bytes := x9\<rparr>) = got_fin s"
  "got_fin (s\<lparr>memp := x10\<rparr>) = got_fin s" "got_fin (s\<lparr>tcp_bound_pcbs := x11\<rparr>) = got_fin s" "got_fin (s\<lparr>tcp_input_pcb := x12\<rparr>) = got_fin s"
  by (simp_all add: got_fin_def)

lemma got_fin_flags [simp]:
  "got_fin (s\<lparr>recv_flags := x OR TF_GOT_FIN\<rparr>)" "got_fin (s\<lparr>recv_flags := recv_flags s OR TF_CLOSED\<rparr>) = got_fin s" "got_fin (s\<lparr>recv_flags := recv_flags s OR TF_RESET\<rparr>) = got_fin s"
proof -
  have "(y OR 0x20) AND 0x20 = 0x20" and "(y OR 0x10) AND 0x20 = y AND 0x20" and "(y OR 0x08) AND 0x20 = y AND 0x20" for y :: u8_t
    by (simp_all only: bit.conj_disj_distrib2) simp_all
  then show "got_fin (s\<lparr>recv_flags := x OR TF_GOT_FIN\<rparr>)" "got_fin (s\<lparr>recv_flags := recv_flags s OR TF_CLOSED\<rparr>) = got_fin s" "got_fin (s\<lparr>recv_flags := recv_flags s OR TF_RESET\<rparr>) = got_fin s"
    by (simp_all add: got_fin_def TF_GOT_FIN_def TF_CLOSED_def TF_RESET_def)
qed

lemma st_kept_upd [simp]:
  "st_kept pcb fl A (s\<lparr>tcp_segs := x1\<rparr>) = st_kept pcb fl A s" "st_kept pcb fl A (s\<lparr>tcp_active_pcbs := x2\<rparr>) = st_kept pcb fl A s" "st_kept pcb fl A (s\<lparr>tcp_tw_pcbs := x3\<rparr>) = st_kept pcb fl A s"
  "st_kept pcb fl A (s\<lparr>inseg := x4\<rparr>) = st_kept pcb fl A s" "st_kept pcb fl A (s\<lparr>in_seqno := x5\<rparr>) = st_kept pcb fl A s" "st_kept pcb fl A (s\<lparr>in_tcplen := x6\<rparr>) = st_kept pcb fl A s"
  "st_kept pcb fl A (s\<lparr>recv_data := x8\<rparr>) = st_kept pcb fl A s" "st_kept pcb fl A (s\<lparr>bytes := x9\<rparr>) = st_kept pcb fl A s"
  "st_kept pcb fl A (s\<lparr>memp := x10\<rparr>) = st_kept pcb fl A s" "st_kept pcb fl A (s\<lparr>tcp_bound_pcbs := x11\<rparr>) = st_kept pcb fl A s"
  "st_kept pcb fl A (s\<lparr>recv_flags := recv_flags s OR TF_CLOSED\<rparr>) = st_kept pcb fl A s" "st_kept pcb fl A (s\<lparr>recv_flags := recv_flags s OR TF_RESET\<rparr>) = st_kept pcb fl A s"
  by (simp_all add: holds_def st_in_def)

lemma st_kept_move:
  "st_kept pcb fl A s \<Longrightarrow> (\<And>t. A (state t) (got_fin s) \<Longrightarrow> B (state (f t)) (got_fin s)) \<Longrightarrow> returns (st_kept pcb fl B) (mod_tcp pcb f s)"
  by (auto simp: holds_def st_in_def mod_tcp_def)

lemma st_kept_mod: "st_kept pcb fl A s \<Longrightarrow> (\<And>t. state (f t) = state t) \<Longrightarrow> returns (st_kept pcb fl A) (mod_tcp pcb f s)"
  by (rule st_kept_move) simp_all

lemma st_kept_put: "st_kept pcb fl A s \<Longrightarrow> A (state t) (got_fin s) \<Longrightarrow> returns (st_kept pcb fl A) (mod_tcp pcb (\<lambda>_. t) s)"
  by (rule st_kept_move)

lemma mod_seg_keeps: "st_kept pcb fl A s \<Longrightarrow> returns (st_kept pcb fl A) (mod_seg seg f s)"
  by (auto simp: mod_seg_def holds_def st_in_def bind_eq_Some_conv returns_def)

lemmas tcp_reads [frames] = returns_read [where r = "tcp_tab s p" for s p] returns_read [where r = "tcp_segs s p" for s p] returns_read [where r = "inet_chksum_pseudo p a b c d s" for p a b c d s]
  returns_read [where r = "pbuf_clen p s" for p s] returns_read [where r = "seg_insert q g l s" for q g l s] returns_read [where r = "tcp_do_output_nagle t s" for t s]
  returns_read [where r = "ack_fields a t" for a t] returns_read [where r = "tcp_reg p l" for p l] returns_read [where r = "tcp_eff_send_mss m a s" for m a s]

lemmas st_net = net_binds [where g = "st_in pcb fl A" for pcb fl A, simplified]
lemmas st_net_tail = net_keeps [where g = "st_in pcb fl A" for pcb fl A, simplified]
lemmas st_ip = ip_output_keeps [where g = "st_in pcb fl A" for pcb fl A, THEN returns_bind, simplified]
lemmas st_mod = st_kept_mod [THEN returns_bind] mod_seg_keeps [THEN returns_bind]

section \<open>Output\<close>

lemma tcp_seg_free_st: "st_kept pcb fl A s \<Longrightarrow> returns (\<lambda>r. st_kept pcb fl A (snd r)) (tcp_seg_free seg s)"
  by (auto simp: tcp_seg_free_def intro!: frames st_net)

lemma tcp_segs_free_st: "st_kept pcb fl A s \<Longrightarrow> returns (st_kept pcb fl A) (tcp_segs_free segs s)"
  by (induction segs arbitrary: s) (auto intro!: frames tcp_seg_free_st [THEN returns_bind])

lemma tcp_output_set_header_st: "st_kept pcb fl A s \<Longrightarrow> returns (st_kept pcb fl A) (tcp_output_set_header pcb p n q s)"
  by (auto simp: tcp_output_set_header_def Let_def intro!: frames st_kept_mod)

lemma tcp_send_packet_st: "st_kept pcb fl A s \<Longrightarrow> returns (st_kept pcb fl A) (tcp_send_packet p src dest ttl tos s)"
  by (auto simp: tcp_send_packet_def Let_def intro!: frames st_ip st_net)

lemma tcp_send_empty_ack_st: "st_kept pcb fl A s \<Longrightarrow> returns (\<lambda>r. st_kept pcb fl A (snd r)) (tcp_send_empty_ack pcb s)"
  by (auto simp: tcp_send_empty_ack_def intro!: frames st_net st_mod tcp_output_set_header_st [THEN returns_bind] tcp_send_packet_st [THEN returns_bind])

lemma tcp_rst_st: "st_kept pcb fl A s \<Longrightarrow> returns (st_kept pcb fl A) (tcp_rst sq ack a b c d s)"
  by (auto simp: tcp_rst_def Let_def intro!: frames st_net tcp_send_packet_st)

lemma tcp_output_segment_st: "st_kept pcb fl A s \<Longrightarrow> returns (st_kept pcb fl A) (tcp_output_segment seg pcb s)"
  by (auto simp: tcp_output_segment_def Let_def intro!: frames st_net st_mod st_ip)

lemma returns_bind_list [frames]:
  "(x = [] \<Longrightarrow> returns P (Option.bind y h)) \<Longrightarrow> (\<And>a as. x = a # as \<Longrightarrow> returns P (Option.bind (f a as) h)) \<Longrightarrow> returns P (Option.bind (case x of [] \<Rightarrow> y | a # as \<Rightarrow> f a as) h)"
  by (cases x) simp_all

lemma returns_bind_assoc [frames]: "returns P (Option.bind a (\<lambda>x. Option.bind (f x) h)) \<Longrightarrow> returns P (Option.bind (Option.bind a f) h)"
  by (simp add: Option.bind_assoc)

lemma tcp_output_unacked_st: "st_kept pcb fl A s \<Longrightarrow> returns (st_kept pcb fl A) (tcp_output_unacked seg pcb s)"
  by (auto simp: tcp_output_unacked_def intro!: frames st_kept_mod tcp_seg_free_st [THEN returns_bind])

lemma tcp_output_loop_st: "st_kept pcb fl A s \<Longrightarrow> returns (\<lambda>r. st_kept pcb fl A (snd r)) (tcp_output_loop pcb wnd segs s)"
  by (induction segs arbitrary: s)
    (auto simp: Let_def intro!: frames st_mod tcp_output_segment_st [THEN returns_bind] tcp_output_unacked_st [THEN returns_bind])

lemma tcp_output_st: "st_kept pcb fl A s \<Longrightarrow> returns (\<lambda>r. st_kept pcb fl A (snd r)) (tcp_output pcb s)"
  by (auto simp: tcp_output_def Let_def simp del: tcp_output_loop.simps intro!: frames st_mod tcp_send_empty_ack_st tcp_output_loop_st [THEN returns_bind])

lemmas st_output = tcp_output_st [THEN returns_bind]

lemma tcp_ack_now_st: "st_kept pcb fl A s \<Longrightarrow> returns (st_kept pcb fl A) (tcp_ack_now pcb s)"
  by (auto simp: tcp_ack_now_def intro!: frames st_mod st_output)

lemma tcp_ack_st: "st_kept pcb fl A s \<Longrightarrow> returns (st_kept pcb fl A) (tcp_ack pcb s)"
  by (auto simp: tcp_ack_def intro!: frames st_mod st_kept_mod st_output)

lemma tcp_rexmit_st: "st_kept pcb fl A s \<Longrightarrow> returns (st_kept pcb fl A) (tcp_rexmit pcb s)"
  by (auto simp: tcp_rexmit_def intro!: frames st_kept_mod)

lemma tcp_rexmit_fast_st: "st_kept pcb fl A s \<Longrightarrow> returns (st_kept pcb fl A) (tcp_rexmit_fast pcb s)"
  by (auto simp: tcp_rexmit_fast_def intro!: frames st_kept_mod tcp_rexmit_st [THEN returns_bind])

section \<open>Acknowledgements\<close>

lemma st_kept_tab: "st_kept pcb fl A s \<Longrightarrow> tcp_tab s pcb = Some t \<Longrightarrow> A (state t) (got_fin s)"
  by (simp add: holds_def st_in_def)

lemma recv_wnd_update_state [simp]: "state (recv_wnd_update sq ack wnd t) = state t"
  by (simp add: recv_wnd_update_def)

lemma rtt_estimate_state [simp]: "state (rtt_estimate k t) = state t"
  by (simp add: rtt_estimate_def Let_def)

lemma ack_fields_state: "ack_fields ack t = Some t' \<Longrightarrow> state t' = state t"
  by (auto simp: ack_fields_def Let_def bind_eq_Some_conv split: if_splits)

lemma recv_dupack_st: "st_kept pcb fl A s \<Longrightarrow> returns (st_kept pcb fl A) (recv_dupack pcb e s)"
  by (auto simp: recv_dupack_def intro!: frames st_mod st_kept_mod tcp_rexmit_fast_st)

lemma ack_segment_st: "st_kept pcb fl A s \<Longrightarrow> returns (st_kept pcb fl A) (ack_segment pcb seg s)"
  by (auto simp: ack_segment_def intro!: frames st_mod tcp_seg_free_st [THEN returns_bind])

lemma ack_unacked_loop_st: "st_kept pcb fl A s \<Longrightarrow> returns (st_kept pcb fl A) (ack_unacked_loop pcb segs s)"
  by (induction segs arbitrary: s) (auto intro!: frames st_mod ack_segment_st [THEN returns_bind])

lemma ack_unsent_loop_st: "st_kept pcb fl A s \<Longrightarrow> returns (st_kept pcb fl A) (ack_unsent_loop pcb segs s)"
  by (induction segs arbitrary: s) (auto intro!: frames st_mod ack_segment_st [THEN returns_bind])

lemma recv_newack_st: "st_kept pcb fl A s \<Longrightarrow> returns (st_kept pcb fl A) (recv_newack pcb s)"
  unfolding recv_newack_def
  by (rule returns_read, rule returns_read, rule returns_bind, rule st_kept_put, assumption)
    (auto simp: ack_fields_state simp del: ack_unacked_loop.simps dest: st_kept_tab intro!: st_kept_mod ack_unacked_loop_st [THEN returns_bind])

lemma tcp_receive_ack_st: "st_kept pcb fl A s \<Longrightarrow> returns (st_kept pcb fl A) (tcp_receive_ack pcb s)"
  by (auto simp: tcp_receive_ack_def Let_def simp del: ack_unsent_loop.simps intro!: frames st_mod st_kept_mod recv_dupack_st [THEN returns_bind] recv_newack_st [THEN returns_bind] ack_unsent_loop_st [THEN returns_bind])

section \<open>Data\<close>

lemma tcp_seg_copy_st: "st_kept pcb fl A s \<Longrightarrow> returns (\<lambda>r. st_kept pcb fl A (snd r)) (tcp_seg_copy seg s)"
  by (auto simp: tcp_seg_copy_def Let_def intro!: frames st_net)

lemma oos_delete_loop_st: "st_kept pcb fl A s \<Longrightarrow> returns (\<lambda>r. st_kept pcb fl A (snd r)) (oos_delete_loop cseg segs s)"
  by (induction segs arbitrary: s) (auto simp: Let_def intro!: frames tcp_seg_free_st [THEN returns_bind])

lemma seg_trim_st: "st_kept pcb fl A s \<Longrightarrow> returns (st_kept pcb fl A) (seg_trim seg a b s)"
  by (auto simp: seg_trim_def intro!: frames st_mod st_net_tail)

lemma tcp_oos_insert_segment_st: "st_kept pcb fl A s \<Longrightarrow> returns (\<lambda>r. st_kept pcb fl A (snd r)) (tcp_oos_insert_segment c segs s)"
  by (auto simp: tcp_oos_insert_segment_def simp del: tcp_segs_free.simps oos_delete_loop.simps
      intro!: frames tcp_segs_free_st [THEN returns_bind] oos_delete_loop_st [THEN returns_bind] seg_trim_st [THEN returns_bind])

lemma oos_trim_prev_st: "st_kept pcb fl A s \<Longrightarrow> returns (st_kept pcb fl A) (oos_trim_prev prev s)"
  by (auto simp: oos_trim_prev_def Let_def intro!: frames seg_trim_st)

lemma oos_walk_st: "st_kept pcb fl A s \<Longrightarrow> returns (\<lambda>r. st_kept pcb fl A (snd r)) (oos_walk prev segs s)"
proof (induction segs arbitrary: prev s)
  case (Cons nx nxs)
  from Cons.prems show ?case
    by (auto simp: Let_def simp del: oos_walk.simps simp add: oos_walk.simps(2) [of prev nx nxs s]
        intro!: frames tcp_seg_copy_st [THEN returns_bind] oos_trim_prev_st [THEN returns_bind] tcp_oos_insert_segment_st Cons.IH [THEN returns_bind])
qed simp

lemma tcp_receive_oos_st: "st_kept pcb fl A s \<Longrightarrow> returns (st_kept pcb fl A) (tcp_receive_oos pcb s)"
  by (auto simp: tcp_receive_oos_def simp del: oos_walk.simps
      intro!: frames tcp_send_empty_ack_st [THEN returns_bind] tcp_seg_copy_st [THEN returns_bind] oos_walk_st [THEN returns_bind] st_kept_mod)

lemma trim_front_loop_st:
  assumes "st_kept pcb fl A s"
  shows "returns (\<lambda>r. st_kept pcb fl A (snd (snd r))) (trim_front_loop p off n s)"
proof -
  have "st_kept pcb fl A s \<longrightarrow> st_kept pcb fl A (snd (snd r))" if "trim_front_loop p off n s = Some r" for r
    apply (rule trim_front_loop.raw_induct [of "\<lambda>p off n s r. st_kept pcb fl A s \<longrightarrow> st_kept pcb fl A (snd (snd r))", OF _ that], rule impI)
    subgoal premises prems for f p off n s r
    proof -
      have ih: "st_kept pcb fl A s \<Longrightarrow> returns (\<lambda>r. st_kept pcb fl A (snd (snd r))) (f p off n s)" for p off n s using prems(1) by (simp add: returns_def)
      show ?thesis by (rule returnsD [OF _ prems(2)]) (use prems(3) in \<open>auto intro!: frames st_net ih\<close>)
    qed
    done
  then show ?thesis using assms by (simp add: returns_def)
qed

lemma trim_front_st: "st_kept pcb fl A s \<Longrightarrow> returns (st_kept pcb fl A) (trim_front pcb s)"
  by (auto simp: trim_front_def Let_def intro!: frames st_net trim_front_loop_st [THEN returns_bind])

lemma inseg_trim_st: "st_kept pcb fl A s \<Longrightarrow> returns (st_kept pcb fl A) (inseg_trim l s)"
  by (auto simp: inseg_trim_def Let_def intro!: frames st_net)

lemma inseg_fit_window_st: "st_kept pcb fl A s \<Longrightarrow> returns (st_kept pcb fl A) (inseg_fit_window pcb s)"
  by (auto simp: inseg_fit_window_def Let_def intro!: frames inseg_trim_st [THEN returns_bind])

lemma inseg_cover_loop_st: "st_kept pcb fl A s \<Longrightarrow> returns (\<lambda>r. st_kept pcb fl A (snd r)) (inseg_cover_loop segs s)"
  by (induction segs arbitrary: s) (auto simp: Let_def intro!: frames tcp_seg_free_st [THEN returns_bind])

lemma inseg_fit_ooseq_st: "st_kept pcb fl A s \<Longrightarrow> returns (st_kept pcb fl A) (inseg_fit_ooseq pcb s)"
  by (auto simp: inseg_fit_ooseq_def simp del: inseg_cover_loop.simps tcp_segs_free.simps
      intro!: frames st_kept_mod tcp_segs_free_st [THEN returns_bind] inseg_cover_loop_st [THEN returns_bind] inseg_trim_st [THEN returns_bind])

lemma rcv_advance_st: "st_kept pcb fl A s \<Longrightarrow> returns (st_kept pcb fl A) (rcv_advance pcb n s)"
  by (auto simp: rcv_advance_def tcp_update_rcv_ann_wnd_def Let_def intro!: frames st_kept_mod)

text \<open>The queue may hold a \<open>FIN\<close> which is now in sequence: that alone changes the state here.\<close>

definition fin_closed :: "(tcp_state \<Rightarrow> bool \<Rightarrow> bool) \<Rightarrow> bool" where
  "fin_closed A \<longleftrightarrow> (\<forall>st g. A st g \<longrightarrow> A st True) \<and> (A ESTABLISHED True \<longrightarrow> A CLOSE_WAIT True)"

lemma fin_closed_state: "fin_closed A \<Longrightarrow> A ESTABLISHED True \<Longrightarrow> A CLOSE_WAIT True"
  by (simp add: fin_closed_def)

lemma st_kept_fin: "fin_closed A \<Longrightarrow> st_kept pcb fl A s \<Longrightarrow> st_kept pcb fl A (s\<lparr>recv_flags := x OR TF_GOT_FIN\<rparr>)"
  by (auto simp: holds_def st_in_def fin_closed_def)

lemma st_kept_fin_move:
  "fin_closed A \<Longrightarrow> st_kept pcb fl A s \<Longrightarrow>
    returns (st_kept pcb fl A) (mod_tcp pcb (\<lambda>t. if state t = ESTABLISHED then t\<lparr>state := CLOSE_WAIT\<rparr> else t) (s\<lparr>recv_flags := x OR TF_GOT_FIN\<rparr>))"
  by (rule st_kept_move, rule st_kept_fin, assumption, assumption) (auto intro: fin_closed_state)

lemma oos_deliver_loop_st: "fin_closed A \<Longrightarrow> st_kept pcb fl A s \<Longrightarrow> returns (st_kept pcb fl A) (oos_deliver_loop pcb segs s)"
proof (induction segs arbitrary: s)
  case (Cons cseg segs)
  then show ?case
    by (auto intro!: frames st_net rcv_advance_st [THEN returns_bind] tcp_seg_free_st [THEN returns_bind] mod_seg_keeps [THEN returns_bind]
        st_kept_fin_move [THEN returns_bind] st_kept_mod [where f = "\<lambda>t. t\<lparr>ooseq := q\<rparr>" for q, THEN returns_bind])
qed simp

lemma tcp_receive_inorder_st: "fin_closed A \<Longrightarrow> st_kept pcb fl A s \<Longrightarrow> returns (st_kept pcb fl A) (tcp_receive_inorder pcb s)"
  by (auto simp: tcp_receive_inorder_def Let_def simp del: oos_deliver_loop.simps
      intro!: frames st_kept_fin inseg_fit_window_st [THEN returns_bind] inseg_fit_ooseq_st [THEN returns_bind] rcv_advance_st [THEN returns_bind] oos_deliver_loop_st [THEN returns_bind] tcp_ack_st)

lemma tcp_receive_data_st: "fin_closed A \<Longrightarrow> st_kept pcb fl A s \<Longrightarrow> returns (st_kept pcb fl A) (tcp_receive_data pcb s)"
  by (auto simp: tcp_receive_data_def
      intro!: frames trim_front_st [THEN returns_bind] tcp_ack_now_st [THEN returns_bind] tcp_receive_inorder_st tcp_receive_oos_st tcp_send_empty_ack_st [THEN returns_bind])

lemma tcp_receive_st: "fin_closed A \<Longrightarrow> st_kept pcb fl A s \<Longrightarrow> returns (st_kept pcb fl A) (tcp_receive pcb s)"
  by (auto simp: tcp_receive_def intro!: frames tcp_receive_ack_st [THEN returns_bind] tcp_receive_data_st tcp_ack_now_st)

section \<open>Other operations\<close>

lemma tcp_pcb_purge_st: "st_kept pcb fl A s \<Longrightarrow> returns (st_kept pcb fl A) (tcp_pcb_purge pcb s)"
  by (auto simp: tcp_pcb_purge_def simp del: tcp_segs_free.simps intro!: frames st_net st_mod st_kept_mod tcp_segs_free_st [THEN returns_bind])

lemma tcp_parseopt_st: "st_kept pcb fl A s \<Longrightarrow> returns (st_kept pcb fl A) (tcp_parseopt pcb s)"
  by (auto simp: tcp_parseopt_def Let_def intro!: frames st_kept_mod)

lemma tcp_rst_reply_st: "st_kept pcb fl A s \<Longrightarrow> returns (st_kept pcb fl A) (tcp_rst_reply sq s)"
  by (auto simp: tcp_rst_reply_def intro!: tcp_rst_st)

end
