(* ===== verification/Spec2Isabelle.thy ===== *)
theory Spec2Isabelle
  imports Tcp_State
begin

text \<open>
  A verification development of the lwIP TCP/IP stack (version 1.3) as it is built into ocaml-lwip: a single-threaded stack
  (\<open>NO_SYS\<close>) over a tap interface, with the options of \<^verbatim>\<open>lib_test/lwipopts.h\<close>. File names are relative to the directory of the sources.

  \<^bold>\<open>The program.\<close> A frame travels up and down through the layers, each of which keeps its own state. The driver
  \<^verbatim>\<open>lib_test/mintapif.c\<close> reads and writes frames; \<^verbatim>\<open>lwip/src/netif/etharp.c\<close> resolves IP addresses
  to hardware addresses and keeps packets waiting for an answer; \<^verbatim>\<open>lwip/src/core/ipv4\<close> has the IP layer, ICMP and the
  Internet checksum; \<^verbatim>\<open>lwip/src/core/udp.c\<close> has the UDP control blocks. All of them handle packets as chains of
  buffers (\<^verbatim>\<open>pbuf.c\<close>), which live on a heap (\<^verbatim>\<open>mem.c\<close>) or in fixed-size pools (\<^verbatim>\<open>memp.c\<close>).

  \<^bold>\<open>The model.\<close> Pure functions are functions on words of the width the C types have. Code with state takes and returns a record; the records
  extend each other in the order of the layers: \<open>net_state\<close> (heap, pools, packet buffers, bytes of memory),
  \<open>netif_state\<close> (interfaces and the frames written), \<open>link_state\<close> (the ARP table), \<open>ip_state\<close> (the IP layer) and \<open>udp_state\<close> (the control blocks).
  An operation is a function into an option: \<open>None\<close> is a failed \<open>LWIP_ASSERT\<close>, an access through a dangling pointer or, where the code may loop,
  not returning. Every theorem that an operation does its work says that the result is \<open>Some\<close>, that is, that it returns.
  Pointers are addresses; a record or a pbuf is found at its address in a map, the payload bytes in a memory.

  \<^bold>\<open>The theories\<close>, bottom up:

  \<^item> \<open>Lwip_Prelude\<close>: types, error codes, the state of assertions, lists and words; \<open>Allocator\<close>: the locale of an allocator (what a caller may rely on
    when it takes and releases blocks), interpreted on the heap and on the pools.
  \<^item> \<open>Inet\<close> (\<^verbatim>\<open>ipv4/inet.c\<close>): byte order, \<open>inet_aton\<close>, \<open>inet_ntoa\<close>; the round trip, the bounds of the static buffer, and an octet that is not checked.
  \<^item> \<open>Mem\<close> (\<^verbatim>\<open>mem.c\<close>): the boundary-tag heap; it refines a list of blocks with first fit, splitting and merging.
  \<^item> \<open>Memp\<close> (\<^verbatim>\<open>memp.c\<close>): the pools, their free lists and the cycle check.
  \<^item> \<open>Pbuf\<close> (\<^verbatim>\<open>pbuf.c\<close>): every operation on packet buffers over the invariant \<open>net_ok\<close>; each is described by the data of the chain
    (\<open>chain_data\<close>) and by what it leaves alone.
  \<^item> \<open>Inet_Chksum\<close> (\<^verbatim>\<open>ipv4/inet_chksum.c\<close>): the three summing loops are equal and compute the one's complement sum; the checksum of chains and pseudo headers.
  \<^item> \<open>Netif\<close> (\<^verbatim>\<open>netif.c\<close>, \<^verbatim>\<open>ipv4/ip_addr.c\<close>, \<^verbatim>\<open>mintapif.c\<close>): interfaces, address classes, the driver.
  \<^item> \<open>Etharp\<close> and \<open>Etharp_Correct\<close> (\<^verbatim>\<open>netif/etharp.c\<close>): the ARP table with its queues; resolution, ageing, input and output over the invariant \<open>link_ok\<close>.
  \<^item> \<open>Ip\<close> (\<^verbatim>\<open>ipv4/ip.c\<close>, \<^verbatim>\<open>ipv4/ip_frag.c\<close>): routing, header generation, output and fragmentation.
  \<^item> \<open>Packets\<close>: the rules by which the layers above handle a packet they own, and the frame rule \<open>kept\<close> for the packets they do not.
  \<^item> \<open>Icmp\<close> (\<^verbatim>\<open>ipv4/icmp.c\<close>): echo replies and error messages.
  \<^item> \<open>Udp\<close> (\<^verbatim>\<open>udp.c\<close>): control blocks, demultiplexing, input and output; a step relation over the calls of the interface with its invariant \<open>udp_ok\<close>.

  \<^bold>\<open>What is shown.\<close> For the allocators: refinement, no overlap of live blocks, no aborting run. For packet buffers: every operation keeps the
  invariant and has exactly the described effect on the data. For the checksum: the versions agree, and a stored checksum verifies. For ARP:
  a packet handed down is sent, queued and sent in order when the address is resolved, or reported; the table empties
  itself when the timer runs. For IP, ICMP and UDP: what is sent is header by header the specified datagram with checksums that verify,
  every error result under exactly its condition, and received datagrams reach exactly the control block that the specification selects.

  \<^bold>\<open>Bounds and loops.\<close> Loops over a chain recurse over fuel that exceeds the number of live buffers, and the theorems show that it is enough;
  the search for a port terminates because the port approaches the end of the range;
  the loop of \<open>ip_frag\<close>, which does not end for a very small maximal transmission unit, is a partial function. Theorems on output take Ethernet's unit of 1500 bytes
  and datagrams that fit it.

  \<^bold>\<open>Parameters.\<close> The addresses and element sizes of the pools, what a receive callback does, and the frames that the tap device delivers.

  \<^bold>\<open>Not modelled.\<close> \<open>ip_input\<close>, reassembly and TCP (planned, in this order); the parts that this build leaves out (IPv6, DHCP, DNS, IGMP, AutoIP,
  SNMP, raw control blocks, the sequential and the socket API, PPP and SLIP); statistics and debug output, which no decision reads; the system calls of the driver; the OCaml
  bindings, which depend on the OCaml runtime.
\<close>

end
